(* ===== verification/Ob_Rc.thy ===== *)
theory Ob_Rc
  imports Main
begin

text \<open>
  The return codes of \<^verbatim>\<open>src/src/observer/common/rc.h\<close>, in the order of \<^verbatim>\<open>DEFINE_RCS\<close>, and the
  two tests of \<^verbatim>\<open>rc.cpp\<close>.
\<close>

section \<open>Return codes\<close>

datatype (plugins only: code) rc =
    SUCCESS | INVALID_ARGUMENT | UNIMPLEMENTED | SQL_SYNTAX | INTERNAL | NOMEM | NOTFOUND
  | EMPTY | FULL | EXIST | NOT_EXIST | BUFFERPOOL_OPEN | BUFFERPOOL_NOBUF
  | BUFFERPOOL_INVALID_PAGE_NUM | RECORD_OPENNED | RECORD_INVALID_RID | RECORD_INVALID_KEY
  | RECORD_DUPLICATE_KEY | RECORD_NOMEM | RECORD_EOF | RECORD_NOT_EXIST | RECORD_INVISIBLE
  | SCHEMA_DB_EXIST | SCHEMA_DB_NOT_EXIST | SCHEMA_DB_NOT_OPENED | SCHEMA_TABLE_NOT_EXIST
  | SCHEMA_TABLE_EXIST | SCHEMA_FIELD_NOT_EXIST | SCHEMA_FIELD_MISSING
  | SCHEMA_FIELD_TYPE_MISMATCH | SCHEMA_INDEX_NAME_REPEAT | IOERR_READ | IOERR_WRITE
  | IOERR_ACCESS | IOERR_OPEN | IOERR_CLOSE | IOERR_SEEK | IOERR_TOO_LONG | IOERR_SYNC
  | LOCKED_UNLOCK | LOCKED_NEED_WAIT | LOCKED_CONCURRENCY_CONFLICT | FILE_EXIST
  | FILE_NOT_EXIST | FILE_NAME | FILE_BOUND | FILE_CREATE | FILE_OPEN | FILE_NOT_OPENED
  | FILE_CLOSE | FILE_REMOVE | VARIABLE_NOT_EXISTS | VARIABLE_NOT_VALID | LOGBUF_FULL
  | LOG_FILE_FULL | LOG_ENTRY_INVALID | UNSUPPORTED

definition OB_SUCC :: "rc \<Rightarrow> bool" where
  "OB_SUCC r \<longleftrightarrow> r = SUCCESS"

definition OB_FAIL :: "rc \<Rightarrow> bool" where
  "OB_FAIL r \<longleftrightarrow> r \<noteq> SUCCESS"

lemma OB_FAIL_iff [simp]: "OB_FAIL r \<longleftrightarrow> \<not> OB_SUCC r"
  by (simp add: OB_FAIL_def OB_SUCC_def)

lemma OB_SUCC_iff [simp]: "OB_SUCC r \<longleftrightarrow> r = SUCCESS"
  by (simp add: OB_SUCC_def)


end
