(* ===== verification/Ob_Prelude.thy ===== *)
theory Ob_Prelude
  imports Ob_Rc "HOL-Library.Word" "HOL-Library.Signed_Division"
begin

unbundle bit_operations_syntax

text \<open>
  Shared vocabulary of the development: bytes and the little-endian layout of the
  fixed-width integers that the storage code copies with \<^verbatim>\<open>memcpy\<close>, and the list lemmas the components share.

  Conventions used by every theory.
  \<^item> A C++ \<^verbatim>\<open>int\<close>, \<^verbatim>\<open>int32_t\<close> or \<^verbatim>\<open>int64_t\<close> is an \<open>int\<close>; where the code's arithmetic can leave
    the range of the machine type the wrap-around is written out, elsewhere the component's
    invariant bounds the value. Byte values are \<open>8 word\<close>.
  \<^item> A function that returns a code \<^verbatim>\<open>RC\<close> and updates its object is a function from the object to
    a pair of the code and the new object; every early return is a branch.
  \<^item> An access outside the memory an object owns, or a failed \<^verbatim>\<open>ASSERT\<close>, has no defined result in
    C++: the operation's result type is then an \<open>option\<close> and the value is \<open>None\<close>.
  \<^item> Log messages are not modelled.
\<close>

named_theorems ob_defs \<open>definitions of small accessors, unfolded by the component proofs\<close>

section \<open>Bytes and little-endian integers\<close>

type_synonym byte = "8 word"

fun le_encode :: "nat \<Rightarrow> nat \<Rightarrow> byte list" where
  "le_encode 0 x = []"
| "le_encode (Suc n) x = word_of_nat (x mod 256) # le_encode n (x div 256)"

fun le_decode :: "byte list \<Rightarrow> nat" where
  "le_decode [] = 0"
| "le_decode (b # bs) = unat b + 256 * le_decode bs"

lemma length_le_encode [simp]: "length (le_encode n x) = n"
  by (induction n arbitrary: x) auto

lemma le_decode_encode: "le_decode (le_encode n x) = x mod 256 ^ n"
proof (induction n arbitrary: x)
  case (Suc n)
  have "x mod (256 * 256 ^ n) = x mod 256 + 256 * (x div 256 mod 256 ^ n)"
    by (simp add: mod_mult2_eq)
  then show ?case by (simp add: Suc.IH unat_of_nat)
qed simp

lemma le_decode_bound: "le_decode bs < 256 ^ length bs"
proof (induction bs)
  case (Cons b bs)
  have "unat b < 256" using unsigned_less [of b] by simp
  then have "unat b + 256 * le_decode bs < 256 + 256 * le_decode bs" by simp
  also have "\<dots> = 256 * (le_decode bs + 1)" by simp
  also have "\<dots> \<le> 256 * 256 ^ length bs" using Cons.IH by (intro mult_le_mono2) simp
  finally show ?case by simp
qed simp

lemma le_encode_decode: "le_encode (length bs) (le_decode bs) = bs"
proof (induction bs)
  case (Cons b bs)
  have b: "unat b < 256" using unsigned_less [of b] by simp
  then have "(unat b + 256 * le_decode bs) mod 256 = unat b"
    and "(unat b + 256 * le_decode bs) div 256 = le_decode bs" by auto
  then show ?case using Cons.IH by simp
qed simp

definition signed_of :: "nat \<Rightarrow> nat \<Rightarrow> int" where
  "signed_of n x = (if x < 2 ^ (n - 1) then int x else int x - 2 ^ n)"

definition int_fits :: "nat \<Rightarrow> int \<Rightarrow> bool" where
  "int_fits n v \<longleftrightarrow> - (2 ^ (n - 1)) \<le> v \<and> v < 2 ^ (n - 1)"

definition int_bytes :: "nat \<Rightarrow> int \<Rightarrow> byte list" where
  "int_bytes k v = le_encode k (nat (v mod 2 ^ (8 * k)))"

definition bytes_int :: "byte list \<Rightarrow> int" where
  "bytes_int bs = signed_of (8 * length bs) (le_decode bs)"

lemma length_int_bytes [simp]: "length (int_bytes k v) = k"
  by (simp add: int_bytes_def)

lemma signed_of_mod:
  assumes "0 < n" and "int_fits n v"
  shows "signed_of n (nat (v mod 2 ^ n)) = v"
proof -
  obtain m where n: "n = Suc m" using assms(1) by (cases n) auto
  show ?thesis
  proof (cases "0 \<le> v")
    case True
    then have "v mod 2 ^ n = v" using assms(2) by (simp add: int_fits_def n)
    then show ?thesis using True assms(2) by (simp add: signed_of_def int_fits_def n nat_less_iff)
  next
    case False
    have "v mod 2 ^ n = (v + 2 ^ n) mod 2 ^ n" by simp
    also have "\<dots> = v + 2 ^ n"
      using False assms(2) by (intro mod_pos_pos_trivial) (auto simp: int_fits_def n)
    finally show ?thesis
      using False assms(2) by (auto simp: signed_of_def int_fits_def n nat_less_iff)
  qed
qed

lemma bytes_int_bytes:
  assumes "0 < k" and "int_fits (8 * k) v"
  shows "bytes_int (int_bytes k v) = v"
proof -
  have "nat (v mod 2 ^ (8 * k)) < 256 ^ k"
  proof -
    have "nat (v mod 2 ^ (8 * k)) < nat (2 ^ (8 * k))"
      by (subst nat_less_eq_zless) auto
    then show ?thesis by (simp add: power_mult nat_power_eq)
  qed
  then show ?thesis
    using signed_of_mod [of "8 * k" v] assms
    by (simp add: bytes_int_def int_bytes_def le_decode_encode)
qed

lemma bytes_int_fits: "bs \<noteq> [] \<Longrightarrow> int_fits (8 * length bs) (bytes_int bs)"
proof -
  assume ne: "bs \<noteq> []"
  obtain m where m: "8 * length bs = Suc m" using ne by (cases "8 * length bs") auto
  have "le_decode bs < 2 ^ (8 * length bs)"
    using le_decode_bound [of bs] by (simp add: power_mult)
  then have "int (le_decode bs) < 2 ^ Suc m"
    by (metis m of_nat_less_iff of_nat_numeral of_nat_power)
  then show ?thesis
    by (auto simp: bytes_int_def signed_of_def int_fits_def m not_less)
qed

text \<open>Equations over \<open>int\<close>, whose numerals are binary, for evaluation.\<close>

fun le_encode_int :: "nat \<Rightarrow> int \<Rightarrow> byte list" where
  "le_encode_int 0 x = []"
| "le_encode_int (Suc n) x = word_of_int (x mod 256) # le_encode_int n (x div 256)"

fun le_decode_int :: "byte list \<Rightarrow> int" where
  "le_decode_int [] = 0"
| "le_decode_int (b # bs) = uint b + 256 * le_decode_int bs"

lemma le_encode_int_eq: "le_encode k (nat (v mod 2 ^ (8 * k))) = le_encode_int k v"
proof (induction k arbitrary: v)
  case (Suc k)
  have p: "(2 :: int) ^ (8 * Suc k) = 256 * 2 ^ (8 * k)" by (simp add: power_add)
  have m: "v mod 2 ^ (8 * Suc k) = v mod 256 + 256 * (v div 256 mod 2 ^ (8 * k))"
    unfolding p using zmod_zmult2_eq [of "2 ^ (8 * k)" v 256] by simp
  have nn: "0 \<le> v mod 256" "v mod 256 < 256" "0 \<le> v div 256 mod 2 ^ (8 * k)" by auto
  then have "nat (v mod 2 ^ (8 * Suc k)) = nat (v mod 256) + 256 * nat (v div 256 mod 2 ^ (8 * k))"
    unfolding m by (simp add: nat_add_distrib nat_mult_distrib)
  moreover have "nat (v mod 256) < 256" using nn by simp
  ultimately have "nat (v mod 2 ^ (8 * Suc k)) mod 256 = nat (v mod 256)"
    "nat (v mod 2 ^ (8 * Suc k)) div 256 = nat (v div 256 mod 2 ^ (8 * k))" by simp_all
  then show ?case using Suc.IH [of "v div 256"] nn by (simp del: power_Suc)
qed simp

lemma int_bytes_code [code]: "int_bytes k v = le_encode_int k v"
  by (simp add: int_bytes_def le_encode_int_eq)

lemma le_decode_int_eq: "le_decode_int bs = int (le_decode bs)"
  by (induction bs) simp_all

lemma bytes_int_code [code]:
  "bytes_int bs = (let n = 8 * length bs; x = le_decode_int bs in if x < 2 ^ (n - 1) then x else x - 2 ^ n)"
  by (simp add: bytes_int_def signed_of_def le_decode_int_eq Let_def flip: of_nat_power_less_of_nat_cancel_iff)

section \<open>List lemmas\<close>

lemma take_drop_update_range:
  "length ys = n \<Longrightarrow> k + n \<le> length xs \<Longrightarrow>
   take n (drop k (take k xs @ ys @ drop (k + n) xs)) = ys"
  by simp

definition splice :: "'a list \<Rightarrow> nat \<Rightarrow> 'a list \<Rightarrow> 'a list" where
  \<comment> \<open>\<^verbatim>\<open>memcpy(base + k, ys, |ys|)\<close> on a buffer held as a list\<close>
  "splice xs k ys = take k xs @ ys @ drop (k + length ys) xs"

definition slice :: "'a list \<Rightarrow> nat \<Rightarrow> nat \<Rightarrow> 'a list" where
  "slice xs k n = take n (drop k xs)"

lemma splice_Nil [simp]: "splice xs k [] = xs"
  by (simp add: splice_def)

lemma length_splice [simp]: "k + length ys \<le> length xs \<Longrightarrow> length (splice xs k ys) = length xs"
  by (simp add: splice_def)

lemma length_slice [simp]: "k + n \<le> length xs \<Longrightarrow> length (slice xs k n) = n"
  by (simp add: slice_def)

lemma nth_splice:
  assumes "k + length ys \<le> length xs" and "i < length xs"
  shows "splice xs k ys ! i = (if k \<le> i \<and> i < k + length ys then ys ! (i - k) else xs ! i)"
  using assms by (auto simp: splice_def nth_append)

lemma nth_slice [simp]: "i < n \<Longrightarrow> k + n \<le> length xs \<Longrightarrow> slice xs k n ! i = xs ! (k + i)"
  by (simp add: slice_def)

lemma slice_splice_same: "k + length ys \<le> length xs \<Longrightarrow> slice (splice xs k ys) k (length ys) = ys"
  by (simp add: slice_def splice_def)

lemma slice_splice_other:
  assumes "k + length ys \<le> length xs" and "j + n \<le> length xs"
    and "j + n \<le> k \<or> k + length ys \<le> j"
  shows "slice (splice xs k ys) j n = slice xs j n"
  using assms by (intro nth_equalityI) (auto simp: nth_splice)

section \<open>Bounded memory access\<close>

text \<open>
  \<^verbatim>\<open>memcpy\<close> out of and into an array of known length; \<open>None\<close> when the range leaves the array (a
  negative length is a huge \<^verbatim>\<open>size_t\<close>).
\<close>

definition mem_read :: "'a list \<Rightarrow> int \<Rightarrow> int \<Rightarrow> 'a list option" where
  "mem_read xs k n =
     (if 0 \<le> k \<and> 0 \<le> n \<and> k + n \<le> int (length xs) then Some (slice xs (nat k) (nat n)) else None)"

definition mem_write :: "'a list \<Rightarrow> int \<Rightarrow> 'a list \<Rightarrow> 'a list option" where
  "mem_write xs k ys =
     (if 0 \<le> k \<and> k + int (length ys) \<le> int (length xs) then Some (splice xs (nat k) ys) else None)"

lemma mem_read_nat [simp]: "k + n \<le> length xs \<Longrightarrow> mem_read xs (int k) (int n) = Some (slice xs k n)"
  by (simp add: mem_read_def)

lemma mem_write_nat [simp]: "k + length ys \<le> length xs \<Longrightarrow> mem_write xs (int k) ys = Some (splice xs k ys)"
  by (simp add: mem_write_def)

lemma mem_read_SomeD: "mem_read xs k n = Some ys \<Longrightarrow> 0 \<le> k \<and> 0 \<le> n \<and> k + n \<le> int (length xs) \<and> ys = slice xs (nat k) (nat n)"
  by (simp add: mem_read_def split: if_splits)

lemma mem_write_SomeD: "mem_write xs k ys = Some zs \<Longrightarrow> 0 \<le> k \<and> k + int (length ys) \<le> int (length xs) \<and> zs = splice xs (nat k) ys"
  by (simp add: mem_write_def split: if_splits)

lemma mem_write_length: "mem_write xs k ys = Some zs \<Longrightarrow> length zs = length xs"
proof -
  assume "mem_write xs k ys = Some zs"
  then have "nat k + length ys \<le> length xs" "zs = splice xs (nat k) ys"
    by (auto simp: mem_write_def split: if_splits)
  then show ?thesis by simp
qed

section \<open>32-bit results\<close>

definition int32_of :: "int \<Rightarrow> int" where
  \<comment> \<open>\<^verbatim>\<open>static_cast<int32_t>\<close> of a wider integer\<close>
  "int32_of v = signed_of 32 (nat (v mod 2 ^ 32))"

lemma int32_of_code [code]:
  "int32_of v = (let x = v mod 4294967296 in if x < 2147483648 then x else x - 4294967296)"
  by (auto simp: int32_of_def signed_of_def Let_def nat_less_iff)

lemma int32_of_fits: "int_fits 32 v \<Longrightarrow> int32_of v = v"
  using signed_of_mod [of 32 v] by (simp add: int32_of_def)

lemma int32_of_bounds [simp]: "- 2147483648 \<le> int32_of v" "int32_of v \<le> 2147483647"
proof -
  define x where "x = nat (v mod 4294967296)"
  have "x < 4294967296" unfolding x_def by (simp add: nat_less_iff)
  then show "- 2147483648 \<le> int32_of v" "int32_of v \<le> 2147483647"
    by (simp_all add: int32_of_def signed_of_def flip: x_def)
qed

lemma int32_of_diff:
  assumes "0 \<le> a" "a < 2147483648" "0 \<le> b" "b < 2147483648"
  shows "int32_of (a - b) = a - b"
  using assms by (intro int32_of_fits) (simp add: int_fits_def)

end
