(* ===== verification/Bitmap.thy ===== *)
theory Bitmap
  imports Ob_Prelude
begin

unbundle bit_operations_syntax

text \<open>
  \<^verbatim>\<open>common::Bitmap\<close> (\<^verbatim>\<open>src/deps/common/lang/bitmap.cpp\<close>): the free-slot map of a record page and of a
  buffer-pool file header. The object does not own its memory: \<open>bits\<close> is the memory from
  \<^verbatim>\<open>bitmap_\<close> on, \<open>bm_size\<close> the number of bits in use. An access outside \<open>bits\<close> is \<open>None\<close>.
\<close>

record bitmap =
  bits :: "byte list"
  bm_size :: int

definition bitmap_init :: "byte list \<Rightarrow> int \<Rightarrow> bitmap" where
  "bitmap_init mem n = \<lparr>bits = mem, bm_size = n\<rparr>"

text \<open>The loops of \<^verbatim>\<open>find_first_zero\<close> and \<^verbatim>\<open>find_first_setted\<close> over the bits of one byte.\<close>

function find_first_zero :: "byte \<Rightarrow> nat \<Rightarrow> int" where
  "find_first_zero b i =
     (if i < 8 then if b AND push_bit i 1 = 0 then int i else find_first_zero b (Suc i) else - 1)"
  by pat_completeness auto
termination
  by (relation "measure (\<lambda>(b, i). 8 - i)") auto

function find_first_setted :: "byte \<Rightarrow> nat \<Rightarrow> int" where
  "find_first_setted b i =
     (if i < 8 then if b AND push_bit i 1 \<noteq> 0 then int i else find_first_setted b (Suc i) else - 1)"
  by pat_completeness auto
termination
  by (relation "measure (\<lambda>(b, i). 8 - i)") auto

definition bytes :: "int \<Rightarrow> int" where
  "bytes n = (if n smod 8 = 0 then n sdiv 8 else n sdiv 8 + 1)"

definition get_bit :: "bitmap \<Rightarrow> int \<Rightarrow> bool option" where
  "get_bit bm i =
     (if 0 \<le> i \<and> nat i div 8 < length (bits bm)
      then Some (bits bm ! (nat i div 8) AND push_bit (nat i mod 8) 1 \<noteq> 0)
      else None)"

definition set_bit :: "bitmap \<Rightarrow> int \<Rightarrow> bitmap option" where
  "set_bit bm i =
     (if 0 \<le> i \<and> nat i div 8 < length (bits bm)
      then let k = nat i div 8
           in Some (bm\<lparr>bits := (bits bm)[k := bits bm ! k OR push_bit (nat i mod 8) 1]\<rparr>)
      else None)"

definition clear_bit :: "bitmap \<Rightarrow> int \<Rightarrow> bitmap option" where
  "clear_bit bm i =
     (if 0 \<le> i \<and> nat i div 8 < length (bits bm)
      then let k = nat i div 8
           in Some (bm\<lparr>bits := (bits bm)[k := bits bm ! k AND NOT (push_bit (nat i mod 8) 1)]\<rparr>)
      else None)"

text \<open>
  The search loop, from byte \<open>iter\<close> with the first bit to try in it: \<open>search\<close> is the search in one
  byte, \<open>skip\<close> the byte value the code does not look into (\<^verbatim>\<open>-1\<close>, all ones, or \<^verbatim>\<open>0x00\<close>). The result
  \<open>- 1\<close> is \<^verbatim>\<open>ret\<close> when the loop ends without a hit. A negative \<^verbatim>\<open>start\<close> gives a negative shift or
  a read before \<^verbatim>\<open>bitmap_\<close>.
\<close>

function next_bit_loop ::
  "(byte \<Rightarrow> nat \<Rightarrow> int) \<Rightarrow> byte \<Rightarrow> byte list \<Rightarrow> nat \<Rightarrow> nat \<Rightarrow> nat \<Rightarrow> int option" where
  "next_bit_loop search skip mem stop iter start_in_byte =
     (if iter < stop
      then if iter < length mem
           then if mem ! iter \<noteq> skip \<and> 0 \<le> search (mem ! iter) start_in_byte
                then Some (int iter * 8 + search (mem ! iter) start_in_byte)
                else next_bit_loop search skip mem stop (Suc iter) 0
           else None
      else Some (- 1))"
  by pat_completeness auto
termination
  by (relation "measure (\<lambda>(f, s, m, e, i, st). e - i)") auto

definition next_unsetted_bit :: "bitmap \<Rightarrow> int \<Rightarrow> int option" where
  "next_unsetted_bit bm start =
     (if start < 0 then None
      else map_option (\<lambda>ret. if bm_size bm \<le> ret then - 1 else ret)
        (next_bit_loop find_first_zero (- 1) (bits bm) (nat (bytes (bm_size bm)))
           (nat start div 8) (nat start mod 8)))"

definition next_setted_bit :: "bitmap \<Rightarrow> int \<Rightarrow> int option" where
  "next_setted_bit bm start =
     (if start < 0 then None
      else map_option (\<lambda>ret. if bm_size bm \<le> ret then - 1 else ret)
        (next_bit_loop find_first_setted 0 (bits bm) (nat (bytes (bm_size bm)))
           (nat start div 8) (nat start mod 8)))"

declare find_first_zero.simps [simp del] find_first_setted.simps [simp del]
  next_bit_loop.simps [simp del]

section \<open>Bits of a byte\<close>

lemma byte_and_mask: "i < 8 \<Longrightarrow> (b AND push_bit i 1 \<noteq> 0) = bit (b :: byte) i"
  by (auto simp: and_exp_eq_0_iff_not_bit push_bit_eq_mult)

lemma byte_all_ones: "(b :: byte) = - 1 \<longleftrightarrow> (\<forall>i<8. bit b i)"
  by (auto simp: bit_eq_iff bit_simps)

lemma byte_all_zero: "(b :: byte) = 0 \<longleftrightarrow> (\<forall>i<8. \<not> bit b i)"
  using bit_imp_le_length [of b] by (auto simp: bit_eq_iff bit_simps)

definition least_at :: "(nat \<Rightarrow> bool) \<Rightarrow> nat \<Rightarrow> nat \<Rightarrow> int \<Rightarrow> bool" where
  \<comment> \<open>\<open>r\<close> is the least index of \<open>[lo, hi)\<close> where \<open>P\<close> holds, or \<open>- 1\<close> when there is none\<close>
  "least_at P lo hi r \<longleftrightarrow>
     (if r = - 1 then \<forall>i. lo \<le> i \<and> i < hi \<longrightarrow> \<not> P i
      else \<exists>k. r = int k \<and> lo \<le> k \<and> k < hi \<and> P k \<and> (\<forall>i. lo \<le> i \<and> i < k \<longrightarrow> \<not> P i))"

lemma least_at_cong:
  assumes "\<And>i. lo \<le> i \<Longrightarrow> i < hi \<Longrightarrow> P i = Q i"
  shows "least_at P lo hi r = least_at Q lo hi r"
proof -
  have imp: "least_at Q lo hi r" if l: "least_at P lo hi r" and eq: "\<And>i. lo \<le> i \<Longrightarrow> i < hi \<Longrightarrow> P i = Q i" for P Q
  proof (cases "r = - 1")
    case True
    then show ?thesis using l eq by (simp add: least_at_def)
  next
    case False
    then obtain k where k: "r = int k" "lo \<le> k" "k < hi" "P k" "\<forall>i. lo \<le> i \<and> i < k \<longrightarrow> \<not> P i"
      using l by (auto simp: least_at_def)
    have "\<not> Q i" if "lo \<le> i" "i < k" for i using k(3,5) eq [of i] that by simp
    then show ?thesis using False k eq [of k] by (auto simp: least_at_def)
  qed
  show ?thesis using imp [of P Q] imp [of Q P] assms by blast
qed

lemma find_first_zero_least: "i \<le> 8 \<Longrightarrow> least_at (\<lambda>k. \<not> bit b k) i 8 (find_first_zero b i)"
proof (induction b i rule: find_first_zero.induct)
  case (1 b i)
  show ?case
  proof (cases "i < 8 \<and> bit b i")
    case True
    then have "least_at (\<lambda>k. \<not> bit b k) (Suc i) 8 (find_first_zero b (Suc i))"
      using "1.IH" byte_and_mask [of i b] by auto
    then show ?thesis
      using True byte_and_mask [of i b]
      by (auto simp: find_first_zero.simps [of b i] least_at_def Suc_le_eq split: if_splits)
        (metis le_neq_implies_less)+
  next
    case False
    then show ?thesis using "1.prems" byte_and_mask [of i b]
      by (auto simp: find_first_zero.simps [of b i] least_at_def)
  qed
qed

lemma find_first_setted_least: "i \<le> 8 \<Longrightarrow> least_at (\<lambda>k. bit b k) i 8 (find_first_setted b i)"
proof (induction b i rule: find_first_setted.induct)
  case (1 b i)
  show ?case
  proof (cases "i < 8 \<and> \<not> bit b i")
    case True
    then have "least_at (\<lambda>k. bit b k) (Suc i) 8 (find_first_setted b (Suc i))"
      using "1.IH" byte_and_mask [of i b] by auto
    then show ?thesis
      using True byte_and_mask [of i b]
      by (auto simp: find_first_setted.simps [of b i] least_at_def Suc_le_eq split: if_splits)
        (metis le_neq_implies_less)+
  next
    case False
    then show ?thesis using "1.prems" byte_and_mask [of i b]
      by (auto simp: find_first_setted.simps [of b i] least_at_def)
  qed
qed

section \<open>The bitmap as a set of bit numbers\<close>

definition setted :: "bitmap \<Rightarrow> nat \<Rightarrow> bool" where
  "setted bm i \<longleftrightarrow> bit (bits bm ! (i div 8)) (i mod 8)"

definition bm_wf :: "bitmap \<Rightarrow> bool" where
  \<comment> \<open>the memory holds at least the bits in use\<close>
  "bm_wf bm \<longleftrightarrow> 0 \<le> bm_size bm \<and> bytes (bm_size bm) \<le> int (length (bits bm))"

lemma bytes_nonneg:
  assumes "0 \<le> n"
  shows "bytes n = (n + 7) div 8"
proof -
  have "n smod 8 = n mod 8" and "n sdiv 8 = n div 8"
    using assms by (auto simp: signed_modulo_int_def signed_divide_int_def sgn_if)
  then have "bytes n = n div 8 + (if n mod 8 = 0 then 0 else 1)" by (simp add: bytes_def)
  also have "(if n mod 8 = 0 then 0 else 1) = (n mod 8 + 7) div 8"
    using pos_mod_bound [of 8 n] by (auto intro!: div_pos_geq [symmetric] simp: div_pos_geq)
  also have "n div 8 + (n mod 8 + 7) div 8 = (8 * (n div 8) + (n mod 8 + 7)) div 8"
    by (subst div_mult_self4) auto
  also have "8 * (n div 8) + (n mod 8 + 7) = n + 7" by simp
  finally show ?thesis .
qed

lemma bm_wf_index:
  assumes "bm_wf bm" and "int i < bm_size bm"
  shows "i div 8 < length (bits bm)" and "i div 8 < nat (bytes (bm_size bm))"
proof -
  have "int i div 8 \<le> (bm_size bm - 1) div 8" using assms by (intro zdiv_mono1) auto
  also have "\<dots> < (bm_size bm + 7) div 8"
  proof -
    have "bm_size bm + 7 = (bm_size bm - 1) + 8" by simp
    then show ?thesis by (simp only: div_add_self2)
  qed
  also have "\<dots> = bytes (bm_size bm)" using assms by (simp add: bm_wf_def bytes_nonneg)
  finally have "int (i div 8) < bytes (bm_size bm)" by (simp add: zdiv_int)
  then show "i div 8 < length (bits bm)" and "i div 8 < nat (bytes (bm_size bm))"
    using assms by (auto simp: bm_wf_def)
qed

lemma get_bit_setted: "i div 8 < length (bits bm) \<Longrightarrow> get_bit bm (int i) = Some (setted bm i)"
  using byte_and_mask [of "i mod 8"] by (simp add: get_bit_def setted_def)

lemma bit_or_mask: "k < 8 \<Longrightarrow> bit (b OR push_bit k 1 :: byte) m \<longleftrightarrow> m = k \<or> bit b m"
  by (auto simp: bit_simps)

lemma bit_and_not_mask: "k < 8 \<Longrightarrow> bit (b AND NOT (push_bit k 1) :: byte) m \<longleftrightarrow> m \<noteq> k \<and> bit b m"
  using bit_imp_le_length [of b m] by (auto simp: bit_simps)

lemma div_mod_8_eq: "(i div 8 = j div 8 \<and> i mod 8 = j mod 8) \<longleftrightarrow> i = (j :: nat)"
  by (metis div_mult_mod_eq)

lemma set_bit_setted:
  assumes "set_bit bm (int i) = Some bm'"
  shows "bm_size bm' = bm_size bm" and "length (bits bm') = length (bits bm)"
    and "j div 8 < length (bits bm) \<Longrightarrow> setted bm' j \<longleftrightarrow> j = i \<or> setted bm j"
proof -
  let ?k = "i div 8"
  have k: "?k < length (bits bm)"
    and bm': "bm' = bm\<lparr>bits := (bits bm)[?k := bits bm ! ?k OR push_bit (i mod 8) 1]\<rparr>"
    using assms by (auto simp: set_bit_def Let_def split: if_splits)
  show "bm_size bm' = bm_size bm" and "length (bits bm') = length (bits bm)"
    by (simp_all add: bm')
  show "j div 8 < length (bits bm) \<Longrightarrow> setted bm' j \<longleftrightarrow> j = i \<or> setted bm j"
    using k div_mod_8_eq [of j i] bit_or_mask [of "i mod 8"]
    by (cases "j div 8 = ?k") (auto simp: bm' setted_def)
qed

lemma clear_bit_setted:
  assumes "clear_bit bm (int i) = Some bm'"
  shows "bm_size bm' = bm_size bm" and "length (bits bm') = length (bits bm)"
    and "j div 8 < length (bits bm) \<Longrightarrow> setted bm' j \<longleftrightarrow> j \<noteq> i \<and> setted bm j"
proof -
  let ?k = "i div 8"
  have k: "?k < length (bits bm)"
    and bm': "bm' = bm\<lparr>bits := (bits bm)[?k := bits bm ! ?k AND NOT (push_bit (i mod 8) 1)]\<rparr>"
    using assms by (auto simp: clear_bit_def Let_def split: if_splits)
  show "bm_size bm' = bm_size bm" and "length (bits bm') = length (bits bm)"
    by (simp_all add: bm')
  show "j div 8 < length (bits bm) \<Longrightarrow> setted bm' j \<longleftrightarrow> j \<noteq> i \<and> setted bm j"
    using k div_mod_8_eq [of j i] bit_and_not_mask [of "i mod 8"]
    by (cases "j div 8 = ?k") (auto simp: bm' setted_def)
qed

lemma set_bit_defined: "i div 8 < length (bits bm) \<Longrightarrow> \<exists>bm'. set_bit bm (int i) = Some bm'"
  by (simp add: set_bit_def Let_def)

lemma clear_bit_defined: "i div 8 < length (bits bm) \<Longrightarrow> \<exists>bm'. clear_bit bm (int i) = Some bm'"
  by (simp add: clear_bit_def Let_def)

section \<open>The two searches\<close>

text \<open>
  One lemma for both loops: \<open>P byte k\<close> is "bit \<open>k\<close> of the byte is the kind searched for", which the
  skipped byte value has nowhere.
\<close>

lemma least_at_extend:
  "least_at P mid hi r \<Longrightarrow> lo \<le> mid \<Longrightarrow> (\<And>i. lo \<le> i \<Longrightarrow> i < mid \<Longrightarrow> \<not> P i) \<Longrightarrow> least_at P lo hi r"
  unfolding least_at_def by (auto split: if_splits) (metis not_less)+

lemma least_at_byte:
  assumes "least_at (P (mem ! iter)) start 8 (int k)" and "iter < stop"
  shows "least_at (\<lambda>i. P (mem ! (i div 8)) (i mod 8)) (8 * iter + start) (8 * stop) (int (8 * iter + k))"
proof -
  have k: "start \<le> k" "k < 8" "P (mem ! iter) k" "\<And>i. start \<le> i \<Longrightarrow> i < k \<Longrightarrow> \<not> P (mem ! iter) i"
    using assms(1) by (auto simp: least_at_def)
  have hi: "8 * iter + k < 8 * stop" using assms(2) k(2) by linarith
  have byte: "(8 * iter + j) div 8 = iter" "(8 * iter + j) mod 8 = j" if "j < 8" for j
    using that by auto
  have "\<not> P (mem ! (i div 8)) (i mod 8)" if "8 * iter + start \<le> i" "i < 8 * iter + k" for i
  proof -
    obtain j where i: "i = 8 * iter + j" and "start \<le> j" "j < k"
      using \<open>8 * iter + start \<le> i\<close> \<open>i < 8 * iter + k\<close> by (metis add_le_cancel_left le_Suc_ex le_trans less_add_same_cancel1 nat_add_left_cancel_less le_add1)
    then show ?thesis using k(2,4) byte [of j] by simp
  qed
  then show ?thesis
    unfolding least_at_def using k(1-3) hi byte [of k]
    by (auto intro!: exI [of _ "8 * iter + k"])
qed

lemma next_bit_loop_least:
  assumes search: "\<And>b k. k \<le> 8 \<Longrightarrow> least_at (P b) k 8 (search b k)"
    and skip: "\<And>k. k < 8 \<Longrightarrow> \<not> P skip k" and mem: "stop \<le> length mem"
  shows "start < 8 \<Longrightarrow>
    \<exists>r. next_bit_loop search skip mem stop iter start = Some r \<and>
        least_at (\<lambda>i. P (mem ! (i div 8)) (i mod 8)) (8 * iter + start) (8 * stop) r"
proof (induction "stop - iter" arbitrary: iter start)
  case 0
  then show ?case by (auto simp: next_bit_loop.simps [of _ _ _ _ iter] least_at_def)
next
  case (Suc n)
  let ?b = "mem ! iter" and ?Q = "\<lambda>i. P (mem ! (i div 8)) (i mod 8)"
  have iter: "iter < stop" "iter < length mem" using Suc.hyps(2) mem by auto
  have s: "least_at (P ?b) start 8 (search ?b start)" using search Suc.prems by simp
  show ?case
  proof (cases "?b \<noteq> skip \<and> 0 \<le> search ?b start")
    case True
    then obtain k where k: "search ?b start = int k" using nonneg_int_cases by metis
    then show ?thesis
      using True s iter least_at_byte [of P mem iter start k stop]
      by (auto simp: next_bit_loop.simps [of _ _ _ _ iter] algebra_simps)
  next
    case False
    have "\<not> P ?b j" if "start \<le> j" "j < 8" for j
      using False s skip that by (auto simp: least_at_def split: if_splits)
    then have none: "\<not> ?Q i" if "8 * iter + start \<le> i" "i < 8 * Suc iter" for i
    proof -
      have "i div 8 = iter" using that by auto
      moreover have "start \<le> i mod 8" using that by (metis \<open>i div 8 = iter\<close> mult_div_mod_eq nat_add_left_cancel_le)
      ultimately show ?thesis using \<open>\<And>j. start \<le> j \<Longrightarrow> j < 8 \<Longrightarrow> \<not> P ?b j\<close> [of "i mod 8"] by simp
    qed
    have "n = stop - Suc iter" using Suc.hyps(2) by simp
    then obtain r where "next_bit_loop search skip mem stop (Suc iter) 0 = Some r"
      and "least_at ?Q (8 * Suc iter + 0) (8 * stop) r"
      using Suc.hyps(1) [of "Suc iter" 0] by auto
    then show ?thesis
      using False iter none Suc.prems least_at_extend [of ?Q "8 * Suc iter" "8 * stop" r "8 * iter + start"]
      by (auto simp: next_bit_loop.simps [of _ _ _ _ iter])
  qed
qed

lemma least_at_shrink:
  "least_at P lo hi r \<Longrightarrow> hi' \<le> hi \<Longrightarrow> least_at P lo hi' (if int hi' \<le> r then - 1 else r)"
  unfolding least_at_def by (auto split: if_splits)

lemma bm_wf_stop:
  assumes "bm_wf bm"
  shows "nat (bytes (bm_size bm)) \<le> length (bits bm)" and "nat (bm_size bm) \<le> 8 * nat (bytes (bm_size bm))"
proof -
  show "nat (bytes (bm_size bm)) \<le> length (bits bm)"
    using assms by (simp add: bm_wf_def nat_le_iff)
  have "bm_size bm \<le> 8 * bytes (bm_size bm)"
    using assms minus_mod_eq_mult_div [of "bm_size bm + 7" 8] pos_mod_bound [of 8 "bm_size bm + 7"]
    by (simp add: bm_wf_def bytes_nonneg)
  then show "nat (bm_size bm) \<le> 8 * nat (bytes (bm_size bm))" by (simp add: nat_le_iff)
qed

lemma next_bit_least:
  assumes "\<And>b k. k \<le> 8 \<Longrightarrow> least_at (P b) k 8 (search b k)"
    and "\<And>k. k < 8 \<Longrightarrow> \<not> P skip k" and wf: "bm_wf bm"
  shows "\<exists>r. map_option (\<lambda>ret. if bm_size bm \<le> ret then - 1 else ret)
               (next_bit_loop search skip (bits bm) (nat (bytes (bm_size bm))) (start div 8) (start mod 8)) = Some r \<and>
             least_at (\<lambda>i. P (bits bm ! (i div 8)) (i mod 8)) start (nat (bm_size bm)) r"
proof -
  obtain r where "next_bit_loop search skip (bits bm) (nat (bytes (bm_size bm))) (start div 8) (start mod 8) = Some r"
    and "least_at (\<lambda>i. P (bits bm ! (i div 8)) (i mod 8)) start (8 * nat (bytes (bm_size bm))) r"
    using next_bit_loop_least [where P = P, OF assms(1,2) bm_wf_stop(1) [OF wf], of "start mod 8" "start div 8"]
    by auto
  then show ?thesis
    using least_at_shrink [OF _ bm_wf_stop(2) [OF wf]] wf by (auto simp: bm_wf_def)
qed

lemma next_unsetted_bit_least:
  assumes "bm_wf bm" and "0 \<le> start"
  shows "\<exists>r. next_unsetted_bit bm start = Some r \<and>
             least_at (\<lambda>i. \<not> setted bm i) (nat start) (nat (bm_size bm)) r"
  using next_bit_least [where P = "\<lambda>b k. \<not> bit b k" and skip = "- 1", OF find_first_zero_least _ assms(1), of "nat start"] assms(2)
  by (simp add: next_unsetted_bit_def setted_def)

lemma next_setted_bit_least:
  assumes "bm_wf bm" and "0 \<le> start"
  shows "\<exists>r. next_setted_bit bm start = Some r \<and>
             least_at (setted bm) (nat start) (nat (bm_size bm)) r"
  using next_bit_least [where P = bit and skip = 0, OF find_first_setted_least _ assms(1), of "nat start"] assms(2)
  by (simp add: next_setted_bit_def setted_def [abs_def])

section \<open>Properties\<close>

lemma clear_set_bits:
  assumes "i < 8" and "\<not> bit b i"
  shows "(b OR push_bit i 1) AND NOT (push_bit i 1) = (b :: byte)"
proof (rule bit_word_eqI)
  fix n
  assume "n < LENGTH(8)"
  show "bit ((b OR push_bit i 1) AND NOT (push_bit i 1)) n = bit b n"
    using assms \<open>n < LENGTH(8)\<close> by (cases "n = i") (auto simp: bit_simps)
qed

lemma first_free_bit:
  assumes wf: "bm_wf bm" and start: "0 \<le> start"
  obtains (full) "next_unsetted_bit bm start = Some (- 1)" "\<And>j. start \<le> j \<Longrightarrow> j < bm_size bm \<Longrightarrow> get_bit bm j = Some True"
    | (found) n where "next_unsetted_bit bm start = Some (int n)" "nat start \<le> n" "n < nat (bm_size bm)" "\<not> setted bm n"
      "\<And>i. nat start \<le> i \<Longrightarrow> i < n \<Longrightarrow> setted bm i"
proof -
  obtain r where r: "next_unsetted_bit bm start = Some r" "least_at (\<lambda>i. \<not> setted bm i) (nat start) (nat (bm_size bm)) r"
    using next_unsetted_bit_least [OF wf start] by blast
  show thesis
  proof (cases "r = - 1")
    case True
    have "get_bit bm j = Some True" if "start \<le> j" "j < bm_size bm" for j
      using r(2) that start get_bit_setted [OF bm_wf_index(1) [OF wf, of "nat j"]] by (auto simp: least_at_def True)
    then show thesis using full r(1) True by blast
  qed (use r found in \<open>auto simp: least_at_def\<close>)
qed

text \<open>
  C21: taking a free slot of a bitmap. \<^verbatim>\<open>next_unsetted_bit(start)\<close> returns \<open>- 1\<close> just when every bit in use from \<open>start\<close> on is
  set, and otherwise the first clear one; \<^verbatim>\<open>set_bit\<close> then sets it and changes no other bit, and \<^verbatim>\<open>clear_bit\<close> gives back
  the bitmap there was.
\<close>

theorem bitmap_allocation:
  assumes wf: "bm_wf bm" and start: "0 \<le> start"
  shows "\<exists>k. next_unsetted_bit bm start = Some k \<and>
    (k = - 1 \<longleftrightarrow> (\<forall>j. start \<le> j \<longrightarrow> j < bm_size bm \<longrightarrow> get_bit bm j = Some True)) \<and>
    (k \<noteq> - 1 \<longrightarrow> start \<le> k \<and> k < bm_size bm \<and> get_bit bm k = Some False \<and>
      (\<forall>j. start \<le> j \<longrightarrow> j < k \<longrightarrow> get_bit bm j = Some True) \<and>
      (\<exists>bm'. set_bit bm k = Some bm' \<and> get_bit bm' k = Some True \<and>
         (\<forall>j. 0 \<le> j \<longrightarrow> j \<noteq> k \<longrightarrow> get_bit bm' j = get_bit bm j) \<and> clear_bit bm' k = Some bm))"
proof (cases rule: first_free_bit [OF wf start, case_names full found])
  case (found n)
  have in_mem: "i div 8 < length (bits bm)" if "i \<le> n" for i
    using bm_wf_index [OF wf, of i] that found(3) by simp
  obtain bm' where bm': "set_bit bm (int n) = Some bm'" using set_bit_defined [of n bm] in_mem by blast
  note s = set_bit_setted [OF bm']
  have free: "get_bit bm (int n) = Some False" using get_bit_setted [OF in_mem, of n] found by simp
  have before: "get_bit bm j = Some True" if "start \<le> j" "j < int n" for j
    using get_bit_setted [OF in_mem, of "nat j"] found(5) [of "nat j"] that start by simp
  have others: "get_bit bm' j = get_bit bm j" if "0 \<le> j" "j \<noteq> int n" for j
  proof (cases "nat j div 8 < length (bits bm)")
    case True
    then show ?thesis using get_bit_setted [of "nat j" bm] get_bit_setted [of "nat j" bm'] s(2,3) that by auto
  qed (use s(2) that in \<open>simp add: get_bit_def\<close>)
  have set: "get_bit bm' (int n) = Some True" using get_bit_setted [of n bm'] s(2,3) in_mem by simp
  have e: "bm' = bm\<lparr>bits := (bits bm)[n div 8 := bits bm ! (n div 8) OR push_bit (n mod 8) 1]\<rparr>"
    using bm' in_mem [of n] by (simp add: set_bit_def Let_def)
  have "\<not> bit (bits bm ! (n div 8)) (n mod 8)" using found(4) by (simp add: setted_def)
  then have undo: "clear_bit bm' (int n) = Some bm" using in_mem [of n] clear_set_bits [of "n mod 8"] by (simp add: clear_bit_def Let_def e)
  have n: "start \<le> int n" "int n < bm_size bm" using found(2,3) start by auto
  then have "\<not> (\<forall>j. start \<le> j \<longrightarrow> j < bm_size bm \<longrightarrow> get_bit bm j = Some True)" using free by fastforce
  then show ?thesis using found(1) free before others set bm' undo n by (intro exI [of _ "int n"]) auto
qed simp

theorem bitmap_allocation_witness:
  "(\<exists>k. next_unsetted_bit \<lparr>bits = [255, 3], bm_size = 11\<rparr> 0 = Some k \<and> k \<noteq> - 1 \<and> get_bit \<lparr>bits = [255, 3], bm_size = 11\<rparr> k = Some False \<and>
     (\<exists>bm'. set_bit \<lparr>bits = [255, 3], bm_size = 11\<rparr> k = Some bm' \<and> clear_bit bm' k = Some \<lparr>bits = [255, 3], bm_size = 11\<rparr>))"
proof -
  let ?bm = "\<lparr>bits = [255, 3], bm_size = 11\<rparr> :: bitmap"
  have "bm_wf ?bm" by code_simp
  moreover have "get_bit ?bm 10 = Some False" by code_simp
  then have "\<not> (\<forall>j. 0 \<le> j \<longrightarrow> j < bm_size ?bm \<longrightarrow> get_bit ?bm j = Some True)" by force
  ultimately show ?thesis using bitmap_allocation [of ?bm 0] by blast
qed

end
