(* ===== verification/Lower_Bound.thy ===== *)
theory Lower_Bound
  imports Ob_Prelude
begin

text \<open>
  The binary search of \<^verbatim>\<open>src/deps/common/lang/lower_bound.h\<close>, which the nodes of the B+ tree use, and
  the three-way comparison functions of \<^verbatim>\<open>comparator.cpp\<close>. The sequence is a list, an iterator is
  an index into it; \<^verbatim>\<open>first\<close> and \<^verbatim>\<open>last_count\<close> are the variables of the loop.

  \<open>three_way\<close> is the interface between the search and the comparators: what a comparator promises.
  The correctness of the search is proved once from it.
\<close>

section \<open>The search\<close>

function lower_bound_loop :: "('a \<Rightarrow> 'b \<Rightarrow> int) \<Rightarrow> 'a list \<Rightarrow> 'b \<Rightarrow> nat \<Rightarrow> nat \<Rightarrow> nat \<times> bool" where
  "lower_bound_loop cf xs val first last_count =
     (if 0 < last_count
      then let step = last_count div 2; iter = first + step; result = cf (xs ! iter) val
           in if result = 0 then (iter, True)
              else if result < 0 then lower_bound_loop cf xs val (Suc iter) (last_count - (step + 1))
              else lower_bound_loop cf xs val first step
      else (first, False))"
  by pat_completeness auto
termination
  by (relation "measure (\<lambda>(c, xs, v, f, n). n)") auto

declare lower_bound_loop.simps [simp del]

definition lower_bound :: "('a \<Rightarrow> 'b \<Rightarrow> int) \<Rightarrow> 'a list \<Rightarrow> 'b \<Rightarrow> nat \<times> bool" where
  "lower_bound cf xs val = lower_bound_loop cf xs val 0 (length xs)"

section \<open>Comparison functions\<close>

definition Comparator :: "'a::linorder \<Rightarrow> 'a \<Rightarrow> int" where
  "Comparator v1 v2 = (if v1 < v2 then - 1 else if v1 > v2 then 1 else 0)"

definition compare_int :: "int \<Rightarrow> int \<Rightarrow> int" where
  "compare_int v1 v2 = (if v1 > v2 then 1 else if v1 < v2 then - 1 else 0)"

text \<open>
  \<^verbatim>\<open>strncmp\<close> compares the bytes as unsigned values and stops at the first difference, after \<open>n\<close>
  bytes or at a NUL byte. A read outside the two arrays is \<open>None\<close>.
\<close>

fun strncmp :: "byte list \<Rightarrow> byte list \<Rightarrow> nat \<Rightarrow> int option" where
  "strncmp s1 s2 0 = Some 0"
| "strncmp (a # s1) (b # s2) (Suc n) =
     (if a < b then Some (- 1) else if b < a then Some 1
      else if a = 0 then Some 0 else strncmp s1 s2 n)"
| "strncmp _ _ (Suc n) = None"

definition compare_string :: "byte list \<Rightarrow> nat \<Rightarrow> byte list \<Rightarrow> nat \<Rightarrow> int option" where
  "compare_string arg1 arg1_max_length arg2 arg2_max_length =
     (let maxlen = min arg1_max_length arg2_max_length
      in case strncmp arg1 arg2 maxlen of
           None \<Rightarrow> None
         | Some result \<Rightarrow>
             if result \<noteq> 0 then Some (if result < 0 then - 1 else 1)
             else if maxlen < arg1_max_length then Some 1
             else if maxlen < arg2_max_length then Some (- 1)
             else Some 0)"

section \<open>Correctness of the search\<close>

definition split_point :: "('a \<Rightarrow> 'b \<Rightarrow> int) \<Rightarrow> 'a list \<Rightarrow> 'b \<Rightarrow> nat \<Rightarrow> bool" where
  \<comment> \<open>\<open>p\<close> separates the elements below \<open>v\<close> from the others\<close>
  "split_point cf xs v p \<longleftrightarrow> p \<le> length xs \<and>
     (\<forall>i<p. cf (xs ! i) v < 0) \<and> (\<forall>i. p \<le> i \<and> i < length xs \<longrightarrow> 0 \<le> cf (xs ! i) v)"

definition partitioned :: "('a \<Rightarrow> 'b \<Rightarrow> int) \<Rightarrow> 'a list \<Rightarrow> 'b \<Rightarrow> bool" where
  \<comment> \<open>the comparisons of the elements with \<open>v\<close> are negative, then at most once zero, then positive\<close>
  "partitioned cf xs v \<longleftrightarrow>
     sorted_wrt (\<lambda>x y. cf y v \<le> 0 \<longrightarrow> cf x v < 0) xs \<and>
     sorted_wrt (\<lambda>x y. 0 \<le> cf x v \<longrightarrow> 0 < cf y v) xs"

lemma partitionedD:
  assumes "partitioned cf xs v" and "i < j" and "j < length xs"
  shows "cf (xs ! j) v \<le> 0 \<Longrightarrow> cf (xs ! i) v < 0" and "0 \<le> cf (xs ! i) v \<Longrightarrow> 0 < cf (xs ! j) v"
  using assms by (auto simp: partitioned_def sorted_wrt_iff_nth_less)

lemma lower_bound_loop_0: "lower_bound_loop cf xs v first 0 = (first, False)"
  by (simp add: lower_bound_loop.simps)

lemma lower_bound_loop_pos:
  assumes "0 < n"
  shows "lower_bound_loop cf xs v first n =
    (let i = first + n div 2
     in if cf (xs ! i) v = 0 then (i, True)
        else if cf (xs ! i) v < 0 then lower_bound_loop cf xs v (Suc i) (n - (n div 2 + 1))
        else lower_bound_loop cf xs v first (n div 2))"
  using assms by (subst lower_bound_loop.simps) (simp add: Let_def)

lemma lower_bound_loop_correct:
  assumes "partitioned cf xs v"
  shows "first + n \<le> length xs \<Longrightarrow> (\<forall>i<first. cf (xs ! i) v < 0) \<Longrightarrow>
    (\<forall>i. first + n \<le> i \<and> i < length xs \<longrightarrow> 0 < cf (xs ! i) v) \<Longrightarrow>
    lower_bound_loop cf xs v first n = (p, found) \<Longrightarrow>
    split_point cf xs v p \<and> found = (p < length xs \<and> cf (xs ! p) v = 0)"
proof (induction n arbitrary: first rule: less_induct)
  case (less n)
  let ?i = "first + n div 2"
  show ?case
  proof (cases "n = 0")
    case True
    then show ?thesis
      using less.prems by (fastforce simp: lower_bound_loop_0 split_point_def)
  next
    case False
    then have i: "?i < length xs" "?i < first + n" using less.prems(1) by auto
    consider (eq) "cf (xs ! ?i) v = 0" | (lt) "cf (xs ! ?i) v < 0" | (gt) "0 < cf (xs ! ?i) v"
      by linarith
    then show ?thesis
    proof cases
      case eq
      then show ?thesis
        using less.prems(4) False i partitionedD [OF assms]
        by (auto simp: lower_bound_loop_pos split_point_def le_less)
    next
      case lt
      have "lower_bound_loop cf xs v (Suc ?i) (n - (n div 2 + 1)) = (p, found)"
        using less.prems(4) lt False by (simp add: lower_bound_loop_pos Let_def)
      moreover have "\<forall>j<Suc ?i. cf (xs ! j) v < 0"
        using lt i partitionedD(1) [OF assms _ i(1)] by (auto simp: less_Suc_eq)
      moreover have "Suc ?i + (n - (n div 2 + 1)) = first + n" using False by auto
      ultimately show ?thesis using less.IH [of "n - (n div 2 + 1)" "Suc ?i"] less.prems False by auto
    next
      case gt
      have "lower_bound_loop cf xs v first (n div 2) = (p, found)"
        using less.prems(4) gt False by (simp add: lower_bound_loop_pos Let_def)
      moreover have "\<forall>j. ?i \<le> j \<and> j < length xs \<longrightarrow> 0 < cf (xs ! j) v"
        using gt partitionedD(2) [OF assms, of ?i] by (auto simp: le_less)
      ultimately show ?thesis using less.IH [of "n div 2" first] less.prems False by auto
    qed
  qed
qed

lemma lower_bound_partitioned:
  assumes "partitioned cf xs v" and "lower_bound cf xs v = (p, found)"
  shows "split_point cf xs v p" and "found \<longleftrightarrow> p < length xs \<and> cf (xs ! p) v = 0"
  using lower_bound_loop_correct [OF assms(1), of 0 "length xs" p found] assms(2)
  by (auto simp: lower_bound_def)

section \<open>The comparator interface\<close>

locale three_way =
  fixes cmp :: "'k \<Rightarrow> 'k \<Rightarrow> int"
  assumes cmp_antisym: "sgn (cmp y x) = - sgn (cmp x y)"
    and cmp_trans: "cmp x y \<le> 0 \<Longrightarrow> cmp y z \<le> 0 \<Longrightarrow> cmp x z \<le> 0"
begin

definition ascending :: "'k list \<Rightarrow> bool" where
  "ascending xs = sorted_wrt (\<lambda>x y. cmp x y < 0) xs"

lemma cmp_refl [simp]: "cmp x x = 0"
  using cmp_antisym [of x x] by (simp add: sgn_if split: if_splits)

lemma cmp_less_iff: "cmp y x < 0 \<longleftrightarrow> 0 < cmp x y"
  using cmp_antisym [of y x] by (auto simp: sgn_if split: if_splits)

lemma cmp_zero_sym: "cmp y x = 0 \<longleftrightarrow> cmp x y = 0"
  using cmp_antisym [of y x] by (auto simp: sgn_if split: if_splits)

lemma cmp_not_le: "\<not> cmp x y \<le> 0 \<longleftrightarrow> cmp y x < 0"
  using cmp_antisym [of y x] by (auto simp: sgn_if split: if_splits)

lemma cmp_le_less_trans: "cmp x y \<le> 0 \<Longrightarrow> cmp y z < 0 \<Longrightarrow> cmp x z < 0"
  using cmp_trans [of z x y] by (metis cmp_not_le)

lemma cmp_less_le_trans: "cmp x y < 0 \<Longrightarrow> cmp y z \<le> 0 \<Longrightarrow> cmp x z < 0"
  using cmp_trans [of y z x] by (metis cmp_not_le)

lemma ascending_partitioned: "ascending xs \<Longrightarrow> partitioned cmp xs v"
proof -
  assume "ascending xs"
  then have s: "cmp (xs ! i) (xs ! j) < 0" if "i < j" "j < length xs" for i j
    using that by (simp add: ascending_def sorted_wrt_iff_nth_less)
  have "cmp (xs ! i) v < 0" if "i < j" "j < length xs" "cmp (xs ! j) v \<le> 0" for i j
    using s that cmp_less_le_trans by blast
  moreover have "0 < cmp (xs ! j) v" if "i < j" "j < length xs" "0 \<le> cmp (xs ! i) v" for i j
  proof -
    have "cmp v (xs ! i) \<le> 0" using that(3) cmp_not_le [of v "xs ! i"] by linarith
    then have "cmp v (xs ! j) < 0" using s [OF that(1,2)] by (rule cmp_le_less_trans)
    then show ?thesis by (simp add: cmp_less_iff)
  qed
  ultimately show ?thesis by (auto simp: partitioned_def sorted_wrt_iff_nth_less)
qed

theorem lower_bound_ascending:
  assumes "ascending xs" and "lower_bound cmp xs v = (p, found)"
  shows "split_point cmp xs v p" and "found \<longleftrightarrow> (\<exists>x \<in> set xs. cmp x v = 0)"
    and "found \<Longrightarrow> p < length xs \<and> cmp (xs ! p) v = 0"
proof -
  note part = ascending_partitioned [OF assms(1), of v]
  note lb = lower_bound_partitioned [OF part assms(2)]
  show sp: "split_point cmp xs v p" by (rule lb(1))
  show f: "found \<Longrightarrow> p < length xs \<and> cmp (xs ! p) v = 0" using lb(2) by simp
  show "found \<longleftrightarrow> (\<exists>x \<in> set xs. cmp x v = 0)"
  proof
    assume "\<exists>x \<in> set xs. cmp x v = 0"
    then obtain i where i: "i < length xs" "cmp (xs ! i) v = 0" by (auto simp: in_set_conv_nth)
    have "p \<le> i" using i sp by (force simp: split_point_def not_less [symmetric])
    moreover have "\<not> p < i"
      using i sp partitionedD(2) [OF part, of p i] by (force simp: split_point_def)
    ultimately show found using lb(2) i by simp
  qed (use f in force)
qed

end

interpretation std: three_way "Comparator :: 'a::linorder \<Rightarrow> 'a \<Rightarrow> int"
  by unfold_locales (auto simp: Comparator_def split: if_splits)

interpretation ints: three_way compare_int
  by unfold_locales (auto simp: compare_int_def split: if_splits)

section \<open>Properties\<close>

text \<open>
  C22: the binary search of \<^verbatim>\<open>common::lower_bound\<close> on an ascending range without duplicates returns the number of
  elements below the value, and sets \<^verbatim>\<open>found\<close> exactly when the value is in the range.
\<close>

theorem lower_bound_position:
  assumes "sorted_wrt (<) (xs :: 'a::linorder list)"
  shows "lower_bound Comparator xs v = (length (filter (\<lambda>x. x < v) xs), v \<in> set xs)"
proof -
  obtain p found where pf: "lower_bound Comparator xs v = (p, found)" by fastforce
  have asc: "std.ascending xs" using assms by (auto simp: std.ascending_def Comparator_def elim: sorted_wrt_mono_rel [rotated])
  note lb = lower_bound_partitioned [OF std.ascending_partitioned [OF asc] pf]
  have p: "p \<le> length xs" "\<And>i. i < p \<Longrightarrow> xs ! i < v" "\<And>i. p \<le> i \<Longrightarrow> i < length xs \<Longrightarrow> v \<le> xs ! i"
    using lb(1) by (auto simp: split_point_def Comparator_def not_less split: if_splits) (metis not_less)
  have "filter (\<lambda>x. x < v) (take p xs) = take p xs" "filter (\<lambda>x. x < v) (drop p xs) = []"
    using p by (auto simp: filter_id_conv filter_empty_conv in_set_conv_nth not_less)
  then have "filter (\<lambda>x. x < v) xs = take p xs" by (metis append_Nil2 append_take_drop_id filter_append)
  moreover have "v \<in> set xs \<longleftrightarrow> p < length xs \<and> xs ! p = v"
  proof
    assume "v \<in> set xs"
    then obtain i where i: "i < length xs" "xs ! i = v" by (auto simp: in_set_conv_nth)
    then have "p \<le> i" using p(2) by (metis less_irrefl not_less)
    moreover have "\<not> p < i" using p(3) [of p] i assms by (metis leD less_trans order_refl sorted_wrt_nth_less)
    ultimately show "p < length xs \<and> xs ! p = v" using i by simp
  qed auto
  moreover have "found \<longleftrightarrow> p < length xs \<and> xs ! p = v" using lb(2) by (auto simp: Comparator_def split: if_splits)
  ultimately show ?thesis using pf p(1) by simp
qed

theorem lower_bound_position_witness:
  "lower_bound Comparator [1, 4, 9 :: int] 4 = (length (filter (\<lambda>x. x < 4) [1, 4, 9 :: int]), (4 :: int) \<in> set [1, 4, 9])"
  by (rule lower_bound_position) simp

end
