(* ===== verification/Lru_Cache.thy ===== *)
theory Lru_Cache
  imports Ob_Prelude "HOL-Library.Monad_Syntax"
begin

text \<open>
  \<^verbatim>\<open>common::LruCache\<close> (\<^verbatim>\<open>src/deps/common/lang/lru_cache.h\<close>) at the level of its pointers: a heap of
  list nodes linked by \<open>n_prev\<close> and \<open>n_next\<close> (\<^verbatim>\<open>prev_\<close>, \<^verbatim>\<open>next_\<close>), the two ends of the list, and \<open>searcher\<close>, the
  \<^verbatim>\<open>unordered_set\<close> of nodes that hashes and compares by key, as the map from a key to its node.
  Every field write goes through the heap, so aliasing is what the code has; following a null or
  dangling pointer is \<open>None\<close>. \<^verbatim>\<open>new\<close> takes the address \<open>fresh\<close> and moves it on.

  The theory shows that the pointer operations implement a list of key-value pairs, most recently
  used first, and states that contract as the locale \<open>lru_spec\<close> for the frame manager.
\<close>

record ('k, 'v) ListNode =
  n_key :: 'k
  n_value :: 'v
  n_prev :: "nat option"
  n_next :: "nat option"

type_synonym ('k, 'v) node_heap = "nat \<rightharpoonup> ('k, 'v) ListNode"

record ('k, 'v) LruCache =
  heap :: "('k, 'v) node_heap"
  searcher :: "'k \<rightharpoonup> nat"
  lru_front :: "nat option"
  lru_tail :: "nat option"
  fresh :: nat

section \<open>The operations\<close>

definition lru_new :: "('k, 'v) LruCache" where
  "lru_new = \<lparr>heap = Map.empty, searcher = Map.empty, lru_front = None, lru_tail = None, fresh = 0\<rparr>"

definition write_next :: "('k, 'v) node_heap \<Rightarrow> nat \<Rightarrow> nat option \<Rightarrow> ('k, 'v) node_heap option" where
  "write_next h p v = map_option (\<lambda>n. h(p \<mapsto> n\<lparr>n_next := v\<rparr>)) (h p)"

definition write_prev :: "('k, 'v) node_heap \<Rightarrow> nat \<Rightarrow> nat option \<Rightarrow> ('k, 'v) node_heap option" where
  "write_prev h p v = map_option (\<lambda>n. h(p \<mapsto> n\<lparr>n_prev := v\<rparr>)) (h p)"

definition lru_touch :: "('k, 'v) LruCache \<Rightarrow> nat \<Rightarrow> ('k, 'v) LruCache option" where
  "lru_touch c node = do {
     n \<leftarrow> heap c node;
     case n_prev n of
       None \<Rightarrow> Some c
     | Some pv \<Rightarrow> do {
         h1 \<leftarrow> write_next (heap c) pv (n_next n);
         n1 \<leftarrow> h1 node;
         (h2, tl) \<leftarrow> (case n_next n1 of
             Some nx \<Rightarrow> map_option (\<lambda>h. (h, lru_tail c)) (write_prev h1 nx (n_prev n1))
           | None \<Rightarrow> Some (h1, n_prev n1));
         h3 \<leftarrow> write_prev h2 node None;
         h4 \<leftarrow> write_next h3 node (lru_front c);
         h5 \<leftarrow> (case lru_front c of
             Some f \<Rightarrow> write_prev h4 f (Some node)
           | None \<Rightarrow> Some h4);
         Some (c\<lparr>heap := h5, lru_tail := tl, lru_front := Some node\<rparr>)
       }
   }"

definition lru_push :: "('k, 'v) LruCache \<Rightarrow> nat \<Rightarrow> ('k, 'v) LruCache option" where
  "lru_push c node = do {
     let tl = (if lru_tail c = None then Some node else lru_tail c);
     h1 \<leftarrow> write_prev (heap c) node None;
     h2 \<leftarrow> write_next h1 node (lru_front c);
     h3 \<leftarrow> (case lru_front c of
         Some f \<Rightarrow> write_prev h2 f (Some node)
       | None \<Rightarrow> Some h2);
     n \<leftarrow> h3 node;
     Some (c\<lparr>heap := h3, lru_tail := tl, lru_front := Some node,
             searcher := (if searcher c (n_key n) = None then (searcher c)(n_key n \<mapsto> node) else searcher c)\<rparr>)
   }"

definition lru_remove :: "('k, 'v) LruCache \<Rightarrow> nat \<Rightarrow> ('k, 'v) LruCache option" where
  "lru_remove c node = do {
     n \<leftarrow> heap c node;
     h1 \<leftarrow> (case n_prev n of
         Some pv \<Rightarrow> write_next (heap c) pv (n_next n)
       | None \<Rightarrow> Some (heap c));
     n1 \<leftarrow> h1 node;
     h2 \<leftarrow> (case n_next n1 of
         Some nx \<Rightarrow> write_prev h1 nx (n_prev n1)
       | None \<Rightarrow> Some h1);
     n2 \<leftarrow> h2 node;
     let fr = (if lru_front c = Some node then n_next n2 else lru_front c);
     let tl = (if lru_tail c = Some node then n_prev n2 else lru_tail c);
     Some (c\<lparr>heap := h2(node := None), lru_front := fr, lru_tail := tl,
             searcher := (searcher c)(n_key n2 := None)\<rparr>)
   }"

definition lru_count :: "('k, 'v) LruCache \<Rightarrow> nat" where
  "lru_count c = card (dom (searcher c))"

definition lru_get :: "('k, 'v) LruCache \<Rightarrow> 'k \<Rightarrow> ('v option \<times> ('k, 'v) LruCache) option" where
  "lru_get c key =
     (case searcher c key of
        None \<Rightarrow> Some (None, c)
      | Some node \<Rightarrow> do {
          c' \<leftarrow> lru_touch c node;
          n \<leftarrow> heap c' node;
          Some (Some (n_value n), c')
        })"

definition lru_put :: "('k, 'v) LruCache \<Rightarrow> 'k \<Rightarrow> 'v \<Rightarrow> ('k, 'v) LruCache option" where
  "lru_put c key val =
     (case searcher c key of
        Some ln \<Rightarrow> do {
          n \<leftarrow> heap c ln;
          lru_touch (c\<lparr>heap := (heap c)(ln \<mapsto> n\<lparr>n_value := val\<rparr>)\<rparr>) ln
        }
      | None \<Rightarrow>
          let ln = fresh c
          in lru_push (c\<lparr>heap := (heap c)(ln \<mapsto> \<lparr>n_key = key, n_value = val, n_prev = None, n_next = None\<rparr>),
                         fresh := Suc ln\<rparr>) ln)"

definition lru_delete :: "('k, 'v) LruCache \<Rightarrow> 'k \<Rightarrow> ('k, 'v) LruCache option" where
  "lru_delete c key = (case searcher c key of Some node \<Rightarrow> lru_remove c node | None \<Rightarrow> Some c)"

definition lru_destroy :: "('k, 'v) LruCache \<Rightarrow> ('k, 'v) LruCache" where
  "lru_destroy c = c\<lparr>heap := Map.empty, searcher := Map.empty, lru_front := None, lru_tail := None\<rparr>"

text \<open>
  The two walks. The callback reads a key and a value, may change a state of its own, and stops
  the walk by returning false.
\<close>

type_synonym ('k, 'v, 's) visitor = "'k \<Rightarrow> 'v \<Rightarrow> 's \<Rightarrow> bool \<times> 's"

partial_function (option) walk ::
  "(('k, 'v) ListNode \<Rightarrow> nat option) \<Rightarrow> ('k, 'v) node_heap \<Rightarrow> ('k, 'v, 's) visitor \<Rightarrow> nat option \<Rightarrow> 's \<Rightarrow> 's option" where
  "walk step h func p s =
     (case p of
        None \<Rightarrow> Some s
      | Some a \<Rightarrow>
          (case h a of
             None \<Rightarrow> None
           | Some n \<Rightarrow>
               (case func (n_key n) (n_value n) s of
                  (ret, s') \<Rightarrow> if ret then walk step h func (step n) s' else Some s')))"

declare walk.simps [code]

definition foreach :: "('k, 'v) LruCache \<Rightarrow> ('k, 'v, 's) visitor \<Rightarrow> 's \<Rightarrow> 's option" where
  "foreach c func s = walk n_next (heap c) func (lru_front c) s"

definition foreach_reverse :: "('k, 'v) LruCache \<Rightarrow> ('k, 'v, 's) visitor \<Rightarrow> 's \<Rightarrow> 's option" where
  "foreach_reverse c func s = walk n_prev (heap c) func (lru_tail c) s"

section \<open>Linked segments of the heap\<close>

definition hd_or :: "'a list \<Rightarrow> 'a option \<Rightarrow> 'a option" where
  "hd_or xs d = (if xs = [] then d else Some (hd xs))"

definition last_or :: "'a list \<Rightarrow> 'a option \<Rightarrow> 'a option" where
  "last_or xs d = (if xs = [] then d else Some (last xs))"

fun dlseg :: "('k, 'v) node_heap \<Rightarrow> nat option \<Rightarrow> nat list \<Rightarrow> nat option \<Rightarrow> bool" where
  "dlseg h a [] b = True"
| "dlseg h a (p # ps) b =
     (\<exists>n. h p = Some n \<and> n_prev n = a \<and> n_next n = hd_or ps b \<and> dlseg h (Some p) ps b)"

lemma hd_or_simps [simp]: "hd_or [] d = d" "hd_or (x # xs) d = Some x"
  "hd_or (xs @ ys) d = hd_or xs (hd_or ys d)"
  by (auto simp: hd_or_def)

lemma last_or_simps [simp]: "last_or [] d = d" "last_or (x # xs) d = last_or xs (Some x)"
  "last_or (xs @ [x]) d = Some x"
  by (auto simp: last_or_def)

lemma dlseg_append:
  "dlseg h a (xs @ ys) b \<longleftrightarrow> dlseg h a xs (hd_or ys b) \<and> dlseg h (last_or xs a) ys b"
  by (induction xs arbitrary: a) auto

lemma dlseg_frame: "p \<notin> set xs \<Longrightarrow> dlseg (h(p := v)) a xs b = dlseg h a xs b"
  by (induction xs arbitrary: a) auto

lemma dlseg_dom: "dlseg h a xs b \<Longrightarrow> set xs \<subseteq> dom h"
  by (induction xs arbitrary: a) auto

lemma dlseg_write_next:
  assumes "dlseg h a (xs @ [p]) b" and "distinct (xs @ [p])"
  shows "\<exists>n. h p = Some n \<and> write_next h p c = Some (h(p \<mapsto> n\<lparr>n_next := c\<rparr>)) \<and>
             dlseg (h(p \<mapsto> n\<lparr>n_next := c\<rparr>)) a (xs @ [p]) c"
  using assms by (auto simp: dlseg_append write_next_def dlseg_frame)

lemma dlseg_write_prev:
  assumes "dlseg h a (p # xs) b" and "distinct (p # xs)"
  shows "\<exists>n. h p = Some n \<and> write_prev h p c = Some (h(p \<mapsto> n\<lparr>n_prev := c\<rparr>)) \<and>
             dlseg (h(p \<mapsto> n\<lparr>n_prev := c\<rparr>)) c (p # xs) b"
  using assms by (auto simp: write_prev_def dlseg_frame)

section \<open>The representation invariant\<close>

definition node_data :: "('k, 'v) node_heap \<Rightarrow> nat \<Rightarrow> ('k \<times> 'v) option" where
  "node_data h p = map_option (\<lambda>n. (n_key n, n_value n)) (h p)"

definition lru_repr :: "('k, 'v) LruCache \<Rightarrow> nat list \<Rightarrow> bool" where
  \<comment> \<open>\<open>ps\<close> are the addresses of the nodes from front to tail\<close>
  "lru_repr c ps \<longleftrightarrow> distinct ps \<and> dom (heap c) = set ps \<and> dlseg (heap c) None ps None \<and>
     lru_front c = hd_or ps None \<and> lru_tail c = last_or ps None \<and>
     (\<forall>k p. searcher c k = Some p \<longleftrightarrow> (\<exists>v. node_data (heap c) p = Some (k, v))) \<and>
     (\<forall>p \<in> set ps. p < fresh c)"

definition lru_entries :: "('k, 'v) LruCache \<Rightarrow> nat list \<Rightarrow> ('k \<times> 'v) list" where
  "lru_entries c ps = map (\<lambda>p. the (node_data (heap c) p)) ps"

lemma node_data_links [simp]:
  "h p = Some n \<Longrightarrow> node_data (h(p \<mapsto> n\<lparr>n_next := x\<rparr>)) = node_data h"
  "h p = Some n \<Longrightarrow> node_data (h(p \<mapsto> n\<lparr>n_prev := x\<rparr>)) = node_data h"
  by (auto simp: node_data_def)

definition same_nodes :: "('k, 'v) LruCache \<Rightarrow> ('k, 'v) LruCache \<Rightarrow> bool" where
  "same_nodes c c' \<longleftrightarrow> node_data (heap c') = node_data (heap c) \<and>
     searcher c' = searcher c \<and> fresh c' = fresh c"

lemma dom_node_data: "dom (node_data h) = dom h"
  by (auto simp: node_data_def dom_def)

lemma same_nodes_dom: "same_nodes c c' \<Longrightarrow> dom (heap c') = dom (heap c)"
  by (metis same_nodes_def dom_node_data)

lemmas lru_unfold = write_next_def write_prev_def dlseg_append dlseg_frame same_nodes_def

lemma lru_touch_middle:
  assumes "dlseg (heap c) None (us @ pv # node # ws) None" and "distinct (us @ pv # node # ws)"
    and "lru_front c = hd_or (us @ [pv]) None" and "lru_tail c = last_or (node # ws) None"
  shows "\<exists>c'. lru_touch c node = Some c' \<and> same_nodes c c' \<and>
          dlseg (heap c') None (node # us @ pv # ws) None \<and>
          lru_front c' = Some node \<and> lru_tail c' = last_or (pv # ws) None"
proof (cases us)
  case Nil
  then show ?thesis
    using assms by (cases ws) (auto simp: lru_touch_def lru_unfold node_data_def fun_eq_iff)
next
  case (Cons f us')
  then show ?thesis
    using assms by (cases ws) (auto simp: lru_touch_def lru_unfold node_data_def fun_eq_iff)
qed

lemma lru_touch_front:
  assumes "dlseg (heap c) None (node # ws) None"
  shows "lru_touch c node = Some c"
  using assms by (auto simp: lru_touch_def)

lemma lru_touch_repr:
  assumes "lru_repr c ps" and "node \<in> set ps"
  shows "\<exists>c'. lru_touch c node = Some c' \<and> same_nodes c c' \<and> lru_repr c' (node # remove1 node ps)"
proof -
  obtain us ws where ps: "ps = us @ node # ws" using assms(2) by (metis split_list)
  have d: "distinct ps" "dlseg (heap c) None ps None" using assms(1) by (auto simp: lru_repr_def)
  then have rm: "remove1 node ps = us @ ws" by (auto simp: ps remove1_append)
  show ?thesis
  proof (cases us rule: rev_cases)
    case Nil
    then show ?thesis
      using assms(1) d lru_touch_front [of c node ws] by (auto simp: ps same_nodes_def)
  next
    case (snoc us' pv)
    obtain c' where c': "lru_touch c node = Some c'" "same_nodes c c'"
      "dlseg (heap c') None (node # us' @ pv # ws) None"
      "lru_front c' = Some node" "lru_tail c' = last_or (pv # ws) None"
      using lru_touch_middle [of c us' pv node ws] assms(1) d
      by (auto simp: ps snoc lru_repr_def last_or_def)
    have "dom (heap c') = dom (heap c)" using c'(2) by (rule same_nodes_dom)
    then have "lru_repr c' (node # us' @ pv # ws)"
      using assms(1) c' by (auto simp: lru_repr_def ps snoc same_nodes_def last_or_def)
    then show ?thesis using c' rm by (simp add: snoc)
  qed
qed

lemma lru_remove_step:
  assumes "dlseg (heap c) None (us @ node # ws) None" and "distinct (us @ node # ws)"
    and "lru_front c = hd_or (us @ node # ws) None" and "lru_tail c = last_or (us @ node # ws) None"
    and "node_data (heap c) node = Some (k, v)"
  shows "\<exists>c'. lru_remove c node = Some c' \<and> node_data (heap c') = (node_data (heap c))(node := None) \<and>
          searcher c' = (searcher c)(k := None) \<and> fresh c' = fresh c \<and>
          dlseg (heap c') None (us @ ws) None \<and>
          lru_front c' = hd_or (us @ ws) None \<and> lru_tail c' = last_or (us @ ws) None"
proof (cases us rule: rev_cases)
  case Nil
  then show ?thesis
    using assms by (cases ws) (auto simp: lru_remove_def lru_unfold node_data_def fun_eq_iff last_or_def)
next
  case (snoc us' pv)
  then show ?thesis
    using assms
    by (cases us'; cases ws) (auto simp: lru_remove_def lru_unfold node_data_def fun_eq_iff last_or_def Let_def)
qed

lemma lru_remove_repr:
  assumes "lru_repr c ps" and "node \<in> set ps" and "node_data (heap c) node = Some (k, v)"
  shows "\<exists>c'. lru_remove c node = Some c' \<and> lru_repr c' (remove1 node ps) \<and>
          node_data (heap c') = (node_data (heap c))(node := None)"
proof -
  obtain us ws where ps: "ps = us @ node # ws" using assms(2) by (metis split_list)
  have d: "distinct ps" "dlseg (heap c) None ps None" using assms(1) by (auto simp: lru_repr_def)
  then have rm: "remove1 node ps = us @ ws" by (auto simp: ps remove1_append)
  obtain c' where c': "lru_remove c node = Some c'" "node_data (heap c') = (node_data (heap c))(node := None)"
    "searcher c' = (searcher c)(k := None)" "fresh c' = fresh c" "dlseg (heap c') None (us @ ws) None"
    "lru_front c' = hd_or (us @ ws) None" "lru_tail c' = last_or (us @ ws) None"
    using lru_remove_step [of c us node ws k v] assms d by (auto simp: lru_repr_def ps)
  have dom: "dom (heap c') = dom (heap c) - {node}"
    by (subst (1 2) dom_node_data [symmetric]) (simp add: c'(2))
  have "searcher c' q = Some p \<longleftrightarrow> (\<exists>v. node_data (heap c') p = Some (q, v))" for q p
  proof -
    have s: "searcher c q = Some p \<longleftrightarrow> (\<exists>v. node_data (heap c) p = Some (q, v))" for q p
      using assms(1) by (simp add: lru_repr_def)
    show ?thesis using s [of q p] s [of k node] s [of k p] assms(3) by (auto simp: c'(2,3))
  qed
  then have "lru_repr c' (us @ ws)"
    using assms(1) d c' dom by (auto simp: lru_repr_def ps)
  then show ?thesis using c' rm by auto
qed

lemma lru_push_step:
  assumes "dlseg (heap c) None ps None" and "distinct ps" and "p \<notin> set ps"
    and "lru_front c = hd_or ps None" and "lru_tail c = last_or ps None" and "searcher c k = None"
  shows "\<exists>c'. lru_push (c\<lparr>heap := (heap c)(p \<mapsto> \<lparr>n_key = k, n_value = v, n_prev = None, n_next = None\<rparr>),
                          fresh := q\<rparr>) p = Some c' \<and>
          node_data (heap c') = (node_data (heap c))(p \<mapsto> (k, v)) \<and>
          searcher c' = (searcher c)(k \<mapsto> p) \<and> fresh c' = q \<and> dlseg (heap c') None (p # ps) None \<and>
          lru_front c' = Some p \<and> lru_tail c' = last_or (p # ps) None"
  using assms
  by (cases ps) (auto simp: lru_push_def lru_unfold node_data_def fun_eq_iff Let_def last_or_def)

lemma lru_push_repr:
  assumes "lru_repr c ps" and "searcher c k = None"
  shows "\<exists>c'. lru_push (c\<lparr>heap := (heap c)(fresh c \<mapsto> \<lparr>n_key = k, n_value = v, n_prev = None, n_next = None\<rparr>),
                          fresh := Suc (fresh c)\<rparr>) (fresh c) = Some c' \<and>
          lru_repr c' (fresh c # ps) \<and> node_data (heap c') = (node_data (heap c))(fresh c \<mapsto> (k, v))"
proof -
  let ?p = "fresh c"
  have f: "?p \<notin> set ps" using assms(1) by (auto simp: lru_repr_def)
  obtain c' where c': "lru_push (c\<lparr>heap := (heap c)(?p \<mapsto> \<lparr>n_key = k, n_value = v, n_prev = None, n_next = None\<rparr>),
                          fresh := Suc ?p\<rparr>) ?p = Some c'"
    "node_data (heap c') = (node_data (heap c))(?p \<mapsto> (k, v))" "searcher c' = (searcher c)(k \<mapsto> ?p)"
    "fresh c' = Suc ?p" "dlseg (heap c') None (?p # ps) None" "lru_front c' = Some ?p"
    "lru_tail c' = last_or (?p # ps) None"
    using lru_push_step [where c = c and ps = ps and p = ?p and k = k and v = v and q = "Suc ?p"] assms f
    by (auto simp: lru_repr_def)
  have dom: "dom (heap c') = insert ?p (dom (heap c))"
    by (subst (1 2) dom_node_data [symmetric]) (simp add: c'(2))
  have fd: "node_data (heap c) ?p = None"
    using f assms(1) dom_node_data [of "heap c"] by (auto simp: lru_repr_def)
  have "searcher c' q = Some p \<longleftrightarrow> (\<exists>v. node_data (heap c') p = Some (q, v))" for q p
  proof -
    have s: "searcher c q = Some p \<longleftrightarrow> (\<exists>v. node_data (heap c) p = Some (q, v))" for q p
      using assms(1) by (simp add: lru_repr_def)
    show ?thesis using s [of q p] s [of k p] fd assms(2) by (auto simp: c'(2,3))
  qed
  then have "lru_repr c' (?p # ps)"
    using assms(1) f c' dom by (auto simp: lru_repr_def less_Suc_eq)
  then show ?thesis using c' by auto
qed

section \<open>The cache as a list, most recently used first\<close>

definition without :: "'k \<Rightarrow> ('k \<times> 'v) list \<Rightarrow> ('k \<times> 'v) list" where
  "without k kvs = filter (\<lambda>kv. fst kv \<noteq> k) kvs"

definition moved_front :: "'k \<Rightarrow> ('k \<times> 'v) list \<Rightarrow> ('k \<times> 'v) list" where
  "moved_front k kvs = (case map_of kvs k of None \<Rightarrow> kvs | Some v \<Rightarrow> (k, v) # without k kvs)"

fun fold_while :: "('k, 'v, 's) visitor \<Rightarrow> ('k \<times> 'v) list \<Rightarrow> 's \<Rightarrow> 's" where
  "fold_while func [] s = s"
| "fold_while func ((k, v) # kvs) s =
     (case func k v s of (ret, s') \<Rightarrow> if ret then fold_while func kvs s' else s')"

definition lru_list :: "('k, 'v) LruCache \<Rightarrow> ('k \<times> 'v) list \<Rightarrow> bool" where
  \<comment> \<open>the well-formed cache \<open>c\<close> holds the entries \<open>kvs\<close>, most recently used first\<close>
  "lru_list c kvs \<longleftrightarrow> (\<exists>ps. lru_repr c ps \<and> map Some kvs = map (node_data (heap c)) ps)"

lemma lru_repr_key:
  assumes "lru_repr c ps"
  shows "searcher c k = Some p \<longleftrightarrow> (\<exists>v. node_data (heap c) p = Some (k, v))"
  using assms by (auto simp: lru_repr_def)

lemma lru_repr_node:
  assumes "lru_repr c ps"
  shows "p \<in> set ps \<longleftrightarrow> (\<exists>kv. node_data (heap c) p = Some kv)"
  using assms dom_node_data [of "heap c"] by (force simp: lru_repr_def)

lemma entries_remove:
  assumes "lru_repr c ps" and "map Some kvs = map (node_data (heap c)) ps"
    and "node_data (heap c) node = Some (k, v)"
  shows "map Some (without k kvs) = map (node_data (heap c)) (remove1 node ps)"
proof -
  let ?d = "node_data (heap c)" and ?other = "\<lambda>x. x \<noteq> None \<and> fst (the x) \<noteq> k"
  have uniq: "?d p = Some (k, w) \<Longrightarrow> p = node" for p w
    using lru_repr_key [OF assms(1), of k p] lru_repr_key [OF assms(1), of k node] assms(3) by auto
  have "?other (?d p) \<longleftrightarrow> node \<noteq> p" if p: "p \<in> set ps" for p
  proof -
    obtain k' w where kw: "?d p = Some (k', w)" using p lru_repr_node [OF assms(1), of p] by auto
    then show ?thesis using uniq [of p w] assms(3) by auto
  qed
  then have "filter (\<lambda>p. ?other (?d p)) ps = filter (\<lambda>p. node \<noteq> p) ps" by (intro filter_cong) auto
  moreover have "map Some (without k kvs) = filter ?other (map Some kvs)"
    by (simp add: without_def filter_map comp_def)
  ultimately have "map Some (without k kvs) = map ?d (removeAll node ps)"
    by (simp add: assms(2) filter_map comp_def removeAll_filter_not_eq)
  then show ?thesis using assms(1) by (simp add: distinct_remove1_removeAll lru_repr_def)
qed

lemma lru_list_map_of:
  assumes "lru_repr c ps" and "map Some kvs = map (node_data (heap c)) ps"
  shows "distinct (map fst kvs)"
    and "map_of kvs k = Some v \<longleftrightarrow> (\<exists>p. searcher c k = Some p \<and> node_data (heap c) p = Some (k, v))"
proof -
  let ?d = "node_data (heap c)"
  have d: "?d p = Some (k, v) \<Longrightarrow> ?d q = Some (k, w) \<Longrightarrow> p = q" for p q k v w
    using lru_repr_key [OF assms(1), of k p] lru_repr_key [OF assms(1), of k q] by auto
  have len: "length kvs = length ps" using assms(2) by (metis length_map)
  have nth: "?d (ps ! i) = Some (kvs ! i)" if "i < length ps" for i
    using that assms(2) len by (metis nth_map)
  show dist: "distinct (map fst kvs)"
  proof (subst distinct_conv_nth, intro allI impI)
    fix i j assume ij: "i < length (map fst kvs)" "j < length (map fst kvs)" "i \<noteq> j"
    then have "ps ! i \<noteq> ps ! j" using assms(1) len by (simp add: lru_repr_def nth_eq_iff_index_eq)
    then show "map fst kvs ! i \<noteq> map fst kvs ! j"
      using ij len d [of "ps ! i" "fst (kvs ! i)" "snd (kvs ! i)" "ps ! j" "snd (kvs ! j)"] nth [of i] nth [of j]
      by auto
  qed
  have "(k, v) \<in> set kvs \<longleftrightarrow> (\<exists>p. ?d p = Some (k, v))"
  proof
    assume "\<exists>p. ?d p = Some (k, v)"
    then obtain p where "?d p = Some (k, v)" "p \<in> set ps" using lru_repr_node [OF assms(1)] by blast
    then have "Some (k, v) \<in> set (map Some kvs)" using assms(2) by (metis image_eqI list.set_map)
    then show "(k, v) \<in> set kvs" by auto
  next
    assume "(k, v) \<in> set kvs"
    then show "\<exists>p. ?d p = Some (k, v)" using nth len by (metis in_set_conv_nth)
  qed
  then show "map_of kvs k = Some v \<longleftrightarrow> (\<exists>p. searcher c k = Some p \<and> ?d p = Some (k, v))"
    using dist lru_repr_key [OF assms(1), of k] by (auto simp: map_of_eq_Some_iff)
qed

lemma map_of_without: "map_of (without k kvs) = (map_of kvs)(k := None)"
  by (induction kvs) (auto simp: without_def)

lemma map_of_moved_front: "map_of (moved_front k kvs) = map_of kvs"
  by (auto simp: moved_front_def map_of_without split: option.splits)

lemma distinct_without: "distinct (map fst kvs) \<Longrightarrow> distinct (map fst (without k kvs))"
  unfolding without_def by (induction kvs) auto

lemma lru_list_get:
  assumes "lru_list c kvs"
  shows "\<exists>c'. lru_get c k = Some (map_of kvs k, c') \<and> lru_list c' (moved_front k kvs)"
proof -
  obtain ps where ps: "lru_repr c ps" "map Some kvs = map (node_data (heap c)) ps"
    using assms by (auto simp: lru_list_def)
  show ?thesis
  proof (cases "searcher c k")
    case None
    then have "map_of kvs k = None" using lru_list_map_of(2) [OF ps, of k] by (cases "map_of kvs k") auto
    then show ?thesis using None assms by (simp add: lru_get_def moved_front_def)
  next
    case (Some p)
    then obtain v where v: "node_data (heap c) p = Some (k, v)" using lru_repr_key [OF ps(1)] by blast
    then have mo: "map_of kvs k = Some v" using lru_list_map_of(2) [OF ps] Some by blast
    have "p \<in> set ps" using v lru_repr_node [OF ps(1)] by blast
    then obtain c' where c': "lru_touch c p = Some c'" "same_nodes c c'" "lru_repr c' (p # remove1 p ps)"
      using lru_touch_repr [OF ps(1)] by blast
    then have v': "node_data (heap c') p = Some (k, v)" using v by (simp add: same_nodes_def)
    then obtain n where "heap c' p = Some n" "n_value n = v" by (auto simp: node_data_def)
    moreover have "map Some (moved_front k kvs) = map (node_data (heap c')) (p # remove1 p ps)"
      using entries_remove [OF ps v] mo v' c'(2) by (simp add: moved_front_def same_nodes_def)
    ultimately show ?thesis using Some c' mo by (auto simp: lru_get_def lru_list_def)
  qed
qed

lemma lru_repr_value:
  assumes "lru_repr c ps" and "heap c p = Some n"
  shows "lru_repr (c\<lparr>heap := (heap c)(p \<mapsto> n\<lparr>n_value := v\<rparr>)\<rparr>) ps"
    and "node_data ((heap c)(p \<mapsto> n\<lparr>n_value := v\<rparr>)) = (node_data (heap c))(p \<mapsto> (n_key n, v))"
proof -
  let ?h = "(heap c)(p \<mapsto> n\<lparr>n_value := v\<rparr>)"
  show nd: "node_data ?h = (node_data (heap c))(p \<mapsto> (n_key n, v))"
    by (auto simp: node_data_def fun_eq_iff)
  have "dlseg ?h a xs b = dlseg (heap c) a xs b" for a xs b
    using assms(2) by (induction xs arbitrary: a) auto
  moreover have "dom ?h = dom (heap c)" using assms(2) by auto
  moreover have "(\<exists>w. node_data ?h q = Some (k, w)) \<longleftrightarrow> (\<exists>w. node_data (heap c) q = Some (k, w))" for q k
    using assms(2) by (auto simp: node_data_def)
  ultimately show "lru_repr (c\<lparr>heap := ?h\<rparr>) ps" using assms(1) by (simp add: lru_repr_def)
qed

lemma lru_list_put:
  assumes "lru_list c kvs"
  shows "\<exists>c'. lru_put c k v = Some c' \<and> lru_list c' ((k, v) # without k kvs)"
proof -
  obtain ps where ps: "lru_repr c ps" "map Some kvs = map (node_data (heap c)) ps"
    using assms by (auto simp: lru_list_def)
  show ?thesis
  proof (cases "searcher c k")
    case None
    then have "map_of kvs k = None" using lru_list_map_of(2) [OF ps, of k] by (cases "map_of kvs k") auto
    then have wo: "without k kvs = kvs" by (auto simp: without_def map_of_eq_None_iff intro!: filter_True)
    obtain c' where c': "lru_put c k v = Some c'" "lru_repr c' (fresh c # ps)"
      "node_data (heap c') = (node_data (heap c))(fresh c \<mapsto> (k, v))"
      using lru_push_repr [OF ps(1) None, of v] None by (auto simp: lru_put_def Let_def)
    have "fresh c \<notin> set ps" using c'(2) by (auto simp: lru_repr_def)
    then have "map Some ((k, v) # without k kvs) = map (node_data (heap c')) (fresh c # ps)"
      using ps(2) c'(3) wo by (simp cong: map_cong)
    then show ?thesis using c' by (auto simp: lru_list_def)
  next
    case (Some p)
    then obtain w where w: "node_data (heap c) p = Some (k, w)" using lru_repr_key [OF ps(1)] by blast
    then obtain n where n: "heap c p = Some n" "n_key n = k" by (auto simp: node_data_def)
    let ?c = "c\<lparr>heap := (heap c)(p \<mapsto> n\<lparr>n_value := v\<rparr>)\<rparr>"
    have "p \<in> set ps" using w lru_repr_node [OF ps(1)] by blast
    then obtain c' where c': "lru_touch ?c p = Some c'" "same_nodes ?c c'" "lru_repr c' (p # remove1 p ps)"
      using lru_touch_repr [OF lru_repr_value(1) [OF ps(1) n(1)]] by blast
    have nd: "node_data (heap c') = (node_data (heap c))(p \<mapsto> (k, v))"
      using c'(2) lru_repr_value(2) [OF ps(1) n(1)] n(2) by (simp add: same_nodes_def)
    have "p \<notin> set (remove1 p ps)" using c'(3) by (auto simp: lru_repr_def)
    then have "map Some ((k, v) # without k kvs) = map (node_data (heap c')) (p # remove1 p ps)"
      using entries_remove [OF ps w] nd by (simp cong: map_cong)
    then show ?thesis using Some n c' by (auto simp: lru_put_def lru_list_def)
  qed
qed

lemma lru_list_delete:
  assumes "lru_list c kvs"
  shows "\<exists>c'. lru_delete c k = Some c' \<and> lru_list c' (without k kvs)"
proof -
  obtain ps where ps: "lru_repr c ps" "map Some kvs = map (node_data (heap c)) ps"
    using assms by (auto simp: lru_list_def)
  show ?thesis
  proof (cases "searcher c k")
    case None
    then have "map_of kvs k = None" using lru_list_map_of(2) [OF ps, of k] by (cases "map_of kvs k") auto
    then have "without k kvs = kvs" by (auto simp: without_def map_of_eq_None_iff intro!: filter_True)
    then show ?thesis using None assms by (simp add: lru_delete_def)
  next
    case (Some p)
    then obtain v where v: "node_data (heap c) p = Some (k, v)" using lru_repr_key [OF ps(1)] by blast
    then have "p \<in> set ps" using lru_repr_node [OF ps(1)] by blast
    then obtain c' where c': "lru_remove c p = Some c'" "lru_repr c' (remove1 p ps)"
      "node_data (heap c') = (node_data (heap c))(p := None)"
      using lru_remove_repr [OF ps(1) _ v] by blast
    have "p \<notin> set (remove1 p ps)" using ps(1) by (simp add: lru_repr_def)
    then have "map Some (without k kvs) = map (node_data (heap c')) (remove1 p ps)"
      using entries_remove [OF ps v] c'(3) by (simp cong: map_cong)
    then show ?thesis using Some c' by (auto simp: lru_delete_def lru_list_def)
  qed
qed

lemma walk_forward:
  "dlseg h a ps None \<Longrightarrow> map Some kvs = map (node_data h) ps \<Longrightarrow>
   walk n_next h func (hd_or ps None) s = Some (fold_while func kvs s)"
proof (induction ps arbitrary: a kvs s)
  case Nil
  then show ?case by (simp add: walk.simps)
next
  case (Cons p ps)
  then obtain k v kvs' where kvs: "kvs = (k, v) # kvs'" by (cases kvs) auto
  then show ?case using Cons by (auto simp: walk.simps [of _ _ _ "Some p"] node_data_def split: prod.split)
qed

lemma walk_backward:
  "dlseg h None ps b \<Longrightarrow> map Some kvs = map (node_data h) ps \<Longrightarrow>
   walk n_prev h func (last_or ps None) s = Some (fold_while func (rev kvs) s)"
proof (induction ps arbitrary: b kvs s rule: rev_induct)
  case Nil
  then show ?case by (simp add: walk.simps)
next
  case (snoc p ps)
  then obtain k v kvs' where kvs: "kvs = kvs' @ [(k, v)]" by (cases kvs rule: rev_cases) auto
  then show ?case
    using snoc by (auto simp: walk.simps [of _ _ _ "Some p"] node_data_def dlseg_append split: prod.split)
qed

lemma lru_list_foreach:
  assumes "lru_list c kvs"
  shows "foreach c func s = Some (fold_while func kvs s)"
    and "foreach_reverse c func s = Some (fold_while func (rev kvs) s)"
  using assms by (auto simp: lru_list_def lru_repr_def foreach_def foreach_reverse_def walk_forward walk_backward)

lemma lru_list_distinct: "lru_list c kvs \<Longrightarrow> distinct (map fst kvs)"
  using lru_list_map_of(1) by (auto simp: lru_list_def)

lemma lru_list_count:
  assumes "lru_list c kvs"
  shows "lru_count c = length kvs"
proof -
  obtain ps where ps: "lru_repr c ps" "map Some kvs = map (node_data (heap c)) ps"
    using assms by (auto simp: lru_list_def)
  have "dom (searcher c) = set (map fst kvs)"
  proof -
    have "searcher c k \<noteq> None \<longleftrightarrow> map_of kvs k \<noteq> None" for k
      using lru_list_map_of(2) [OF ps, of k] lru_repr_key [OF ps(1), of k] by force
    then show ?thesis by (auto simp: dom_map_of_conv_image_fst [symmetric] dom_def)
  qed
  then show ?thesis
    using distinct_card [OF lru_list_distinct [OF assms]] by (simp add: lru_count_def)
qed

lemma lru_new_list: "lru_list lru_new []"
  by (auto simp: lru_list_def lru_repr_def lru_new_def node_data_def intro!: exI [of _ "[]"])

lemma lru_destroy_list: "lru_list (lru_destroy c) []"
  by (auto simp: lru_list_def lru_repr_def lru_destroy_def node_data_def intro!: exI [of _ "[]"])

section \<open>The interface for the clients of the cache\<close>

locale recency_cache =
  fixes rel :: "'c \<Rightarrow> ('k \<times> 'v) list \<Rightarrow> bool"
    and get :: "'c \<Rightarrow> 'k \<Rightarrow> ('v option \<times> 'c) option"
    and put :: "'c \<Rightarrow> 'k \<Rightarrow> 'v \<Rightarrow> 'c option"
    and delete :: "'c \<Rightarrow> 'k \<Rightarrow> 'c option"
  assumes rel_distinct: "rel c kvs \<Longrightarrow> distinct (map fst kvs)"
    and get_law: "rel c kvs \<Longrightarrow> \<exists>c'. get c k = Some (map_of kvs k, c') \<and> rel c' (moved_front k kvs)"
    and put_law: "rel c kvs \<Longrightarrow> \<exists>c'. put c k v = Some c' \<and> rel c' ((k, v) # without k kvs)"
    and delete_law: "rel c kvs \<Longrightarrow> \<exists>c'. delete c k = Some c' \<and> rel c' (without k kvs)"
begin

definition holds :: "'c \<Rightarrow> ('k \<rightharpoonup> 'v) \<Rightarrow> bool" where
  "holds c m \<longleftrightarrow> (\<exists>kvs. rel c kvs \<and> map_of kvs = m)"

lemma get_holds: "holds c m \<Longrightarrow> \<exists>c'. get c k = Some (m k, c') \<and> holds c' m"
  using get_law by (fastforce simp: holds_def map_of_moved_front)

lemma put_holds: "holds c m \<Longrightarrow> \<exists>c'. put c k v = Some c' \<and> holds c' (m(k \<mapsto> v))"
  using put_law [of c _ k v] by (fastforce simp: holds_def map_of_without)

lemma delete_holds: "holds c m \<Longrightarrow> \<exists>c'. delete c k = Some c' \<and> holds c' (m(k := None))"
  using delete_law [of c _ k] by (fastforce simp: holds_def map_of_without)

lemma get_put_same:
  assumes "holds c m" and "put c k v = Some c'"
  shows "\<exists>c''. get c' k = Some (Some v, c'')"
  using put_holds [OF assms(1), of k v] get_holds [of c' "m(k \<mapsto> v)" k] assms(2) by auto

lemma get_delete_same:
  assumes "holds c m" and "delete c k = Some c'"
  shows "\<exists>c''. get c' k = Some (None, c'')"
  using delete_holds [OF assms(1), of k] get_holds [of c' "m(k := None)" k] assms(2) by auto

lemma recently_used_not_last:
  assumes "rel c kvs" and "get c k = Some (Some v, c')" and "2 \<le> length kvs"
  shows "\<exists>kvs'. rel c' kvs' \<and> length kvs' = length kvs \<and> fst (last kvs') \<noteq> k"
proof -
  have r: "map_of kvs k = Some v" "rel c' (moved_front k kvs)" using get_law [OF assms(1), of k] assms(2) by auto
  have d: "distinct (map fst kvs)" using assms(1) by (rule rel_distinct)
  obtain us ws where kvs: "kvs = us @ (k, v) # ws" using r(1) by (metis map_of_SomeD split_list)
  have nk: "k \<notin> fst ` set (us @ ws)" using d by (auto simp: kvs)
  have "filter (\<lambda>kv. fst kv \<noteq> k) (us @ ws) = us @ ws" using nk by (intro filter_True) blast
  then have "without k kvs = us @ ws" by (simp add: without_def kvs)
  then have "moved_front k kvs = (k, v) # us @ ws" by (simp add: moved_front_def r(1))
  moreover have ne: "us @ ws \<noteq> []" using assms(3) by (auto simp: kvs)
  moreover have "fst (last (us @ ws)) \<noteq> k" using nk last_in_set [OF ne] by blast
  ultimately show ?thesis using r(2) by (intro exI [of _ "(k, v) # us @ ws"]) (simp add: kvs)
qed

end

interpretation lru: recency_cache lru_list lru_get lru_put lru_delete
  by unfold_locales (auto intro: lru_list_distinct lru_list_get lru_list_put lru_list_delete)

section \<open>Properties\<close>

datatype ('k, 'v) cache_call = Call_get 'k | Call_put 'k 'v | Call_delete 'k

fun lru_call :: "('k, 'v) cache_call \<Rightarrow> ('k, 'v) LruCache \<Rightarrow> ('v option \<times> ('k, 'v) LruCache) option" where
  "lru_call (Call_get k) c = lru_get c k"
| "lru_call (Call_put k v) c = map_option (Pair None) (lru_put c k v)"
| "lru_call (Call_delete k) c = map_option (Pair None) (lru_delete c k)"

fun lru_calls :: "('k, 'v) cache_call list \<Rightarrow> ('k, 'v) LruCache \<Rightarrow> ('v option list \<times> ('k, 'v) LruCache) option" where
  "lru_calls [] c = Some ([], c)"
| "lru_calls (x # xs) c =
     (case lru_call x c of
        None \<Rightarrow> None
      | Some (r, c') \<Rightarrow> map_option (\<lambda>(rs, c''). (r # rs, c'')) (lru_calls xs c'))"

fun spec_call :: "('k, 'v) cache_call \<Rightarrow> ('k \<times> 'v) list \<Rightarrow> 'v option \<times> ('k \<times> 'v) list" where
  \<comment> \<open>the same call on a list of pairs, most recently used first\<close>
  "spec_call (Call_get k) kvs = (map_of kvs k, moved_front k kvs)"
| "spec_call (Call_put k v) kvs = (None, (k, v) # without k kvs)"
| "spec_call (Call_delete k) kvs = (None, without k kvs)"

fun spec_calls :: "('k, 'v) cache_call list \<Rightarrow> ('k \<times> 'v) list \<Rightarrow> 'v option list \<times> ('k \<times> 'v) list" where
  "spec_calls [] kvs = ([], kvs)"
| "spec_calls (x # xs) kvs =
     (case spec_call x kvs of (r, kvs') \<Rightarrow> case spec_calls xs kvs' of (rs, kvs'') \<Rightarrow> (r # rs, kvs''))"

lemma lru_call_spec:
  assumes "lru_list c kvs"
  shows "\<exists>c'. lru_call x c = Some (fst (spec_call x kvs), c') \<and> lru_list c' (snd (spec_call x kvs))"
  using lru.get_law [OF assms] lru.put_law [OF assms] lru.delete_law [OF assms] by (cases x) fastforce+

lemma lru_calls_spec:
  "lru_list c kvs \<Longrightarrow> \<exists>c'. lru_calls xs c = Some (fst (spec_calls xs kvs), c') \<and> lru_list c' (snd (spec_calls xs kvs))"
proof (induction xs arbitrary: c kvs)
  case (Cons x xs)
  obtain c1 where c1: "lru_call x c = Some (fst (spec_call x kvs), c1)" "lru_list c1 (snd (spec_call x kvs))"
    using lru_call_spec [OF Cons.prems] by blast
  obtain c2 where c2: "lru_calls xs c1 = Some (fst (spec_calls xs (snd (spec_call x kvs))), c2)"
    "lru_list c2 (snd (spec_calls xs (snd (spec_call x kvs))))"
    using Cons.IH [OF c1(2)] by blast
  show ?case using c1 c2 by (simp add: case_prod_beta)
qed simp

text \<open>
  C14: the pointer-linked LRU cache implements a recency list. Any sequence of \<^verbatim>\<open>get\<close>, \<^verbatim>\<open>put\<close> and \<^verbatim>\<open>remove\<close> on a new
  cache follows no null or dangling pointer and returns what the same sequence returns on a list of pairs
  kept most recently used first; afterwards \<^verbatim>\<open>foreach\<close> visits the pairs in that order,
  \<^verbatim>\<open>foreach_reverse\<close> in the opposite one, and \<^verbatim>\<open>count\<close> is their number.
\<close>

theorem lru_refines_recency_list:
  "\<exists>c. lru_calls xs lru_new = Some (fst (spec_calls xs []), c) \<and>
     foreach c f s = Some (fold_while f (snd (spec_calls xs [])) s) \<and>
     foreach_reverse c f s = Some (fold_while f (rev (snd (spec_calls xs []))) s) \<and>
     lru_count c = length (snd (spec_calls xs []))"
proof -
  obtain c where c: "lru_calls xs lru_new = Some (fst (spec_calls xs []), c)" "lru_list c (snd (spec_calls xs []))"
    using lru_calls_spec [OF lru_new_list] by blast
  show ?thesis using c(1) lru_list_foreach [OF c(2), of f s] lru_list_count [OF c(2)] by blast
qed

end
