(* ===== verification/Serializer.thy ===== *)
theory Serializer
  imports Ob_Prelude
begin

text \<open>
  \<^verbatim>\<open>common::Serializer\<close> and \<^verbatim>\<open>common::Deserializer\<close> (\<^verbatim>\<open>src/deps/common/lang/serializer.cpp\<close>), the byte
  streams of the B+ tree log. An integer is copied in the machine's byte order, little-endian.
  The return value of the C++ functions is 0 or -1.
\<close>

record Serializer =
  ser_buffer :: "byte list"

record Deserializer =
  des_buffer :: "byte list"
  position :: int

definition ser_new :: Serializer where
  "ser_new = \<lparr>ser_buffer = []\<rparr>"

definition ser_write :: "Serializer \<Rightarrow> byte list \<Rightarrow> int \<times> Serializer" where
  "ser_write s xs = (0, s\<lparr>ser_buffer := ser_buffer s @ xs\<rparr>)"

definition write_int32 :: "Serializer \<Rightarrow> int \<Rightarrow> int \<times> Serializer" where
  "write_int32 s v = ser_write s (int_bytes 4 v)"

definition write_int64 :: "Serializer \<Rightarrow> int \<Rightarrow> int \<times> Serializer" where
  "write_int64 s v = ser_write s (int_bytes 8 v)"

definition des_new :: "byte list \<Rightarrow> Deserializer" where
  "des_new buf = \<lparr>des_buffer = buf, position = 0\<rparr>"

definition remain :: "Deserializer \<Rightarrow> int" where
  "remain d = int (length (des_buffer d)) - position d"

text \<open>The bytes read are the third component; when the read fails the caller's bytes stay.\<close>

definition des_read :: "Deserializer \<Rightarrow> byte list \<Rightarrow> (int \<times> byte list \<times> Deserializer) option" where
  "des_read d old =
     (if remain d < int (length old) then Some (- 1, old, d)
      else map_option (\<lambda>xs. (0, xs, d\<lparr>position := position d + int (length old)\<rparr>))
             (mem_read (des_buffer d) (position d) (int (length old))))"

definition read_int32 :: "Deserializer \<Rightarrow> int \<Rightarrow> (int \<times> int \<times> Deserializer) option" where
  "read_int32 d v = map_option (\<lambda>(r, xs, d'). (r, bytes_int xs, d')) (des_read d (int_bytes 4 v))"

definition read_int64 :: "Deserializer \<Rightarrow> int \<Rightarrow> (int \<times> int \<times> Deserializer) option" where
  "read_int64 d v = map_option (\<lambda>(r, xs, d'). (r, bytes_int xs, d')) (des_read d (int_bytes 8 v))"

definition des_wf :: "Deserializer \<Rightarrow> bool" where
  "des_wf d \<longleftrightarrow> 0 \<le> position d \<and> position d \<le> int (length (des_buffer d))"

section \<open>Reading back what was written\<close>

definition unread :: "Deserializer \<Rightarrow> byte list" where
  "unread d = drop (nat (position d)) (des_buffer d)"

lemma des_read_unread:
  assumes "des_wf d" and "unread d = xs @ rest" and "length old = length xs"
  shows "\<exists>d'. des_read d old = Some (0, xs, d') \<and> des_wf d' \<and> unread d' = rest"
proof -
  obtain p where p: "position d = int p" "p \<le> length (des_buffer d)"
    using assms(1) by (metis des_wf_def nonneg_int_cases of_nat_le_iff)
  have dr: "drop p (des_buffer d) = xs @ rest" using assms(2) p by (simp add: unread_def)
  then have len: "length (des_buffer d) = p + length xs + length rest"
    using p(2) by (metis add.assoc le_add_diff_inverse length_append length_drop)
  have "slice (des_buffer d) p (length xs) = xs" by (simp add: slice_def dr)
  moreover have "drop (p + length xs) (des_buffer d) = rest"
    using dr by (metis append_eq_conv_conj drop_drop add.commute)
  ultimately show ?thesis
    using p len assms(3)
    by (auto simp: des_read_def remain_def des_wf_def unread_def nat_add_distrib mem_read_def)
qed

lemma des_read_short:
  "des_wf d \<Longrightarrow> length (unread d) < length old \<Longrightarrow> des_read d old = Some (- 1, old, d)"
  by (auto simp: des_read_def remain_def unread_def des_wf_def)

lemma read_int32_unread:
  assumes "des_wf d" and "unread d = int_bytes 4 v @ rest" and "int_fits 32 v"
  shows "\<exists>d'. read_int32 d old = Some (0, v, d') \<and> des_wf d' \<and> unread d' = rest"
  using des_read_unread [OF assms(1,2), of "int_bytes 4 old"] bytes_int_bytes [of 4 v] assms(3)
  by (auto simp: read_int32_def)

lemma read_int64_unread:
  assumes "des_wf d" and "unread d = int_bytes 8 v @ rest" and "int_fits 64 v"
  shows "\<exists>d'. read_int64 d old = Some (0, v, d') \<and> des_wf d' \<and> unread d' = rest"
  using des_read_unread [OF assms(1,2), of "int_bytes 8 old"] bytes_int_bytes [of 8 v] assms(3)
  by (auto simp: read_int64_def)

text \<open>A sequence of fields, written one after the other and read back in the same order.\<close>

datatype field = I32 int | I64 int | Raw "byte list"

fun field_fits :: "field \<Rightarrow> bool" where
  "field_fits (I32 v) = int_fits 32 v"
| "field_fits (I64 v) = int_fits 64 v"
| "field_fits (Raw xs) = True"

fun write_field :: "Serializer \<Rightarrow> field \<Rightarrow> Serializer" where
  "write_field s (I32 v) = snd (write_int32 s v)"
| "write_field s (I64 v) = snd (write_int64 s v)"
| "write_field s (Raw xs) = snd (ser_write s xs)"

fun field_bytes :: "field \<Rightarrow> byte list" where
  "field_bytes (I32 v) = int_bytes 4 v"
| "field_bytes (I64 v) = int_bytes 8 v"
| "field_bytes (Raw xs) = xs"

fun read_like :: "field \<Rightarrow> Deserializer \<Rightarrow> (field \<times> Deserializer) option" where
  \<comment> \<open>reads a field of the given shape\<close>
  "read_like (I32 _) d = (case read_int32 d 0 of Some (r, v, d') \<Rightarrow> if r = 0 then Some (I32 v, d') else None | None \<Rightarrow> None)"
| "read_like (I64 _) d = (case read_int64 d 0 of Some (r, v, d') \<Rightarrow> if r = 0 then Some (I64 v, d') else None | None \<Rightarrow> None)"
| "read_like (Raw old) d = (case des_read d (replicate (length old) 0) of Some (r, xs, d') \<Rightarrow> if r = 0 then Some (Raw xs, d') else None | None \<Rightarrow> None)"

fun read_fields :: "field list \<Rightarrow> Deserializer \<Rightarrow> (field list \<times> Deserializer) option" where
  "read_fields [] d = Some ([], d)"
| "read_fields (f # fs) d =
     (case read_like f d of
        None \<Rightarrow> None
      | Some (g, d') \<Rightarrow> (case read_fields fs d' of None \<Rightarrow> None | Some (gs, d'') \<Rightarrow> Some (g # gs, d'')))"

lemma read_like_unread:
  assumes "des_wf d" and "unread d = field_bytes f @ rest" and "field_fits f"
  shows "\<exists>d'. read_like f d = Some (f, d') \<and> des_wf d' \<and> unread d' = rest"
proof (cases f)
  case (I32 v)
  then show ?thesis using assms read_int32_unread [of d v rest 0] by auto
next
  case (I64 v)
  then show ?thesis using assms read_int64_unread [of d v rest 0] by auto
next
  case (Raw xs)
  then show ?thesis using assms des_read_unread [of d xs rest "replicate (length xs) 0"] by auto
qed

lemma write_field_bytes: "ser_buffer (write_field s f) = ser_buffer s @ field_bytes f"
  by (cases f) (simp_all add: write_int32_def write_int64_def ser_write_def)

lemma write_fields_bytes: "ser_buffer (foldl write_field s fs) = ser_buffer s @ concat (map field_bytes fs)"
  by (induction fs arbitrary: s) (auto simp: write_field_bytes)

lemma read_fields_unread:
  "des_wf d \<Longrightarrow> unread d = concat (map field_bytes fs) @ rest \<Longrightarrow> \<forall>f \<in> set fs. field_fits f \<Longrightarrow>
   \<exists>d'. read_fields fs d = Some (fs, d') \<and> des_wf d' \<and> unread d' = rest"
proof (induction fs arbitrary: d)
  case (Cons f fs)
  obtain d' where "read_like f d = Some (f, d')" "des_wf d'" "unread d' = concat (map field_bytes fs) @ rest"
    using read_like_unread [of d f "concat (map field_bytes fs) @ rest"] Cons.prems by auto
  then show ?case using Cons.IH [of d'] Cons.prems(3) by auto
qed simp

section \<open>Properties\<close>

text \<open>
  C25: what a \<^verbatim>\<open>Serializer\<close> wrote, a \<^verbatim>\<open>Deserializer\<close> reads back: any sequence of 32-bit integers, 64-bit
  integers and byte strings, read in the same order, gives the same values and ends at the end of the buffer.
\<close>

theorem serializer_roundtrip:
  assumes "\<forall>f \<in> set fs. field_fits f"
  shows "\<exists>d. read_fields fs (des_new (ser_buffer (foldl write_field ser_new fs))) = Some (fs, d) \<and> remain d = 0"
proof -
  let ?d = "des_new (ser_buffer (foldl write_field ser_new fs))"
  have "des_wf ?d" "unread ?d = concat (map field_bytes fs) @ []"
    by (simp_all add: des_wf_def des_new_def unread_def write_fields_bytes ser_new_def)
  then obtain d where "read_fields fs ?d = Some (fs, d)" "des_wf d" "unread d = []"
    using read_fields_unread [of ?d fs "[]"] assms by auto
  then show ?thesis by (auto simp: unread_def remain_def des_wf_def)
qed

theorem serializer_roundtrip_witness:
  "\<exists>d. read_fields [I32 (- 2), Raw [7, 8], I64 9] (des_new (ser_buffer (foldl write_field ser_new [I32 (- 2), Raw [7, 8], I64 9])))
     = Some ([I32 (- 2), Raw [7, 8], I64 9], d) \<and> remain d = 0"
  by (rule serializer_roundtrip) (simp add: int_fits_def)

end
