(* ===== verification/Ring_Buffer.thy ===== *)
theory Ring_Buffer
  imports Ob_Prelude
begin

text \<open>
  \<^verbatim>\<open>RingBuffer\<close> (\<^verbatim>\<open>src/src/observer/net/ring_buffer.cpp\<close>), the output buffer of a connection. The two
  copy loops are \<open>partial_function (option)\<close>: \<open>None\<close> is a loop that does not end or an access
  outside \<^verbatim>\<open>buffer_\<close>. Under the invariant \<open>rb_inv\<close> (the comment on \<^verbatim>\<open>write_pos_\<close>: its range is
  \<^verbatim>\<open>[0, capacity)\<close>; the capacity at most \<open>2 ^ 30\<close>) both return, and the buffer is a bounded FIFO of bytes.
\<close>

record RingBuffer =
  rb_buffer :: "byte list"
  data_size :: int
  write_pos :: int

definition rb_new :: "nat \<Rightarrow> RingBuffer" where
  "rb_new n = \<lparr>rb_buffer = replicate n 0, data_size = 0, write_pos = 0\<rparr>"

definition capacity :: "RingBuffer \<Rightarrow> int" where
  "capacity rb = int (length (rb_buffer rb))"

definition rb_size :: "RingBuffer \<Rightarrow> int" where
  "rb_size rb = data_size rb"

definition rb_remain :: "RingBuffer \<Rightarrow> int" where
  "rb_remain rb = capacity rb - rb_size rb"

definition read_pos :: "RingBuffer \<Rightarrow> int" where
  "read_pos rb = int32_of (write_pos rb - rb_size rb + capacity rb) smod capacity rb"

text \<open>\<^verbatim>\<open>buffer\<close> hands out a pointer into \<^verbatim>\<open>buffer_\<close>, here its offset, and the bytes readable from there.\<close>

definition rb_peek :: "RingBuffer \<Rightarrow> int \<times> int" where
  "rb_peek rb =
     (if rb_size rb = 0 then (0, 0)
      else if read_pos rb < write_pos rb then (read_pos rb, write_pos rb - read_pos rb)
      else (read_pos rb, capacity rb - read_pos rb))"

definition forward :: "RingBuffer \<Rightarrow> int \<Rightarrow> rc \<times> RingBuffer" where
  "forward rb n =
     (if n \<le> 0 then (INVALID_ARGUMENT, rb)
      else if rb_size rb < n then (INVALID_ARGUMENT, rb)
      else (SUCCESS, rb\<lparr>data_size := data_size rb - n\<rparr>))"

definition go_back :: "RingBuffer \<Rightarrow> int \<Rightarrow> rc \<times> RingBuffer" where
  "go_back rb n =
     (if n \<le> 0 then (INVALID_ARGUMENT, rb)
      else if rb_size rb < n then (INVALID_ARGUMENT, rb)
      else (SUCCESS, rb\<lparr>data_size := data_size rb - n, write_pos := write_pos rb - n\<rparr>))"

text \<open>The loop of \<^verbatim>\<open>read\<close>: \<open>out\<close> are the bytes already copied to the caller, \<^verbatim>\<open>read_size\<close> of them.\<close>

partial_function (option) read_loop :: "RingBuffer \<Rightarrow> int \<Rightarrow> byte list \<Rightarrow> (rc \<times> byte list \<times> RingBuffer) option" where
  "read_loop rb n out =
     (if int (length out) < n \<and> 0 < rb_size rb
      then case rb_peek rb of (pos, tmp_size) \<Rightarrow>
        let copy_size = min (n - int (length out)) tmp_size
        in case mem_read (rb_buffer rb) pos copy_size of
             None \<Rightarrow> None
           | Some xs \<Rightarrow>
               (case forward rb copy_size of
                  (rc, rb') \<Rightarrow> if OB_SUCC rc then read_loop rb' n (out @ xs) else Some (rc, out @ xs, rb'))
      else Some (SUCCESS, out, rb))"

declare read_loop.simps [code]

definition rb_read :: "RingBuffer \<Rightarrow> int \<Rightarrow> (rc \<times> byte list \<times> RingBuffer) option" where
  "rb_read rb n = (if n < 0 then Some (INVALID_ARGUMENT, [], rb) else read_loop rb n [])"

text \<open>The loop of \<^verbatim>\<open>write\<close>: \<open>done\<close> is \<^verbatim>\<open>write_size\<close>, the bytes of \<open>src\<close> already stored.\<close>

partial_function (option) write_loop :: "RingBuffer \<Rightarrow> byte list \<Rightarrow> int \<Rightarrow> int \<Rightarrow> (rc \<times> int \<times> RingBuffer) option" where
  "write_loop rb src n written =
     (if written < n \<and> 0 < rb_remain rb
      then let rp = read_pos rb;
               tmp_buf_size = (if rp \<le> write_pos rb then capacity rb - write_pos rb else rp - write_pos rb);
               copy_size = min (n - written) tmp_buf_size
        in case mem_read src written copy_size of
             None \<Rightarrow> None
           | Some xs \<Rightarrow>
               (case mem_write (rb_buffer rb) (write_pos rb) xs of
                  None \<Rightarrow> None
                | Some buf \<Rightarrow>
                    write_loop (rb\<lparr>rb_buffer := buf,
                                   write_pos := (write_pos rb + copy_size) smod capacity rb,
                                   data_size := data_size rb + copy_size\<rparr>)
                      src n (written + copy_size))
      else Some (SUCCESS, written, rb))"

declare write_loop.simps [code]

definition rb_write :: "RingBuffer \<Rightarrow> byte list \<Rightarrow> int \<Rightarrow> (rc \<times> int \<times> RingBuffer) option" where
  "rb_write rb src n = (if n < 0 then Some (INVALID_ARGUMENT, 0, rb) else write_loop rb src n 0)"

section \<open>Invariant and contents\<close>

definition rb_inv :: "RingBuffer \<Rightarrow> bool" where
  \<comment> \<open>up to a capacity of \<open>2 ^ 30\<close> the sum in \<open>read_pos\<close> does not overflow\<close>
  "rb_inv rb \<longleftrightarrow> 0 < capacity rb \<and> capacity rb \<le> 1073741824 \<and> 0 \<le> data_size rb \<and> data_size rb \<le> capacity rb \<and>
     0 \<le> write_pos rb \<and> write_pos rb < capacity rb"

definition cell :: "nat \<Rightarrow> nat \<Rightarrow> nat \<Rightarrow> nat \<Rightarrow> nat" where
  \<comment> \<open>where byte \<open>i\<close> of the contents is stored, for capacity \<open>c\<close>, \<open>w\<close> the write position, \<open>s\<close> bytes stored\<close>
  "cell c w s i = (w + c - s + i) mod c"

definition contents :: "RingBuffer \<Rightarrow> byte list" where
  "contents rb =
     map (\<lambda>i. rb_buffer rb ! cell (length (rb_buffer rb)) (nat (write_pos rb)) (nat (data_size rb)) i)
       [0..<nat (data_size rb)]"

lemma rb_inv_nat:
  assumes "rb_inv rb"
  obtains c w s where "length (rb_buffer rb) = c" "write_pos rb = int w" "data_size rb = int s"
    "0 < c" "s \<le> c" "w < c" "c \<le> 1073741824"
  using assms by (auto simp: rb_inv_def capacity_def elim!: nonneg_int_cases)

lemma read_pos_nat:
  assumes "length (rb_buffer rb) = c" "write_pos rb = int w" "data_size rb = int s" "s \<le> c" "w < c" "c \<le> 1073741824"
  shows "read_pos rb = int (cell c w s 0)"
proof -
  have "write_pos rb - rb_size rb + capacity rb = int (w + c - s)"
    using assms by (simp add: rb_size_def capacity_def)
  moreover have "int32_of (int (w + c - s)) = int (w + c - s)"
    using assms(4-6) by (intro int32_of_fits) (auto simp: int_fits_def)
  ultimately have e: "int32_of (write_pos rb - rb_size rb + capacity rb) = int (w + c - s)" by simp
  show ?thesis
    unfolding read_pos_def e using assms(1) by (simp add: signed_modulo_int_def capacity_def zmod_int sgn_if cell_def)
qed

lemma length_contents [simp]: "length (contents rb) = nat (data_size rb)"
  by (simp add: contents_def)

section \<open>Cell arithmetic\<close>

lemma cell_cases:
  assumes "s \<le> c" "w < c" "i \<le> s"
  shows "cell c w s i = (if w + i < s then w + c - s + i else w + i - s)"
proof (cases "w + i < s")
  case True
  then have "w + c - s + i < c" using assms by linarith
  then show ?thesis using True by (simp add: cell_def)
next
  case False
  then have e: "w + c - s + i = (w + i - s) + c" using assms by linarith
  have "w + i - s < c" using assms by linarith
  then have "((w + i - s) + c) mod c = w + i - s" by (simp only: mod_add_self2 mod_less)
  then show ?thesis using False by (simp only: cell_def e if_False)
qed

lemma cell_advance:
  assumes "s + k \<le> c" "w + k \<le> c" "w < c"
  shows "cell c ((w + k) mod c) (s + k) i = cell c w s i"
proof (cases "w + k = c")
  case True
  have e: "w + c - s + i = (c - (s + k) + i) + c" using assms True by linarith
  show ?thesis unfolding cell_def e mod_add_self2 using True by simp
next
  case False
  then have "(w + k) mod c + c - (s + k) + i = w + c - s + i" using assms by simp
  then show ?thesis by (simp only: cell_def)
qed

lemma cell_outside:
  assumes "s + k \<le> c" "w + k \<le> c" "w < c" "i < s"
  shows "\<not> (w \<le> cell c w s i \<and> cell c w s i < w + k)"
  using cell_cases [of s c w i] assms by (auto split: if_splits)

lemma cell_new:
  assumes "s \<le> c" "w + t < c"
  shows "cell c w s (s + t) = w + t"
proof -
  have "w + c - s + (s + t) = (w + t) + c" using assms by linarith
  then show ?thesis using assms(2) by (simp only: cell_def mod_add_self2 mod_less)
qed

lemma cell_bound: "0 < c \<Longrightarrow> cell c w s i < c"
  by (simp add: cell_def)

section \<open>One step of each loop\<close>

lemma peek_contents:
  assumes "rb_inv rb" and "0 < data_size rb"
  obtains p t where "rb_peek rb = (int p, int t)" "0 < t" "t \<le> nat (data_size rb)"
    "p + t \<le> length (rb_buffer rb)" "slice (rb_buffer rb) p t = take t (contents rb)"
proof -
  obtain c w s where r: "length (rb_buffer rb) = c" "write_pos rb = int w" "data_size rb = int s"
    "0 < c" "s \<le> c" "w < c" "c \<le> 1073741824" using rb_inv_nat [OF assms(1)] .
  have s0: "0 < s" using assms(2) r(3) by simp
  define p where "p = cell c w s 0"
  define t where "t = (if w < s then s - w else s)"
  have p: "p = (if w < s then w + c - s else w - s)"
    using cell_cases [of s c w 0] r by (simp add: p_def)
  have peek: "rb_peek rb = (int p, int t)"
    using read_pos_nat [OF r(1-3) r(5-7)] r s0
    by (auto simp: rb_peek_def rb_size_def capacity_def p t_def p_def [symmetric])
  have t: "0 < t" "t \<le> s" "p + t \<le> c" using r s0 by (auto simp: t_def p)
  have "cell c w s i = p + i" if "i < t" for i
    using that r cell_cases [of s c w i] by (auto simp: t_def p split: if_splits)
  then have "slice (rb_buffer rb) p t = take t (contents rb)"
    using t r by (intro nth_equalityI) (auto simp: contents_def)
  then show ?thesis using that peek t r by simp
qed

lemma forward_contents:
  assumes "rb_inv rb" and "0 < n" and "n \<le> nat (data_size rb)"
  shows "\<exists>rb'. forward rb (int n) = (SUCCESS, rb') \<and> rb_inv rb' \<and> contents rb' = drop n (contents rb) \<and>
           rb_buffer rb' = rb_buffer rb \<and> data_size rb' = data_size rb - int n"
proof -
  obtain c w s where r: "length (rb_buffer rb) = c" "write_pos rb = int w" "data_size rb = int s"
    "0 < c" "s \<le> c" "w < c" "c \<le> 1073741824" using rb_inv_nat [OF assms(1)] .
  let ?rb = "rb\<lparr>data_size := data_size rb - int n\<rparr>"
  have n: "n \<le> s" using assms(3) r by simp
  have ds: "nat (int s - int n) = s - n" by simp
  have "w + c - (s - n) + i = w + c - s + (n + i)" for i using n r by linarith
  then have "cell c w (s - n) i = cell c w s (n + i)" for i by (simp only: cell_def)
  then have "contents ?rb = drop n (contents rb)"
    by (intro nth_equalityI) (auto simp: contents_def r ds)
  then show ?thesis
    using assms n r by (auto simp: forward_def rb_size_def rb_inv_def capacity_def)
qed

lemma store_contents:
  assumes "rb_inv rb" and "length xs = k" and "k \<le> nat (rb_remain rb)"
    and "nat (write_pos rb) + k \<le> length (rb_buffer rb)"
  shows "\<exists>buf. mem_write (rb_buffer rb) (write_pos rb) xs = Some buf \<and>
    rb_inv (rb\<lparr>rb_buffer := buf, write_pos := (write_pos rb + int k) smod capacity rb, data_size := data_size rb + int k\<rparr>) \<and>
    contents (rb\<lparr>rb_buffer := buf, write_pos := (write_pos rb + int k) smod capacity rb, data_size := data_size rb + int k\<rparr>)
      = contents rb @ xs"
proof -
  obtain c w s where r: "length (rb_buffer rb) = c" "write_pos rb = int w" "data_size rb = int s"
    "0 < c" "s \<le> c" "w < c" "c \<le> 1073741824" using rb_inv_nat [OF assms(1)] .
  have k: "s + k \<le> c" "w + k \<le> c" using assms(3,4) r by (auto simp: rb_remain_def capacity_def rb_size_def)
  define buf where "buf = splice (rb_buffer rb) w xs"
  have mw: "mem_write (rb_buffer rb) (write_pos rb) xs = Some buf"
    using r k assms(2) by (simp add: buf_def)
  have wp: "(write_pos rb + int k) smod capacity rb = int ((w + k) mod c)"
    using r by (simp add: signed_modulo_int_def capacity_def zmod_int sgn_if)
  let ?rb = "rb\<lparr>rb_buffer := buf, write_pos := (write_pos rb + int k) smod capacity rb, data_size := data_size rb + int k\<rparr>"
  have len: "length buf = c" using r k assms(2) by (simp add: buf_def)
  have inv: "rb_inv ?rb" using r k len wp by (auto simp: rb_inv_def capacity_def)
  have ds: "nat (int s + int k) = s + k" by simp
  have "contents ?rb = contents rb @ xs"
  proof (rule nth_equalityI)
    show "length (contents ?rb) = length (contents rb @ xs)" using r assms(2) by (simp add: ds)
    fix i assume "i < length (contents ?rb)"
    then have i: "i < s + k" by (simp add: r ds)
    have "contents ?rb ! i = buf ! cell c w s i"
      using i cell_advance [of s k c w i] k r(6) by (simp add: contents_def len wp ds r(3) nat_int del: of_nat_mod)
    also have "\<dots> = (contents rb @ xs) ! i"
    proof (cases "i < s")
      case True
      have "buf ! cell c w s i = rb_buffer rb ! cell c w s i"
        unfolding buf_def using nth_splice [of w xs "rb_buffer rb" "cell c w s i"] cell_outside [of s k c w i]
          cell_bound [of c w s i] True k r assms(2) by auto
      then show ?thesis using True r by (simp add: nth_append contents_def)
    next
      case False
      then obtain t where t: "i = s + t" "t < k" using i by (metis add_less_cancel_left le_Suc_ex not_le)
      then show ?thesis
        using cell_new [of s c w t] k r assms(2) nth_splice [of w xs "rb_buffer rb" "w + t"]
        by (simp add: nth_append buf_def)
    qed
    finally show "contents ?rb ! i = (contents rb @ xs) ! i" .
  qed
  then show ?thesis using mw inv by blast
qed

section \<open>The loops\<close>

lemma read_loop_contents:
  assumes "rb_inv rb" and "length out \<le> n"
  shows "\<exists>rb'. read_loop rb (int n) out = Some (SUCCESS, out @ take (n - length out) (contents rb), rb') \<and>
    rb_inv rb' \<and> contents rb' = drop (n - length out) (contents rb) \<and> capacity rb' = capacity rb"
  using assms
proof (induction "nat (data_size rb)" arbitrary: rb out rule: less_induct)
  case less
  show ?case
  proof (cases "length out < n \<and> 0 < data_size rb")
    case False
    then have "n - length out = 0 \<or> contents rb = []"
      using less.prems by (auto simp: rb_inv_def simp flip: length_0_conv)
    moreover have "read_loop rb (int n) out = Some (SUCCESS, out, rb)"
      using False by (auto simp: read_loop.simps [of rb] rb_size_def)
    ultimately show ?thesis using less.prems by auto
  next
    case True
    obtain p t where t: "rb_peek rb = (int p, int t)" "0 < t" "t \<le> nat (data_size rb)"
      "p + t \<le> length (rb_buffer rb)" "slice (rb_buffer rb) p t = take t (contents rb)"
      using peek_contents [of rb] less.prems(1) True by blast
    define k where "k = min (n - length out) t"
    have k: "0 < k" "k \<le> t" "k \<le> n - length out" "int k = min (int n - int (length out)) (int t)"
      using True t(2) less.prems(2) by (auto simp: k_def)
    have "slice (rb_buffer rb) p k = take k (slice (rb_buffer rb) p t)"
      using k(2) by (simp add: slice_def min_def)
    then have sl: "slice (rb_buffer rb) p k = take k (contents rb)" using k(2) t(5) by (simp add: min_def)
    obtain rb1 where rb1: "forward rb (int k) = (SUCCESS, rb1)" "rb_inv rb1" "contents rb1 = drop k (contents rb)"
      "rb_buffer rb1 = rb_buffer rb" "data_size rb1 = data_size rb - int k"
      using forward_contents [of rb k] less.prems(1) k t(3) by auto
    have mr: "mem_read (rb_buffer rb) (int p) (int k) = Some (take k (contents rb))"
      using sl k(2) t(4) by simp
    have loop: "read_loop rb (int n) out = read_loop rb1 (int n) (out @ take k (contents rb))"
      using True t(1) rb1(1) mr by (simp add: read_loop.simps [of rb] rb_size_def Let_def k(4) [symmetric])
    have len: "length (take k (contents rb)) = k" using k t(3) by simp
    have "nat (data_size rb1) < nat (data_size rb)" using rb1(5) k(1) True by simp
    moreover have "length (out @ take k (contents rb)) \<le> n"
      unfolding length_append len using k(3) True by linarith
    moreover have e: "k + (n - (length out + k)) = n - length out" using k(3) by simp
    ultimately obtain rb' where
      "read_loop rb1 (int n) (out @ take k (contents rb)) =
         Some (SUCCESS, (out @ take k (contents rb)) @ take (n - length out - k) (contents rb1), rb')"
      "rb_inv rb'" "contents rb' = drop (n - length out - k) (contents rb1)" "capacity rb' = capacity rb1"
      using less.hyps [of rb1 "out @ take k (contents rb)"] rb1(2) len by auto
    then show ?thesis
      using loop rb1(3,4) e by (auto simp: capacity_def take_add [symmetric] drop_drop add.commute)
  qed
qed

lemma write_loop_contents:
  assumes "rb_inv rb" and "w \<le> n" and "n \<le> length src"
  shows "\<exists>rb'. write_loop rb src (int n) (int w) = Some (SUCCESS, int (w + min (n - w) (nat (rb_remain rb))), rb') \<and>
    rb_inv rb' \<and> contents rb' = contents rb @ slice src w (min (n - w) (nat (rb_remain rb))) \<and>
    capacity rb' = capacity rb"
  using assms
proof (induction "nat (rb_remain rb)" arbitrary: rb w rule: less_induct)
  case less
  show ?case
  proof (cases "w < n \<and> 0 < rb_remain rb")
    case False
    then have "min (n - w) (nat (rb_remain rb)) = 0" by auto
    moreover have "write_loop rb src (int n) (int w) = Some (SUCCESS, int w, rb)"
      using False by (auto simp: write_loop.simps [of rb])
    ultimately show ?thesis using less.prems by (auto simp: slice_def)
  next
    case True
    obtain c p s where r: "length (rb_buffer rb) = c" "write_pos rb = int p" "data_size rb = int s"
      "0 < c" "s \<le> c" "p < c" "c \<le> 1073741824" using rb_inv_nat [OF less.prems(1)] .
    define t where "t = (if p < s then c - s else c - p)"
    have rem: "nat (rb_remain rb) = c - s" "s < c"
      using True r by (auto simp: rb_remain_def capacity_def rb_size_def)
    have t: "0 < t" "t \<le> c - s" "p + t \<le> c" using rem r by (auto simp: t_def)
    have tmp: "(if read_pos rb \<le> write_pos rb then capacity rb - write_pos rb else read_pos rb - write_pos rb) = int t"
      using read_pos_nat [OF r(1-3) r(5-7)] cell_cases [of s c p 0] r rem(2)
      by (auto simp: t_def capacity_def)
    define k where "k = min (n - w) t"
    have k: "0 < k" "k \<le> t" "k \<le> n - w" "int k = min (int n - int w) (int t)"
      using True t(1) less.prems(2) by (auto simp: k_def)
    have sl: "mem_read src (int w) (int k) = Some (slice src w k)" "length (slice src w k) = k"
      using k(3) less.prems(2,3) by auto
    obtain buf where buf: "mem_write (rb_buffer rb) (write_pos rb) (slice src w k) = Some buf"
      and st: "rb_inv (rb\<lparr>rb_buffer := buf, write_pos := (write_pos rb + int k) smod capacity rb, data_size := data_size rb + int k\<rparr>)"
        "contents (rb\<lparr>rb_buffer := buf, write_pos := (write_pos rb + int k) smod capacity rb, data_size := data_size rb + int k\<rparr>)
          = contents rb @ slice src w k"
      using store_contents [OF less.prems(1) sl(2)] k t r rem by auto
    let ?rb = "rb\<lparr>rb_buffer := buf, write_pos := (write_pos rb + int k) smod capacity rb, data_size := data_size rb + int k\<rparr>"
    note inv = st(1) and con = st(2)
    have cap: "capacity ?rb = capacity rb"
      using mem_write_length [OF buf] by (simp add: capacity_def)
    have rem': "nat (rb_remain ?rb) = nat (rb_remain rb) - k"
    proof -
      have "rb_remain ?rb = rb_remain rb - int k" using cap by (simp add: rb_remain_def rb_size_def)
      then show ?thesis by linarith
    qed
    have loop: "write_loop rb src (int n) (int w) = write_loop ?rb src (int n) (int (w + k))"
      using True sl(1) buf tmp by (simp add: write_loop.simps [of rb] Let_def k(4) [symmetric])
    have m: "min (n - w) (nat (rb_remain rb)) = k + min (n - (w + k)) (nat (rb_remain rb) - k)"
      unfolding rem(1) using k(2,3) t(2) by (auto simp: min_def)
    have less_rem: "nat (rb_remain ?rb) < nat (rb_remain rb)" using rem' rem k(1) by linarith
    have w_le: "w + k \<le> n" using k(3) True by linarith
    obtain rb' where "write_loop ?rb src (int n) (int (w + k)) =
        Some (SUCCESS, int (w + k + min (n - (w + k)) (nat (rb_remain rb) - k)), rb')"
      "rb_inv rb'" "contents rb' = contents ?rb @ slice src (w + k) (min (n - (w + k)) (nat (rb_remain rb) - k))"
      "capacity rb' = capacity ?rb"
      using less.hyps [OF less_rem inv w_le less.prems(3), unfolded rem'] by blast
    then show ?thesis
      unfolding m loop con cap by (simp add: slice_def take_add drop_drop add.commute add.left_commute)
  qed
qed

section \<open>The operations\<close>

lemma rb_write_contents:
  assumes "rb_inv rb" and "n \<le> length src"
  shows "\<exists>rb'. rb_write rb src (int n) = Some (SUCCESS, int (min n (nat (rb_remain rb))), rb') \<and>
    rb_inv rb' \<and> contents rb' = contents rb @ take (min n (nat (rb_remain rb))) src \<and> capacity rb' = capacity rb"
  using write_loop_contents [OF assms(1), of 0 n src] assms(2) by (simp add: rb_write_def slice_def)

lemma rb_read_contents:
  assumes "rb_inv rb"
  shows "\<exists>rb'. rb_read rb (int n) = Some (SUCCESS, take n (contents rb), rb') \<and> rb_inv rb' \<and>
    contents rb' = drop n (contents rb) \<and> capacity rb' = capacity rb"
  using read_loop_contents [OF assms, of "[]" n] by (simp add: rb_read_def)

lemma rb_new_inv: "0 < n \<Longrightarrow> n \<le> 1073741824 \<Longrightarrow> rb_inv (rb_new n) \<and> contents (rb_new n) = [] \<and> capacity (rb_new n) = int n"
  by (simp add: rb_inv_def rb_new_def capacity_def contents_def)

lemma rb_remain_contents: "rb_inv rb \<Longrightarrow> nat (rb_remain rb) = nat (capacity rb) - length (contents rb)"
  by (simp add: rb_remain_def rb_size_def rb_inv_def nat_diff_distrib)

lemma go_back_contents:
  assumes "rb_inv rb" and "0 < n" and "n \<le> nat (data_size rb)" and "int n \<le> write_pos rb"
  shows "\<exists>rb'. go_back rb (int n) = (SUCCESS, rb') \<and> rb_inv rb' \<and>
           contents rb' = take (length (contents rb) - n) (contents rb)"
proof -
  obtain c w s where r: "length (rb_buffer rb) = c" "write_pos rb = int w" "data_size rb = int s"
    "0 < c" "s \<le> c" "w < c" "c \<le> 1073741824" using rb_inv_nat [OF assms(1)] .
  let ?rb = "rb\<lparr>data_size := data_size rb - int n, write_pos := write_pos rb - int n\<rparr>"
  have n: "n \<le> s" "n \<le> w" using assms(3,4) r by auto
  have "w - n + c - (s - n) + i = w + c - s + i" for i using n r by linarith
  then have "cell c (w - n) (s - n) i = cell c w s i" for i by (simp only: cell_def)
  moreover have "nat (int s - int n) = s - n" "nat (int w - int n) = w - n" by simp_all
  ultimately have "contents ?rb = take (length (contents rb) - n) (contents rb)"
    by (intro nth_equalityI) (auto simp: contents_def r)
  then show ?thesis using assms n r by (auto simp: go_back_def rb_size_def rb_inv_def capacity_def)
qed

section \<open>The interface for the buffered writer\<close>

locale byte_queue =
  fixes inv :: "'q \<Rightarrow> bool" and bytes_of :: "'q \<Rightarrow> byte list" and room :: "'q \<Rightarrow> nat"
    and enq :: "'q \<Rightarrow> byte list \<Rightarrow> int \<Rightarrow> (rc \<times> int \<times> 'q) option"
    and drop_front :: "'q \<Rightarrow> int \<Rightarrow> rc \<times> 'q"
  assumes enq_law: "inv q \<Longrightarrow> n \<le> length src \<Longrightarrow>
      \<exists>q'. enq q src (int n) = Some (SUCCESS, int (min n (room q)), q') \<and> inv q' \<and>
           bytes_of q' = bytes_of q @ take (min n (room q)) src \<and> room q' = room q - min n (room q)"
    and drop_law: "inv q \<Longrightarrow> 0 < n \<Longrightarrow> n \<le> length (bytes_of q) \<Longrightarrow>
      \<exists>q'. drop_front q (int n) = (SUCCESS, q') \<and> inv q' \<and> bytes_of q' = drop n (bytes_of q) \<and> room q' = room q + n"
begin

lemma enq_all:
  assumes "inv q" and "length src \<le> room q"
  shows "\<exists>q'. enq q src (int (length src)) = Some (SUCCESS, int (length src), q') \<and> inv q' \<and>
           bytes_of q' = bytes_of q @ src"
  using enq_law [OF assms(1), of "length src" src] assms(2) by (auto simp: min_def)

lemma drop_conserves:
  assumes "inv q" and "0 < n" and "n \<le> length (bytes_of q)" and "drop_front q (int n) = (rc, q')"
  shows "take n (bytes_of q) @ bytes_of q' = bytes_of q" and "inv q'"
  using drop_law [OF assms(1-3)] assms(4) by auto

end

interpretation rbq: byte_queue rb_inv contents "\<lambda>rb. nat (rb_remain rb)" rb_write forward
proof
  fix q n src assume q: "rb_inv q" "n \<le> length (src :: byte list)"
  show "\<exists>q'. rb_write q src (int n) = Some (SUCCESS, int (min n (nat (rb_remain q))), q') \<and> rb_inv q' \<and>
           contents q' = contents q @ take (min n (nat (rb_remain q))) src \<and>
           nat (rb_remain q') = nat (rb_remain q) - min n (nat (rb_remain q))"
  proof -
    obtain q' where q': "rb_write q src (int n) = Some (SUCCESS, int (min n (nat (rb_remain q))), q')"
      "rb_inv q'" "contents q' = contents q @ take (min n (nat (rb_remain q))) src" "capacity q' = capacity q"
      using rb_write_contents [OF q] by blast
    have "length (contents q') = length (contents q) + min n (nat (rb_remain q))"
      unfolding q'(3) using q(2) by simp
    then have "nat (rb_remain q') = nat (rb_remain q) - min n (nat (rb_remain q))"
      unfolding rb_remain_contents [OF q'(2)] rb_remain_contents [OF q(1)] q'(4) by linarith
    then show ?thesis using q' by blast
  qed
next
  fix q n assume q: "rb_inv q" "0 < n" "n \<le> length (contents q)"
  then show "\<exists>q'. forward q (int n) = (SUCCESS, q') \<and> rb_inv q' \<and> contents q' = drop n (contents q) \<and>
           nat (rb_remain q') = nat (rb_remain q) + n"
    using forward_contents [of q n] by (auto simp: rb_remain_def capacity_def rb_size_def rb_inv_def)
qed

section \<open>Properties\<close>

text \<open>
  C24: the ring buffer is a bounded byte queue. A \<^verbatim>\<open>write\<close> stores as many bytes as there is room for and reports
  their number; a following \<^verbatim>\<open>read\<close> of any size takes the oldest bytes, across the wrap of the buffer, and leaves the
  others; no access leaves the buffer. The capacity is at most \<open>2 ^ 30\<close>: beyond that the sum in \<open>read_pos\<close> overflows.
\<close>

theorem ring_buffer_fifo:
  assumes "rb_inv rb" and "n \<le> length src"
  shows "\<exists>rb' rb''. rb_write rb src (int n) = Some (SUCCESS, int (min n (nat (rb_remain rb))), rb') \<and>
    rb_read rb' (int m) = Some (SUCCESS, take m (contents rb @ take (min n (nat (rb_remain rb))) src), rb'') \<and>
    contents rb'' = drop m (contents rb @ take (min n (nat (rb_remain rb))) src) \<and> rb_inv rb''"
  using rb_write_contents [OF assms] rb_read_contents [of _ m] by metis

theorem ring_buffer_fifo_witness:
  "\<exists>rb' rb''. rb_write (rb_new 4) [1, 2, 3] (int 3) = Some (SUCCESS, int (min 3 (nat (rb_remain (rb_new 4)))), rb') \<and>
    rb_read rb' (int 2) = Some (SUCCESS, take 2 (contents (rb_new 4) @ take (min 3 (nat (rb_remain (rb_new 4)))) [1, 2, 3]), rb'') \<and>
    contents rb'' = drop 2 (contents (rb_new 4) @ take (min 3 (nat (rb_remain (rb_new 4)))) [1, 2, 3]) \<and> rb_inv rb''"
  using ring_buffer_fifo [of "rb_new 4" 3 "[1, 2, 3]" 2] rb_new_inv [of 4] by simp

text \<open>
  \<^verbatim>\<open>go_back\<close> subtracts from the write position without wrapping, so that it can leave \<open>[0, capacity)\<close>, the range the
  header promises, and the next write is outside the buffer.
\<close>

lemma go_back_leaves_buffer:
  "(case rb_write (rb_new 4) [1, 2, 3] 3 of
      Some (_, _, rb1) \<Rightarrow>
        (case rb_write (snd (forward rb1 3)) [4, 5] 2 of
           Some (_, _, rb2) \<Rightarrow>
             fst (go_back rb2 2) = SUCCESS \<and> write_pos (snd (go_back rb2 2)) = - 1 \<and>
             rb_write (snd (go_back rb2 2)) [6] 1 = None
         | None \<Rightarrow> False)
    | None \<Rightarrow> False)"
  by code_simp

end
