(* ===== verification/Buffered_Writer.thy ===== *)
theory Buffered_Writer
  imports Ring_Buffer
begin

text \<open>
  \<^verbatim>\<open>BufferedWriter\<close> (\<^verbatim>\<open>src/src/observer/net/buffered_writer.cpp\<close>) over the ring buffer. The system call
  \<^verbatim>\<open>::write\<close> is the environment: a script of its results, one per call. \<open>Wrote n\<close> accepts the first
  \<open>n\<close> bytes of what it is given (never more than that), \<open>Again\<close> is -1 with \<^verbatim>\<open>EAGAIN\<close> or \<^verbatim>\<open>EINTR\<close>,
  \<open>Failed\<close> is -1 with another error. \<open>sent\<close> collects the bytes accepted so far. An exhausted script is
  a call that never returns, and the result is then \<open>None\<close>.
\<close>

datatype sys_result = Wrote nat | Again | Failed

record BufferedWriter =
  fd :: int
  bw_buffer :: RingBuffer
  sent :: "byte list"

type_synonym 'a io = "('a \<times> BufferedWriter \<times> sys_result list) option"

text \<open>The inner loop of \<^verbatim>\<open>flush_internal\<close>: repeat the call until it accepts something or fails.\<close>

fun sys_write :: "nat \<Rightarrow> sys_result list \<Rightarrow> (nat option \<times> sys_result list) option" where
  "sys_write len [] = None"
| "sys_write len (Again # os) = sys_write len os"
| "sys_write len (Failed # os) = Some (None, os)"
| "sys_write len (Wrote n # os) = (if min n len = 0 then sys_write len os else Some (Some (min n len), os))"

lemma sys_write_shrinks: "sys_write len os = Some (r, os') \<Longrightarrow> length os' < length os"
  by (induction len os rule: sys_write.induct) (auto split: if_splits)

function flush_loop :: "BufferedWriter \<Rightarrow> int \<Rightarrow> int \<Rightarrow> sys_result list \<Rightarrow> rc io" where
  "flush_loop bw n written os =
     (if 0 < rb_size (bw_buffer bw) \<and> written < n
      then case rb_peek (bw_buffer bw) of (pos, read_size) \<Rightarrow>
        (case mem_read (rb_buffer (bw_buffer bw)) pos read_size of
           None \<Rightarrow> None
         | Some buf \<Rightarrow>
             (case sys_write (length buf) os of
                None \<Rightarrow> None
              | Some (None, os') \<Rightarrow> Some (IOERR_WRITE, bw, os')
              | Some (Some k, os') \<Rightarrow>
                  flush_loop (bw\<lparr>bw_buffer := snd (forward (bw_buffer bw) (int k)), sent := sent bw @ take k buf\<rparr>)
                    n (written + int k) os'))
      else Some (SUCCESS, bw, os))"
  by pat_completeness auto
termination
  by (relation "measure (\<lambda>(bw, n, w, os). length os)") (auto dest: sys_write_shrinks)

declare flush_loop.simps [simp del]

definition flush_internal :: "BufferedWriter \<Rightarrow> int \<Rightarrow> sys_result list \<Rightarrow> rc io" where
  "flush_internal bw n os = (if fd bw < 0 then Some (INVALID_ARGUMENT, bw, os) else flush_loop bw n 0 os)"

definition bw_write :: "BufferedWriter \<Rightarrow> byte list \<Rightarrow> int \<Rightarrow> sys_result list \<Rightarrow> (rc \<times> int) io" where
  "bw_write bw src n os =
     (if fd bw < 0 then Some ((INVALID_ARGUMENT, 0), bw, os)
      else case (if rb_remain (bw_buffer bw) = 0 then flush_internal bw n os else Some (SUCCESS, bw, os)) of
        None \<Rightarrow> None
      | Some (rc, bw', os') \<Rightarrow>
          if OB_FAIL rc then Some ((rc, 0), bw', os')
          else map_option (\<lambda>(rc, k, rb). ((rc, k), bw'\<lparr>bw_buffer := rb\<rparr>, os')) (rb_write (bw_buffer bw') src n))"

definition bw_go_back :: "BufferedWriter \<Rightarrow> int \<Rightarrow> rc \<times> BufferedWriter" where
  "bw_go_back bw n =
     (if fd bw < 0 then (INVALID_ARGUMENT, bw)
      else if rb_remain (bw_buffer bw) = capacity (bw_buffer bw) then (VARIABLE_NOT_VALID, bw)
      else case go_back (bw_buffer bw) n of (rc, rb) \<Rightarrow> (rc, bw\<lparr>bw_buffer := rb\<rparr>))"

partial_function (option) writen_loop :: "BufferedWriter \<Rightarrow> byte list \<Rightarrow> int \<Rightarrow> sys_result list \<Rightarrow> rc io" where
  "writen_loop bw src written os =
     (if written < int (length src)
      then case bw_write bw (drop (nat written) src) (int (length src) - written) os of
             None \<Rightarrow> None
           | Some ((rc, k), bw', os') \<Rightarrow>
               if OB_FAIL rc then Some (rc, bw', os') else writen_loop bw' src (written + k) os'
      else Some (SUCCESS, bw, os))"

declare writen_loop.simps [code]

definition writen :: "BufferedWriter \<Rightarrow> byte list \<Rightarrow> sys_result list \<Rightarrow> rc io" where
  "writen bw src os = (if fd bw < 0 then Some (INVALID_ARGUMENT, bw, os) else writen_loop bw src 0 os)"

partial_function (option) flush_all_loop :: "BufferedWriter \<Rightarrow> sys_result list \<Rightarrow> rc io" where
  "flush_all_loop bw os =
     (if 0 < rb_size (bw_buffer bw)
      then case flush_internal bw (rb_size (bw_buffer bw)) os of
             None \<Rightarrow> None
           | Some (rc, bw', os') \<Rightarrow> if OB_SUCC rc then flush_all_loop bw' os' else Some (rc, bw', os')
      else Some (SUCCESS, bw, os))"

declare flush_all_loop.simps [code]

definition flush :: "BufferedWriter \<Rightarrow> sys_result list \<Rightarrow> rc io" where
  "flush bw os = (if fd bw < 0 then Some (INVALID_ARGUMENT, bw, os) else flush_all_loop bw os)"

definition bw_close :: "BufferedWriter \<Rightarrow> sys_result list \<Rightarrow> rc io" where
  "bw_close bw os =
     (if fd bw < 0 then Some (SUCCESS, bw, os)
      else case flush bw os of
        None \<Rightarrow> None
      | Some (rc, bw', os') \<Rightarrow>
          if OB_FAIL rc then Some (rc, bw', os') else Some (SUCCESS, bw'\<lparr>fd := - 1\<rparr>, os'))"

section \<open>Bytes are neither lost, nor repeated, nor reordered\<close>

definition stream :: "BufferedWriter \<Rightarrow> byte list" where
  \<comment> \<open>everything written so far: what the system took, then what is still buffered\<close>
  "stream bw = sent bw @ contents (bw_buffer bw)"

definition bw_inv :: "BufferedWriter \<Rightarrow> bool" where
  "bw_inv bw \<longleftrightarrow> rb_inv (bw_buffer bw)"

lemma sys_write_bound: "sys_write len os = Some (Some k, os') \<Longrightarrow> 0 < k \<and> k \<le> len"
  by (induction len os rule: sys_write.induct) (auto split: if_splits)

definition advance :: "BufferedWriter \<Rightarrow> nat \<Rightarrow> BufferedWriter" where
  \<comment> \<open>the system took the first \<open>k\<close> buffered bytes\<close>
  "advance bw k = bw\<lparr>bw_buffer := snd (forward (bw_buffer bw) (int k)),
                     sent := sent bw @ take k (contents (bw_buffer bw))\<rparr>"

lemma advance_inv:
  assumes "bw_inv bw" and "0 < k" and "k \<le> length (contents (bw_buffer bw))"
  shows "bw_inv (advance bw k)" "stream (advance bw k) = stream bw" "fd (advance bw k) = fd bw"
    "capacity (bw_buffer (advance bw k)) = capacity (bw_buffer bw)"
    "contents (bw_buffer (advance bw k)) = drop k (contents (bw_buffer bw))"
    "rb_size (bw_buffer (advance bw k)) = rb_size (bw_buffer bw) - int k"
  using forward_contents [of "bw_buffer bw" k] assms
  by (auto simp: advance_def bw_inv_def stream_def capacity_def rb_size_def)

lemma flush_loop_stop:
  "\<not> (0 < rb_size (bw_buffer bw) \<and> w < n) \<Longrightarrow> flush_loop bw n w os = Some (SUCCESS, bw, os)"
  by (subst flush_loop.simps) auto

lemma flush_loop_step:
  assumes "bw_inv bw" and "0 < rb_size (bw_buffer bw)" and "w < n"
  shows "\<exists>t. 0 < t \<and> t \<le> length (contents (bw_buffer bw)) \<and>
    flush_loop bw n w os =
      (case sys_write t os of
         None \<Rightarrow> None
       | Some (None, os') \<Rightarrow> Some (IOERR_WRITE, bw, os')
       | Some (Some k, os') \<Rightarrow> flush_loop (advance bw k) n (w + int k) os')"
proof -
  obtain p t where t: "rb_peek (bw_buffer bw) = (int p, int t)" "0 < t" "t \<le> nat (data_size (bw_buffer bw))"
    "p + t \<le> length (rb_buffer (bw_buffer bw))" "slice (rb_buffer (bw_buffer bw)) p t = take t (contents (bw_buffer bw))"
    using peek_contents [of "bw_buffer bw"] assms(1,2) by (auto simp: rb_size_def bw_inv_def)
  have "take k (take t (contents (bw_buffer bw))) = take k (contents (bw_buffer bw))"
    if "sys_write t os = Some (Some k, os')" for k os'
    using sys_write_bound [OF that] by (simp add: min_absorb1)
  then have "flush_loop bw n w os =
      (case sys_write t os of
         None \<Rightarrow> None
       | Some (None, os') \<Rightarrow> Some (IOERR_WRITE, bw, os')
       | Some (Some k, os') \<Rightarrow> flush_loop (advance bw k) n (w + int k) os')"
    using assms(2,3) t by (subst flush_loop.simps) (auto simp: advance_def split: option.splits)
  then show ?thesis using t(2,3) by auto
qed

text \<open>
  The induction that the facts about a terminated flush share: it stopped, or it failed in a
  system call, or the system took \<open>k\<close> bytes and the rest is a shorter flush.
\<close>

lemma flush_loop_rule [consumes 2, case_names stop fail step]:
  assumes "flush_loop bw n w os = Some (rc, bw', os')" and "bw_inv bw"
    and stop: "\<And>bw w os. bw_inv bw \<Longrightarrow> \<not> (0 < rb_size (bw_buffer bw) \<and> w < n) \<Longrightarrow> P bw w os SUCCESS bw os"
    and fail: "\<And>bw w os os1. bw_inv bw \<Longrightarrow> length os1 < length os \<Longrightarrow> P bw w os IOERR_WRITE bw os1"
    and step: "\<And>bw w os k os1. bw_inv bw \<Longrightarrow> 0 < k \<Longrightarrow> k \<le> length (contents (bw_buffer bw)) \<Longrightarrow>
        length os1 < length os \<Longrightarrow> P (advance bw k) (w + int k) os1 rc bw' os' \<Longrightarrow> P bw w os rc bw' os'"
  shows "P bw w os rc bw' os'"
  using assms(1,2)
proof (induction "length os" arbitrary: bw w os rule: less_induct)
  case less
  show ?case
  proof (cases "0 < rb_size (bw_buffer bw) \<and> w < n")
    case False
    then show ?thesis using less.prems stop by (simp add: flush_loop_stop)
  next
    case True
    obtain t where t: "t \<le> length (contents (bw_buffer bw))" and
      eq: "flush_loop bw n w os =
      (case sys_write t os of
         None \<Rightarrow> None
       | Some (None, os') \<Rightarrow> Some (IOERR_WRITE, bw, os')
       | Some (Some k, os') \<Rightarrow> flush_loop (advance bw k) n (w + int k) os')"
      using flush_loop_step [of bw w n os] less.prems(2) True by auto
    obtain r os1 where r: "sys_write t os = Some (r, os1)" using eq less.prems(1) by (cases "sys_write t os") auto
    have os1: "length os1 < length os" using sys_write_shrinks [OF r] .
    show ?thesis
    proof (cases r)
      case None
      then show ?thesis using eq r less.prems os1 fail by auto
    next
      case (Some k)
      have k: "0 < k" "k \<le> length (contents (bw_buffer bw))" using r Some t by (auto dest: sys_write_bound)
      then have "P (advance bw k) (w + int k) os1 rc bw' os'"
        using less.hyps [OF os1] eq r Some less.prems(1) advance_inv(1) [OF less.prems(2)] by auto
      then show ?thesis using step [OF less.prems(2) k os1] by blast
    qed
  qed
qed

lemma flush_loop_stream:
  assumes "flush_loop bw n w os = Some (rc, bw', os')" and "bw_inv bw"
  shows "bw_inv bw' \<and> stream bw' = stream bw \<and> fd bw' = fd bw \<and> length os' \<le> length os \<and>
    capacity (bw_buffer bw') = capacity (bw_buffer bw) \<and> length (sent bw) \<le> length (sent bw')"
  using assms by (induction rule: flush_loop_rule) (auto simp: advance_inv, auto simp: advance_def)

lemma flush_loop_drains:
  assumes "flush_loop bw n w os = Some (rc, bw', os')" and "bw_inv bw"
  shows "rc = SUCCESS \<Longrightarrow> rb_size (bw_buffer bw) \<le> n - w \<Longrightarrow> contents (bw_buffer bw') = []"
  using assms
proof (induction rule: flush_loop_rule)
  case (stop bw w os)
  then have "data_size (bw_buffer bw) \<le> 0" by (auto simp: rb_size_def)
  then show ?case by (simp flip: length_0_conv)
qed (auto simp: advance_inv)

lemma flush_internal_stream:
  assumes "flush_internal bw n os = Some (rc, bw', os')" and "bw_inv bw"
  shows "bw_inv bw' \<and> stream bw' = stream bw \<and> fd bw' = fd bw \<and> length os' \<le> length os \<and>
    capacity (bw_buffer bw') = capacity (bw_buffer bw)"
  using assms flush_loop_stream [of bw n 0 os rc bw' os'] by (auto simp: flush_internal_def split: if_splits)

lemma bw_write_stream:
  assumes "bw_write bw src n os = Some ((rc, k), bw', os')" and "bw_inv bw" and "n \<le> int (length src)"
  shows "bw_inv bw' \<and> fd bw' = fd bw \<and> length os' \<le> length os \<and> 0 \<le> k \<and> k \<le> max 0 n \<and>
    stream bw' = stream bw @ take (nat k) src"
proof (cases "fd bw < 0")
  case True
  then show ?thesis using assms by (auto simp: bw_write_def)
next
  case False
  define r where "r = (if rb_remain (bw_buffer bw) = 0 then flush_internal bw n os else Some (SUCCESS, bw, os))"
  obtain rc1 bw1 os1 where r1: "r = Some (rc1, bw1, os1)"
    using assms(1) False by (cases r) (auto simp: bw_write_def r_def [symmetric])
  have b1: "bw_inv bw1" "stream bw1 = stream bw" "fd bw1 = fd bw" "length os1 \<le> length os"
    using r1 assms(2) flush_internal_stream [of bw n os rc1 bw1 os1] by (auto simp: r_def split: if_splits)
  have res: "(if OB_FAIL rc1 then Some ((rc1, 0), bw1, os1)
      else map_option (\<lambda>(rc, k, rb). ((rc, k), bw1\<lparr>bw_buffer := rb\<rparr>, os1)) (rb_write (bw_buffer bw1) src n))
      = Some ((rc, k), bw', os')"
    using assms(1) False r1 by (simp add: bw_write_def r_def [symmetric])
  show ?thesis
  proof (cases "OB_FAIL rc1 \<or> n < 0")
    case True
    then show ?thesis using res b1 by (auto simp: rb_write_def split: if_splits)
  next
    case ok: False
    then obtain m where m: "n = int m" by (metis nonneg_int_cases not_less)
    obtain rb where rb: "rb_write (bw_buffer bw1) src (int m) = Some (SUCCESS, int (min m (nat (rb_remain (bw_buffer bw1)))), rb)"
      "rb_inv rb" "contents rb = contents (bw_buffer bw1) @ take (min m (nat (rb_remain (bw_buffer bw1)))) src"
      using rb_write_contents [of "bw_buffer bw1" m src] b1(1) assms(3) m by (auto simp: bw_inv_def)
    then show ?thesis using res ok b1 m by (auto simp: stream_def bw_inv_def)
  qed
qed

lemma flush_loop_progress:
  assumes "flush_loop bw n 0 os = Some (SUCCESS, bw', os')" and "bw_inv bw" and "0 < rb_size (bw_buffer bw)" and "0 < n"
  shows "length (sent bw) < length (sent bw')"
proof -
  obtain t where t: "t \<le> length (contents (bw_buffer bw))" and
    eq: "flush_loop bw n 0 os =
    (case sys_write t os of
       None \<Rightarrow> None
     | Some (None, os') \<Rightarrow> Some (IOERR_WRITE, bw, os')
     | Some (Some k, os') \<Rightarrow> flush_loop (advance bw k) n (0 + int k) os')"
    using flush_loop_step [of bw 0 n os] assms by auto
  obtain k os1 where r: "sys_write t os = Some (Some k, os1)"
    using eq assms(1) by (auto split: option.splits)
  have k: "0 < k" "k \<le> length (contents (bw_buffer bw))" using sys_write_bound [OF r] t by auto
  then have "length (sent (advance bw k)) \<le> length (sent bw')"
    using flush_loop_stream [of "advance bw k" n "int k" os1 SUCCESS bw' os'] eq r assms(1)
      advance_inv(1) [OF assms(2) k] by auto
  then show ?thesis using k by (auto simp: advance_def)
qed

lemma bw_write_progress:
  assumes "bw_write bw src n os = Some ((SUCCESS, k), bw', os')" and "bw_inv bw" and "0 < n" and "n \<le> int (length src)"
  shows "0 < k"
proof -
  have fd: "\<not> fd bw < 0" using assms(1) by (auto simp: bw_write_def)
  define r where "r = (if rb_remain (bw_buffer bw) = 0 then flush_internal bw n os else Some (SUCCESS, bw, os))"
  obtain rc1 bw1 os1 where r1: "r = Some (rc1, bw1, os1)" and ok: "rc1 = SUCCESS"
    and res: "map_option (\<lambda>(rc, k, rb). ((rc, k), bw1\<lparr>bw_buffer := rb\<rparr>, os1)) (rb_write (bw_buffer bw1) src n)
      = Some ((SUCCESS, k), bw', os')"
    using assms(1) fd by (cases r) (auto simp: bw_write_def r_def [symmetric] split: if_splits)
  have inv1: "bw_inv bw1" and room: "0 < rb_remain (bw_buffer bw1)"
  proof -
    show "bw_inv bw1" using r1 assms(2) flush_internal_stream [of bw n os rc1 bw1 os1] by (auto simp: r_def split: if_splits)
    show "0 < rb_remain (bw_buffer bw1)"
    proof (cases "rb_remain (bw_buffer bw) = 0")
      case False
      then show ?thesis using r1 assms(2) by (auto simp: r_def bw_inv_def rb_inv_def rb_remain_def rb_size_def)
    next
      case True
      then have fl: "flush_loop bw n 0 os = Some (SUCCESS, bw1, os1)" using r1 ok fd by (auto simp: r_def flush_internal_def)
      have "0 < rb_size (bw_buffer bw)" using True assms(2) by (simp add: rb_remain_def bw_inv_def rb_inv_def)
      then have "length (sent bw) < length (sent bw1)" using flush_loop_progress [OF fl assms(2) _ assms(3)] by blast
      moreover have st: "stream bw1 = stream bw" "capacity (bw_buffer bw1) = capacity (bw_buffer bw)"
        using flush_loop_stream [OF fl assms(2)] by auto
      ultimately have "length (contents (bw_buffer bw1)) < length (contents (bw_buffer bw))"
        using arg_cong [OF st(1), of length] unfolding stream_def length_append by linarith
      then show ?thesis using st(2) True \<open>bw_inv bw1\<close>
        by (simp add: rb_remain_def rb_size_def bw_inv_def rb_inv_def)
    qed
  qed
  obtain m where m: "n = int m" using assms(3) by (metis nonneg_int_cases less_imp_le)
  show ?thesis
    using rb_write_contents [of "bw_buffer bw1" m src] inv1 assms(3,4) m res room by (auto simp: bw_inv_def)
qed

lemma writen_loop_stream:
  assumes "writen_loop bw src (int w) os = Some (rc, bw', os')" and "bw_inv bw" and "w \<le> length src"
  shows "bw_inv bw' \<and> (\<exists>k. w \<le> k \<and> k \<le> length src \<and> stream bw' = stream bw @ slice src w (k - w) \<and>
    (rc = SUCCESS \<longrightarrow> k = length src))"
  using assms
proof (induction "length src - w" arbitrary: bw w os rule: less_induct)
  case less
  show ?case
  proof (cases "w < length src")
    case False
    then show ?thesis using less.prems by (auto simp: writen_loop.simps [of bw] slice_def)
  next
    case True
    obtain rc1 k1 bw1 os1 where wr: "bw_write bw (drop w src) (int (length src - w)) os = Some ((rc1, k1), bw1, os1)"
      using less.prems(1) True by (auto simp: writen_loop.simps [of bw] split: option.splits)
    then have st: "bw_inv bw1" "0 \<le> k1" "k1 \<le> int (length src - w)" "stream bw1 = stream bw @ take (nat k1) (drop w src)"
      using bw_write_stream [OF wr less.prems(2)] by auto
    obtain k where k: "k1 = int k" "k \<le> length src - w" using st(2,3) by (metis nonneg_int_cases of_nat_le_iff)
    show ?thesis
    proof (cases "rc1 = SUCCESS")
      case False
      then show ?thesis using less.prems(1) True wr st k
        by (auto simp: writen_loop.simps [of bw] slice_def intro!: exI [of _ "w + k"])
    next
      case ok: True
      have "0 < k" using bw_write_progress [of bw "drop w src" "int (length src - w)" os k1 bw1 os1] wr ok k less.prems(2) True by auto
      moreover have "writen_loop bw1 src (int (w + k)) os1 = Some (rc, bw', os')"
        using less.prems(1) True wr ok k by (simp add: writen_loop.simps [of bw])
      ultimately obtain k' where "bw_inv bw'" "w + k \<le> k'" "k' \<le> length src"
        "stream bw' = stream bw1 @ slice src (w + k) (k' - (w + k))" "rc = SUCCESS \<longrightarrow> k' = length src"
        using less.hyps [of "w + k" bw1 os1] True st(1) k(2) by fastforce
      moreover then have "slice src w (k' - w) = take k (drop w src) @ slice src (w + k) (k' - (w + k))"
        by (metis (no_types, opaque_lifting) Nat.add_diff_assoc add.commute add_diff_cancel_left' drop_drop le_add1 le_add_diff_inverse slice_def take_add diff_diff_left)
      ultimately show ?thesis using st(4) k(1) by (auto intro!: exI [of _ k'])
    qed
  qed
qed

lemma flush_all_unfold:
  assumes "bw_inv bw" and "\<not> fd bw < 0"
  shows "flush_all_loop bw os =
    (if 0 < rb_size (bw_buffer bw) then flush_loop bw (rb_size (bw_buffer bw)) 0 os else Some (SUCCESS, bw, os))"
proof (cases "0 < rb_size (bw_buffer bw)")
  case True
  let ?r = "flush_loop bw (rb_size (bw_buffer bw)) 0 os"
  have eq: "flush_all_loop bw os = (case ?r of None \<Rightarrow> None
      | Some (rc, bw', os') \<Rightarrow> if OB_SUCC rc then flush_all_loop bw' os' else Some (rc, bw', os'))"
    using True assms(2) by (simp add: flush_all_loop.simps [of bw] flush_internal_def)
  have "flush_all_loop bw' os' = Some (SUCCESS, bw', os')" if "?r = Some (SUCCESS, bw', os')" for bw' os'
  proof -
    have "contents (bw_buffer bw') = []" "bw_inv bw'"
      using flush_loop_drains [OF that assms(1)] flush_loop_stream [OF that assms(1)] by auto
    then have "\<not> 0 < rb_size (bw_buffer bw')"
      by (auto simp: rb_size_def bw_inv_def rb_inv_def simp flip: length_0_conv)
    then show ?thesis by (simp add: flush_all_loop.simps [of bw'])
  qed
  then show ?thesis using True eq by (auto split: option.splits)
qed (simp add: flush_all_loop.simps [of bw])

lemma flush_stream:
  assumes "flush bw os = Some (rc, bw', os')" and "bw_inv bw"
  shows "bw_inv bw'" and "stream bw' = stream bw" and "rc = SUCCESS \<Longrightarrow> sent bw' = stream bw"
proof -
  have "bw_inv bw' \<and> stream bw' = stream bw \<and> (rc = SUCCESS \<longrightarrow> contents (bw_buffer bw') = [])"
  proof (cases "fd bw < 0")
    case True
    then show ?thesis using assms by (auto simp: flush_def)
  next
    case False
    show ?thesis
    proof (cases "0 < rb_size (bw_buffer bw)")
      case True
      then have fl: "flush_loop bw (rb_size (bw_buffer bw)) 0 os = Some (rc, bw', os')"
        using assms False by (simp add: flush_def flush_all_unfold)
      show ?thesis using flush_loop_stream [OF fl assms(2)] flush_loop_drains [OF fl assms(2)] by auto
    next
      case no: False
      then show ?thesis
        using assms False by (auto simp: flush_def flush_all_unfold rb_size_def simp flip: length_0_conv)
    qed
  qed
  then show "bw_inv bw'" and "stream bw' = stream bw" and "rc = SUCCESS \<Longrightarrow> sent bw' = stream bw"
    by (auto simp: stream_def)
qed

section \<open>The writer returns when the system keeps accepting bytes\<close>

definition willing :: "sys_result list \<Rightarrow> bool" where
  "willing os \<longleftrightarrow> (\<forall>r \<in> set os. \<exists>n. r = Wrote n \<and> 0 < n)"

lemma sys_write_willing:
  assumes "willing os" and "os \<noteq> []" and "0 < t"
  shows "\<exists>k. sys_write t os = Some (Some k, tl os) \<and> 0 < k \<and> k \<le> t"
  using assms by (cases os) (auto simp: willing_def min_def)

lemma willing_tl: "willing os \<Longrightarrow> willing (tl os)"
  by (cases os) (auto simp: willing_def)

lemma flush_loop_returns:
  assumes "willing os" and "bw_inv bw" and "length (contents (bw_buffer bw)) \<le> length os"
  shows "\<exists>bw' os'. flush_loop bw n w os = Some (SUCCESS, bw', os') \<and> willing os' \<and>
           length os + length (sent bw) \<le> length os' + length (sent bw')"
  using assms
proof (induction "length os" arbitrary: bw w os rule: less_induct)
  case less
  show ?case
  proof (cases "0 < rb_size (bw_buffer bw) \<and> w < n")
    case False
    then show ?thesis using less.prems by (auto simp: flush_loop_stop)
  next
    case True
    obtain t where t: "0 < t" "t \<le> length (contents (bw_buffer bw))" and
      eq: "flush_loop bw n w os =
      (case sys_write t os of
         None \<Rightarrow> None
       | Some (None, os') \<Rightarrow> Some (IOERR_WRITE, bw, os')
       | Some (Some k, os') \<Rightarrow> flush_loop (advance bw k) n (w + int k) os')"
      using flush_loop_step [of bw w n os] less.prems(2) True by auto
    have ne: "os \<noteq> []" using t less.prems(3) by auto
    obtain k where k: "sys_write t os = Some (Some k, tl os)" "0 < k" "k \<le> t"
      using sys_write_willing [OF less.prems(1) ne t(1)] by blast
    then have kb: "k \<le> length (contents (bw_buffer bw))" using t(2) by simp
    note adv = advance_inv [OF less.prems(2) k(2) kb]
    have "length (contents (bw_buffer (advance bw k))) \<le> length (tl os)"
      unfolding adv(5) using less.prems(3) k(2) by simp
    then obtain bw' os' where "flush_loop (advance bw k) n (w + int k) (tl os) = Some (SUCCESS, bw', os')" "willing os'"
      "length (tl os) + length (sent (advance bw k)) \<le> length os' + length (sent bw')"
      using less.hyps [of "tl os" "advance bw k" "w + int k"] willing_tl [OF less.prems(1)] adv(1) ne by auto
    moreover have "length (sent (advance bw k)) = length (sent bw) + k" using kb by (simp add: advance_def)
    ultimately show ?thesis using eq k ne by (cases os) auto
  qed
qed

lemma flush_returns:
  assumes "willing os" and "bw_inv bw" and "length (contents (bw_buffer bw)) \<le> length os" and "0 \<le> fd bw"
  shows "\<exists>bw' os'. flush bw os = Some (SUCCESS, bw', os') \<and> sent bw' = stream bw"
proof -
  obtain bw' os' where r: "flush bw os = Some (SUCCESS, bw', os')"
    using flush_loop_returns [OF assms(1-3), of "rb_size (bw_buffer bw)" 0] assms(2,4)
    by (cases "0 < rb_size (bw_buffer bw)") (auto simp: flush_def flush_all_unfold)
  then show ?thesis using flush_stream(3) [OF r assms(2)] by auto
qed

section \<open>Properties\<close>

text \<open>
  C17: the buffered writer neither loses, repeats nor reorders a byte, however the system splits, interrupts or fails the
  writes. When \<^verbatim>\<open>writen\<close> returns, what the system took followed by what is buffered is what there was before followed by
  a prefix of the new data, all of it when the code is \<^verbatim>\<open>SUCCESS\<close>.
\<close>

theorem writen_conserves_stream:
  assumes "writen bw src os = Some (rc, bw', os')" and "bw_inv bw"
  shows "bw_inv bw' \<and> (\<exists>k \<le> length src. stream bw' = stream bw @ take k src \<and> (rc = SUCCESS \<longrightarrow> k = length src))"
proof (cases "fd bw < 0")
  case True
  then show ?thesis using assms by (auto simp: writen_def intro!: exI [of _ 0])
next
  case False
  then have "writen_loop bw src (int 0) os = Some (rc, bw', os')" using assms(1) by (simp add: writen_def)
  then show ?thesis using writen_loop_stream [of bw src 0 os] assms(2) by (auto simp: slice_def)
qed

definition demo_writer :: BufferedWriter where
  "demo_writer = \<lparr>fd = 3, bw_buffer = rb_new 4, sent = []\<rparr>"

theorem writen_conserves_stream_witness:
  "(\<exists>bw' os'. writen demo_writer [1, 2, 3, 4, 5, 6] [Wrote 1, Again, Wrote 3] = Some (SUCCESS, bw', os') \<and>
     bw_inv bw' \<and> stream bw' = [1, 2, 3, 4, 5, 6])"
proof -
  have inv: "bw_inv demo_writer" "stream demo_writer = []"
    using rb_new_inv [of 4] by (simp_all add: demo_writer_def bw_inv_def stream_def)
  have "case writen demo_writer [1, 2, 3, 4, 5, 6] [Wrote 1, Again, Wrote 3] of Some (rc, _, _) \<Rightarrow> rc = SUCCESS | None \<Rightarrow> False"
    by code_simp
  then obtain bw' os' where w: "writen demo_writer [1, 2, 3, 4, 5, 6] [Wrote 1, Again, Wrote 3] = Some (SUCCESS, bw', os')"
    by (auto split: option.splits prod.splits)
  show ?thesis using writen_conserves_stream [OF w inv(1)] w inv(2) by auto
qed

definition full_writer :: BufferedWriter where
  \<comment> \<open>three bytes of the ring in use, from its second cell on, and one byte sent before\<close>
  "full_writer = \<lparr>fd = 3, bw_buffer = \<lparr>rb_buffer = [9, 10, 11, 12], data_size = 3, write_pos = 1\<rparr>, sent = [8]\<rparr>"

lemma full_writer_facts:
  "bw_inv full_writer" "contents (bw_buffer full_writer) = [11, 12, 9]" "stream full_writer = [8, 11, 12, 9]" "0 \<le> fd full_writer"
  by code_simp+

text \<open>
  C23: \<^verbatim>\<open>flush\<close> delivers. If the system keeps taking at least one byte per call, a flush of an open writer returns
  \<^verbatim>\<open>SUCCESS\<close> with every byte written so far handed to the system, in order.
\<close>

theorem flush_delivers:
  assumes "willing os" and "bw_inv bw" and "length (contents (bw_buffer bw)) \<le> length os" and "0 \<le> fd bw"
  shows "\<exists>bw' os'. flush bw os = Some (SUCCESS, bw', os') \<and> sent bw' = stream bw \<and> bw_inv bw'"
  using flush_returns [OF assms] flush_stream(1) assms(2) by blast

theorem flush_delivers_witness:
  "\<exists>bw' os'. flush full_writer [Wrote 1, Wrote 5, Wrote 2, Wrote 1] = Some (SUCCESS, bw', os') \<and> sent bw' = [8, 11, 12, 9] \<and> bw_inv bw'"
proof -
  have "willing [Wrote 1, Wrote 5, Wrote 2, Wrote 1]" by (simp add: willing_def)
  then show ?thesis using flush_delivers [of "[Wrote 1, Wrote 5, Wrote 2, Wrote 1]" full_writer] by (simp add: full_writer_facts)
qed

end
