(* ===== verification/Log_Entry.thy ===== *)
theory Log_Entry
  imports Ob_Prelude
begin

text \<open>
  \<^verbatim>\<open>LogModule\<close>, \<^verbatim>\<open>LogHeader\<close> and \<^verbatim>\<open>LogEntry\<close> (\<^verbatim>\<open>src/src/observer/storage/clog/log_module.h\<close>, \<^verbatim>\<open>log_entry.h\<close>,
  \<^verbatim>\<open>log_entry.cpp\<close>): one record of the redo log and its 16-byte header. A module id is kept as the integer
  the header holds, since \<^verbatim>\<open>LogModule(int32_t)\<close> casts any value.
\<close>

section \<open>Modules\<close>

datatype LogModuleId = BUFFER_POOL | BPLUS_TREE | RECORD_MANAGER | TRANSACTION

fun module_index :: "LogModuleId \<Rightarrow> int" where
  "module_index BUFFER_POOL = 0"
| "module_index BPLUS_TREE = 1"
| "module_index RECORD_MANAGER = 2"
| "module_index TRANSACTION = 3"

definition module_of_index :: "int \<Rightarrow> LogModuleId option" where
  "module_of_index i =
     (if i = 0 then Some BUFFER_POOL else if i = 1 then Some BPLUS_TREE
      else if i = 2 then Some RECORD_MANAGER else if i = 3 then Some TRANSACTION else None)"

definition log_module_name :: "int \<Rightarrow> string" where
  "log_module_name i =
     (case module_of_index i of
        Some BUFFER_POOL \<Rightarrow> ''BUFFER_POOL''
      | Some BPLUS_TREE \<Rightarrow> ''BPLUS_TREE''
      | Some RECORD_MANAGER \<Rightarrow> ''RECORD_MANAGER''
      | Some TRANSACTION \<Rightarrow> ''TRANSACTION''
      | None \<Rightarrow> ''UNKNOWN'')"

lemma module_of_index_index [simp]: "module_of_index (module_index m) = Some m"
  by (cases m) (simp_all add: module_of_index_def)

section \<open>Entries\<close>

record LogHeader =
  h_lsn :: int
  h_size :: int
  h_module_id :: int

record LogEntry =
  le_header :: LogHeader
  le_data :: "byte list"

definition LOG_HEADER_SIZE :: nat where
  "LOG_HEADER_SIZE = 16"

definition max_size :: int where
  "max_size = 4 * 1024 * 1024"

definition max_payload_size :: int where
  "max_payload_size = max_size - int LOG_HEADER_SIZE"

definition log_entry_new :: LogEntry where
  "log_entry_new = \<lparr>le_header = \<lparr>h_lsn = 0, h_size = 0, h_module_id = 0\<rparr>, le_data = []\<rparr>"

definition log_entry_init :: "LogEntry \<Rightarrow> int \<Rightarrow> int \<Rightarrow> byte list \<Rightarrow> rc \<times> LogEntry" where
  "log_entry_init e lsn module_id data =
     (if max_payload_size < int32_of (int (length data)) then (INVALID_ARGUMENT, e)
      else (SUCCESS, \<lparr>le_header = \<lparr>h_lsn = lsn, h_size = int32_of (int (length data)), h_module_id = module_id\<rparr>,
                      le_data = data\<rparr>))"

text \<open>The moved-from object keeps its module id, with LSN and size 0 and no data.\<close>

definition moved_from :: "LogEntry \<Rightarrow> LogEntry" where
  "moved_from e = \<lparr>le_header = (le_header e)\<lparr>h_lsn := 0, h_size := 0\<rparr>, le_data = []\<rparr>"

definition le_lsn :: "LogEntry \<Rightarrow> int" where
  "le_lsn e = h_lsn (le_header e)"

definition set_lsn :: "LogEntry \<Rightarrow> int \<Rightarrow> LogEntry" where
  "set_lsn e lsn = e\<lparr>le_header := (le_header e)\<lparr>h_lsn := lsn\<rparr>\<rparr>"

definition payload_size :: "LogEntry \<Rightarrow> int" where
  "payload_size e = h_size (le_header e)"

definition total_size :: "LogEntry \<Rightarrow> int" where
  "total_size e = int LOG_HEADER_SIZE + h_size (le_header e)"

section \<open>The bytes of an entry\<close>

definition header_bytes :: "LogHeader \<Rightarrow> byte list" where
  "header_bytes h = int_bytes 8 (h_lsn h) @ int_bytes 4 (h_size h) @ int_bytes 4 (h_module_id h)"

definition header_of :: "byte list \<Rightarrow> LogHeader" where
  "header_of bs = \<lparr>h_lsn = bytes_int (slice bs 0 8), h_size = bytes_int (slice bs 8 4), h_module_id = bytes_int (slice bs 12 4)\<rparr>"

definition entry_bytes :: "LogEntry \<Rightarrow> byte list" where
  "entry_bytes e = header_bytes (le_header e) @ le_data e"

definition entry_ok :: "LogEntry \<Rightarrow> bool" where
  "entry_ok e \<longleftrightarrow> int_fits 64 (h_lsn (le_header e)) \<and> int_fits 32 (h_module_id (le_header e)) \<and>
     h_size (le_header e) = int (length (le_data e)) \<and> int (length (le_data e)) \<le> max_payload_size"

lemma length_header_bytes [simp]: "length (header_bytes h) = 16"
  by (simp add: header_bytes_def)

lemma length_entry_bytes: "length (entry_bytes e) = 16 + length (le_data e)"
  by (simp add: entry_bytes_def)

lemma header_of_bytes:
  assumes "int_fits 64 (h_lsn h)" and "int_fits 32 (h_size h)" and "int_fits 32 (h_module_id h)"
  shows "header_of (header_bytes h) = h"
proof -
  have "slice (header_bytes h) 0 8 = int_bytes 8 (h_lsn h)"
    "slice (header_bytes h) 8 4 = int_bytes 4 (h_size h)"
    "slice (header_bytes h) 12 4 = int_bytes 4 (h_module_id h)"
    by (simp_all add: slice_def header_bytes_def)
  then show ?thesis using assms bytes_int_bytes [of 8] bytes_int_bytes [of 4] by (simp add: header_of_def)
qed

lemma entry_ok_header:
  assumes "entry_ok e"
  shows "header_of (header_bytes (le_header e)) = le_header e" and "0 \<le> h_size (le_header e)"
    and "h_size (le_header e) \<le> max_payload_size" and "nat (h_size (le_header e)) = length (le_data e)"
proof -
  have "int_fits 32 (h_size (le_header e))"
    using assms by (auto simp: entry_ok_def int_fits_def max_payload_size_def max_size_def LOG_HEADER_SIZE_def)
  then show "header_of (header_bytes (le_header e)) = le_header e"
    using assms by (intro header_of_bytes) (auto simp: entry_ok_def)
qed (use assms in \<open>auto simp: entry_ok_def\<close>)

lemma log_entry_init_ok:
  assumes "int (length data) \<le> max_payload_size"
  shows "log_entry_init e lsn m data =
    (SUCCESS, \<lparr>le_header = \<lparr>h_lsn = lsn, h_size = int (length data), h_module_id = m\<rparr>, le_data = data\<rparr>)"
proof -
  have "int32_of (int (length data)) = int (length data)"
    using assms by (intro int32_of_fits) (auto simp: int_fits_def max_payload_size_def max_size_def LOG_HEADER_SIZE_def)
  then show ?thesis using assms by (simp add: log_entry_init_def)
qed

lemma entry_ok_rebuild:
  assumes "entry_ok e"
  shows "log_entry_init e0 (h_lsn (le_header e)) (h_module_id (le_header e)) (le_data e) = (SUCCESS, e)"
  using assms by (subst log_entry_init_ok) (auto simp: entry_ok_def)

end
