(* ===== verification/Io.thy ===== *)
theory Io
  imports Buffered_Writer
begin

text \<open>
  \<^verbatim>\<open>common::writen\<close> and \<^verbatim>\<open>common::readn\<close> (\<^verbatim>\<open>src/deps/common/io/io.cpp\<close>) on regular files, and the part of
  a file system the storage code uses.

  \<^verbatim>\<open>::write\<close> may take any number of bytes, be interrupted or fail: its answers are a script of \<open>sys_result\<close>, as for
  \<^verbatim>\<open>BufferedWriter\<close>, and \<open>None\<close> is a loop that has not returned when the script ends. \<^verbatim>\<open>::read\<close> on
  a regular file delivers the bytes asked for, up to the end of the file; a file may have an unreadable
  byte (\<open>bad_byte\<close>), and a read that reaches it fails.
\<close>

record disk_file =
  content :: "byte list"
  bad_byte :: "nat option"

type_synonym disk = "string \<rightharpoonup> disk_file"

section \<open>Writing\<close>

fun io_writen :: "byte list \<Rightarrow> sys_result list \<Rightarrow> (bool \<times> byte list \<times> sys_result list) option" where
  \<comment> \<open>did it succeed, which bytes reached the file, what is left of the script\<close>
  "io_writen [] os = Some (True, [], os)"
| "io_writen (b # bs) [] = None"
| "io_writen (b # bs) (Again # os) = io_writen (b # bs) os"
| "io_writen (b # bs) (Failed # os) = Some (False, [], os)"
| "io_writen (b # bs) (Wrote n # os) =
     map_option (\<lambda>(ok, out, os'). (ok, take n (b # bs) @ out, os')) (io_writen (drop n (b # bs)) os)"

lemma io_writen_prefix:
  "io_writen bs os = Some (ok, out, os') \<Longrightarrow>
     out = take (length out) bs \<and> (ok \<longrightarrow> out = bs) \<and> length os' \<le> length os"
proof (induction bs os arbitrary: ok out os' rule: io_writen.induct)
  case (5 b bs n os)
  obtain out1 where e: "io_writen (drop n (b # bs)) os = Some (ok, out1, os')" "out = take n (b # bs) @ out1"
    using 5(2) by auto
  have "out1 = take (length out1) (drop n (b # bs)) \<and> (ok \<longrightarrow> out1 = drop n (b # bs)) \<and> length os' \<le> length os"
    using 5(1) [OF e(1)] .
  then have o: "out1 = take (length out1) (drop n (b # bs))" "ok \<longrightarrow> out1 = drop n (b # bs)" "length os' \<le> length os"
    by blast+
  have "out = take (n + length out1) (b # bs)"
    unfolding e(2) by (subst o(1)) (simp only: take_add)
  then have "out = take (length out) (b # bs)"
    by (metis length_take min.absorb_iff2 min_def take_all)
  moreover have "ok \<longrightarrow> out = b # bs" using e(2) o(2) by simp
  ultimately show ?case using o(3) by simp
qed auto

lemma io_writen_returns:
  "willing os \<Longrightarrow> length bs \<le> length os \<Longrightarrow> \<exists>os'. io_writen bs os = Some (True, bs, os') \<and>
     willing os' \<and> length os \<le> length os' + length bs"
proof (induction bs os rule: io_writen.induct)
  case (5 b bs n os)
  have "0 < n" "willing os" using 5(2) by (auto simp: willing_def)
  then have "length (drop n (b # bs)) \<le> length os" using 5(3) by simp
  then obtain os' where "io_writen (drop n (b # bs)) os = Some (True, drop n (b # bs), os')"
    "willing os'" "length os \<le> length os' + length (drop n (b # bs))"
    using 5(1) \<open>willing os\<close> by auto
  moreover have "length (drop n (b # bs)) \<le> length bs" using \<open>0 < n\<close> by simp
  ultimately show ?case using \<open>0 < n\<close>
    by (auto simp del: take_Cons' drop_Cons' length_drop simp: append_take_drop_id)
qed (auto simp: willing_def)

section \<open>Reading\<close>

definition sys_read :: "disk_file \<Rightarrow> nat \<Rightarrow> nat \<Rightarrow> byte list option" where
  "sys_read f pos n =
     (case bad_byte f of
        Some p \<Rightarrow> if pos \<le> p \<and> p < pos + n \<and> p < length (content f) then None else Some (slice (content f) pos n)
      | None \<Rightarrow> Some (slice (content f) pos n))"

datatype readn_result = Rd_ok "byte list" nat | Rd_eof nat | Rd_err

text \<open>The third argument is what the loop still wants; the position moves with every read.\<close>

function readn_loop :: "disk_file \<Rightarrow> nat \<Rightarrow> nat \<Rightarrow> byte list \<Rightarrow> readn_result" where
  "readn_loop f pos n acc =
     (if 0 < n
      then case sys_read f pos n of
             None \<Rightarrow> Rd_err
           | Some [] \<Rightarrow> Rd_eof pos
           | Some (b # bs) \<Rightarrow> readn_loop f (pos + length (b # bs)) (n - length (b # bs)) (acc @ b # bs)
      else Rd_ok acc pos)"
  by pat_completeness auto
termination
  by (relation "measure (\<lambda>(f, pos, n, acc). n)") auto

declare readn_loop.simps [simp del]

definition readn :: "disk_file \<Rightarrow> nat \<Rightarrow> nat \<Rightarrow> readn_result" where
  "readn f pos n = readn_loop f pos n []"

definition readable :: "disk_file \<Rightarrow> bool" where
  "readable f \<longleftrightarrow> bad_byte f = None"

lemma sys_read_readable: "readable f \<Longrightarrow> sys_read f pos n = Some (slice (content f) pos n)"
  by (simp add: sys_read_def readable_def)

lemma readn_loop_0: "readn_loop f pos 0 acc = Rd_ok acc pos"
  by (simp add: readn_loop.simps)

lemma readn_loop_end:
  "readable f \<Longrightarrow> length (content f) \<le> pos \<Longrightarrow> 0 < n \<Longrightarrow> readn_loop f pos n acc = Rd_eof pos"
  by (simp add: readn_loop.simps sys_read_readable slice_def)

lemma readn_readable:
  assumes "readable f"
  shows "readn f pos n =
    (if n = 0 then Rd_ok [] pos
     else if pos + n \<le> length (content f) then Rd_ok (slice (content f) pos n) (pos + n)
     else Rd_eof (max pos (length (content f))))"
proof (cases "n = 0 \<or> length (content f) \<le> pos")
  case True
  then show ?thesis using readn_loop_end [OF assms, of pos n] by (auto simp: readn_def readn_loop_0 max_def)
next
  case False
  let ?xs = "slice (content f) pos n"
  have ne: "?xs \<noteq> []" using False by (auto simp: slice_def)
  then have step: "readn f pos n = readn_loop f (pos + length ?xs) (n - length ?xs) ?xs"
    using False assms by (auto simp: readn_def readn_loop.simps [of f pos n] sys_read_readable split: list.split)
  have len: "length ?xs = min n (length (content f) - pos)" by (simp add: slice_def)
  show ?thesis
  proof (cases "pos + n \<le> length (content f)")
    case True
    then show ?thesis using False step len by (simp add: readn_loop_0)
  next
    case no: False
    then have "pos + length ?xs = length (content f)" "0 < n - length ?xs" using False len by auto
    then show ?thesis using step no False readn_loop_end [OF assms, of "pos + length ?xs" "n - length ?xs" ?xs] by auto
  qed
qed

lemma readn_err_bad: "readn f pos n = Rd_err \<Longrightarrow> \<not> readable f"
  using readn_readable [of f pos n] by (auto split: if_splits)

end
