(* ===== verification/Log_File.thy ===== *)
theory Log_File
  imports Log_Entry Io
begin

text \<open>
  \<^verbatim>\<open>LogFileReader\<close>, \<^verbatim>\<open>LogFileWriter\<close> and \<^verbatim>\<open>LogFileManager\<close> (\<^verbatim>\<open>src/src/observer/storage/clog/log_file.cpp\<close>).

  A callback of \<^verbatim>\<open>iterate\<close> is a function on a state of its own. The writer's file is the name it has
  open (\<open>None\<close> is \<^verbatim>\<open>fd_ < 0\<close>); \<open>last_lsn\<close> and \<open>end_lsn\<close> are 32-bit in the code and are cut to 32 bits
  here. \<^verbatim>\<open>log_files_\<close>, a \<^verbatim>\<open>std::map\<close>, is a list of pairs in increasing key order. Whether \<^verbatim>\<open>::open\<close>
  succeeds is a parameter \<open>openable\<close> of the operations that open.
\<close>

section \<open>Reading a log file\<close>

type_synonym 's log_callback = "LogEntry \<Rightarrow> 's \<Rightarrow> rc \<times> 's"

lemma readn_Rd_ok_bound:
  assumes "readn f pos n = Rd_ok bs pos'"
  shows "pos' = pos + n \<and> length bs = n \<and> (0 < n \<longrightarrow> pos + n \<le> length (content f))"
proof -
  have "readn_loop f p k acc = Rd_ok bs pos' \<Longrightarrow>
      pos' = p + k \<and> length bs = length acc + k \<and> (0 < k \<longrightarrow> p + k \<le> length (content f))" for p k acc
  proof (induction f p k acc rule: readn_loop.induct)
    case (1 f p k acc)
    show ?case
    proof (cases "0 < k")
      case True
      then obtain x xs where x: "sys_read f p k = Some (x # xs)"
        "readn_loop f (p + length (x # xs)) (k - length (x # xs)) (acc @ x # xs) = Rd_ok bs pos'"
        using "1.prems" by (auto simp: readn_loop.simps [of f p k] split: option.splits list.splits)
      have "slice (content f) p k = x # xs"
        using x(1) by (auto simp: sys_read_def split: option.splits if_splits)
      then have "length (x # xs) = min k (length (content f) - p)" by (auto simp: slice_def dest: arg_cong [where f = length])
      then have "length (x # xs) \<le> k" "p + length (x # xs) \<le> length (content f)" by auto
      then show ?thesis using "1.IH" [OF True x(1) refl x(2)] by auto
    next
      case False
      then show ?thesis using "1.prems" by (simp add: readn_loop.simps)
    qed
  qed
  then show ?thesis using assms by (auto simp: readn_def)
qed

text \<open>\<^verbatim>\<open>lseek\<close> to a position that is not negative always succeeds on a regular file.\<close>

function skip_to_loop :: "disk_file \<Rightarrow> int \<Rightarrow> nat \<Rightarrow> rc \<times> nat" where
  "skip_to_loop f start_lsn pos =
     (case readn f pos LOG_HEADER_SIZE of
        Rd_eof p \<Rightarrow> (SUCCESS, p)
      | Rd_err \<Rightarrow> (IOERR_READ, pos)
      | Rd_ok bs p \<Rightarrow>
          let hd = header_of bs
          in if start_lsn \<le> h_lsn hd then (SUCCESS, p - LOG_HEADER_SIZE)
             else if h_size hd < 0 \<or> max_payload_size < h_size hd then (IOERR_READ, p)
             else skip_to_loop f start_lsn (p + nat (h_size hd)))"
  by pat_completeness auto
termination
  by (relation "measure (\<lambda>(f, s, pos). length (content f) - pos)")
     (auto dest!: readn_Rd_ok_bound simp: LOG_HEADER_SIZE_def)

function iterate_loop :: "disk_file \<Rightarrow> 's log_callback \<Rightarrow> nat \<Rightarrow> 's \<Rightarrow> rc \<times> 's" where
  "iterate_loop f callback pos s =
     (case readn f pos LOG_HEADER_SIZE of
        Rd_eof p \<Rightarrow> (SUCCESS, s)
      | Rd_err \<Rightarrow> (IOERR_READ, s)
      | Rd_ok bs p \<Rightarrow>
          let hd = header_of bs
          in if h_size hd < 0 \<or> max_payload_size < h_size hd then (IOERR_READ, s)
             else case readn f p (nat (h_size hd)) of
                    Rd_eof _ \<Rightarrow> (IOERR_READ, s)
                  | Rd_err \<Rightarrow> (IOERR_READ, s)
                  | Rd_ok data p' \<Rightarrow>
                      case callback (snd (log_entry_init log_entry_new (h_lsn hd) (h_module_id hd) data)) s of
                        (rc, s') \<Rightarrow> if OB_FAIL rc then (rc, s') else iterate_loop f callback p' s')"
  by pat_completeness auto
termination
  by (relation "measure (\<lambda>(f, cb, pos, s). length (content f) - pos)")
     (auto dest!: readn_Rd_ok_bound simp: LOG_HEADER_SIZE_def)

declare skip_to_loop.simps [simp del] iterate_loop.simps [simp del]

definition reader_open :: "(string \<Rightarrow> bool) \<Rightarrow> disk \<Rightarrow> string \<Rightarrow> rc \<times> disk_file option" where
  "reader_open openable d filename =
     (if openable filename then case d filename of None \<Rightarrow> (FILE_OPEN, None) | Some f \<Rightarrow> (SUCCESS, Some f)
      else (FILE_OPEN, None))"

definition skip_to :: "disk_file option \<Rightarrow> int \<Rightarrow> rc \<times> nat" where
  "skip_to rfd start_lsn =
     (case rfd of None \<Rightarrow> (FILE_NOT_OPENED, 0) | Some f \<Rightarrow> skip_to_loop f start_lsn 0)"

definition reader_iterate :: "disk_file option \<Rightarrow> 's log_callback \<Rightarrow> int \<Rightarrow> 's \<Rightarrow> rc \<times> 's" where
  "reader_iterate rfd callback start_lsn s =
     (case skip_to rfd start_lsn of
        (rc, pos) \<Rightarrow>
          if OB_FAIL rc then (rc, s)
          else case rfd of None \<Rightarrow> (FILE_NOT_OPENED, s) | Some f \<Rightarrow> iterate_loop f callback pos s)"

definition reader_close :: "disk_file option \<Rightarrow> rc \<times> disk_file option" where
  "reader_close rfd = (case rfd of None \<Rightarrow> (FILE_NOT_OPENED, None) | Some _ \<Rightarrow> (SUCCESS, None))"

section \<open>Writing a log file\<close>

record LogFileWriter =
  w_file :: "string option"
  last_lsn :: int
  end_lsn :: int

definition writer_new :: LogFileWriter where
  "writer_new = \<lparr>w_file = None, last_lsn = 0, end_lsn = 0\<rparr>"

definition writer_valid :: "LogFileWriter \<Rightarrow> bool" where
  "writer_valid w \<longleftrightarrow> w_file w \<noteq> None"

definition writer_full :: "LogFileWriter \<Rightarrow> bool" where
  "writer_full w \<longleftrightarrow> end_lsn w \<le> last_lsn w"

definition writer_open :: "(string \<Rightarrow> bool) \<Rightarrow> disk \<Rightarrow> LogFileWriter \<Rightarrow> string \<Rightarrow> int \<Rightarrow> rc \<times> disk \<times> LogFileWriter" where
  "writer_open openable d w filename endl =
     (if writer_valid w then (FILE_OPEN, d, w)
      else let w1 = w\<lparr>end_lsn := int32_of endl\<rparr>
           in if openable filename
              then (SUCCESS, (if d filename = None then d(filename \<mapsto> \<lparr>content = [], bad_byte = None\<rparr>) else d),
                    w1\<lparr>w_file := Some filename\<rparr>)
              else (FILE_OPEN, d, w1))"

definition writer_close :: "LogFileWriter \<Rightarrow> rc \<times> LogFileWriter" where
  "writer_close w = (if writer_valid w then (SUCCESS, w\<lparr>w_file := None\<rparr>) else (FILE_NOT_OPENED, w))"

definition append_file :: "disk \<Rightarrow> string \<Rightarrow> byte list \<Rightarrow> disk" where
  \<comment> \<open>bytes arriving at a descriptor opened with \<^verbatim>\<open>O_APPEND\<close>\<close>
  "append_file d p bs = d(p := map_option (\<lambda>f. f\<lparr>content := content f @ bs\<rparr>) (d p))"

definition writer_write ::
  "disk \<Rightarrow> LogFileWriter \<Rightarrow> LogEntry \<Rightarrow> sys_result list \<Rightarrow> (rc \<times> disk \<times> LogFileWriter \<times> sys_result list) option" where
  "writer_write d w entry os =
     (if end_lsn w < le_lsn entry then Some (LOG_FILE_FULL, d, w, os)
      else case w_file w of
        None \<Rightarrow> Some (FILE_NOT_OPENED, d, w, os)
      | Some p \<Rightarrow>
          if le_lsn entry \<le> last_lsn w then Some (INVALID_ARGUMENT, d, w, os)
          else case io_writen (header_bytes (le_header entry)) os of
            None \<Rightarrow> None
          | Some (ok, out, os1) \<Rightarrow>
              let d1 = append_file d p out
              in if \<not> ok then Some (IOERR_WRITE, d1, w, os1)
                 else case io_writen (take (nat (payload_size entry)) (le_data entry)) os1 of
                   None \<Rightarrow> None
                 | Some (ok', out', os2) \<Rightarrow>
                     let d2 = append_file d1 p out'
                     in if \<not> ok' then Some (IOERR_WRITE, d2, w, os2)
                        else Some (SUCCESS, d2, w\<lparr>last_lsn := int32_of (le_lsn entry)\<rparr>, os2))"

section \<open>File names\<close>

definition digit_char :: "nat \<Rightarrow> char" where
  "digit_char n = char_of (48 + n)"

definition is_digit :: "char \<Rightarrow> bool" where
  "is_digit c \<longleftrightarrow> 48 \<le> (of_char c :: nat) \<and> (of_char c :: nat) \<le> 57"

definition digit_val :: "char \<Rightarrow> nat" where
  "digit_val c = of_char c - 48"

fun nat_to_string :: "nat \<Rightarrow> string" where
  "nat_to_string n = (if n < 10 then [digit_char n] else nat_to_string (n div 10) @ [digit_char (n mod 10)])"

declare nat_to_string.simps [simp del]

definition int_to_string :: "int \<Rightarrow> string" where
  \<comment> \<open>\<^verbatim>\<open>std::to_string\<close>\<close>
  "int_to_string v = (if v < 0 then CHR ''-'' # nat_to_string (nat (- v)) else nat_to_string (nat v))"

definition digits_value :: "string \<Rightarrow> nat" where
  "digits_value ds = foldl (\<lambda>n c. 10 * n + digit_val c) 0 ds"

definition from_chars :: "string \<Rightarrow> int option" where
  \<comment> \<open>\<^verbatim>\<open>std::from_chars\<close> for \<^verbatim>\<open>int64_t\<close>: the longest numeral at the front; what follows it is not looked at\<close>
  "from_chars s =
     (let neg = (s \<noteq> [] \<and> hd s = CHR ''-''); ds = takeWhile is_digit (if neg then tl s else s);
          v = (if neg then - int (digits_value ds) else int (digits_value ds))
      in if ds = [] then None else if int_fits 64 v then Some v else None)"

definition clog_prefix :: string where
  "clog_prefix = ''clog_''"

definition clog_suffix :: string where
  "clog_suffix = ''.log''"

definition starts_with :: "string \<Rightarrow> string \<Rightarrow> bool" where
  "starts_with s p \<longleftrightarrow> take (length p) s = p"

definition ends_with :: "string \<Rightarrow> string \<Rightarrow> bool" where
  "ends_with s p \<longleftrightarrow> length p \<le> length s \<and> drop (length s - length p) s = p"

definition get_lsn_from_filename :: "string \<Rightarrow> rc \<times> int option" where
  "get_lsn_from_filename filename =
     (if \<not> starts_with filename clog_prefix \<or> \<not> ends_with filename clog_suffix then (INVALID_ARGUMENT, None)
      else case from_chars (slice filename (length clog_prefix)
                  (length filename - length clog_suffix - length clog_prefix)) of
             None \<Rightarrow> (INVALID_ARGUMENT, None)
           | Some v \<Rightarrow> (SUCCESS, Some v))"

section \<open>The file manager\<close>

record LogFileManager =
  max_entry_number_per_file :: int
  log_files :: "(int \<times> string) list"

fun map_emplace :: "int \<Rightarrow> 'b \<Rightarrow> (int \<times> 'b) list \<Rightarrow> (int \<times> 'b) list" where
  \<comment> \<open>\<^verbatim>\<open>std::map::emplace\<close>: nothing happens when the key is there\<close>
  "map_emplace k v [] = [(k, v)]"
| "map_emplace k v ((k', v') # m) =
     (if k < k' then (k, v) # (k', v') # m else if k = k' then (k', v') # m else (k', v') # map_emplace k v m)"

definition scan_dir_entry :: "string \<times> bool \<Rightarrow> (int \<times> string) list \<Rightarrow> (int \<times> string) list" where
  "scan_dir_entry de m =
     (case de of (filename, is_regular_file) \<Rightarrow>
        if \<not> is_regular_file then m
        else case get_lsn_from_filename filename of
               (rc, lsn) \<Rightarrow> if OB_FAIL rc then m
                            else if map_of m (the lsn) \<noteq> None then m
                            else map_emplace (the lsn) filename m)"

text \<open>
  \<open>dir\<close> is what the directory iterator delivers, each name with \<^verbatim>\<open>is_regular_file\<close>; \<open>None\<close> when the directory
  is missing, and \<open>mkdir\<close> says whether creating it succeeds.
\<close>

definition manager_init ::
  "LogFileManager \<Rightarrow> bool \<Rightarrow> (string \<times> bool) list option \<Rightarrow> int \<Rightarrow> rc \<times> LogFileManager" where
  "manager_init m mkdir dir max_entry =
     (let m1 = m\<lparr>max_entry_number_per_file := max_entry\<rparr>
      in if dir = None \<and> \<not> mkdir then (FILE_CREATE, m1)
         else (SUCCESS, m1\<lparr>log_files := fold scan_dir_entry (case dir of None \<Rightarrow> [] | Some es \<Rightarrow> es) (log_files m1)\<rparr>))"

definition list_files :: "LogFileManager \<Rightarrow> int \<Rightarrow> rc \<times> string list" where
  "list_files m start_lsn =
     (SUCCESS, map snd (filter (\<lambda>file. start_lsn \<le> fst file + max_entry_number_per_file m - 1) (log_files m)))"

definition log_file_name :: "int \<Rightarrow> string" where
  "log_file_name lsn = clog_prefix @ int_to_string lsn @ clog_suffix"

definition next_file ::
  "(string \<Rightarrow> bool) \<Rightarrow> disk \<Rightarrow> LogFileManager \<Rightarrow> LogFileWriter \<Rightarrow> rc \<times> disk \<times> LogFileManager \<times> LogFileWriter" where
  "next_file openable d m w =
     (let w1 = snd (writer_close w);
          lsn = (if log_files m = [] then 0 else fst (last (log_files m)) + max_entry_number_per_file m);
          filename = log_file_name lsn;
          m1 = m\<lparr>log_files := map_emplace lsn filename (log_files m)\<rparr>
      in case writer_open openable d w1 filename (lsn + max_entry_number_per_file m - 1) of
           (rc, d', w') \<Rightarrow> (rc, d', m1, w'))"

definition last_file ::
  "(string \<Rightarrow> bool) \<Rightarrow> disk \<Rightarrow> LogFileManager \<Rightarrow> LogFileWriter \<Rightarrow> rc \<times> disk \<times> LogFileManager \<times> LogFileWriter" where
  "last_file openable d m w =
     (if log_files m = [] then next_file openable d m w
      else case writer_open openable d (snd (writer_close w)) (snd (last (log_files m)))
                  (fst (last (log_files m)) + max_entry_number_per_file m - 1) of
             (rc, d', w') \<Rightarrow> (rc, d', m, w'))"

section \<open>Reading back entries\<close>

definition log_bytes :: "LogEntry list \<Rightarrow> byte list" where
  "log_bytes es = concat (map entry_bytes es)"

lemma log_bytes_simps [simp]: "log_bytes [] = []" "log_bytes (e # es) = entry_bytes e @ log_bytes es"
  "log_bytes (es @ es') = log_bytes es @ log_bytes es'"
  by (simp_all add: log_bytes_def)

fun feed :: "'s log_callback \<Rightarrow> LogEntry list \<Rightarrow> 's \<Rightarrow> rc \<times> 's" where
  \<comment> \<open>the callback on each entry in turn, up to the first that fails\<close>
  "feed callback [] s = (SUCCESS, s)"
| "feed callback (e # es) s =
     (case callback e s of (rc, s') \<Rightarrow> if OB_FAIL rc then (rc, s') else feed callback es s')"

lemma slice_at:
  assumes "drop pos xs = ys @ zs"
  shows "slice xs pos (length ys) = ys" and "drop (pos + length ys) xs = zs" and "ys \<noteq> [] \<Longrightarrow> pos + length ys \<le> length xs"
proof -
  show "slice xs pos (length ys) = ys" by (simp add: slice_def assms)
  show "drop (pos + length ys) xs = zs" using assms by (metis append_eq_conv_conj drop_drop add.commute)
  have "length (drop pos xs) = length ys + length zs" by (simp add: assms)
  then show "ys \<noteq> [] \<Longrightarrow> pos + length ys \<le> length xs" by (cases ys) auto
qed

lemma readn_at:
  assumes "readable f" and "drop pos (content f) = ys @ zs" and "n = length ys"
  shows "readn f pos n = Rd_ok ys (pos + n)"
  using readn_readable [OF assms(1), of pos n] slice_at [OF assms(2)] assms(3) by (cases "ys = []") auto

lemma readn_short:
  assumes "readable f" and "length (drop pos (content f)) < n"
  shows "\<exists>p. readn f pos n = Rd_eof p"
  using readn_readable [OF assms(1), of pos n] assms(2) by auto

lemma iterate_loop_short:
  assumes "readable f" and "length (drop pos (content f)) < 16"
  shows "iterate_loop f cb pos s = (SUCCESS, s)"
  using readn_short [OF assms] by (auto simp: iterate_loop.simps [of f cb pos] LOG_HEADER_SIZE_def)

lemma iterate_loop_entry:
  assumes "readable f" and "drop pos (content f) = entry_bytes e @ rest" and "entry_ok e"
  shows "iterate_loop f cb pos s =
    (case cb e s of (rc, s') \<Rightarrow> if OB_FAIL rc then (rc, s') else iterate_loop f cb (pos + length (entry_bytes e)) s')"
proof -
  have 1: "drop pos (content f) = header_bytes (le_header e) @ (le_data e @ rest)"
    using assms(2) by (simp add: entry_bytes_def)
  have r1: "readn f pos LOG_HEADER_SIZE = Rd_ok (header_bytes (le_header e)) (pos + 16)"
    using readn_at [OF assms(1) 1, of LOG_HEADER_SIZE] by (simp add: LOG_HEADER_SIZE_def)
  have 2: "drop (pos + 16) (content f) = le_data e @ rest" using slice_at(2) [OF 1] by simp
  note h = entry_ok_header [OF assms(3)]
  have r2: "readn f (pos + 16) (nat (h_size (le_header e))) = Rd_ok (le_data e) (pos + 16 + length (le_data e))"
    using readn_at [OF assms(1) 2, of "length (le_data e)"] h(4) by simp
  have len: "pos + length (entry_bytes e) = pos + 16 + length (le_data e)" by (simp add: length_entry_bytes)
  show ?thesis
    using h(1-3) entry_ok_rebuild [OF assms(3)]
    by (subst iterate_loop.simps) (simp add: r1 r2 len split: prod.split)
qed

lemma iterate_loop_entries:
  assumes "readable f" and "drop pos (content f) = log_bytes es @ rest" and "\<forall>e \<in> set es. entry_ok e"
  shows "iterate_loop f cb pos s =
    (case feed cb es s of
       (rc, s') \<Rightarrow> if OB_FAIL rc then (rc, s') else iterate_loop f cb (pos + length (log_bytes es)) s')"
  using assms(2,3)
proof (induction es arbitrary: pos s)
  case (Cons e es)
  have d: "drop pos (content f) = entry_bytes e @ (log_bytes es @ rest)" using Cons.prems(1) by simp
  have "drop (pos + length (entry_bytes e)) (content f) = log_bytes es @ rest" by (rule slice_at(2) [OF d])
  note IH = Cons.IH [OF this]
  show ?case
    using iterate_loop_entry [OF assms(1) d, of cb s] Cons.prems(2) IH
    by (auto split: prod.split simp: add.assoc)
qed simp

lemma skip_to_loop_entry:
  assumes "readable f" and "drop pos (content f) = entry_bytes e @ rest" and "entry_ok e"
  shows "skip_to_loop f start pos =
    (if start \<le> le_lsn e then (SUCCESS, pos) else skip_to_loop f start (pos + length (entry_bytes e)))"
proof -
  have 1: "drop pos (content f) = header_bytes (le_header e) @ (le_data e @ rest)"
    using assms(2) by (simp add: entry_bytes_def)
  have r1: "readn f pos LOG_HEADER_SIZE = Rd_ok (header_bytes (le_header e)) (pos + 16)"
    using readn_at [OF assms(1) 1, of LOG_HEADER_SIZE] by (simp add: LOG_HEADER_SIZE_def)
  have len: "pos + length (entry_bytes e) = pos + 16 + length (le_data e)" by (simp add: length_entry_bytes)
  have bk: "pos + 16 - LOG_HEADER_SIZE = pos" by (simp add: LOG_HEADER_SIZE_def)
  show ?thesis
    using entry_ok_header [OF assms(3)]
    by (subst skip_to_loop.simps) (simp add: r1 len bk le_lsn_def)
qed

lemma skip_to_loop_entries:
  assumes "readable f" and "drop pos (content f) = log_bytes es @ rest" and "\<forall>e \<in> set es. entry_ok e"
  shows "skip_to_loop f start pos =
    (let p = pos + length (log_bytes (takeWhile (\<lambda>e. le_lsn e < start) es))
     in if dropWhile (\<lambda>e. le_lsn e < start) es = [] then skip_to_loop f start p else (SUCCESS, p))"
  using assms(2,3)
proof (induction es arbitrary: pos)
  case (Cons e es)
  have d: "drop pos (content f) = entry_bytes e @ (log_bytes es @ rest)" using Cons.prems(1) by simp
  have "drop (pos + length (entry_bytes e)) (content f) = log_bytes es @ rest" by (rule slice_at(2) [OF d])
  note IH = Cons.IH [OF this]
  show ?case
    using skip_to_loop_entry [OF assms(1) d, of start] Cons.prems(2) IH by (auto simp: Let_def add.assoc)
qed simp

lemma skip_to_loop_short:
  assumes "readable f" and "length (drop pos (content f)) < 16"
  shows "\<exists>p. skip_to_loop f start pos = (SUCCESS, p) \<and> length (content f) \<le> p"
proof -
  have "readn f pos LOG_HEADER_SIZE = Rd_eof (max pos (length (content f)))"
    using readn_readable [OF assms(1), of pos LOG_HEADER_SIZE] assms(2) by (auto simp: LOG_HEADER_SIZE_def)
  then show ?thesis by (simp add: skip_to_loop.simps [of f start pos])
qed

lemma drop_log_bytes:
  assumes "content f = log_bytes es @ rest"
  shows "drop (length (log_bytes (takeWhile P es))) (content f) = log_bytes (dropWhile P es) @ rest"
proof -
  have "content f = log_bytes (takeWhile P es) @ log_bytes (dropWhile P es) @ rest"
    using assms by (metis append.assoc log_bytes_simps(3) takeWhile_dropWhile_id)
  then show ?thesis by simp
qed

lemma reader_iterate_entries:
  assumes "readable f" and c: "content f = log_bytes es @ torn" and "length torn < 16" and ok: "\<forall>e \<in> set es. entry_ok e"
  shows "reader_iterate (Some f) cb start s = feed cb (dropWhile (\<lambda>e. le_lsn e < start) es) s"
proof -
  let ?P = "\<lambda>e. le_lsn e < start"
  let ?p = "length (log_bytes (takeWhile ?P es))"
  have sk: "skip_to (Some f) start = (if dropWhile ?P es = [] then skip_to_loop f start ?p else (SUCCESS, ?p))"
    using skip_to_loop_entries [OF assms(1), of 0 es torn start] c ok by (simp add: skip_to_def Let_def)
  note dr = drop_log_bytes [OF c, of ?P]
  show ?thesis
  proof (cases "dropWhile ?P es = []")
    case True
    then have sh: "length (drop ?p (content f)) < 16" using dr assms(3) by (simp del: dropWhile_eq_Nil_conv)
    obtain p where p: "skip_to_loop f start ?p = (SUCCESS, p)" "length (content f) \<le> p"
      using skip_to_loop_short [OF assms(1) sh] by blast
    have "iterate_loop f cb p s = (SUCCESS, s)" using p(2) by (intro iterate_loop_short assms(1)) simp
    then show ?thesis using sk True p by (simp add: reader_iterate_def del: dropWhile_eq_Nil_conv)
  next
    case False
    have ok': "\<forall>e \<in> set (dropWhile ?P es). entry_ok e" using ok by (meson set_dropWhileD)
    have sl: "drop (?p + length (log_bytes (dropWhile ?P es))) (content f) = torn" by (rule slice_at(2) [OF dr])
    have "iterate_loop f cb (?p + length (log_bytes (dropWhile ?P es))) s' = (SUCCESS, s')" for s'
      using sl assms(3) by (intro iterate_loop_short assms(1)) simp
    then show ?thesis
      using iterate_loop_entries [OF assms(1) dr ok', of cb s] sk False
      by (auto simp: reader_iterate_def split: prod.split)
  qed
qed

lemma reader_iterate_torn_payload:
  assumes "readable f" and c: "content f = log_bytes es @ take k (entry_bytes e)"
    and k: "16 \<le> k" "k < length (entry_bytes e)"
    and ok: "\<forall>e \<in> set es. entry_ok e" "entry_ok e" and start: "start \<le> le_lsn e"
  shows "reader_iterate (Some f) cb start s =
    (case feed cb (dropWhile (\<lambda>e. le_lsn e < start) es) s of
       (rc, s') \<Rightarrow> if OB_FAIL rc then (rc, s') else (IOERR_READ, s'))"
proof -
  let ?P = "\<lambda>e. le_lsn e < start"
  let ?p = "length (log_bytes (takeWhile ?P es))"
  let ?q = "?p + length (log_bytes (dropWhile ?P es))"
  let ?torn = "take (k - 16) (le_data e)"
  have t: "take k (entry_bytes e) = header_bytes (le_header e) @ ?torn" using k(1) by (simp add: entry_bytes_def)
  note h = entry_ok_header [OF ok(2)]
  have r1: "readn f q LOG_HEADER_SIZE = Rd_ok (header_bytes (le_header e)) (q + 16)"
    if "drop q (content f) = take k (entry_bytes e)" for q
    using readn_at [OF assms(1), of q "header_bytes (le_header e)" ?torn LOG_HEADER_SIZE] that t
    by (simp add: LOG_HEADER_SIZE_def)
  have bk: "q + 16 - LOG_HEADER_SIZE = q" for q by (simp add: LOG_HEADER_SIZE_def)
  have it: "iterate_loop f cb q s' = (IOERR_READ, s')" if d: "drop q (content f) = take k (entry_bytes e)" for q s'
  proof -
    have "drop (q + 16) (content f) = ?torn"
      using slice_at(2) [of q "content f" "header_bytes (le_header e)" ?torn] d t by simp
    then have "length (drop (q + 16) (content f)) < nat (h_size (le_header e))"
      using k h(4) by (simp add: length_entry_bytes)
    then obtain p where "readn f (q + 16) (nat (h_size (le_header e))) = Rd_eof p"
      using readn_short [OF assms(1)] by blast
    then show ?thesis using h(1-3) by (subst iterate_loop.simps) (simp add: r1 [OF d])
  qed
  note dr = drop_log_bytes [OF c, of ?P]
  have q: "drop ?q (content f) = take k (entry_bytes e)" by (rule slice_at(2) [OF dr])
  have sk: "skip_to (Some f) start = (SUCCESS, ?p)"
  proof (cases "dropWhile ?P es = []")
    case True
    then have d: "drop ?p (content f) = take k (entry_bytes e)" using dr by (simp del: dropWhile_eq_Nil_conv)
    have "skip_to_loop f start ?p = (SUCCESS, ?p)"
      using start h(1) by (subst skip_to_loop.simps) (simp add: r1 [OF d] le_lsn_def [symmetric] bk)
    then show ?thesis
      using True skip_to_loop_entries [OF assms(1), of 0 es _ start] c ok
      by (simp add: skip_to_def Let_def del: dropWhile_eq_Nil_conv)
  next
    case False
    then show ?thesis
      using skip_to_loop_entries [OF assms(1), of 0 es _ start] c ok
      by (simp add: skip_to_def Let_def del: dropWhile_eq_Nil_conv)
  qed
  have ok': "\<forall>e \<in> set (dropWhile ?P es). entry_ok e" using ok by (meson set_dropWhileD)
  show ?thesis
    using iterate_loop_entries [OF assms(1) dr ok', of cb s] sk it [OF q]
    by (simp add: reader_iterate_def split: prod.split)
qed

section \<open>Writing an entry\<close>

lemma append_file_append: "append_file (append_file d p xs) p ys = append_file d p (xs @ ys)"
  by (cases "d p") (auto simp: append_file_def)

lemma writer_write_success:
  assumes "writer_write d w e os = Some (SUCCESS, d', w', os')" and "payload_size e = int (length (le_data e))"
  shows "\<exists>p. w_file w = Some p \<and> d' = append_file d p (entry_bytes e) \<and>
    w' = w\<lparr>last_lsn := int32_of (le_lsn e)\<rparr> \<and> le_lsn e \<le> end_lsn w \<and> last_lsn w < le_lsn e"
proof -
  obtain p where p: "w_file w = Some p" "le_lsn e \<le> end_lsn w" "last_lsn w < le_lsn e"
    using assms(1) by (auto simp: writer_write_def split: if_splits option.splits)
  obtain out os1 where h: "io_writen (header_bytes (le_header e)) os = Some (True, out, os1)"
    using assms(1) p by (auto simp: writer_write_def Let_def split: if_splits option.splits)
  obtain out' os2 where b: "io_writen (le_data e) os1 = Some (True, out', os2)"
    using assms p h by (auto simp: writer_write_def Let_def split: if_splits option.splits)
  have "out = header_bytes (le_header e)" "out' = le_data e"
    using io_writen_prefix [OF h] io_writen_prefix [OF b] by auto
  then show ?thesis
    using assms p h b by (auto simp: writer_write_def Let_def append_file_append entry_bytes_def)
qed

lemma writer_write_returns:
  assumes "willing os" and "length (entry_bytes e) \<le> length os" and "w_file w = Some p"
    and "last_lsn w < le_lsn e" and "le_lsn e \<le> end_lsn w" and "payload_size e = int (length (le_data e))"
  shows "\<exists>d' w' os'. writer_write d w e os = Some (SUCCESS, d', w', os') \<and> willing os' \<and>
    length os \<le> length os' + length (entry_bytes e)"
proof -
  obtain os1 where 1: "io_writen (header_bytes (le_header e)) os = Some (True, header_bytes (le_header e), os1)"
    "willing os1" "length os \<le> length os1 + 16"
    using io_writen_returns [OF assms(1), of "header_bytes (le_header e)"] assms(2) by (auto simp: length_entry_bytes)
  obtain os2 where 2: "io_writen (le_data e) os1 = Some (True, le_data e, os2)" "willing os2"
    "length os1 \<le> length os2 + length (le_data e)"
    using io_writen_returns [OF 1(2), of "le_data e"] 1(3) assms(2) by (auto simp: length_entry_bytes)
  show ?thesis using assms 1 2 by (auto simp: writer_write_def Let_def length_entry_bytes)
qed

section \<open>File names carry the first LSN\<close>

lemma digit_val_char [simp]: "n < 10 \<Longrightarrow> digit_val (digit_char n) = n" "n < 10 \<Longrightarrow> is_digit (digit_char n)"
  by (simp_all add: digit_val_def digit_char_def is_digit_def)

lemma nat_to_string_digits: "nat_to_string n \<noteq> [] \<and> (\<forall>c \<in> set (nat_to_string n). is_digit c) \<and> digits_value (nat_to_string n) = n"
proof (induction n rule: nat_to_string.induct)
  case (1 n)
  show ?case
  proof (cases "n < 10")
    case True
    then show ?thesis by (simp add: nat_to_string.simps [of n] digits_value_def)
  next
    case False
    then show ?thesis using 1 by (auto simp: nat_to_string.simps [of n] digits_value_def)
  qed
qed

lemma is_digit_minus [simp]: "\<not> is_digit CHR ''-''" "\<not> is_digit CHR ''.''"
  by (simp_all add: is_digit_def)

lemma takeWhile_digits: "takeWhile is_digit (nat_to_string n @ CHR ''.'' # xs) = nat_to_string n"
  using nat_to_string_digits [of n] by (simp add: takeWhile_append2)

lemma takeWhile_digits_all: "takeWhile is_digit (nat_to_string n) = nat_to_string n"
  using nat_to_string_digits [of n] by (simp add: takeWhile_eq_all_conv)

lemma from_chars_to_string:
  assumes "int_fits 64 v"
  shows "from_chars (int_to_string v) = Some v"
proof (cases "v < 0")
  case True
  then show ?thesis
    using assms nat_to_string_digits [of "nat (- v)"]
    by (simp add: from_chars_def int_to_string_def takeWhile_digits_all Let_def)
next
  case False
  have "hd (nat_to_string (nat v)) \<noteq> CHR ''-''"
    using nat_to_string_digits [of "nat v"] by (metis is_digit_minus(1) hd_in_set)
  then show ?thesis
    using False assms nat_to_string_digits [of "nat v"]
    by (simp add: from_chars_def int_to_string_def takeWhile_digits_all Let_def)
qed

lemma get_lsn_log_file_name:
  assumes "int_fits 64 v"
  shows "get_lsn_from_filename (log_file_name v) = (SUCCESS, Some v)"
  using from_chars_to_string [OF assms]
  by (simp add: get_lsn_from_filename_def log_file_name_def starts_with_def ends_with_def clog_prefix_def
      clog_suffix_def slice_def)

lemma log_file_name_inj:
  "int_fits 64 v \<Longrightarrow> int_fits 64 v' \<Longrightarrow> log_file_name v = log_file_name v' \<Longrightarrow> v = v'"
  by (metis get_lsn_log_file_name option.inject prod.inject)

section \<open>The ordered map of log files\<close>

definition keys_ascending :: "(int \<times> 'b) list \<Rightarrow> bool" where
  "keys_ascending m \<longleftrightarrow> sorted_wrt (<) (map fst m)"

lemma map_emplace_set:
  "keys_ascending m \<Longrightarrow> set (map_emplace k v m) = (if k \<in> fst ` set m then set m else insert (k, v) (set m))"
  by (induction m) (force simp: keys_ascending_def)+

lemma map_emplace_ascending: "keys_ascending m \<Longrightarrow> keys_ascending (map_emplace k v m)"
proof (induction m)
  case (Cons a m)
  have "set (map_emplace k v m) \<subseteq> insert (k, v) (set m)" 
    using map_emplace_set [of m k v] Cons.prems by (auto simp: keys_ascending_def)
  then show ?case using Cons by (cases a) (force simp: keys_ascending_def)
qed (simp add: keys_ascending_def)

lemma map_emplace_last:
  "(\<forall>x \<in> set m. fst x < k) \<Longrightarrow> map_emplace k v m = m @ [(k, v)]"
  by (induction m) auto

lemma keys_ascending_unique:
  assumes "keys_ascending m" and "keys_ascending m'" and "set m = set m'"
  shows "m = m'"
proof -
  have s: "sorted (map fst m)" "sorted (map fst m')" "distinct (map fst m)" "distinct (map fst m')"
    using assms(1,2) by (simp_all add: keys_ascending_def strict_sorted_iff)
  have "inj_on fst (set m \<union> set m')" using s(3) assms(3) by (simp add: distinct_map)
  then show ?thesis using s assms(3) map_sorted_distinct_set_unique [of fst m m'] by simp
qed

section \<open>Properties\<close>

text \<open>
  C19: the log file format. A file that holds encoded entries, followed by fewer than 16 bytes of an entry that was being
  written when the process died, is read back entry by entry from the first entry whose LSN is not below the start LSN: the
  callback gets exactly those entries, in order, until it fails.
\<close>

theorem log_file_roundtrip:
  assumes "\<forall>e \<in> set es. entry_ok e" and "length torn < 16"
  shows "reader_iterate (Some \<lparr>content = concat (map entry_bytes es) @ torn, bad_byte = None\<rparr>) cb start s =
    feed cb (dropWhile (\<lambda>e. le_lsn e < start) es) s"
  using assms by (intro reader_iterate_entries) (simp_all add: readable_def log_bytes_def)

theorem log_file_roundtrip_witness:
  "reader_iterate (Some \<lparr>content = concat (map entry_bytes [\<lparr>le_header = \<lparr>h_lsn = 4, h_size = 1, h_module_id = 2\<rparr>, le_data = [9]\<rparr>]) @ [1, 2],
       bad_byte = None\<rparr>) (\<lambda>e n. (SUCCESS, n + le_lsn e)) 3 0 =
    feed (\<lambda>e n. (SUCCESS, n + le_lsn e))
      (dropWhile (\<lambda>e. le_lsn e < 3) [\<lparr>le_header = \<lparr>h_lsn = 4, h_size = 1, h_module_id = 2\<rparr>, le_data = [9]\<rparr>]) 0"
  by (rule log_file_roundtrip)
     (simp_all add: entry_ok_def int_fits_def max_payload_size_def max_size_def LOG_HEADER_SIZE_def)

text \<open>
  C20: a crash between header and payload is reported. When the last entry's header is complete and its payload is not,
  the reader hands out every complete entry and then fails with \<^verbatim>\<open>IOERR_READ\<close>; a half-written entry never reaches the callback.
\<close>

theorem torn_payload_detected:
  assumes "\<forall>e \<in> set es. entry_ok e" and "entry_ok e" and "start \<le> le_lsn e" and "16 \<le> k" and "k < length (entry_bytes e)"
  shows "reader_iterate (Some \<lparr>content = concat (map entry_bytes es) @ take k (entry_bytes e), bad_byte = None\<rparr>) cb start s =
    (case feed cb (dropWhile (\<lambda>e. le_lsn e < start) es) s of
       (rc, s') \<Rightarrow> if OB_FAIL rc then (rc, s') else (IOERR_READ, s'))"
  using assms by (intro reader_iterate_torn_payload) (simp_all add: readable_def log_bytes_def)

theorem torn_payload_detected_witness:
  "reader_iterate (Some \<lparr>content = concat (map entry_bytes []) @
       take 17 (entry_bytes \<lparr>le_header = \<lparr>h_lsn = 4, h_size = 2, h_module_id = 2\<rparr>, le_data = [9, 9]\<rparr>), bad_byte = None\<rparr>)
     (\<lambda>e n. (SUCCESS, n + le_lsn e)) 3 0 =
    (case feed (\<lambda>e n. (SUCCESS, n + le_lsn e)) (dropWhile (\<lambda>e. le_lsn e < 3) []) 0 of
       (rc, s') \<Rightarrow> if OB_FAIL rc then (rc, s') else (IOERR_READ, s'))"
  by (rule torn_payload_detected)
     (simp_all add: entry_ok_def int_fits_def max_payload_size_def max_size_def LOG_HEADER_SIZE_def le_lsn_def length_entry_bytes)

text \<open>
  C26: a log file's name carries the LSN it starts with: the manager's scan of the directory reads back the number that
  \<^verbatim>\<open>next_file\<close> put into the name.
\<close>

theorem log_file_name_roundtrip:
  assumes "int_fits 64 v"
  shows "get_lsn_from_filename (log_file_name v) = (SUCCESS, Some v)"
  by (rule get_lsn_log_file_name [OF assms])

theorem log_file_name_roundtrip_witness: "get_lsn_from_filename (log_file_name 12000) = (SUCCESS, Some 12000)"
  by (rule log_file_name_roundtrip) (simp add: int_fits_def)

text \<open>
  The scan stops at the first character that is not a digit, so that a name the manager never makes is taken for the file
  of another one's range.
\<close>

lemma stray_name_accepted: "get_lsn_from_filename ''clog_5.bak.log'' = (SUCCESS, Some 5)"
  by code_simp

end
