(* ===== verification/Log_Buffer.thy ===== *)
theory Log_Buffer
  imports Log_File
begin

text \<open>
  \<^verbatim>\<open>LogEntryBuffer\<close> (\<^verbatim>\<open>src/src/observer/storage/clog/log_buffer.cpp\<close>): the queue between the threads that append
  log entries and the thread that writes them. \<^verbatim>\<open>append\<close> is \<open>None\<close> while it waits for room. \<^verbatim>\<open>flush\<close> takes an
  entry under the lock (\<open>lb_pop\<close>), writes it outside the lock, then records it (\<open>lb_written\<close>) or puts it back
  (\<open>lb_unpop\<close>); a failed \<^verbatim>\<open>ASSERT\<close> is \<open>None\<close>.
\<close>

record LogEntryBuffer =
  entries :: "LogEntry list"
  lb_bytes :: int
  current_lsn :: int
  flushed_lsn :: int
  max_bytes :: int

definition lb_new :: LogEntryBuffer where
  "lb_new = \<lparr>entries = [], lb_bytes = 0, current_lsn = 0, flushed_lsn = 0, max_bytes = 4 * 1024 * 1024\<rparr>"

definition lb_init :: "LogEntryBuffer \<Rightarrow> int \<Rightarrow> int \<Rightarrow> rc \<times> LogEntryBuffer" where
  "lb_init b lsn mx =
     (let b1 = b\<lparr>current_lsn := lsn, flushed_lsn := lsn\<rparr>
      in (SUCCESS, if 0 < mx then b1\<lparr>max_bytes := mx\<rparr> else b1))"

definition lb_append ::
  "LogEntryBuffer \<Rightarrow> int \<Rightarrow> int \<Rightarrow> byte list \<Rightarrow> (rc \<times> int \<times> LogEntryBuffer) option" where
  "lb_append b lsn module_id data =
     (if max_bytes b \<le> lb_bytes b then None
      else case log_entry_init log_entry_new lsn module_id data of
        (rc, entry) \<Rightarrow>
          if OB_FAIL rc then Some (rc, lsn, b)
          else let lsn' = current_lsn b + 1; entry' = set_lsn entry lsn'
               in Some (SUCCESS, lsn',
                    b\<lparr>current_lsn := lsn', entries := entries b @ [entry'],
                      lb_bytes := lb_bytes b + total_size (moved_from entry')\<rparr>))"

definition lb_pop :: "LogEntryBuffer \<Rightarrow> (LogEntry \<times> LogEntryBuffer) option" where
  "lb_pop b =
     (case entries b of
        [] \<Rightarrow> None
      | e # es \<Rightarrow>
          if 0 < le_lsn e \<and> 0 < payload_size e
          then Some (e, b\<lparr>entries := es, lb_bytes := lb_bytes b - total_size e\<rparr>) else None)"

definition lb_unpop :: "LogEntryBuffer \<Rightarrow> LogEntry \<Rightarrow> LogEntryBuffer" where
  "lb_unpop b e = b\<lparr>entries := e # entries b\<rparr>"

definition lb_written :: "LogEntryBuffer \<Rightarrow> LogEntry \<Rightarrow> LogEntryBuffer" where
  "lb_written b e = b\<lparr>flushed_lsn := le_lsn e\<rparr>"

definition entry_number :: "LogEntryBuffer \<Rightarrow> nat" where
  "entry_number b = length (entries b)"

function lb_flush_loop ::
  "LogEntryBuffer \<Rightarrow> disk \<Rightarrow> LogFileWriter \<Rightarrow> nat \<Rightarrow> sys_result list \<Rightarrow>
   (rc \<times> nat \<times> LogEntryBuffer \<times> disk \<times> LogFileWriter \<times> sys_result list) option" where
  "lb_flush_loop b d w count os =
     (if 0 < entry_number b
      then case lb_pop b of
        None \<Rightarrow> None
      | Some (e, b1) \<Rightarrow>
          (case writer_write d w e os of
             None \<Rightarrow> None
           | Some (rc, d', w', os') \<Rightarrow>
               if OB_FAIL rc then Some (rc, count, lb_unpop b1 e, d', w', os')
               else lb_flush_loop (lb_written b1 e) d' w' (Suc count) os')
      else Some (SUCCESS, count, b, d, w, os))"
  by pat_completeness auto
termination
  by (relation "measure (\<lambda>(b, d, w, c, os). entry_number b)")
     (auto simp: lb_pop_def lb_written_def entry_number_def split: list.splits if_splits)

declare lb_flush_loop.simps [simp del]

definition lb_flush ::
  "LogEntryBuffer \<Rightarrow> disk \<Rightarrow> LogFileWriter \<Rightarrow> sys_result list \<Rightarrow>
   (rc \<times> nat \<times> LogEntryBuffer \<times> disk \<times> LogFileWriter \<times> sys_result list) option" where
  "lb_flush b d w os = lb_flush_loop b d w 0 os"

section \<open>What append and flush do\<close>

lemma lb_append_success:
  assumes "lb_append b lsn m data = Some (SUCCESS, lsn', b')" and "int (length data) < 2147483648"
  shows "lsn' = current_lsn b + 1 \<and> current_lsn b' = lsn' \<and> flushed_lsn b' = flushed_lsn b \<and>
    max_bytes b' = max_bytes b \<and> lb_bytes b' = lb_bytes b + 16 \<and>
    entries b' = entries b @ [\<lparr>le_header = \<lparr>h_lsn = lsn', h_size = int (length data), h_module_id = m\<rparr>, le_data = data\<rparr>] \<and>
    int (length data) \<le> max_payload_size"
proof -
  have "int32_of (int (length data)) = int (length data)"
    using assms(2) by (intro int32_of_fits) (simp add: int_fits_def)
  then show ?thesis using assms(1)
    by (auto simp: lb_append_def log_entry_init_def set_lsn_def total_size_def moved_from_def LOG_HEADER_SIZE_def Let_def
        split: if_splits)
qed

lemma lb_append_too_long:
  assumes "lb_bytes b < max_bytes b" and "max_payload_size < int (length data)" and "int (length data) < 2147483648"
  shows "lb_append b lsn m data = Some (INVALID_ARGUMENT, lsn, b)"
proof -
  have "int32_of (int (length data)) = int (length data)"
    using assms(3) by (intro int32_of_fits) (simp add: int_fits_def)
  then show ?thesis using assms by (simp add: lb_append_def log_entry_init_def)
qed

definition buffer_ok :: "LogEntryBuffer \<Rightarrow> bool" where
  "buffer_ok b \<longleftrightarrow> (\<forall>e \<in> set (entries b). entry_ok e \<and> 0 < le_lsn e \<and> 0 < payload_size e)"

text \<open>
  A flush writes a prefix of the queue, entry by entry, to the end of the writer's file and keeps the
  rest in order; on success nothing is left.
\<close>

lemma lb_flush_loop_prefix:
  assumes "lb_flush_loop b d w count os = Some (rc, count', b', d', w', os')" and "buffer_ok b" and "w_file w = Some p"
    and "rc \<noteq> IOERR_WRITE"
  shows "\<exists>es. entries b = es @ entries b' \<and> d' = append_file d p (log_bytes es) \<and> count' = count + length es \<and>
    (rc = SUCCESS \<longrightarrow> entries b' = []) \<and> w_file w' = Some p \<and> end_lsn w' = end_lsn w \<and>
    (flushed_lsn b' = (if es = [] then flushed_lsn b else le_lsn (last es))) \<and>
    (\<forall>e \<in> set es. le_lsn e \<le> end_lsn w) \<and> current_lsn b' = current_lsn b"
  using assms(1-3)
proof (induction b d w count os rule: lb_flush_loop.induct)
  case (1 b d w count os)
  show ?case
  proof (cases "entries b")
    case Nil
    then show ?thesis using "1.prems"
      by (cases "d p") (auto simp: lb_flush_loop.simps [of b] entry_number_def append_file_def fun_upd_idem)
  next
    case (Cons e es)
    then have e: "entry_ok e" "0 < le_lsn e" "0 < payload_size e" "payload_size e = int (length (le_data e))"
      using "1.prems"(2) by (auto simp: buffer_ok_def entry_ok_def payload_size_def)
    let ?b1 = "b\<lparr>entries := es, lb_bytes := lb_bytes b - total_size e\<rparr>"
    have pop: "lb_pop b = Some (e, ?b1)" using Cons e by (simp add: lb_pop_def)
    have n: "0 < entry_number b" using Cons by (simp add: entry_number_def)
    obtain r d1 w1 os1 where w: "writer_write d w e os = Some (r, d1, w1, os1)"
      using "1.prems"(1) n pop by (auto simp: lb_flush_loop.simps [of b] split: option.splits)
    show ?thesis
    proof (cases "r = SUCCESS")
      case True
      note s = writer_write_success [OF w [unfolded True] e(4)]
      have rest: "lb_flush_loop (lb_written ?b1 e) d1 w1 (Suc count) os1 = Some (rc, count', b', d', w', os')"
        using "1.prems"(1) n pop w True by (simp add: lb_flush_loop.simps [of b])
      have "buffer_ok (lb_written ?b1 e)" "w_file w1 = Some p" "end_lsn w1 = end_lsn w" "d1 = append_file d p (entry_bytes e)"
        using "1.prems"(2,3) s Cons by (auto simp: buffer_ok_def lb_written_def)
      then obtain fs where fs: "es = fs @ entries b'" "d' = append_file d1 p (log_bytes fs)" "count' = Suc count + length fs"
        "rc = SUCCESS \<longrightarrow> entries b' = []" "w_file w' = Some p" "end_lsn w' = end_lsn w"
        "flushed_lsn b' = (if fs = [] then le_lsn e else le_lsn (last fs))" "\<forall>e \<in> set fs. le_lsn e \<le> end_lsn w"
        "current_lsn b' = current_lsn b"
        using "1.IH" [OF n pop refl w refl refl refl _ rest] True by (auto simp: lb_written_def)
      show ?thesis
        using fs Cons s "1.prems"(3) \<open>d1 = _\<close>
        by (intro exI [of _ "e # fs"]) (auto simp: append_file_append)
    next
      case False
      have "d1 = d \<and> w1 = w" 
        using w False assms(4) "1.prems"(1) n pop
        by (auto simp: writer_write_def Let_def lb_flush_loop.simps [of b] split: if_splits option.splits)
      then show ?thesis
        using "1.prems" n pop w False Cons
        by (cases "d p") (auto simp: lb_flush_loop.simps [of b] lb_unpop_def append_file_def fun_upd_idem)
    qed
  qed
qed

section \<open>The byte count\<close>

text \<open>
  \<^verbatim>\<open>append\<close> reads \<^verbatim>\<open>entry.total_size()\<close> after the entry was moved into the queue, when its size is 0:
  every append adds 16, while every flush takes off header and payload.
\<close>

lemma lb_flush_loop_bytes:
  assumes "lb_flush_loop b d w count os = Some (SUCCESS, count', b', d', w', os')"
  shows "lb_bytes b' = lb_bytes b - sum_list (map total_size (entries b))"
  using assms
proof (induction b d w count os rule: lb_flush_loop.induct)
  case (1 b d w count os)
  show ?case
  proof (cases "entries b")
    case Nil
    then show ?thesis using "1.prems" by (simp add: lb_flush_loop.simps [of b] entry_number_def)
  next
    case (Cons e es)
    have n: "0 < entry_number b" using Cons by (simp add: entry_number_def)
    obtain e' b1 where pop: "lb_pop b = Some (e', b1)"
      using "1.prems" n by (auto simp: lb_flush_loop.simps [of b] split: option.splits)
    then have b1: "e' = e" "b1 = b\<lparr>entries := es, lb_bytes := lb_bytes b - total_size e\<rparr>"
      using Cons by (auto simp: lb_pop_def split: if_splits)
    obtain r d1 w1 os1 where w: "writer_write d w e' os = Some (r, d1, w1, os1)"
      using "1.prems" n pop by (auto simp: lb_flush_loop.simps [of b] split: option.splits)
    then have r: "r = SUCCESS" "lb_flush_loop (lb_written b1 e') d1 w1 (Suc count) os1 = Some (SUCCESS, count', b', d', w', os')"
      using "1.prems" n pop by (auto simp: lb_flush_loop.simps [of b] lb_unpop_def split: if_splits)
    show ?thesis using "1.IH" [OF n pop refl w refl refl refl _ r(2)] r(1) b1 Cons by (simp add: lb_written_def)
  qed
qed

lemma append_flush_bytes:
  assumes "lb_append b lsn m data = Some (SUCCESS, lsn', b1)" and "int (length data) < 2147483648" and "entries b = []"
    and "lb_flush b1 d w os = Some (SUCCESS, n, b2, d', w', os')"
  shows "lb_bytes b2 = lb_bytes b - int (length data)"
  using lb_append_success [OF assms(1,2)] lb_flush_loop_bytes [OF assms(4) [unfolded lb_flush_def]] assms(3)
  by (simp add: total_size_def LOG_HEADER_SIZE_def)

end
