(* ===== verification/Log_Reading.thy ===== *)
theory Log_Reading
  imports Log_File
begin

text \<open>
  What \<^verbatim>\<open>LogFileReader\<close> makes of a file whose end is not a whole entry (\<^verbatim>\<open>src/src/observer/storage/clog/log_file.cpp\<close>).
  Whatever bytes a file holds, reading it hands the callback a list of entries the bytes alone decide, and ends with a
  code they decide too (\<open>feed_end\<close>); whole entries at the front come first. The second part says which bytes a
  failed \<^verbatim>\<open>LogFileWriter::write\<close> leaves behind.
\<close>

section \<open>Feeding a list of entries and ending with a code\<close>

definition feed_end :: "'s log_callback \<Rightarrow> LogEntry list \<Rightarrow> rc \<Rightarrow> 's \<Rightarrow> rc \<times> 's" where
  \<comment> \<open>the callback on each entry in turn; when none fails, the code \<open>rcL\<close>\<close>
  "feed_end callback L rcL s = (case feed callback L s of (rc, s') \<Rightarrow> if OB_FAIL rc then (rc, s') else (rcL, s'))"

lemma feed_append:
  "feed cb (xs @ ys) s = (case feed cb xs s of (rc, s') \<Rightarrow> if OB_FAIL rc then (rc, s') else feed cb ys s')"
  by (induction xs arbitrary: s) (auto split: prod.split)

lemma feed_end_simps [simp]:
  "feed_end cb [] rcL s = (rcL, s)"
  "feed_end cb (e # L) rcL s = (case cb e s of (rc, s') \<Rightarrow> if OB_FAIL rc then (rc, s') else feed_end cb L rcL s')"
  by (auto simp: feed_end_def split: prod.split)

lemma feed_end_success: "feed_end cb L SUCCESS s = feed cb L s"
  by (auto simp: feed_end_def split: prod.split)

lemma feed_end_append:
  "feed_end cb (xs @ ys) rcL s = (case feed cb xs s of (rc, s') \<Rightarrow> if OB_FAIL rc then (rc, s') else feed_end cb ys rcL s')"
  by (auto simp: feed_end_def feed_append split: prod.split)

lemma feed_end_bind:
  "(case feed_end cb xs rc s of (r, s') \<Rightarrow> if OB_FAIL r then (r, s') else feed_end cb ys rc' s') =
    (if OB_FAIL rc then feed_end cb xs rc s else feed_end cb (xs @ ys) rc' s)"
proof (cases "feed cb xs s")
  case (Pair r s')
  then show ?thesis by (cases "rc = SUCCESS"; cases "r = SUCCESS") (simp_all add: feed_end_append, simp_all add: feed_end_def)
qed

section \<open>Any file\<close>

lemma iterate_loop_any:
  fixes f :: disk_file
  shows "\<exists>L rcL. \<forall>cb (s :: 's). iterate_loop f cb pos s = feed_end cb L rcL s"
proof (induction "length (content f) - pos" arbitrary: pos rule: less_induct)
  case less
  show ?case
  proof (cases "readn f pos LOG_HEADER_SIZE")
    case (Rd_ok bs p)
    let ?hd = "header_of bs"
    show ?thesis
    proof (cases "h_size ?hd < 0 \<or> max_payload_size < h_size ?hd")
      case True
      then show ?thesis by (intro exI [of _ "[]"] exI [of _ IOERR_READ]) (simp add: iterate_loop.simps [of f _ pos] Rd_ok)
    next
      case ok: False
      show ?thesis
      proof (cases "readn f p (nat (h_size ?hd))")
        case data: (Rd_ok data p')
        let ?e = "snd (log_entry_init log_entry_new (h_lsn ?hd) (h_module_id ?hd) data)"
        have "pos < p'" "pos < length (content f)"
          using readn_Rd_ok_bound [OF Rd_ok] readn_Rd_ok_bound [OF data] by (simp_all add: LOG_HEADER_SIZE_def)
        then have "length (content f) - p' < length (content f) - pos" by (rule diff_less_mono2)
        then obtain L rcL where rest: "\<forall>cb (s :: 's). iterate_loop f cb p' s = feed_end cb L rcL s"
          using less by blast
        show ?thesis
          using ok rest by (intro exI [of _ "?e # L"] exI [of _ rcL])
            (auto simp: iterate_loop.simps [of f _ pos] Rd_ok data Let_def split: prod.split)
      qed (use ok in \<open>auto intro!: exI [of _ "[]"] exI [of _ IOERR_READ] simp: iterate_loop.simps [of f _ pos] Rd_ok Let_def\<close>)
    qed
  qed (auto intro!: exI [of _ "[]"] simp: iterate_loop.simps [of f _ pos])
qed

lemma reader_iterate_any:
  "\<exists>L rcL. \<forall>cb (s :: 's). reader_iterate (Some f) cb start s = feed_end cb L rcL s"
proof -
  obtain rc pos where sk: "skip_to (Some f) start = (rc, pos)" by fastforce
  obtain L rcL where L: "\<forall>cb (s :: 's). iterate_loop f cb pos s = feed_end cb L rcL s"
    using iterate_loop_any [where f = f and pos = pos and 's = 's] by blast
  have "\<forall>cb (s :: 's). reader_iterate (Some f) cb start s =
      feed_end cb (if OB_FAIL rc then [] else L) (if OB_FAIL rc then rc else rcL) s"
    using sk L by (simp add: reader_iterate_def)
  then show ?thesis by blast
qed

text \<open>Whole entries at the front of a file come first, whatever follows them.\<close>

lemma reader_iterate_front:
  assumes "readable f" and c: "content f = log_bytes es @ junk" and ok: "\<forall>e \<in> set es. entry_ok e"
  shows "\<exists>L rcL. (\<forall>cb (s :: 's). reader_iterate (Some f) cb start s = feed_end cb (dropWhile (\<lambda>e. le_lsn e < start) es @ L) rcL s)"
proof -
  let ?P = "\<lambda>e. le_lsn e < start"
  let ?p = "length (log_bytes (takeWhile ?P es))"
  show ?thesis
  proof (cases "dropWhile ?P es = []")
    case True
    then show ?thesis using reader_iterate_any [where f = f and start = start and 's = 's] by (simp del: dropWhile_eq_Nil_conv)
  next
    case False
    have sk: "skip_to (Some f) start = (SUCCESS, ?p)"
      using skip_to_loop_entries [OF assms(1), of 0 es junk start] c ok False
      by (simp add: skip_to_def Let_def del: dropWhile_eq_Nil_conv)
    have ok': "\<forall>e \<in> set (dropWhile ?P es). entry_ok e" using ok by (meson set_dropWhileD)
    obtain L rcL where L: "\<forall>cb (s :: 's). iterate_loop f cb (?p + length (log_bytes (dropWhile ?P es))) s = feed_end cb L rcL s"
      using iterate_loop_any [where f = f and 's = 's] by blast
    have "iterate_loop f cb ?p s = feed_end cb (dropWhile ?P es @ L) rcL s" for cb and s :: 's
      using iterate_loop_entries [OF assms(1) drop_log_bytes [OF c, of ?P] ok', of cb s] L
      by (simp add: feed_end_append split: prod.split)
    then have "\<forall>cb (s :: 's). reader_iterate (Some f) cb start s = feed_end cb (dropWhile ?P es @ L) rcL s"
      using sk by (simp add: reader_iterate_def)
    then show ?thesis by blast
  qed
qed

text \<open>
  A file that ends in a piece of one entry: the entries before it are handed over, and the end of the file is
  either taken for its end or reported.
\<close>

lemma reader_iterate_torn_skip:
  assumes "readable f" and c: "content f = log_bytes es @ take k (entry_bytes e)"
    and k: "16 \<le> k" "k < length (entry_bytes e)"
    and ok: "\<forall>e \<in> set es. entry_ok e" "entry_ok e" and start: "le_lsn e < start" "\<forall>e \<in> set es. le_lsn e < start"
  shows "reader_iterate (Some f) cb start s = (SUCCESS, s)"
proof -
  let ?q = "length (log_bytes es)" and ?torn = "take (k - 16) (le_data e)"
  have t: "take k (entry_bytes e) = header_bytes (le_header e) @ ?torn" using k(1) by (simp add: entry_bytes_def)
  note h = entry_ok_header [OF ok(2)]
  have d: "drop ?q (content f) = header_bytes (le_header e) @ ?torn" using c t by simp
  have r1: "readn f ?q LOG_HEADER_SIZE = Rd_ok (header_bytes (le_header e)) (?q + 16)"
    using readn_at [OF assms(1) d, of LOG_HEADER_SIZE] by (simp add: LOG_HEADER_SIZE_def)
  let ?r = "?q + 16 + nat (h_size (le_header e))"
  have "length (content f) = ?q + k" using c k(2) by simp
  then have far: "length (drop ?r (content f)) < 16" using k h(4) by (simp add: length_entry_bytes)
  have "skip_to_loop f start ?q = skip_to_loop f start ?r"
    using start(1) h(1-3) by (subst skip_to_loop.simps) (simp add: r1 le_lsn_def)
  then obtain p where p: "skip_to_loop f start ?q = (SUCCESS, p)" "length (content f) \<le> p"
    using skip_to_loop_short [OF assms(1) far] by metis
  have all: "takeWhile (\<lambda>e. le_lsn e < start) es = es" "dropWhile (\<lambda>e. le_lsn e < start) es = []"
    using start(2) by simp_all
  have "skip_to (Some f) start = (SUCCESS, p)"
    using skip_to_loop_entries [OF assms(1), of 0 es _ start] c ok p(1) all
    by (simp add: skip_to_def Let_def)
  moreover have "iterate_loop f cb p s = (SUCCESS, s)" using p(2) by (intro iterate_loop_short assms(1)) simp
  ultimately show ?thesis by (simp add: reader_iterate_def)
qed

lemma reader_iterate_piece:
  assumes "readable f" and c: "content f = log_bytes es @ take k (entry_bytes e)" and k: "k < length (entry_bytes e)"
    and ok: "\<forall>e \<in> set es. entry_ok e" "entry_ok e" and below: "\<forall>e' \<in> set es. le_lsn e' < le_lsn e"
  shows "\<exists>rcL \<in> {SUCCESS, IOERR_READ}. (\<forall>cb (s :: 's). reader_iterate (Some f) cb start s =
    feed_end cb (dropWhile (\<lambda>e. le_lsn e < start) es) rcL s)"
proof -
  consider "k < 16" | "16 \<le> k" "start \<le> le_lsn e" | "16 \<le> k" "le_lsn e < start" by linarith
  then show ?thesis
  proof cases
    case 1
    then have "length (take k (entry_bytes e)) < 16" by simp
    note r = reader_iterate_entries [OF assms(1) c this ok(1)]
    show ?thesis by (intro bexI [of _ SUCCESS]) (simp_all add: feed_end_success r)
  next
    case 2
    then show ?thesis
      using reader_iterate_torn_payload [OF assms(1) c 2(1) k ok 2(2)]
      by (intro bexI [of _ IOERR_READ]) (auto simp: feed_end_def)
  next
    case 3
    then have low: "\<forall>e' \<in> set es. le_lsn e' < start" using below by fastforce
    then have "dropWhile (\<lambda>e. le_lsn e < start) es = []" by simp
    note r = this reader_iterate_torn_skip [OF assms(1) c 3(1) k ok 3(2) low]
    show ?thesis by (intro bexI [of _ SUCCESS]) (simp_all only: r feed_end_simps insert_iff simp_thms)
  qed
qed

section \<open>What a failed write leaves\<close>

lemma io_writen_failed:
  "io_writen bs os = Some (False, out, os') \<Longrightarrow> out = take (length out) bs \<and> length out < length bs"
proof -
  assume w: "io_writen bs os = Some (False, out, os')"
  have "length out < length bs"
    using w
  proof (induction bs os arbitrary: out rule: io_writen.induct)
    case (5 b bs n os)
    obtain o1 where o1: "io_writen (drop n (b # bs)) os = Some (False, o1, os')" "out = take n (b # bs) @ o1"
      using 5(2) by auto
    then show ?case using 5(1) [OF o1(1)] by auto
  qed auto
  then show ?thesis using io_writen_prefix [OF w] by blast
qed

lemma writer_write_failed:
  assumes "writer_write d w e os = Some (IOERR_WRITE, d', w', os')" and "payload_size e = int (length (le_data e))"
  shows "\<exists>p k. w_file w = Some p \<and> k < length (entry_bytes e) \<and> d' = append_file d p (take k (entry_bytes e)) \<and> w' = w"
proof -
  obtain p where p: "w_file w = Some p" "\<not> end_lsn w < le_lsn e" "\<not> le_lsn e \<le> last_lsn w"
    using assms(1) by (auto simp: writer_write_def split: if_splits option.splits)
  obtain ok out os1 where h: "io_writen (header_bytes (le_header e)) os = Some (ok, out, os1)"
    using assms(1) p by (auto simp: writer_write_def Let_def split: if_splits option.splits)
  show ?thesis
  proof (cases ok)
    case False
    then have "out = take (length out) (header_bytes (le_header e))" "length out < 16"
      using io_writen_failed [of "header_bytes (le_header e)" os out os1] h by auto
    then have "out = take (length out) (entry_bytes e)" "length out < length (entry_bytes e)"
      by (simp_all add: entry_bytes_def)
    moreover have "d' = append_file d p out" "w' = w"
      using assms(1) p h False by (auto simp: writer_write_def Let_def)
    ultimately show ?thesis using p(1) by metis
  next
    case True
    then have hd: "out = header_bytes (le_header e)" using io_writen_prefix [OF h] by simp
    obtain out' where b: "io_writen (le_data e) os1 = Some (False, out', os')"
      "d' = append_file (append_file d p out) p out'" "w' = w"
      using assms p h True by (auto simp: writer_write_def Let_def split: if_splits option.splits)
    have o: "out' = take (length out') (le_data e)" "length out' < length (le_data e)"
      using io_writen_failed [OF b(1)] by blast+
    have "out @ out' = take (16 + length out') (entry_bytes e)" 
      using hd o(1) by (simp add: entry_bytes_def)
    moreover have "16 + length out' < length (entry_bytes e)" using o(2) by (simp add: length_entry_bytes)
    ultimately show ?thesis using p(1) b(2,3) by (metis append_file_append)
  qed
qed

text \<open>Every piece of an entry may be left: a crash in the middle of a write is a failed write after which nothing happens.\<close>

lemma writer_write_piece:
  assumes "k < length (entry_bytes e)" and "w_file w = Some p" and "last_lsn w < le_lsn e" and "le_lsn e \<le> end_lsn w"
    and "payload_size e = int (length (le_data e))"
  shows "\<exists>os. writer_write d w e os = Some (IOERR_WRITE, append_file d p (take k (entry_bytes e)), w, [])"
proof -
  have part: "io_writen bs [Wrote n, Failed] = Some (False, take n bs, [])" if "n < length bs" for bs n
    using that by (cases bs; cases "drop n bs") (auto simp del: take_Cons' drop_Cons')
  show ?thesis
  proof (cases "k < 16")
    case True
    then have "io_writen (header_bytes (le_header e)) [Wrote k, Failed] = Some (False, take k (header_bytes (le_header e)), [])"
      by (intro part) simp
    then show ?thesis using assms True
      by (intro exI [of _ "[Wrote k, Failed]"]) (simp add: writer_write_def entry_bytes_def)
  next
    case False
    have whole: "io_writen bs (Wrote (length bs) # os) = Some (True, bs, os)" if "bs \<noteq> []" for bs os
      using that by (cases bs) auto
    have h: "io_writen (header_bytes (le_header e)) [Wrote 16, Wrote (k - 16), Failed] =
        Some (True, header_bytes (le_header e), [Wrote (k - 16), Failed])"
      using whole [of "header_bytes (le_header e)" "[Wrote (k - 16), Failed]"] length_header_bytes [of "le_header e"]
      by (metis list.size(3) zero_neq_numeral)
    have "io_writen (le_data e) [Wrote (k - 16), Failed] = Some (False, take (k - 16) (le_data e), [])"
      using assms(1) False by (intro part) (simp add: length_entry_bytes)
    then show ?thesis using assms False h
      by (intro exI [of _ "[Wrote 16, Wrote (k - 16), Failed]"]) (simp add: writer_write_def entry_bytes_def append_file_append)
  qed
qed

end
