(* ===== verification/Disk_Log_Handler.thy ===== *)
theory Disk_Log_Handler
  imports Log_Buffer Log_Reading
begin

text \<open>
  \<^verbatim>\<open>DiskLogHandler\<close> (\<^verbatim>\<open>src/src/observer/storage/clog/disk_log_handler.cpp\<close>) and the dispatch of
  \<^verbatim>\<open>IntegratedLogReplayer\<close>: appending, waiting, replaying, and the background thread that writes the buffer to
  the log files. The operations are first given as the code has them; then the thread and its clients
  interleave, as the step relation \<open>log_step\<close> whose steps are the critical sections of the code.
\<close>

record DiskLogHandler =
  thread_started :: bool
  running :: bool
  file_manager :: LogFileManager
  entry_buffer :: LogEntryBuffer

definition handler_new :: DiskLogHandler where
  "handler_new = \<lparr>thread_started = False, running = False,
     file_manager = \<lparr>max_entry_number_per_file = 0, log_files = []\<rparr>, entry_buffer = lb_new\<rparr>"

definition handler_init :: "DiskLogHandler \<Rightarrow> bool \<Rightarrow> (string \<times> bool) list option \<Rightarrow> rc \<times> DiskLogHandler" where
  "handler_init h mkdir dir =
     (case manager_init (file_manager h) mkdir dir 1000 of (rc, m) \<Rightarrow> (rc, h\<lparr>file_manager := m\<rparr>))"

definition handler_start :: "DiskLogHandler \<Rightarrow> rc \<times> DiskLogHandler" where
  "handler_start h =
     (if thread_started h then (INTERNAL, h) else (SUCCESS, h\<lparr>running := True, thread_started := True\<rparr>))"

definition handler_stop :: "DiskLogHandler \<Rightarrow> rc \<times> DiskLogHandler" where
  "handler_stop h = (if \<not> thread_started h then (INTERNAL, h) else (SUCCESS, h\<lparr>running := False\<rparr>))"

definition await_termination :: "DiskLogHandler \<Rightarrow> rc \<times> DiskLogHandler" where
  \<comment> \<open>the state after \<^verbatim>\<open>join\<close> has returned\<close>
  "await_termination h =
     (if \<not> thread_started h then (INTERNAL, h)
      else if running h then (INTERNAL, h)
      else (SUCCESS, h\<lparr>thread_started := False\<rparr>))"

fun iterate_files ::
  "(string \<Rightarrow> bool) \<Rightarrow> disk \<Rightarrow> 's log_callback \<Rightarrow> int \<Rightarrow> string list \<Rightarrow> 's \<Rightarrow> rc \<times> 's" where
  "iterate_files openable d consumer start_lsn [] s = (SUCCESS, s)"
| "iterate_files openable d consumer start_lsn (file # files) s =
     (case reader_open openable d file of
        (rc, rfd) \<Rightarrow>
          if OB_FAIL rc then (rc, s)
          else case reader_iterate rfd consumer start_lsn s of
            (rc, s') \<Rightarrow>
              if OB_FAIL rc then (rc, s')
              else case reader_close rfd of
                (rc, _) \<Rightarrow> if OB_FAIL rc then (rc, s') else iterate_files openable d consumer start_lsn files s')"

definition handler_iterate ::
  "(string \<Rightarrow> bool) \<Rightarrow> disk \<Rightarrow> DiskLogHandler \<Rightarrow> 's log_callback \<Rightarrow> int \<Rightarrow> 's \<Rightarrow> rc \<times> 's" where
  "handler_iterate openable d h consumer start_lsn s =
     (case list_files (file_manager h) start_lsn of
        (rc, files) \<Rightarrow> if OB_FAIL rc then (rc, s) else iterate_files openable d consumer start_lsn files s)"

definition replay_callback :: "'s log_callback \<Rightarrow> (int \<times> 's) log_callback" where
  "replay_callback replayer entry ms =
     (case ms of (max_lsn, s) \<Rightarrow>
        case replayer entry s of
          (rc, s') \<Rightarrow> (rc, if max_lsn < le_lsn entry then le_lsn entry else max_lsn, s'))"

definition handler_replay ::
  "(string \<Rightarrow> bool) \<Rightarrow> disk \<Rightarrow> DiskLogHandler \<Rightarrow> 's log_callback \<Rightarrow> int \<Rightarrow> 's \<Rightarrow> rc \<times> DiskLogHandler \<times> 's" where
  "handler_replay openable d h replayer start_lsn s =
     (case handler_iterate openable d h (replay_callback replayer) start_lsn (0, s) of
        (rc, max_lsn, s') \<Rightarrow>
          if OB_FAIL rc then (rc, h, s')
          else case lb_init (entry_buffer h) max_lsn 0 of (rc, b) \<Rightarrow> (rc, h\<lparr>entry_buffer := b\<rparr>, s'))"

definition handler_append ::
  "DiskLogHandler \<Rightarrow> int \<Rightarrow> int \<Rightarrow> byte list \<Rightarrow> (rc \<times> int \<times> DiskLogHandler) option" where
  "handler_append h lsn module_id data =
     (if \<not> running h then None
      else map_option (\<lambda>(rc, lsn', b). (rc, lsn', h\<lparr>entry_buffer := b\<rparr>)) (lb_append (entry_buffer h) lsn module_id data))"

definition wait_lsn :: "DiskLogHandler \<Rightarrow> int \<Rightarrow> rc option" where
  \<comment> \<open>\<open>None\<close>: it sleeps\<close>
  "wait_lsn h lsn =
     (if running h \<and> flushed_lsn (entry_buffer h) < lsn then None
      else if lsn \<le> flushed_lsn (entry_buffer h) then Some SUCCESS else Some INTERNAL)"

text \<open>One round of the loop of \<^verbatim>\<open>thread_func\<close>; \<open>trc\<close> is its variable \<^verbatim>\<open>rc\<close>.\<close>

definition thread_open ::
  "(string \<Rightarrow> bool) \<Rightarrow> disk \<Rightarrow> LogFileManager \<Rightarrow> LogFileWriter \<Rightarrow> rc \<Rightarrow> rc \<times> disk \<times> LogFileManager \<times> LogFileWriter" where
  "thread_open openable d m w trc =
     (if \<not> writer_valid w \<or> trc = LOG_FILE_FULL
      then if trc = LOG_FILE_FULL then next_file openable d m w else last_file openable d m w
      else (SUCCESS, d, m, w))"

definition thread_round ::
  "(string \<Rightarrow> bool) \<Rightarrow> DiskLogHandler \<Rightarrow> disk \<Rightarrow> LogFileWriter \<Rightarrow> rc \<Rightarrow> sys_result list \<Rightarrow>
   (rc \<times> DiskLogHandler \<times> disk \<times> LogFileWriter \<times> sys_result list) option" where
  "thread_round openable h d w trc os =
     (case thread_open openable d (file_manager h) w trc of
        (rc, d1, m1, w1) \<Rightarrow>
          let h1 = h\<lparr>file_manager := m1\<rparr>
          in if OB_FAIL rc then Some (rc, h1, d1, w1, os)
             else case lb_flush (entry_buffer h1) d1 w1 os of
               None \<Rightarrow> None
             | Some (rc, flush_count, b, d2, w2, os') \<Rightarrow> Some (rc, h1\<lparr>entry_buffer := b\<rparr>, d2, w2, os'))"

text \<open>\<^verbatim>\<open>IntegratedLogReplayer\<close>: the four replayers are parameters; \<^verbatim>\<open>trx_log_replayer_\<close> may be null.\<close>

definition integrated_replay ::
  "'s log_callback \<Rightarrow> 's log_callback \<Rightarrow> 's log_callback \<Rightarrow> 's log_callback option \<Rightarrow> LogEntry \<Rightarrow> 's \<Rightarrow> (rc \<times> 's) option" where
  "integrated_replay buffer_pool record bplus_tree trx entry s =
     (case module_of_index (h_module_id (le_header entry)) of
        Some BUFFER_POOL \<Rightarrow> Some (buffer_pool entry s)
      | Some RECORD_MANAGER \<Rightarrow> Some (record entry s)
      | Some BPLUS_TREE \<Rightarrow> Some (bplus_tree entry s)
      | Some TRANSACTION \<Rightarrow> map_option (\<lambda>r. r entry s) trx
      | None \<Rightarrow> Some (INVALID_ARGUMENT, s))"

fun on_done_all :: "('s \<Rightarrow> rc \<times> 's) list \<Rightarrow> 's \<Rightarrow> rc \<times> 's" where
  \<comment> \<open>\<^verbatim>\<open>IntegratedLogReplayer::on_done\<close>: each replayer's in turn, up to the first failure\<close>
  "on_done_all [] s = (SUCCESS, s)"
| "on_done_all (f # fs) s = (case f s of (rc, s') \<Rightarrow> if OB_FAIL rc then (rc, s') else on_done_all fs s')"

section \<open>The thread and its clients\<close>

datatype thread_pc = At_loop | Flushing | Writing LogEntry | Exited

text \<open>
  Three components are ghosts: \<open>history\<close> is every entry a successful append has put into the buffer, in order;
  \<open>torn\<close> says that a failed write has left bytes in a log file; \<open>overrun\<close> is the flushed LSN at the moment
  anything was first written behind such bytes.
\<close>

record log_system =
  handler :: DiskLogHandler
  sys_disk :: disk
  sys_writer :: LogFileWriter
  sys_rc :: rc
  sys_pc :: thread_pc
  history :: "LogEntry list"
  torn :: bool
  overrun :: "int option"

abbreviation sys_buffer :: "log_system \<Rightarrow> LogEntryBuffer" where
  "sys_buffer st \<equiv> entry_buffer (handler st)"

abbreviation with_buffer :: "log_system \<Rightarrow> LogEntryBuffer \<Rightarrow> log_system" where
  "with_buffer st b \<equiv> st\<lparr>handler := (handler st)\<lparr>entry_buffer := b\<rparr>\<rparr>"

definition loop_condition :: "log_system \<Rightarrow> bool" where
  "loop_condition st \<longleftrightarrow> running (handler st) \<or> 0 < entry_number (sys_buffer st)"

definition grown :: "disk \<Rightarrow> disk \<Rightarrow> LogFileWriter \<Rightarrow> bool" where
  \<comment> \<open>some bytes of a write have reached the writer's file\<close>
  "grown d d' w =
     (case w_file w of
        None \<Rightarrow> False
      | Some p \<Rightarrow> map_option (\<lambda>f. length (content f)) (d' p) \<noteq> map_option (\<lambda>f. length (content f)) (d p))"

definition note_write :: "log_system \<Rightarrow> disk \<Rightarrow> bool \<Rightarrow> log_system" where
  \<comment> \<open>the ghosts after a write that has left the disk \<open>d\<close>\<close>
  "note_write st d failed =
     (if grown (sys_disk st) d (sys_writer st)
      then st\<lparr>torn := torn st \<or> failed,
              overrun := if torn st \<and> overrun st = None then Some (flushed_lsn (sys_buffer st)) else overrun st\<rparr>
      else st)"

text \<open>
  The steps are the critical sections of the code. A write that fails (\<open>put_back\<close>) leaves whatever bytes the device took
  in the file and puts the entry back at the head of the buffer; the thread then goes round its loop again with the same
  file, unless the file was full. A crash may come after any step; a crash inside a write is a write that
  fails as the last step (lemma \<open>writer_write_piece\<close>: every piece of an entry may be left).
\<close>

inductive log_step :: "(string \<Rightarrow> bool) \<Rightarrow> log_system \<Rightarrow> log_system \<Rightarrow> bool" for openable where
  append: "handler_append (handler st) lsn0 (module_index module) data = Some (SUCCESS, lsn, h) \<Longrightarrow>
    int (length data) < 2147483648 \<Longrightarrow>
    log_step openable st (st\<lparr>handler := h, history := history st @ [last (entries (entry_buffer h))]\<rparr>)"
| stop: "handler_stop (handler st) = (SUCCESS, h) \<Longrightarrow> log_step openable st (st\<lparr>handler := h\<rparr>)"
| open_file: "sys_pc st = At_loop \<Longrightarrow> loop_condition st \<Longrightarrow>
    thread_open openable (sys_disk st) (file_manager (handler st)) (sys_writer st) (sys_rc st) = (rc, d, m, w) \<Longrightarrow>
    log_step openable st (st\<lparr>handler := (handler st)\<lparr>file_manager := m\<rparr>, sys_disk := d, sys_writer := w, sys_rc := rc,
      sys_pc := if OB_FAIL rc then At_loop else Flushing\<rparr>)"
| pop: "sys_pc st = Flushing \<Longrightarrow> lb_pop (sys_buffer st) = Some (e, b) \<Longrightarrow>
    log_step openable st ((with_buffer st b)\<lparr>sys_pc := Writing e\<rparr>)"
| written: "sys_pc st = Writing e \<Longrightarrow> writer_write (sys_disk st) (sys_writer st) e os = Some (SUCCESS, d, w, os') \<Longrightarrow>
    log_step openable st ((with_buffer (note_write st d False) (lb_written (sys_buffer st) e))\<lparr>sys_disk := d, sys_writer := w,
      sys_pc := Flushing\<rparr>)"
| put_back: "sys_pc st = Writing e \<Longrightarrow> writer_write (sys_disk st) (sys_writer st) e os = Some (rc, d, w, os') \<Longrightarrow> OB_FAIL rc \<Longrightarrow>
    log_step openable st ((with_buffer (note_write st d True) (lb_unpop (sys_buffer st) e))\<lparr>sys_disk := d, sys_writer := w,
      sys_rc := rc, sys_pc := At_loop\<rparr>)"
| drained: "sys_pc st = Flushing \<Longrightarrow> entry_number (sys_buffer st) = 0 \<Longrightarrow>
    log_step openable st (st\<lparr>sys_rc := SUCCESS, sys_pc := At_loop\<rparr>)"
| exit: "sys_pc st = At_loop \<Longrightarrow> \<not> loop_condition st \<Longrightarrow> log_step openable st (st\<lparr>sys_pc := Exited\<rparr>)"

section \<open>The log files hold the durable entries\<close>

definition in_file :: "int \<Rightarrow> int \<Rightarrow> LogEntry \<Rightarrow> bool" where
  "in_file mx k e \<longleftrightarrow> k \<le> le_lsn e \<and> le_lsn e < k + mx"

definition holds_range :: "disk \<Rightarrow> int \<Rightarrow> (int \<Rightarrow> byte list) \<Rightarrow> LogEntry list \<Rightarrow> int \<times> string \<Rightarrow> bool" where
  \<comment> \<open>the file of key \<open>k\<close> holds the entries of its range, in order, and behind them the bytes \<open>J k\<close>, which
    no entry follows; a file not yet created holds nothing\<close>
  "holds_range d mx J D kp \<longleftrightarrow> 0 \<le> fst kp \<and> int_fits 64 (fst kp) \<and> snd kp = log_file_name (fst kp) \<and>
     (J (fst kp) \<noteq> [] \<longrightarrow> (\<forall>e \<in> set D. le_lsn e < fst kp + mx)) \<and>
     (case d (snd kp) of
        None \<Rightarrow> filter (in_file mx (fst kp)) D = [] \<and> J (fst kp) = []
      | Some f \<Rightarrow> readable f \<and> content f = log_bytes (filter (in_file mx (fst kp)) D) @ J (fst kp))"

definition files_hold :: "disk \<Rightarrow> LogFileManager \<Rightarrow> (int \<Rightarrow> byte list) \<Rightarrow> LogEntry list \<Rightarrow> bool" where
  "files_hold d m J D \<longleftrightarrow>
     (let mx = max_entry_number_per_file m
      in 0 < mx \<and> sorted_wrt (\<lambda>a b. fst a + mx \<le> fst b) (log_files m) \<and>
         (\<forall>kp \<in> set (log_files m). holds_range d mx J D kp) \<and>
         (\<forall>k. int_fits 64 k \<longrightarrow> d (log_file_name k) \<noteq> None \<longrightarrow> (k, log_file_name k) \<in> set (log_files m)) \<and>
         (\<forall>k. J k \<noteq> [] \<longrightarrow> (k, log_file_name k) \<in> set (log_files m)) \<and>
         (\<forall>e \<in> set D. entry_ok e \<and> (\<exists>kp \<in> set (log_files m). in_file mx (fst kp) e)) \<and>
         sorted_wrt (<) (map le_lsn D))"

abbreviation no_junk :: "int \<Rightarrow> byte list" where
  "no_junk \<equiv> (\<lambda>_. [])"

definition files_inv :: "disk \<Rightarrow> LogFileManager \<Rightarrow> LogEntry list \<Rightarrow> bool" where
  \<comment> \<open>the files hold the entries of \<open>D\<close> and nothing else\<close>
  "files_inv d m D \<longleftrightarrow> files_hold d m no_junk D"

lemma files_holdD:
  assumes "files_hold d m J D"
  shows "0 < max_entry_number_per_file m" and "sorted_wrt (\<lambda>a b. fst a + max_entry_number_per_file m \<le> fst b) (log_files m)"
    and "\<And>kp. kp \<in> set (log_files m) \<Longrightarrow> holds_range d (max_entry_number_per_file m) J D kp"
    and "\<And>k. int_fits 64 k \<Longrightarrow> d (log_file_name k) \<noteq> None \<Longrightarrow> (k, log_file_name k) \<in> set (log_files m)"
    and "\<And>e. e \<in> set D \<Longrightarrow> entry_ok e \<and> (\<exists>kp \<in> set (log_files m). in_file (max_entry_number_per_file m) (fst kp) e)"
    and "sorted_wrt (<) (map le_lsn D)"
    and "\<And>k. J k \<noteq> [] \<Longrightarrow> (k, log_file_name k) \<in> set (log_files m)"
  using assms by (auto simp: files_hold_def Let_def)

lemma spaced_last:
  assumes "sorted_wrt (\<lambda>a b. fst a + mx \<le> fst b) xs" and "x \<in> set xs" and "0 < (mx :: int)"
  shows "x = last xs \<or> fst x + mx \<le> fst (last xs)" and "fst x \<le> fst (last xs)"
proof -
  have "xs = butlast xs @ [last xs]" using assms(2) by (metis append_butlast_last_id empty_iff empty_set)
  then have "sorted_wrt (\<lambda>a b. fst a + mx \<le> fst b) (butlast xs @ [last xs])" "x \<in> set (butlast xs @ [last xs])"
    using assms by simp_all
  then show "x = last xs \<or> fst x + mx \<le> fst (last xs)" by (auto simp: sorted_wrt_append)
  then show "fst x \<le> fst (last xs)" using assms(3) by auto
qed

lemma files_hold_ascending: "files_hold d m J D \<Longrightarrow> keys_ascending (log_files m)"
  using files_holdD(1,2) [of d m J D] unfolding keys_ascending_def sorted_wrt_map
  by (auto intro: sorted_wrt_mono_rel [rotated])

text \<open>Bytes arrive at the last file only; what the other files hold stays.\<close>

lemma files_hold_append:
  assumes inv: "files_hold d m J D" and kp: "log_files m \<noteq> []" "last (log_files m) = (k, p)" "d p \<noteq> None"
    and J': "\<And>k'. k' \<noteq> k \<Longrightarrow> J' k' = J k'" and D': "D' = D @ es"
    and here: "log_bytes (filter (in_file (max_entry_number_per_file m) k) D) @ J k @ bs =
      log_bytes (filter (in_file (max_entry_number_per_file m) k) D') @ J' k"
    and es: "\<forall>e \<in> set es. in_file (max_entry_number_per_file m) k e \<and> entry_ok e \<and> (\<forall>e' \<in> set D. le_lsn e' < le_lsn e)"
      "sorted_wrt (<) (map le_lsn es)" "es = [] \<or> J = no_junk"
  shows "files_hold (append_file d p bs) m J' D'"
proof -
  let ?mx = "max_entry_number_per_file m"
  note I = files_holdD [OF inv]
  have mem: "(k, p) \<in> set (log_files m)" using kp(1,2) last_in_set by metis
  have pk: "p = log_file_name k" "int_fits 64 k" "0 \<le> k" using I(3) [OF mem] by (auto simp: holds_range_def)
  have below: "\<forall>e \<in> set D'. le_lsn e < k + ?mx"
  proof -
    have "le_lsn e < k + ?mx" if "e \<in> set D" for e
      using I(5) [OF that] spaced_last(2) [OF I(2) _ I(1)] kp(2) by (fastforce simp: in_file_def)
    then show ?thesis using es(1) D' by (auto simp: in_file_def)
  qed
  have "holds_range (append_file d p bs) ?mx J' D' x" if x: "x \<in> set (log_files m)" for x
  proof (cases "x = (k, p)")
    case True
    then show ?thesis using I(3) [OF mem] kp(3) here below pk
      by (auto simp: holds_range_def append_file_def readable_def)
  next
    case False
    then have f: "fst x + ?mx \<le> k" using spaced_last(1) [OF I(2) x I(1)] kp(2) by auto
    have "p \<noteq> snd x" using I(3) [OF x] pk log_file_name_inj [of k "fst x"] f I(1) by (auto simp: holds_range_def)
    moreover have "filter (in_file ?mx (fst x)) D' = filter (in_file ?mx (fst x)) D"
      using es(1) f D' by (auto simp: in_file_def filter_empty_conv)
    moreover have "fst x \<noteq> k" using f I(1) by auto
    ultimately show ?thesis using I(3) [OF x] J' [of "fst x"] es(3) D'
      by (auto simp: holds_range_def append_file_def split: option.splits)
  qed
  moreover have "append_file d p bs q \<noteq> None \<longleftrightarrow> d q \<noteq> None" for q by (simp add: append_file_def)
  moreover have "(k', log_file_name k') \<in> set (log_files m)" if "J' k' \<noteq> []" for k'
    using that J' [of k'] I(7) [of k'] mem pk(1) by (cases "k' = k") auto
  moreover have "\<forall>e \<in> set D'. entry_ok e \<and> (\<exists>kp \<in> set (log_files m). in_file ?mx (fst kp) e)"
    using I(5) es(1) mem D' by force
  moreover have "sorted_wrt (<) (map le_lsn D')" using I(6) es(1,2) D' by (auto simp: sorted_wrt_append)
  ultimately show ?thesis using I(1,2,4) unfolding files_hold_def Let_def by auto
qed

lemma files_hold_append_entry:
  assumes "files_hold d m no_junk D" and "log_files m \<noteq> []" "last (log_files m) = (k, p)" "d p \<noteq> None"
    and "in_file (max_entry_number_per_file m) k e" "entry_ok e" "\<forall>e' \<in> set D. le_lsn e' < le_lsn e"
  shows "files_hold (append_file d p (entry_bytes e)) m no_junk (D @ [e])"
  by (rule files_hold_append [OF assms(1-4), where es = "[e]"]) (use assms in auto)

lemma files_hold_append_junk:
  assumes "files_hold d m J D" and "log_files m \<noteq> []" "last (log_files m) = (k, p)" "d p \<noteq> None"
  shows "files_hold (append_file d p bs) m (J(k := J k @ bs)) D"
  by (rule files_hold_append [OF assms, where es = "[]"]) auto

lemma files_hold_create:
  assumes inv: "files_hold d m J D" and "(k, p) \<in> set (log_files m)" and "d p = None"
  shows "files_hold (d(p \<mapsto> \<lparr>content = [], bad_byte = None\<rparr>)) m J D"
proof -
  let ?mx = "max_entry_number_per_file m"
  note I = files_holdD [OF inv]
  have pk: "p = log_file_name k" "int_fits 64 k" using I(3) [OF assms(2)] by (auto simp: holds_range_def)
  have "holds_range (d(p \<mapsto> \<lparr>content = [], bad_byte = None\<rparr>)) ?mx J D x" if x: "x \<in> set (log_files m)" for x
  proof (cases "snd x = p")
    case True
    then show ?thesis using I(3) [OF x] assms(3) by (simp add: holds_range_def readable_def)
  next
    case False
    then show ?thesis using I(3) [OF x] by (auto simp: holds_range_def split: option.splits)
  qed
  moreover have "(k', log_file_name k') \<in> set (log_files m)" if "int_fits 64 k'" "log_file_name k' = p" for k'
    using log_file_name_inj [OF that(1) pk(2)] that pk assms(2) by simp
  ultimately show ?thesis
    using I(1,2,4-7) unfolding files_hold_def Let_def by auto
qed

lemma files_hold_register:
  assumes inv: "files_hold d m J D" and k: "\<forall>kp \<in> set (log_files m). fst kp + max_entry_number_per_file m \<le> k"
    and fits: "0 \<le> k" "int_fits 64 k"
  shows "files_hold d (m\<lparr>log_files := log_files m @ [(k, log_file_name k)]\<rparr>) J D"
proof -
  let ?mx = "max_entry_number_per_file m"
  note I = files_holdD [OF inv]
  have new: "(k, log_file_name k) \<notin> set (log_files m)" using k I(1) by fastforce
  then have "d (log_file_name k) = None" "J k = []" using I(4,7) fits(2) by blast+
  moreover have "\<not> in_file ?mx k e" if "e \<in> set D" for e
    using I(5) [OF that] k by (fastforce simp: in_file_def)
  ultimately have "holds_range d ?mx J D (k, log_file_name k)"
    using fits by (simp add: holds_range_def filter_empty_conv)
  then show ?thesis
    using I k unfolding files_hold_def Let_def by (fastforce simp: sorted_wrt_append)
qed

section \<open>The invariant of the log\<close>

definition in_hand :: "log_system \<Rightarrow> LogEntry list" where
  "in_hand st = (case sys_pc st of Writing e \<Rightarrow> [e] | _ \<Rightarrow> [])"

definition pending :: "log_system \<Rightarrow> LogEntry list" where
  "pending st = in_hand st @ entries (sys_buffer st)"

definition writer_inv :: "disk \<Rightarrow> LogFileManager \<Rightarrow> LogFileWriter \<Rightarrow> int \<Rightarrow> bool" where
  "writer_inv d m w flushed \<longleftrightarrow> last_lsn w \<le> flushed \<and>
     (\<forall>p. w_file w = Some p \<longrightarrow> log_files m \<noteq> [] \<and> p = snd (last (log_files m)) \<and> d p \<noteq> None \<and>
        end_lsn w = fst (last (log_files m)) + max_entry_number_per_file m - 1)"

definition torn_inv :: "log_system \<Rightarrow> LogEntry list \<Rightarrow> (int \<Rightarrow> byte list) \<Rightarrow> bool" where
  \<comment> \<open>no bytes behind the entries, or a piece of the entry to be written next, or anything\<close>
  "torn_inv st D J \<longleftrightarrow>
     (case overrun st of
        None \<Rightarrow> if torn st then \<exists>k e n. J = no_junk(k := take n (entry_bytes e)) \<and> n < length (entry_bytes e) \<and> entry_ok e \<and>
                                     le_lsn e = flushed_lsn (sys_buffer st) + 1
                else J = no_junk
      | Some l \<Rightarrow> torn st \<and> l \<le> flushed_lsn (sys_buffer st) \<and> (\<forall>e \<in> set (history st). le_lsn e \<le> l \<longrightarrow> e \<in> set D))"

definition log_inv :: "log_system \<Rightarrow> LogEntry list \<Rightarrow> LogEntry list \<Rightarrow> (int \<Rightarrow> byte list) \<Rightarrow> bool" where
  \<comment> \<open>the files hold \<open>D\<close>; \<open>W\<close> was written behind torn bytes\<close>
  "log_inv st D W J \<longleftrightarrow>
     (let m = file_manager (handler st); b = sys_buffer st
      in files_hold (sys_disk st) m J D \<and> history st = D @ W @ pending st \<and>
         map le_lsn (pending st) = [flushed_lsn b + 1 .. current_lsn b] \<and>
         0 \<le> flushed_lsn b \<and> flushed_lsn b \<le> current_lsn b \<and>
         (\<forall>e \<in> set (pending st). entry_ok e) \<and> (\<forall>e \<in> set D. le_lsn e \<le> flushed_lsn b) \<and>
         (\<forall>kp \<in> set (log_files m). fst kp \<le> flushed_lsn b + 1) \<and>
         writer_inv (sys_disk st) m (sys_writer st) (flushed_lsn b) \<and>
         (sys_pc st = Flushing \<or> in_hand st \<noteq> [] \<longrightarrow> writer_valid (sys_writer st)) \<and>
         (sys_pc st = At_loop \<and> sys_rc st = LOG_FILE_FULL \<longrightarrow>
            log_files m \<noteq> [] \<and> fst (last (log_files m)) + max_entry_number_per_file m \<le> flushed_lsn b + 1) \<and>
         torn_inv st D J \<and> (overrun st = None \<longrightarrow> W = []))"

definition sys_max :: "log_system \<Rightarrow> int" where
  "sys_max st = max_entry_number_per_file (file_manager (handler st))"

lemma writer_open_cases:
  "writer_open op d (snd (writer_close w)) p endl =
     (if op p then (SUCCESS, if d p = None then d(p \<mapsto> \<lparr>content = [], bad_byte = None\<rparr>) else d,
                    w\<lparr>end_lsn := int32_of endl, w_file := Some p\<rparr>)
      else (FILE_OPEN, d, w\<lparr>w_file := None, end_lsn := int32_of endl\<rparr>))"
  by (cases w) (auto simp: writer_open_def writer_close_def writer_valid_def)

lemma open_inv:
  assumes inv: "files_hold d m J D" and k: "(k, p) \<in> set (log_files m)" "last (log_files m) = (k, p)"
    and op: "writer_open op d (snd (writer_close w)) p (k + max_entry_number_per_file m - 1) = (rc, d', w')"
    and small: "k + max_entry_number_per_file m - 1 < 2147483648" and l: "last_lsn w \<le> flushed"
  shows "files_hold d' m J D \<and> writer_inv d' m w' flushed \<and> (rc = SUCCESS \<longrightarrow> writer_valid w') \<and> rc \<noteq> LOG_FILE_FULL"
proof -
  have k0: "0 \<le> k" using files_holdD(3) [OF inv k(1)] by (simp add: holds_range_def)
  have "int32_of (k + max_entry_number_per_file m - 1) = k + max_entry_number_per_file m - 1"
    using k0 small files_holdD(1) [OF inv] by (intro int32_of_fits) (simp add: int_fits_def)
  moreover have "log_files m \<noteq> []" using k(1) by auto
  ultimately show ?thesis
    using op k l inv files_hold_create [OF inv k(1)]
    by (auto simp: writer_open_cases writer_inv_def writer_valid_def split: if_splits)
qed

lemma next_file_inv:
  assumes inv: "files_hold d m J D" and nf: "next_file op d m w = (rc, d', m', w')"
    and keys: "if log_files m = [] then True else fst (last (log_files m)) + max_entry_number_per_file m \<le> flushed + 1"
    and small: "flushed + max_entry_number_per_file m < 2147483647" and l: "last_lsn w \<le> flushed" "0 \<le> flushed"
    and old: "\<forall>kp \<in> set (log_files m). fst kp \<le> flushed + 1"
  shows "files_hold d' m' J D \<and> writer_inv d' m' w' flushed \<and> (rc = SUCCESS \<longrightarrow> writer_valid w') \<and> rc \<noteq> LOG_FILE_FULL \<and>
    max_entry_number_per_file m' = max_entry_number_per_file m \<and> (\<forall>kp \<in> set (log_files m'). fst kp \<le> flushed + 1)"
proof -
  let ?mx = "max_entry_number_per_file m"
  define k where "k = (if log_files m = [] then 0 else fst (last (log_files m)) + ?mx)"
  note I = files_holdD [OF inv]
  have kf: "k \<le> flushed + 1" using keys l(2) by (auto simp: k_def split: if_splits)
  have all: "\<forall>kp \<in> set (log_files m). fst kp + ?mx \<le> k"
    using spaced_last(2) [OF I(2) _ I(1)] by (force simp: k_def)
  have k0: "0 \<le> k"
  proof (cases "log_files m = []")
    case False
    then have "0 \<le> fst (last (log_files m))" using I(3) [OF last_in_set] by (simp add: holds_range_def)
    then show ?thesis using I(1) False by (simp add: k_def)
  qed (simp add: k_def)
  have fits: "int_fits 64 k" using k0 kf small I(1) by (simp add: int_fits_def)
  let ?m = "m\<lparr>log_files := log_files m @ [(k, log_file_name k)]\<rparr>"
  have em: "map_emplace k (log_file_name k) (log_files m) = log_files m @ [(k, log_file_name k)]"
    using all I(1) by (intro map_emplace_last) force
  have m': "m' = ?m" and wo: "writer_open op d (snd (writer_close w)) (log_file_name k) (k + ?mx - 1) = (rc, d', w')"
    using nf by (auto simp: next_file_def Let_def k_def [symmetric] em split: prod.splits)
  have inv': "files_hold d ?m J D" by (rule files_hold_register [OF inv all k0 fits])
  have "k + max_entry_number_per_file ?m - 1 < 2147483648" using kf small by simp
  note o = open_inv [OF inv' _ _ _ this l(1), of "log_file_name k" op rc d' w']
  show ?thesis using o wo m' old kf by auto
qed

lemma thread_open_inv:
  assumes inv: "files_hold d m J D" and wi: "writer_inv d m w flushed" and t: "thread_open op d m w trc = (rc, d', m', w')"
    and full: "trc = LOG_FILE_FULL \<Longrightarrow> log_files m \<noteq> [] \<and> fst (last (log_files m)) + max_entry_number_per_file m \<le> flushed + 1"
    and small: "flushed + max_entry_number_per_file m < 2147483647" and l: "0 \<le> flushed"
    and old: "\<forall>kp \<in> set (log_files m). fst kp \<le> flushed + 1"
  shows "files_hold d' m' J D \<and> writer_inv d' m' w' flushed \<and> (rc = SUCCESS \<longrightarrow> writer_valid w') \<and> rc \<noteq> LOG_FILE_FULL \<and>
    max_entry_number_per_file m' = max_entry_number_per_file m \<and> (\<forall>kp \<in> set (log_files m'). fst kp \<le> flushed + 1)"
proof -
  have ll: "last_lsn w \<le> flushed" using wi by (simp add: writer_inv_def)
  consider "next_file op d m w = (rc, d', m', w')" "trc = LOG_FILE_FULL"
    | "last_file op d m w = (rc, d', m', w')"
    | "writer_valid w" "rc = SUCCESS" "d' = d" "m' = m" "w' = w"
    using t unfolding thread_open_def
    by (cases "trc = LOG_FILE_FULL"; cases "writer_valid w") simp_all
  then show ?thesis
  proof cases
    case 1
    then show ?thesis using full next_file_inv [OF inv 1(1) _ small ll l old] by simp
  next
    case 2
    show ?thesis
    proof (cases "log_files m = []")
      case True
      then have nf: "next_file op d m w = (rc, d', m', w')" using 2 by (simp add: last_file_def)
      show ?thesis using True next_file_inv [OF inv nf _ small ll l old] by simp
    next
      case False
      obtain k p where kp: "last (log_files m) = (k, p)" by fastforce
      have mem: "(k, p) \<in> set (log_files m)" using False kp last_in_set by metis
      have wo: "writer_open op d (snd (writer_close w)) p (k + max_entry_number_per_file m - 1) = (rc, d', w')" "m' = m"
        using 2 False kp by (auto simp: last_file_def split: prod.splits)
      have "k + max_entry_number_per_file m - 1 < 2147483648" using old mem small by force
      then show ?thesis using open_inv [OF inv mem kp wo(1) _ ll] wo(2) old by simp
    qed
  next
    case 3
    then show ?thesis using inv wi old by simp
  qed
qed

lemma log_invD:
  assumes "log_inv st D W J"
  shows "files_hold (sys_disk st) (file_manager (handler st)) J D" "history st = D @ W @ pending st"
    "map le_lsn (pending st) = [flushed_lsn (sys_buffer st) + 1 .. current_lsn (sys_buffer st)]"
    "0 \<le> flushed_lsn (sys_buffer st)" "flushed_lsn (sys_buffer st) \<le> current_lsn (sys_buffer st)"
    "\<And>e. e \<in> set (pending st) \<Longrightarrow> entry_ok e" "\<And>e. e \<in> set D \<Longrightarrow> le_lsn e \<le> flushed_lsn (sys_buffer st)"
    "\<And>kp. kp \<in> set (log_files (file_manager (handler st))) \<Longrightarrow> fst kp \<le> flushed_lsn (sys_buffer st) + 1"
    "writer_inv (sys_disk st) (file_manager (handler st)) (sys_writer st) (flushed_lsn (sys_buffer st))"
    "sys_pc st = Flushing \<or> in_hand st \<noteq> [] \<Longrightarrow> writer_valid (sys_writer st)"
    "sys_pc st = At_loop \<Longrightarrow> sys_rc st = LOG_FILE_FULL \<Longrightarrow> log_files (file_manager (handler st)) \<noteq> [] \<and>
       fst (last (log_files (file_manager (handler st)))) + max_entry_number_per_file (file_manager (handler st)) \<le> flushed_lsn (sys_buffer st) + 1"
    "torn_inv st D J" "overrun st = None \<Longrightarrow> W = []"
  using assms unfolding log_inv_def Let_def by blast+

lemma torn_inv_cong:
  assumes "torn_inv st D J" and "torn st' = torn st" "overrun st' = overrun st" "flushed_lsn (sys_buffer st') = flushed_lsn (sys_buffer st)"
    and "\<And>e. e \<in> set (history st') \<Longrightarrow> e \<in> set (history st) \<or> flushed_lsn (sys_buffer st) < le_lsn e"
  shows "torn_inv st' D J"
  using assms(1-4) assms(5) unfolding torn_inv_def by (fastforce split: option.splits if_splits)

lemma log_inv_durable:
  assumes "log_inv st D W J" and "e \<in> set (history st)" and "le_lsn e \<le> flushed_lsn (sys_buffer st)" and "W = []"
  shows "e \<in> set D"
proof (rule ccontr)
  assume "e \<notin> set D"
  then have "le_lsn e \<in> set (map le_lsn (pending st))" using assms(2,4) log_invD(2) [OF assms(1)] by auto
  then show False using log_invD(3) [OF assms(1)] assms(3) by simp
qed

lemma step_append_inv:
  assumes inv: "log_inv st D W J" and a: "handler_append (handler st) lsn0 (module_index module) data = Some (SUCCESS, lsn, h)"
    and len: "int (length data) < 2147483648" and small: "current_lsn (entry_buffer h) < 2147483647"
  shows "log_inv (st\<lparr>handler := h, history := history st @ [last (entries (entry_buffer h))]\<rparr>) D W J"
proof -
  obtain b where b: "lb_append (sys_buffer st) lsn0 (module_index module) data = Some (SUCCESS, lsn, b)" "h = (handler st)\<lparr>entry_buffer := b\<rparr>"
    using a by (auto simp: handler_append_def split: if_splits)
  note s = lb_append_success [OF b(1) len]
  let ?e = "\<lparr>le_header = \<lparr>h_lsn = lsn, h_size = int (length data), h_module_id = module_index module\<rparr>, le_data = data\<rparr>"
  let ?st = "st\<lparr>handler := h, history := history st @ [last (entries (entry_buffer h))]\<rparr>"
  have "int_fits 32 (module_index module)" by (cases module) (simp_all add: int_fits_def)
  moreover have "int_fits 64 lsn" using log_invD(4,5) [OF inv] s small b(2) by (simp add: int_fits_def)
  ultimately have ok: "entry_ok ?e" using s by (simp add: entry_ok_def)
  have up: "[flushed_lsn (sys_buffer st) + 1 .. current_lsn (sys_buffer st) + 1] =
        [flushed_lsn (sys_buffer st) + 1 .. current_lsn (sys_buffer st)] @ [current_lsn (sys_buffer st) + 1]"
    using log_invD(5) [OF inv] by (simp add: upto_rec2)
  have "torn_inv ?st D J"
    by (rule torn_inv_cong [OF log_invD(12) [OF inv]]) (use log_invD(5) [OF inv] s b(2) in \<open>auto simp: le_lsn_def\<close>)
  then show ?thesis
    using log_invD(1-11,13) [OF inv] s b(2) ok up unfolding log_inv_def Let_def pending_def in_hand_def
    by (auto simp: le_lsn_def)
qed

lemma step_open_inv:
  assumes inv: "log_inv st D W J" and pc: "sys_pc st = At_loop"
    and t: "thread_open op (sys_disk st) (file_manager (handler st)) (sys_writer st) (sys_rc st) = (rc, d, m, w)"
    and small: "current_lsn (sys_buffer st) + sys_max st < 2147483647"
  shows "log_inv (st\<lparr>handler := (handler st)\<lparr>file_manager := m\<rparr>, sys_disk := d, sys_writer := w, sys_rc := rc,
      sys_pc := if OB_FAIL rc then At_loop else Flushing\<rparr>) D W J" (is "log_inv ?st D W J")
proof -
  note I = log_invD [OF inv]
  have sm: "flushed_lsn (sys_buffer st) + max_entry_number_per_file (file_manager (handler st)) < 2147483647"
    using small I(5) by (simp add: sys_max_def)
  have "\<forall>kp \<in> set (log_files (file_manager (handler st))). fst kp \<le> flushed_lsn (sys_buffer st) + 1" using I(8) by blast
  note o = thread_open_inv [OF I(1) I(9) t I(11) [OF pc] sm I(4) this]
  have "torn_inv ?st D J" using torn_inv_cong [OF I(12), of ?st] by simp
  then show ?thesis
    using o I(1-11,13) pc unfolding log_inv_def Let_def pending_def in_hand_def by auto
qed

lemma step_pop_inv:
  assumes inv: "log_inv st D W J" and pc: "sys_pc st = Flushing" and pop: "lb_pop (sys_buffer st) = Some (e, b)"
  shows "log_inv ((with_buffer st b)\<lparr>sys_pc := Writing e\<rparr>) D W J" (is "log_inv ?st D W J")
proof -
  have b: "entries (sys_buffer st) = e # entries b" "flushed_lsn b = flushed_lsn (sys_buffer st)" "current_lsn b = current_lsn (sys_buffer st)"
    using pop by (auto simp: lb_pop_def split: list.splits if_splits)
  have "torn_inv ?st D J" using torn_inv_cong [OF log_invD(12) [OF inv], of ?st] b by simp
  then show ?thesis using log_invD(1-11,13) [OF inv] pc b unfolding log_inv_def Let_def pending_def in_hand_def by simp
qed

lemma in_hand_facts:
  assumes inv: "log_inv st D W J" and pc: "sys_pc st = Writing e"
  shows "le_lsn e = flushed_lsn (sys_buffer st) + 1" "map le_lsn (entries (sys_buffer st)) = [le_lsn e + 1 .. current_lsn (sys_buffer st)]"
    "le_lsn e \<le> current_lsn (sys_buffer st)" "entry_ok e" "payload_size e = int (length (le_data e))"
    "history st = D @ W @ e # entries (sys_buffer st)"
proof -
  note I = log_invD [OF inv]
  let ?b = "sys_buffer st"
  have u: "map le_lsn (e # entries ?b) = [flushed_lsn ?b + 1 .. current_lsn ?b]" using I(3) pc by (simp add: pending_def in_hand_def)
  then have le: "flushed_lsn ?b + 1 \<le> current_lsn ?b" by (cases "flushed_lsn ?b + 1 \<le> current_lsn ?b") auto
  show "le_lsn e = flushed_lsn ?b + 1" "map le_lsn (entries ?b) = [le_lsn e + 1 .. current_lsn ?b]" "le_lsn e \<le> current_lsn ?b"
    using u le by (auto simp: upto_rec1)
  show ok: "entry_ok e" using I(6) [of e] pc by (simp add: pending_def in_hand_def)
  then show "payload_size e = int (length (le_data e))" by (simp add: entry_ok_def payload_size_def)
  show "history st = D @ W @ e # entries ?b" using I(2) pc by (simp add: pending_def in_hand_def)
qed

lemma writer_facts:
  assumes inv: "log_inv st D W J" and p: "w_file (sys_writer st) = Some p"
  defines "m \<equiv> file_manager (handler st)"
  shows "log_files m \<noteq> []" "last (log_files m) = (fst (last (log_files m)), p)" "sys_disk st p \<noteq> None"
    "end_lsn (sys_writer st) = fst (last (log_files m)) + max_entry_number_per_file m - 1"
    "fst (last (log_files m)) \<le> flushed_lsn (sys_buffer st) + 1"
proof -
  note I = log_invD [OF inv]
  show ne: "log_files m \<noteq> []" and "last (log_files m) = (fst (last (log_files m)), p)" "sys_disk st p \<noteq> None"
    "end_lsn (sys_writer st) = fst (last (log_files m)) + max_entry_number_per_file m - 1"
    using I(9) p by (auto simp: writer_inv_def m_def)
  show "fst (last (log_files m)) \<le> flushed_lsn (sys_buffer st) + 1" using I(8) [OF last_in_set] ne by (simp add: m_def)
qed

lemma append_file_Nil [simp]: "append_file d p [] = d"
  by (cases "d p") (auto simp: append_file_def fun_upd_idem)

lemma grown_append: "w_file w = Some p \<Longrightarrow> d p \<noteq> None \<Longrightarrow> grown d (append_file d p bs) w \<longleftrightarrow> bs \<noteq> []"
  by (auto simp: grown_def append_file_def)

lemma note_write_simps [simp]:
  "handler (note_write st d failed) = handler st" "sys_disk (note_write st d failed) = sys_disk st"
  "sys_writer (note_write st d failed) = sys_writer st" "sys_rc (note_write st d failed) = sys_rc st"
  "sys_pc (note_write st d failed) = sys_pc st" "history (note_write st d failed) = history st"
  by (simp_all add: note_write_def)

text \<open>What the bytes of a failed write are to the invariant.\<close>

lemma torn_inv_put_back:
  assumes inv: "log_inv st D W J" and pc: "sys_pc st = Writing e" and n: "0 < n" "n < length (entry_bytes e)"
    and g: "grown (sys_disk st) d (sys_writer st)"
    and st': "torn st' = torn (note_write st d True)" "overrun st' = overrun (note_write st d True)"
      "flushed_lsn (sys_buffer st') = flushed_lsn (sys_buffer st)" "history st' = history st"
  shows "torn_inv st' D (J(k := J k @ take n (entry_bytes e)))"
proof -
  note I = log_invD [OF inv] note E = in_hand_facts [OF inv pc]
  consider "overrun st = None" "\<not> torn st" | "overrun st = None" "torn st" | l where "overrun st = Some l"
    by (cases "overrun st") auto
  then show ?thesis
  proof cases
    case 1
    then have "J = no_junk" using I(12) by (simp add: torn_inv_def)
    then show ?thesis using 1 st' g n(2) E(1,4) by (auto simp: torn_inv_def note_write_def)
  next
    case 2
    then show ?thesis using st' g log_inv_durable [OF inv _ _ I(13) [OF 2(1)]] by (auto simp: torn_inv_def note_write_def)
  next
    case 3
    then show ?thesis using I(12) st' g by (simp add: torn_inv_def note_write_def)
  qed
qed

lemma step_put_back_inv:
  assumes inv: "log_inv st D W J" and pc: "sys_pc st = Writing e"
    and w: "writer_write (sys_disk st) (sys_writer st) e os = Some (rc, d, w, os')" and rc: "OB_FAIL rc"
  shows "\<exists>J'. log_inv ((with_buffer (note_write st d True) (lb_unpop (sys_buffer st) e))\<lparr>sys_disk := d, sys_writer := w,
      sys_rc := rc, sys_pc := At_loop\<rparr>) D W J'" (is "\<exists>J'. log_inv ?st D W J'")
proof -
  note I = log_invD [OF inv] note E = in_hand_facts [OF inv pc]
  let ?m = "file_manager (handler st)"
  have "writer_valid (sys_writer st)" using I(10) pc by (simp add: in_hand_def)
  then obtain p where p: "w_file (sys_writer st) = Some p" by (auto simp: writer_valid_def)
  note F = writer_facts [OF inv p]
  define k where "k = fst (last (log_files ?m))"
  have same: "w = sys_writer st" and "\<exists>n < length (entry_bytes e). d = append_file (sys_disk st) p (take n (entry_bytes e))"
  proof -
    have "0 < length (entry_bytes e)" by (simp add: length_entry_bytes)
    moreover have "rc \<noteq> IOERR_WRITE \<Longrightarrow> d = append_file (sys_disk st) p (take 0 (entry_bytes e)) \<and> w = sys_writer st"
      using w rc by (auto simp: writer_write_def Let_def split: if_splits option.splits)
    ultimately show "w = sys_writer st" "\<exists>n < length (entry_bytes e). d = append_file (sys_disk st) p (take n (entry_bytes e))"
      using writer_write_failed [OF _ E(5), of "sys_disk st" "sys_writer st" os d w os'] w p by (cases "rc = IOERR_WRITE"; fastforce)+
  qed
  then obtain n where n: "n < length (entry_bytes e)" "d = append_file (sys_disk st) p (take n (entry_bytes e))" by blast
  define J' where "J' = J(k := J k @ take n (entry_bytes e))"
  have fh: "files_hold d ?m J' D"
    unfolding J'_def n(2) k_def by (rule files_hold_append_junk [OF I(1) F(1-3)])
  have g: "grown (sys_disk st) d (sys_writer st) \<longleftrightarrow> 0 < n" using grown_append [OF p, of "sys_disk st" "take n (entry_bytes e)"] F(3) n by auto
  have ti: "torn_inv ?st D J'"
  proof (cases "0 < n")
    case True
    then show ?thesis unfolding J'_def using g by (intro torn_inv_put_back [OF inv pc True n(1)]) (simp_all add: lb_unpop_def)
  next
    case False
    then have "J' = J" by (simp add: J'_def)
    then show ?thesis using torn_inv_cong [OF I(12), of ?st] g False by (simp add: note_write_def lb_unpop_def)
  qed
  have ov: "overrun ?st = None \<Longrightarrow> overrun st = None" by (auto simp: note_write_def split: if_splits)
  have full: "rc = LOG_FILE_FULL \<Longrightarrow> end_lsn (sys_writer st) < le_lsn e"
    using w by (auto simp: writer_write_def Let_def split: if_splits option.splits)
  have fl: "rc = LOG_FILE_FULL \<Longrightarrow> k + max_entry_number_per_file ?m \<le> flushed_lsn (sys_buffer st) + 1"
    using full E(1) F(4) by (simp add: k_def)
  have wi: "writer_inv d ?m w (flushed_lsn (sys_buffer st))"
    using I(9) same n(2) by (auto simp: writer_inv_def append_file_def)
  have "log_inv ?st D W J'"
    using I(2-8,13) pc fh wi ti ov fl F(1) unfolding log_inv_def Let_def pending_def in_hand_def k_def
    by (simp add: lb_unpop_def)
  then show ?thesis by blast
qed

lemma step_written_inv:
  assumes inv: "log_inv st D W J" and pc: "sys_pc st = Writing e"
    and w: "writer_write (sys_disk st) (sys_writer st) e os = Some (SUCCESS, d, w, os')"
    and small: "current_lsn (sys_buffer st) < 2147483647"
  shows "\<exists>D' W' J'. log_inv ((with_buffer (note_write st d False) (lb_written (sys_buffer st) e))\<lparr>sys_disk := d, sys_writer := w,
      sys_pc := Flushing\<rparr>) D' W' J'" (is "\<exists>D' W' J'. log_inv ?st D' W' J'")
proof -
  note I = log_invD [OF inv] note E = in_hand_facts [OF inv pc]
  let ?b = "sys_buffer st" and ?m = "file_manager (handler st)"
  obtain p where p: "w_file (sys_writer st) = Some p" "d = append_file (sys_disk st) p (entry_bytes e)"
    "w = (sys_writer st)\<lparr>last_lsn := int32_of (le_lsn e)\<rparr>" "le_lsn e \<le> end_lsn (sys_writer st)"
    using writer_write_success [OF w E(5)] by blast
  note F = writer_facts [OF inv p(1)]
  define k where "k = fst (last (log_files ?m))"
  have lt: "\<forall>e' \<in> set D. le_lsn e' < le_lsn e" using I(7) E(1) by fastforce
  have inf: "in_file (max_entry_number_per_file ?m) k e" using p(4) F(4,5) E(1) by (simp add: in_file_def k_def)
  have g: "grown (sys_disk st) d (sys_writer st)"
    using grown_append [OF p(1), of "sys_disk st" "entry_bytes e"] F(3) p(2) length_entry_bytes [of e] by fastforce
  have "\<exists>D' W' J'. files_hold d ?m J' D' \<and> history st = D' @ W' @ entries ?b \<and> (\<forall>e' \<in> set D'. le_lsn e' \<le> le_lsn e) \<and>
      torn_inv ?st D' J' \<and> (overrun ?st = None \<longrightarrow> W' = [])"
  proof (cases "torn st")
    case False
    then have j: "overrun st = None" "J = no_junk" "W = []" using I(12,13) by (auto simp: torn_inv_def split: option.splits)
    have "files_hold d ?m no_junk (D @ [e])"
      unfolding p(2) by (rule files_hold_append_entry [OF I(1) [unfolded j(2)] F(1) F(2) F(3)]) (use inf E(4) lt in \<open>auto simp: k_def\<close>)
    moreover have "torn_inv ?st (D @ [e]) no_junk" using False j(1) by (simp add: torn_inv_def note_write_def)
    ultimately show ?thesis using lt E(6) j(3) by (intro exI [of _ "D @ [e]"] exI [of _ "[]"] exI [of _ no_junk]) auto
  next
    case True
    have "files_hold d ?m (J(k := J k @ entry_bytes e)) D"
      unfolding p(2) k_def by (rule files_hold_append_junk [OF I(1) F(1-3)])
    moreover have "torn_inv ?st D (J(k := J k @ entry_bytes e))"
    proof (cases "overrun st")
      case None
      then show ?thesis using True g E(1) log_inv_durable [OF inv _ _ I(13) [OF None]]
        by (auto simp: torn_inv_def note_write_def lb_written_def)
    next
      case (Some l)
      then show ?thesis using I(12) g E(1) by (auto simp: torn_inv_def note_write_def lb_written_def)
    qed
    moreover have "overrun ?st \<noteq> None" using True g by (simp add: note_write_def)
    ultimately show ?thesis using lt E(6)
      by (intro exI [of _ D] exI [of _ "W @ [e]"] exI [of _ "J(k := J k @ entry_bytes e)"]) auto
  qed
  then obtain D' W' J' where N: "files_hold d ?m J' D'" "history st = D' @ W' @ entries ?b" "\<forall>e' \<in> set D'. le_lsn e' \<le> le_lsn e"
    "torn_inv ?st D' J'" "overrun ?st = None \<longrightarrow> W' = []"
    by (elim exE conjE) (rule that)
  have "int32_of (le_lsn e) = le_lsn e"
    using E(1,3) I(4) small by (intro int32_of_fits) (simp add: int_fits_def)
  moreover have "snd (last (log_files ?m)) = p" using F(2) by (metis snd_conv)
  ultimately have wi: "writer_inv d ?m w (le_lsn e)"
    using p F(1,3,4) by (auto simp: writer_inv_def append_file_def)
  have keys: "\<forall>kp \<in> set (log_files ?m). fst kp \<le> le_lsn e + 1" using I(8) E(1) by fastforce
  have oks: "\<forall>e \<in> set (entries ?b). entry_ok e" using I(6) by (auto simp: pending_def)
  have v: "writer_valid w" using p by (simp add: writer_valid_def)
  have "log_inv ?st D' W' J'"
    using N wi keys oks v E(1-3) I(4) unfolding log_inv_def Let_def pending_def in_hand_def
    by (simp add: lb_written_def)
  then show ?thesis by blast
qed

lemma step_mono:
  assumes "log_step op st st'"
  shows "current_lsn (sys_buffer st) \<le> current_lsn (sys_buffer st')"
  using assms
proof cases
  case (append lsn0 module data lsn h)
  then obtain b where b: "lb_append (sys_buffer st) lsn0 (module_index module) data = Some (SUCCESS, lsn, b)" "h = (handler st)\<lparr>entry_buffer := b\<rparr>"
    by (auto simp: handler_append_def split: if_splits)
  then show ?thesis using lb_append_success [OF b(1) append(3)] append(1) by simp
next
  case (stop h)
  then show ?thesis by (auto simp: handler_stop_def split: if_splits)
next
  case (pop e b)
  then show ?thesis by (auto simp: lb_pop_def split: list.splits if_splits)
qed (auto simp: lb_written_def lb_unpop_def)

lemma log_step_inv:
  assumes "log_step op st st'" and inv: "log_inv st D W J" and small: "current_lsn (sys_buffer st') + sys_max st < 2147483647"
  shows "(\<exists>D' W' J'. log_inv st' D' W' J') \<and> sys_max st' = sys_max st"
proof -
  have pos: "0 < sys_max st" using files_holdD(1) [OF log_invD(1) [OF inv]] by (simp add: sys_max_def)
  have low: "current_lsn (sys_buffer st) + sys_max st < 2147483647" using step_mono [OF assms(1)] small by simp
  show ?thesis
    using assms(1)
  proof cases
    case (append lsn0 module data lsn h)
    then have "file_manager h = file_manager (handler st)" by (auto simp: handler_append_def split: if_splits)
    moreover have "current_lsn (entry_buffer h) < 2147483647" using small append(1) pos by simp
    ultimately show ?thesis using step_append_inv [OF inv append(2,3)] append(1) by (auto simp: sys_max_def)
  next
    case (stop h)
    then have h: "h = (handler st)\<lparr>running := False\<rparr>" by (auto simp: handler_stop_def split: if_splits)
    have "torn_inv (st\<lparr>handler := (handler st)\<lparr>running := False\<rparr>\<rparr>) D J" by (rule torn_inv_cong [OF log_invD(12) [OF inv]]) simp_all
    then have "log_inv st' D W J" using inv unfolding stop(1) h log_inv_def Let_def pending_def in_hand_def by simp
    then show ?thesis using stop(1) h by (auto simp: sys_max_def)
  next
    case (open_file rc d m w)
    have "log_inv st' D W J" using step_open_inv [OF inv open_file(2,4) low] open_file(1) by simp
    moreover have "max_entry_number_per_file m = sys_max st"
      using open_file(4) unfolding sys_max_def thread_open_def next_file_def last_file_def
      by (auto simp: Let_def split: if_splits prod.splits)
    then have "sys_max st' = sys_max st" using open_file(1) by (simp add: sys_max_def)
    ultimately show ?thesis by blast
  next
    case (pop e b)
    then show ?thesis using step_pop_inv [OF inv pop(2,3)] by (auto simp: sys_max_def)
  next
    case (written e os d w os')
    then show ?thesis using step_written_inv [OF inv written(2,3)] low pos by (auto simp: sys_max_def)
  next
    case (put_back e os rc d w os')
    then show ?thesis using step_put_back_inv [OF inv put_back(2-4)] by (auto simp: sys_max_def)
  next
    case drained
    have "torn_inv st' D J" by (rule torn_inv_cong [OF log_invD(12) [OF inv]]) (simp_all add: drained(1))
    then have "log_inv st' D W J"
      using log_invD [OF inv] drained unfolding log_inv_def Let_def pending_def in_hand_def by simp
    then show ?thesis using drained(1) by (auto simp: sys_max_def)
  next
    case exit
    have "torn_inv st' D J" by (rule torn_inv_cong [OF log_invD(12) [OF inv]]) (simp_all add: exit(1))
    then have "log_inv st' D W J"
      using log_invD [OF inv] exit unfolding log_inv_def Let_def pending_def in_hand_def by simp
    then show ?thesis using exit(1) by (auto simp: sys_max_def)
  qed
qed

lemma log_steps_inv:
  assumes "(log_step op)\<^sup>*\<^sup>* st st'" and "log_inv st D W J"
  shows "current_lsn (sys_buffer st') + sys_max st < 2147483647 \<Longrightarrow>
    (\<exists>D' W' J'. log_inv st' D' W' J') \<and> sys_max st' = sys_max st"
  using assms
proof (induction rule: rtranclp_induct)
  case (step y z)
  have "current_lsn (sys_buffer y) + sys_max st < 2147483647" using step_mono [OF step.hyps(2)] step.prems(1) by simp
  then obtain D1 W1 J1 where D1: "log_inv y D1 W1 J1" "sys_max y = sys_max st" using step.IH step.prems(2) by blast
  then show ?case using log_step_inv [OF step.hyps(2) D1(1)] step.prems(1) by simp
qed auto

section \<open>Reading the log back\<close>

lemma sorted_lsn_dropWhile:
  "sorted_wrt (<) (map le_lsn es) \<Longrightarrow> dropWhile (\<lambda>e. le_lsn e < start) es = filter (\<lambda>e. start \<le> le_lsn e) es"
proof (induction es)
  case (Cons e es)
  then show ?case
  proof (cases "le_lsn e < start")
    case False
    then have "\<forall>x \<in> set es. start \<le> le_lsn x" using Cons.prems by auto
    then show ?thesis using False by (simp add: filter_id_conv)
  qed simp
qed simp

definition piece_of :: "LogEntry list \<Rightarrow> byte list \<Rightarrow> bool" where
  \<comment> \<open>nothing, or a piece of one entry that would come after those of \<open>D\<close>\<close>
  "piece_of D bs \<longleftrightarrow> bs = [] \<or>
     (\<exists>e n. bs = take n (entry_bytes e) \<and> n < length (entry_bytes e) \<and> entry_ok e \<and> (\<forall>e' \<in> set D. le_lsn e' < le_lsn e))"

lemma reader_iterate_range:
  assumes "holds_range d mx J D kp" and "d (snd kp) = Some f" and ok: "\<forall>e \<in> set D. entry_ok e" and srt: "sorted_wrt (<) (map le_lsn D)"
  shows "\<exists>L rcL. (\<forall>cb (s :: 's). reader_iterate (Some f) cb start s =
      feed_end cb (filter (\<lambda>e. start \<le> le_lsn e) (filter (in_file mx (fst kp)) D) @ L) rcL s) \<and>
    (J (fst kp) = [] \<longrightarrow> L = [] \<and> rcL = SUCCESS) \<and> (piece_of D (J (fst kp)) \<longrightarrow> L = [] \<and> rcL \<in> {SUCCESS, IOERR_READ})"
proof -
  let ?es = "filter (in_file mx (fst kp)) D"
  have f: "readable f" "content f = log_bytes ?es @ J (fst kp)" using assms(1,2) by (auto simp: holds_range_def)
  have ok': "\<forall>e \<in> set ?es. entry_ok e" using ok by simp
  have "sorted_wrt (<) (map le_lsn ?es)" using srt by (simp add: sorted_wrt_map sorted_wrt_filter)
  note dw = sorted_lsn_dropWhile [OF this, of start]
  consider "J (fst kp) = []" | "J (fst kp) \<noteq> []" "piece_of D (J (fst kp))" | "\<not> piece_of D (J (fst kp))"
    by (auto simp: piece_of_def)
  then show ?thesis
  proof cases
    case 1
    then have "reader_iterate (Some f) cb start s = feed_end cb (filter (\<lambda>e. start \<le> le_lsn e) ?es @ []) SUCCESS s" for cb and s :: 's
      using reader_iterate_entries [OF f _ ok', of cb start s] unfolding dw feed_end_success by simp
    then show ?thesis using 1 by (intro exI [of _ "[]"] exI [of _ SUCCESS]) simp
  next
    case 2
    then obtain e n where e: "J (fst kp) = take n (entry_bytes e)" "n < length (entry_bytes e)" "entry_ok e"
      "\<forall>e' \<in> set D. le_lsn e' < le_lsn e"
      by (auto simp: piece_of_def)
    then have "\<forall>e' \<in> set ?es. le_lsn e' < le_lsn e" by simp
    then obtain rcL where "rcL \<in> {SUCCESS, IOERR_READ}"
      "\<forall>cb (s :: 's). reader_iterate (Some f) cb start s = feed_end cb (filter (\<lambda>e. start \<le> le_lsn e) ?es @ []) rcL s"
      using reader_iterate_piece [OF f [unfolded e(1)] e(2) ok' e(3), of start] by (auto simp only: dw append_Nil2)
    then show ?thesis using 2 by (intro exI [of _ "[]"] exI [of _ rcL]) simp
  next
    case 3
    then have "J (fst kp) \<noteq> []" by (auto simp: piece_of_def)
    moreover obtain L rcL where "\<forall>cb (s :: 's). reader_iterate (Some f) cb start s =
        feed_end cb (filter (\<lambda>e. start \<le> le_lsn e) ?es @ L) rcL s"
      using reader_iterate_front [OF f ok', of start] unfolding dw by blast
    ultimately show ?thesis using 3 by (intro exI [of _ L] exI [of _ rcL]) simp
  qed
qed

lemma iterate_files_hold:
  assumes "\<forall>kp \<in> set fs. holds_range d mx J D kp \<and> d (snd kp) \<noteq> None \<and> op (snd kp)"
    and "sorted_wrt (\<lambda>a b. fst a + mx \<le> fst b) fs" and "\<forall>e \<in> set D. entry_ok e" and "sorted_wrt (<) (map le_lsn D)"
  shows "\<exists>L rcL. (\<forall>cb (s :: 's). iterate_files op d cb start (map snd fs) s =
      feed_end cb (concat (map (\<lambda>kp. filter (\<lambda>e. start \<le> le_lsn e) (filter (in_file mx (fst kp)) D)) fs) @ L) rcL s) \<and>
    ((\<forall>kp \<in> set fs. J (fst kp) = []) \<longrightarrow> L = [] \<and> rcL = SUCCESS) \<and>
    ((\<forall>kp \<in> set fs. piece_of D (J (fst kp))) \<longrightarrow> L = [] \<and> rcL \<in> {SUCCESS, IOERR_READ})"
  using assms(1,2)
proof (induction fs)
  case Nil
  show ?case by (intro exI [of _ "[]"] exI [of _ SUCCESS]) simp
next
  case (Cons kp fs)
  let ?part = "\<lambda>kp. filter (\<lambda>e. start \<le> le_lsn e) (filter (in_file mx (fst kp)) D)"
  obtain f where f: "d (snd kp) = Some f" "holds_range d mx J D kp" "op (snd kp)" using Cons.prems by auto
  obtain L1 rc1 where 1: "\<forall>cb (s :: 's). reader_iterate (Some f) cb start s = feed_end cb (?part kp @ L1) rc1 s"
    "J (fst kp) = [] \<longrightarrow> L1 = [] \<and> rc1 = SUCCESS" "piece_of D (J (fst kp)) \<longrightarrow> L1 = [] \<and> rc1 \<in> {SUCCESS, IOERR_READ}"
    using reader_iterate_range [OF f(2,1) assms(3,4)] by blast
  have rest: "\<forall>kp \<in> set fs. holds_range d mx J D kp \<and> d (snd kp) \<noteq> None \<and> op (snd kp)"
    "sorted_wrt (\<lambda>a b. fst a + mx \<le> fst b) fs" "\<forall>kp' \<in> set fs. fst kp + mx \<le> fst kp'"
    using Cons.prems by simp_all
  obtain L2 rc2 where 2: "\<forall>cb (s :: 's). iterate_files op d cb start (map snd fs) s = feed_end cb (concat (map ?part fs) @ L2) rc2 s"
    "(\<forall>kp \<in> set fs. J (fst kp) = []) \<longrightarrow> L2 = [] \<and> rc2 = SUCCESS"
    "(\<forall>kp \<in> set fs. piece_of D (J (fst kp))) \<longrightarrow> L2 = [] \<and> rc2 \<in> {SUCCESS, IOERR_READ}"
    using Cons.IH rest by blast
  have step: "iterate_files op d cb start (map snd (kp # fs)) s =
      (if OB_FAIL rc1 then feed_end cb (?part kp @ L1) rc1 s
       else feed_end cb ((?part kp @ L1) @ concat (map ?part fs) @ L2) rc2 s)" for cb and s :: 's
  proof -
    have r: "iterate_files op d cb start (map snd (kp # fs)) s =
        (case feed_end cb (?part kp @ L1) rc1 s of
           (rc, s') \<Rightarrow> if OB_FAIL rc then (rc, s') else feed_end cb (concat (map ?part fs) @ L2) rc2 s')"
      using f 1(1) 2(1) by (simp add: reader_open_def reader_close_def split: prod.split)
    show ?thesis unfolding r feed_end_bind ..
  qed
  have none: "concat (map ?part fs) = []" if "J (fst kp) \<noteq> []"
  proof -
    have "\<forall>e \<in> set D. le_lsn e < fst kp + mx" using f(2) that by (simp add: holds_range_def)
    then show ?thesis using rest(3) by (fastforce simp: in_file_def filter_empty_conv)
  qed
  show ?case
  proof (cases "J (fst kp) = []")
    case True
    have "iterate_files op d cb start (map snd (kp # fs)) s = feed_end cb (concat (map ?part (kp # fs)) @ L2) rc2 s" for cb and s :: 's
      by (rule trans [OF step]) (use 1(2) True in simp)
    then show ?thesis using 2(2,3) by (intro exI [of _ L2] exI [of _ rc2] conjI allI) (assumption, auto)
  next
    case False
    let ?L = "L1 @ (if OB_FAIL rc1 then [] else L2)" and ?rc = "if OB_FAIL rc1 then rc1 else rc2"
    have "iterate_files op d cb start (map snd (kp # fs)) s = feed_end cb (concat (map ?part (kp # fs)) @ ?L) ?rc s" for cb and s :: 's
      by (rule trans [OF step]) (simp only: list.map concat.simps none [OF False], simp)
    then show ?thesis using 1(3) 2(3) False by (intro exI [of _ ?L] exI [of _ ?rc] conjI allI) (assumption, auto)
  qed
qed

lemma concat_ranges:
  assumes "files_hold d m J D"
  shows "concat (map (\<lambda>kp. filter (in_file (max_entry_number_per_file m) (fst kp)) D) (log_files m)) = D"
proof -
  let ?mx = "max_entry_number_per_file m"
  note I = files_holdD [OF assms]
  have "sorted_wrt (<) (map le_lsn (concat (map (\<lambda>kp. filter (in_file ?mx (fst kp)) D) fs)))"
    if "sorted_wrt (\<lambda>a b. fst a + ?mx \<le> fst b) fs" for fs
    using that
  proof (induction fs)
    case (Cons kp fs)
    have "sorted_wrt (<) (map le_lsn (filter (in_file ?mx (fst kp)) D))" using I(6) by (simp add: sorted_wrt_map sorted_wrt_filter)
    moreover have "le_lsn x < le_lsn y" if "in_file ?mx (fst kp) x" "kp' \<in> set fs" "in_file ?mx (fst kp') y" for x y kp'
      using that Cons.prems by (force simp: in_file_def)
    ultimately show ?case using Cons by (auto simp: sorted_wrt_append)
  qed simp
  then have 1: "sorted_wrt (<) (map le_lsn (concat (map (\<lambda>kp. filter (in_file ?mx (fst kp)) D) (log_files m))))" (is "sorted_wrt _ (map _ ?c)")
    using I(2) by blast
  have "set ?c = set D" using I(5) by fastforce
  moreover have "distinct (map le_lsn D)" "sorted (map le_lsn D)" "distinct (map le_lsn ?c)" "sorted (map le_lsn ?c)"
    using I(6) 1 by (simp_all add: strict_sorted_iff)
  ultimately show ?thesis by (intro map_sorted_distinct_set_unique [of le_lsn]) (auto simp: distinct_map)
qed

lemma handler_iterate_hold:
  assumes inv: "files_hold d (file_manager h) J D" and ex: "\<forall>kp \<in> set (log_files (file_manager h)). d (snd kp) \<noteq> None \<and> op (snd kp)"
  shows "\<exists>L rcL. (\<forall>cb (s :: 's). handler_iterate op d h cb start s = feed_end cb (filter (\<lambda>e. start \<le> le_lsn e) D @ L) rcL s) \<and>
    (J = no_junk \<longrightarrow> L = [] \<and> rcL = SUCCESS) \<and> ((\<forall>k. piece_of D (J k)) \<longrightarrow> L = [] \<and> rcL \<in> {SUCCESS, IOERR_READ})"
proof -
  let ?m = "file_manager h" let ?mx = "max_entry_number_per_file ?m"
  let ?late = "\<lambda>file :: int \<times> string. start \<le> fst file + ?mx - 1"
  let ?part = "\<lambda>kp. filter (\<lambda>e. start \<le> le_lsn e) (filter (in_file ?mx (fst kp)) D)"
  note I = files_holdD [OF inv]
  have late: "concat (map ?part (filter ?late fs)) = concat (map ?part fs)" for fs
  proof (induction fs)
    case (Cons kp fs)
    have "?part kp = []" if "\<not> ?late kp" using that by (auto simp: filter_empty_conv in_file_def)
    then show ?case using Cons by auto
  qed simp
  have part: "concat (map ?part fs) = filter (\<lambda>e. start \<le> le_lsn e) (concat (map (\<lambda>kp. filter (in_file ?mx (fst kp)) D) fs))" for fs
    by (induction fs) auto
  have all: "concat (map ?part (filter ?late (log_files ?m))) = filter (\<lambda>e. start \<le> le_lsn e) D"
    by (subst late, subst part, subst concat_ranges [OF inv]) (rule refl)
  have fs: "\<forall>kp \<in> set (filter ?late (log_files ?m)). holds_range d ?mx J D kp \<and> d (snd kp) \<noteq> None \<and> op (snd kp)"
    using I(3) ex by simp
  have srt: "sorted_wrt (\<lambda>a b. fst a + ?mx \<le> fst b) (filter ?late (log_files ?m))" using I(2) by (rule sorted_wrt_filter)
  have ok: "\<forall>e \<in> set D. entry_ok e" using I(5) by blast
  have hi: "handler_iterate op d h cb start s = iterate_files op d cb start (map snd (filter ?late (log_files ?m))) s" for cb and s :: 's
    by (simp add: handler_iterate_def list_files_def)
  obtain L rcL where L: "\<forall>cb (s :: 's). handler_iterate op d h cb start s = feed_end cb (filter (\<lambda>e. start \<le> le_lsn e) D @ L) rcL s"
    "(\<forall>kp \<in> set (filter ?late (log_files ?m)). J (fst kp) = []) \<longrightarrow> L = [] \<and> rcL = SUCCESS"
    "(\<forall>kp \<in> set (filter ?late (log_files ?m)). piece_of D (J (fst kp))) \<longrightarrow> L = [] \<and> rcL \<in> {SUCCESS, IOERR_READ}"
    using iterate_files_hold [OF fs srt ok I(6), of start] unfolding hi all by blast
  show ?thesis using L(2,3) by (intro exI [of _ L] exI [of _ rcL] conjI L(1)) auto
qed

lemma handler_iterate_feed:
  assumes "files_inv d (file_manager h) D" and "\<forall>kp \<in> set (log_files (file_manager h)). d (snd kp) \<noteq> None \<and> op (snd kp)"
  shows "handler_iterate op d h cb start s = feed cb (filter (\<lambda>e. start \<le> le_lsn e) D) s"
  using handler_iterate_hold [OF assms(1) [unfolded files_inv_def] assms(2), of start] by (auto simp: feed_end_success)

section \<open>Restart\<close>

definition dir_lists :: "(string \<times> bool) list \<Rightarrow> disk \<Rightarrow> bool" where
  \<comment> \<open>the directory has the disk's files as regular files, and every name that parses as a log file is one the manager made\<close>
  "dir_lists dir d \<longleftrightarrow> (\<forall>n. (n, True) \<in> set dir \<longleftrightarrow> d n \<noteq> None) \<and>
     (\<forall>n. d n \<noteq> None \<longrightarrow> fst (get_lsn_from_filename n) = SUCCESS \<longrightarrow> (\<exists>k. int_fits 64 k \<and> n = log_file_name k))"

definition named :: "(int \<times> string) list \<Rightarrow> bool" where
  "named m \<longleftrightarrow> keys_ascending m \<and> (\<forall>kp \<in> set m. int_fits 64 (fst kp) \<and> snd kp = log_file_name (fst kp))"

lemma scan_dir_entry_set:
  assumes "named m"
    and canon: "r \<Longrightarrow> fst (get_lsn_from_filename n) = SUCCESS \<Longrightarrow> \<exists>k. int_fits 64 k \<and> n = log_file_name k"
  shows "named (scan_dir_entry (n, r) m) \<and>
    set (scan_dir_entry (n, r) m) = set m \<union> {(k, log_file_name k) |k. int_fits 64 k \<and> r \<and> n = log_file_name k}"
proof (cases "r \<and> fst (get_lsn_from_filename n) = SUCCESS")
  case False
  then have "scan_dir_entry (n, r) m = m" by (cases "get_lsn_from_filename n") (auto simp: scan_dir_entry_def)
  moreover have "\<not> (r \<and> int_fits 64 k \<and> n = log_file_name k)" for k using False by (auto simp: get_lsn_log_file_name)
  ultimately show ?thesis using assms(1) by auto
next
  case True
  then obtain k where k: "int_fits 64 k" "n = log_file_name k" using canon by blast
  have uniq: "{(k, log_file_name k) |k. int_fits 64 k \<and> r \<and> n = log_file_name k} = {(k, n)}"
    using k True log_file_name_inj by blast
  show ?thesis
  proof (cases "k \<in> fst ` set m")
    case in_m: True
    then have "map_of m k \<noteq> None" by (simp add: map_of_eq_None_iff)
    then have "scan_dir_entry (n, r) m = m"
      using k True get_lsn_log_file_name [OF k(1)] by (simp add: scan_dir_entry_def)
    moreover have "(k, n) \<in> set m" using in_m assms(1) k(2) by (force simp: named_def)
    ultimately show ?thesis using assms(1) uniq by auto
  next
    case no: False
    then have "scan_dir_entry (n, r) m = map_emplace k n m"
      using k True get_lsn_log_file_name [OF k(1)] by (auto simp: scan_dir_entry_def map_of_eq_None_iff)
    then show ?thesis
      using no assms(1) k uniq map_emplace_set [of m k n] map_emplace_ascending [of m k n] by (auto simp: named_def)
  qed
qed

lemma scan_dir_set:
  assumes "\<forall>(n, r) \<in> set dir. r \<longrightarrow> fst (get_lsn_from_filename n) = SUCCESS \<longrightarrow> (\<exists>k. int_fits 64 k \<and> n = log_file_name k)"
  shows "named m \<Longrightarrow> named (fold scan_dir_entry dir m) \<and>
    set (fold scan_dir_entry dir m) = set m \<union> {(k, log_file_name k) |k. int_fits 64 k \<and> (log_file_name k, True) \<in> set dir}"
  using assms
proof (induction dir arbitrary: m)
  case (Cons nr dir)
  obtain n r where nr: "nr = (n, r)" by fastforce
  note one = scan_dir_entry_set [OF Cons.prems(1), of r n]
  show ?case using Cons.IH [of "scan_dir_entry (n, r) m"] Cons.prems(2) one nr by auto
qed simp

lemma manager_init_recovers:
  assumes inv: "files_hold d m J D" and dir: "dir_lists dir d"
  shows "manager_init \<lparr>max_entry_number_per_file = 0, log_files = []\<rparr> mk (Some dir) (max_entry_number_per_file m) =
    (SUCCESS, m\<lparr>log_files := filter (\<lambda>kp. d (snd kp) \<noteq> None) (log_files m)\<rparr>)"
proof -
  note I = files_holdD [OF inv]
  let ?new = "fold scan_dir_entry dir []" and ?old = "filter (\<lambda>kp. d (snd kp) \<noteq> None) (log_files m)"
  have canon: "\<forall>(n, r) \<in> set dir. r \<longrightarrow> fst (get_lsn_from_filename n) = SUCCESS \<longrightarrow> (\<exists>k. int_fits 64 k \<and> n = log_file_name k)"
    using dir by (auto simp: dir_lists_def)
  have n: "named ?new" "set ?new = {(k, log_file_name k) |k. int_fits 64 k \<and> (log_file_name k, True) \<in> set dir}"
    using scan_dir_set [OF canon, of "[]"] by (simp_all add: named_def keys_ascending_def)
  have "set ?old = {(k, log_file_name k) |k. int_fits 64 k \<and> d (log_file_name k) \<noteq> None}"
    using I(3,4) by (force simp: holds_range_def)
  then have "set ?new = set ?old" using n(2) dir by (auto simp: dir_lists_def)
  moreover have "keys_ascending ?old"
    using files_hold_ascending [OF inv] by (simp add: keys_ascending_def sorted_wrt_map sorted_wrt_filter)
  ultimately have "?new = ?old" using n(1) by (intro keys_ascending_unique) (simp_all add: named_def)
  then show ?thesis by (simp add: manager_init_def Let_def)
qed

lemma files_hold_existing:
  assumes inv: "files_hold d m J D"
  shows "files_hold d (m\<lparr>log_files := filter (\<lambda>kp. d (snd kp) \<noteq> None) (log_files m)\<rparr>) J D"
proof -
  let ?mx = "max_entry_number_per_file m"
  note I = files_holdD [OF inv]
  have "\<exists>kp \<in> set (log_files m). d (snd kp) \<noteq> None \<and> in_file ?mx (fst kp) e" if e: "e \<in> set D" for e
  proof -
    obtain kp where kp: "kp \<in> set (log_files m)" "in_file ?mx (fst kp) e" using I(5) [OF e] by blast
    then have "d (snd kp) \<noteq> None" using I(3) [OF kp(1)] e
      by (auto simp: holds_range_def filter_empty_conv split: option.splits)
    then show ?thesis using kp by blast
  qed
  then have "\<forall>e \<in> set D. \<exists>kp \<in> set (filter (\<lambda>kp. d (snd kp) \<noteq> None) (log_files m)). in_file ?mx (fst kp) e"
    by fastforce
  moreover have "\<forall>e \<in> set D. entry_ok e" using I(5) by blast
  moreover have junk: "\<forall>k. J k \<noteq> [] \<longrightarrow> (k, log_file_name k) \<in> set (log_files m) \<and> d (log_file_name k) \<noteq> None"
    using I(3) [of "(k, log_file_name k)" for k] I(7) by (fastforce simp: holds_range_def split: option.splits)
  ultimately show ?thesis
    using I(1-4,6) junk unfolding files_hold_def Let_def by (simp add: sorted_wrt_filter)
qed

lemma replay_callback_feed:
  "feed cb es s = (rc, s') \<Longrightarrow> \<exists>mx'. feed (replay_callback cb) es (mx, s) = (rc, mx', s')"
proof (induction es arbitrary: mx s)
  case (Cons e es)
  obtain r s1 where c: "cb e s = (r, s1)" by fastforce
  show ?case
    using Cons.IH [of s1 "if mx < le_lsn e then le_lsn e else mx"] Cons.prems c
    by (auto simp: replay_callback_def split: if_splits)
qed simp

lemma replay_callback_max:
  "feed (replay_callback cb) es (mx, s) = (SUCCESS, mx', s') \<Longrightarrow> sorted_wrt (<) (map le_lsn es) \<Longrightarrow>
   \<forall>e \<in> set es. mx < le_lsn e \<Longrightarrow> mx' = (if es = [] then mx else le_lsn (last es))"
  by (induction es arbitrary: mx s) (auto simp: replay_callback_def split: prod.splits if_splits)

definition recovered :: "bool \<Rightarrow> (string \<times> bool) list \<Rightarrow> DiskLogHandler" where
  \<comment> \<open>a new process: everything in memory is gone, the directory is read again\<close>
  "recovered mk dir = snd (handler_init handler_new mk (Some dir))"

lemma recovered_iterate:
  assumes inv: "files_hold d m J D" and mx: "max_entry_number_per_file m = 1000" and dir: "dir_lists dir d"
    and op: "\<forall>n. d n \<noteq> None \<longrightarrow> op n"
  shows "\<exists>L rcL. (\<forall>cb (s :: 's). handler_iterate op d (recovered mk dir) cb start s =
      feed_end cb (filter (\<lambda>e. start \<le> le_lsn e) D @ L) rcL s) \<and>
    (J = no_junk \<longrightarrow> L = [] \<and> rcL = SUCCESS) \<and> ((\<forall>k. piece_of D (J k)) \<longrightarrow> L = [] \<and> rcL \<in> {SUCCESS, IOERR_READ})"
proof -
  let ?m = "m\<lparr>log_files := filter (\<lambda>kp. d (snd kp) \<noteq> None) (log_files m)\<rparr>"
  have fm: "file_manager (recovered mk dir) = ?m"
    using manager_init_recovers [OF inv dir, of mk] mx by (simp add: recovered_def handler_init_def handler_new_def)
  show ?thesis using files_hold_existing [OF inv] op by (intro handler_iterate_hold) (auto simp: fm)
qed

definition fresh_system :: log_system where
  \<comment> \<open>the handler started on an empty directory\<close>
  "fresh_system = \<lparr>handler = snd (handler_start (recovered True [])), sys_disk = Map.empty, sys_writer = writer_new,
     sys_rc = SUCCESS, sys_pc = At_loop, history = [], torn = False, overrun = None\<rparr>"

lemma fresh_system_inv: "log_inv fresh_system [] [] no_junk \<and> sys_max fresh_system = 1000"
  by (simp add: fresh_system_def recovered_def handler_init_def handler_start_def handler_new_def manager_init_def
      log_inv_def torn_inv_def files_hold_def pending_def in_hand_def lb_new_def writer_new_def writer_inv_def sys_max_def Let_def)

lemma wait_lsn_flushed: "wait_lsn h lsn = Some SUCCESS \<Longrightarrow> lsn \<le> flushed_lsn (entry_buffer h)"
  by (auto simp: wait_lsn_def split: if_splits)

lemma torn_inv_piece:
  assumes "log_inv st D W J" and "overrun st = None"
  shows "piece_of D (J k)"
  using log_invD(7,12) [OF assms(1)] assms(2) by (fastforce simp: torn_inv_def piece_of_def split: if_splits)

lemma log_inv_before_overrun:
  assumes inv: "log_inv st D W J" and "e \<in> set (history st)" and "le_lsn e \<le> flushed_lsn (sys_buffer st)"
    and "\<forall>l. overrun st = Some l \<longrightarrow> le_lsn e \<le> l"
  shows "e \<in> set D"
proof (cases "overrun st")
  case None
  then show ?thesis using log_inv_durable [OF inv assms(2,3)] log_invD(13) [OF inv] by simp
next
  case (Some l)
  then show ?thesis using log_invD(12) [OF inv] assms(2,4) by (simp add: torn_inv_def)
qed

text \<open>A crash in the middle of a write: the disk has any piece of the entry, and nothing else has changed.\<close>

lemma crash_inside_write:
  assumes inv: "log_inv st D W J" and pc: "sys_pc st = Writing e" and room: "le_lsn e \<le> end_lsn (sys_writer st)"
    and k: "k < length (entry_bytes e)"
  shows "\<exists>p st'. w_file (sys_writer st) = Some p \<and> log_step op st st' \<and>
    sys_disk st' = append_file (sys_disk st) p (take k (entry_bytes e)) \<and>
    wait_lsn (handler st') = wait_lsn (handler st) \<and> history st' = history st"
proof -
  note I = log_invD [OF inv] note E = in_hand_facts [OF inv pc]
  have "writer_valid (sys_writer st)" using I(10) pc by (simp add: in_hand_def)
  then obtain p where p: "w_file (sys_writer st) = Some p" by (auto simp: writer_valid_def)
  have "last_lsn (sys_writer st) < le_lsn e" using I(9) E(1) by (simp add: writer_inv_def)
  then obtain os where os: "writer_write (sys_disk st) (sys_writer st) e os =
      Some (IOERR_WRITE, append_file (sys_disk st) p (take k (entry_bytes e)), sys_writer st, [])"
    using writer_write_piece [OF k p _ room E(5)] by blast
  show ?thesis
    by (intro exI conjI, rule p, rule log_step.put_back [OF pc os]) (simp_all add: wait_lsn_def lb_unpop_def fun_eq_iff)
qed

section \<open>Running the step relation\<close>

datatype log_event = Ev_append LogModuleId "byte list" | Ev_stop | Ev_open | Ev_pop | Ev_write "sys_result list" | Ev_drained | Ev_exit

fun run_event :: "(string \<Rightarrow> bool) \<Rightarrow> log_event \<Rightarrow> log_system \<Rightarrow> log_system option" where
  "run_event op (Ev_append module data) st =
     (if int (length data) < 2147483648
      then case handler_append (handler st) 0 (module_index module) data of
             Some (rc, lsn, h) \<Rightarrow>
               if rc = SUCCESS then Some (st\<lparr>handler := h, history := history st @ [last (entries (entry_buffer h))]\<rparr>) else None
           | None \<Rightarrow> None
      else None)"
| "run_event op Ev_stop st =
     (case handler_stop (handler st) of (rc, h) \<Rightarrow> if rc = SUCCESS then Some (st\<lparr>handler := h\<rparr>) else None)"
| "run_event op Ev_open st =
     (if sys_pc st = At_loop \<and> loop_condition st
      then case thread_open op (sys_disk st) (file_manager (handler st)) (sys_writer st) (sys_rc st) of
             (rc, d, m, w) \<Rightarrow>
               Some (st\<lparr>handler := (handler st)\<lparr>file_manager := m\<rparr>, sys_disk := d, sys_writer := w, sys_rc := rc,
                        sys_pc := if OB_FAIL rc then At_loop else Flushing\<rparr>)
      else None)"
| "run_event op Ev_pop st =
     (if sys_pc st = Flushing
      then map_option (\<lambda>(e, b). (with_buffer st b)\<lparr>sys_pc := Writing e\<rparr>) (lb_pop (sys_buffer st)) else None)"
| "run_event op (Ev_write os) st =
     (case sys_pc st of
        Writing e \<Rightarrow>
          (case writer_write (sys_disk st) (sys_writer st) e os of
             None \<Rightarrow> None
           | Some (rc, d, w, os') \<Rightarrow>
               if rc = SUCCESS
               then Some ((with_buffer (note_write st d False) (lb_written (sys_buffer st) e))\<lparr>sys_disk := d, sys_writer := w,
                      sys_pc := Flushing\<rparr>)
               else Some ((with_buffer (note_write st d True) (lb_unpop (sys_buffer st) e))\<lparr>sys_disk := d, sys_writer := w, sys_rc := rc, sys_pc := At_loop\<rparr>))
      | _ \<Rightarrow> None)"
| "run_event op Ev_drained st =
     (if sys_pc st = Flushing \<and> entry_number (sys_buffer st) = 0 then Some (st\<lparr>sys_rc := SUCCESS, sys_pc := At_loop\<rparr>) else None)"
| "run_event op Ev_exit st =
     (if sys_pc st = At_loop \<and> \<not> loop_condition st then Some (st\<lparr>sys_pc := Exited\<rparr>) else None)"

fun run_events :: "(string \<Rightarrow> bool) \<Rightarrow> log_event list \<Rightarrow> log_system \<Rightarrow> log_system option" where
  "run_events op [] st = Some st"
| "run_events op (ev # evs) st = (case run_event op ev st of None \<Rightarrow> None | Some st' \<Rightarrow> run_events op evs st')"

lemma run_event_step: "run_event op ev st = Some st' \<Longrightarrow> log_step op st st'"
proof (induction op ev st rule: run_event.induct)
  case (1 op module data st)
  then show ?case
    using log_step.append [where st = st and openable = op and data = data]
    by (auto split: if_splits option.splits)
next
  case (2 op st)
  then show ?case by (auto split: if_splits prod.splits intro: log_step.stop)
next
  case (3 op st)
  then show ?case using log_step.open_file [of st op] by (auto split: if_splits prod.splits simp del: OB_FAIL_iff)
next
  case (4 op st)
  then show ?case by (auto split: if_splits intro: log_step.pop)
next
  case (5 op os st)
  then show ?case
    using log_step.written [where st = st and os = os and openable = op] log_step.put_back [where st = st and os = os and openable = op]
    by (auto split: if_splits option.splits thread_pc.splits)
next
  case (6 op st)
  then show ?case by (auto split: if_splits intro: log_step.drained)
next
  case (7 op st)
  then show ?case by (auto split: if_splits intro: log_step.exit)
qed

lemma run_events_steps: "run_events op evs st = Some st' \<Longrightarrow> (log_step op)\<^sup>*\<^sup>* st st'"
  by (induction evs arbitrary: st) (auto split: option.splits dest!: run_event_step intro: converse_rtranclp_into_rtranclp)

section \<open>Properties\<close>

text \<open>
  C1: what the log acknowledged survives a restart. Start the handler on an empty directory and let any
  threads append while the background thread opens files, rotates them and writes, in any interleaving; any write may fail after
  any number of bytes, its entry being put back and written again, and the process may end anywhere, also in the middle of a
  write. If \<^verbatim>\<open>wait_lsn(lsn)\<close> has returned \<^verbatim>\<open>SUCCESS\<close>, then a new process that reads the directory and
  iterates over the log is handed first, in order and without change, the entries from the start LSN on of a prefix of everything
  ever appended, and that prefix has every entry up to \<open>lsn\<close> that was acknowledged before anything was written behind
  the torn bytes of a failed write (\<open>overrun\<close>; what the code promises from then on is refuted by \<open>torn_write_corrupts_log\<close>).
  If nothing was written behind torn bytes, it is handed nothing else, and the iteration ends with \<^verbatim>\<open>SUCCESS\<close> or, at the
  torn entry, with \<^verbatim>\<open>IOERR_READ\<close>; if no bytes were left by a failed write, it ends with \<^verbatim>\<open>SUCCESS\<close>. The LSN stays
  below the 32-bit bound of the file writer.
\<close>

theorem acknowledged_log_survives_restart:
  assumes "(log_step op)\<^sup>*\<^sup>* fresh_system st" and "current_lsn (sys_buffer st) < 2147482647"
    and "wait_lsn (handler st) lsn = Some SUCCESS"
    and "dir_lists dir (sys_disk st)" and "\<forall>n. sys_disk st n \<noteq> None \<longrightarrow> op n"
  shows "\<exists>D rest. history st = D @ rest \<and>
    (\<forall>e \<in> set (history st). le_lsn e \<le> lsn \<and> (\<forall>l. overrun st = Some l \<longrightarrow> le_lsn e \<le> l) \<longrightarrow> e \<in> set D) \<and>
    (\<forall>start. \<exists>L rc.
       (\<forall>cb (s :: 's). handler_iterate op (sys_disk st) (recovered mk dir) cb start s =
          feed_end cb (filter (\<lambda>e. start \<le> le_lsn e) D @ L) rc s) \<and>
       (overrun st = None \<longrightarrow> L = [] \<and> rc \<in> {SUCCESS, IOERR_READ}) \<and>
       (\<not> torn st \<longrightarrow> L = [] \<and> rc = SUCCESS))"
proof -
  note f = fresh_system_inv
  obtain D W J where D: "log_inv st D W J" "sys_max st = 1000"
    using log_steps_inv [OF assms(1) conjunct1 [OF f]] assms(2) f by auto
  note I = log_invD [OF D(1)]
  have junk: "overrun st = None \<Longrightarrow> piece_of D (J k)" "\<not> torn st \<Longrightarrow> J = no_junk" for k
    using torn_inv_piece [OF D(1)] I(12) by (auto simp: torn_inv_def split: option.splits if_splits)
  have it: "\<exists>L rc. (\<forall>cb (s :: 's). handler_iterate op (sys_disk st) (recovered mk dir) cb start s =
      feed_end cb (filter (\<lambda>e. start \<le> le_lsn e) D @ L) rc s) \<and>
    (overrun st = None \<longrightarrow> L = [] \<and> rc \<in> {SUCCESS, IOERR_READ}) \<and> (\<not> torn st \<longrightarrow> L = [] \<and> rc = SUCCESS)" for start
    using recovered_iterate [OF I(1) D(2) [unfolded sys_max_def] assms(4,5), of mk start] junk by blast
  have "e \<in> set D" if "e \<in> set (history st)" "le_lsn e \<le> lsn" "\<forall>l. overrun st = Some l \<longrightarrow> le_lsn e \<le> l" for e
    using that log_inv_before_overrun [OF D(1)] wait_lsn_flushed [OF assms(3)] by fastforce
  then show ?thesis using it I(2) by blast
qed

definition demo_events :: "log_event list" where
  \<comment> \<open>two entries appended; the first written after an interrupted call, the second cut off behind its header\<close>
  "demo_events = [Ev_append TRANSACTION [7], Ev_open, Ev_append BUFFER_POOL [8], Ev_pop, Ev_write [Again, Wrote 20, Wrote 1],
     Ev_pop, Ev_write [Wrote 16, Failed]]"

definition demo_system :: log_system where
  "demo_system = the (run_events (\<lambda>_. True) demo_events fresh_system)"

lemma demo_system_run: "run_events (\<lambda>_. True) demo_events fresh_system = Some demo_system"
proof -
  have "run_events (\<lambda>_. True) demo_events fresh_system \<noteq> None" by code_simp
  then show ?thesis by (auto simp: demo_system_def)
qed

lemma demo_system_facts:
  "current_lsn (sys_buffer demo_system) = 2" "wait_lsn (handler demo_system) 1 = Some SUCCESS"
  "map le_lsn (history demo_system) = [1, 2]" "torn demo_system" "overrun demo_system = None"
  by code_simp+

lemma demo_system_disk: "sys_disk demo_system n \<noteq> None \<longleftrightarrow> n = ''clog_0.log''"
proof -
  have nm: "log_file_name 0 = ''clog_0.log''" by code_simp
  show ?thesis
    by (simp add: demo_system_def demo_events_def fresh_system_def recovered_def handler_init_def handler_start_def handler_new_def
      manager_init_def handler_append_def lb_append_def lb_new_def log_entry_init_def log_entry_new_def max_payload_size_def max_size_def
      LOG_HEADER_SIZE_def int32_of_fits int_fits_def loop_condition_def thread_open_def writer_new_def writer_valid_def last_file_def
      next_file_def nm writer_open_cases lb_pop_def writer_write_def entry_number_def set_lsn_def le_lsn_def payload_size_def
      append_file_def note_write_def grown_def lb_unpop_def
      Let_def header_bytes_def int_bytes_code eval_nat_numeral lb_written_def total_size_def moved_from_def)
qed

lemma demo_system_dir: "dir_lists [(''clog_0.log'', True)] (sys_disk demo_system)"
proof -
  have "log_file_name 0 = ''clog_0.log''" by code_simp
  moreover have "int_fits 64 0" by (simp add: int_fits_def)
  ultimately have "\<exists>k. int_fits 64 k \<and> ''clog_0.log'' = log_file_name k" by metis
  then show ?thesis unfolding dir_lists_def demo_system_disk by simp
qed

theorem acknowledged_log_survives_restart_witness:
  "overrun demo_system = None \<and> torn demo_system \<and>
   (\<exists>D rest. history demo_system = D @ rest \<and>
    (\<forall>e \<in> set (history demo_system). le_lsn e \<le> 1 \<and> (\<forall>l. overrun demo_system = Some l \<longrightarrow> le_lsn e \<le> l) \<longrightarrow> e \<in> set D) \<and>
    (\<forall>start. \<exists>L rc.
       (\<forall>cb (s :: nat). handler_iterate (\<lambda>_. True) (sys_disk demo_system) (recovered True [(''clog_0.log'', True)]) cb start s =
          feed_end cb (filter (\<lambda>e. start \<le> le_lsn e) D @ L) rc s) \<and>
       (overrun demo_system = None \<longrightarrow> L = [] \<and> rc \<in> {SUCCESS, IOERR_READ}) \<and>
       (\<not> torn demo_system \<longrightarrow> L = [] \<and> rc = SUCCESS)))"
  using acknowledged_log_survives_restart [OF run_events_steps [OF demo_system_run] _ demo_system_facts(2) demo_system_dir]
    demo_system_facts(1,4,5) by simp

text \<open>
  C18: after \<^verbatim>\<open>replay\<close> a new process goes on from the last entry on disk. If the log files hold the
  entries \<open>D\<close> and the start LSN is not beyond them, a replay whose replayer succeeds leaves current and flushed LSN
  at the LSN of the last entry of \<open>D\<close> (0 for an empty log), so that no LSN is given out twice.
\<close>

theorem replay_resumes_lsn:
  assumes "files_inv d (file_manager h) D" and "\<forall>kp \<in> set (log_files (file_manager h)). d (snd kp) \<noteq> None \<and> op (snd kp)"
    and "\<forall>e \<in> set D. 0 < le_lsn e" and "D = [] \<or> start \<le> le_lsn (last D)"
    and "feed replayer (filter (\<lambda>e. start \<le> le_lsn e) D) s = (SUCCESS, s')"
  shows "\<exists>h'. handler_replay op d h replayer start s = (SUCCESS, h', s') \<and>
    current_lsn (entry_buffer h') = (if D = [] then 0 else le_lsn (last D)) \<and>
    flushed_lsn (entry_buffer h') = current_lsn (entry_buffer h') \<and> file_manager h' = file_manager h"
proof -
  let ?es = "filter (\<lambda>e. start \<le> le_lsn e) D"
  have srt: "sorted_wrt (<) (map le_lsn ?es)" using files_holdD(6) [OF assms(1) [unfolded files_inv_def]] by (simp add: sorted_wrt_map sorted_wrt_filter)
  obtain mx' where mx: "feed (replay_callback replayer) ?es (0, s) = (SUCCESS, mx', s')"
    using replay_callback_feed [OF assms(5)] by blast
  have last: "D \<noteq> [] \<Longrightarrow> ?es \<noteq> [] \<and> last ?es = last D"
  proof -
    assume ne: "D \<noteq> []"
    then have "D = butlast D @ [last D]" by simp
    then have "?es = filter (\<lambda>e. start \<le> le_lsn e) (butlast D) @ [last D]"
      using assms(4) ne by (metis (no_types, lifting) filter.simps(1) filter.simps(2) filter_append)
    then show ?thesis by simp
  qed
  have pos: "\<forall>e \<in> set ?es. 0 < le_lsn e" using assms(3) by simp
  have "mx' = (if ?es = [] then 0 else le_lsn (last ?es))" by (rule replay_callback_max [OF mx srt pos])
  then have "mx' = (if D = [] then 0 else le_lsn (last D))" using last by (cases "D = []") auto
  then show ?thesis
    using mx handler_iterate_feed [OF assms(1,2), of "replay_callback replayer" start "(0, s)"]
    by (simp add: handler_replay_def lb_init_def)
qed

definition demo_entry :: LogEntry where
  "demo_entry = \<lparr>le_header = \<lparr>h_lsn = 5, h_size = 2, h_module_id = 0\<rparr>, le_data = [1, 2]\<rparr>"

definition demo_disk :: disk where
  "demo_disk = [log_file_name 0 \<mapsto> \<lparr>content = log_bytes [demo_entry], bad_byte = None\<rparr>]"

definition demo_handler :: DiskLogHandler where
  "demo_handler = handler_new\<lparr>file_manager := \<lparr>max_entry_number_per_file = 1000, log_files = [(0, log_file_name 0)]\<rparr>\<rparr>"

lemma demo_files_inv: "files_inv demo_disk (file_manager demo_handler) [demo_entry]"
  by (auto simp: files_inv_def files_hold_def demo_handler_def demo_disk_def demo_entry_def holds_range_def in_file_def le_lsn_def entry_ok_def
      int_fits_def readable_def max_payload_size_def max_size_def LOG_HEADER_SIZE_def intro: log_file_name_inj split: if_splits)

theorem replay_resumes_lsn_witness:
  "\<exists>h'. handler_replay (\<lambda>_. True) demo_disk demo_handler (\<lambda>e n. (SUCCESS, Suc n)) 1 0 = (SUCCESS, h', 1) \<and>
    current_lsn (entry_buffer h') = (if [demo_entry] = [] then 0 else le_lsn (last [demo_entry])) \<and>
    flushed_lsn (entry_buffer h') = current_lsn (entry_buffer h') \<and> file_manager h' = file_manager demo_handler"
  by (rule replay_resumes_lsn [OF demo_files_inv]) (simp_all add: demo_handler_def demo_disk_def demo_entry_def le_lsn_def)

text \<open>
  C27: a log entry too long for the header is refused without any effect, and \<^verbatim>\<open>append\<close> on a handler
  with room otherwise gives the entry the next LSN and puts it at the end of the buffer.
\<close>

theorem append_behaviour:
  assumes "running h" and "lb_bytes (entry_buffer h) < max_bytes (entry_buffer h)" and "int (length data) < 2147483648"
  shows "if max_payload_size < int (length data) then handler_append h lsn m data = Some (INVALID_ARGUMENT, lsn, h)
    else \<exists>h'. handler_append h lsn m data = Some (SUCCESS, current_lsn (entry_buffer h) + 1, h') \<and>
      current_lsn (entry_buffer h') = current_lsn (entry_buffer h) + 1 \<and>
      entries (entry_buffer h') = entries (entry_buffer h) @
        [\<lparr>le_header = \<lparr>h_lsn = current_lsn (entry_buffer h) + 1, h_size = int (length data), h_module_id = m\<rparr>, le_data = data\<rparr>]"
proof (cases "max_payload_size < int (length data)")
  case True
  then show ?thesis using lb_append_too_long [OF assms(2) True assms(3)] assms(1) by (simp add: handler_append_def)
next
  case False
  then obtain b where b: "lb_append (entry_buffer h) lsn m data = Some (SUCCESS, current_lsn (entry_buffer h) + 1, b)"
    using assms(2) log_entry_init_ok [of data] by (auto simp: lb_append_def Let_def)
  show ?thesis using lb_append_success [OF b assms(3)] b False assms(1) by (simp add: handler_append_def)
qed

theorem append_behaviour_witness:
  "handler_append (handler fresh_system) 0 3 [1] \<noteq> None \<and>
   (if max_payload_size < int (length [1 :: byte]) then handler_append (handler fresh_system) 0 3 [1] = Some (INVALID_ARGUMENT, 0, handler fresh_system)
    else \<exists>h'. handler_append (handler fresh_system) 0 3 [1] = Some (SUCCESS, current_lsn (sys_buffer fresh_system) + 1, h') \<and>
      current_lsn (entry_buffer h') = current_lsn (sys_buffer fresh_system) + 1 \<and>
      entries (entry_buffer h') = entries (sys_buffer fresh_system) @
        [\<lparr>le_header = \<lparr>h_lsn = current_lsn (sys_buffer fresh_system) + 1, h_size = int (length [1 :: byte]), h_module_id = 3\<rparr>, le_data = [1]\<rparr>])"
proof -
  have "running (handler fresh_system)" "lb_bytes (sys_buffer fresh_system) < max_bytes (sys_buffer fresh_system)"
    "handler_append (handler fresh_system) 0 3 [1] \<noteq> None"
    by code_simp+
  then show ?thesis using append_behaviour [of "handler fresh_system" "[1]" 0 3] by simp
qed

section \<open>Limits of the log\<close>

text \<open>
  A write the device fails after the header leaves 16 bytes behind; the entry is put back and written again, and
  the reader takes the second header for the payload of the first: what was written as \<open>[1, 2]\<close> is read as \<open>[6, 0]\<close>,
  followed by an entry nobody wrote.
\<close>

lemma torn_write_corrupts_log:
  "(case writer_write demo_disk \<lparr>w_file = Some (log_file_name 0), last_lsn = 5, end_lsn = 999\<rparr>
           (set_lsn demo_entry 6) [Wrote 16, Failed] of
      Some (rc, d1, w1, _) \<Rightarrow>
        rc = IOERR_WRITE \<and>
        (case writer_write d1 w1 (set_lsn demo_entry 6) [Wrote 16, Wrote 2] of
           Some (rc', d2, w2, _) \<Rightarrow>
             rc' = SUCCESS \<and>
             handler_iterate (\<lambda>_. True) d2 demo_handler (\<lambda>e es. (SUCCESS, es @ [le_data e])) 6 [] = (SUCCESS, [[6, 0], []])
         | None \<Rightarrow> False)
    | None \<Rightarrow> False)"
  by code_simp

text \<open>
  The same in a run of the log: the thread goes round its loop and writes the second entry of \<open>demo_events\<close> behind its torn
  header; \<^verbatim>\<open>wait_lsn(2)\<close> acknowledges it, and a new process reads \<open>[2]\<close> for its payload \<open>[8]\<close>,
  then an entry nobody wrote, and reports no error.
\<close>

lemma overrun_loses_acknowledged:
  "(case run_events (\<lambda>_. True) (demo_events @ [Ev_open, Ev_pop, Ev_write [Wrote 16, Wrote 1]]) fresh_system of
      Some st \<Rightarrow>
        wait_lsn (handler st) 2 = Some SUCCESS \<and> overrun st = Some 1 \<and> map le_data (history st) = [[7], [8]] \<and>
        handler_iterate (\<lambda>_. True) (sys_disk st) (recovered True [(''clog_0.log'', True)]) (\<lambda>e es. (SUCCESS, es @ [le_data e])) 0 [] =
          (SUCCESS, [[7], [2], []])
    | None \<Rightarrow> False)"
  by code_simp

text \<open>
  From LSN \<open>2 ^ 31\<close> on the bound \<^verbatim>\<open>end_lsn_\<close>, an \<^verbatim>\<open>int\<close>, is negative, and every file the manager makes is full from the start.
\<close>

lemma end_lsn_overflow:
  assumes "writer_open op d w p endl = (SUCCESS, d', w')" and "2147483648 \<le> endl" and "endl < 4294967296" and "0 < le_lsn e"
  shows "writer_write d' w' e os = Some (LOG_FILE_FULL, d', w', os)"
proof -
  have "endl mod 4294967296 = endl" using assms(2,3) by (intro mod_pos_pos_trivial) auto
  then have "int32_of endl < 0" using assms(2,3) by (simp add: int32_of_code Let_def)
  then have "end_lsn w' < le_lsn e" using assms(1,4) by (auto simp: writer_open_def Let_def split: if_splits)
  then show ?thesis by (simp add: writer_write_def)
qed

end
