(* ===== verification/Record_Page.thy ===== *)
theory Record_Page
  imports Bitmap "HOL-Library.Product_Lexorder"
begin

unbundle bit_operations_syntax

text \<open>
  Record identifiers (\<^verbatim>\<open>src/src/observer/storage/record/record.h\<close>) and the slotted record page of
  \<^verbatim>\<open>record_manager.cpp\<close> in row format: header, free-slot bitmap and records of fixed size in one page.

  \<open>page_data\<close> is \<^verbatim>\<open>frame_->data()\<close>; the header, which the code keeps in its first 28 bytes, is a record of its own, and
  every other access is made in \<open>page_data\<close> at the offset the code computes. The result of writing the log record of an
  operation, return code and LSN, is an argument \<open>lg\<close>; an access outside the page or a failed \<^verbatim>\<open>ASSERT\<close> is \<open>None\<close>. Pinning and
  latching of the frame belong to the buffer pool.
\<close>

section \<open>Record identifiers\<close>

datatype RID = RID (page_num: int) (slot_num: int)

definition rid_compare :: "RID \<Rightarrow> RID \<Rightarrow> int" where
  "rid_compare rid1 rid2 =
     (let page_diff = int32_of (page_num rid1 - page_num rid2)
      in if page_diff \<noteq> 0 then page_diff else int32_of (slot_num rid1 - slot_num rid2))"

definition rid_fits :: "RID \<Rightarrow> bool" where
  \<comment> \<open>non-negative numbers of 32 bits, whose differences do not overflow\<close>
  "rid_fits r \<longleftrightarrow> 0 \<le> page_num r \<and> page_num r < 2147483648 \<and> 0 \<le> slot_num r \<and> slot_num r < 2147483648"

instantiation RID :: linorder
begin

definition less_eq_RID :: "RID \<Rightarrow> RID \<Rightarrow> bool" where
  "a \<le> b \<longleftrightarrow> (page_num a, slot_num a) \<le> (page_num b, slot_num b)"

definition less_RID :: "RID \<Rightarrow> RID \<Rightarrow> bool" where
  "a < b \<longleftrightarrow> (page_num a, slot_num a) < (page_num b, slot_num b)"

instance
  by standard (auto simp: less_eq_RID_def less_RID_def RID.expand)

end

lemma rid_compare_fits:
  assumes "rid_fits a" "rid_fits b"
  shows "rid_compare a b = (if page_num a \<noteq> page_num b then page_num a - page_num b else slot_num a - slot_num b)"
  using assms by (simp add: rid_compare_def rid_fits_def int32_of_diff Let_def)

lemma rid_compare_less: "rid_fits a \<Longrightarrow> rid_fits b \<Longrightarrow> rid_compare a b < 0 \<longleftrightarrow> a < b"
  by (auto simp: rid_compare_fits less_RID_def)

lemma rid_compare_zero: "rid_fits a \<Longrightarrow> rid_fits b \<Longrightarrow> rid_compare a b = 0 \<longleftrightarrow> a = b"
  by (auto simp: rid_compare_fits RID.expand)

lemma rid_compare_self: "rid_compare a a = 0"
  by (simp add: rid_compare_def int32_of_def signed_of_def)

text \<open>
  The subtraction of two 32-bit numbers of different sign may overflow; with the wrap-around of the usual compilers the greatest
  page number then comes before page \<open>- 1\<close>.
\<close>

lemma rid_compare_overflow: "rid_compare (RID 2147483647 0) (RID (- 1) 0) = - 2147483648 \<and> RID (- 1) 0 < RID 2147483647 0"
  by (simp add: rid_compare_def int32_of_code less_RID_def)

section \<open>Page layout\<close>

definition PAGE_HEADER_SIZE :: int where
  "PAGE_HEADER_SIZE = 28"

definition BP_PAGE_SIZE :: int where
  "BP_PAGE_SIZE = 1024 * 8 * 8 * 8"

definition BP_PAGE_DATA_SIZE :: int where
  "BP_PAGE_DATA_SIZE = BP_PAGE_SIZE - 4 - 8 - 4"

record PageHeader =
  record_num :: int
  column_num :: int
  record_real_size :: int
  record_size :: int
  record_capacity :: int
  col_idx_offset :: int
  data_offset :: int

record RecordPage =
  page_header :: PageHeader
  page_data :: "byte list"
  frame_page_num :: int
  frame_lsn :: int
  frame_dirty :: bool

definition align8 :: "int \<Rightarrow> int" where
  "align8 n = (n + 7) AND NOT 7"

text \<open>
  The quotient is computed in \<^verbatim>\<open>double\<close>; numerator and \<open>record_size + 0.125\<close> are exact there, and a quotient of integers this
  small that is not itself an integer is further from one than the rounding error.
\<close>

definition page_record_capacity :: "int \<Rightarrow> int \<Rightarrow> int \<Rightarrow> int" where
  "page_record_capacity page_size rec_size fixed_size =
     (8 * (page_size - PAGE_HEADER_SIZE - fixed_size - 1)) sdiv (8 * rec_size + 1)"

definition page_bitmap_size :: "int \<Rightarrow> int" where
  "page_bitmap_size cap = (cap + 7) sdiv 8"

partial_function (option) fix_capacity_loop :: "int \<Rightarrow> int \<Rightarrow> int \<Rightarrow> int option" where
  "fix_capacity_loop rec_size cap last_record_offset =
     (if BP_PAGE_DATA_SIZE < last_record_offset
      then fix_capacity_loop rec_size (cap - 1) (last_record_offset - rec_size)
      else Some cap)"

declare fix_capacity_loop.simps [code]

definition fix_record_capacity :: "PageHeader \<Rightarrow> PageHeader option" where
  "fix_record_capacity h =
     map_option (\<lambda>cap. h\<lparr>record_capacity := cap\<rparr>)
       (fix_capacity_loop (record_size h) (record_capacity h) (data_offset h + record_capacity h * record_size h))"

definition empty_header :: "int \<Rightarrow> int \<Rightarrow> PageHeader" where
  "empty_header rec_size columns =
     (let size8 = align8 rec_size;
          cap = page_record_capacity BP_PAGE_DATA_SIZE size8 (columns * 4);
          idx = align8 (PAGE_HEADER_SIZE + page_bitmap_size cap)
      in \<lparr>record_num = 0, column_num = columns, record_real_size = rec_size, record_size = size8, record_capacity = cap,
          col_idx_offset = idx, data_offset = idx + columns * 4\<rparr>)"

definition set_frame_lsn :: "rc \<times> int \<Rightarrow> RecordPage \<Rightarrow> RecordPage" where
  \<comment> \<open>the frame takes the LSN of a log record that was appended\<close>
  "set_frame_lsn lg p = (if OB_SUCC (fst lg) \<and> 0 < snd lg then p\<lparr>frame_lsn := snd lg\<rparr> else p)"

fun column_index :: "int \<Rightarrow> int \<Rightarrow> int list \<Rightarrow> int list" where
  \<comment> \<open>the end offset of every column\<close>
  "column_index cap acc [] = []"
| "column_index cap acc (len # lens) = (len * cap + acc) # column_index cap (len * cap + acc) lens"

definition init_page_with :: "RecordPage \<Rightarrow> int \<Rightarrow> int \<Rightarrow> (PageHeader \<Rightarrow> byte list) \<Rightarrow> RecordPage option" where
  \<comment> \<open>the common part of the two functions \<^verbatim>\<open>init_empty_page\<close>\<close>
  "init_page_with p rec_size columns idx =
     (case fix_record_capacity (empty_header rec_size columns) of
        None \<Rightarrow> None
      | Some h \<Rightarrow>
          if BP_PAGE_DATA_SIZE < data_offset h + record_capacity h * record_size h then None
          else case mem_write (page_data p) PAGE_HEADER_SIZE (replicate (nat (page_bitmap_size (record_capacity h))) 0) of
            None \<Rightarrow> None
          | Some d \<Rightarrow>
              map_option (\<lambda>d'. p\<lparr>page_header := h, page_data := d'\<rparr>) (mem_write d (col_idx_offset h) (idx h)))"

text \<open>\<open>lens\<close> are the field lengths of the table in PAX format, and none in row format.\<close>

definition init_empty_page :: "RecordPage \<Rightarrow> int \<Rightarrow> int list \<Rightarrow> rc \<times> int \<Rightarrow> (rc \<times> RecordPage) option" where
  "init_empty_page p rec_size lens lg =
     map_option (\<lambda>p'. (fst lg, set_frame_lsn lg p'))
       (init_page_with p rec_size (int (length lens))
          (\<lambda>h. concat (map (int_bytes 4) (column_index (record_capacity h) 0 lens))))"

definition init_empty_page_data :: "RecordPage \<Rightarrow> int \<Rightarrow> int \<Rightarrow> byte list \<Rightarrow> (rc \<times> RecordPage) option" where
  "init_empty_page_data p rec_size columns col_idx_data =
     (case mem_read col_idx_data 0 (columns * 4) of
        None \<Rightarrow> None
      | Some idx \<Rightarrow> map_option (Pair SUCCESS) (init_page_with p rec_size columns (\<lambda>_. idx)))"

section \<open>Operations of a row page\<close>

definition page_bitmap :: "RecordPage \<Rightarrow> bitmap" where
  "page_bitmap p = bitmap_init (drop (nat PAGE_HEADER_SIZE) (page_data p)) (record_capacity (page_header p))"

definition with_bitmap :: "RecordPage \<Rightarrow> bitmap \<Rightarrow> RecordPage" where
  "with_bitmap p bm = p\<lparr>page_data := take (nat PAGE_HEADER_SIZE) (page_data p) @ bits bm\<rparr>"

definition add_record_num :: "int \<Rightarrow> RecordPage \<Rightarrow> RecordPage" where
  "add_record_num k p = p\<lparr>page_header := (page_header p)\<lparr>record_num := record_num (page_header p) + k\<rparr>\<rparr>"

definition get_record_data :: "RecordPage \<Rightarrow> int \<Rightarrow> int" where
  "get_record_data p slot = data_offset (page_header p) + record_size (page_header p) * slot"

definition write_record_data :: "RecordPage \<Rightarrow> int \<Rightarrow> byte list \<Rightarrow> RecordPage option" where
  \<comment> \<open>\<^verbatim>\<open>memcpy(get_record_data(slot), data, record_real_size)\<close>\<close>
  "write_record_data p slot data =
     (case mem_read data 0 (record_real_size (page_header p)) of
        None \<Rightarrow> None
      | Some bs \<Rightarrow> map_option (\<lambda>d. p\<lparr>page_data := d\<rparr>) (mem_write (page_data p) (get_record_data p slot) bs))"

definition mark_dirty :: "RecordPage \<Rightarrow> RecordPage" where
  "mark_dirty p = p\<lparr>frame_dirty := True\<rparr>"

definition is_full :: "RecordPage \<Rightarrow> bool" where
  "is_full p \<longleftrightarrow> record_capacity (page_header p) \<le> record_num (page_header p)"

definition insert_record :: "bool \<Rightarrow> RecordPage \<Rightarrow> byte list \<Rightarrow> rc \<times> int \<Rightarrow> (rc \<times> RID option \<times> RecordPage) option" where
  "insert_record readonly p data lg =
     (if readonly then None
      else if record_num (page_header p) = record_capacity (page_header p) then Some (RECORD_NOMEM, None, p)
      else case next_unsetted_bit (page_bitmap p) 0 of
        None \<Rightarrow> None
      | Some index \<Rightarrow>
          (case set_bit (page_bitmap p) index of
             None \<Rightarrow> None
           | Some bm \<Rightarrow>
               map_option (\<lambda>p'. (SUCCESS, Some (RID (frame_page_num p) index), mark_dirty p'))
                 (write_record_data (set_frame_lsn lg (add_record_num 1 (with_bitmap p bm))) index data)))"

definition recover_insert_record :: "RecordPage \<Rightarrow> byte list \<Rightarrow> RID \<Rightarrow> (rc \<times> RecordPage) option" where
  "recover_insert_record p data rid =
     (if record_capacity (page_header p) \<le> slot_num rid then Some (RECORD_INVALID_RID, p)
      else case get_bit (page_bitmap p) (slot_num rid) of
        None \<Rightarrow> None
      | Some b \<Rightarrow>
          (case (if b then Some p else map_option (\<lambda>bm. add_record_num 1 (with_bitmap p bm)) (set_bit (page_bitmap p) (slot_num rid))) of
             None \<Rightarrow> None
           | Some p1 \<Rightarrow> map_option (\<lambda>p'. (SUCCESS, mark_dirty p')) (write_record_data p1 (slot_num rid) data)))"

definition delete_record :: "bool \<Rightarrow> RecordPage \<Rightarrow> RID \<Rightarrow> rc \<times> int \<Rightarrow> (rc \<times> RecordPage) option" where
  "delete_record readonly p rid lg =
     (if readonly then None
      else case get_bit (page_bitmap p) (slot_num rid) of
        None \<Rightarrow> None
      | Some b \<Rightarrow>
          if b then map_option (\<lambda>bm. (SUCCESS, set_frame_lsn lg (mark_dirty (add_record_num (- 1) (with_bitmap p bm)))))
                      (clear_bit (page_bitmap p) (slot_num rid))
          else Some (RECORD_NOT_EXIST, p))"

definition update_record :: "bool \<Rightarrow> RecordPage \<Rightarrow> RID \<Rightarrow> byte list \<Rightarrow> rc \<times> int \<Rightarrow> (rc \<times> RecordPage) option" where
  "update_record readonly p rid data lg =
     (if readonly then None
      else if record_capacity (page_header p) \<le> slot_num rid then Some (INVALID_ARGUMENT, p)
      else case get_bit (page_bitmap p) (slot_num rid) of
        None \<Rightarrow> None
      | Some b \<Rightarrow>
          if b then map_option (\<lambda>p'. (SUCCESS, set_frame_lsn lg p')) (write_record_data (mark_dirty p) (slot_num rid) data)
          else Some (RECORD_NOT_EXIST, p))"

definition get_record :: "RecordPage \<Rightarrow> RID \<Rightarrow> (rc \<times> (RID \<times> byte list) option) option" where
  "get_record p rid =
     (if record_capacity (page_header p) \<le> slot_num rid then Some (RECORD_INVALID_RID, None)
      else case get_bit (page_bitmap p) (slot_num rid) of
        None \<Rightarrow> None
      | Some b \<Rightarrow>
          if \<not> b then Some (RECORD_NOT_EXIST, None)
          else map_option (\<lambda>bs. (SUCCESS, Some (rid, bs)))
                 (mem_read (page_data p) (get_record_data p (slot_num rid)) (record_real_size (page_header p))))"

section \<open>Iterating over a page\<close>

record RecordPageIterator =
  it_bitmap :: bitmap
  next_slot_num :: int

definition iterator_init :: "RecordPage \<Rightarrow> int \<Rightarrow> RecordPageIterator option" where
  "iterator_init p start =
     map_option (\<lambda>n. \<lparr>it_bitmap = page_bitmap p, next_slot_num = n\<rparr>) (next_setted_bit (page_bitmap p) start)"

definition has_next :: "RecordPageIterator \<Rightarrow> bool" where
  "has_next it \<longleftrightarrow> next_slot_num it \<noteq> - 1"

definition iterator_next ::
  "RecordPage \<Rightarrow> RecordPageIterator \<Rightarrow> RID \<times> byte list \<Rightarrow> (rc \<times> (RID \<times> byte list) \<times> RecordPageIterator) option" where
  \<comment> \<open>the record there was stays when \<^verbatim>\<open>get_record\<close> fails\<close>
  "iterator_next p it old =
     (case get_record p (RID (frame_page_num p) (next_slot_num it)) of
        None \<Rightarrow> None
      | Some (_, r) \<Rightarrow>
          let rec = (case r of Some x \<Rightarrow> x | None \<Rightarrow> old); code = (if slot_num (fst rec) \<noteq> - 1 then SUCCESS else RECORD_EOF)
          in if 0 \<le> next_slot_num it
             then map_option (\<lambda>n. (code, rec, it\<lparr>next_slot_num := n\<rparr>)) (next_setted_bit (it_bitmap it) (next_slot_num it + 1))
             else Some (code, rec, it))"

partial_function (option) scan_page ::
  "RecordPage \<Rightarrow> RecordPageIterator \<Rightarrow> RID \<times> byte list \<Rightarrow> (RID \<times> byte list) list \<Rightarrow> (rc \<times> (RID \<times> byte list) list) option" where
  \<comment> \<open>the loop of \<^verbatim>\<open>RecordFileScanner::fetch_next_record_in_page\<close> with neither filter nor transaction, run to the end of the page\<close>
  "scan_page p it old acc =
     (if has_next it
      then case iterator_next p it old of
             None \<Rightarrow> None
           | Some (rc, rec, it') \<Rightarrow> if rc \<noteq> SUCCESS then Some (rc, acc) else scan_page p it' rec (acc @ [rec])
      else Some (RECORD_EOF, acc))"

declare scan_page.simps [code]

section \<open>The invariant and the records of a page\<close>

definition slot_taken :: "RecordPage \<Rightarrow> nat \<Rightarrow> bool" where
  "slot_taken p i \<longleftrightarrow> int i < record_capacity (page_header p) \<and> setted (page_bitmap p) i"

definition slots :: "RecordPage \<Rightarrow> nat \<rightharpoonup> byte list" where
  \<comment> \<open>what the page stores: a map from slots to record bytes\<close>
  "slots p i =
     (if slot_taken p i
      then Some (slice (page_data p) (nat (get_record_data p (int i))) (nat (record_real_size (page_header p)))) else None)"

definition page_wf :: "RecordPage \<Rightarrow> bool" where
  "page_wf p \<longleftrightarrow>
     (let h = page_header p
      in 0 \<le> record_capacity h \<and> 0 < record_real_size h \<and> record_real_size h \<le> record_size h \<and>
         PAGE_HEADER_SIZE + page_bitmap_size (record_capacity h) \<le> data_offset h \<and>
         data_offset h + record_capacity h * record_size h \<le> int (length (page_data p)) \<and>
         record_num h = int (card {i. slot_taken p i}))"

lemma page_bitmap_size_div: "0 \<le> n \<Longrightarrow> page_bitmap_size n = (n + 7) div 8"
  by (simp add: page_bitmap_size_def signed_divide_int_def sgn_if)

lemma bytes_div: "0 \<le> n \<Longrightarrow> bytes n = (n + 7) div 8"
  by (simp add: bytes_nonneg)

lemma page_wf_nat:
  assumes "page_wf p"
  obtains c s r ofs where "record_capacity (page_header p) = int c" "record_size (page_header p) = int s"
    "record_real_size (page_header p) = int r" "data_offset (page_header p) = int ofs" "0 < r" "r \<le> s"
    "28 + (c + 7) div 8 \<le> ofs" "ofs + c * s \<le> length (page_data p)" "record_num (page_header p) = int (card {i. slot_taken p i})"
proof -
  define h where "h = page_header p"
  have w: "0 \<le> record_capacity h" "0 < record_real_size h" "record_real_size h \<le> record_size h"
    "28 + (record_capacity h + 7) div 8 \<le> data_offset h"
    "data_offset h + record_capacity h * record_size h \<le> int (length (page_data p))"
    "record_num h = int (card {i. slot_taken p i})"
    using assms page_bitmap_size_div [of "record_capacity h"] by (auto simp: page_wf_def Let_def h_def PAGE_HEADER_SIZE_def)
  obtain c where c: "record_capacity h = int c" using w(1) by (metis nonneg_int_cases)
  obtain s where s: "record_size h = int s" using w(2,3) by (metis nonneg_int_cases order.strict_implies_order order.trans)
  obtain r where r: "record_real_size h = int r" using w(2) by (metis nonneg_int_cases order.strict_implies_order)
  have "0 \<le> (record_capacity h + 7) div 8" using w(1) by simp
  then obtain ofs where o: "data_offset h = int ofs" using w(4) by (metis add_nonneg_nonneg nonneg_int_cases order.trans zero_le_numeral)
  have "28 + (c + 7) div 8 \<le> ofs" using w(4) unfolding c o by (simp flip: of_nat_le_iff [where ?'a = int] add: zdiv_int)
  moreover have "ofs + c * s \<le> length (page_data p)"
    using w(5) unfolding c s o by (simp flip: of_nat_le_iff [where ?'a = int])
  ultimately show ?thesis using that c s r o w(2,3,6) by (simp add: h_def)
qed

lemma slot_byte:
  assumes "28 \<le> length (page_data p)" and "28 + i div 8 < length (page_data p)"
  shows "setted (page_bitmap p) i \<longleftrightarrow> bit (page_data p ! (28 + i div 8)) (i mod 8)"
  using assms by (simp add: setted_def page_bitmap_def bitmap_init_def PAGE_HEADER_SIZE_def)

lemma slot_byte_bound: "i < c \<Longrightarrow> 28 + (c + 7) div 8 \<le> ofs \<Longrightarrow> 28 + i div 8 < (ofs :: nat)"
  by linarith

lemma slot_end_bound:
  assumes "i < (c :: nat)" and "r \<le> s"
  shows "ofs + s * i + r \<le> ofs + c * s"
proof -
  have "s * i + r \<le> s * Suc i" using assms(2) by simp
  also have "\<dots> \<le> s * c" using assms(1) by (intro mult_le_mono2) simp
  finally show ?thesis by (simp add: mult.commute)
qed

lemma page_bm_wf:
  assumes "page_wf p"
  shows "bm_wf (page_bitmap p)"
proof -
  obtain c s r ofs where w: "record_capacity (page_header p) = int c" "28 + (c + 7) div 8 \<le> ofs" "ofs + c * s \<le> length (page_data p)"
    using page_wf_nat [OF assms] by metis
  have "bytes (int c) = int ((c + 7) div 8)" by (simp add: bytes_div zdiv_int)
  moreover have "(c + 7) div 8 \<le> length (page_data p) - 28" using w(2,3) by linarith
  ultimately show ?thesis using w(1) by (simp add: bm_wf_def page_bitmap_def bitmap_init_def PAGE_HEADER_SIZE_def)
qed

lemma slots_nat:
  assumes "record_capacity (page_header p) = int c" "record_size (page_header p) = int s"
    "record_real_size (page_header p) = int r" "data_offset (page_header p) = int ofs"
  shows "slots p i = (if slot_taken p i then Some (slice (page_data p) (ofs + s * i) r) else None)"
  using assms by (simp add: slots_def get_record_data_def flip: of_nat_mult of_nat_add)

text \<open>Changing one byte of the bitmap leaves the record area alone.\<close>

definition same_layout :: "RecordPage \<Rightarrow> RecordPage \<Rightarrow> bool" where
  "same_layout p q \<longleftrightarrow> record_capacity (page_header q) = record_capacity (page_header p) \<and>
     record_size (page_header q) = record_size (page_header p) \<and> record_real_size (page_header q) = record_real_size (page_header p) \<and>
     data_offset (page_header q) = data_offset (page_header p) \<and> column_num (page_header q) = column_num (page_header p) \<and>
     col_idx_offset (page_header q) = col_idx_offset (page_header p) \<and> length (page_data q) = length (page_data p) \<and>
     frame_page_num q = frame_page_num p"

lemma slots_bitmap_update:
  assumes wf: "page_wf p" and i: "int i < record_capacity (page_header p)" and lay: "same_layout p q"
    and d: "page_data q = (page_data p)[28 + i div 8 := b]"
    and b: "\<And>k. k < 8 \<Longrightarrow> bit b k = (if k = i mod 8 then v else bit (page_data p ! (28 + i div 8)) k)"
  shows "slot_taken q j \<longleftrightarrow> (if j = i then v else slot_taken p j)"
    and "j \<noteq> i \<Longrightarrow> slots q j = slots p j"
proof -
  obtain c s r ofs where w: "record_capacity (page_header p) = int c" "record_size (page_header p) = int s"
    "record_real_size (page_header p) = int r" "data_offset (page_header p) = int ofs" "0 < r" "r \<le> s"
    "28 + (c + 7) div 8 \<le> ofs" "ofs + c * s \<le> length (page_data p)"
    using page_wf_nat [OF wf] by metis
  have ic: "i < c" using i w(1) by simp
  have bnd: "28 + j div 8 < length (page_data p)" if "j < c" for j using slot_byte_bound [OF that w(7)] w(8) by linarith
  have len: "28 \<le> length (page_data p)" using w(7,8) by linarith
  have st: "setted (page_bitmap q) j \<longleftrightarrow> (if j = i then v else setted (page_bitmap p) j)" if "j < c" for j
  proof -
    have "setted (page_bitmap q) j \<longleftrightarrow> bit (page_data q ! (28 + j div 8)) (j mod 8)"
      using slot_byte [of q j] len bnd [OF that] d by simp
    also have "\<dots> \<longleftrightarrow> (if j = i then v else bit (page_data p ! (28 + j div 8)) (j mod 8))"
    proof (cases "i div 8 = j div 8")
      case True
      then show ?thesis using b [of "j mod 8"] bnd [OF ic] div_mod_8_eq [of i j] unfolding d by auto
    next
      case False
      then show ?thesis unfolding d by auto
    qed
    finally show ?thesis using slot_byte [of p j] len bnd [OF that] by simp
  qed
  then show taken: "slot_taken q j \<longleftrightarrow> (if j = i then v else slot_taken p j)" for j
    using lay w(1) i by (auto simp: slot_taken_def same_layout_def)
  show "slots q j = slots p j" if "j \<noteq> i"
  proof (cases "slot_taken p j")
    case True
    then have "j < c" using w(1) by (simp add: slot_taken_def)
    have "slice (page_data q) (ofs + s * j) r = slice (page_data p) (ofs + s * j) r"
      using slot_byte_bound [OF ic w(7)] slot_end_bound [OF \<open>j < c\<close> w(6), of ofs] w(8) unfolding d
      by (intro nth_equalityI) auto
    then show ?thesis
      using slots_nat [OF w(1-4)] slots_nat [of q c s r ofs] lay w(1-4) taken [of j] that by (simp add: same_layout_def)
  next
    case False
    then show ?thesis using taken [of j] that by (simp add: slots_def)
  qed
qed

lemma write_record_data_slots:
  assumes wf: "page_wf p" and i: "int i < record_capacity (page_header p)" and len: "record_real_size (page_header p) \<le> int (length data)"
  shows "\<exists>q. write_record_data p (int i) data = Some q \<and> page_header q = page_header p \<and> length (page_data q) = length (page_data p) \<and>
    frame_page_num q = frame_page_num p \<and> frame_lsn q = frame_lsn p \<and> frame_dirty q = frame_dirty p \<and>
    (\<forall>j. slot_taken q j = slot_taken p j) \<and>
    (\<forall>j. slots q j = (if j = i \<and> slot_taken p i then Some (take (nat (record_real_size (page_header p))) data) else slots p j))"
proof -
  obtain c s r ofs where w: "record_capacity (page_header p) = int c" "record_size (page_header p) = int s"
    "record_real_size (page_header p) = int r" "data_offset (page_header p) = int ofs" "0 < r" "r \<le> s"
    "28 + (c + 7) div 8 \<le> ofs" "ofs + c * s \<le> length (page_data p)"
    using page_wf_nat [OF wf] by metis
  have ic: "i < c" using i w(1) by simp
  have rl: "r \<le> length data" using len w(3) by simp
  have bnd: "28 + j div 8 < length (page_data p)" if "j < c" for j using slot_byte_bound [OF that w(7)] w(8) by linarith
  let ?d = "splice (page_data p) (ofs + s * i) (take r data)"
  let ?q = "p\<lparr>page_data := ?d\<rparr>"
  have e: "ofs + s * i + length (take r data) \<le> length (page_data p)" using slot_end_bound [OF ic w(6), of ofs] w(8) rl by simp
  have off: "get_record_data p (int i) = int (ofs + s * i)" using w by (simp add: get_record_data_def)
  have rd: "mem_read data 0 (int r) = Some (take r data)" using rl mem_read_nat [of 0 r data] by (simp add: slice_def)
  have wr: "write_record_data p (int i) data = Some ?q"
    using e by (simp add: write_record_data_def w(3) rd off mem_write_nat del: of_nat_add of_nat_mult)
  have st: "setted (page_bitmap ?q) j = setted (page_bitmap p) j" if "j < c" for j
  proof -
    have "?d ! (28 + j div 8) = page_data p ! (28 + j div 8)"
      using slot_byte_bound [OF that w(7)] bnd [OF that] e by (subst nth_splice) auto
    then show ?thesis
      using slot_byte [of p j] slot_byte [of ?q j] bnd [OF that] e w(7,8) by simp
  qed
  then have taken: "slot_taken ?q j = slot_taken p j" for j using w(1) by (auto simp: slot_taken_def)
  have sl: "slots ?q j = (if j = i \<and> slot_taken p i then Some (take r data) else slots p j)" for j
  proof (cases "slot_taken p j")
    case True
    then have jc: "j < c" using w(1) by (simp add: slot_taken_def)
    have "slice ?d (ofs + s * j) r = (if j = i then take r data else slice (page_data p) (ofs + s * j) r)"
    proof (cases "j = i")
      case True
      then show ?thesis using slice_splice_same [OF e] rl by simp
    next
      case False
      then have "ofs + s * j + r \<le> ofs + s * i \<or> ofs + s * i + r \<le> ofs + s * j"
        using w(6) by (metis add_le_mono1 add_le_cancel_left linorder_neqE_nat mult_Suc_right Suc_leI mult_le_mono2
            order.trans add.commute add.assoc nat_add_left_cancel_le)
      then show ?thesis using False slice_splice_other [OF e, of "ofs + s * j" r] slot_end_bound [OF jc w(6), of ofs] w(8) rl by auto
    qed
    then show ?thesis
      using slots_nat [OF w(1-4), of j] slots_nat [of ?q c s r ofs j] w(1-4) taken [of j] True by auto
  next
    case False
    then show ?thesis using taken [of j] by (auto simp: slots_def)
  qed
  show ?thesis using wr e taken sl w(3) by auto
qed

lemma slot_taken_finite: "finite {i. slot_taken p i}"
  by (rule finite_subset [of _ "{..< nat (record_capacity (page_header p))}"]) (auto simp: slot_taken_def)

lemma byte_or_bit: "i < 8 \<Longrightarrow> k < 8 \<Longrightarrow> bit ((b :: byte) OR push_bit i 1) k = (if k = i then True else bit b k)"
  by (auto simp: bit_simps)

lemma byte_andnot_bit: "i < 8 \<Longrightarrow> k < 8 \<Longrightarrow> bit ((b :: byte) AND NOT (push_bit i 1)) k = (if k = i then False else bit b k)"
  by (auto simp: bit_simps)

text \<open>One bit of the bitmap set or cleared, with the count kept, keeps the invariant.\<close>

lemma bitmap_byte_index:
  assumes "page_wf p" and "int i < record_capacity (page_header p)"
  shows "28 + i div 8 < length (page_data p)" and "i div 8 < length (bits (page_bitmap p))"
proof -
  obtain c s r ofs where w: "record_capacity (page_header p) = int c" "28 + (c + 7) div 8 \<le> ofs" "ofs + c * s \<le> length (page_data p)"
    using page_wf_nat [OF assms(1)] by metis
  have "i < c" using assms(2) w(1) by simp
  then show 1: "28 + i div 8 < length (page_data p)" using slot_byte_bound [OF _ w(2)] w(3) by fastforce
  then show "i div 8 < length (bits (page_bitmap p))" by (simp add: page_bitmap_def bitmap_init_def PAGE_HEADER_SIZE_def)
qed

lemma page_bitmap_byte:
  "28 + k < length (page_data p) \<Longrightarrow> bits (page_bitmap p) ! k = page_data p ! (28 + k)"
  by (simp add: page_bitmap_def bitmap_init_def PAGE_HEADER_SIZE_def)

lemma with_bitmap_data:
  assumes "28 + k < length (page_data p)" and "bits bm = (bits (page_bitmap p))[k := b]"
  shows "page_data (with_bitmap p bm) = (page_data p)[28 + k := b]"
proof -
  have "page_data p = take 28 (page_data p) @ drop 28 (page_data p)" by simp
  then have "(page_data p)[28 + k := b] = take 28 (page_data p) @ (drop 28 (page_data p))[k := b]"
    using assms(1) by (metis (no_types, lifting) add_diff_cancel_left' length_take list_update_append less_imp_le min.absorb2 not_add_less1 le_add1 order.trans)
  then show ?thesis using assms(2) by (simp add: with_bitmap_def page_bitmap_def bitmap_init_def PAGE_HEADER_SIZE_def)
qed

lemma flip_slot:
  assumes wf: "page_wf p" and i: "int i < record_capacity (page_header p)" and v: "slot_taken p i \<noteq> v"
    and d: "page_data q = (page_data p)[28 + i div 8 := b]"
    and b: "\<And>k. k < 8 \<Longrightarrow> bit b k = (if k = i mod 8 then v else bit (page_data p ! (28 + i div 8)) k)"
    and h: "page_header q = (page_header p)\<lparr>record_num := record_num (page_header p) + (if v then 1 else - 1)\<rparr>"
    and n: "frame_page_num q = frame_page_num p"
  shows "page_wf q" and "same_layout p q" and "slot_taken q j \<longleftrightarrow> (if j = i then v else slot_taken p j)"
    and "j \<noteq> i \<Longrightarrow> slots q j = slots p j"
proof -
  show lay: "same_layout p q" using h d n by (simp add: same_layout_def)
  note u = slots_bitmap_update [OF wf i lay d b]
  show taken: "slot_taken q j \<longleftrightarrow> (if j = i then v else slot_taken p j)" for j by (rule u(1))
  show "j \<noteq> i \<Longrightarrow> slots q j = slots p j" by (rule u(2))
  have "int (card {j. slot_taken q j}) = int (card {j. slot_taken p j}) + (if v then 1 else - 1)"
  proof (cases v)
    case True
    then have "{j. slot_taken q j} = insert i {j. slot_taken p j}" "i \<notin> {j. slot_taken p j}" using taken v by auto
    then show ?thesis using True slot_taken_finite [of p] by simp
  next
    case False
    then have "{j. slot_taken p j} = insert i {j. slot_taken q j}" "i \<notin> {j. slot_taken q j}" using taken v by auto
    then have "card {j. slot_taken p j} = Suc (card {j. slot_taken q j})" using slot_taken_finite [of q] by simp
    then show ?thesis using False by simp
  qed
  then show "page_wf q" using wf h d unfolding page_wf_def Let_def by simp
qed

lemma set_slot:
  assumes wf: "page_wf p" and i: "int i < record_capacity (page_header p)" and free: "\<not> slot_taken p i"
  shows "\<exists>bm. set_bit (page_bitmap p) (int i) = Some bm \<and>
    (let q = add_record_num 1 (with_bitmap p bm)
     in page_wf q \<and> same_layout p q \<and> (\<forall>j. slot_taken q j \<longleftrightarrow> j = i \<or> slot_taken p j) \<and> (\<forall>j. j \<noteq> i \<longrightarrow> slots q j = slots p j))"
proof -
  note ix = bitmap_byte_index [OF wf i]
  let ?b = "page_data p ! (28 + i div 8) OR push_bit (i mod 8) 1"
  let ?bm = "(page_bitmap p)\<lparr>bits := (bits (page_bitmap p))[i div 8 := ?b]\<rparr>"
  have sb: "set_bit (page_bitmap p) (int i) = Some ?bm" using ix page_bitmap_byte [OF ix(1)] by (simp add: set_bit_def Let_def)
  let ?q = "add_record_num 1 (with_bitmap p ?bm)"
  have "page_data ?q = (page_data p)[28 + i div 8 := ?b]" using with_bitmap_data [OF ix(1)] by (simp add: add_record_num_def)
  moreover have "bit ?b k = (if k = i mod 8 then True else bit (page_data p ! (28 + i div 8)) k)" if "k < 8" for k
    using byte_or_bit [of "i mod 8" k] that by simp
  moreover have "page_header ?q = (page_header p)\<lparr>record_num := record_num (page_header p) + (if True then 1 else - 1)\<rparr>"
    "frame_page_num ?q = frame_page_num p"
    by (simp_all add: add_record_num_def with_bitmap_def)
  ultimately show ?thesis using sb flip_slot [OF wf i, of True ?q ?b] free by (auto simp: Let_def)
qed

lemma clear_slot:
  assumes wf: "page_wf p" and taken: "slot_taken p i"
  shows "\<exists>bm. clear_bit (page_bitmap p) (int i) = Some bm \<and>
    (let q = add_record_num (- 1) (with_bitmap p bm)
     in page_wf q \<and> same_layout p q \<and> (\<forall>j. slot_taken q j \<longleftrightarrow> j \<noteq> i \<and> slot_taken p j) \<and> (\<forall>j. j \<noteq> i \<longrightarrow> slots q j = slots p j))"
proof -
  have i: "int i < record_capacity (page_header p)" using taken by (simp add: slot_taken_def)
  note ix = bitmap_byte_index [OF wf i]
  let ?b = "page_data p ! (28 + i div 8) AND NOT (push_bit (i mod 8) 1)"
  let ?bm = "(page_bitmap p)\<lparr>bits := (bits (page_bitmap p))[i div 8 := ?b]\<rparr>"
  have sb: "clear_bit (page_bitmap p) (int i) = Some ?bm" using ix page_bitmap_byte [OF ix(1)] by (simp add: clear_bit_def Let_def)
  let ?q = "add_record_num (- 1) (with_bitmap p ?bm)"
  have "page_data ?q = (page_data p)[28 + i div 8 := ?b]" using with_bitmap_data [OF ix(1)] by (simp add: add_record_num_def)
  moreover have "bit ?b k = (if k = i mod 8 then False else bit (page_data p ! (28 + i div 8)) k)" if "k < 8" for k
    using byte_andnot_bit [of "i mod 8" k] that by simp
  moreover have "page_header ?q = (page_header p)\<lparr>record_num := record_num (page_header p) + (if False then 1 else - 1)\<rparr>"
    "frame_page_num ?q = frame_page_num p"
    by (simp_all add: add_record_num_def with_bitmap_def)
  ultimately show ?thesis using sb flip_slot [OF wf i, of False ?q ?b] taken by (auto simp: Let_def)
qed

lemma get_slot_bit:
  assumes "page_wf p" and "int i < record_capacity (page_header p)"
  shows "get_bit (page_bitmap p) (int i) = Some (slot_taken p i)"
  using get_bit_setted [OF bitmap_byte_index(2) [OF assms]] assms(2) by (simp add: slot_taken_def)

lemma free_slot_exists:
  assumes wf: "page_wf p" and "record_num (page_header p) \<noteq> record_capacity (page_header p)"
  shows "\<exists>i. next_unsetted_bit (page_bitmap p) 0 = Some (int i) \<and> int i < record_capacity (page_header p) \<and> \<not> slot_taken p i \<and>
    (\<forall>j<i. slot_taken p j)"
proof -
  let ?c = "nat (record_capacity (page_header p))"
  have c: "0 \<le> record_capacity (page_header p)" "record_num (page_header p) = int (card {i. slot_taken p i})"
    using wf by (simp_all add: page_wf_def Let_def)
  obtain r where r: "next_unsetted_bit (page_bitmap p) 0 = Some r" "least_at (\<lambda>i. \<not> setted (page_bitmap p) i) 0 ?c r"
    using next_unsetted_bit_least [OF page_bm_wf [OF wf], of 0] by (auto simp: page_bitmap_def bitmap_init_def)
  have "r \<noteq> - 1"
  proof
    assume "r = - 1"
    then have "{i. slot_taken p i} = {..< ?c}" using r(2) c(1) by (auto simp: least_at_def slot_taken_def)
    then show False using assms(2) c by simp
  qed
  then show ?thesis using r c(1) by (auto simp: least_at_def slot_taken_def)
qed

lemmas frame_simps = set_frame_lsn_def mark_dirty_def

lemma slot_taken_frame [simp]:
  "slot_taken (set_frame_lsn lg p) = slot_taken p" "slot_taken (mark_dirty p) = slot_taken p"
  "slots (set_frame_lsn lg p) = slots p" "slots (mark_dirty p) = slots p"
  "page_wf (set_frame_lsn lg p) = page_wf p" "page_wf (mark_dirty p) = page_wf p"
  "page_header (set_frame_lsn lg p) = page_header p" "page_header (mark_dirty p) = page_header p"
  "page_bitmap (mark_dirty p) = page_bitmap p"
  by (auto simp: frame_simps fun_eq_iff slots_def slot_taken_def page_bitmap_def page_wf_def get_record_data_def Let_def)

lemma set_frame_lsn_simps [simp]:
  "frame_page_num (set_frame_lsn lg p) = frame_page_num p" "page_data (set_frame_lsn lg p) = page_data p"
  by (simp_all add: set_frame_lsn_def)

lemma frame_lsn_set: "frame_lsn (set_frame_lsn lg p) = (if fst lg = SUCCESS \<and> 0 < snd lg then snd lg else frame_lsn p)"
  by (simp add: set_frame_lsn_def)

lemma mark_dirty_simps [simp]:
  "frame_lsn (mark_dirty p) = frame_lsn p" "page_data (mark_dirty p) = page_data p" "frame_page_num (mark_dirty p) = frame_page_num p"
  by (simp_all add: mark_dirty_def)

lemma same_layout_frame [simp]:
  "same_layout p (set_frame_lsn lg q) = same_layout p q" "same_layout p (mark_dirty q) = same_layout p q"
  "same_layout (mark_dirty p) q = same_layout p q"
  by (auto simp: frame_simps same_layout_def)

lemma page_wf_write:
  assumes "page_wf p" and "page_header q = page_header p" and "length (page_data q) = length (page_data p)"
    and "\<forall>j. slot_taken q j = slot_taken p j"
  shows "page_wf q"
  using assms by (simp add: page_wf_def Let_def)

section \<open>What the operations do\<close>

abbreviation real_bytes :: "RecordPage \<Rightarrow> byte list \<Rightarrow> byte list" where
  "real_bytes p data \<equiv> take (nat (record_real_size (page_header p))) data"

lemma insert_record_spec:
  assumes wf: "page_wf p" and room: "record_num (page_header p) \<noteq> record_capacity (page_header p)"
    and len: "record_real_size (page_header p) \<le> int (length data)"
  shows "\<exists>i q. insert_record False p data lg = Some (SUCCESS, Some (RID (frame_page_num p) (int i)), q) \<and>
    slots p i = None \<and> (\<forall>j<i. slots p j \<noteq> None) \<and> slots q = (slots p)(i \<mapsto> real_bytes p data) \<and> page_wf q \<and> same_layout p q \<and>
    frame_lsn q = frame_lsn (set_frame_lsn lg p)"
proof -
  obtain i where i: "next_unsetted_bit (page_bitmap p) 0 = Some (int i)" "int i < record_capacity (page_header p)" "\<not> slot_taken p i"
    "\<forall>j<i. slot_taken p j"
    using free_slot_exists [OF wf room] by blast
  obtain bm where bm: "set_bit (page_bitmap p) (int i) = Some bm"
    and q1: "let q = add_record_num 1 (with_bitmap p bm)
     in page_wf q \<and> same_layout p q \<and> (\<forall>j. slot_taken q j \<longleftrightarrow> j = i \<or> slot_taken p j) \<and> (\<forall>j. j \<noteq> i \<longrightarrow> slots q j = slots p j)"
    using set_slot [OF wf i(2,3)] by blast
  let ?q = "set_frame_lsn lg (add_record_num 1 (with_bitmap p bm))"
  have q: "page_wf ?q" "same_layout p ?q" "\<forall>j. slot_taken ?q j \<longleftrightarrow> j = i \<or> slot_taken p j" "\<forall>j. j \<noteq> i \<longrightarrow> slots ?q j = slots p j"
    using q1 by (simp_all add: Let_def)
  have lay: "record_capacity (page_header ?q) = record_capacity (page_header p)" "record_real_size (page_header ?q) = record_real_size (page_header p)"
    using q(2) by (simp_all add: same_layout_def)
  obtain q' where q': "write_record_data ?q (int i) data = Some q'" "page_header q' = page_header ?q" "length (page_data q') = length (page_data ?q)"
    "frame_page_num q' = frame_page_num ?q" "frame_lsn q' = frame_lsn ?q" "\<forall>j. slot_taken q' j = slot_taken ?q j"
    "\<forall>j. slots q' j = (if j = i \<and> slot_taken ?q i then Some (real_bytes ?q data) else slots ?q j)"
    using write_record_data_slots [OF q(1), of i data] i(2) len lay by auto
  have "slots q' = (slots p)(i \<mapsto> real_bytes p data)"
    using q'(7) q(3,4) lay by (auto simp: fun_eq_iff)
  moreover have "page_wf q'" by (rule page_wf_write [OF q(1) q'(2,3,6)])
  moreover have "same_layout p q'" using q(2) q'(2-4) by (simp add: same_layout_def)
  moreover have "frame_lsn ?q = frame_lsn (set_frame_lsn lg p)" by (simp add: set_frame_lsn_def add_record_num_def with_bitmap_def)
  ultimately show ?thesis
    using i bm q'(1,5) room by (intro exI [of _ i] exI [of _ "mark_dirty q'"])
      (auto simp: insert_record_def slots_def [of p])
qed

lemma insert_record_full:
  "record_num (page_header p) = record_capacity (page_header p) \<Longrightarrow> insert_record False p data lg = Some (RECORD_NOMEM, None, p)"
  by (simp add: insert_record_def)

lemma delete_record_spec:
  assumes wf: "page_wf p" and i: "int i < record_capacity (page_header p)"
  shows "\<exists>q. delete_record False p (RID n (int i)) lg = Some (if slots p i = None then RECORD_NOT_EXIST else SUCCESS, q) \<and>
    (if slots p i = None then q = p
     else slots q = (slots p)(i := None) \<and> page_wf q \<and> same_layout p q \<and> frame_lsn q = frame_lsn (set_frame_lsn lg p))"
proof (cases "slot_taken p i")
  case True
  obtain bm where bm: "clear_bit (page_bitmap p) (int i) = Some bm"
    and q1: "let q = add_record_num (- 1) (with_bitmap p bm)
     in page_wf q \<and> same_layout p q \<and> (\<forall>j. slot_taken q j \<longleftrightarrow> j \<noteq> i \<and> slot_taken p j) \<and> (\<forall>j. j \<noteq> i \<longrightarrow> slots q j = slots p j)"
    using clear_slot [OF wf True] by blast
  let ?q = "set_frame_lsn lg (mark_dirty (add_record_num (- 1) (with_bitmap p bm)))"
  have "slots ?q = (slots p)(i := None)" using q1 by (auto simp: fun_eq_iff Let_def slots_def)
  moreover have "frame_lsn ?q = frame_lsn (set_frame_lsn lg p)"
    by (simp add: set_frame_lsn_def mark_dirty_def add_record_num_def with_bitmap_def)
  ultimately show ?thesis
    using True bm q1 get_slot_bit [OF wf i] by (auto simp: delete_record_def Let_def slots_def)
next
  case False
  then show ?thesis using get_slot_bit [OF wf i] by (simp add: delete_record_def slots_def)
qed

lemma update_record_spec:
  assumes wf: "page_wf p" and i: "int i < record_capacity (page_header p)" and len: "record_real_size (page_header p) \<le> int (length data)"
  shows "\<exists>q. update_record False p (RID n (int i)) data lg = Some (if slots p i = None then RECORD_NOT_EXIST else SUCCESS, q) \<and>
    (if slots p i = None then q = p
     else slots q = (slots p)(i \<mapsto> real_bytes p data) \<and> page_wf q \<and> same_layout p q \<and> frame_lsn q = frame_lsn (set_frame_lsn lg p))"
proof (cases "slot_taken p i")
  case True
  obtain q where q: "write_record_data (mark_dirty p) (int i) data = Some q" "page_header q = page_header p" "length (page_data q) = length (page_data p)"
    "frame_page_num q = frame_page_num p" "frame_lsn q = frame_lsn p" "\<forall>j. slot_taken q j = slot_taken p j"
    "\<forall>j. slots q j = (if j = i \<and> slot_taken p i then Some (real_bytes p data) else slots p j)"
    using write_record_data_slots [of "mark_dirty p" i data] wf i len by auto
  have "slots q = (slots p)(i \<mapsto> real_bytes p data)" using q(7) True by (auto simp: fun_eq_iff)
  moreover have "page_wf q" by (rule page_wf_write [OF wf q(2,3,6)])
  moreover have "same_layout p q" using q(2-4) by (simp add: same_layout_def)
  moreover have "frame_lsn (set_frame_lsn lg q) = frame_lsn (set_frame_lsn lg p)" using q(5) by (simp add: set_frame_lsn_def)
  ultimately show ?thesis
    using True q(1) get_slot_bit [OF wf i] i by (auto simp: update_record_def slots_def)
next
  case False
  then show ?thesis using get_slot_bit [OF wf i] i by (simp add: update_record_def slots_def)
qed

lemma get_record_spec:
  assumes wf: "page_wf p" and i: "int i < record_capacity (page_header p)"
  shows "get_record p (RID n (int i)) =
    Some (case slots p i of None \<Rightarrow> (RECORD_NOT_EXIST, None) | Some bs \<Rightarrow> (SUCCESS, Some (RID n (int i), bs)))"
proof -
  obtain c s r ofs where w: "record_capacity (page_header p) = int c" "record_size (page_header p) = int s"
    "record_real_size (page_header p) = int r" "data_offset (page_header p) = int ofs" "0 < r" "r \<le> s"
    "28 + (c + 7) div 8 \<le> ofs" "ofs + c * s \<le> length (page_data p)"
    using page_wf_nat [OF wf] by metis
  have "ofs + s * i + r \<le> length (page_data p)" using slot_end_bound [of i c r s ofs] i w(1,6,8) by simp
  moreover have off: "get_record_data p (int i) = int (ofs + s * i)" using w by (simp add: get_record_data_def)
  ultimately have "mem_read (page_data p) (get_record_data p (int i)) (record_real_size (page_header p)) = Some (slice (page_data p) (ofs + s * i) r)"
    unfolding off w(3) by (metis mem_read_nat)
  then show ?thesis
    using get_slot_bit [OF wf i] i slots_nat [OF w(1-4), of i] by (simp add: get_record_def)
qed

lemma recover_insert_record_spec:
  assumes wf: "page_wf p" and i: "int i < record_capacity (page_header p)" and len: "record_real_size (page_header p) \<le> int (length data)"
  shows "\<exists>q. recover_insert_record p data (RID n (int i)) = Some (SUCCESS, q) \<and> slots q = (slots p)(i \<mapsto> real_bytes p data) \<and>
    page_wf q \<and> same_layout p q"
proof -
  obtain q1 where q1: "(if slot_taken p i then Some p else map_option (\<lambda>bm. add_record_num 1 (with_bitmap p bm)) (set_bit (page_bitmap p) (int i))) = Some q1"
    and q: "page_wf q1" "same_layout p q1" "\<forall>j. slot_taken q1 j \<longleftrightarrow> j = i \<or> slot_taken p j" "\<forall>j. j \<noteq> i \<longrightarrow> slots q1 j = slots p j"
  proof (cases "slot_taken p i")
    case True
    then show ?thesis using that wf by (auto simp: same_layout_def)
  next
    case False
    then show ?thesis using set_slot [OF wf i False] that by (auto simp: Let_def)
  qed
  have lay: "record_capacity (page_header q1) = record_capacity (page_header p)" "record_real_size (page_header q1) = record_real_size (page_header p)"
    using q(2) by (simp_all add: same_layout_def)
  obtain q' where q': "write_record_data q1 (int i) data = Some q'" "page_header q' = page_header q1" "length (page_data q') = length (page_data q1)"
    "frame_page_num q' = frame_page_num q1" "\<forall>j. slot_taken q' j = slot_taken q1 j"
    "\<forall>j. slots q' j = (if j = i \<and> slot_taken q1 i then Some (real_bytes q1 data) else slots q1 j)"
    using write_record_data_slots [OF q(1), of i data] i len lay by auto
  have "slots q' = (slots p)(i \<mapsto> real_bytes p data)" using q'(6) q(3,4) lay by (auto simp: fun_eq_iff)
  moreover have "page_wf q'" by (rule page_wf_write [OF q(1) q'(2,3,5)])
  moreover have "same_layout p q'" using q(2) q'(2-4) by (simp add: same_layout_def)
  ultimately show ?thesis
    using i q1 q'(1) get_slot_bit [OF wf i]
    by (cases "slot_taken p i") (auto simp: recover_insert_record_def intro!: exI [of _ "mark_dirty q'"])
qed

lemma slots_bound: "slots p i \<noteq> None \<Longrightarrow> int i < record_capacity (page_header p)"
  by (auto simp: slots_def slot_taken_def split: if_splits)

section \<open>An empty page\<close>

lemma and_not_mask_int: "(x :: int) AND NOT (mask n) = push_bit n (drop_bit n x)"
  by (rule bit_eqI) (auto simp: bit_simps)

lemma align8_eq: "align8 n = 8 * ((n + 7) div 8)"
proof -
  have "(n + 7) AND NOT 7 = (n + 7) AND NOT (mask 3)" by (simp add: mask_eq_exp_minus_1)
  also have "\<dots> = push_bit 3 (drop_bit 3 (n + 7))" by (rule and_not_mask_int)
  finally show ?thesis by (simp add: align8_def push_bit_eq_mult drop_bit_eq_div)
qed

lemma align8_bounds: "n \<le> align8 n" "align8 n \<le> n + 7"
  unfolding align8_eq by linarith+

lemma fix_capacity_loop_result:
  assumes "0 < s" and "base \<le> BP_PAGE_DATA_SIZE"
  shows "\<exists>c'. fix_capacity_loop s (int c) (base + int c * s) = Some (int c') \<and> c' \<le> c \<and> base + int c' * s \<le> BP_PAGE_DATA_SIZE"
proof (induction c)
  case 0
  then show ?case using assms by (auto simp: fix_capacity_loop.simps [of s 0])
next
  case (Suc c)
  show ?case
  proof (cases "BP_PAGE_DATA_SIZE < base + int (Suc c) * s")
    case True
    have "int (Suc c) - 1 = int c" "base + int (Suc c) * s - s = base + int c * s" by (simp_all add: algebra_simps)
    then have "fix_capacity_loop s (int (Suc c)) (base + int (Suc c) * s) = fix_capacity_loop s (int c) (base + int c * s)"
      using True by (subst fix_capacity_loop.simps) (simp only: if_True)
    then show ?thesis using Suc by auto
  next
    case False
    then show ?thesis by (subst fix_capacity_loop.simps) (intro exI [of _ "Suc c"], simp)
  qed
qed

lemma page_record_capacity_bounds:
  assumes "0 < s"
  shows "0 \<le> page_record_capacity BP_PAGE_DATA_SIZE s 0" and "page_record_capacity BP_PAGE_DATA_SIZE s 0 \<le> 465993"
proof -
  have e: "page_record_capacity BP_PAGE_DATA_SIZE s 0 = 4193944 div (8 * s + 1)"
    using assms by (simp add: page_record_capacity_def BP_PAGE_DATA_SIZE_def BP_PAGE_SIZE_def PAGE_HEADER_SIZE_def signed_divide_int_def)
  show "0 \<le> page_record_capacity BP_PAGE_DATA_SIZE s 0" unfolding e using assms by (simp add: pos_imp_zdiv_nonneg_iff)
  have "4193944 div (8 * s + 1) \<le> 4193944 div (9 :: int)" using assms by (intro zdiv_mono2) auto
  then show "page_record_capacity BP_PAGE_DATA_SIZE s 0 \<le> 465993" unfolding e by simp
qed

lemma init_empty_page_row:
  assumes "0 < rec_size" and "int (length (page_data p)) = BP_PAGE_DATA_SIZE"
  shows "\<exists>q. init_empty_page p rec_size [] lg = Some (fst lg, q) \<and> page_wf q \<and> slots q = Map.empty \<and>
    record_real_size (page_header q) = rec_size \<and> frame_page_num q = frame_page_num p \<and> frame_lsn q = frame_lsn (set_frame_lsn lg p) \<and>
    int (length (page_data q)) = BP_PAGE_DATA_SIZE"
proof -
  let ?s = "align8 rec_size"
  have s: "0 < ?s" "rec_size \<le> ?s" using align8_bounds [of rec_size] assms(1) by linarith+
  obtain c where c: "page_record_capacity BP_PAGE_DATA_SIZE ?s 0 = int c" using page_record_capacity_bounds(1) [OF s(1)] by (metis nonneg_int_cases)
  have c_le: "c \<le> 465993" using page_record_capacity_bounds(2) [OF s(1)] c by simp
  let ?idx = "align8 (28 + (int c + 7) div 8)"
  have idx: "28 + (int c + 7) div 8 \<le> ?idx" "?idx \<le> BP_PAGE_DATA_SIZE"
  proof -
    have "(int c + 7) div 8 \<le> 58250" using c_le by linarith
    then show "28 + (int c + 7) div 8 \<le> ?idx" "?idx \<le> BP_PAGE_DATA_SIZE"
      using align8_bounds [of "28 + (int c + 7) div 8"] by (simp_all add: BP_PAGE_DATA_SIZE_def BP_PAGE_SIZE_def)
  qed
  have h: "empty_header rec_size 0 = \<lparr>record_num = 0, column_num = 0, record_real_size = rec_size, record_size = ?s,
      record_capacity = int c, col_idx_offset = ?idx, data_offset = ?idx\<rparr>"
    by (simp add: empty_header_def Let_def c page_bitmap_size_div PAGE_HEADER_SIZE_def)
  obtain c' where c': "fix_capacity_loop ?s (int c) (?idx + int c * ?s) = Some (int c')" "c' \<le> c" "?idx + int c' * ?s \<le> BP_PAGE_DATA_SIZE"
    using fix_capacity_loop_result [OF s(1) idx(2), of c] by blast
  let ?h = "\<lparr>record_num = 0, column_num = 0, record_real_size = rec_size, record_size = ?s,
      record_capacity = int c', col_idx_offset = ?idx, data_offset = ?idx\<rparr>"
  have fx: "fix_record_capacity (empty_header rec_size 0) = Some ?h" using c'(1) by (simp add: fix_record_capacity_def h)
  let ?n = "(c' + 7) div 8"
  have n: "page_bitmap_size (int c') = int ?n" by (simp add: page_bitmap_size_div zdiv_int)
  have nc: "int ?n \<le> (int c + 7) div 8" using c'(2) by (simp add: zdiv_int zdiv_mono1)
  then have room: "28 + ?n \<le> length (page_data p)" using idx assms(2) by linarith
  let ?d = "splice (page_data p) 28 (replicate ?n 0)"
  have mw: "mem_write (page_data p) PAGE_HEADER_SIZE (replicate ?n 0) = Some ?d"
    using mem_write_nat [of 28 "replicate ?n (0 :: byte)" "page_data p"] room by (simp add: PAGE_HEADER_SIZE_def)
  have ld: "length ?d = length (page_data p)" using room by simp
  obtain ix where ix: "?idx = int ix" using idx(1) by (metis add_nonneg_nonneg nonneg_int_cases order.trans zero_le_numeral of_nat_0_le_iff
        pos_imp_zdiv_nonneg_iff zero_less_numeral)
  have mw2: "mem_write ?d ?idx [] = Some ?d"
    using idx(2) assms(2) ld unfolding ix by (simp add: mem_write_def)
  let ?q = "p\<lparr>page_header := ?h, page_data := ?d\<rparr>"
  have ini: "init_page_with p rec_size 0 (\<lambda>_. []) = Some ?q"
    using c'(3) mw mw2 by (simp add: init_page_with_def fx n)
  have "\<not> slot_taken ?q i" for i
  proof
    assume "slot_taken ?q i"
    then have i: "i < c'" "setted (page_bitmap ?q) i" by (simp_all add: slot_taken_def)
    have ib: "28 + i div 8 < 28 + ?n" using i(1) by linarith
    have "bit (?d ! (28 + i div 8)) (i mod 8)" using slot_byte [of ?q i] i(2) ib room ld by simp
    moreover have "?d ! (28 + i div 8) = 0" using ib room by (subst nth_splice) auto
    ultimately show False by simp
  qed
  then have st: "slot_taken ?q = (\<lambda>_. False)" by (simp add: fun_eq_iff)
  have "page_wf ?q"
    using c'(3) s assms nc idx(1) ld st n by (simp add: page_wf_def Let_def PAGE_HEADER_SIZE_def)
  moreover have "slots ?q = Map.empty" using st by (simp add: slots_def fun_eq_iff)
  ultimately show ?thesis
    using ini ld assms(2) by (simp add: init_empty_page_def frame_lsn_set)
qed

section \<open>Scanning a page\<close>

definition records_from :: "RecordPage \<Rightarrow> nat \<Rightarrow> (RID \<times> byte list) list" where
  "records_from p start =
     map (\<lambda>i. (RID (frame_page_num p) (int i), the (slots p i)))
       (filter (\<lambda>i. slots p i \<noteq> None) [start ..< nat (record_capacity (page_header p))])"

lemma next_slot:
  assumes "page_wf p"
  shows "\<exists>r. next_setted_bit (page_bitmap p) (int start) = Some r \<and>
    least_at (\<lambda>i. slots p i \<noteq> None) start (nat (record_capacity (page_header p))) r"
proof -
  obtain r where r: "next_setted_bit (page_bitmap p) (int start) = Some r"
    "least_at (setted (page_bitmap p)) start (nat (record_capacity (page_header p))) r"
    using next_setted_bit_least [OF page_bm_wf [OF assms], of "int start"] by (auto simp: page_bitmap_def bitmap_init_def)
  have "slots p i \<noteq> None \<longleftrightarrow> setted (page_bitmap p) i" if "i < nat (record_capacity (page_header p))" for i
    using that by (auto simp: slots_def slot_taken_def)
  then have "least_at (\<lambda>i. slots p i \<noteq> None) start (nat (record_capacity (page_header p))) r"
    using r(2) least_at_cong [of start _ "\<lambda>i. slots p i \<noteq> None" "setted (page_bitmap p)"] by simp
  then show ?thesis using r(1) by blast
qed

lemma upt_filter_first:
  assumes "start \<le> k" and "k < n" and "P k" and "\<And>i. start \<le> i \<Longrightarrow> i < k \<Longrightarrow> \<not> P i"
  shows "filter P [start ..< n] = k # filter P [Suc k ..< n]"
proof -
  have "[start ..< n] = [start ..< k] @ k # [Suc k ..< n]"
    using assms(1,2) upt_add_eq_append [of start k "n - k"] by (simp add: upt_conv_Cons)
  moreover have "filter P [start ..< k] = []" using assms(4) by (simp add: filter_empty_conv)
  ultimately show ?thesis using assms(3) by simp
qed

lemma scan_page_from:
  assumes wf: "page_wf p"
  shows "least_at (\<lambda>i. slots p i \<noteq> None) start (nat (record_capacity (page_header p))) r \<Longrightarrow>
    scan_page p \<lparr>it_bitmap = page_bitmap p, next_slot_num = r\<rparr> old acc = Some (RECORD_EOF, acc @ records_from p start)"
proof (induction "nat (record_capacity (page_header p)) - start" arbitrary: start r old acc rule: less_induct)
  case less
  let ?c = "nat (record_capacity (page_header p))" and ?it = "\<lparr>it_bitmap = page_bitmap p, next_slot_num = r\<rparr>"
  show ?case
  proof (cases "r = - 1")
    case True
    then have "records_from p start = []" using less.prems by (auto simp: least_at_def records_from_def filter_empty_conv)
    then show ?thesis using True by (simp add: scan_page.simps [of p] has_next_def)
  next
    case False
    then obtain k where k: "r = int k" "start \<le> k" "k < ?c" "slots p k \<noteq> None" "\<And>i. start \<le> i \<Longrightarrow> i < k \<Longrightarrow> slots p i = None"
      using less.prems by (auto simp: least_at_def)
    then obtain bs where bs: "slots p k = Some bs" by blast
    obtain r' where r': "next_setted_bit (page_bitmap p) (int (Suc k)) = Some r'" "least_at (\<lambda>i. slots p i \<noteq> None) (Suc k) ?c r'"
      using next_slot [OF wf] by blast
    have kc: "int k < record_capacity (page_header p)" using k(3) by simp
    let ?rec = "(RID (frame_page_num p) (int k), bs)"
    have nx: "iterator_next p ?it old = Some (SUCCESS, ?rec, \<lparr>it_bitmap = page_bitmap p, next_slot_num = r'\<rparr>)"
      using get_record_spec [OF wf kc] bs k(1) r'(1) by (simp add: iterator_next_def add.commute)
    have "records_from p start = ?rec # records_from p (Suc k)"
      using upt_filter_first [of start k ?c "\<lambda>i. slots p i \<noteq> None"] k bs by (simp add: records_from_def)
    moreover have "scan_page p \<lparr>it_bitmap = page_bitmap p, next_slot_num = r'\<rparr> ?rec (acc @ [?rec]) = Some (RECORD_EOF, (acc @ [?rec]) @ records_from p (Suc k))"
      using less.hyps [of "Suc k"] r'(2) k(2,3) by simp
    ultimately show ?thesis using False nx by (subst scan_page.simps) (simp add: has_next_def)
  qed
qed

section \<open>Properties\<close>

text \<open>
  C28: a scan of a page with \<^verbatim>\<open>RecordPageIterator\<close> returns every record of the page exactly once, in slot
  order, with its identifier and its bytes, and ends with \<^verbatim>\<open>RECORD_EOF\<close>.
\<close>

theorem page_scan_complete:
  assumes "page_wf p"
  shows "\<exists>it. iterator_init p 0 = Some it \<and>
    scan_page p it old [] = Some (RECORD_EOF,
      map (\<lambda>i. (RID (frame_page_num p) (int i), the (slots p i)))
        (filter (\<lambda>i. slots p i \<noteq> None) [0 ..< nat (record_capacity (page_header p))]))"
proof -
  obtain r where r: "next_setted_bit (page_bitmap p) 0 = Some r"
    "least_at (\<lambda>i. slots p i \<noteq> None) 0 (nat (record_capacity (page_header p))) r"
    using next_slot [OF assms, of 0] by auto
  show ?thesis using r scan_page_from [OF assms r(2), of old "[]"] by (simp add: iterator_init_def records_from_def)
qed

definition one_record_page :: RecordPage where
  \<comment> \<open>two slots of one byte; the second one holds 7\<close>
  "one_record_page =
     \<lparr>page_header = \<lparr>record_num = 1, column_num = 0, record_real_size = 1, record_size = 8, record_capacity = 2,
                     col_idx_offset = 32, data_offset = 32\<rparr>,
      page_data = replicate 28 0 @ [2, 0, 0, 0] @ replicate 8 0 @ [7] @ replicate 7 0,
      frame_page_num = 3, frame_lsn = 0, frame_dirty = False\<rparr>"

lemma one_record_page_wf: "page_wf one_record_page"
proof -
  have "slot_taken one_record_page 0 \<longleftrightarrow> False" "slot_taken one_record_page 1 \<longleftrightarrow> True" by code_simp+
  moreover have "record_capacity (page_header one_record_page) = 2" by (simp add: one_record_page_def)
  ultimately have "{i. slot_taken one_record_page i} = {1}"
    by (auto simp: slot_taken_def less_Suc_eq numeral_2_eq_2)
  then show ?thesis
    by (simp add: page_wf_def one_record_page_def Let_def PAGE_HEADER_SIZE_def page_bitmap_size_def signed_divide_int_def)
qed

theorem page_scan_complete_witness:
  "page_wf one_record_page \<and>
   (\<exists>it. iterator_init one_record_page 0 = Some it \<and>
      scan_page one_record_page it (RID 0 0, []) [] = Some (RECORD_EOF, [(RID 3 1, [7])]))"
proof -
  have "map (\<lambda>i. (RID (frame_page_num one_record_page) (int i), the (slots one_record_page i)))
        (filter (\<lambda>i. slots one_record_page i \<noteq> None) [0 ..< nat (record_capacity (page_header one_record_page))])
      = [(RID 3 1, [7])]" by code_simp
  then show ?thesis using page_scan_complete [OF one_record_page_wf, of "(RID 0 0, [])"] one_record_page_wf by simp
qed

datatype page_call = Page_insert "byte list" | Page_delete nat | Page_update nat "byte list" | Page_get nat

datatype page_reply = Slot nat | Code rc | Bytes "byte list"

fun run_page_call :: "page_call \<Rightarrow> RecordPage \<Rightarrow> (page_reply \<times> RecordPage) option" where
  \<comment> \<open>one operation, its log record written or not\<close>
  "run_page_call (Page_insert data) p =
     (case insert_record False p data (SUCCESS, frame_lsn p + 1) of
        None \<Rightarrow> None
      | Some (rc, rid, q) \<Rightarrow> Some (if rc = SUCCESS then Slot (nat (slot_num (the rid))) else Code rc, q))"
| "run_page_call (Page_delete i) p =
     map_option (\<lambda>(rc, q). (Code rc, q)) (delete_record False p (RID (frame_page_num p) (int i)) (SUCCESS, frame_lsn p + 1))"
| "run_page_call (Page_update i data) p =
     map_option (\<lambda>(rc, q). (Code rc, q)) (update_record False p (RID (frame_page_num p) (int i)) data (SUCCESS, frame_lsn p + 1))"
| "run_page_call (Page_get i) p =
     map_option (\<lambda>(rc, r). (case r of Some (_, bs) \<Rightarrow> Bytes bs | None \<Rightarrow> Code rc, p)) (get_record p (RID (frame_page_num p) (int i)))"

fun page_calls :: "page_call list \<Rightarrow> RecordPage \<Rightarrow> (page_reply list \<times> RecordPage) option" where
  "page_calls [] p = Some ([], p)"
| "page_calls (x # xs) p =
     (case run_page_call x p of
        None \<Rightarrow> None
      | Some (r, p') \<Rightarrow> map_option (\<lambda>(rs, p''). (r # rs, p'')) (page_calls xs p'))"

fun first_free :: "nat \<Rightarrow> nat \<Rightarrow> (nat \<rightharpoonup> byte list) \<Rightarrow> nat option" where
  \<comment> \<open>the least free slot of \<open>[i, i + n)\<close>\<close>
  "first_free i 0 m = None"
| "first_free i (Suc n) m = (if m i = None then Some i else first_free (Suc i) n m)"

fun map_call :: "nat \<Rightarrow> nat \<Rightarrow> page_call \<Rightarrow> (nat \<rightharpoonup> byte list) \<Rightarrow> page_reply \<times> (nat \<rightharpoonup> byte list)" where
  \<comment> \<open>the same operation on a finite map of capacity \<open>cap\<close> with records of \<open>size\<close> bytes\<close>
  "map_call cap sz (Page_insert data) m =
     (case first_free 0 cap m of None \<Rightarrow> (Code RECORD_NOMEM, m) | Some i \<Rightarrow> (Slot i, m(i \<mapsto> take sz data)))"
| "map_call cap sz (Page_delete i) m = (if m i = None then (Code RECORD_NOT_EXIST, m) else (Code SUCCESS, m(i := None)))"
| "map_call cap sz (Page_update i data) m =
     (if cap \<le> i then (Code INVALID_ARGUMENT, m) else if m i = None then (Code RECORD_NOT_EXIST, m) else (Code SUCCESS, m(i \<mapsto> take sz data)))"
| "map_call cap sz (Page_get i) m =
     (if cap \<le> i then (Code RECORD_INVALID_RID, m) else (case m i of None \<Rightarrow> Code RECORD_NOT_EXIST | Some bs \<Rightarrow> Bytes bs, m))"

fun map_calls :: "nat \<Rightarrow> nat \<Rightarrow> page_call list \<Rightarrow> (nat \<rightharpoonup> byte list) \<Rightarrow> page_reply list \<times> (nat \<rightharpoonup> byte list)" where
  "map_calls cap sz [] m = ([], m)"
| "map_calls cap sz (x # xs) m =
     (case map_call cap sz x m of (r, m') \<Rightarrow> case map_calls cap sz xs m' of (rs, m'') \<Rightarrow> (r # rs, m''))"

fun call_ok :: "nat \<Rightarrow> nat \<Rightarrow> page_call \<Rightarrow> bool" where
  \<comment> \<open>enough bytes for a record, and \<^verbatim>\<open>delete_record\<close>, which has no check of its own, on a slot of the page\<close>
  "call_ok cap sz (Page_insert data) = (sz \<le> length data)"
| "call_ok cap sz (Page_delete i) = (i < cap)"
| "call_ok cap sz (Page_update i data) = (sz \<le> length data)"
| "call_ok cap sz (Page_get i) = True"

lemma first_free_least:
  "first_free i n m = Some k \<Longrightarrow> i \<le> k \<and> k < i + n \<and> m k = None \<and> (\<forall>j. i \<le> j \<longrightarrow> j < k \<longrightarrow> m j \<noteq> None)"
proof (induction i n m rule: first_free.induct)
  case (2 i n m)
  show ?case
  proof (cases "m i = None")
    case False
    have "first_free (Suc i) n m = Some k" using False 2(2) by (simp split: if_splits)
    then have IH: "Suc i \<le> k" "k < Suc i + n" "m k = None" "\<And>j. Suc i \<le> j \<Longrightarrow> j < k \<Longrightarrow> m j \<noteq> None"
      using 2(1) False by blast+
    have "m j \<noteq> None" if "i \<le> j" "j < k" for j
      using IH(4) [of j] False that by (cases "j = i") auto
    then show ?thesis using IH(1-3) by auto
  qed (use 2 in simp)
qed simp

lemma first_free_none: "first_free i n m = None \<Longrightarrow> i \<le> j \<Longrightarrow> j < i + n \<Longrightarrow> m j \<noteq> None"
proof (induction i n m rule: first_free.induct)
  case (2 i n m)
  then show ?case by (cases "j = i") (auto split: if_splits)
qed simp

definition page_repr :: "nat \<Rightarrow> nat \<Rightarrow> RecordPage \<Rightarrow> (nat \<rightharpoonup> byte list) \<Rightarrow> bool" where
  "page_repr cap sz p m \<longleftrightarrow> page_wf p \<and> record_capacity (page_header p) = int cap \<and> record_real_size (page_header p) = int sz \<and> slots p = m"

lemma page_repr_layout:
  "page_repr cap sz p m \<Longrightarrow> page_wf q \<Longrightarrow> same_layout p q \<Longrightarrow> slots q = m' \<Longrightarrow> page_repr cap sz q m'"
  by (simp add: page_repr_def same_layout_def)

lemma page_full_iff:
  assumes "page_repr cap sz p m"
  shows "record_num (page_header p) = record_capacity (page_header p) \<longleftrightarrow> first_free 0 cap m = None"
proof
  assume full: "record_num (page_header p) = record_capacity (page_header p)"
  have c: "card {i. slot_taken p i} = cap" and cap: "record_capacity (page_header p) = int cap"
    using full assms by (auto simp: page_repr_def page_wf_def Let_def)
  have "{i. slot_taken p i} \<subseteq> {..<cap}" using cap by (auto simp: slot_taken_def)
  then have "{i. slot_taken p i} = {..<cap}" using c by (metis card_lessThan card_subset_eq finite_lessThan)
  then have "\<forall>i<cap. m i \<noteq> None" using assms by (auto simp: page_repr_def slots_def)
  then show "first_free 0 cap m = None" using first_free_least [of 0 cap m] by (cases "first_free 0 cap m") auto
next
  assume "first_free 0 cap m = None"
  then have "slot_taken p i" if "i < cap" for i
    using first_free_none [of 0 cap m i] assms that by (auto simp: page_repr_def slots_def split: if_splits)
  then have "{i. slot_taken p i} = {..<cap}" using assms by (auto simp: page_repr_def slot_taken_def)
  then show "record_num (page_header p) = record_capacity (page_header p)"
    using assms by (simp add: page_repr_def page_wf_def Let_def)
qed

lemma page_call_map_call:
  assumes r: "page_repr cap sz p m" and ok: "call_ok cap sz x"
  shows "\<exists>q. run_page_call x p = Some (fst (map_call cap sz x m), q) \<and> page_repr cap sz q (snd (map_call cap sz x m))"
proof (cases x)
  case (Page_insert data)
  have wf: "page_wf p" and m: "slots p = m" and sz: "record_real_size (page_header p) = int sz" using r by (simp_all add: page_repr_def)
  show ?thesis
  proof (cases "first_free 0 cap m")
    case None
    then show ?thesis using page_full_iff [OF r] Page_insert insert_record_full r by simp
  next
    case (Some k)
    have len: "record_real_size (page_header p) \<le> int (length data)" using ok Page_insert sz by simp
    obtain i q where q: "insert_record False p data (SUCCESS, frame_lsn p + 1) = Some (SUCCESS, Some (RID (frame_page_num p) (int i)), q)"
      "slots p i = None" "\<forall>j<i. slots p j \<noteq> None" "slots q = (slots p)(i \<mapsto> real_bytes p data)" "page_wf q" "same_layout p q"
      using insert_record_spec [OF wf _ len] Some page_full_iff [OF r] by fastforce
    have "k = i"
      using first_free_least [OF Some] q(2,3) unfolding m by (metis linorder_neqE_nat zero_le)
    then show ?thesis using Page_insert Some q page_repr_layout [OF r q(5,6,4)] m sz by simp
  qed
next
  case (Page_delete i)
  have wf: "page_wf p" and m: "slots p = m" using r by (simp_all add: page_repr_def)
  have i: "int i < record_capacity (page_header p)" using ok Page_delete r by (simp add: page_repr_def)
  show ?thesis
    using delete_record_spec [OF wf i, of "frame_page_num p" "(SUCCESS, frame_lsn p + 1)"] Page_delete m r page_repr_layout [OF r]
    by (cases "m i") auto
next
  case (Page_update i data)
  have wf: "page_wf p" and m: "slots p = m" and sz: "record_real_size (page_header p) = int sz"
    and cap: "record_capacity (page_header p) = int cap" using r by (simp_all add: page_repr_def)
  show ?thesis
  proof (cases "cap \<le> i")
    case True
    then show ?thesis using Page_update cap r by (simp add: update_record_def)
  next
    case False
    then have i: "int i < record_capacity (page_header p)" using cap by simp
    have len: "record_real_size (page_header p) \<le> int (length data)" using ok Page_update sz by simp
    show ?thesis
      using update_record_spec [OF wf i len, of "frame_page_num p" "(SUCCESS, frame_lsn p + 1)"] Page_update m r page_repr_layout [OF r] False sz
      by (cases "m i") auto
  qed
next
  case (Page_get i)
  have wf: "page_wf p" and m: "slots p = m" and cap: "record_capacity (page_header p) = int cap" using r by (simp_all add: page_repr_def)
  show ?thesis
  proof (cases "cap \<le> i")
    case True
    then show ?thesis using Page_get cap r by (simp add: get_record_def)
  next
    case False
    then have i: "int i < record_capacity (page_header p)" using cap by simp
    show ?thesis using get_record_spec [OF wf i] Page_get m r False by (cases "m i") auto
  qed
qed

lemma page_calls_map_calls:
  "page_repr cap sz p m \<Longrightarrow> \<forall>x \<in> set xs. call_ok cap sz x \<Longrightarrow>
   \<exists>q. page_calls xs p = Some (fst (map_calls cap sz xs m), q) \<and> page_repr cap sz q (snd (map_calls cap sz xs m))"
proof (induction xs arbitrary: p m)
  case (Cons x xs)
  obtain q where q: "run_page_call x p = Some (fst (map_call cap sz x m), q)" "page_repr cap sz q (snd (map_call cap sz x m))"
    using page_call_map_call [OF Cons.prems(1)] Cons.prems(2) by auto
  obtain q' where "page_calls xs q = Some (fst (map_calls cap sz xs (snd (map_call cap sz x m))), q')"
    "page_repr cap sz q' (snd (map_calls cap sz xs (snd (map_call cap sz x m))))"
    using Cons.IH [OF q(2)] Cons.prems(2) by auto
  then show ?case using q by (simp add: case_prod_beta)
qed simp

text \<open>
  C13: a record page is a finite map from slots to records. From the page that \<^verbatim>\<open>init_empty_page\<close> makes for any positive record
  size, every sequence of \<^verbatim>\<open>insert_record\<close>, \<^verbatim>\<open>delete_record\<close>, \<^verbatim>\<open>update_record\<close> and \<^verbatim>\<open>get_record\<close> returns what the same sequence returns on
  a map that gives an insert the least free slot: no access leaves the page, no record overlaps another or the bitmap,
  and the page reports \<^verbatim>\<open>RECORD_NOMEM\<close> exactly when every slot is taken.
\<close>

theorem record_page_refines_map:
  assumes "0 < rec_size" and "int (length (page_data p)) = BP_PAGE_DATA_SIZE"
    and "init_empty_page p rec_size [] lg = Some (rc, q)"
    and "\<forall>x \<in> set xs. call_ok (nat (record_capacity (page_header q))) (nat rec_size) x"
  shows "\<exists>q'. page_calls xs q =
    Some (fst (map_calls (nat (record_capacity (page_header q))) (nat rec_size) xs Map.empty), q') \<and>
    page_wf q' \<and> slots q' = snd (map_calls (nat (record_capacity (page_header q))) (nat rec_size) xs Map.empty)"
proof -
  have q: "page_wf q" "slots q = Map.empty" "record_real_size (page_header q) = rec_size"
    using init_empty_page_row [OF assms(1,2), of lg] assms(3) by auto
  have "page_repr (nat (record_capacity (page_header q))) (nat rec_size) q Map.empty"
    using q assms(1) by (simp add: page_repr_def page_wf_def Let_def)
  from page_calls_map_calls [OF this assms(4)] show ?thesis unfolding page_repr_def by blast
qed

theorem record_page_refines_map_witness:
  "\<exists>q q'. init_empty_page (one_record_page\<lparr>page_data := replicate (nat BP_PAGE_DATA_SIZE) 0\<rparr>) 4 [] (SUCCESS, 1) = Some (SUCCESS, q) \<and>
     page_calls [Page_insert [1, 2, 3, 4], Page_get 0] q =
       Some (fst (map_calls (nat (record_capacity (page_header q))) 4 [Page_insert [1, 2, 3, 4], Page_get 0] Map.empty), q')"
proof -
  let ?p = "one_record_page\<lparr>page_data := replicate (nat BP_PAGE_DATA_SIZE) 0\<rparr>"
  have len: "int (length (page_data ?p)) = BP_PAGE_DATA_SIZE" by (simp add: BP_PAGE_DATA_SIZE_def BP_PAGE_SIZE_def)
  obtain q where q: "init_empty_page ?p 4 [] (SUCCESS, 1) = Some (SUCCESS, q)"
    using init_empty_page_row [of 4 ?p "(SUCCESS, 1)"] len by auto
  have "\<forall>x \<in> set [Page_insert [1, 2, 3, 4], Page_get 0]. call_ok (nat (record_capacity (page_header q))) (nat 4) x" by simp
  from record_page_refines_map [OF _ len q this] show ?thesis using q by auto
qed

end
