(* ===== verification/Record_Log.thy ===== *)
theory Record_Log
  imports Record_Page Log_Entry
begin

text \<open>
  The redo log of record pages (\<^verbatim>\<open>src/src/observer/storage/record/record_log.h\<close>, \<^verbatim>\<open>record_log.cpp\<close>): the payloads that
  \<^verbatim>\<open>RecordLogHandler\<close> writes, and \<^verbatim>\<open>RecordLogReplayer\<close>, which repeats an operation on a page that is older than the entry.

  The pages of all buffer pools are a \<open>page_store\<close>: a pool that is not open is missing, and for a page that
  \<^verbatim>\<open>get_this_page\<close> cannot fetch the store holds the code it returns. \<^verbatim>\<open>DELETE\<close> leaves \<^verbatim>\<open>column_num\<close> of its header
  uninitialised; that value is an argument \<open>junk\<close>.
\<close>

section \<open>The pages of the buffer pools\<close>

type_synonym page_store = "int \<rightharpoonup> (int \<Rightarrow> rc + RecordPage)"

definition get_page :: "page_store \<Rightarrow> int \<Rightarrow> int \<Rightarrow> rc + RecordPage" where
  "get_page st bp pn = (case st bp of None \<Rightarrow> Inl INTERNAL | Some pool \<Rightarrow> pool pn)"

definition put_page :: "page_store \<Rightarrow> int \<Rightarrow> int \<Rightarrow> RecordPage \<Rightarrow> page_store" where
  "put_page st bp pn p = st(bp := map_option (\<lambda>pool. pool(pn := Inr p)) (st bp))"

lemma get_put_page:
  "get_page st bp pn = Inr q \<Longrightarrow> get_page (put_page st bp pn p) bp' pn' = (if bp' = bp \<and> pn' = pn then Inr p else get_page st bp' pn')"
  by (auto simp: get_page_def put_page_def split: option.splits)

section \<open>Log payloads\<close>

datatype StorageFormat = UNKNOWN_FORMAT | ROW_FORMAT | PAX_FORMAT

fun format_id :: "StorageFormat \<Rightarrow> int" where
  "format_id UNKNOWN_FORMAT = 0"
| "format_id ROW_FORMAT = 1"
| "format_id PAX_FORMAT = 2"

datatype RecordOperation = INIT_PAGE | INSERT | DELETE | UPDATE

fun type_id :: "RecordOperation \<Rightarrow> int" where
  "type_id INIT_PAGE = 0"
| "type_id INSERT = 1"
| "type_id DELETE = 2"
| "type_id UPDATE = 3"

definition operation_of :: "int \<Rightarrow> RecordOperation option" where
  "operation_of i =
     (if i = 0 then Some INIT_PAGE else if i = 1 then Some INSERT
      else if i = 2 then Some DELETE else if i = 3 then Some UPDATE else None)"

lemma operation_of_type_id [simp]: "operation_of (type_id x) = Some x"
  by (cases x) (simp_all add: operation_of_def)

text \<open>\<open>rl_slot_num\<close> is the union of \<^verbatim>\<open>slot_num\<close> and \<^verbatim>\<open>record_size\<close>.\<close>

record RecordLogHeader =
  rl_buffer_pool_id :: int
  rl_operation_type :: int
  rl_page_num :: int
  rl_storage_format :: int
  rl_column_num :: int
  rl_slot_num :: int

definition RECORD_LOG_HEADER_SIZE :: nat where
  "RECORD_LOG_HEADER_SIZE = 24"

definition rl_bytes :: "RecordLogHeader \<Rightarrow> byte list" where
  "rl_bytes h = int_bytes 4 (rl_buffer_pool_id h) @ int_bytes 4 (rl_operation_type h) @ int_bytes 4 (rl_page_num h) @
     int_bytes 4 (rl_storage_format h) @ int_bytes 4 (rl_column_num h) @ int_bytes 4 (rl_slot_num h)"

definition rl_header :: "byte list \<Rightarrow> RecordLogHeader" where
  "rl_header bs = \<lparr>rl_buffer_pool_id = bytes_int (slice bs 0 4), rl_operation_type = bytes_int (slice bs 4 4),
     rl_page_num = bytes_int (slice bs 8 4), rl_storage_format = bytes_int (slice bs 12 4),
     rl_column_num = bytes_int (slice bs 16 4), rl_slot_num = bytes_int (slice bs 20 4)\<rparr>"

record RecordLogHandler =
  rlh_buffer_pool_id :: int
  rlh_record_size :: int
  rlh_storage_format :: StorageFormat

definition record_log_init :: "int \<Rightarrow> int \<Rightarrow> StorageFormat \<Rightarrow> RecordLogHandler" where
  "record_log_init bp sz format = \<lparr>rlh_buffer_pool_id = bp, rlh_record_size = sz, rlh_storage_format = format\<rparr>"

definition log_init_new_page :: "RecordLogHandler \<Rightarrow> int \<Rightarrow> byte list \<Rightarrow> byte list" where
  "log_init_new_page h pn data =
     rl_bytes \<lparr>rl_buffer_pool_id = rlh_buffer_pool_id h, rl_operation_type = type_id INIT_PAGE, rl_page_num = pn,
       rl_storage_format = format_id (rlh_storage_format h), rl_column_num = int (length data div 4),
       rl_slot_num = rlh_record_size h\<rparr> @ data"

definition log_insert_record :: "RecordLogHandler \<Rightarrow> RID \<Rightarrow> byte list \<Rightarrow> byte list option" where
  "log_insert_record h rid rec =
     map_option (\<lambda>bs.
       rl_bytes \<lparr>rl_buffer_pool_id = rlh_buffer_pool_id h, rl_operation_type = type_id INSERT, rl_page_num = page_num rid,
         rl_storage_format = format_id (rlh_storage_format h), rl_column_num = 0, rl_slot_num = slot_num rid\<rparr> @ bs)
       (mem_read rec 0 (rlh_record_size h))"

definition log_update_record :: "RecordLogHandler \<Rightarrow> RID \<Rightarrow> byte list \<Rightarrow> byte list option" where
  "log_update_record h rid rec =
     map_option (\<lambda>bs.
       rl_bytes \<lparr>rl_buffer_pool_id = rlh_buffer_pool_id h, rl_operation_type = type_id UPDATE, rl_page_num = page_num rid,
         rl_storage_format = format_id (rlh_storage_format h), rl_column_num = 0, rl_slot_num = slot_num rid\<rparr> @ bs)
       (mem_read rec 0 (rlh_record_size h))"

definition log_delete_record :: "RecordLogHandler \<Rightarrow> int \<Rightarrow> RID \<Rightarrow> byte list" where
  "log_delete_record h junk rid =
     rl_bytes \<lparr>rl_buffer_pool_id = rlh_buffer_pool_id h, rl_operation_type = type_id DELETE, rl_page_num = page_num rid,
       rl_storage_format = format_id (rlh_storage_format h), rl_column_num = junk, rl_slot_num = slot_num rid\<rparr>"

section \<open>Replay\<close>

text \<open>
  \<^verbatim>\<open>RecordPageHandler::create\<close> makes a row handler for \<^verbatim>\<open>ROW_FORMAT\<close> and a PAX handler for every other value. Inserting
  into a PAX page ends the process, which is \<open>None\<close>; updating one is not implemented. A handler made for replay has a
  log handler that writes nothing: code \<^verbatim>\<open>SUCCESS\<close> and LSN 0.
\<close>

definition vacuous_append :: "rc \<times> int" where
  "vacuous_append = (SUCCESS, 0)"

definition handler_insert :: "int \<Rightarrow> RecordPage \<Rightarrow> byte list \<Rightarrow> rc \<times> int \<Rightarrow> (rc \<times> RID option \<times> RecordPage) option" where
  "handler_insert format p data lg = (if format = format_id ROW_FORMAT then insert_record False p data lg else None)"

definition pax_delete_record :: "bool \<Rightarrow> RecordPage \<Rightarrow> RID \<Rightarrow> rc \<times> int \<Rightarrow> (rc \<times> RecordPage) option" where
  "pax_delete_record readonly p rid lg =
     (if readonly then None
      else case get_bit (page_bitmap p) (slot_num rid) of
        None \<Rightarrow> None
      | Some b \<Rightarrow>
          if b then map_option (\<lambda>bm. (SUCCESS, set_frame_lsn lg (mark_dirty (add_record_num (- 1) (with_bitmap p bm)))))
                      (clear_bit (page_bitmap p) (slot_num rid))
          else Some (RECORD_NOT_EXIST, p))"

definition handler_delete :: "int \<Rightarrow> RecordPage \<Rightarrow> RID \<Rightarrow> rc \<times> int \<Rightarrow> (rc \<times> RecordPage) option" where
  "handler_delete format p rid lg =
     (if format = format_id ROW_FORMAT then delete_record False p rid lg else pax_delete_record False p rid lg)"

definition handler_update :: "int \<Rightarrow> RecordPage \<Rightarrow> RID \<Rightarrow> byte list \<Rightarrow> rc \<times> int \<Rightarrow> (rc \<times> RecordPage) option" where
  "handler_update format p rid data lg =
     (if format = format_id ROW_FORMAT then update_record False p rid data lg else Some (UNIMPLEMENTED, p))"

definition store_result :: "page_store \<Rightarrow> int \<Rightarrow> int \<Rightarrow> (rc \<times> RecordPage) option \<Rightarrow> (rc \<times> page_store) option" where
  "store_result st bp pn r = map_option (\<lambda>(rc, p). (rc, put_page st bp pn p)) r"

definition replay_init_page :: "page_store \<Rightarrow> RecordLogHeader \<Rightarrow> byte list \<Rightarrow> (rc \<times> page_store) option" where
  "replay_init_page st h data =
     (case get_page st (rl_buffer_pool_id h) (rl_page_num h) of
        Inl rc \<Rightarrow> Some (rc, st)
      | Inr p \<Rightarrow> store_result st (rl_buffer_pool_id h) (rl_page_num h)
                   (init_empty_page_data p (rl_slot_num h) (rl_column_num h) data))"

definition replay_insert :: "page_store \<Rightarrow> RecordLogHeader \<Rightarrow> byte list \<Rightarrow> (rc \<times> page_store) option" where
  "replay_insert st h data =
     (case get_page st (rl_buffer_pool_id h) (rl_page_num h) of
        Inl rc \<Rightarrow> Some (rc, st)
      | Inr p \<Rightarrow> store_result st (rl_buffer_pool_id h) (rl_page_num h)
                   (map_option (\<lambda>(rc, _, p). (rc, p)) (handler_insert (rl_storage_format h) p data vacuous_append)))"

definition replay_delete :: "page_store \<Rightarrow> RecordLogHeader \<Rightarrow> (rc \<times> page_store) option" where
  "replay_delete st h =
     (case get_page st (rl_buffer_pool_id h) (rl_page_num h) of
        Inl rc \<Rightarrow> Some (rc, st)
      | Inr p \<Rightarrow> store_result st (rl_buffer_pool_id h) (rl_page_num h)
                   (handler_delete (rl_storage_format h) p (RID (rl_page_num h) (rl_slot_num h)) vacuous_append))"

definition replay_update :: "page_store \<Rightarrow> RecordLogHeader \<Rightarrow> byte list \<Rightarrow> (rc \<times> page_store) option" where
  "replay_update st h data =
     (case get_page st (rl_buffer_pool_id h) (rl_page_num h) of
        Inl rc \<Rightarrow> Some (rc, st)
      | Inr p \<Rightarrow> store_result st (rl_buffer_pool_id h) (rl_page_num h)
                   (handler_update (rl_storage_format h) p (RID (rl_page_num h) (rl_slot_num h)) data vacuous_append))"

definition finish_replay :: "LogEntry \<Rightarrow> RecordLogHeader \<Rightarrow> rc \<times> page_store \<Rightarrow> rc \<times> page_store" where
  \<comment> \<open>the frame takes the LSN of an entry that was replayed\<close>
  "finish_replay entry h r =
     (case r of (rc, st) \<Rightarrow>
        if OB_FAIL rc then (rc, st)
        else case get_page st (rl_buffer_pool_id h) (rl_page_num h) of
          Inl _ \<Rightarrow> (rc, st)
        | Inr p \<Rightarrow> (SUCCESS, put_page st (rl_buffer_pool_id h) (rl_page_num h) (p\<lparr>frame_lsn := le_lsn entry\<rparr>)))"

definition record_replay :: "LogEntry \<Rightarrow> page_store \<Rightarrow> (rc \<times> page_store) option" where
  "record_replay entry st =
     (if module_of_index (h_module_id (le_header entry)) \<noteq> Some RECORD_MANAGER then Some (INVALID_ARGUMENT, st)
      else if payload_size entry < int RECORD_LOG_HEADER_SIZE then Some (INVALID_ARGUMENT, st)
      else let h = rl_header (le_data entry); data = drop RECORD_LOG_HEADER_SIZE (le_data entry) in
        case get_page st (rl_buffer_pool_id h) (rl_page_num h) of
          Inl rc \<Rightarrow> Some (rc, st)
        | Inr p \<Rightarrow>
            if le_lsn entry \<le> frame_lsn p then Some (SUCCESS, st)
            else (case operation_of (rl_operation_type h) of
                Some INIT_PAGE \<Rightarrow> map_option (finish_replay entry h) (replay_init_page st h data)
              | Some INSERT \<Rightarrow> map_option (finish_replay entry h) (replay_insert st h data)
              | Some DELETE \<Rightarrow> map_option (finish_replay entry h) (replay_delete st h)
              | Some UPDATE \<Rightarrow> map_option (finish_replay entry h) (replay_update st h data)
              | None \<Rightarrow> Some (INVALID_ARGUMENT, st)))"

fun record_replay_all :: "LogEntry list \<Rightarrow> page_store \<Rightarrow> (rc \<times> page_store) option" where
  \<comment> \<open>\<^verbatim>\<open>LogHandler::replay\<close> over the entries of the record manager\<close>
  "record_replay_all [] st = Some (SUCCESS, st)"
| "record_replay_all (e # es) st =
     (case record_replay e st of
        None \<Rightarrow> None
      | Some (rc, st') \<Rightarrow> if OB_FAIL rc then Some (rc, st') else record_replay_all es st')"

section \<open>Logged operations\<close>

datatype record_op =
    Op_init int int "int list"  \<comment> \<open>page, record size, field lengths in PAX format\<close>
  | Op_insert int "byte list"
  | Op_delete RID
  | Op_update RID "byte list"

fun op_page :: "record_op \<Rightarrow> int" where
  "op_page (Op_init pn _ _) = pn"
| "op_page (Op_insert pn _) = pn"
| "op_page (Op_delete rid) = page_num rid"
| "op_page (Op_update rid _) = page_num rid"

fun op_fits :: "record_op \<Rightarrow> bool" where
  \<comment> \<open>the arguments are 32-bit integers\<close>
  "op_fits (Op_init pn sz lens) = (int_fits 32 pn \<and> int_fits 32 sz \<and> int_fits 32 (int (length lens)))"
| "op_fits (Op_insert pn _) = int_fits 32 pn"
| "op_fits (Op_delete rid) = (int_fits 32 (page_num rid) \<and> int_fits 32 (slot_num rid))"
| "op_fits (Op_update rid _) = (int_fits 32 (page_num rid) \<and> int_fits 32 (slot_num rid))"

definition column_index_bytes :: "RecordPage \<Rightarrow> int list \<Rightarrow> byte list" where
  \<comment> \<open>the bytes \<^verbatim>\<open>init_empty_page\<close> hands to \<^verbatim>\<open>init_new_page\<close>\<close>
  "column_index_bytes p lens = concat (map (int_bytes 4) (column_index (record_capacity (page_header p)) 0 lens))"

fun run_op :: "int \<Rightarrow> StorageFormat \<Rightarrow> int \<Rightarrow> int \<Rightarrow> record_op \<Rightarrow> RecordPage \<Rightarrow> (byte list option \<times> RecordPage) option" where
  \<comment> \<open>the operation on the page, and the payload it appends under LSN \<open>lsn\<close>; none when it changes nothing\<close>
  "run_op bp format junk lsn (Op_init pn sz lens) p =
     (case init_empty_page p sz lens (SUCCESS, lsn) of
        None \<Rightarrow> None
      | Some (_, q) \<Rightarrow> Some (Some (log_init_new_page (record_log_init bp sz format) pn (column_index_bytes q lens)), q))"
| "run_op bp format junk lsn (Op_insert pn data) p =
     (case handler_insert (format_id format) p data (SUCCESS, lsn) of
        None \<Rightarrow> None
      | Some (rc, None, q) \<Rightarrow> Some (None, q)
      | Some (rc, Some rid, q) \<Rightarrow>
          map_option (\<lambda>bs. (Some bs, q))
            (log_insert_record (record_log_init bp (record_real_size (page_header p)) format) (RID pn (slot_num rid)) data))"
| "run_op bp format junk lsn (Op_delete rid) p =
     (case handler_delete (format_id format) p rid (SUCCESS, lsn) of
        None \<Rightarrow> None
      | Some (rc, q) \<Rightarrow>
          Some (if rc = SUCCESS then Some (log_delete_record (record_log_init bp (record_real_size (page_header p)) format) junk rid)
                else None, q))"
| "run_op bp format junk lsn (Op_update rid data) p =
     (case handler_update (format_id format) p rid data (SUCCESS, lsn) of
        None \<Rightarrow> None
      | Some (rc, q) \<Rightarrow>
          if rc = SUCCESS
          then map_option (\<lambda>bs. (Some bs, q))
                 (log_update_record (record_log_init bp (record_real_size (page_header p)) format) rid data)
          else Some (None, q))"

definition record_entry :: "int \<Rightarrow> byte list \<Rightarrow> LogEntry" where
  \<comment> \<open>what \<^verbatim>\<open>append\<close> writes; a page is smaller than the longest payload it takes\<close>
  "record_entry lsn payload =
     \<lparr>le_header = \<lparr>h_lsn = lsn, h_size = int (length payload), h_module_id = module_index RECORD_MANAGER\<rparr>, le_data = payload\<rparr>"

definition op_step :: "int \<Rightarrow> StorageFormat \<Rightarrow> int \<Rightarrow> int \<Rightarrow> record_op \<Rightarrow> page_store \<Rightarrow> (LogEntry list \<times> page_store) option" where
  \<comment> \<open>the operation on the page it names; a page that cannot be fetched is left alone\<close>
  "op_step bp format junk lsn x st =
     (case get_page st bp (op_page x) of
        Inl _ \<Rightarrow> Some ([], st)
      | Inr p \<Rightarrow>
          map_option (\<lambda>(payload, q). (case payload of None \<Rightarrow> [] | Some bs \<Rightarrow> [record_entry lsn bs], put_page st bp (op_page x) q))
            (run_op bp format junk lsn x p))"

fun run_ops :: "int \<Rightarrow> StorageFormat \<Rightarrow> int \<Rightarrow> (int \<times> record_op) list \<Rightarrow> page_store \<Rightarrow> (LogEntry list \<times> page_store) option" where
  \<comment> \<open>operations on one buffer pool, with the LSNs the log gives them\<close>
  "run_ops bp format junk [] st = Some ([], st)"
| "run_ops bp format junk ((lsn, x) # xs) st =
     (case op_step bp format junk lsn x st of
        None \<Rightarrow> None
      | Some (es, st1) \<Rightarrow> map_option (\<lambda>(es', st'). (es @ es', st')) (run_ops bp format junk xs st1))"

section \<open>Pages up to the dirty flag\<close>

definition clean :: "RecordPage \<Rightarrow> RecordPage" where
  "clean p = p\<lparr>frame_dirty := False\<rparr>"

fun same_slot :: "rc + RecordPage \<Rightarrow> rc + RecordPage \<Rightarrow> bool" where
  "same_slot (Inl a) (Inl b) = (a = b)"
| "same_slot (Inr p) (Inr q) = (clean p = clean q)"
| "same_slot _ _ = False"

lemma same_slot_refl [simp]: "same_slot x x"
  by (cases x) auto

lemma same_slot_trans: "same_slot x y \<Longrightarrow> same_slot y z \<Longrightarrow> same_slot x z"
  by (cases x; cases y; cases z) auto

lemma clean_eq_iff: "clean p = clean q \<longleftrightarrow> q = p\<lparr>frame_dirty := frame_dirty q\<rparr>"
  by (cases p; cases q) (auto simp: clean_def)

lemma clean_set_lsn [simp]: "clean (p\<lparr>frame_lsn := l\<rparr>) = (clean p)\<lparr>frame_lsn := l\<rparr>"
  by (simp add: clean_def)

section \<open>Redo of one entry\<close>

lemma rl_header_bytes:
  assumes "int_fits 32 (rl_buffer_pool_id h)" "int_fits 32 (rl_operation_type h)" "int_fits 32 (rl_page_num h)"
    "int_fits 32 (rl_storage_format h)"
  shows "rl_buffer_pool_id (rl_header (rl_bytes h @ data)) = rl_buffer_pool_id h"
    "rl_operation_type (rl_header (rl_bytes h @ data)) = rl_operation_type h"
    "rl_page_num (rl_header (rl_bytes h @ data)) = rl_page_num h"
    "rl_storage_format (rl_header (rl_bytes h @ data)) = rl_storage_format h"
    "int_fits 32 (rl_column_num h) \<Longrightarrow> rl_column_num (rl_header (rl_bytes h @ data)) = rl_column_num h"
    "int_fits 32 (rl_slot_num h) \<Longrightarrow> rl_slot_num (rl_header (rl_bytes h @ data)) = rl_slot_num h"
  using assms bytes_int_bytes [of 4] by (simp_all add: rl_header_def rl_bytes_def slice_def)

lemma length_rl_bytes [simp]: "length (rl_bytes h) = 24"
  by (simp add: rl_bytes_def)

lemma small_ids_fit [simp]: "int_fits 32 (type_id x)" "int_fits 32 (format_id f)"
  by (cases x; simp add: int_fits_def) (cases f; simp add: int_fits_def)

lemma mem_read_prefix: "mem_read data 0 n = Some bs \<Longrightarrow> mem_read bs 0 n = Some bs"
  by (auto simp: mem_read_def slice_def split: if_splits)

lemmas page_op_defs = write_record_data_def add_record_num_def with_bitmap_def page_bitmap_def get_record_data_def
  set_frame_lsn_def mark_dirty_def clean_def

lemma insert_redo:
  assumes "insert_record False p data (SUCCESS, lsn) = Some (rc, Some rid, q)" and "0 < lsn"
    and "mem_read data 0 (record_real_size (page_header p)) = Some bs"
  shows "\<exists>q'. insert_record False (p\<lparr>frame_dirty := d\<rparr>) bs (SUCCESS, 0) = Some (SUCCESS, Some rid, q') \<and>
    clean (q'\<lparr>frame_lsn := lsn\<rparr>) = clean q \<and> frame_lsn q = lsn"
  using assms mem_read_prefix [OF assms(3)]
  by (auto simp: insert_record_def page_op_defs split: if_splits option.splits)

lemma delete_redo:
  assumes "delete_record False p rid (SUCCESS, lsn) = Some (SUCCESS, q)" and "0 < lsn"
  shows "\<exists>q'. delete_record False (p\<lparr>frame_dirty := d\<rparr>) rid (SUCCESS, 0) = Some (SUCCESS, q') \<and>
    clean (q'\<lparr>frame_lsn := lsn\<rparr>) = clean q \<and> frame_lsn q = lsn"
  using assms by (auto simp: delete_record_def page_op_defs split: if_splits option.splits)

lemma update_redo:
  assumes "update_record False p rid data (SUCCESS, lsn) = Some (SUCCESS, q)" and "0 < lsn"
    and "mem_read data 0 (record_real_size (page_header p)) = Some bs"
  shows "\<exists>q'. update_record False (p\<lparr>frame_dirty := d\<rparr>) rid bs (SUCCESS, 0) = Some (SUCCESS, q') \<and>
    clean (q'\<lparr>frame_lsn := lsn\<rparr>) = clean q \<and> frame_lsn q = lsn"
  using assms mem_read_prefix [OF assms(3)]
  by (auto simp: update_record_def page_op_defs split: if_splits option.splits)

lemma pax_delete_record_eq: "pax_delete_record = delete_record"
  by (intro ext) (simp add: pax_delete_record_def delete_record_def)

lemma length_column_index [simp]: "length (column_index cap acc lens) = length lens"
  by (induction lens arbitrary: acc) auto

lemma length_column_index_bytes [simp]: "length (column_index_bytes p lens) = 4 * length lens"
  by (simp add: column_index_bytes_def length_concat comp_def sum_list_triv)

lemma init_redo:
  assumes "init_empty_page p sz lens (SUCCESS, lsn) = Some (rc, q)" and "0 < lsn"
  shows "\<exists>q'. init_empty_page_data (p\<lparr>frame_dirty := d\<rparr>) sz (int (length lens)) (column_index_bytes q lens) = Some (SUCCESS, q') \<and>
    clean (q'\<lparr>frame_lsn := lsn\<rparr>) = clean q \<and> frame_lsn q = lsn"
proof -
  obtain h d1 d2 where h: "fix_record_capacity (empty_header sz (int (length lens))) = Some h"
    "\<not> BP_PAGE_DATA_SIZE < data_offset h + record_capacity h * record_size h"
    "mem_write (page_data p) PAGE_HEADER_SIZE (replicate (nat (page_bitmap_size (record_capacity h))) 0) = Some d1"
    "mem_write d1 (col_idx_offset h) (concat (map (int_bytes 4) (column_index (record_capacity h) 0 lens))) = Some d2"
    and q: "q = p\<lparr>page_header := h, page_data := d2, frame_lsn := lsn\<rparr>"
    using assms by (auto simp: init_empty_page_def init_page_with_def set_frame_lsn_def split: option.splits if_splits)
  have "mem_read (column_index_bytes q lens) 0 (int (length lens) * 4) = Some (column_index_bytes q lens)"
    by (simp add: mem_read_def slice_def)
  then show ?thesis using h unfolding q by (simp add: init_empty_page_data_def init_page_with_def column_index_bytes_def clean_def)
qed

lemma payload_header:
  assumes "int_fits 32 bp" and "int_fits 32 pn"
  shows "rl_buffer_pool_id (rl_header (rl_bytes \<lparr>rl_buffer_pool_id = bp, rl_operation_type = type_id x, rl_page_num = pn,
      rl_storage_format = format_id f, rl_column_num = c, rl_slot_num = s\<rparr> @ data)) = bp"
    "rl_operation_type (rl_header (rl_bytes \<lparr>rl_buffer_pool_id = bp, rl_operation_type = type_id x, rl_page_num = pn,
      rl_storage_format = format_id f, rl_column_num = c, rl_slot_num = s\<rparr> @ data)) = type_id x"
    "rl_page_num (rl_header (rl_bytes \<lparr>rl_buffer_pool_id = bp, rl_operation_type = type_id x, rl_page_num = pn,
      rl_storage_format = format_id f, rl_column_num = c, rl_slot_num = s\<rparr> @ data)) = pn"
    "rl_storage_format (rl_header (rl_bytes \<lparr>rl_buffer_pool_id = bp, rl_operation_type = type_id x, rl_page_num = pn,
      rl_storage_format = format_id f, rl_column_num = c, rl_slot_num = s\<rparr> @ data)) = format_id f"
    "int_fits 32 c \<Longrightarrow> rl_column_num (rl_header (rl_bytes \<lparr>rl_buffer_pool_id = bp, rl_operation_type = type_id x, rl_page_num = pn,
      rl_storage_format = format_id f, rl_column_num = c, rl_slot_num = s\<rparr> @ data)) = c"
    "int_fits 32 s \<Longrightarrow> rl_slot_num (rl_header (rl_bytes \<lparr>rl_buffer_pool_id = bp, rl_operation_type = type_id x, rl_page_num = pn,
      rl_storage_format = format_id f, rl_column_num = c, rl_slot_num = s\<rparr> @ data)) = s"
  using assms by (simp_all add: rl_header_bytes)

text \<open>\<open>redo_of\<close>: the entry repeats, on a page \<open>p'\<close>, the operation that made \<open>q\<close>.\<close>

definition redo_of :: "int \<Rightarrow> int \<Rightarrow> LogEntry \<Rightarrow> RecordPage \<Rightarrow> RecordPage \<Rightarrow> bool" where
  "redo_of bp pn e p q \<longleftrightarrow>
     (\<forall>st p'. get_page st bp pn = Inr p' \<longrightarrow> clean p' = clean p \<longrightarrow> frame_lsn p < le_lsn e \<longrightarrow>
        (\<exists>q'. record_replay e st = Some (SUCCESS, put_page st bp pn q') \<and> clean q' = clean q))"

lemma put_put_page [simp]: "put_page (put_page st bp pn p) bp pn q = put_page st bp pn q"
  by (cases "st bp") (auto simp: put_page_def)

fun replay_page :: "RecordOperation \<Rightarrow> RecordLogHeader \<Rightarrow> RecordPage \<Rightarrow> byte list \<Rightarrow> (rc \<times> RecordPage) option" where
  \<comment> \<open>the effect of the four \<^verbatim>\<open>replay_\<close> functions on the page\<close>
  "replay_page INIT_PAGE h p data = init_empty_page_data p (rl_slot_num h) (rl_column_num h) data"
| "replay_page INSERT h p data =
     map_option (\<lambda>(rc, _, p). (rc, p)) (handler_insert (rl_storage_format h) p data vacuous_append)"
| "replay_page DELETE h p data =
     handler_delete (rl_storage_format h) p (RID (rl_page_num h) (rl_slot_num h)) vacuous_append"
| "replay_page UPDATE h p data =
     handler_update (rl_storage_format h) p (RID (rl_page_num h) (rl_slot_num h)) data vacuous_append"

lemma record_replay_page:
  assumes e: "h_module_id (le_header e) = 2" "payload_size e = int (length (le_data e))" "24 \<le> length (le_data e)"
    and h: "h = rl_header (le_data e)" "rl_operation_type h = type_id x"
    and p: "get_page st (rl_buffer_pool_id h) (rl_page_num h) = Inr p" "frame_lsn p < le_lsn e"
    and q: "replay_page x h p (drop 24 (le_data e)) = Some (SUCCESS, q)"
  shows "record_replay e st = Some (SUCCESS, put_page st (rl_buffer_pool_id h) (rl_page_num h) (q\<lparr>frame_lsn := le_lsn e\<rparr>))"
proof -
  have m: "module_of_index (h_module_id (le_header e)) = Some RECORD_MANAGER" by (simp add: e(1) module_of_index_def)
  have f: "map_option (finish_replay e h) (store_result st (rl_buffer_pool_id h) (rl_page_num h) (Some (SUCCESS, q))) =
      Some (SUCCESS, put_page st (rl_buffer_pool_id h) (rl_page_num h) (q\<lparr>frame_lsn := le_lsn e\<rparr>))"
    using p(1) by (simp add: store_result_def finish_replay_def get_put_page)
  have n: "\<not> payload_size e < int RECORD_LOG_HEADER_SIZE" using e(2,3) by (simp add: RECORD_LOG_HEADER_SIZE_def)
  have op: "operation_of (rl_operation_type h) = Some x" by (simp add: h(2))
  show ?thesis using p q f op m n unfolding record_replay_def h(1) [symmetric] Let_def
    by (cases x) (auto simp: RECORD_LOG_HEADER_SIZE_def replay_init_page_def replay_insert_def replay_delete_def replay_update_def)
qed

lemma redo_ofI:
  assumes fits: "int_fits 32 bp" "int_fits 32 pn"
    and step: "\<And>h p'. clean p' = clean p \<Longrightarrow> rl_storage_format h = format_id f \<Longrightarrow> rl_page_num h = pn \<Longrightarrow>
      (int_fits 32 c \<Longrightarrow> rl_column_num h = c) \<Longrightarrow> (int_fits 32 s \<Longrightarrow> rl_slot_num h = s) \<Longrightarrow>
      \<exists>q'. replay_page x h p' data = Some (SUCCESS, q') \<and> clean (q'\<lparr>frame_lsn := lsn\<rparr>) = clean q"
  shows "redo_of bp pn (record_entry lsn (rl_bytes \<lparr>rl_buffer_pool_id = bp, rl_operation_type = type_id x, rl_page_num = pn,
      rl_storage_format = format_id f, rl_column_num = c, rl_slot_num = s\<rparr> @ data)) p q" (is "redo_of _ _ ?e _ _")
  unfolding redo_of_def
proof (intro allI impI)
  fix st p'
  assume p': "get_page st bp pn = Inr p'" and eq: "clean p' = clean p" and old: "frame_lsn p < le_lsn ?e"
  define h where "h = rl_header (le_data ?e)"
  have h: "rl_buffer_pool_id h = bp" "rl_page_num h = pn" "rl_operation_type h = type_id x" "rl_storage_format h = format_id f"
    "int_fits 32 c \<Longrightarrow> rl_column_num h = c" "int_fits 32 s \<Longrightarrow> rl_slot_num h = s"
    using payload_header [OF fits] by (simp_all add: h_def record_entry_def)
  have l: "le_lsn ?e = lsn" by (simp add: le_lsn_def record_entry_def)
  have "frame_lsn p' = frame_lsn p" using arg_cong [OF eq, of frame_lsn] by (simp add: clean_def)
  then have lt: "frame_lsn p' < le_lsn ?e" using old by simp
  obtain q' where q': "replay_page x h p' data = Some (SUCCESS, q')" "clean (q'\<lparr>frame_lsn := lsn\<rparr>) = clean q"
    using step [OF eq h(4,2)] h(5,6) by blast
  have "record_replay ?e st = Some (SUCCESS, put_page st bp pn (q'\<lparr>frame_lsn := lsn\<rparr>))"
    using record_replay_page [of ?e h x st p' q'] h h_def p' lt q' l by (simp add: record_entry_def payload_size_def)
  then show "\<exists>q'. record_replay ?e st = Some (SUCCESS, put_page st bp pn q') \<and> clean q' = clean q"
    using q'(2) by blast
qed

lemma clean_dirty: "clean p' = clean p \<Longrightarrow> \<exists>d. p' = p\<lparr>frame_dirty := d\<rparr>"
  using clean_eq_iff [of p p'] by metis

lemma run_op_redo:
  assumes "run_op bp f junk lsn x p = Some (Some bs, q)" and "op_fits x" and bp: "int_fits 32 bp" and lsn: "0 < lsn"
  shows "redo_of bp (op_page x) (record_entry lsn bs) p q \<and> frame_lsn q = lsn"
proof (cases x)
  case (Op_init pn sz lens)
  then obtain rc where q: "init_empty_page p sz lens (SUCCESS, lsn) = Some (rc, q)"
    and bs: "bs = log_init_new_page (record_log_init bp sz f) pn (column_index_bytes q lens)"
    using assms(1) by (auto split: option.splits)
  have fits: "int_fits 32 pn" "int_fits 32 sz" "int_fits 32 (int (length lens))" using assms(2) Op_init by simp_all
  have "redo_of bp pn (record_entry lsn bs) p q"
    unfolding bs log_init_new_page_def record_log_init_def RecordLogHandler.simps
    by (rule redo_ofI [OF bp fits(1)]) (use init_redo [OF q lsn] fits clean_dirty in force)
  then show ?thesis using init_redo [OF q lsn, of False] Op_init by auto
next
  case (Op_insert pn data)
  obtain rc rid dat where q: "insert_record False p data (SUCCESS, lsn) = Some (rc, Some rid, q)" and f: "format_id f = 1"
    and dat: "mem_read data 0 (record_real_size (page_header p)) = Some dat"
    and bs: "bs = rl_bytes \<lparr>rl_buffer_pool_id = bp, rl_operation_type = type_id INSERT, rl_page_num = pn,
         rl_storage_format = format_id f, rl_column_num = 0, rl_slot_num = slot_num rid\<rparr> @ dat"
    using assms(1) Op_insert
    by (auto simp: handler_insert_def log_insert_record_def record_log_init_def split: option.splits if_splits)
  have "redo_of bp pn (record_entry lsn bs) p q" unfolding bs
    by (rule redo_ofI [OF bp]) (use insert_redo [OF q lsn dat] f Op_insert assms(2) clean_dirty in \<open>force simp: handler_insert_def vacuous_append_def\<close>)+
  then show ?thesis using insert_redo [OF q lsn dat, of False] Op_insert by auto
next
  case (Op_delete rid)
  have eq: "handler_delete (format_id f) = delete_record False" by (auto simp: handler_delete_def pax_delete_record_eq fun_eq_iff)
  have q: "delete_record False p rid (SUCCESS, lsn) = Some (SUCCESS, q)"
    and bs: "bs = rl_bytes \<lparr>rl_buffer_pool_id = bp, rl_operation_type = type_id DELETE, rl_page_num = page_num rid,
       rl_storage_format = format_id f, rl_column_num = junk, rl_slot_num = slot_num rid\<rparr> @ []"
    using assms(1) Op_delete by (auto simp: eq log_delete_record_def record_log_init_def split: option.splits if_splits)
  have "redo_of bp (page_num rid) (record_entry lsn bs) p q" unfolding bs
    by (rule redo_ofI [OF bp]) (use delete_redo [OF q lsn] Op_delete assms(2) clean_dirty eq in \<open>force simp: vacuous_append_def\<close>)+
  then show ?thesis using delete_redo [OF q lsn, of False] Op_delete by auto
next
  case (Op_update rid data)
  obtain dat where q: "update_record False p rid data (SUCCESS, lsn) = Some (SUCCESS, q)" and f: "format_id f = 1"
    and dat: "mem_read data 0 (record_real_size (page_header p)) = Some dat"
    and bs: "bs = rl_bytes \<lparr>rl_buffer_pool_id = bp, rl_operation_type = type_id UPDATE, rl_page_num = page_num rid,
         rl_storage_format = format_id f, rl_column_num = 0, rl_slot_num = slot_num rid\<rparr> @ dat"
    using assms(1) Op_update
    by (auto simp: handler_update_def log_update_record_def record_log_init_def split: option.splits if_splits)
  have "redo_of bp (page_num rid) (record_entry lsn bs) p q" unfolding bs
    by (rule redo_ofI [OF bp]) (use update_redo [OF q lsn dat] f Op_update assms(2) clean_dirty in \<open>force simp: handler_update_def vacuous_append_def\<close>)+
  then show ?thesis using update_redo [OF q lsn dat, of False] Op_update by auto
qed

lemma run_op_silent:
  assumes "run_op bp f junk lsn x p = Some (None, q)"
  shows "q = p"
  using assms
  by (cases x) (auto simp: handler_insert_def insert_record_def handler_delete_def delete_record_def pax_delete_record_def
      handler_update_def update_record_def log_insert_record_def split: option.splits if_splits)

lemma run_op_payload:
  assumes "run_op bp f junk lsn x p = Some (Some bs, q)" and "int_fits 32 bp" and "int_fits 32 (op_page x)"
  shows "24 \<le> length bs \<and> rl_buffer_pool_id (rl_header bs) = bp \<and> rl_page_num (rl_header bs) = op_page x"
proof -
  have "\<exists>ty c s data. bs = rl_bytes \<lparr>rl_buffer_pool_id = bp, rl_operation_type = type_id ty, rl_page_num = op_page x,
      rl_storage_format = format_id f, rl_column_num = c, rl_slot_num = s\<rparr> @ data"
  proof (cases x)
    case (Op_delete rid)
    then have "bs = rl_bytes \<lparr>rl_buffer_pool_id = bp, rl_operation_type = type_id DELETE, rl_page_num = op_page x,
        rl_storage_format = format_id f, rl_column_num = junk, rl_slot_num = slot_num rid\<rparr> @ []"
      using assms(1) by (auto simp: log_delete_record_def record_log_init_def split: option.splits if_splits)
    then show ?thesis by blast
  qed (use assms(1) in \<open>auto simp: log_init_new_page_def log_insert_record_def log_update_record_def record_log_init_def
      simp del: type_id.simps length_column_index_bytes append_eq_append_conv split: option.splits if_splits, blast+\<close>)
  then show ?thesis using payload_header [OF assms(2,3)] by auto
qed

section \<open>Recovery\<close>

definition lsn_upto :: "page_store \<Rightarrow> int \<Rightarrow> bool" where
  \<comment> \<open>no page is newer than \<open>l\<close>\<close>
  "lsn_upto st l \<longleftrightarrow> (\<forall>bp pn p. get_page st bp pn = Inr p \<longrightarrow> frame_lsn p \<le> l)"

fun lsns_ok :: "int \<Rightarrow> (int \<times> record_op) list \<Rightarrow> bool" where
  \<comment> \<open>the LSNs grow from \<open>l\<close> on, and the operations are typed\<close>
  "lsns_ok l [] = True"
| "lsns_ok l ((lsn, x) # xs) = (l < lsn \<and> op_fits x \<and> lsns_ok lsn xs)"

definition entry_for :: "int \<Rightarrow> int \<Rightarrow> int \<Rightarrow> LogEntry \<Rightarrow> bool" where
  "entry_for bp pn lsn e \<longleftrightarrow> h_module_id (le_header e) = 2 \<and> payload_size e = int (length (le_data e)) \<and> 24 \<le> length (le_data e) \<and>
     rl_buffer_pool_id (rl_header (le_data e)) = bp \<and> rl_page_num (rl_header (le_data e)) = pn \<and> le_lsn e = lsn"

lemma op_step_cases:
  assumes "op_step bp f junk lsn x st = Some (es, st')" and "op_fits x" and "int_fits 32 bp" and "0 < lsn"
  obtains (silent) "es = []" "st' = st"
  | (logged) p q e where "get_page st bp (op_page x) = Inr p" "redo_of bp (op_page x) e p q" "frame_lsn q = lsn"
      "entry_for bp (op_page x) lsn e" "es = [e]" "st' = put_page st bp (op_page x) q"
proof (cases "get_page st bp (op_page x)")
  case (Inr p)
  obtain payload q where r: "run_op bp f junk lsn x p = Some (payload, q)" "st' = put_page st bp (op_page x) q"
    "es = (case payload of None \<Rightarrow> [] | Some bs \<Rightarrow> [record_entry lsn bs])"
    using assms(1) Inr by (auto simp: op_step_def)
  show ?thesis
  proof (cases payload)
    case None
    have "q = p" using run_op_silent r(1) None by blast
    moreover have "put_page st bp (op_page x) p = st"
      using Inr by (cases "st bp") (auto simp: get_page_def put_page_def fun_eq_iff)
    ultimately show ?thesis using silent r None by simp
  next
    case (Some bs)
    have pn: "int_fits 32 (op_page x)" using assms(2) by (cases x) auto
    note bs = run_op_payload [OF r(1) [unfolded Some] assms(3) pn]
    show ?thesis
      using logged [OF Inr, of "record_entry lsn bs" q] run_op_redo [OF _ assms(2-4), of f junk p bs q] r Some bs
      by (simp add: record_entry_def le_lsn_def payload_size_def entry_for_def)
  qed
qed (use assms silent in \<open>simp add: op_step_def\<close>)

lemma record_replay_skip:
  assumes "entry_for bp pn lsn e" and "get_page st bp pn = Inr p" and "lsn \<le> frame_lsn p"
  shows "record_replay e st = Some (SUCCESS, st)"
  using assms by (simp add: record_replay_def entry_for_def RECORD_LOG_HEADER_SIZE_def module_of_index_def Let_def)

lemma op_step_lsn:
  assumes "op_step bp f junk lsn x st = Some (es, st')" and "op_fits x" and "int_fits 32 bp" and "0 < lsn"
    and "lsn_upto st l" and "l < lsn"
  shows "lsn_upto st' lsn" and "get_page st b pn = Inr p \<Longrightarrow> \<exists>p'. get_page st' b pn = Inr p' \<and> frame_lsn p \<le> frame_lsn p'"
proof -
  have "lsn_upto st' lsn \<and> (get_page st b pn = Inr p \<longrightarrow> (\<exists>p'. get_page st' b pn = Inr p' \<and> frame_lsn p \<le> frame_lsn p'))"
    using assms(1-4)
  proof (cases rule: op_step_cases)
    case silent
    then show ?thesis using assms(5,6) by (fastforce simp: lsn_upto_def)
  next
    case (logged p0 q e)
    have "frame_lsn p0 \<le> lsn" using assms(5,6) logged(1) by (fastforce simp: lsn_upto_def)
    then show ?thesis using logged assms(5,6) get_put_page [OF logged(1)] by (fastforce simp: lsn_upto_def split: if_splits)
  qed
  then show "lsn_upto st' lsn" "get_page st b pn = Inr p \<Longrightarrow> \<exists>p'. get_page st' b pn = Inr p' \<and> frame_lsn p \<le> frame_lsn p'" by auto
qed

lemma run_ops_lsn:
  assumes "run_ops bp f junk xs st = Some (es, st')" and "lsns_ok l xs" and "0 \<le> l" and "int_fits 32 bp" and "lsn_upto st l"
    and "get_page st b pn = Inr p"
  shows "\<exists>p'. get_page st' b pn = Inr p' \<and> frame_lsn p \<le> frame_lsn p'"
  using assms
proof (induction xs arbitrary: st es p l)
  case (Cons y xs)
  obtain lsn x where y: "y = (lsn, x)" by (cases y)
  obtain es1 st1 es2 where s: "op_step bp f junk lsn x st = Some (es1, st1)" "run_ops bp f junk xs st1 = Some (es2, st')"
    using Cons.prems(1) y by (auto split: option.splits)
  have l: "op_fits x" "0 < lsn" "l < lsn" "lsns_ok lsn xs" "0 \<le> lsn" using Cons.prems(2,3) y by auto
  note st1 = op_step_lsn [OF s(1) l(1) Cons.prems(4) l(2) Cons.prems(5) l(3)]
  obtain p1 where p1: "get_page st1 b pn = Inr p1" "frame_lsn p \<le> frame_lsn p1" using st1(2) Cons.prems(6) by blast
  show ?case using Cons.IH [OF s(2) l(4,5) Cons.prems(4) st1(1) p1(1)] p1(2) by fastforce
qed simp

text \<open>
  What a crash leaves on disk: of every page some version that it had during the run, pages having been flushed
  independently of each other.
\<close>

definition crash_store :: "int \<Rightarrow> StorageFormat \<Rightarrow> int \<Rightarrow> (int \<times> record_op) list \<Rightarrow> page_store \<Rightarrow> page_store \<Rightarrow> bool" where
  "crash_store bp f junk xs st c \<longleftrightarrow>
     (\<forall>b pn. \<exists>k es st'. run_ops bp f junk (take k xs) st = Some (es, st') \<and> same_slot (get_page c b pn) (get_page st' b pn))"

definition same_store :: "page_store \<Rightarrow> page_store \<Rightarrow> bool" where
  "same_store c st \<longleftrightarrow> (\<forall>b pn. same_slot (get_page c b pn) (get_page st b pn))"

lemma crash_store_key:
  \<comment> \<open>after the first operation, a page is either the one before it or a version of the rest of the run\<close>
  assumes "crash_store bp f junk ((lsn, x) # xs) st c" and "op_step bp f junk lsn x st = Some (es, st1)"
  shows "same_slot (get_page c b pn) (get_page st b pn) \<or>
    (\<exists>k es' st'. run_ops bp f junk (take k xs) st1 = Some (es', st') \<and> same_slot (get_page c b pn) (get_page st' b pn))"
proof -
  obtain k es' st' where k: "run_ops bp f junk (take k ((lsn, x) # xs)) st = Some (es', st')"
    "same_slot (get_page c b pn) (get_page st' b pn)" using assms(1) unfolding crash_store_def by blast
  show ?thesis
  proof (cases k)
    case (Suc k')
    then show ?thesis using k assms(2) by (auto split: option.splits)
  qed (use k in simp)
qed

lemma same_slot_Inr: "same_slot s (Inr q) \<Longrightarrow> \<exists>p. s = Inr p \<and> clean p = clean q"
  by (cases s) auto

lemma clean_lsn: "clean p = clean q \<Longrightarrow> frame_lsn p = frame_lsn q"
  by (cases p; cases q) (simp add: clean_def)

lemma lsns_ok_take: "lsns_ok l xs \<Longrightarrow> lsns_ok l (take k xs)"
proof (induction xs arbitrary: k l)
  case (Cons y xs)
  then show ?case by (cases k; cases y) auto
qed simp

lemma redo_crash_store:
  assumes step: "op_step bp f junk lsn x st = Some (es, st1)" and x: "op_fits x" and bp: "int_fits 32 bp" and "0 \<le> l" "l < lsn"
    and ok: "lsns_ok lsn xs" and upto: "lsn_upto st l" and c: "crash_store bp f junk ((lsn, x) # xs) st c"
  shows "\<exists>c1. record_replay_all es c = Some (SUCCESS, c1) \<and> crash_store bp f junk xs st1 c1"
proof -
  have lsn: "0 < lsn" "0 \<le> lsn" using assms(4,5) by auto
  note key = crash_store_key [OF c step]
  have here: "\<exists>k es' st'. run_ops bp f junk (take k xs) st1 = Some (es', st') \<and> same_slot s (get_page st' b pn)"
    if "same_slot s (get_page st1 b pn)" for s b pn
    using that by (intro exI [where x = 0]) simp
  show ?thesis using step x bp lsn(1)
  proof (cases rule: op_step_cases)
    case silent
    have "crash_store bp f junk xs st1 c"
      unfolding crash_store_def using key here silent(2) by blast
    then show ?thesis using silent by simp
  next
    case (logged p q e)
    let ?pn = "op_page x"
    have st1: "get_page st1 b pn = (if b = bp \<and> pn = ?pn then Inr q else get_page st b pn)" for b pn
      using get_put_page [OF logged(1)] logged(6) by simp
    have others: "\<exists>k es' st'. run_ops bp f junk (take k xs) st1 = Some (es', st') \<and> same_slot (get_page c b pn) (get_page st' b pn)"
      if "\<not> (b = bp \<and> pn = ?pn)" for b pn
      using key [of b pn] here [of "get_page c b pn" b pn] st1 [of b pn] that by auto
    from key [of bp ?pn] show ?thesis
    proof
      assume "same_slot (get_page c bp ?pn) (get_page st bp ?pn)"
      then obtain p' where p': "get_page c bp ?pn = Inr p'" "clean p' = clean p" using logged(1) same_slot_Inr by fastforce
      have "frame_lsn p < le_lsn e" using upto logged(1,4) assms(5) by (fastforce simp: lsn_upto_def entry_for_def)
      then obtain q' where q': "record_replay e c = Some (SUCCESS, put_page c bp ?pn q')" "clean q' = clean q"
        using logged(2) p' unfolding redo_of_def by blast
      have "crash_store bp f junk xs st1 (put_page c bp ?pn q')" unfolding crash_store_def
      proof (intro allI)
        fix b pn
        show "\<exists>k es' st'. run_ops bp f junk (take k xs) st1 = Some (es', st') \<and> same_slot (get_page (put_page c bp ?pn q') b pn) (get_page st' b pn)"
          using here [of "Inr q'" bp ?pn] others [of b pn] st1 [of bp ?pn] q'(2) by (cases "b = bp \<and> pn = ?pn") (auto simp: get_put_page [OF p'(1)])
      qed
      then show ?thesis using q'(1) logged(5) by simp
    next
      assume "\<exists>k es' st'. run_ops bp f junk (take k xs) st1 = Some (es', st') \<and> same_slot (get_page c bp ?pn) (get_page st' bp ?pn)"
      then obtain k es' st' where k: "run_ops bp f junk (take k xs) st1 = Some (es', st')" "same_slot (get_page c bp ?pn) (get_page st' bp ?pn)"
        by blast
      have "lsn_upto st1 lsn" using op_step_lsn(1) [OF step x bp lsn(1) upto assms(5)] .
      then obtain q' where q': "get_page st' bp ?pn = Inr q'" "lsn \<le> frame_lsn q'"
        using run_ops_lsn [OF k(1) lsns_ok_take [OF ok] lsn(2) bp] st1 [of bp ?pn] logged(3) by fastforce
      then obtain p' where p': "get_page c bp ?pn = Inr p'" "clean p' = clean q'" using k(2) same_slot_Inr by fastforce
      have "record_replay e c = Some (SUCCESS, c)"
        using record_replay_skip [OF logged(4) p'(1)] q'(2) clean_lsn [OF p'(2)] by simp
      moreover have "crash_store bp f junk xs st1 c" unfolding crash_store_def
      proof (intro allI)
        fix b pn
        show "\<exists>k es' st'. run_ops bp f junk (take k xs) st1 = Some (es', st') \<and> same_slot (get_page c b pn) (get_page st' b pn)"
          by (cases "b = bp \<and> pn = ?pn") (use k others in blast)+
      qed
      ultimately show ?thesis using logged(5) by simp
    qed
  qed
qed

lemma record_replay_all_append:
  "record_replay_all es c = Some (SUCCESS, c1) \<Longrightarrow> record_replay_all (es @ es') c = record_replay_all es' c1"
  by (induction es arbitrary: c) (auto split: option.splits if_splits)

text \<open>
  C8: redo recovery of record pages. Let a run of page initialisations, inserts, deletes and updates log under growing LSNs,
  and let a crash leave, of every page independently, any version that it had during the run. Then replaying the whole
  log succeeds and brings every page to its state at the end of the run: an entry whose effect a page already has is
  skipped by its LSN, and any other is repeated on exactly the page it was logged for, so that also an insert, which
  searches its slot again, takes the slot it had.
\<close>

theorem record_redo_recovers:
  assumes "run_ops bp f junk xs st = Some (es, stn)" and "lsns_ok l xs" and "0 \<le> l" and "int_fits 32 bp" and "lsn_upto st l"
    and "crash_store bp f junk xs st c"
  shows "\<exists>c'. record_replay_all es c = Some (SUCCESS, c') \<and> same_store c' stn"
  using assms
proof (induction xs arbitrary: st es l c)
  case Nil
  then show ?case by (auto simp: crash_store_def same_store_def)
next
  case (Cons y xs)
  obtain lsn x where y: "y = (lsn, x)" by (cases y)
  obtain es1 st1 es2 where s: "op_step bp f junk lsn x st = Some (es1, st1)" "run_ops bp f junk xs st1 = Some (es2, stn)" "es = es1 @ es2"
    using Cons.prems(1) y by (auto split: option.splits)
  have l: "op_fits x" "0 < lsn" "l < lsn" "lsns_ok lsn xs" "0 \<le> lsn" using Cons.prems(2,3) y by auto
  obtain c1 where c1: "record_replay_all es1 c = Some (SUCCESS, c1)" "crash_store bp f junk xs st1 c1"
    using redo_crash_store [OF s(1) l(1) Cons.prems(4) Cons.prems(3) l(3,4) Cons.prems(5)] Cons.prems(6) y by blast
  have "lsn_upto st1 lsn" using op_step_lsn(1) [OF s(1) l(1) Cons.prems(4) l(2) Cons.prems(5) l(3)] .
  from Cons.IH [OF s(2) l(4,5) Cons.prems(4) this c1(2)] show ?case
    using record_replay_all_append [OF c1(1)] s(3) by simp
qed

definition example_store :: page_store where
  "example_store = [1 \<mapsto> (\<lambda>pn. if pn = 3 then Inr one_record_page else Inl BUFFERPOOL_INVALID_PAGE_NUM)]"

definition example_ops :: "(int \<times> record_op) list" where
  "example_ops = [(5, Op_insert 3 [9]), (6, Op_delete (RID 3 1)), (8, Op_update (RID 3 0) [4])]"

theorem record_redo_recovers_witness:
  "\<exists>es stn c'. run_ops 1 ROW_FORMAT 77 example_ops example_store = Some (es, stn) \<and> length es = 3 \<and>
     record_replay_all es example_store = Some (SUCCESS, c') \<and> same_store c' stn"
proof -
  have "map_option (length \<circ> fst) (run_ops 1 ROW_FORMAT 77 example_ops example_store) = Some 3" by code_simp
  then obtain es stn where run: "run_ops 1 ROW_FORMAT 77 example_ops example_store = Some (es, stn)" "length es = 3" by auto
  have "lsns_ok 0 example_ops" by code_simp
  moreover have "int_fits 32 1" by (simp add: int_fits_def)
  moreover have "lsn_upto example_store 0"
    by (auto simp: lsn_upto_def example_store_def get_page_def one_record_page_def split: if_splits)
  moreover have "crash_store 1 ROW_FORMAT 77 example_ops example_store example_store"
    unfolding crash_store_def by (intro allI exI [where x = 0]) simp
  ultimately show ?thesis using record_redo_recovers [OF run(1), of 0 example_store] run by auto
qed

end
