(* ===== verification/File_Header.thy ===== *)
theory File_Header
  imports Record_Page Log_Entry
begin

text \<open>
  The header page of a buffer-pool file (\<^verbatim>\<open>src/src/observer/storage/buffer/disk_buffer_pool.h\<close>, \<^verbatim>\<open>disk_buffer_pool.cpp\<close>): which pages
  of the file are allocated, the operations that allocate, dispose and redo, \<^verbatim>\<open>BufferPoolIterator\<close>, and the log of these
  operations (\<^verbatim>\<open>buffer_pool_log.h\<close>, \<^verbatim>\<open>buffer_pool_log.cpp\<close>).

  \<open>HdrFrame\<close> is the header with the LSN and the dirty flag of \<^verbatim>\<open>hdr_frame_\<close>. The bitmap is the memory after the three integers
  of the header; an access outside it is \<open>None\<close>. As for record pages, the code and the LSN that \<^verbatim>\<open>append\<close> gives are an
  argument \<open>lg\<close>; here the code sets the frame's LSN to it unconditionally.
\<close>

section \<open>State\<close>

record BPFileHeader =
  fh_buffer_pool_id :: int
  page_count :: int
  allocated_pages :: int
  fh_bitmap :: "byte list"

definition MAX_PAGE_NUM :: int where
  "MAX_PAGE_NUM = (BP_PAGE_DATA_SIZE - 4 - 4) * 8"

record HdrFrame =
  file_header :: BPFileHeader
  hdr_lsn :: int
  hdr_dirty :: bool

definition page_bits :: "BPFileHeader \<Rightarrow> bitmap" where
  "page_bits h = bitmap_init (fh_bitmap h) (page_count h)"

definition with_page_bits :: "BPFileHeader \<Rightarrow> bitmap \<Rightarrow> BPFileHeader" where
  "with_page_bits h bm = h\<lparr>fh_bitmap := bits bm\<rparr>"

definition new_header :: "int \<Rightarrow> BPFileHeader" where
  \<comment> \<open>the header that \<^verbatim>\<open>BufferPoolManager::create_file\<close> writes\<close>
  "new_header bp = \<lparr>fh_buffer_pool_id = bp, page_count = 1, allocated_pages = 1,
     fh_bitmap = 1 # replicate (nat (BP_PAGE_DATA_SIZE - 12) - 1) 0\<rparr>"

section \<open>Allocation\<close>

datatype alloc_result = Reused int | Extended int | Alloc_failed rc

function find_free :: "BPFileHeader \<Rightarrow> int \<Rightarrow> int option option" where
  \<comment> \<open>the loop over the pages of the file\<close>
  "find_free h i =
     (if i < page_count h
      then case get_bit (page_bits h) i of
             None \<Rightarrow> None
           | Some b \<Rightarrow> if b then find_free h (i + 1) else Some (Some i)
      else Some None)"
  by pat_completeness auto
termination
  by (relation "measure (\<lambda>(h, i). nat (page_count h - i))") auto

declare find_free.simps [simp del]

definition mark_allocated :: "int \<Rightarrow> int \<Rightarrow> BPFileHeader \<Rightarrow> BPFileHeader option" where
  \<comment> \<open>count the page and set its bit; \<open>grow\<close> is 1 when the page is new\<close>
  "mark_allocated grow pn h =
     map_option (\<lambda>bm. with_page_bits (h\<lparr>allocated_pages := allocated_pages h + 1, page_count := page_count h + grow\<rparr>) bm)
       (set_bit (page_bits h) pn)"

definition allocate_page_num :: "rc \<times> int \<Rightarrow> HdrFrame \<Rightarrow> (alloc_result \<times> HdrFrame) option" where
  "allocate_page_num lg f =
     (let h = file_header f
      in case (if allocated_pages h < page_count h then find_free h 0 else Some None) of
           None \<Rightarrow> None
         | Some (Some i) \<Rightarrow>
             map_option (\<lambda>h'. (Reused i, \<lparr>file_header = h', hdr_lsn = snd lg, hdr_dirty = True\<rparr>)) (mark_allocated 0 i h)
         | Some None \<Rightarrow>
             if MAX_PAGE_NUM \<le> page_count h then Some (Alloc_failed BUFFERPOOL_NOBUF, f)
             else map_option (\<lambda>h'. (Extended (page_count h), \<lparr>file_header = h', hdr_lsn = snd lg, hdr_dirty = True\<rparr>))
                    (mark_allocated 1 (page_count h) h))"

definition dispose_page_num :: "rc \<times> int \<Rightarrow> int \<Rightarrow> HdrFrame \<Rightarrow> (rc \<times> HdrFrame) option" where
  "dispose_page_num lg pn f =
     (if pn = 0 then Some (INTERNAL, f)
      else let h = file_header f
           in map_option (\<lambda>bm. (SUCCESS, \<lparr>file_header = with_page_bits (h\<lparr>allocated_pages := allocated_pages h - 1\<rparr>) bm,
                                        hdr_lsn = snd lg, hdr_dirty = True\<rparr>))
                (clear_bit (page_bits h) pn))"

definition recover_page :: "int \<Rightarrow> HdrFrame \<Rightarrow> (rc \<times> HdrFrame) option" where
  "recover_page pn f =
     (let h = file_header f
      in case get_bit (page_bits h) pn of
           None \<Rightarrow> None
         | Some b \<Rightarrow>
             if b then Some (SUCCESS, f)
             else map_option (\<lambda>h'. (SUCCESS, f\<lparr>file_header := h', hdr_dirty := True\<rparr>)) (mark_allocated 1 pn h))"

definition check_page_num :: "int \<Rightarrow> BPFileHeader \<Rightarrow> rc option" where
  "check_page_num pn h =
     (if page_count h \<le> pn then Some BUFFERPOOL_INVALID_PAGE_NUM
      else map_option (\<lambda>b. if b then SUCCESS else BUFFERPOOL_INVALID_PAGE_NUM) (get_bit (page_bits h) pn))"

section \<open>Redo\<close>

definition redo_allocate_page :: "int \<Rightarrow> int \<Rightarrow> HdrFrame \<Rightarrow> (rc \<times> HdrFrame) option" where
  "redo_allocate_page lsn pn f =
     (let h = file_header f
      in if lsn \<le> hdr_lsn f then Some (SUCCESS, f)
         else if pn < page_count h
         then case get_bit (page_bits h) pn of
                None \<Rightarrow> None
              | Some b \<Rightarrow>
                  if b then Some (SUCCESS, f)
                  else map_option (\<lambda>h'. (SUCCESS, f\<lparr>file_header := h', hdr_dirty := True\<rparr>)) (mark_allocated 0 pn h)
         else if page_count h < pn then Some (INTERNAL, f)
         else if MAX_PAGE_NUM \<le> page_count h then Some (INTERNAL, f)
         else map_option (\<lambda>h'. (SUCCESS, \<lparr>file_header = h', hdr_lsn = lsn, hdr_dirty = True\<rparr>)) (mark_allocated 1 pn h))"

definition redo_deallocate_page :: "int \<Rightarrow> int \<Rightarrow> HdrFrame \<Rightarrow> (rc \<times> HdrFrame) option" where
  "redo_deallocate_page lsn pn f =
     (let h = file_header f
      in if lsn \<le> hdr_lsn f then Some (SUCCESS, f)
         else if page_count h \<le> pn then Some (INTERNAL, f)
         else case get_bit (page_bits h) pn of
                None \<Rightarrow> None
              | Some b \<Rightarrow>
                  if \<not> b then Some (INTERNAL, f)
                  else map_option (\<lambda>bm. (SUCCESS, \<lparr>file_header = with_page_bits (h\<lparr>allocated_pages := allocated_pages h - 1\<rparr>) bm,
                                               hdr_lsn = lsn, hdr_dirty = True\<rparr>))
                         (clear_bit (page_bits h) pn))"

section \<open>The log of the buffer pool\<close>

datatype BufferPoolOperation = ALLOCATE | DEALLOCATE

fun bp_type_id :: "BufferPoolOperation \<Rightarrow> int" where
  "bp_type_id ALLOCATE = 0"
| "bp_type_id DEALLOCATE = 1"

record BufferPoolLogEntry =
  bl_buffer_pool_id :: int
  bl_operation_type :: int
  bl_page_num :: int

definition bl_bytes :: "BufferPoolLogEntry \<Rightarrow> byte list" where
  "bl_bytes l = int_bytes 4 (bl_buffer_pool_id l) @ int_bytes 4 (bl_operation_type l) @ int_bytes 4 (bl_page_num l)"

definition bl_of_bytes :: "byte list \<Rightarrow> BufferPoolLogEntry" where
  "bl_of_bytes bs = \<lparr>bl_buffer_pool_id = bytes_int (slice bs 0 4), bl_operation_type = bytes_int (slice bs 4 4),
     bl_page_num = bytes_int (slice bs 8 4)\<rparr>"

definition append_log :: "int \<Rightarrow> BufferPoolOperation \<Rightarrow> int \<Rightarrow> byte list" where
  \<comment> \<open>the payload that is appended for the module \<^verbatim>\<open>BUFFER_POOL\<close>\<close>
  "append_log bp ty pn = bl_bytes \<lparr>bl_buffer_pool_id = bp, bl_operation_type = bp_type_id ty, bl_page_num = pn\<rparr>"

definition bp_replay :: "LogEntry \<Rightarrow> (int \<rightharpoonup> HdrFrame) \<Rightarrow> (rc \<times> (int \<rightharpoonup> HdrFrame)) option" where
  "bp_replay entry pools =
     (if payload_size entry \<noteq> 12 then Some (INVALID_ARGUMENT, pools)
      else let l = bl_of_bytes (le_data entry); bp = bl_buffer_pool_id l
           in case pools bp of
                None \<Rightarrow> Some (INTERNAL, pools)
              | Some f \<Rightarrow>
                  if bl_operation_type l = bp_type_id ALLOCATE
                  then map_option (\<lambda>(rc, f'). (rc, pools(bp \<mapsto> f'))) (redo_allocate_page (le_lsn entry) (bl_page_num l) f)
                  else if bl_operation_type l = bp_type_id DEALLOCATE
                  then map_option (\<lambda>(rc, f'). (rc, pools(bp \<mapsto> f'))) (redo_deallocate_page (le_lsn entry) (bl_page_num l) f)
                  else Some (INTERNAL, pools))"

section \<open>Iterating over the pages of a file\<close>

record BufferPoolIterator =
  bpi_bitmap :: bitmap
  current_page_num :: int

definition bpi_init :: "BPFileHeader \<Rightarrow> int \<Rightarrow> BufferPoolIterator" where
  "bpi_init h start_page =
     \<lparr>bpi_bitmap = bitmap_init (fh_bitmap h) (page_count h), current_page_num = (if start_page \<le> 0 then - 1 else start_page - 1)\<rparr>"

definition bpi_has_next :: "BufferPoolIterator \<Rightarrow> bool option" where
  "bpi_has_next it = map_option (\<lambda>n. n \<noteq> - 1) (next_setted_bit (bpi_bitmap it) (current_page_num it + 1))"

definition bpi_next :: "BufferPoolIterator \<Rightarrow> (int \<times> BufferPoolIterator) option" where
  "bpi_next it =
     map_option (\<lambda>n. (n, if n \<noteq> - 1 then it\<lparr>current_page_num := n\<rparr> else it)) (next_setted_bit (bpi_bitmap it) (current_page_num it + 1))"

definition bpi_reset :: "BufferPoolIterator \<Rightarrow> BufferPoolIterator" where
  "bpi_reset it = it\<lparr>current_page_num := 0\<rparr>"

section \<open>What the header represents\<close>

lemma setted_page_bits: "setted (page_bits h) i \<longleftrightarrow> bit (fh_bitmap h ! (i div 8)) (i mod 8)"
  by (simp add: setted_def page_bits_def bitmap_init_def)

lemma bits_page_bits [simp]: "bits (page_bits h) = fh_bitmap h"
  by (simp add: page_bits_def bitmap_init_def)

lemma mark_allocated_spec:
  assumes "i div 8 < length (fh_bitmap h)"
  shows "\<exists>h'. mark_allocated g (int i) h = Some h' \<and> page_count h' = page_count h + g \<and> allocated_pages h' = allocated_pages h + 1 \<and>
    length (fh_bitmap h') = length (fh_bitmap h) \<and>
    (\<forall>j. j div 8 < length (fh_bitmap h) \<longrightarrow> setted (page_bits h') j = (j = i \<or> setted (page_bits h) j))"
proof -
  obtain bm where bm: "set_bit (page_bits h) (int i) = Some bm" using set_bit_defined assms by fastforce
  note s = set_bit_setted [OF bm]
  show ?thesis using bm s by (simp add: mark_allocated_def with_page_bits_def setted_def page_bits_def bitmap_init_def)
qed

lemma unmark_spec:
  assumes "i div 8 < length (fh_bitmap h)"
  shows "\<exists>bm. clear_bit (page_bits h) (int i) = Some bm \<and> length (bits bm) = length (fh_bitmap h) \<and>
    (\<forall>j. j div 8 < length (fh_bitmap h) \<longrightarrow> bit (bits bm ! (j div 8)) (j mod 8) = (j \<noteq> i \<and> setted (page_bits h) j))"
proof -
  obtain bm where bm: "clear_bit (page_bits h) (int i) = Some bm" using clear_bit_defined assms by fastforce
  show ?thesis using bm clear_bit_setted [OF bm] by (simp add: setted_def)
qed

text \<open>\<open>header_rel h n A\<close>: the file has \<open>n\<close> pages, of which \<open>A\<close> are allocated, and the header can address all of them.\<close>

definition header_rel :: "BPFileHeader \<Rightarrow> nat \<Rightarrow> nat set \<Rightarrow> bool" where
  "header_rel h n A \<longleftrightarrow> page_count h = int n \<and> n \<le> 8 * length (fh_bitmap h) \<and> A \<subseteq> {..<n} \<and>
     (\<forall>i<n. setted (page_bits h) i \<longleftrightarrow> i \<in> A) \<and> allocated_pages h = int (card A)"

lemma header_rel_bound: "header_rel h n A \<Longrightarrow> i < n \<Longrightarrow> i div 8 < length (fh_bitmap h)"
  by (simp add: header_rel_def) linarith

lemma header_rel_get_bit: "header_rel h n A \<Longrightarrow> i < n \<Longrightarrow> get_bit (page_bits h) (int i) = Some (i \<in> A)"
  using get_bit_setted [of i "page_bits h"] header_rel_bound [of h n A i] by (simp add: header_rel_def)

lemma find_free_find:
  assumes "header_rel h n A" and "i \<le> n"
  shows "find_free h (int i) = Some (map_option int (find (\<lambda>k. k \<notin> A) [i ..< n]))"
  using assms(2)
proof (induction "n - i" arbitrary: i)
  case 0
  then show ?case using assms(1) by (subst find_free.simps) (simp add: header_rel_def)
next
  case (Suc d)
  have i: "i < n" "int i < page_count h" using Suc.hyps(2) assms(1) by (auto simp: header_rel_def)
  have IH: "find_free h (int i + 1) = Some (map_option int (find (\<lambda>k. k \<notin> A) [Suc i ..< n]))"
    using Suc.hyps(1) [of "Suc i"] Suc.hyps(2) by (simp add: add.commute)
  show ?case
    using i IH header_rel_get_bit [OF assms(1) i(1)] by (subst find_free.simps) (simp add: upt_conv_Cons)
qed

lemma header_rel_free:
  assumes "header_rel h n A"
  shows "(if allocated_pages h < page_count h then find_free h 0 else Some None) = Some (map_option int (find (\<lambda>k. k \<notin> A) [0 ..< n]))"
proof (cases "allocated_pages h < page_count h")
  case True
  then show ?thesis using find_free_find [OF assms, of 0] by simp
next
  case False
  then have "card {..<n} \<le> card A" using assms by (simp add: header_rel_def)
  moreover have "A \<subseteq> {..<n}" using assms by (simp add: header_rel_def)
  ultimately have "A = {..<n}" by (simp add: card_seteq)
  then show ?thesis using False by (simp add: find_None_iff)
qed

lemma header_rel_mark:
  assumes r: "header_rel h n A" and i: "i < m" "i \<notin> A" and m: "m = n \<or> m = Suc n \<and> i = n" "m \<le> 8 * length (fh_bitmap h)"
  shows "\<exists>h'. mark_allocated (int m - int n) (int i) h = Some h' \<and> header_rel h' m (insert i A) \<and> length (fh_bitmap h') = length (fh_bitmap h)"
proof -
  have "i div 8 < length (fh_bitmap h)" using i(1) m(2) by linarith
  from mark_allocated_spec [OF this, of "int m - int n"] obtain h' where
    h': "mark_allocated (int m - int n) (int i) h = Some h'" "page_count h' = page_count h + (int m - int n)"
    "allocated_pages h' = allocated_pages h + 1" "length (fh_bitmap h') = length (fh_bitmap h)"
    "\<And>j. j div 8 < length (fh_bitmap h) \<Longrightarrow> setted (page_bits h') j = (j = i \<or> setted (page_bits h) j)" by blast
  have sub: "A \<subseteq> {..<n}" "finite A" using r finite_subset by (auto simp: header_rel_def)
  have bits: "setted (page_bits h') j \<longleftrightarrow> j \<in> insert i A" if "j < m" for j
  proof -
    have "j div 8 < length (fh_bitmap h)" using that m(2) by linarith
    then show ?thesis using h'(5) [of j] r that m(1) by (auto simp: header_rel_def less_Suc_eq)
  qed
  have "header_rel h' m (insert i A)"
    using r h' m i sub bits by (auto simp: header_rel_def)
  then show ?thesis using h' by blast
qed

section \<open>Allocation and disposal on a set of pages\<close>

datatype page_req = Req_allocate | Req_dispose nat

datatype page_answer = Got nat | Answer rc

fun header_call :: "page_req \<Rightarrow> HdrFrame \<Rightarrow> (page_answer \<times> HdrFrame) option" where
  "header_call Req_allocate f =
     map_option (\<lambda>(r, f'). (case r of Reused i \<Rightarrow> Got (nat i) | Extended i \<Rightarrow> Got (nat i) | Alloc_failed rc \<Rightarrow> Answer rc, f'))
       (allocate_page_num (SUCCESS, hdr_lsn f + 1) f)"
| "header_call (Req_dispose i) f = map_option (\<lambda>(rc, f'). (Answer rc, f')) (dispose_page_num (SUCCESS, hdr_lsn f + 1) (int i) f)"

fun header_calls :: "page_req list \<Rightarrow> HdrFrame \<Rightarrow> (page_answer list \<times> HdrFrame) option" where
  "header_calls [] f = Some ([], f)"
| "header_calls (x # xs) f =
     (case header_call x f of
        None \<Rightarrow> None
      | Some (r, f') \<Rightarrow> map_option (\<lambda>(rs, f''). (r # rs, f'')) (header_calls xs f'))"

fun set_call :: "page_req \<Rightarrow> nat \<times> nat set \<Rightarrow> page_answer \<times> nat \<times> nat set" where
  \<comment> \<open>the least free page of the file, or one more page\<close>
  "set_call Req_allocate (n, A) =
     (case find (\<lambda>k. k \<notin> A) [0 ..< n] of
        Some i \<Rightarrow> (Got i, n, insert i A)
      | None \<Rightarrow> if MAX_PAGE_NUM \<le> int n then (Answer BUFFERPOOL_NOBUF, n, A) else (Got n, Suc n, insert n A))"
| "set_call (Req_dispose i) (n, A) = (if i = 0 then (Answer INTERNAL, n, A) else (Answer SUCCESS, n, A - {i}))"

fun set_calls :: "page_req list \<Rightarrow> nat \<times> nat set \<Rightarrow> page_answer list \<times> nat \<times> nat set" where
  "set_calls [] s = ([], s)"
| "set_calls (x # xs) s = (case set_call x s of (r, s') \<Rightarrow> case set_calls xs s' of (rs, s'') \<Rightarrow> (r # rs, s''))"

fun reqs_ok :: "page_req list \<Rightarrow> nat \<times> nat set \<Rightarrow> bool" where
  \<comment> \<open>only allocated pages are disposed; the code does not check it\<close>
  "reqs_ok [] s = True"
| "reqs_ok (x # xs) s = ((case x of Req_dispose i \<Rightarrow> i \<in> snd s | Req_allocate \<Rightarrow> True) \<and> reqs_ok xs (snd (set_call x s)))"

lemma header_call_set_call:
  assumes r: "header_rel (file_header f) n A" and room: "n < 8 * length (fh_bitmap (file_header f))"
    and ok: "case x of Req_dispose i \<Rightarrow> i \<in> A | Req_allocate \<Rightarrow> True" and s': "set_call x (n, A) = (r', m, B)"
  shows "\<exists>f'. header_call x f = Some (r', f') \<and> header_rel (file_header f') m B \<and> m \<le> Suc n \<and>
    length (fh_bitmap (file_header f')) = length (fh_bitmap (file_header f)) \<and> hdr_lsn f \<le> hdr_lsn f'"
proof (cases x)
  case Req_allocate
  show ?thesis
  proof (cases "find (\<lambda>k. k \<notin> A) [0 ..< n]")
    case None
    have "n \<notin> A" using r by (auto simp: header_rel_def)
    then obtain h' where "mark_allocated 1 (int n) (file_header f) = Some h'" "header_rel h' (Suc n) (insert n A)"
      "length (fh_bitmap h') = length (fh_bitmap (file_header f))"
      using header_rel_mark [OF r, of n "Suc n"] room by auto
    moreover have "page_count (file_header f) = int n" using r by (simp add: header_rel_def)
    ultimately show ?thesis
      using header_rel_free [OF r] None Req_allocate s' r by (auto simp: allocate_page_num_def Let_def split: if_splits)
  next
    case (Some i)
    then have i: "i < n" "i \<notin> A" by (auto simp: find_Some_iff)
    obtain h' where "mark_allocated 0 (int i) (file_header f) = Some h'" "header_rel h' n (insert i A)"
      "length (fh_bitmap h') = length (fh_bitmap (file_header f))"
      using header_rel_mark [OF r, of i n] i room by auto
    then show ?thesis
      using header_rel_free [OF r] Some Req_allocate s' by (auto simp: allocate_page_num_def Let_def)
  qed
next
  case (Req_dispose i)
  show ?thesis
  proof (cases "i = 0")
    case True
    then show ?thesis using Req_dispose r s' by (auto simp: dispose_page_num_def)
  next
    case False
    have i: "i \<in> A" "i < n" and A: "A \<subseteq> {..<n}" "finite A" using ok Req_dispose r finite_subset by (auto simp: header_rel_def)
    obtain bm where bm: "clear_bit (page_bits (file_header f)) (int i) = Some bm" "length (bits bm) = length (fh_bitmap (file_header f))"
      "\<And>j. j div 8 < length (fh_bitmap (file_header f)) \<Longrightarrow> bit (bits bm ! (j div 8)) (j mod 8) = (j \<noteq> i \<and> setted (page_bits (file_header f)) j)"
      using unmark_spec [OF header_rel_bound [OF r i(2)]] by blast
    have bits: "bit (bits bm ! (j div 8)) (j mod 8) \<longleftrightarrow> j \<in> A - {i}" if "j < n" for j
      using bm(3) [OF header_rel_bound [OF r that]] r that by (auto simp: header_rel_def)
    have "0 < card A" using i(1) A(2) card_gt_0_iff by blast
    then have card: "int (card A) - 1 = int (card (A - {i}))" using i(1) A(2) by (simp add: card_Diff_singleton)
    show ?thesis using False Req_dispose s' bm(1,2) bits r A card
      by (auto simp: dispose_page_num_def Let_def header_rel_def with_page_bits_def setted_page_bits)
  qed
qed

lemma header_calls_set_calls:
  "header_rel (file_header f) n A \<Longrightarrow> n + length xs \<le> 8 * length (fh_bitmap (file_header f)) \<Longrightarrow> reqs_ok xs (n, A) \<Longrightarrow>
   set_calls xs (n, A) = (rs, m, B) \<Longrightarrow>
   \<exists>f'. header_calls xs f = Some (rs, f') \<and> header_rel (file_header f') m B"
proof (induction xs arbitrary: f n A rs)
  case (Cons x xs)
  obtain r n1 A1 where s1: "set_call x (n, A) = (r, n1, A1)" by (metis prod_cases3)
  obtain rs' where s2: "set_calls xs (n1, A1) = (rs', m, B)" "rs = r # rs'" using Cons.prems(4) s1 by (auto split: prod.splits)
  have ok: "case x of Req_dispose i \<Rightarrow> i \<in> A | Req_allocate \<Rightarrow> True" "reqs_ok xs (n1, A1)"
    using Cons.prems(3) s1 by (auto split: page_req.splits)
  obtain f1 where f1: "header_call x f = Some (r, f1)" "header_rel (file_header f1) n1 A1" "n1 \<le> Suc n"
    "length (fh_bitmap (file_header f1)) = length (fh_bitmap (file_header f))"
    using header_call_set_call [OF Cons.prems(1) _ ok(1) s1] Cons.prems(2) by auto
  have "n1 + length xs \<le> 8 * length (fh_bitmap (file_header f1))" using f1(3,4) Cons.prems(2) by simp
  from Cons.IH [OF f1(2) this ok(2) s2(1)] show ?case using f1(1) s2(2) by auto
qed simp

lemma new_header_rel: "header_rel (new_header bp) 1 {0}"
  by (simp add: header_rel_def new_header_def setted_page_bits BP_PAGE_DATA_SIZE_def BP_PAGE_SIZE_def)

lemma length_new_bitmap: "length (fh_bitmap (new_header bp)) = nat (BP_PAGE_DATA_SIZE - 12)"
  by (simp add: new_header_def BP_PAGE_DATA_SIZE_def BP_PAGE_SIZE_def)

text \<open>
  C29: page allocation refines a set. On the header that \<^verbatim>\<open>create_file\<close> writes, every sequence of \<^verbatim>\<open>allocate_page\<close> and
  \<^verbatim>\<open>dispose_page\<close> that disposes only allocated pages, and is not longer than the bitmap has bits, makes no access outside the
  header page and answers as the set of allocated pages does: an allocation gives the least free page or extends the file
  by one, so never a page that is in use, page 0 stays allocated, and \<^verbatim>\<open>allocated_pages\<close> counts the set.
\<close>

theorem page_allocation_refines_set:
  assumes "int (length xs) < (BP_PAGE_DATA_SIZE - 12) * 8" and "reqs_ok xs (1, {0})"
    and "set_calls xs (1, {0}) = (rs, m, B)"
  shows "\<exists>f'. header_calls xs \<lparr>file_header = new_header bp, hdr_lsn = l, hdr_dirty = d\<rparr> = Some (rs, f') \<and>
    page_count (file_header f') = int m \<and> allocated_pages (file_header f') = int (card B) \<and>
    (\<forall>i<m. get_bit (page_bits (file_header f')) (int i) = Some (i \<in> B))"
proof -
  have "1 + length xs \<le> 8 * length (fh_bitmap (new_header bp))" using assms(1) by (simp add: length_new_bitmap)
  from header_calls_set_calls [of "\<lparr>file_header = new_header bp, hdr_lsn = l, hdr_dirty = d\<rparr>", OF _ _ assms(2,3)] new_header_rel [of bp] this
  obtain f' where f': "header_calls xs \<lparr>file_header = new_header bp, hdr_lsn = l, hdr_dirty = d\<rparr> = Some (rs, f')"
    "header_rel (file_header f') m B" by auto
  then show ?thesis using header_rel_get_bit [OF f'(2)] by (auto simp: header_rel_def)
qed

theorem page_allocation_refines_set_witness:
  "\<exists>f'. header_calls [Req_allocate, Req_allocate, Req_dispose 1, Req_allocate] \<lparr>file_header = new_header 4, hdr_lsn = 0, hdr_dirty = False\<rparr> =
     Some ([Got 1, Got 2, Answer SUCCESS, Got 1], f') \<and> allocated_pages (file_header f') = 3"
proof -
  let ?xs = "[Req_allocate, Req_allocate, Req_dispose 1, Req_allocate]"
  have "int (length ?xs) < (BP_PAGE_DATA_SIZE - 12) * 8" by (simp add: BP_PAGE_DATA_SIZE_def BP_PAGE_SIZE_def)
  moreover have "reqs_ok ?xs (1, {0})" by code_simp
  moreover have "set_calls ?xs (1, {0}) = ([Got 1, Got 2, Answer SUCCESS, Got 1], 3, {0, 1, 2})" by code_simp
  ultimately show ?thesis using page_allocation_refines_set [of ?xs _ 3 "{0, 1, 2}" 4 0 False] by auto
qed

text \<open>
  \<^verbatim>\<open>MAX_PAGE_NUM\<close> leaves out \<^verbatim>\<open>buffer_pool_id\<close>: the last 32 pages it admits have no bit in the page, and allocating the first of
  them writes behind it.
\<close>

lemma max_page_num_overrun:
  assumes "page_count h = (BP_PAGE_DATA_SIZE - 12) * 8" and "length (fh_bitmap h) = nat (BP_PAGE_DATA_SIZE - 12)"
    and "allocated_pages h = page_count h"
  shows "page_count h < MAX_PAGE_NUM \<and> allocate_page_num lg \<lparr>file_header = h, hdr_lsn = l, hdr_dirty = d\<rparr> = None"
  using assms by (simp add: allocate_page_num_def mark_allocated_def set_bit_def MAX_PAGE_NUM_def BP_PAGE_DATA_SIZE_def BP_PAGE_SIZE_def Let_def)

section \<open>Recovery of the header\<close>

fun logged_call :: "int \<Rightarrow> int \<Rightarrow> page_req \<Rightarrow> HdrFrame \<Rightarrow> (LogEntry list \<times> HdrFrame) option" where
  \<comment> \<open>a request, and the entry it appends under LSN \<open>lsn\<close>\<close>
  "logged_call bp lsn Req_allocate f =
     map_option (\<lambda>(r, f').
       (case r of
          Reused i \<Rightarrow> [snd (log_entry_init log_entry_new lsn (module_index BUFFER_POOL) (append_log bp ALLOCATE i))]
        | Extended i \<Rightarrow> [snd (log_entry_init log_entry_new lsn (module_index BUFFER_POOL) (append_log bp ALLOCATE i))]
        | Alloc_failed _ \<Rightarrow> [], f'))
       (allocate_page_num (SUCCESS, lsn) f)"
| "logged_call bp lsn (Req_dispose i) f =
     map_option (\<lambda>(rc, f').
       (if i = 0 then []
        else [snd (log_entry_init log_entry_new lsn (module_index BUFFER_POOL) (append_log bp DEALLOCATE (int i)))], f'))
       (dispose_page_num (SUCCESS, lsn) (int i) f)"

fun logged_calls :: "int \<Rightarrow> (int \<times> page_req) list \<Rightarrow> HdrFrame \<Rightarrow> (LogEntry list \<times> HdrFrame) option" where
  "logged_calls bp [] f = Some ([], f)"
| "logged_calls bp ((lsn, x) # xs) f =
     (case logged_call bp lsn x f of
        None \<Rightarrow> None
      | Some (es, f1) \<Rightarrow> map_option (\<lambda>(es', f'). (es @ es', f')) (logged_calls bp xs f1))"

definition disposes_allocated :: "page_req \<Rightarrow> BPFileHeader \<Rightarrow> bool" where
  "disposes_allocated x h =
     (case x of Req_dispose i \<Rightarrow> i \<noteq> 0 \<longrightarrow> int i < page_count h \<and> get_bit (page_bits h) (int i) = Some True | Req_allocate \<Rightarrow> True)"

fun run_ok :: "int \<Rightarrow> int \<Rightarrow> (int \<times> page_req) list \<Rightarrow> HdrFrame \<Rightarrow> bool" where
  \<comment> \<open>LSNs grow from \<open>l\<close> on and only allocated pages are disposed; page numbers are 32-bit integers\<close>
  "run_ok bp l [] f = True"
| "run_ok bp l ((lsn, x) # xs) f =
     (l < lsn \<and> disposes_allocated x (file_header f) \<and> int_fits 32 (page_count (file_header f)) \<and>
      (case logged_call bp lsn x f of None \<Rightarrow> False | Some (_, f1) \<Rightarrow> run_ok bp lsn xs f1))"

fun bp_replay_all :: "LogEntry list \<Rightarrow> (int \<rightharpoonup> HdrFrame) \<Rightarrow> (rc \<times> (int \<rightharpoonup> HdrFrame)) option" where
  "bp_replay_all [] pools = Some (SUCCESS, pools)"
| "bp_replay_all (e # es) pools =
     (case bp_replay e pools of
        None \<Rightarrow> None
      | Some (rc, pools') \<Rightarrow> if OB_FAIL rc then Some (rc, pools') else bp_replay_all es pools')"

lemma find_free_SomeD:
  "find_free h j = Some (Some i) \<Longrightarrow> j \<le> i \<and> i < page_count h \<and> get_bit (page_bits h) i = Some False"
proof (induction h j rule: find_free.induct)
  case (1 h j)
  show ?case
  proof (cases "j < page_count h \<and> get_bit (page_bits h) j = Some True")
    case True
    then have "find_free h (j + 1) = Some (Some i)" using 1(2) by (subst (asm) find_free.simps) simp
    then show ?thesis using 1(1) True by fastforce
  next
    case False
    then show ?thesis using 1(2) by (subst (asm) find_free.simps) (auto split: if_splits option.splits)
  qed
qed

lemma bl_of_bl_bytes:
  assumes "int_fits 32 bp" "int_fits 32 pn"
  shows "bl_of_bytes (append_log bp ty pn) = \<lparr>bl_buffer_pool_id = bp, bl_operation_type = bp_type_id ty, bl_page_num = pn\<rparr>"
proof -
  have "int_fits 32 (bp_type_id ty)" by (cases ty) (simp_all add: int_fits_def)
  then show ?thesis using assms bytes_int_bytes [of 4] by (simp add: bl_of_bytes_def append_log_def bl_bytes_def slice_def)
qed

lemma bp_entry_simps:
  "le_lsn (snd (log_entry_init log_entry_new lsn m (append_log bp ty pn))) = lsn"
  "payload_size (snd (log_entry_init log_entry_new lsn m (append_log bp ty pn))) = 12"
  "le_data (snd (log_entry_init log_entry_new lsn m (append_log bp ty pn))) = append_log bp ty pn"
  by (simp_all add: log_entry_init_ok append_log_def bl_bytes_def le_lsn_def payload_size_def max_payload_size_def max_size_def LOG_HEADER_SIZE_def)

lemma bp_replay_entry:
  assumes "int_fits 32 bp" "int_fits 32 pn" "pools bp = Some f"
  shows "bp_replay (snd (log_entry_init log_entry_new lsn m (append_log bp ty pn))) pools =
    map_option (\<lambda>(rc, f'). (rc, pools(bp \<mapsto> f')))
      (case ty of ALLOCATE \<Rightarrow> redo_allocate_page lsn pn f | DEALLOCATE \<Rightarrow> redo_deallocate_page lsn pn f)"
  using assms by (cases ty) (simp_all add: bp_replay_def bp_entry_simps bl_of_bl_bytes Let_def)

lemma redo_allocate_skip: "lsn \<le> hdr_lsn f \<Longrightarrow> redo_allocate_page lsn pn f = Some (SUCCESS, f)"
  by (simp add: redo_allocate_page_def)

lemma redo_deallocate_skip: "lsn \<le> hdr_lsn f \<Longrightarrow> redo_deallocate_page lsn pn f = Some (SUCCESS, f)"
  by (simp add: redo_deallocate_page_def)

lemma fits_le: "int_fits 32 n \<Longrightarrow> 0 \<le> i \<Longrightarrow> i \<le> n \<Longrightarrow> int_fits 32 i"
  by (auto simp: int_fits_def)

text \<open>A request logs nothing and changes nothing, or logs one entry that repeats it on the same header.\<close>

lemma logged_call_cases:
  assumes "logged_call bp lsn x f = Some (es, f')" and "disposes_allocated x (file_header f)" and "int_fits 32 (page_count (file_header f))"
  obtains (silent) "es = []" "f' = f"
  | (logged) ty pn where "es = [snd (log_entry_init log_entry_new lsn (module_index BUFFER_POOL) (append_log bp ty pn))]" "hdr_lsn f' = lsn"
      "int_fits 32 pn"
      "\<And>c. file_header c = file_header f \<Longrightarrow> hdr_lsn c < lsn \<Longrightarrow>
         \<exists>c'. (case ty of ALLOCATE \<Rightarrow> redo_allocate_page lsn pn c | DEALLOCATE \<Rightarrow> redo_deallocate_page lsn pn c) = Some (SUCCESS, c') \<and>
              file_header c' = file_header f' \<and> hdr_lsn c' \<le> lsn"
proof (cases x)
  case (Req_dispose i)
  show ?thesis
  proof (cases "i = 0")
    case True
    then show ?thesis using silent assms(1) Req_dispose by (auto simp: dispose_page_num_def)
  next
    case False
    have fits: "int_fits 32 (int i)" using assms(2) Req_dispose False fits_le [OF assms(3)] by (simp add: disposes_allocated_def)
    have "es = [snd (log_entry_init log_entry_new lsn (module_index BUFFER_POOL) (append_log bp DEALLOCATE (int i)))]" "hdr_lsn f' = lsn"
      using assms(1) Req_dispose False by (auto simp: dispose_page_num_def Let_def)
    then show ?thesis
    proof (rule logged)
      fix c :: HdrFrame assume "file_header c = file_header f" "hdr_lsn c < lsn"
      then show "\<exists>c'. (case DEALLOCATE of ALLOCATE \<Rightarrow> redo_allocate_page lsn (int i) c | DEALLOCATE \<Rightarrow> redo_deallocate_page lsn (int i) c) =
          Some (SUCCESS, c') \<and> file_header c' = file_header f' \<and> hdr_lsn c' \<le> lsn"
        using assms(1,2) Req_dispose False by (auto simp: dispose_page_num_def redo_deallocate_page_def disposes_allocated_def Let_def)
    qed (rule fits)
  qed
next
  case Req_allocate
  obtain r where r: "allocate_page_num (SUCCESS, lsn) f = Some (r, f')" using assms(1) Req_allocate by auto
  show ?thesis
  proof (cases r)
    case (Reused i)
    have i: "0 \<le> i" "i < page_count (file_header f)" "get_bit (page_bits (file_header f)) i = Some False" "hdr_lsn f' = lsn"
      "mark_allocated 0 i (file_header f) = Some (file_header f')"
      using r Reused find_free_SomeD [of "file_header f" 0]
      by (auto simp: allocate_page_num_def Let_def split: option.splits if_splits)
    have "es = [snd (log_entry_init log_entry_new lsn (module_index BUFFER_POOL) (append_log bp ALLOCATE i))]" "hdr_lsn f' = lsn"
      using assms(1) r Req_allocate Reused i(4) by auto
    then show ?thesis
    proof (rule logged)
      fix c :: HdrFrame assume "file_header c = file_header f" "hdr_lsn c < lsn"
      then show "\<exists>c'. (case ALLOCATE of ALLOCATE \<Rightarrow> redo_allocate_page lsn i c | DEALLOCATE \<Rightarrow> redo_deallocate_page lsn i c) =
          Some (SUCCESS, c') \<and> file_header c' = file_header f' \<and> hdr_lsn c' \<le> lsn"
        using i by (auto simp: redo_allocate_page_def Let_def)
    qed (use fits_le [OF assms(3)] i in simp)
  next
    case (Extended i)
    have i: "i = page_count (file_header f)" "\<not> MAX_PAGE_NUM \<le> i" "hdr_lsn f' = lsn"
      "mark_allocated 1 i (file_header f) = Some (file_header f')"
      using r Extended by (auto simp: allocate_page_num_def Let_def split: option.splits if_splits)
    have "es = [snd (log_entry_init log_entry_new lsn (module_index BUFFER_POOL) (append_log bp ALLOCATE i))]" "hdr_lsn f' = lsn"
      using assms(1) r Req_allocate Extended i(3) by auto
    then show ?thesis
    proof (rule logged)
      fix c :: HdrFrame assume "file_header c = file_header f" "hdr_lsn c < lsn"
      then show "\<exists>c'. (case ALLOCATE of ALLOCATE \<Rightarrow> redo_allocate_page lsn i c | DEALLOCATE \<Rightarrow> redo_deallocate_page lsn i c) =
          Some (SUCCESS, c') \<and> file_header c' = file_header f' \<and> hdr_lsn c' \<le> lsn"
        using i by (auto simp: redo_allocate_page_def Let_def)
    qed (use assms(3) i in simp)
  next
    case (Alloc_failed rc)
    then show ?thesis using silent assms(1) r Req_allocate
      by (auto simp: allocate_page_num_def Let_def split: option.splits if_splits)
  qed
qed

lemma logged_call_lsn:
  assumes "logged_call bp lsn x f = Some (es, f')" and "disposes_allocated x (file_header f)" and "int_fits 32 (page_count (file_header f))"
    and "hdr_lsn f \<le> l" and "l < lsn"
  shows "hdr_lsn f \<le> hdr_lsn f' \<and> hdr_lsn f' \<le> lsn"
  using assms(1-3) by (cases rule: logged_call_cases) (use assms(4,5) in auto)

lemma run_lsn_mono:
  "logged_calls bp xs f = Some (es, f') \<Longrightarrow> run_ok bp l xs f \<Longrightarrow> hdr_lsn f \<le> l \<Longrightarrow> hdr_lsn f \<le> hdr_lsn f'"
proof (induction xs arbitrary: f es l)
  case (Cons y xs)
  obtain lsn x where y: "y = (lsn, x)" by (cases y)
  obtain es1 f1 es2 where s: "logged_call bp lsn x f = Some (es1, f1)" "logged_calls bp xs f1 = Some (es2, f')"
    using Cons.prems(1) y by (auto split: option.splits)
  have ok: "l < lsn" "disposes_allocated x (file_header f)" "int_fits 32 (page_count (file_header f))" "run_ok bp lsn xs f1"
    using Cons.prems(2) y s(1) by auto
  note b = logged_call_lsn [OF s(1) ok(2,3) Cons.prems(3) ok(1)]
  then show ?case using Cons.IH [OF s(2) ok(4)] b by simp
qed simp

lemma replay_done_run:
  \<comment> \<open>every entry of a run is skipped by a header that is as new as the end of the run\<close>
  "logged_calls bp xs f = Some (es, f') \<Longrightarrow> run_ok bp l xs f \<Longrightarrow> hdr_lsn f \<le> l \<Longrightarrow> int_fits 32 bp \<Longrightarrow>
   pools bp = Some c \<Longrightarrow> hdr_lsn f' \<le> hdr_lsn c \<Longrightarrow> bp_replay_all (es @ es') pools = bp_replay_all es' pools"
proof (induction xs arbitrary: f es l)
  case (Cons y xs)
  obtain lsn x where y: "y = (lsn, x)" by (cases y)
  obtain es1 f1 es2 where s: "logged_call bp lsn x f = Some (es1, f1)" "logged_calls bp xs f1 = Some (es2, f')" "es = es1 @ es2"
    using Cons.prems(1) y by (auto split: option.splits)
  have ok: "l < lsn" "disposes_allocated x (file_header f)" "int_fits 32 (page_count (file_header f))" "run_ok bp lsn xs f1"
    using Cons.prems(2) y s(1) by auto
  have f1: "hdr_lsn f1 \<le> lsn" using logged_call_lsn [OF s(1) ok(2,3) Cons.prems(3) ok(1)] by simp
  note IH = Cons.IH [OF s(2) ok(4) f1 Cons.prems(4-6)]
  from s(1) ok(2,3) show ?case
  proof (cases rule: logged_call_cases)
    case silent
    then show ?thesis using IH s(3) by simp
  next
    case (logged ty pn)
    have "lsn \<le> hdr_lsn c" using run_lsn_mono [OF s(2) ok(4) f1] logged(2) Cons.prems(6) by simp
    then have "bp_replay (hd es1) pools = Some (SUCCESS, pools)"
      using logged(1) bp_replay_entry [of bp pn pools c lsn "module_index BUFFER_POOL" ty] Cons.prems(4,5) logged(3)
      by (cases ty) (simp_all add: redo_allocate_skip redo_deallocate_skip fun_upd_idem)
    then show ?thesis using IH s(3) logged(1) by simp
  qed
qed simp

lemma replay_new_run:
  \<comment> \<open>the entries of a run bring its first header to its last\<close>
  "logged_calls bp xs f = Some (es, f') \<Longrightarrow> run_ok bp l xs f \<Longrightarrow> int_fits 32 bp \<Longrightarrow>
   pools bp = Some c \<Longrightarrow> file_header c = file_header f \<Longrightarrow> hdr_lsn c \<le> l \<Longrightarrow>
   \<exists>c'. bp_replay_all es pools = Some (SUCCESS, pools(bp \<mapsto> c')) \<and> file_header c' = file_header f'"
proof (induction xs arbitrary: f es l c pools)
  case Nil
  then have "pools(bp \<mapsto> c) = pools" by (simp add: fun_upd_idem)
  moreover have "es = []" "f' = f" using Nil.prems(1) by simp_all
  ultimately show ?case using Nil.prems(5) by (intro exI [where x = c]) simp
next
  case (Cons y xs)
  obtain lsn x where y: "y = (lsn, x)" by (cases y)
  obtain es1 f1 es2 where s: "logged_call bp lsn x f = Some (es1, f1)" "logged_calls bp xs f1 = Some (es2, f')" "es = es1 @ es2"
    using Cons.prems(1) y by (auto split: option.splits)
  have ok: "l < lsn" "disposes_allocated x (file_header f)" "int_fits 32 (page_count (file_header f))" "run_ok bp lsn xs f1"
    using Cons.prems(2) y s(1) by auto
  from s(1) ok(2,3) show ?case
  proof (cases rule: logged_call_cases)
    case silent
    then have "file_header c = file_header f1" "hdr_lsn c \<le> lsn" "es = es2" using Cons.prems(5,6) ok(1) s(3) by simp_all
    then show ?thesis using Cons.IH [of f1 es2 lsn pools c] s(2) ok(4) Cons.prems(3,4) by blast
  next
    case (logged ty pn)
    obtain c1 where c1: "(case ty of ALLOCATE \<Rightarrow> redo_allocate_page lsn pn c | DEALLOCATE \<Rightarrow> redo_deallocate_page lsn pn c) = Some (SUCCESS, c1)"
      "file_header c1 = file_header f1" "hdr_lsn c1 \<le> lsn"
      using logged(4) [OF Cons.prems(5)] Cons.prems(6) ok(1) by auto
    have "bp_replay (hd es1) pools = Some (SUCCESS, pools(bp \<mapsto> c1))"
      using logged(1) bp_replay_entry [of bp pn pools c lsn "module_index BUFFER_POOL" ty] Cons.prems(3,4) logged(3) c1(1) by simp
    then have es: "bp_replay_all es pools = bp_replay_all es2 (pools(bp \<mapsto> c1))" using s(3) logged(1) by simp
    have "(pools(bp \<mapsto> c1)) bp = Some c1" by simp
    from Cons.IH [of f1 es2 lsn "pools(bp \<mapsto> c1)" c1, OF s(2) ok(4) Cons.prems(3) this c1(2,3)]
    show ?thesis unfolding es fun_upd_upd .
  qed
qed

lemma logged_calls_append:
  "logged_calls bp (xs @ ys) f = Some (es, f') \<Longrightarrow> logged_calls bp xs f = Some (es1, f1) \<Longrightarrow>
   \<exists>es2. logged_calls bp ys f1 = Some (es2, f') \<and> es = es1 @ es2"
  by (induction xs arbitrary: f es es1) (fastforce split: option.splits)+

lemma run_ok_append:
  "logged_calls bp xs f = Some (es, f1) \<Longrightarrow> run_ok bp l (xs @ ys) f \<Longrightarrow> hdr_lsn f \<le> l \<Longrightarrow>
   run_ok bp l xs f \<and> (\<exists>l'. run_ok bp l' ys f1 \<and> hdr_lsn f1 \<le> l')"
proof (induction xs arbitrary: f es l)
  case (Cons y xs)
  obtain lsn x where y: "y = (lsn, x)" by (cases y)
  obtain es1 f2 es2 where s: "logged_call bp lsn x f = Some (es1, f2)" "logged_calls bp xs f2 = Some (es2, f1)"
    using Cons.prems(1) y by (auto split: option.splits)
  have ok: "l < lsn" "disposes_allocated x (file_header f)" "int_fits 32 (page_count (file_header f))" "run_ok bp lsn (xs @ ys) f2"
    using Cons.prems(2) y s(1) by auto
  have "hdr_lsn f2 \<le> lsn" using logged_call_lsn [OF s(1) ok(2,3) Cons.prems(3) ok(1)] by simp
  then show ?case using Cons.IH [OF s(2) ok(4)] ok s(1) y by auto
qed auto

text \<open>
  C10: redo recovery of page allocation. Whatever version of the header page a crash leaves on disk, replaying the
  allocation log of the run brings the counters and the bitmap to their values at the end of the run: older entries are
  skipped by the LSN of the header, newer ones repeat the allocation of exactly the page that was handed out.
\<close>

theorem allocation_redo_recovers:
  assumes "logged_calls bp xs f = Some (es, f')" and "run_ok bp (hdr_lsn f) xs f" and "int_fits 32 bp"
    and "logged_calls bp (take k xs) f = Some (es1, c)" and "pools bp = Some c"
  shows "\<exists>c'. bp_replay_all es pools = Some (SUCCESS, pools(bp \<mapsto> c')) \<and> file_header c' = file_header f'"
proof -
  have xs: "xs = take k xs @ drop k xs" by simp
  obtain es2 where es2: "logged_calls bp (drop k xs) c = Some (es2, f')" "es = es1 @ es2"
    using logged_calls_append [of bp "take k xs" "drop k xs" f es f'] assms(1,4) by auto
  obtain l where ok: "run_ok bp (hdr_lsn f) (take k xs) f" "run_ok bp l (drop k xs) c" "hdr_lsn c \<le> l"
    using run_ok_append [OF assms(4), of "hdr_lsn f" "drop k xs"] assms(2) xs by auto
  have "bp_replay_all es pools = bp_replay_all es2 pools"
    unfolding es2(2) using replay_done_run [of bp "take k xs" f es1 c "hdr_lsn f" pools c es2] assms(3-5) ok(1) by simp
  then show ?thesis using replay_new_run [of bp "drop k xs" c es2 f' l pools c] es2(1) ok(2,3) assms(3,5) by simp
qed

definition example_header :: HdrFrame where
  "example_header = \<lparr>file_header = \<lparr>fh_buffer_pool_id = 4, page_count = 3, allocated_pages = 2, fh_bitmap = [5, 0]\<rparr>, hdr_lsn = 1, hdr_dirty = False\<rparr>"

definition example_reqs :: "(int \<times> page_req) list" where
  "example_reqs = [(2, Req_allocate), (5, Req_allocate), (6, Req_dispose 2), (9, Req_allocate)]"

theorem allocation_redo_recovers_witness:
  "\<exists>es f' es1 c c'. logged_calls 4 example_reqs example_header = Some (es, f') \<and> length es = 4 \<and>
     logged_calls 4 (take 2 example_reqs) example_header = Some (es1, c) \<and>
     bp_replay_all es [4 \<mapsto> c] = Some (SUCCESS, [4 \<mapsto> c']) \<and> file_header c' = file_header f'"
proof -
  have "map_option (length \<circ> fst) (logged_calls 4 example_reqs example_header) = Some 4" by code_simp
  then obtain es f' where run: "logged_calls 4 example_reqs example_header = Some (es, f')" "length es = 4" by auto
  have "logged_calls 4 (take 2 example_reqs) example_header \<noteq> None" by code_simp
  then obtain es1 c where c: "logged_calls 4 (take 2 example_reqs) example_header = Some (es1, c)" by auto
  have ok: "run_ok 4 (hdr_lsn example_header) example_reqs example_header" by code_simp
  have "int_fits 32 4" by (simp add: int_fits_def)
  from allocation_redo_recovers [OF run(1) ok this c, of "[4 \<mapsto> c]"] show ?thesis using run c by auto
qed

section \<open>The iterator\<close>

lemma header_rel_bm_wf: "header_rel h n A \<Longrightarrow> bm_wf (page_bits h)"
  by (auto simp: header_rel_def bm_wf_def page_bits_def bitmap_init_def bytes_nonneg)

fun iterate_pages :: "nat \<Rightarrow> BufferPoolIterator \<Rightarrow> int list option" where
  \<comment> \<open>the loop \<^verbatim>\<open>while (has_next()) next()\<close> of the callers, for at most \<open>fuel\<close> rounds\<close>
  "iterate_pages 0 it = Some []"
| "iterate_pages (Suc fuel) it =
     (case bpi_has_next it of
        None \<Rightarrow> None
      | Some b \<Rightarrow>
          if b then (case bpi_next it of None \<Rightarrow> None | Some (n, it') \<Rightarrow> map_option (Cons n) (iterate_pages fuel it'))
          else Some [])"

lemma filter_upt_least:
  assumes "least_at P lo hi (int k)"
  shows "filter P [lo ..< hi] = k # filter P [Suc k ..< hi]"
proof -
  have k: "lo \<le> k" "k < hi" "P k" "\<And>i. lo \<le> i \<Longrightarrow> i < k \<Longrightarrow> \<not> P i" using assms by (auto simp: least_at_def)
  have "[lo ..< hi] = [lo ..< k] @ k # [Suc k ..< hi]"
    using k(1,2) upt_add_eq_append [of lo k "hi - k"] by (simp add: upt_conv_Cons)
  moreover have "filter P [lo ..< k] = []" using k(4) by (auto simp: filter_empty_conv)
  ultimately show ?thesis using k(3) by simp
qed

lemma iterate_pages_from:
  assumes "header_rel h n A"
  shows "int lo = current_page_num it + 1 \<Longrightarrow> bpi_bitmap it = page_bits h \<Longrightarrow> n - lo \<le> fuel \<Longrightarrow>
    iterate_pages (Suc fuel) it = Some (map int (filter (\<lambda>i. i \<in> A) [lo ..< n]))"
proof (induction fuel arbitrary: lo it)
  case 0
  obtain r where r: "next_setted_bit (page_bits h) (int lo) = Some r" "least_at (setted (page_bits h)) lo n r"
    using next_setted_bit_least [OF header_rel_bm_wf [OF assms], of "int lo"] assms by (auto simp: header_rel_def page_bits_def bitmap_init_def)
  have "n \<le> lo" using 0(3) by simp
  then have "r = - 1" using r(2) by (auto simp: least_at_def split: if_splits)
  then show ?case using r(1) 0 by (simp add: bpi_has_next_def)
next
  case (Suc fuel)
  obtain r where r: "next_setted_bit (page_bits h) (int lo) = Some r" "least_at (setted (page_bits h)) lo n r"
    using next_setted_bit_least [OF header_rel_bm_wf [OF assms], of "int lo"] assms by (auto simp: header_rel_def page_bits_def bitmap_init_def)
  have l: "least_at (\<lambda>i. i \<in> A) lo n r" using r(2) assms least_at_cong [of lo n "setted (page_bits h)" "\<lambda>i. i \<in> A"] by (simp add: header_rel_def)
  show ?case
  proof (cases "r = - 1")
    case True
    then have "filter (\<lambda>i. i \<in> A) [lo ..< n] = []" using l by (simp add: least_at_def filter_empty_conv)
    then show ?thesis using True r(1) Suc.prems by (simp add: bpi_has_next_def)
  next
    case False
    then obtain k where k: "r = int k" "lo \<le> k" "k < n" using l by (auto simp: least_at_def)
    have "iterate_pages (Suc fuel) (it\<lparr>current_page_num := int k\<rparr>) = Some (map int (filter (\<lambda>i. i \<in> A) [Suc k ..< n]))"
      using Suc.IH [of "Suc k" "it\<lparr>current_page_num := int k\<rparr>"] Suc.prems k by simp
    then show ?thesis
      using r(1) False k l filter_upt_least [of "\<lambda>i. i \<in> A" lo n k] Suc.prems
      by (simp add: bpi_has_next_def bpi_next_def del: iterate_pages.simps(2) add: iterate_pages.simps(2) [of "Suc fuel"])
  qed
qed

text \<open>
  C30: the page iterator visits every allocated page from the start page on once, in order, and stops; as many rounds as
  the file has pages are enough.
\<close>

theorem page_iterator_complete:
  assumes "header_rel h n A" and "n \<le> fuel"
  shows "iterate_pages (Suc fuel) (bpi_init h start) = Some (map int (filter (\<lambda>i. i \<in> A) [nat start ..< n]))"
proof -
  have "int (nat start) = current_page_num (bpi_init h start) + 1" "bpi_bitmap (bpi_init h start) = page_bits h"
    by (auto simp: bpi_init_def page_bits_def)
  then show ?thesis using iterate_pages_from [OF assms(1)] assms(2) by simp
qed

theorem page_iterator_complete_witness:
  "header_rel (file_header example_header) 3 {0, 2} \<and> iterate_pages 4 (bpi_init (file_header example_header) 1) = Some [2]"
proof -
  have r: "header_rel (file_header example_header) 3 {0, 2}"
    by (auto simp: header_rel_def example_header_def setted_page_bits less_Suc_eq numeral_3_eq_3 bit_numeral_rec)
  have "map int (filter (\<lambda>i. i \<in> {0, 2}) [nat 1 ..< 3]) = [2]" by code_simp
  then show ?thesis using r page_iterator_complete [OF r, of 3 1] by simp
qed

text \<open>\<^verbatim>\<open>reset\<close> does not restart the iteration that \<^verbatim>\<open>init\<close> begins: it leaves out page 0.\<close>

lemma reset_skips_header_page:
  "iterate_pages 4 (bpi_init (file_header example_header) 0) = Some [0, 2] \<and>
   iterate_pages 4 (bpi_reset (bpi_init (file_header example_header) 0)) = Some [2]"
  by code_simp

end
