(* ===== verification/Crc.thy ===== *)
theory Crc
  imports Ob_Prelude
begin

unbundle bit_operations_syntax

text \<open>
  The checksum of a page (\<^verbatim>\<open>src/deps/common/math/crc.cpp\<close>): the table, the byte-wise loop, and the bit-wise CRC with the
  reflected polynomial \<open>0xEDB88320\<close> that the table tabulates. \<^verbatim>\<open>buffer[i]\<close> is a signed \<^verbatim>\<open>char\<close>; only its low byte
  reaches the index.
\<close>

definition crc_table :: "32 word list" where
  "crc_table =
     [0x00000000, 0x77073096, 0xEE0E612C, 0x990951BA, 0x076DC419, 0x706AF48F, 0xE963A535, 0x9E6495A3,
      0x0EDB8832, 0x79DCB8A4, 0xE0D5E91E, 0x97D2D988, 0x09B64C2B, 0x7EB17CBD, 0xE7B82D07, 0x90BF1D91,
      0x1DB71064, 0x6AB020F2, 0xF3B97148, 0x84BE41DE, 0x1ADAD47D, 0x6DDDE4EB, 0xF4D4B551, 0x83D385C7,
      0x136C9856, 0x646BA8C0, 0xFD62F97A, 0x8A65C9EC, 0x14015C4F, 0x63066CD9, 0xFA0F3D63, 0x8D080DF5,
      0x3B6E20C8, 0x4C69105E, 0xD56041E4, 0xA2677172, 0x3C03E4D1, 0x4B04D447, 0xD20D85FD, 0xA50AB56B,
      0x35B5A8FA, 0x42B2986C, 0xDBBBC9D6, 0xACBCF940, 0x32D86CE3, 0x45DF5C75, 0xDCD60DCF, 0xABD13D59,
      0x26D930AC, 0x51DE003A, 0xC8D75180, 0xBFD06116, 0x21B4F4B5, 0x56B3C423, 0xCFBA9599, 0xB8BDA50F,
      0x2802B89E, 0x5F058808, 0xC60CD9B2, 0xB10BE924, 0x2F6F7C87, 0x58684C11, 0xC1611DAB, 0xB6662D3D,
      0x76DC4190, 0x01DB7106, 0x98D220BC, 0xEFD5102A, 0x71B18589, 0x06B6B51F, 0x9FBFE4A5, 0xE8B8D433,
      0x7807C9A2, 0x0F00F934, 0x9609A88E, 0xE10E9818, 0x7F6A0DBB, 0x086D3D2D, 0x91646C97, 0xE6635C01,
      0x6B6B51F4, 0x1C6C6162, 0x856530D8, 0xF262004E, 0x6C0695ED, 0x1B01A57B, 0x8208F4C1, 0xF50FC457,
      0x65B0D9C6, 0x12B7E950, 0x8BBEB8EA, 0xFCB9887C, 0x62DD1DDF, 0x15DA2D49, 0x8CD37CF3, 0xFBD44C65,
      0x4DB26158, 0x3AB551CE, 0xA3BC0074, 0xD4BB30E2, 0x4ADFA541, 0x3DD895D7, 0xA4D1C46D, 0xD3D6F4FB,
      0x4369E96A, 0x346ED9FC, 0xAD678846, 0xDA60B8D0, 0x44042D73, 0x33031DE5, 0xAA0A4C5F, 0xDD0D7CC9,
      0x5005713C, 0x270241AA, 0xBE0B1010, 0xC90C2086, 0x5768B525, 0x206F85B3, 0xB966D409, 0xCE61E49F,
      0x5EDEF90E, 0x29D9C998, 0xB0D09822, 0xC7D7A8B4, 0x59B33D17, 0x2EB40D81, 0xB7BD5C3B, 0xC0BA6CAD,
      0xEDB88320, 0x9ABFB3B6, 0x03B6E20C, 0x74B1D29A, 0xEAD54739, 0x9DD277AF, 0x04DB2615, 0x73DC1683,
      0xE3630B12, 0x94643B84, 0x0D6D6A3E, 0x7A6A5AA8, 0xE40ECF0B, 0x9309FF9D, 0x0A00AE27, 0x7D079EB1,
      0xF00F9344, 0x8708A3D2, 0x1E01F268, 0x6906C2FE, 0xF762575D, 0x806567CB, 0x196C3671, 0x6E6B06E7,
      0xFED41B76, 0x89D32BE0, 0x10DA7A5A, 0x67DD4ACC, 0xF9B9DF6F, 0x8EBEEFF9, 0x17B7BE43, 0x60B08ED5,
      0xD6D6A3E8, 0xA1D1937E, 0x38D8C2C4, 0x4FDFF252, 0xD1BB67F1, 0xA6BC5767, 0x3FB506DD, 0x48B2364B,
      0xD80D2BDA, 0xAF0A1B4C, 0x36034AF6, 0x41047A60, 0xDF60EFC3, 0xA867DF55, 0x316E8EEF, 0x4669BE79,
      0xCB61B38C, 0xBC66831A, 0x256FD2A0, 0x5268E236, 0xCC0C7795, 0xBB0B4703, 0x220216B9, 0x5505262F,
      0xC5BA3BBE, 0xB2BD0B28, 0x2BB45A92, 0x5CB36A04, 0xC2D7FFA7, 0xB5D0CF31, 0x2CD99E8B, 0x5BDEAE1D,
      0x9B64C2B0, 0xEC63F226, 0x756AA39C, 0x026D930A, 0x9C0906A9, 0xEB0E363F, 0x72076785, 0x05005713,
      0x95BF4A82, 0xE2B87A14, 0x7BB12BAE, 0x0CB61B38, 0x92D28E9B, 0xE5D5BE0D, 0x7CDCEFB7, 0x0BDBDF21,
      0x86D3D2D4, 0xF1D4E242, 0x68DDB3F8, 0x1FDA836E, 0x81BE16CD, 0xF6B9265B, 0x6FB077E1, 0x18B74777,
      0x88085AE6, 0xFF0F6A70, 0x66063BCA, 0x11010B5C, 0x8F659EFF, 0xF862AE69, 0x616BFFD3, 0x166CCF45,
      0xA00AE278, 0xD70DD2EE, 0x4E048354, 0x3903B3C2, 0xA7672661, 0xD06016F7, 0x4969474D, 0x3E6E77DB,
      0xAED16A4A, 0xD9D65ADC, 0x40DF0B66, 0x37D83BF0, 0xA9BCAE53, 0xDEBB9EC5, 0x47B2CF7F, 0x30B5FFE9,
      0xBDBDF21C, 0xCABAC28A, 0x53B39330, 0x24B4A3A6, 0xBAD03605, 0xCDD70693, 0x54DE5729, 0x23D967BF,
      0xB3667A2E, 0xC4614AB8, 0x5D681B02, 0x2A6F2B94, 0xB40BBE37, 0xC30C8EA1, 0x5A05DF1B, 0x2D02EF8D]"

definition crc_update :: "32 word \<Rightarrow> byte \<Rightarrow> 32 word" where
  "crc_update crc b = crc_table ! unat ((crc XOR ucast b) AND 0xff) XOR drop_bit 8 crc"

definition crc32 :: "byte list \<Rightarrow> 32 word" where
  "crc32 buffer = foldl crc_update 0xffffffff buffer"

section \<open>The bit-wise checksum\<close>

definition crc_bit :: "32 word \<Rightarrow> 32 word" where
  "crc_bit x = drop_bit 1 x XOR (if bit x 0 then 0xEDB88320 else 0)"

definition crc_byte :: "32 word \<Rightarrow> byte \<Rightarrow> 32 word" where
  "crc_byte crc b = (crc_bit ^^ 8) (crc XOR ucast b)"


text \<open>The same step on integers, whose evaluation is fast.\<close>

definition crc_bit_int :: "int \<Rightarrow> int" where
  "crc_bit_int x = (x div 2) XOR (if odd x then 0xEDB88320 else 0)"

definition crc_byte_int :: "int \<Rightarrow> int" where
  "crc_byte_int x = crc_bit_int (crc_bit_int (crc_bit_int (crc_bit_int (crc_bit_int (crc_bit_int (crc_bit_int (crc_bit_int x)))))))"

lemma uint_crc_bit: "uint (crc_bit x) = crc_bit_int (uint x)"
proof -
  have "bit x 0 \<longleftrightarrow> odd (uint x)" using bit_uint_iff [of x 0] by (simp add: bit_0)
  moreover have "uint (drop_bit 1 x) = uint x div 2" by (simp add: uint_div_distrib drop_bit_eq_div unsigned_drop_bit_eq)
  ultimately show ?thesis by (simp add: crc_bit_def crc_bit_int_def unsigned_xor_eq)
qed

lemma crc_table_uint: "map uint crc_table = map crc_byte_int [0 .. 255]"
  by code_simp

lemma uint_crc_bits: "uint ((crc_bit ^^ 8) x) = crc_byte_int (uint x)"
  by (simp add: numeral_eq_Suc uint_crc_bit crc_byte_int_def)

lemma crc_table_nth:
  assumes "i < 256"
  shows "crc_table ! i = (crc_bit ^^ 8) (word_of_nat i)"
proof -
  have len: "length crc_table = 256" using arg_cong [OF crc_table_uint, of length] by simp
  have "uint (crc_table ! i) = map uint crc_table ! i" using assms len by simp
  also have "\<dots> = crc_byte_int (int i)" using assms by (simp add: crc_table_uint)
  also have "\<dots> = uint ((crc_bit ^^ 8) (word_of_nat i))"
    using assms by (simp add: uint_crc_bits unsigned_of_nat take_bit_nat_eq_self del: funpow.simps)
  finally show ?thesis by (simp add: word_uint_eq_iff)
qed

lemma crc_bit_xor: "crc_bit (x XOR y) = crc_bit x XOR crc_bit y"
  by (auto simp: crc_bit_def bit_xor_iff drop_bit_xor xor.assoc xor.left_commute xor.commute)

lemma crc_bits_xor: "(crc_bit ^^ n) (x XOR y) = (crc_bit ^^ n) x XOR (crc_bit ^^ n) y"
  by (induction n) (simp_all add: crc_bit_xor)

lemma crc_bits_high: "(\<And>i. i < k \<Longrightarrow> \<not> bit y i) \<Longrightarrow> (crc_bit ^^ k) y = drop_bit k y"
proof (induction k)
  case (Suc k)
  have "\<not> bit (drop_bit k y) 0" using Suc.prems [of k] by (simp add: bit_drop_bit_eq)
  then show ?case using Suc by (simp add: crc_bit_def drop_bit_drop_bit add.commute)
qed simp

lemma mask_8: "0xff = (mask 8 :: 32 word)"
  by (simp add: mask_eq_exp_minus_1)

lemma crc_bits_split: "(crc_bit ^^ 8) x = (crc_bit ^^ 8) (x AND 0xff) XOR drop_bit 8 x"
proof -
  have "x = (x AND mask 8) XOR (x AND NOT (mask 8))" by (rule bit_word_eqI) (auto simp: bit_simps)
  then have "(crc_bit ^^ 8) x = (crc_bit ^^ 8) (x AND mask 8) XOR (crc_bit ^^ 8) (x AND NOT (mask 8))" by (metis crc_bits_xor)
  moreover have "(crc_bit ^^ 8) (x AND NOT (mask 8)) = drop_bit 8 (x AND NOT (mask 8))"
    by (rule crc_bits_high) (simp add: bit_simps)
  moreover have "drop_bit 8 (x AND NOT (mask 8)) = drop_bit 8 x"
    by (rule bit_word_eqI) (auto simp: bit_simps dest: bit_imp_le_length)
  ultimately show ?thesis by (simp add: mask_8)
qed

lemma crc_update_byte: "crc_update = crc_byte"
proof (intro ext)
  fix crc :: "32 word" and b :: byte
  let ?x = "crc XOR ucast b"
  have "unat (?x AND 0xff) < 256" using word_and_le1 [of ?x "0xff"] by (simp add: word_le_nat_alt)
  then have "crc_table ! unat (?x AND 0xff) = (crc_bit ^^ 8) (?x AND 0xff)" by (simp add: crc_table_nth)
  moreover have "drop_bit 8 ?x = drop_bit 8 crc"
    by (rule bit_word_eqI) (auto simp: bit_simps dest: bit_imp_le_length)
  ultimately show "crc_update crc b = crc_byte crc b" using crc_bits_split [of ?x] by (simp add: crc_update_def crc_byte_def)
qed

text \<open>
  C31: the table-driven checksum computes the bit-wise cyclic redundancy check with polynomial \<open>0xEDB88320\<close>, for every
  buffer.
\<close>

theorem crc32_bitwise: "crc32 buffer = foldl crc_byte 0xffffffff buffer"
  by (simp add: crc32_def crc_update_byte)

section \<open>Error detection\<close>

lemma xor_cancel: "a XOR c = b XOR c \<Longrightarrow> a = (b :: 32 word)"
  by (metis xor.assoc xor.right_neutral xor_self_eq)

lemma ucast_byte_inj: "ucast (a :: byte) = (ucast b :: 32 word) \<Longrightarrow> a = b"
proof (rule bit_word_eqI)
  fix n
  assume eq: "ucast a = (ucast b :: 32 word)" and n: "n < LENGTH(8)"
  show "bit a n \<longleftrightarrow> bit b n" using arg_cong [OF eq, of "\<lambda>w. bit w n"] n by (simp add: bit_ucast_iff)
qed

lemma crc_bit_inj: "crc_bit x = crc_bit y \<Longrightarrow> x = y"
proof -
  assume eq: "crc_bit x = crc_bit y"
  have top: "bit (crc_bit z) 31 \<longleftrightarrow> bit z 0" for z
    using bit_imp_le_length [of z 32] by (auto simp: crc_bit_def bit_simps bit_drop_bit_eq bit_numeral_rec)
  have b0: "bit x 0 = bit y 0" using top [of x] top [of y] eq by simp
  then have d: "drop_bit 1 x = drop_bit 1 y" using eq by (auto simp: crc_bit_def split: if_splits dest: xor_cancel)
  show "x = y"
  proof (rule bit_word_eqI)
    fix n
    show "bit x n \<longleftrightarrow> bit y n"
    proof (cases n)
      case (Suc m)
      then show ?thesis using arg_cong [OF d, of "\<lambda>w. bit w m"] by (simp add: bit_drop_bit_eq)
    qed (use b0 in simp)
  qed
qed

lemma crc_bits_inj: "(crc_bit ^^ n) x = (crc_bit ^^ n) y \<Longrightarrow> x = y"
  by (induction n) (auto dest: crc_bit_inj)

lemma crc_byte_inj:
  "crc_byte c a = crc_byte c b \<Longrightarrow> a = b" "crc_byte c a = crc_byte d a \<Longrightarrow> c = d"
proof -
  show "a = b" if "crc_byte c a = crc_byte c b"
    using crc_bits_inj [OF that [unfolded crc_byte_def]] xor_cancel [of "ucast a" c "ucast b"] ucast_byte_inj by (simp add: xor.commute)
  show "c = d" if "crc_byte c a = crc_byte d a"
    using crc_bits_inj [OF that [unfolded crc_byte_def]] xor_cancel by blast
qed

lemma crc_foldl_inj: "foldl crc_byte c ys = foldl crc_byte d ys \<Longrightarrow> c = d"
  by (induction ys arbitrary: c d) (auto dest: crc_byte_inj)

text \<open>
  C32: the checksum detects every change of a single byte, wherever it is in the page.
\<close>

theorem crc32_detects_byte:
  assumes "a \<noteq> b"
  shows "crc32 (xs @ a # ys) \<noteq> crc32 (xs @ b # ys)"
  using assms by (auto simp: crc32_def crc_update_byte dest!: crc_foldl_inj crc_byte_inj)

theorem crc32_detects_byte_witness: "(1 :: byte) \<noteq> 2 \<and> crc32 ([7] @ 1 # [8]) \<noteq> crc32 ([7] @ 2 # [8])"
  using crc32_detects_byte [of 1 2 "[7]" "[8]"] by simp

end
