(* ===== verification/Double_Write.thy ===== *)
theory Double_Write
  imports Crc
begin

text \<open>
  The double write buffer (\<^verbatim>\<open>src/src/observer/storage/buffer/double_write_buffer.h\<close>, \<^verbatim>\<open>double_write_buffer.cpp\<close>): a page is first
  written to a slot of a shared file, and only later to its place, so that a page torn by a crash can be restored.

  The shared file is its header, the number of slots, and the slots; the data files are the map \<open>disk\<close> from pool and
  page number to pages. Every seek-and-write consumes one outcome of the script \<open>io\<close>: it succeeds, fails to seek, or tears
  the page it writes; an empty script means success. \<open>dblwr_pages\<close> is the hash map as a list, in some order that no property
  depends on; the object an entry points to is \<open>None\<close> once it was deleted, and using it then, or writing a page of a pool
  that is not open, has no result.
\<close>

section \<open>State\<close>

record Page =
  pg_lsn :: int
  check_sum :: "32 word"
  pg_data :: "byte list"

type_synonym page_key = "int \<times> int"

record DoubleWritePage =
  dw_key :: page_key
  page_index :: int
  valid :: bool
  dw_page :: Page

datatype io_outcome = Io_ok | Io_seek | Io_torn Page

record DoubleWriteBuffer =
  dw_open :: bool
  max_pages :: int
  header_cnt :: int
  dblwr_pages :: "(page_key \<times> DoubleWritePage option) list"
  df_cnt :: "int option"
  df_slots :: "int \<rightharpoonup> DoubleWritePage"
  disk :: "page_key \<rightharpoonup> Page"
  open_pools :: "int list"
  io :: "io_outcome list"

definition next_io :: "DoubleWriteBuffer \<Rightarrow> io_outcome \<times> DoubleWriteBuffer" where
  "next_io st = (case io st of [] \<Rightarrow> (Io_ok, st) | x # xs \<Rightarrow> (x, st\<lparr>io := xs\<rparr>))"

section \<open>Operations\<close>

definition bp_write_page :: "page_key \<Rightarrow> Page \<Rightarrow> DoubleWriteBuffer \<Rightarrow> rc \<times> DoubleWriteBuffer" where
  \<comment> \<open>\<^verbatim>\<open>DiskBufferPool::write_page\<close>\<close>
  "bp_write_page key p st =
     (case next_io st of
        (Io_seek, st) \<Rightarrow> (IOERR_SEEK, st)
      | (Io_torn t, st) \<Rightarrow> (IOERR_WRITE, st\<lparr>disk := (disk st)(key \<mapsto> t)\<rparr>)
      | (Io_ok, st) \<Rightarrow> (SUCCESS, st\<lparr>disk := (disk st)(key \<mapsto> p)\<rparr>))"

definition write_page_internal :: "DoubleWritePage \<Rightarrow> DoubleWriteBuffer \<Rightarrow> rc \<times> DoubleWriteBuffer" where
  "write_page_internal e st =
     (case next_io st of
        (Io_seek, st) \<Rightarrow> (IOERR_SEEK, st)
      | (Io_torn t, st) \<Rightarrow> (IOERR_WRITE, st\<lparr>df_slots := (df_slots st)(page_index e \<mapsto> e\<lparr>dw_page := t\<rparr>)\<rparr>)
      | (Io_ok, st) \<Rightarrow> (SUCCESS, st\<lparr>df_slots := (df_slots st)(page_index e \<mapsto> e)\<rparr>))"

definition dw_write_page :: "DoubleWritePage \<Rightarrow> DoubleWriteBuffer \<Rightarrow> (rc \<times> DoubleWriteBuffer) option" where
  "dw_write_page e st =
     (if \<not> valid e then Some (SUCCESS, st)
      else if fst (dw_key e) \<in> set (open_pools st) then Some (bp_write_page (dw_key e) (dw_page e) st)
      else None)"

fun free_entry :: "page_key \<Rightarrow> (page_key \<times> DoubleWritePage option) list \<Rightarrow> (page_key \<times> DoubleWritePage option) list" where
  \<comment> \<open>\<^verbatim>\<open>delete\<close> of the object an entry points to\<close>
  "free_entry key xs = map (\<lambda>(k, e). if k = key then (k, None) else (k, e)) xs"

fun flush_entries :: "(page_key \<times> DoubleWritePage option) list \<Rightarrow> DoubleWriteBuffer \<Rightarrow> (rc \<times> DoubleWriteBuffer) option" where
  \<comment> \<open>the loop of \<^verbatim>\<open>flush_page\<close>\<close>
  "flush_entries [] st = Some (SUCCESS, st)"
| "flush_entries ((k, None) # es) st = None"
| "flush_entries ((k, Some e) # es) st =
     (case dw_write_page e st of
        None \<Rightarrow> None
      | Some (rc, st1) \<Rightarrow>
          if rc \<noteq> SUCCESS then Some (rc, st1)
          else let st2 = snd (write_page_internal (e\<lparr>valid := False\<rparr>) st1)
               in flush_entries es (st2\<lparr>dblwr_pages := free_entry k (dblwr_pages st2)\<rparr>))"

definition dw_flush_page :: "DoubleWriteBuffer \<Rightarrow> (rc \<times> DoubleWriteBuffer) option" where
  "dw_flush_page st =
     (case flush_entries (dblwr_pages st) st of
        None \<Rightarrow> None
      | Some (rc, st') \<Rightarrow>
          if rc \<noteq> SUCCESS then Some (rc, st') else Some (SUCCESS, st'\<lparr>dblwr_pages := [], header_cnt := 0\<rparr>))"

definition write_header :: "DoubleWriteBuffer \<Rightarrow> rc \<times> DoubleWriteBuffer" where
  "write_header st =
     (case next_io st of
        (Io_seek, st) \<Rightarrow> (IOERR_SEEK, st)
      | (Io_torn _, st) \<Rightarrow> (IOERR_WRITE, st)
      | (Io_ok, st) \<Rightarrow> (SUCCESS, st\<lparr>df_cnt := Some (header_cnt st)\<rparr>))"

definition dw_add_page :: "page_key \<Rightarrow> Page \<Rightarrow> DoubleWriteBuffer \<Rightarrow> (rc \<times> DoubleWriteBuffer) option" where
  "dw_add_page key p st =
     (case map_of (dblwr_pages st) key of
        Some None \<Rightarrow> None
      | Some (Some e) \<Rightarrow>
          let e' = e\<lparr>dw_page := p\<rparr>
          in Some (write_page_internal e' (st\<lparr>dblwr_pages := map (\<lambda>(k, x). (k, if k = key then Some e' else x)) (dblwr_pages st)\<rparr>))
      | None \<Rightarrow>
          let page_cnt = int (length (dblwr_pages st));
              e = \<lparr>dw_key = key, page_index = page_cnt, valid = True, dw_page = p\<rparr>;
              st1 = st\<lparr>dblwr_pages := dblwr_pages st @ [(key, Some e)]\<rparr>
          in case write_page_internal e st1 of
               (rc, st2) \<Rightarrow>
                 if OB_FAIL rc then Some (rc, st2)
                 else case (if header_cnt st2 < page_cnt + 1 then write_header (st2\<lparr>header_cnt := page_cnt + 1\<rparr>) else (SUCCESS, st2)) of
                   (rc, st3) \<Rightarrow>
                     if rc \<noteq> SUCCESS then Some (rc, st3)
                     else if max_pages st3 \<le> int (length (dblwr_pages st3)) then dw_flush_page st3
                     else Some (SUCCESS, st3))"

definition dw_read_page :: "page_key \<Rightarrow> DoubleWriteBuffer \<Rightarrow> (rc \<times> Page option) option" where
  "dw_read_page key st =
     (case map_of (dblwr_pages st) key of
        None \<Rightarrow> Some (BUFFERPOOL_INVALID_PAGE_NUM, None)
      | Some None \<Rightarrow> None
      | Some (Some e) \<Rightarrow> Some (SUCCESS, Some (dw_page e)))"

fun clear_entries :: "DoubleWritePage list \<Rightarrow> DoubleWriteBuffer \<Rightarrow> DoubleWriteBuffer" where
  \<comment> \<open>the writing loop of \<^verbatim>\<open>clear_pages\<close>, which ends at the first failure\<close>
  "clear_entries [] st = st"
| "clear_entries (e # es) st =
     (case bp_write_page (dw_key e) (dw_page e) st of
        (rc, st1) \<Rightarrow> if OB_FAIL rc then st1 else clear_entries es (snd (write_page_internal (e\<lparr>valid := False\<rparr>) st1)))"

definition dw_clear_pages :: "int \<Rightarrow> DoubleWriteBuffer \<Rightarrow> (rc \<times> DoubleWriteBuffer) option" where
  "dw_clear_pages bp st =
     (if \<exists>x \<in> set (dblwr_pages st). snd x = None then None
      else let es = map the (map snd (dblwr_pages st));
               spec_pages = sort_key (snd \<circ> dw_key) (filter (\<lambda>e. fst (dw_key e) = bp) es);
               st1 = st\<lparr>dblwr_pages := filter (\<lambda>(k, x). fst (dw_key (the x)) \<noteq> bp) (dblwr_pages st)\<rparr>
           in Some (SUCCESS, clear_entries spec_pages st1))"

fun load_slots :: "nat \<Rightarrow> int \<Rightarrow> DoubleWriteBuffer \<Rightarrow> rc \<times> DoubleWriteBuffer" where
  \<comment> \<open>the loop of \<^verbatim>\<open>load_pages\<close>: \<open>n\<close> slots from slot \<open>i\<close> on\<close>
  "load_slots 0 i st = (SUCCESS, st)"
| "load_slots (Suc n) i st =
     (case df_slots st i of
        None \<Rightarrow> (IOERR_READ, st)
      | Some e \<Rightarrow>
          load_slots n (i + 1)
            (if crc32 (pg_data (dw_page e)) = check_sum (dw_page e) \<and> map_of (dblwr_pages st) (dw_key e) = None
             then st\<lparr>dblwr_pages := dblwr_pages st @ [(dw_key e, Some e)]\<rparr> else st))"

definition dw_load_pages :: "DoubleWriteBuffer \<Rightarrow> rc \<times> DoubleWriteBuffer" where
  "dw_load_pages st =
     (if \<not> dw_open st then (BUFFERPOOL_OPEN, st)
      else if dblwr_pages st \<noteq> [] then (BUFFERPOOL_OPEN, st)
      else let st1 = (case df_cnt st of None \<Rightarrow> st | Some n \<Rightarrow> st\<lparr>header_cnt := n\<rparr>)
           in load_slots (nat (header_cnt st1)) 0 st1)"

definition dw_open_file :: "DoubleWriteBuffer \<Rightarrow> rc \<times> DoubleWriteBuffer" where
  \<comment> \<open>the file is created when it is missing\<close>
  "dw_open_file st =
     (if dw_open st then (BUFFERPOOL_OPEN, st) else dw_load_pages (st\<lparr>dw_open := True\<rparr>))"

definition dw_recover :: "DoubleWriteBuffer \<Rightarrow> (rc \<times> DoubleWriteBuffer) option" where
  "dw_recover st = dw_flush_page st"

definition vacuous_add_page :: "page_key \<Rightarrow> Page \<Rightarrow> DoubleWriteBuffer \<Rightarrow> rc \<times> DoubleWriteBuffer" where
  "vacuous_add_page key p st = bp_write_page key p st"

definition bp_load_page :: "page_key \<Rightarrow> DoubleWriteBuffer \<Rightarrow> (rc \<times> Page option) option" where
  \<comment> \<open>\<^verbatim>\<open>DiskBufferPool::load_page\<close>: from the buffer, or else from the data file\<close>
  "bp_load_page key st =
     (case dw_read_page key st of
        None \<Rightarrow> None
      | Some (rc, p) \<Rightarrow>
          if OB_SUCC rc then Some (rc, p)
          else case disk st key of None \<Rightarrow> Some (IOERR_READ, None) | Some q \<Rightarrow> Some (SUCCESS, Some q))"

section \<open>The pages the buffer and the data files hold\<close>

definition dw_entry_ok :: "int list \<Rightarrow> page_key \<times> DoubleWritePage option \<Rightarrow> bool" where
  "dw_entry_ok pools x = (case x of (k, None) \<Rightarrow> False | (k, Some e) \<Rightarrow> dw_key e = k \<and> valid e \<and> fst k \<in> set pools)"

definition dw_inv :: "DoubleWriteBuffer \<Rightarrow> bool" where
  "dw_inv st \<longleftrightarrow> distinct (map fst (dblwr_pages st)) \<and> (\<forall>x \<in> set (dblwr_pages st). dw_entry_ok (open_pools st) x) \<and> io st = []"

definition over :: "(page_key \<times> DoubleWritePage option) list \<Rightarrow> (page_key \<rightharpoonup> Page) \<Rightarrow> page_key \<rightharpoonup> Page" where
  "over es d k = (case map_of es k of Some (Some e) \<Rightarrow> Some (dw_page e) | _ \<Rightarrow> d k)"

definition stored :: "DoubleWriteBuffer \<Rightarrow> page_key \<rightharpoonup> Page" where
  "stored st = over (dblwr_pages st) (disk st)"

fun mark_invalid :: "(page_key \<times> DoubleWritePage option) list \<Rightarrow> (int \<rightharpoonup> DoubleWritePage) \<Rightarrow> int \<rightharpoonup> DoubleWritePage" where
  \<comment> \<open>the slots after a flush of the entries\<close>
  "mark_invalid [] f = f"
| "mark_invalid ((k, x) # es) f = mark_invalid es (f(page_index (the x) \<mapsto> (the x)\<lparr>valid := False\<rparr>))"

lemma next_io_Nil: "io st = [] \<Longrightarrow> next_io st = (Io_ok, st)"
  by (simp add: next_io_def)

lemma flush_entries_ok:
  assumes "\<forall>x \<in> set es. dw_entry_ok (open_pools st) x" and "distinct (map fst es)" and "io st = []"
  shows "\<exists>st'. flush_entries es st = Some (SUCCESS, st') \<and> disk st' = over es (disk st) \<and> open_pools st' = open_pools st \<and>
    io st' = [] \<and> max_pages st' = max_pages st \<and> dw_open st' = dw_open st \<and> df_cnt st' = df_cnt st \<and>
    df_slots st' = mark_invalid es (df_slots st)"
  using assms
proof (induction es arbitrary: st)
  case Nil
  then show ?case by (simp add: over_def)
next
  case (Cons x es)
  obtain k e where x: "x = (k, Some e)" "dw_key e = k" "valid e" "fst k \<in> set (open_pools st)"
    using Cons.prems(1) by (cases x) (auto simp: dw_entry_ok_def split: option.splits)
  define st1 where "st1 = st\<lparr>disk := (disk st)(k \<mapsto> dw_page e),
    df_slots := (df_slots st)(page_index e \<mapsto> e\<lparr>valid := False\<rparr>), dblwr_pages := free_entry k (dblwr_pages st)\<rparr>"
  have step: "flush_entries (x # es) st = flush_entries es st1"
    using x Cons.prems(3) by (simp add: dw_write_page_def bp_write_page_def write_page_internal_def next_io_def st1_def)
  have ov: "over es ((disk st)(k \<mapsto> dw_page e)) = over (x # es) (disk st)"
    using Cons.prems(2) x(1) by (auto simp: over_def fun_eq_iff map_of_eq_None_iff split: option.splits intro: rev_image_eqI)
  have keep: "open_pools st1 = open_pools st" "io st1 = []" "max_pages st1 = max_pages st" "dw_open st1 = dw_open st" "df_cnt st1 = df_cnt st"
    "disk st1 = (disk st)(k \<mapsto> dw_page e)" "df_slots st1 = (df_slots st)(page_index e \<mapsto> e\<lparr>valid := False\<rparr>)"
    using Cons.prems(3) by (simp_all add: st1_def)
  have "\<forall>x \<in> set es. dw_entry_ok (open_pools st1) x" "distinct (map fst es)" using Cons.prems(1,2) keep(1) by auto
  from Cons.IH [OF this keep(2)] show ?case unfolding step keep ov unfolding x(1) mark_invalid.simps option.sel .
qed

lemma dw_flush_ok:
  assumes "dw_inv st"
  shows "\<exists>st'. dw_flush_page st = Some (SUCCESS, st') \<and> disk st' = stored st \<and> dblwr_pages st' = [] \<and> header_cnt st' = 0 \<and>
    open_pools st' = open_pools st \<and> io st' = [] \<and> max_pages st' = max_pages st \<and> df_cnt st' = df_cnt st \<and>
    df_slots st' = mark_invalid (dblwr_pages st) (df_slots st)"
  using assms flush_entries_ok [of "dblwr_pages st" st] by (auto simp: dw_inv_def dw_flush_page_def stored_def)

lemma flushed_inv: "dblwr_pages st = [] \<Longrightarrow> io st = [] \<Longrightarrow> dw_inv st \<and> stored st = disk st"
  by (simp add: dw_inv_def stored_def over_def fun_eq_iff)

lemma over_append: "k \<notin> fst ` set es \<Longrightarrow> over (es @ [(k, Some e)]) d = (over es d)(k \<mapsto> dw_page e)"
proof -
  assume "k \<notin> fst ` set es"
  then have "map_of es k = None" by (simp add: map_of_eq_None_iff)
  then show ?thesis by (auto simp: over_def fun_eq_iff map_add_def split: option.splits)
qed

lemma over_update:
  assumes "map_of es k = Some (Some e)"
  shows "over (map (\<lambda>(k', x). (k', if k' = k then Some (e\<lparr>dw_page := p\<rparr>) else x)) es) d = (over es d)(k \<mapsto> p)"
proof
  fix j
  have "map_of (map (\<lambda>(k', x). (k', if k' = k then Some (e\<lparr>dw_page := p\<rparr>) else x)) es) j =
      (if j = k then map_option (\<lambda>_. Some (e\<lparr>dw_page := p\<rparr>)) (map_of es j) else map_of es j)"
    by (induction es) auto
  then show "over (map (\<lambda>(k', x). (k', if k' = k then Some (e\<lparr>dw_page := p\<rparr>) else x)) es) d j = ((over es d)(k \<mapsto> p)) j"
    using assms by (simp add: over_def)
qed

lemma dw_add_ok:
  assumes inv: "dw_inv st" and open_pool: "fst key \<in> set (open_pools st)"
  shows "\<exists>st'. dw_add_page key p st = Some (SUCCESS, st') \<and> dw_inv st' \<and> stored st' = (stored st)(key \<mapsto> p) \<and> open_pools st' = open_pools st"
proof (cases "map_of (dblwr_pages st) key")
  case (Some x)
  then have "(key, x) \<in> set (dblwr_pages st)" by (rule map_of_SomeD)
  then obtain e where e: "x = Some e" "dw_key e = key" "valid e" using inv by (cases x) (auto simp: dw_inv_def dw_entry_ok_def)
  let ?es = "map (\<lambda>(k, x). (k, if k = key then Some (e\<lparr>dw_page := p\<rparr>) else x)) (dblwr_pages st)"
  have "map fst ?es = map fst (dblwr_pages st)" by auto
  then have "distinct (map fst ?es)" using inv by (simp only: dw_inv_def)
  moreover have "\<forall>x \<in> set ?es. dw_entry_ok (open_pools st) x"
    using inv e open_pool by (auto simp: dw_inv_def dw_entry_ok_def split: option.splits)
  ultimately show ?thesis
    using Some e inv over_update [of "dblwr_pages st" key e p "disk st"]
    by (simp add: dw_add_page_def write_page_internal_def next_io_def dw_inv_def stored_def Let_def del: map_map)
next
  case None
  define e where "e = \<lparr>dw_key = key, page_index = int (length (dblwr_pages st)), valid = True, dw_page = p\<rparr>"
  define n where "n = int (length (dblwr_pages st)) + 1"
  define st3 where "st3 = st\<lparr>dblwr_pages := dblwr_pages st @ [(key, Some e)], df_slots := (df_slots st)(page_index e \<mapsto> e),
    header_cnt := max n (header_cnt st), df_cnt := (if header_cnt st < n then Some n else df_cnt st)\<rparr>"
  have new: "key \<notin> fst ` set (dblwr_pages st)" using None by (simp add: map_of_eq_None_iff)
  have inv3: "dw_inv st3" using inv new open_pool by (auto simp: dw_inv_def st3_def dw_entry_ok_def e_def)
  have stored3: "stored st3 = (stored st)(key \<mapsto> p)" using over_append [OF new, of e "disk st"] by (simp add: stored_def st3_def e_def)
  have "dw_add_page key p st = (if max_pages st3 \<le> int (length (dblwr_pages st3)) then dw_flush_page st3 else Some (SUCCESS, st3))"
    using None inv by (simp add: dw_add_page_def write_page_internal_def write_header_def next_io_def dw_inv_def Let_def st3_def e_def n_def)
  then show ?thesis
    using dw_flush_ok [OF inv3] inv3 stored3 flushed_inv by (auto simp: st3_def)
qed

lemma over_Cons:
  assumes "k \<notin> fst ` set es"
  shows "over es (d(k \<mapsto> dw_page e)) = over ((k, Some e) # es) d"
proof -
  have "map_of es k = None" using assms by (simp add: map_of_eq_None_iff)
  then show ?thesis by (auto simp: over_def fun_eq_iff split: option.splits)
qed

lemma clear_entries_ok:
  assumes "io st = []" and "distinct (map dw_key es)"
  shows "disk (clear_entries es st) = over (map (\<lambda>e. (dw_key e, Some e)) es) (disk st) \<and> dblwr_pages (clear_entries es st) = dblwr_pages st \<and>
    open_pools (clear_entries es st) = open_pools st \<and> io (clear_entries es st) = []"
  using assms
proof (induction es arbitrary: st)
  case Nil
  then show ?case by (simp add: over_def fun_eq_iff)
next
  case (Cons e es)
  define st1 where "st1 = st\<lparr>disk := (disk st)(dw_key e \<mapsto> dw_page e), df_slots := (df_slots st)(page_index e \<mapsto> e\<lparr>valid := False\<rparr>)\<rparr>"
  have step: "clear_entries (e # es) st = clear_entries es st1"
    using Cons.prems(1) by (simp add: bp_write_page_def write_page_internal_def next_io_def st1_def)
  have keep: "disk st1 = (disk st)(dw_key e \<mapsto> dw_page e)" "dblwr_pages st1 = dblwr_pages st" "open_pools st1 = open_pools st" "io st1 = []"
    using Cons.prems(1) by (simp_all add: st1_def)
  have new: "dw_key e \<notin> fst ` set (map (\<lambda>e. (dw_key e, Some e)) es)" using Cons.prems(2) by auto
  have "distinct (map dw_key es)" using Cons.prems(2) by simp
  from Cons.IH [OF keep(4) this] show ?case unfolding step keep over_Cons [OF new] by simp
qed

lemma map_of_keyed:
  assumes "distinct (map dw_key es)"
  shows "map_of (map (\<lambda>e. (dw_key e, Some e)) es) k = Some x \<longleftrightarrow> (\<exists>e \<in> set es. dw_key e = k \<and> x = Some e)"
proof -
  have "distinct (map fst (map (\<lambda>e. (dw_key e, Some e)) es))" using assms by (simp add: comp_def)
  from map_of_eq_Some_iff [OF this] show ?thesis by auto
qed

lemma over_split:
  \<comment> \<open>writing the entries of one pool to the data files first makes no difference\<close>
  assumes dist: "distinct (map fst xs)" and ok: "\<forall>x \<in> set xs. dw_entry_ok pools x"
    and es: "distinct (map dw_key es)" "set es = {e. \<exists>k. (k, Some e) \<in> set xs \<and> fst (dw_key e) = bp}"
  shows "over (filter (\<lambda>(k, x). fst (dw_key (the x)) \<noteq> bp) xs) (over (map (\<lambda>e. (dw_key e, Some e)) es) d) = over xs d"
    (is "over ?rest (over ?es d) = _")
proof
  fix k
  have dist': "distinct (map fst ?rest)" using dist distinct_map_filter by blast
  show "over ?rest (over ?es d) k = over xs d k"
  proof (cases "map_of xs k")
    case None
    then have notin: "k \<notin> fst ` set xs" by (simp add: map_of_eq_None_iff)
    then have "map_of ?rest k = None" by (auto simp: map_of_eq_None_iff)
    moreover have "map_of ?es k = None" using notin ok es(2) by (force simp: map_of_eq_None_iff dw_entry_ok_def split: option.splits)
    ultimately show ?thesis using None by (simp add: over_def)
  next
    case (Some x)
    then have "(k, x) \<in> set xs" by (rule map_of_SomeD)
    then obtain e where e: "x = Some e" "dw_key e = k" "(k, Some e) \<in> set xs"
      using ok by (cases x) (auto simp: dw_entry_ok_def)
    show ?thesis
    proof (cases "fst k = bp")
      case True
      have "map_of ?rest k = None"
        using True ok by (force simp: map_of_eq_None_iff dw_entry_ok_def split: option.splits)
      moreover have "e \<in> set es" using es(2) e True by blast
      then have "map_of ?es k = Some (Some e)" using map_of_keyed [OF es(1), of k "Some e"] e(2) by blast
      ultimately show ?thesis using Some e by (simp add: over_def)
    next
      case False
      then have "(k, Some e) \<in> set ?rest" using e by auto
      then have "map_of ?rest k = Some (Some e)" using map_of_is_SomeI [OF dist'] by blast
      then show ?thesis using Some e by (simp add: over_def)
    qed
  qed
qed

lemma dw_clear_ok:
  assumes inv: "dw_inv st"
  shows "\<exists>st'. dw_clear_pages bp st = Some (SUCCESS, st') \<and> dw_inv st' \<and> stored st' = stored st \<and> open_pools st' = open_pools st \<and>
    (\<forall>k. fst k = bp \<longrightarrow> disk st' k = stored st k)"
proof -
  let ?xs = "dblwr_pages st"
  let ?rest = "filter (\<lambda>(k, x). fst (dw_key (the x)) \<noteq> bp) ?xs"
  define es where "es = sort_key (snd \<circ> dw_key) (filter (\<lambda>e. fst (dw_key e) = bp) (map the (map snd ?xs)))"
  have dist: "distinct (map fst ?xs)" and ok: "\<forall>x \<in> set ?xs. dw_entry_ok (open_pools st) x" and io: "io st = []"
    using inv by (simp_all add: dw_inv_def)
  have some: "\<exists>e. x = Some e \<and> dw_key e = k" if "(k, x) \<in> set ?xs" for k x
    using ok that by (cases x) (auto simp: dw_entry_ok_def)
  have key: "dw_key (the (snd y)) = fst y" if "y \<in> set ?xs" for y using some [of "fst y" "snd y"] that by auto
  have "map dw_key (map the (map snd ?xs)) = map fst ?xs" using key by simp
  then have "distinct (map dw_key (map the (map snd ?xs)))" using dist by (simp only:)
  then have "distinct (map dw_key (filter (\<lambda>e. fst (dw_key e) = bp) (map the (map snd ?xs))))" using distinct_map_filter by blast
  then have es1: "distinct (map dw_key es)" unfolding es_def by (simp add: distinct_map)
  have es2: "set es = {e. \<exists>k. (k, Some e) \<in> set ?xs \<and> fst (dw_key e) = bp}"
    unfolding es_def using some by (auto simp: image_iff) force+
  have st': "dw_clear_pages bp st = Some (SUCCESS, clear_entries es (st\<lparr>dblwr_pages := ?rest\<rparr>))"
    using some by (fastforce simp: dw_clear_pages_def es_def Let_def)
  define st' where "st' = clear_entries es (st\<lparr>dblwr_pages := ?rest\<rparr>)"
  have c: "disk st' = over (map (\<lambda>e. (dw_key e, Some e)) es) (disk st)" "dblwr_pages st' = ?rest" "open_pools st' = open_pools st" "io st' = []"
    using clear_entries_ok [of "st\<lparr>dblwr_pages := ?rest\<rparr>" es] io es1 by (simp_all add: st'_def)
  have inv': "dw_inv st'" using c ok dist by (auto simp: dw_inv_def intro: distinct_map_filter)
  have same: "stored st' = stored st" unfolding stored_def c using over_split [OF dist ok es1 es2] .
  have "disk st' k = stored st k" if "fst k = bp" for k
  proof -
    have "map_of ?rest k = None" using key that by (auto simp: map_of_eq_None_iff)
    then have "stored st' k = disk st' k" by (simp add: stored_def over_def c(2))
    then show ?thesis by (simp add: same)
  qed
  then show ?thesis using st' inv' same c(3) st'_def by blast
qed

section \<open>A page read back is the page last written\<close>

datatype dw_call = Dw_add page_key Page | Dw_flush | Dw_clear int

fun dw_run :: "dw_call list \<Rightarrow> DoubleWriteBuffer \<Rightarrow> DoubleWriteBuffer option" where
  \<comment> \<open>calls that all succeed\<close>
  "dw_run [] st = Some st"
| "dw_run (Dw_add key p # xs) st =
     (case dw_add_page key p st of Some (SUCCESS, st') \<Rightarrow> dw_run xs st' | _ \<Rightarrow> None)"
| "dw_run (Dw_flush # xs) st = (case dw_flush_page st of Some (SUCCESS, st') \<Rightarrow> dw_run xs st' | _ \<Rightarrow> None)"
| "dw_run (Dw_clear bp # xs) st = (case dw_clear_pages bp st of Some (SUCCESS, st') \<Rightarrow> dw_run xs st' | _ \<Rightarrow> None)"

fun last_written :: "dw_call list \<Rightarrow> (page_key \<rightharpoonup> Page) \<Rightarrow> page_key \<rightharpoonup> Page" where
  "last_written [] d = d"
| "last_written (Dw_add key p # xs) d = last_written xs (d(key \<mapsto> p))"
| "last_written (_ # xs) d = last_written xs d"

fun call_open :: "int list \<Rightarrow> dw_call \<Rightarrow> bool" where
  "call_open pools (Dw_add key p) = (fst key \<in> set pools)"
| "call_open pools _ = True"

lemma dw_run_ok:
  "dw_inv st \<Longrightarrow> \<forall>x \<in> set xs. call_open (open_pools st) x \<Longrightarrow>
   \<exists>st'. dw_run xs st = Some st' \<and> dw_inv st' \<and> stored st' = last_written xs (stored st)"
proof (induction xs arbitrary: st)
  case (Cons x xs)
  show ?case
  proof (cases x)
    case (Dw_add key p)
    obtain st1 where st1: "dw_add_page key p st = Some (SUCCESS, st1)" "dw_inv st1" "stored st1 = (stored st)(key \<mapsto> p)" "open_pools st1 = open_pools st"
      using dw_add_ok [OF Cons.prems(1), of key p] Cons.prems(2) Dw_add by auto
    have "dw_run (x # xs) st = dw_run xs st1" "last_written (x # xs) (stored st) = last_written xs (stored st1)"
      unfolding Dw_add st1(3) by (simp_all add: st1(1))
    then show ?thesis using Cons.IH [OF st1(2)] Cons.prems(2) st1(4) by simp
  next
    case Dw_flush
    obtain st1 where st1: "dw_flush_page st = Some (SUCCESS, st1)" "disk st1 = stored st" "dblwr_pages st1 = []" "io st1 = []" "open_pools st1 = open_pools st"
      using dw_flush_ok [OF Cons.prems(1)] by auto
    then have "dw_inv st1" "stored st1 = stored st" using flushed_inv [of st1] by simp_all
    then show ?thesis using Cons.IH [of st1] Cons.prems(2) Dw_flush st1 by simp
  next
    case (Dw_clear bp)
    obtain st1 where "dw_clear_pages bp st = Some (SUCCESS, st1)" "dw_inv st1" "stored st1 = stored st" "open_pools st1 = open_pools st"
      using dw_clear_ok [OF Cons.prems(1), of bp] by auto
    then show ?thesis using Cons.IH [of st1] Cons.prems(2) Dw_clear by simp
  qed
qed simp

lemma load_stored:
  assumes "dw_inv st"
  shows "bp_load_page key st = Some (case stored st key of None \<Rightarrow> (IOERR_READ, None) | Some p \<Rightarrow> (SUCCESS, Some p))"
proof (cases "map_of (dblwr_pages st) key")
  case None
  then show ?thesis by (simp add: bp_load_page_def dw_read_page_def stored_def over_def split: option.splits)
next
  case (Some x)
  then have "(key, x) \<in> set (dblwr_pages st)" by (rule map_of_SomeD)
  then obtain e where "x = Some e" using assms by (cases x) (auto simp: dw_inv_def dw_entry_ok_def)
  then show ?thesis using Some by (simp add: bp_load_page_def dw_read_page_def stored_def over_def)
qed

text \<open>
  C33: the double write buffer is transparent. As long as the disk accepts every write, any sequence of \<^verbatim>\<open>add_page\<close>,
  \<^verbatim>\<open>flush_page\<close> and \<^verbatim>\<open>clear_pages\<close>, with the flushes that a full buffer forces, succeeds, and loading a page then gives the page
  that was added last, or what the data file held from the start.
\<close>

theorem dblwr_transparent:
  assumes "dblwr_pages st = []" and "io st = []" and "\<forall>x \<in> set xs. call_open (open_pools st) x"
  shows "\<exists>st'. dw_run xs st = Some st' \<and>
    (\<forall>key. bp_load_page key st' =
       Some (case last_written xs (disk st) key of None \<Rightarrow> (IOERR_READ, None) | Some p \<Rightarrow> (SUCCESS, Some p)))"
  using dw_run_ok [of st xs] flushed_inv [OF assms(1,2)] assms(3) load_stored by fastforce

definition fresh_dblwr :: "int list \<Rightarrow> DoubleWriteBuffer" where
  "fresh_dblwr pools = \<lparr>dw_open = True, max_pages = 16, header_cnt = 0, dblwr_pages = [], df_cnt = None, df_slots = Map.empty,
     disk = Map.empty, open_pools = pools, io = []\<rparr>"

definition example_page :: "int \<Rightarrow> Page" where
  "example_page n = \<lparr>pg_lsn = n, check_sum = crc32 [word_of_int n], pg_data = [word_of_int n]\<rparr>"

theorem dblwr_transparent_witness:
  "\<exists>st'. dw_run [Dw_add (1, 5) (example_page 3), Dw_add (2, 5) (example_page 4), Dw_clear 1, Dw_add (1, 5) (example_page 6)] (fresh_dblwr [1, 2]) = Some st' \<and>
     bp_load_page (1, 5) st' = Some (SUCCESS, Some (example_page 6)) \<and> bp_load_page (7, 7) st' = Some (IOERR_READ, None)"
proof -
  let ?xs = "[Dw_add (1, 5) (example_page 3), Dw_add (2, 5) (example_page 4), Dw_clear 1, Dw_add (1, 5) (example_page 6)]"
  have "\<forall>x \<in> set ?xs. call_open (open_pools (fresh_dblwr [1, 2])) x" by (simp add: fresh_dblwr_def)
  then obtain st' where st': "dw_run ?xs (fresh_dblwr [1, 2]) = Some st'"
    "\<And>key. bp_load_page key st' =
       Some (case last_written ?xs (disk (fresh_dblwr [1, 2])) key of None \<Rightarrow> (IOERR_READ, None) | Some p \<Rightarrow> (SUCCESS, Some p))"
    using dblwr_transparent [of "fresh_dblwr [1, 2]" ?xs] by (auto simp: fresh_dblwr_def)
  have "bp_load_page (1, 5) st' = Some (SUCCESS, Some (example_page 6))" "bp_load_page (7, 7) st' = Some (IOERR_READ, None)"
    using st'(2) [of "(1, 5)"] st'(2) [of "(7, 7)"] by (simp_all add: fresh_dblwr_def)
  then show ?thesis using st'(1) by blast
qed

section \<open>Crashes\<close>

text \<open>
  A crash leaves the two files as the writes before it made them. It is a run of the operation itself on the script \<open>cut_io n x\<close>: the
  first \<open>n\<close> writes succeed, \<open>x\<close> is the outcome of the write in which the process stops, and no write after it has an effect; what
  the run leaves in memory is lost. The writes reach the files in the order of the program: \<^verbatim>\<open>sync\<close>, which \<^verbatim>\<open>flush_page\<close> calls
  first, is then without effect and is not modelled, and a device that reorders writes is outside the model.
\<close>

definition cut_io :: "nat \<Rightarrow> io_outcome \<Rightarrow> DoubleWriteBuffer \<Rightarrow> DoubleWriteBuffer" where
  "cut_io n x st = st\<lparr>io := replicate n Io_ok @ x # replicate (2 * length (dblwr_pages st) + 4) Io_seek\<rparr>"

definition crash :: "DoubleWriteBuffer \<Rightarrow> DoubleWriteBuffer" where
  \<comment> \<open>a restart on the files as they are\<close>
  "crash st = st\<lparr>dw_open := False, header_cnt := 0, dblwr_pages := [], io := []\<rparr>"

fun dw_call_result :: "dw_call \<Rightarrow> DoubleWriteBuffer \<Rightarrow> (rc \<times> DoubleWriteBuffer) option" where
  "dw_call_result (Dw_add key p) st = dw_add_page key p st"
| "dw_call_result Dw_flush st = dw_flush_page st"
| "dw_call_result (Dw_clear bp) st = dw_clear_pages bp st"

abbreviation page_ok :: "Page \<Rightarrow> bool" where
  "page_ok p \<equiv> crc32 (pg_data p) = check_sum p"

section \<open>What recovery makes of the files\<close>

definition slot_of :: "nat \<Rightarrow> (nat \<Rightarrow> DoubleWritePage) \<Rightarrow> page_key \<Rightarrow> nat option" where
  \<comment> \<open>the first slot with an intact copy of the page\<close>
  "slot_of n g k = find (\<lambda>i. page_ok (dw_page (g i)) \<and> dw_key (g i) = k) [0..<n]"

fun loaded :: "nat list \<Rightarrow> (nat \<Rightarrow> DoubleWritePage) \<Rightarrow> DoubleWritePage list \<Rightarrow> DoubleWritePage list" where
  "loaded [] g acc = acc"
| "loaded (i # is) g acc =
     loaded is g (if page_ok (dw_page (g i)) \<and> dw_key (g i) \<notin> dw_key ` set acc then acc @ [g i] else acc)"

lemma load_slots_loaded:
  assumes "\<And>i. i0 \<le> i \<Longrightarrow> i < i0 + n \<Longrightarrow> df_slots st (int i) = Some (g i)"
    and "dblwr_pages st = map (\<lambda>e. (dw_key e, Some e)) acc"
  shows "load_slots n (int i0) st = (SUCCESS, st\<lparr>dblwr_pages := map (\<lambda>e. (dw_key e, Some e)) (loaded [i0..<i0 + n] g acc)\<rparr>)"
  using assms
proof (induction n arbitrary: i0 st acc)
  case 0
  then show ?case by simp
next
  case (Suc n)
  define acc1 where "acc1 = (if page_ok (dw_page (g i0)) \<and> dw_key (g i0) \<notin> dw_key ` set acc then acc @ [g i0] else acc)"
  define st1 where "st1 = st\<lparr>dblwr_pages := map (\<lambda>e. (dw_key e, Some e)) acc1\<rparr>"
  have e: "df_slots st (int i0) = Some (g i0)" using Suc.prems(1) [of i0] by simp
  have none: "map_of (dblwr_pages st) (dw_key (g i0)) = None \<longleftrightarrow> dw_key (g i0) \<notin> dw_key ` set acc"
    unfolding Suc.prems(2) map_of_eq_None_iff by (auto simp: image_image)
  have upd: "(if page_ok (dw_page (g i0)) \<and> map_of (dblwr_pages st) (dw_key (g i0)) = None
      then st\<lparr>dblwr_pages := dblwr_pages st @ [(dw_key (g i0), Some (g i0))]\<rparr> else st) = st1"
    using Suc.prems(2) none by (auto simp: st1_def acc1_def)
  have step: "load_slots (Suc n) (int i0) st = load_slots n (int (Suc i0)) st1"
    using upd by (simp add: e add.commute)
  have "df_slots st1 (int i) = Some (g i)" if "Suc i0 \<le> i" "i < Suc i0 + n" for i using Suc.prems(1) [of i] that by (simp add: st1_def)
  moreover have "dblwr_pages st1 = map (\<lambda>e. (dw_key e, Some e)) acc1" by (simp add: st1_def)
  ultimately have "load_slots n (int (Suc i0)) st1 =
      (SUCCESS, st1\<lparr>dblwr_pages := map (\<lambda>e. (dw_key e, Some e)) (loaded [Suc i0..<Suc i0 + n] g acc1)\<rparr>)"
    using Suc.IH [of "Suc i0" st1 acc1] by blast
  moreover have "[i0..<i0 + Suc n] = i0 # [Suc i0..<Suc i0 + n]" using upt_conv_Cons [of i0 "i0 + Suc n"] by simp
  ultimately show ?case unfolding step by (simp add: acc1_def st1_def)
qed

lemma loaded_distinct: "distinct (map dw_key acc) \<Longrightarrow> distinct (map dw_key (loaded is g acc))"
  by (induction "is" g acc rule: loaded.induct) auto

lemma loaded_set: "set (loaded is g acc) \<subseteq> set acc \<union> g ` set is"
  by (induction "is" g acc rule: loaded.induct) (auto split: if_splits)

lemma loaded_find:
  "find (\<lambda>e. dw_key e = k) (loaded is g acc) =
     (case find (\<lambda>e. dw_key e = k) acc of
        Some e \<Rightarrow> Some e
      | None \<Rightarrow> map_option g (find (\<lambda>i. page_ok (dw_page (g i)) \<and> dw_key (g i) = k) is))"
proof (induction "is" g acc rule: loaded.induct)
  case (1 g acc)
  then show ?case by (simp split: option.split)
next
  case (2 i "is" g acc)
  have app: "find P (xs @ ys) = (case find P xs of None \<Rightarrow> find P ys | Some x \<Rightarrow> Some x)" for P :: "DoubleWritePage \<Rightarrow> bool" and xs ys
    by (induction xs) auto
  have none: "find (\<lambda>e. dw_key e = dw_key (g i)) acc = None \<longleftrightarrow> dw_key (g i) \<notin> dw_key ` set acc"
    by (auto simp: find_None_iff image_iff)
  show ?case using none unfolding loaded.simps 2 by (auto simp: app split: option.split)
qed

lemma map_of_valid:
  assumes "distinct (map dw_key es)"
  shows "map_of (map (\<lambda>e. (dw_key e, Some e)) (filter valid es)) k =
    (case find (\<lambda>e. dw_key e = k) es of None \<Rightarrow> None | Some e \<Rightarrow> if valid e then Some (Some e) else None)"
  using assms
proof (induction es)
  case (Cons e es)
  show ?case
  proof (cases "dw_key e = k \<and> \<not> valid e")
    case True
    then have "find (\<lambda>e. dw_key e = k) es = None" using Cons.prems by (auto simp: find_None_iff image_iff)
    then show ?thesis using Cons True by simp
  qed (use Cons in auto)
qed simp

lemma flush_entries_valid:
  \<comment> \<open>a flush writes the valid entries and skips the others\<close>
  assumes "\<forall>e \<in> set es. valid e \<longrightarrow> fst (dw_key e) \<in> set (open_pools st)" and "distinct (map dw_key es)" and "io st = []"
  shows "\<exists>st'. flush_entries (map (\<lambda>e. (dw_key e, Some e)) es) st = Some (SUCCESS, st') \<and>
    disk st' = over (map (\<lambda>e. (dw_key e, Some e)) (filter valid es)) (disk st)"
  using assms
proof (induction es arbitrary: st)
  case Nil
  then show ?case by (simp add: over_def fun_eq_iff)
next
  case (Cons e es)
  define st1 where "st1 = st\<lparr>disk := (if valid e then (disk st)(dw_key e \<mapsto> dw_page e) else disk st),
    df_slots := (df_slots st)(page_index e \<mapsto> e\<lparr>valid := False\<rparr>), dblwr_pages := free_entry (dw_key e) (dblwr_pages st)\<rparr>"
  have step: "flush_entries (map (\<lambda>e. (dw_key e, Some e)) (e # es)) st = flush_entries (map (\<lambda>e. (dw_key e, Some e)) es) st1"
    using Cons.prems(1,3) by (simp add: dw_write_page_def bp_write_page_def write_page_internal_def next_io_def st1_def)
  have keep: "open_pools st1 = open_pools st" "io st1 = []" "disk st1 = (if valid e then (disk st)(dw_key e \<mapsto> dw_page e) else disk st)"
    using Cons.prems(3) by (simp_all add: st1_def)
  have new: "dw_key e \<notin> fst ` set (map (\<lambda>e. (dw_key e, Some e)) (filter valid es))" using Cons.prems(2) by auto
  have "\<forall>e \<in> set es. valid e \<longrightarrow> fst (dw_key e) \<in> set (open_pools st1)" "distinct (map dw_key es)" using Cons.prems(1,2) keep(1) by auto
  from Cons.IH [OF this keep(2)] show ?case unfolding step keep(3)
    by (cases "valid e") (simp_all only: if_True if_False over_Cons [OF new] filter.simps list.map)
qed

lemma recover_files:
  assumes cnt: "df_cnt st = Some (int n) \<or> df_cnt st = None \<and> n = 0" and slots: "\<And>i. i < n \<Longrightarrow> df_slots st (int i) = Some (g i)"
    and pools: "\<And>i. i < n \<Longrightarrow> valid (g i) \<Longrightarrow> fst (dw_key (g i)) \<in> set (open_pools st)"
  shows "\<exists>st1 st2. dw_open_file (crash st) = (SUCCESS, st1) \<and> dw_recover st1 = Some (SUCCESS, st2) \<and> dblwr_pages st2 = [] \<and>
    (\<forall>k. disk st2 k = (case slot_of n g k of None \<Rightarrow> disk st k | Some i \<Rightarrow> if valid (g i) then Some (dw_page (g i)) else disk st k))"
proof -
  let ?L = "loaded [0..<n] g []"
  define st0 where "st0 = (crash st)\<lparr>dw_open := True, header_cnt := int n\<rparr>"
  define st1 where "st1 = st0\<lparr>dblwr_pages := map (\<lambda>e. (dw_key e, Some e)) ?L\<rparr>"
  have "load_slots n (int 0) st0 = (SUCCESS, st1)"
    using load_slots_loaded [of 0 n st0 g "[]"] slots by (simp add: st0_def st1_def crash_def)
  moreover have "crash st\<lparr>dw_open := True\<rparr> = st0" if "df_cnt st = None" "n = 0" using that by (simp add: st0_def crash_def)
  ultimately have op: "dw_open_file (crash st) = (SUCCESS, st1)"
    using cnt by (auto simp: dw_open_file_def dw_load_pages_def crash_def st0_def Let_def)
  have dist: "distinct (map dw_key ?L)" using loaded_distinct [of "[]"] by simp
  have "\<forall>e \<in> set ?L. valid e \<longrightarrow> fst (dw_key e) \<in> set (open_pools st1)"
    using loaded_set [of "[0..<n]" g "[]"] pools by (fastforce simp: st1_def st0_def crash_def)
  then obtain st2 where st2: "flush_entries (map (\<lambda>e. (dw_key e, Some e)) ?L) st1 = Some (SUCCESS, st2)"
    "disk st2 = over (map (\<lambda>e. (dw_key e, Some e)) (filter valid ?L)) (disk st)"
    using flush_entries_valid [of ?L st1] dist by (auto simp: st1_def st0_def crash_def)
  have "disk st2 k = (case slot_of n g k of None \<Rightarrow> disk st k | Some i \<Rightarrow> if valid (g i) then Some (dw_page (g i)) else disk st k)" for k
    unfolding st2(2) over_def map_of_valid [OF dist] loaded_find slot_of_def
    by (cases "find (\<lambda>i. page_ok (dw_page (g i)) \<and> dw_key (g i) = k) [0..<n]") simp_all
  moreover have "dw_recover st1 = Some (SUCCESS, st2\<lparr>dblwr_pages := [], header_cnt := 0\<rparr>)"
    using st2(1) by (simp add: dw_recover_def dw_flush_page_def st1_def)
  ultimately show ?thesis using op by fastforce
qed

lemma mark_invalid_snoc:
  "mark_invalid (es @ [(k, x)]) f = (mark_invalid es f)(page_index (the x) \<mapsto> (the x)\<lparr>valid := False\<rparr>)"
proof (induction es arbitrary: f)
  case (Cons y es)
  then show ?case by (cases y) (simp only: append_Cons mark_invalid.simps)
qed (simp only: append_Nil mark_invalid.simps)

lemma mark_invalid_take:
  assumes "\<forall>i < length es. page_index (the (snd (es ! i))) = int i" and "j \<le> length es"
  shows "mark_invalid (take j es) f (int i) = (if i < j then Some ((the (snd (es ! i)))\<lparr>valid := False\<rparr>) else f (int i))"
  using assms(2)
proof (induction j)
  case (Suc j)
  have "take (Suc j) es = take j es @ [(fst (es ! j), snd (es ! j))]" using Suc.prems by (simp add: take_Suc_conv_app_nth)
  then have "mark_invalid (take (Suc j) es) f = (mark_invalid (take j es) f)(int j \<mapsto> (the (snd (es ! j)))\<lparr>valid := False\<rparr>)"
    using mark_invalid_snoc [of "take j es" "fst (es ! j)" "snd (es ! j)" f] assms(1) Suc.prems by simp
  then show ?case using Suc by (auto simp: less_Suc_eq)
qed simp

section \<open>A crash inside a flush\<close>

declare split_paired_All [simp del] split_paired_Ex [simp del]

definition recovers_to :: "DoubleWriteBuffer \<Rightarrow> (page_key \<rightharpoonup> Page) \<Rightarrow> bool" where
  \<comment> \<open>opening the shared file after a crash and recovering succeeds and leaves the pages \<open>d\<close> in the data files\<close>
  "recovers_to st d \<longleftrightarrow>
     (\<exists>st1 st2. dw_open_file (crash st) = (SUCCESS, st1) \<and> dw_recover st1 = Some (SUCCESS, st2) \<and> disk st2 = d \<and> dblwr_pages st2 = [])"

definition slots_dead :: "DoubleWriteBuffer \<Rightarrow> bool" where
  \<comment> \<open>the slots the header of the shared file counts are all invalid\<close>
  "slots_dead st \<longleftrightarrow>
     (case df_cnt st of None \<Rightarrow> True | Some n \<Rightarrow> 0 \<le> n \<and> (\<forall>i. 0 \<le> i \<longrightarrow> i < n \<longrightarrow> (\<exists>e. df_slots st i = Some e \<and> \<not> valid e)))"

text \<open>The buffer and the shared file agree: each entry is in the slot of its position, and an empty buffer has no valid slot.\<close>

definition slots_hold :: "DoubleWriteBuffer \<Rightarrow> bool" where
  "slots_hold st \<longleftrightarrow> dw_inv st \<and>
     (\<forall>i < length (dblwr_pages st). \<exists>e. snd (dblwr_pages st ! i) = Some e \<and> page_index e = int i \<and> df_slots st (int i) = Some e \<and>
        page_ok (dw_page e)) \<and>
     header_cnt st = int (length (dblwr_pages st)) \<and>
     (if dblwr_pages st = [] then slots_dead st else df_cnt st = Some (int (length (dblwr_pages st))))"

lemma find_unique:
  assumes "i < n" "P i" "\<And>j. j < n \<Longrightarrow> P j \<Longrightarrow> j = i"
  shows "find P [0..<n] = Some i"
proof -
  obtain j where "find P [0..<n] = Some j" using assms(1,2) by (cases "find P [0..<n]") (auto simp: find_None_iff)
  then show ?thesis using assms(3) by (auto simp: find_Some_iff)
qed

lemma recover_indexed:
  \<comment> \<open>slots of different pages\<close>
  assumes cnt: "df_cnt st = Some (int n)" and slots: "\<And>i. i < n \<Longrightarrow> \<exists>e. df_slots st (int i) = Some e \<and> dw_key e = key i \<and> fst (key i) \<in> set (open_pools st) \<and>
      (if valid e \<and> page_ok (dw_page e) then d (key i) = Some (dw_page e) else d (key i) = disk st (key i))"
    and inj: "inj_on key {..<n}" and other: "\<And>k. k \<notin> key ` {..<n} \<Longrightarrow> d k = disk st k"
  shows "recovers_to st d"
proof -
  define g where "g i = the (df_slots st (int i))" for i
  have g: "df_slots st (int i) = Some (g i)" "dw_key (g i) = key i" "fst (key i) \<in> set (open_pools st)"
    "if valid (g i) \<and> page_ok (dw_page (g i)) then d (key i) = Some (dw_page (g i)) else d (key i) = disk st (key i)" if "i < n" for i
    using slots [OF that] by (auto simp: g_def)
  have "fst (dw_key (g i)) \<in> set (open_pools st)" if "i < n" for i using g(2,3) that by simp
  then obtain st1 st2 where r: "dw_open_file (crash st) = (SUCCESS, st1)" "dw_recover st1 = Some (SUCCESS, st2)" "dblwr_pages st2 = []"
    "\<And>k. disk st2 k = (case slot_of n g k of None \<Rightarrow> disk st k | Some i \<Rightarrow> if valid (g i) then Some (dw_page (g i)) else disk st k)"
    using recover_files [of st n g] cnt g(1) by blast
  have "disk st2 k = d k" for k
  proof (cases "\<exists>i < n. key i = k \<and> page_ok (dw_page (g i))")
    case True
    then obtain i where i: "i < n" "key i = k" "page_ok (dw_page (g i))" by blast
    have "slot_of n g k = Some i" unfolding slot_of_def
    proof (rule find_unique)
      fix j assume "j < n" "page_ok (dw_page (g j)) \<and> dw_key (g j) = k"
      then show "j = i" using i(1,2) g(2) [of j] inj by (auto simp: inj_on_def)
    qed (use i g(2) in auto)
    then show ?thesis using r(4) g(4) [OF i(1)] i by auto
  next
    case False
    then have "slot_of n g k = None" using g(2) by (auto simp: slot_of_def find_None_iff)
    moreover have "d k = disk st k" using False g(4) other by (cases "k \<in> key ` {..<n}") auto
    ultimately show ?thesis using r(4) by simp
  qed
  then have "disk st2 = d" by (rule ext)
  then show ?thesis using r(1-3) unfolding recovers_to_def by blast
qed

lemma recover_first:
  \<comment> \<open>only the first slot may be valid\<close>
  assumes cnt: "case df_cnt st of None \<Rightarrow> True | Some n \<Rightarrow> 0 \<le> n \<and>
      (\<forall>i. 0 \<le> i \<longrightarrow> i < n \<longrightarrow> (\<exists>e. df_slots st i = Some e \<and> (i \<noteq> 0 \<longrightarrow> \<not> valid e)))"
    and first: "\<And>e. df_slots st 0 = Some e \<Longrightarrow> valid e \<Longrightarrow> fst (dw_key e) \<in> set (open_pools st)"
  shows "recovers_to st (disk st) \<or> (\<exists>e. df_slots st 0 = Some e \<and> valid e \<and> page_ok (dw_page e) \<and> recovers_to st ((disk st)(dw_key e \<mapsto> dw_page e)))"
proof -
  define n where "n = (case df_cnt st of None \<Rightarrow> 0 | Some n \<Rightarrow> nat n)"
  define g where "g i = the (df_slots st (int i))" for i
  have n: "df_cnt st = Some (int n) \<or> df_cnt st = None \<and> n = 0" using cnt by (auto simp: n_def split: option.splits)
  have g: "df_slots st (int i) = Some (g i)" "i \<noteq> 0 \<Longrightarrow> \<not> valid (g i)" if i: "i < n" for i
  proof -
    obtain m where m: "df_cnt st = Some m" "n = nat m" "0 \<le> m" using i cnt by (auto simp: n_def split: option.splits)
    have "\<forall>i. 0 \<le> i \<longrightarrow> i < m \<longrightarrow> (\<exists>e. df_slots st i = Some e \<and> (i \<noteq> 0 \<longrightarrow> \<not> valid e))" using cnt m(1) by simp
    then have "\<exists>e. df_slots st (int i) = Some e \<and> (int i \<noteq> 0 \<longrightarrow> \<not> valid e)" using m i by (auto dest: spec [of _ "int i"])
    then show "df_slots st (int i) = Some (g i)" "i \<noteq> 0 \<Longrightarrow> \<not> valid (g i)" by (auto simp: g_def)
  qed
  have pools: "fst (dw_key (g i)) \<in> set (open_pools st)" if "i < n" "valid (g i)" for i
  proof -
    have "i = 0" using g(2) that by blast
    then show ?thesis using first [of "g 0"] g(1) [OF that(1)] that(2) by simp
  qed
  obtain st1 st2 where r: "dw_open_file (crash st) = (SUCCESS, st1)" "dw_recover st1 = Some (SUCCESS, st2)" "dblwr_pages st2 = []"
    "\<And>k. disk st2 k = (case slot_of n g k of None \<Rightarrow> disk st k | Some i \<Rightarrow> if valid (g i) then Some (dw_page (g i)) else disk st k)"
    using recover_files [OF n g(1) pools] by blast
  have later: "slot_of n g k = Some i \<Longrightarrow> i \<noteq> 0 \<Longrightarrow> \<not> valid (g i)" for k i
    using g(2) by (auto simp: slot_of_def find_Some_iff)
  show ?thesis
  proof (cases "0 < n \<and> valid (g 0) \<and> page_ok (dw_page (g 0))")
    case True
    have s0: "slot_of n g (dw_key (g 0)) = Some 0"
      using True upt_conv_Cons [of 0 n] by (simp add: slot_of_def)
    have n0: "slot_of n g k = Some 0 \<Longrightarrow> k = dw_key (g 0)" for k by (auto simp: slot_of_def find_Some_iff)
    have "disk st2 k = ((disk st)(dw_key (g 0) \<mapsto> dw_page (g 0))) k" for k
      using r(4) [of k] s0 True later [of k] n0 [of k] by (cases "slot_of n g k") auto
    then have "disk st2 = (disk st)(dw_key (g 0) \<mapsto> dw_page (g 0))" by (rule ext)
    then have "recovers_to st ((disk st)(dw_key (g 0) \<mapsto> dw_page (g 0)))" using r(1-3) unfolding recovers_to_def by blast
    moreover have "df_slots st 0 = Some (g 0)" using g(1) [of 0] True by simp
    ultimately show ?thesis using True by blast
  next
    case False
    have "slot_of n g k = Some i \<Longrightarrow> \<not> valid (g i)" for k i
      using later [of k i] False by (cases "i = 0") (auto simp: slot_of_def find_Some_iff)
    then have "disk st2 k = disk st k" for k using r(4) [of k] by (auto split: option.splits)
    then have "disk st2 = disk st" by (rule ext)
    then show ?thesis using r(1-3) unfolding recovers_to_def by blast
  qed
qed

lemma flush_no_io:
  assumes "\<forall>x \<in> set es. dw_entry_ok (open_pools st) x" and "io st = replicate m Io_seek" and "length es \<le> m"
  shows "\<exists>rc st'. flush_entries es st = Some (rc, st') \<and> disk st' = disk st \<and> df_slots st' = df_slots st \<and>
    df_cnt st' = df_cnt st \<and> open_pools st' = open_pools st"
proof (cases es)
  case (Cons x xs)
  then obtain k e where x: "x = (k, Some e)" "dw_key e = k" "valid e" "fst k \<in> set (open_pools st)"
    using assms(1) by (cases x) (auto simp: dw_entry_ok_def split: option.splits)
  obtain m' where "m = Suc m'" using assms(3) Cons by (cases m) auto
  then show ?thesis using x assms(2) Cons by (simp add: dw_write_page_def bp_write_page_def next_io_def)
qed simp

definition flush_cut_at :: "(page_key \<times> DoubleWritePage option) list \<Rightarrow> (page_key \<times> DoubleWritePage option) list \<Rightarrow>
    DoubleWriteBuffer \<Rightarrow> DoubleWriteBuffer \<Rightarrow> bool" where
  \<comment> \<open>the entries \<open>es1\<close> are in their places and their slots invalid; of the others at most the first page is written, in part\<close>
  "flush_cut_at es1 es2 st st' \<longleftrightarrow>
     (\<forall>(k, y) \<in> set es1. disk st' k = Some (dw_page (the y)) \<and>
        (\<exists>e'. df_slots st' (page_index (the y)) = Some e' \<and> dw_key e' = dw_key (the y) \<and> \<not> valid e')) \<and>
     (\<forall>q. q \<notin> (page_index \<circ> the \<circ> snd) ` set es1 \<longrightarrow> df_slots st' q = df_slots st q) \<and>
     (\<forall>k. k \<notin> fst ` set es1 \<longrightarrow> (es2 = [] \<or> k \<noteq> fst (hd es2)) \<longrightarrow> disk st' k = disk st k) \<and>
     df_cnt st' = df_cnt st \<and> open_pools st' = open_pools st"

lemma flush_cut:
  assumes "\<forall>x \<in> set es. dw_entry_ok (open_pools st) x" and "distinct (map fst es)" and "distinct (map (page_index \<circ> the \<circ> snd) es)"
    and "io st = replicate n Io_ok @ x # replicate m Io_seek" and "length es \<le> m"
  shows "\<exists>rc st' es1 es2. flush_entries es st = Some (rc, st') \<and> es = es1 @ es2 \<and> flush_cut_at es1 es2 st st'"
  using assms
proof (induction es arbitrary: st n)
  case Nil
  then show ?case by (auto simp: flush_cut_at_def)
next
  case (Cons y es)
  obtain k e where y: "y = (k, Some e)" "dw_key e = k" "valid e" "fst k \<in> set (open_pools st)"
    using Cons.prems(1) by (cases y) (auto simp: dw_entry_ok_def split: option.splits)
  obtain m' where m: "m = Suc m'" "length es \<le> m'" using Cons.prems(5) by (cases m) auto
  have ok: "\<forall>x \<in> set es. dw_entry_ok (open_pools st) x" using Cons.prems(1) by simp
  define stop where "stop io' d f = st\<lparr>io := io', disk := d, df_slots := f, dblwr_pages := free_entry k (dblwr_pages st)\<rparr>" for io' d f
  have rest: "\<exists>rc st'. flush_entries es (stop (replicate l Io_seek) d f) = Some (rc, st') \<and> disk st' = d \<and> df_slots st' = f \<and>
      df_cnt st' = df_cnt st \<and> open_pools st' = open_pools st" if "length es \<le> l" for l d f
    using flush_no_io [of es "stop (replicate l Io_seek) d f" l] ok that by (simp add: stop_def)
  note sim = dw_write_page_def bp_write_page_def write_page_internal_def next_io_def Let_def
  let ?d = "(disk st)(k \<mapsto> dw_page e)"
  consider (place) "n = 0" | (slot) "n = 1" | (more) n' where "n = Suc (Suc n')" by (metis One_nat_def not0_implies_Suc)
  then show ?case
  proof cases
    case place
    show ?thesis
    proof (cases x)
      case Io_ok
      have "flush_entries (y # es) st = flush_entries es (stop (replicate m' Io_seek) ?d (df_slots st))"
        using Cons.prems(4) y(4) by (cases st) (simp add: place Io_ok y(1-3) sim m stop_def)
      then obtain rc st' where "flush_entries (y # es) st = Some (rc, st')" "disk st' = ?d" "df_slots st' = df_slots st"
        "df_cnt st' = df_cnt st" "open_pools st' = open_pools st" using rest m(2) by metis
      then have "flush_entries (y # es) st = Some (rc, st') \<and> y # es = [] @ y # es \<and> flush_cut_at [] (y # es) st st'"
        by (simp add: flush_cut_at_def y)
      then show ?thesis by blast
    next
      case Io_seek
      have "flush_entries (y # es) st = Some (IOERR_SEEK, st\<lparr>io := replicate m Io_seek\<rparr>)"
        using Cons.prems(4) by (simp add: place Io_seek y sim)
      moreover have "flush_cut_at [] (y # es) st (st\<lparr>io := replicate m Io_seek\<rparr>)" by (simp add: flush_cut_at_def)
      ultimately show ?thesis by (metis append_Nil)
    next
      case (Io_torn t)
      have "flush_entries (y # es) st = Some (IOERR_WRITE, st\<lparr>io := replicate m Io_seek, disk := (disk st)(k \<mapsto> t)\<rparr>)"
        using Cons.prems(4) by (simp add: place Io_torn y sim)
      moreover have "flush_cut_at [] (y # es) st (st\<lparr>io := replicate m Io_seek, disk := (disk st)(k \<mapsto> t)\<rparr>)"
        by (simp add: flush_cut_at_def y)
      ultimately show ?thesis by (metis append_Nil)
    qed
  next
    case slot
    define f where "f = (case x of Io_ok \<Rightarrow> (df_slots st)(page_index e \<mapsto> e\<lparr>valid := False\<rparr>) | Io_seek \<Rightarrow> df_slots st
      | Io_torn t \<Rightarrow> (df_slots st)(page_index e \<mapsto> e\<lparr>valid := False, dw_page := t\<rparr>))"
    have "flush_entries (y # es) st = flush_entries es (stop (replicate m Io_seek) ?d f)"
      using Cons.prems(4) y(4) by (cases st; cases x) (simp_all add: slot y(1-3) sim stop_def f_def)
    then obtain rc st' where r: "flush_entries (y # es) st = Some (rc, st')" "disk st' = ?d" "df_slots st' = f"
      "df_cnt st' = df_cnt st" "open_pools st' = open_pools st" using rest m by (metis le_Suc_eq)
    show ?thesis
    proof (cases "x = Io_seek")
      case True
      then have "y # es = [] @ y # es \<and> flush_cut_at [] (y # es) st st'" using r by (simp add: flush_cut_at_def y f_def)
      then show ?thesis using r(1) by blast
    next
      case False
      have "\<exists>e'. f (page_index e) = Some e' \<and> dw_key e' = k \<and> \<not> valid e'"
        using False y(2) by (cases x) (auto simp: f_def)
      moreover have "f q = df_slots st q" if "q \<noteq> page_index e" for q using that by (simp add: f_def split: io_outcome.split)
      ultimately have "y # es = [y] @ es \<and> flush_cut_at [y] es st st'" using r by (simp add: flush_cut_at_def y)
      then show ?thesis using r(1) by blast
    qed
  next
    case more
    let ?io = "replicate n' Io_ok @ x # replicate m Io_seek" and ?f = "(df_slots st)(page_index e \<mapsto> e\<lparr>valid := False\<rparr>)"
    have step: "flush_entries (y # es) st = flush_entries es (stop ?io ?d ?f)"
      using Cons.prems(4) y(4) by (cases st) (simp add: more y(1-3) sim stop_def)
    have dist: "distinct (map fst es)" "distinct (map (page_index \<circ> the \<circ> snd) es)" using Cons.prems(2,3) by (simp_all add: comp_def)
    have new: "k \<notin> fst ` set es" "page_index e \<notin> (page_index \<circ> the \<circ> snd) ` set es" using Cons.prems(2,3) by (simp_all add: y comp_def)
    have pre: "\<forall>x \<in> set es. dw_entry_ok (open_pools (stop ?io ?d ?f)) x" "io (stop ?io ?d ?f) = ?io" "length es \<le> m"
      using ok m by (simp_all add: stop_def)
    obtain rc st' es1 es2 where r: "flush_entries es (stop ?io ?d ?f) = Some (rc, st')" "es = es1 @ es2"
      "flush_cut_at es1 es2 (stop ?io ?d ?f) st'" using Cons.IH [OF pre(1) dist pre(2,3)] by blast
    have kept: "disk (stop ?io ?d ?f) = ?d" "df_slots (stop ?io ?d ?f) = ?f" "df_cnt (stop ?io ?d ?f) = df_cnt st"
      "open_pools (stop ?io ?d ?f) = open_pools st" by (simp_all add: stop_def)
    note c = r(3) [unfolded flush_cut_at_def kept]
    have "es2 = [] \<or> k \<noteq> fst (hd es2)" "k \<notin> fst ` set es1" using new(1) r(2) by (cases es2; auto)+
    then have "disk st' k = Some (dw_page e)" using c by auto
    moreover have "page_index e \<notin> (page_index \<circ> the \<circ> snd) ` set es1" using new(2) r(2) by auto
    then have "df_slots st' (page_index e) = Some (e\<lparr>valid := False\<rparr>)" using c by simp
    ultimately have "flush_cut_at (y # es1) es2 st st'" using c unfolding flush_cut_at_def y(1) by (auto simp: y(2))
    moreover have "y # es = (y # es1) @ es2" using r(2) by simp
    ultimately show ?thesis using r(1) step by metis
  qed
qed

lemma slots_hold_facts:
  assumes "slots_hold st"
  shows "distinct (map fst (dblwr_pages st))" "\<forall>x \<in> set (dblwr_pages st). dw_entry_ok (open_pools st) x" "io st = []"
    and "distinct (map (page_index \<circ> the \<circ> snd) (dblwr_pages st))"
    and "i < length (dblwr_pages st) \<Longrightarrow> \<exists>e. dblwr_pages st ! i = (dw_key e, Some e) \<and> page_index e = int i \<and>
      df_slots st (int i) = Some e \<and> page_ok (dw_page e) \<and> valid e \<and> fst (dw_key e) \<in> set (open_pools st)"
proof -
  show d: "distinct (map fst (dblwr_pages st))" "\<forall>x \<in> set (dblwr_pages st). dw_entry_ok (open_pools st) x" "io st = []"
    using assms by (simp_all add: slots_hold_def dw_inv_def)
  show e: "\<exists>e. dblwr_pages st ! i = (dw_key e, Some e) \<and> page_index e = int i \<and> df_slots st (int i) = Some e \<and>
      page_ok (dw_page e) \<and> valid e \<and> fst (dw_key e) \<in> set (open_pools st)" if "i < length (dblwr_pages st)" for i
  proof -
    have "dw_entry_ok (open_pools st) (dblwr_pages st ! i)" using d(2) that by simp
    then show ?thesis using assms that
      by (cases "dblwr_pages st ! i") (auto simp: slots_hold_def dw_entry_ok_def split: option.splits)
  qed
  have "map (page_index \<circ> the \<circ> snd) (dblwr_pages st) = map int [0..<length (dblwr_pages st)]"
    using e by (intro nth_equalityI) (simp, fastforce)
  then show "distinct (map (page_index \<circ> the \<circ> snd) (dblwr_pages st))" by (simp only: distinct_map) simp
qed

lemma key_inj: "distinct (map fst xs) \<Longrightarrow> inj_on (\<lambda>i. fst (xs ! i)) {..<length xs}"
  by (rule inj_onI) (metis distinct_conv_nth length_map lessThan_iff nth_map)

lemma over_nth:
  assumes "distinct (map fst xs)" and "i < length xs" and "xs ! i = (k, Some e)"
  shows "over xs d k = Some (dw_page e)"
proof -
  have "(k, Some e) \<in> set xs" using assms(2,3) nth_mem by metis
  then have "map_of xs k = Some (Some e)" by (rule map_of_is_SomeI [OF assms(1)])
  then show ?thesis by (simp add: over_def)
qed

lemma over_outside: "k \<notin> fst ` set xs \<Longrightarrow> over xs d k = d k"
  by (simp add: over_def flip: map_of_eq_None_iff)

lemma keys_nth: "(\<lambda>i. fst (xs ! i)) ` {..<length xs} = fst ` set xs"
proof -
  have "map fst xs = map (\<lambda>i. fst (xs ! i)) [0..<length xs]" by (rule nth_equalityI) simp_all
  then have "set (map fst xs) = set (map (\<lambda>i. fst (xs ! i)) [0..<length xs])" by (simp only:)
  then show ?thesis by (simp add: lessThan_atLeast0)
qed

lemma recover_dead:
  assumes "slots_dead st"
  shows "recovers_to st (disk st)"
proof -
  have "\<not> valid e" if "df_slots st 0 = Some e" "df_cnt st = Some n" "0 < n" for e n
    using assms that by (auto simp: slots_dead_def)
  consider "df_cnt st = None \<or> df_cnt st = Some 0" | n where "df_cnt st = Some n" "0 < n"
    using assms by (cases "df_cnt st") (auto simp: slots_dead_def le_less)
  then show ?thesis
  proof cases
    case 1
    then show ?thesis using recover_files [of st 0 undefined] by (auto simp: recovers_to_def slot_of_def fun_eq_iff)
  next
    case 2
    have s: "\<exists>e. df_slots st i = Some e \<and> \<not> valid e" if "0 \<le> i" "i < n" for i using assms 2 that by (simp add: slots_dead_def)
    have "recovers_to st (disk st) \<or> (\<exists>e. df_slots st 0 = Some e \<and> valid e \<and> page_ok (dw_page e) \<and> recovers_to st ((disk st)(dw_key e \<mapsto> dw_page e)))"
    proof (rule recover_first)
      show "case df_cnt st of None \<Rightarrow> True | Some n \<Rightarrow> 0 \<le> n \<and> (\<forall>i. 0 \<le> i \<longrightarrow> i < n \<longrightarrow> (\<exists>e. df_slots st i = Some e \<and> (i \<noteq> 0 \<longrightarrow> \<not> valid e)))"
        using 2 s by fastforce
    qed (use s [of 0] 2 in auto)
    then show ?thesis using s [of 0] 2 by auto
  qed
qed

lemma recover_cut_flush:
  assumes hold: "slots_hold st" and cut: "dblwr_pages st = es1 @ es2" "flush_cut_at es1 es2 st st'"
  shows "recovers_to st' (stored st)"
proof (cases "dblwr_pages st = []")
  case True
  then have e: "disk st' = disk st" "df_slots st' = df_slots st" "df_cnt st' = df_cnt st" "stored st = disk st"
    using cut by (auto simp: flush_cut_at_def stored_def over_def fun_eq_iff)
  have "slots_dead st" using hold True by (simp add: slots_hold_def)
  then have "slots_dead st'" unfolding slots_dead_def e(2,3) .
  then show ?thesis using recover_dead e by metis
next
  case False
  let ?xs = "dblwr_pages st"
  note H = slots_hold_facts [OF hold]
  note c = cut(2) [unfolded flush_cut_at_def]
  have first: "?xs ! i \<in> set es1" if "i < length es1" for i using that cut(1) by (simp add: nth_append)
  show ?thesis
  proof (rule recover_indexed [where n = "length ?xs" and key = "\<lambda>i. fst (?xs ! i)"])
    show "df_cnt st' = Some (int (length ?xs))" using hold False c by (simp add: slots_hold_def)
    show "inj_on (\<lambda>i. fst (?xs ! i)) {..<length ?xs}" by (rule key_inj [OF H(1)])
    show "stored st k = disk st' k" if "k \<notin> (\<lambda>i. fst (?xs ! i)) ` {..<length ?xs}" for k
    proof -
      have k: "k \<notin> fst ` set ?xs" using that unfolding keys_nth .
      then have "k \<notin> fst ` set (es1 @ es2)" unfolding cut(1) .
      then have "k \<notin> fst ` set es1" "es2 = [] \<or> k \<noteq> fst (hd es2)" by (cases es2; auto)+
      then have "disk st' k = disk st k" using c by blast
      then show ?thesis using over_outside [OF k, of "disk st"] by (simp add: stored_def)
    qed
    show "\<exists>e. df_slots st' (int i) = Some e \<and> dw_key e = fst (?xs ! i) \<and> fst (fst (?xs ! i)) \<in> set (open_pools st') \<and>
        (if valid e \<and> page_ok (dw_page e) then stored st (fst (?xs ! i)) = Some (dw_page e) else stored st (fst (?xs ! i)) = disk st' (fst (?xs ! i)))"
      if i: "i < length ?xs" for i
    proof -
      obtain e where e: "?xs ! i = (dw_key e, Some e)" "page_index e = int i" "df_slots st (int i) = Some e" "page_ok (dw_page e)" "valid e"
        "fst (dw_key e) \<in> set (open_pools st)" using H(5) [OF i] by blast
      have st: "stored st (dw_key e) = Some (dw_page e)" using over_nth [OF H(1) i e(1)] by (simp add: stored_def)
      show ?thesis
      proof (cases "i < length es1")
        case True
        have "(dw_key e, Some e) \<in> set es1" using first [OF True] e(1) by simp
        then have "disk st' (dw_key e) = Some (dw_page e)" "\<exists>e'. df_slots st' (int i) = Some e' \<and> dw_key e' = dw_key e \<and> \<not> valid e'"
          using c e(2) by fastforce+
        then show ?thesis using e st c by auto
      next
        case False
        have "int i \<notin> (page_index \<circ> the \<circ> snd) ` set es1"
        proof
          assume "int i \<in> (page_index \<circ> the \<circ> snd) ` set es1"
          then obtain j where j: "j < length es1" "int i = (page_index \<circ> the \<circ> snd) (?xs ! j)"
            using cut(1) by (auto simp: in_set_conv_nth nth_append)
          then show False using H(5) [of j] cut(1) False by auto
        qed
        then have "df_slots st' (int i) = Some e" using c e(3) by metis
        then show ?thesis using e st c by auto
      qed
    qed
  qed
qed

lemma recover_idle:
  assumes "slots_hold st"
  shows "recovers_to (st\<lparr>io := xs\<rparr>) (stored st)"
  by (rule recover_cut_flush [OF assms, of "[]"]) (simp_all add: flush_cut_at_def)

lemma flush_crash:
  assumes hold: "slots_hold st" and "length (dblwr_pages st) \<le> m"
  shows "\<exists>rc st'. dw_flush_page (st\<lparr>io := replicate n Io_ok @ x # replicate m Io_seek\<rparr>) = Some (rc, st') \<and> recovers_to st' (stored st)"
proof -
  let ?st = "st\<lparr>io := replicate n Io_ok @ x # replicate m Io_seek\<rparr>"
  note H = slots_hold_facts [OF hold]
  obtain rc st' es1 es2 where r: "flush_entries (dblwr_pages st) ?st = Some (rc, st')" "dblwr_pages st = es1 @ es2" "flush_cut_at es1 es2 ?st st'"
    using flush_cut [of "dblwr_pages st" ?st n x m] H assms(2) by auto
  have "flush_cut_at es1 es2 st st'" using r(3) by (simp add: flush_cut_at_def)
  then have s: "recovers_to st' (stored st)" by (rule recover_cut_flush [OF hold r(2)])
  have "crash (st'\<lparr>dblwr_pages := [], header_cnt := 0\<rparr>) = crash st'" by (simp add: crash_def)
  then have "recovers_to (st'\<lparr>dblwr_pages := [], header_cnt := 0\<rparr>) (stored st)" using s by (simp add: recovers_to_def)
  then show ?thesis using r(1) s by (cases "rc = SUCCESS") (auto simp: dw_flush_page_def)
qed

section \<open>The shared file between the calls\<close>

lemma slots_hold_flush:
  assumes "slots_hold st" and "dw_flush_page st = Some (rc, st')"
  shows "slots_hold st' \<and> open_pools st' = open_pools st"
proof -
  have inv: "dw_inv st" using assms(1) by (simp add: slots_hold_def)
  have f: "disk st' = stored st" "dblwr_pages st' = []" "header_cnt st' = 0" "open_pools st' = open_pools st" "io st' = []" "df_cnt st' = df_cnt st"
    "df_slots st' = mark_invalid (dblwr_pages st) (df_slots st)"
    using dw_flush_ok [OF inv] assms(2) by auto
  let ?n = "length (dblwr_pages st)"
  have "slots_dead st'"
  proof (cases "dblwr_pages st = []")
    case True
    then have s: "df_slots st' = df_slots st" using f(7) by simp
    have "slots_dead st" using assms(1) True by (simp add: slots_hold_def)
    then show ?thesis unfolding slots_dead_def f(6) s .
  next
    case False
    then have c: "df_cnt st' = Some (int ?n)" using assms(1) f(6) by (simp add: slots_hold_def)
    have "\<exists>e. df_slots st' (int i) = Some e \<and> \<not> valid e" if "i < ?n" for i
    proof -
      have "\<forall>i < ?n. page_index (the (snd (dblwr_pages st ! i))) = int i" using slots_hold_facts(5) [OF assms(1)] by fastforce
      from mark_invalid_take [OF this, of ?n "df_slots st" i] show ?thesis using that f(7) by simp
    qed
    then have "\<exists>e. df_slots st' i = Some e \<and> \<not> valid e" if "0 \<le> i" "i < int ?n" for i
      using that by (metis nat_0_le nat_less_iff)
    then show ?thesis using c by (simp add: slots_dead_def)
  qed
  then show ?thesis using f(2-5) by (simp add: slots_hold_def dw_inv_def)
qed

definition new_entry :: "page_key \<Rightarrow> Page \<Rightarrow> DoubleWriteBuffer \<Rightarrow> DoubleWritePage" where
  "new_entry key p st = \<lparr>dw_key = key, page_index = int (length (dblwr_pages st)), valid = True, dw_page = p\<rparr>"

definition with_entry :: "page_key \<Rightarrow> Page \<Rightarrow> DoubleWriteBuffer \<Rightarrow> DoubleWriteBuffer" where
  \<comment> \<open>after the slot and the header are written\<close>
  "with_entry key p st = st\<lparr>dblwr_pages := dblwr_pages st @ [(key, Some (new_entry key p st))],
     df_slots := (df_slots st)(int (length (dblwr_pages st)) \<mapsto> new_entry key p st),
     header_cnt := int (length (dblwr_pages st)) + 1, df_cnt := Some (int (length (dblwr_pages st)) + 1)\<rparr>"

lemma with_entry_holds:
  assumes "slots_hold st" and "map_of (dblwr_pages st) key = None" and "fst key \<in> set (open_pools st)" and "page_ok p"
  shows "slots_hold (with_entry key p st)" and "stored (with_entry key p st) = (stored st)(key \<mapsto> p)"
proof -
  have new: "key \<notin> fst ` set (dblwr_pages st)" using assms(2) by (simp add: map_of_eq_None_iff)
  note H = slots_hold_facts [OF assms(1)]
  let ?xs = "dblwr_pages st @ [(key, Some (new_entry key p st))]"
  have "dw_inv (with_entry key p st)"
    using H(1-3) new assms(3) by (auto simp: dw_inv_def with_entry_def new_entry_def dw_entry_ok_def)
  moreover have "\<exists>e. snd (?xs ! i) = Some e \<and> page_index e = int i \<and> df_slots (with_entry key p st) (int i) = Some e \<and> page_ok (dw_page e)"
    if "i < Suc (length (dblwr_pages st))" for i
  proof (cases "i = length (dblwr_pages st)")
    case True
    then show ?thesis using assms(4) by (simp add: with_entry_def new_entry_def)
  next
    case False
    then have "i < length (dblwr_pages st)" using that by simp
    then show ?thesis using H(5) [of i] by (auto simp: with_entry_def nth_append)
  qed
  ultimately show "slots_hold (with_entry key p st)" by (simp add: slots_hold_def with_entry_def)
  show "stored (with_entry key p st) = (stored st)(key \<mapsto> p)"
    using over_append [OF new, of "new_entry key p st" "disk st"] by (simp add: stored_def with_entry_def new_entry_def)
qed

lemma entry_position:
  assumes "slots_hold st" and "map_of (dblwr_pages st) key = Some y"
  obtains i e where "i < length (dblwr_pages st)" "y = Some e" "dblwr_pages st ! i = (key, Some e)" "dw_key e = key" "page_index e = int i"
    "df_slots st (int i) = Some e" "valid e"
proof -
  have "(key, y) \<in> set (dblwr_pages st)" using assms(2) by (rule map_of_SomeD)
  then obtain i where i: "i < length (dblwr_pages st)" "dblwr_pages st ! i = (key, y)" by (metis in_set_conv_nth)
  then show thesis using that slots_hold_facts(5) [OF assms(1) i(1)] by auto
qed

definition with_page :: "page_key \<Rightarrow> DoubleWritePage \<Rightarrow> Page \<Rightarrow> DoubleWriteBuffer \<Rightarrow> DoubleWriteBuffer" where
  "with_page key e p st = st\<lparr>dblwr_pages := map (\<lambda>(k, x). (k, if k = key then Some (e\<lparr>dw_page := p\<rparr>) else x)) (dblwr_pages st)\<rparr>"

lemma with_page_holds:
  assumes hold: "slots_hold st" and y: "map_of (dblwr_pages st) key = Some (Some e)" and p: "page_ok p"
  shows "slots_hold ((with_page key e p st)\<lparr>df_slots := (df_slots st)(page_index e \<mapsto> e\<lparr>dw_page := p\<rparr>)\<rparr>)"
proof -
  note H = slots_hold_facts [OF hold]
  obtain i where i: "i < length (dblwr_pages st)" "dblwr_pages st ! i = (key, Some e)" "dw_key e = key" "page_index e = int i"
    "df_slots st (int i) = Some e" "valid e" by (rule entry_position [OF hold y]) simp
  let ?xs = "map (\<lambda>(k, x). (k, if k = key then Some (e\<lparr>dw_page := p\<rparr>) else x)) (dblwr_pages st)"
  have "map fst ?xs = map fst (dblwr_pages st)" by auto
  then have d: "distinct (map fst ?xs)" using H(1) by (simp only:)
  have "(key, Some e) \<in> set (dblwr_pages st)" using i(1,2) nth_mem by metis
  then have "fst key \<in> set (open_pools st)" using H(2) by (auto simp: dw_entry_ok_def)
  then have ok: "\<forall>x \<in> set ?xs. dw_entry_ok (open_pools st) x" using H(2) i by (auto simp: dw_entry_ok_def split: option.splits)
  have "\<exists>e'. snd (?xs ! j) = Some e' \<and> page_index e' = int j \<and> ((df_slots st)(int i \<mapsto> e\<lparr>dw_page := p\<rparr>)) (int j) = Some e' \<and> page_ok (dw_page e')"
    if j: "j < length (dblwr_pages st)" for j
  proof (cases "j = i")
    case True
    then show ?thesis using i p by simp
  next
    case False
    obtain e' where e': "dblwr_pages st ! j = (dw_key e', Some e')" "page_index e' = int j" "df_slots st (int j) = Some e'" "page_ok (dw_page e')"
      using H(5) [OF j] by blast
    have "dw_key e' \<noteq> key" using key_inj [OF H(1)] False i(1,2) j e'(1) by (auto simp: inj_on_def)
    then show ?thesis using e' j False by simp
  qed
  moreover have "dblwr_pages st \<noteq> []" using i(1) by auto
  ultimately show ?thesis using hold d ok H(3) i(4) by (auto simp: slots_hold_def dw_inv_def with_page_def)
qed

lemma slots_hold_add:
  assumes hold: "slots_hold st" and key: "fst key \<in> set (open_pools st)" and p: "page_ok p" and add: "dw_add_page key p st = Some (rc, st')"
  shows "slots_hold st' \<and> open_pools st' = open_pools st"
proof (cases "map_of (dblwr_pages st) key")
  case None
  have io: "io st = []" using slots_hold_facts(3) [OF hold] .
  have w: "dw_add_page key p st = (if max_pages st \<le> int (length (dblwr_pages st)) + 1
      then dw_flush_page (with_entry key p st) else Some (SUCCESS, with_entry key p st))"
    using None io hold
    by (simp add: dw_add_page_def write_page_internal_def write_header_def next_io_def slots_hold_def with_entry_def new_entry_def Let_def)
  have o: "open_pools (with_entry key p st) = open_pools st" by (simp add: with_entry_def)
  note h = with_entry_holds(1) [OF hold None key p]
  show ?thesis using add h slots_hold_flush [OF h] o unfolding w by (auto split: if_splits)
next
  case (Some y)
  obtain e where e: "y = Some e" by (rule entry_position [OF hold Some])
  have io: "io st = []" using slots_hold_facts(3) [OF hold] .
  have "st' = (with_page key e p st)\<lparr>df_slots := (df_slots st)(page_index e \<mapsto> e\<lparr>dw_page := p\<rparr>)\<rparr>"
    using add Some io by (simp add: e dw_add_page_def write_page_internal_def next_io_def with_page_def Let_def)
  moreover have "map_of (dblwr_pages st) key = Some (Some e)" using Some e by simp
  ultimately show ?thesis using with_page_holds [OF hold _ p] by (simp add: with_page_def)
qed

section \<open>A crash inside an added page\<close>

text \<open>What a write cut by the crash makes of the slot.\<close>

lemma slot_write_cut:
  assumes "io st = replicate n Io_ok @ x # l"
  obtains (none) "write_page_internal e st = (IOERR_SEEK, st\<lparr>io := l\<rparr>)"
    | (torn) t where "x = Io_torn t" "write_page_internal e st =
        (IOERR_WRITE, st\<lparr>io := l, df_slots := (df_slots st)(page_index e \<mapsto> e\<lparr>dw_page := t\<rparr>)\<rparr>)"
    | (last) "write_page_internal e st = (SUCCESS, st\<lparr>io := l, df_slots := (df_slots st)(page_index e \<mapsto> e)\<rparr>)"
    | (whole) n' where "write_page_internal e st =
        (SUCCESS, st\<lparr>io := replicate n' Io_ok @ x # l, df_slots := (df_slots st)(page_index e \<mapsto> e)\<rparr>)"
proof (cases n)
  case 0
  then show thesis using assms none torn last by (cases x) (simp_all add: write_page_internal_def next_io_def)
next
  case (Suc n')
  then show thesis using assms whole [of n'] by (simp add: write_page_internal_def next_io_def)
qed

lemma recover_slot:
  \<comment> \<open>the slot of one entry has been overwritten\<close>
  assumes hold: "slots_hold st" and i: "i < length (dblwr_pages st)" "fst (dblwr_pages st ! i) = key" and e': "dw_key e' = key"
    and files: "disk st' = disk st" "df_cnt st' = df_cnt st" "open_pools st' = open_pools st" "df_slots st' = (df_slots st)(int i \<mapsto> e')"
  shows "recovers_to st' ((stored st)(key := if valid e' \<and> page_ok (dw_page e') then Some (dw_page e') else disk st key))"
proof -
  let ?xs = "dblwr_pages st"
  note H = slots_hold_facts [OF hold]
  show ?thesis
  proof (rule recover_indexed [where n = "length ?xs" and key = "\<lambda>i. fst (?xs ! i)"])
    show "df_cnt st' = Some (int (length ?xs))" using hold i files(2) by (auto simp: slots_hold_def split: if_splits)
    show "inj_on (\<lambda>i. fst (?xs ! i)) {..<length ?xs}" by (rule key_inj [OF H(1)])
    show "((stored st)(key := if valid e' \<and> page_ok (dw_page e') then Some (dw_page e') else disk st key)) k = disk st' k"
      if "k \<notin> (\<lambda>i. fst (?xs ! i)) ` {..<length ?xs}" for k
    proof -
      have "k \<noteq> key" using that i by auto
      moreover have "k \<notin> fst ` set ?xs" using that unfolding keys_nth .
      ultimately show ?thesis using over_outside [of k ?xs "disk st"] files(1) by (simp add: stored_def)
    qed
    fix j assume j: "j < length ?xs"
    obtain e where e: "?xs ! j = (dw_key e, Some e)" "df_slots st (int j) = Some e" "page_ok (dw_page e)" "valid e"
      "fst (dw_key e) \<in> set (open_pools st)" using H(5) [OF j] by blast
    have s: "stored st (dw_key e) = Some (dw_page e)" using over_nth [OF H(1) j e(1)] by (simp add: stored_def)
    have "j = i \<longleftrightarrow> dw_key e = key" using key_inj [OF H(1)] i j e(1) by (auto simp: inj_on_def)
    then show "\<exists>e. df_slots st' (int j) = Some e \<and> dw_key e = fst (?xs ! j) \<and> fst (fst (?xs ! j)) \<in> set (open_pools st') \<and>
        (if valid e \<and> page_ok (dw_page e)
         then ((stored st)(key := if valid e' \<and> page_ok (dw_page e') then Some (dw_page e') else disk st key)) (fst (?xs ! j)) = Some (dw_page e)
         else ((stored st)(key := if valid e' \<and> page_ok (dw_page e') then Some (dw_page e') else disk st key)) (fst (?xs ! j)) = disk st' (fst (?xs ! j)))"
      using e s e' files by (cases "j = i") auto
  qed
qed

lemma recover_new_slot:
  \<comment> \<open>the slot behind the last one has been written, but the header does not count it\<close>
  assumes hold: "slots_hold st" and e': "dw_key e' = key" "valid e'" "fst key \<in> set (open_pools st)" "dblwr_pages st = [] \<or> key \<notin> fst ` set (dblwr_pages st)"
    and files: "disk st' = disk st" "df_cnt st' = df_cnt st" "open_pools st' = open_pools st"
      "df_slots st' = (df_slots st)(int (length (dblwr_pages st)) \<mapsto> e')"
  shows "recovers_to st' (stored st) \<or> page_ok (dw_page e') \<and> recovers_to st' ((stored st)(key \<mapsto> dw_page e'))"
proof (cases "dblwr_pages st = []")
  case False
  let ?xs = "dblwr_pages st"
  note H = slots_hold_facts [OF hold]
  have "recovers_to st' (stored st)"
  proof (rule recover_indexed [where n = "length ?xs" and key = "\<lambda>i. fst (?xs ! i)"])
    show "df_cnt st' = Some (int (length ?xs))" using hold False files(2) by (simp add: slots_hold_def)
    show "inj_on (\<lambda>i. fst (?xs ! i)) {..<length ?xs}" by (rule key_inj [OF H(1)])
    show "stored st k = disk st' k" if "k \<notin> (\<lambda>i. fst (?xs ! i)) ` {..<length ?xs}" for k
    proof -
      have "k \<notin> fst ` set ?xs" using that unfolding keys_nth .
      then show ?thesis using over_outside [of k ?xs "disk st"] files(1) by (simp add: stored_def)
    qed
    fix j assume j: "j < length ?xs"
    obtain e where e: "?xs ! j = (dw_key e, Some e)" "df_slots st (int j) = Some e" "page_ok (dw_page e)" "valid e"
      "fst (dw_key e) \<in> set (open_pools st)" using H(5) [OF j] by blast
    have "stored st (dw_key e) = Some (dw_page e)" using over_nth [OF H(1) j e(1)] by (simp add: stored_def)
    then show "\<exists>e. df_slots st' (int j) = Some e \<and> dw_key e = fst (?xs ! j) \<and> fst (fst (?xs ! j)) \<in> set (open_pools st') \<and>
        (if valid e \<and> page_ok (dw_page e) then stored st (fst (?xs ! j)) = Some (dw_page e) else stored st (fst (?xs ! j)) = disk st' (fst (?xs ! j)))"
      using e j files by auto
  qed
  then show ?thesis ..
next
  case True
  have dead: "slots_dead st" using hold True by (simp add: slots_hold_def)
  have "case df_cnt st' of None \<Rightarrow> True | Some n \<Rightarrow> 0 \<le> n \<and> (\<forall>i. 0 \<le> i \<longrightarrow> i < n \<longrightarrow> (\<exists>e. df_slots st' i = Some e \<and> (i \<noteq> 0 \<longrightarrow> \<not> valid e)))"
    using dead files(4) unfolding files(2) slots_dead_def by (simp add: True split: option.splits)
  from recover_first [OF this] show ?thesis using e' files True by (auto simp: stored_def over_def [abs_def])
qed

lemma add_crash_known:
  assumes hold: "slots_hold st" and key: "fst key \<in> set (open_pools st)" and p: "page_ok p" and torn: "\<And>t. x = Io_torn t \<Longrightarrow> \<not> page_ok t"
    and Some: "map_of (dblwr_pages st) key = Some y"
  shows "\<exists>rc st' d. dw_add_page key p (cut_io n x st) = Some (rc, st') \<and> recovers_to st' d \<and> (\<forall>k. k \<noteq> key \<longrightarrow> d k = stored st k) \<and>
    (d key = stored st key \<or> d key = disk st key \<or> d key = Some p)"
proof -
  have fin: ?thesis if "dw_add_page key p (cut_io n x st) = Some (rc, st')" "recovers_to st' ((stored st)(key := v))" "v = disk st key \<or> v = Some p"
    for rc st' v
    using that by (intro exI [of _ rc] exI [of _ st'] exI [of _ "(stored st)(key := v)"]) auto
  obtain i e where e: "i < length (dblwr_pages st)" "y = Some e" "dblwr_pages st ! i = (key, Some e)" "dw_key e = key" "page_index e = int i"
    "df_slots st (int i) = Some e" "valid e" using entry_position [OF hold Some] .
  define st1 where "st1 = with_page key e p (cut_io n x st)"
  have add: "dw_add_page key p (cut_io n x st) = Some (write_page_internal (e\<lparr>dw_page := p\<rparr>) st1)"
    using Some by (simp add: e(2) dw_add_page_def cut_io_def st1_def with_page_def Let_def)
  have st1: "disk st1 = disk st" "df_cnt st1 = df_cnt st" "open_pools st1 = open_pools st" "df_slots st1 = df_slots st"
    "io st1 = replicate n Io_ok @ x # replicate (2 * length (dblwr_pages st) + 4) Io_seek"
    by (simp_all add: st1_def with_page_def cut_io_def)
  have slot: "recovers_to st' ((stored st)(key := if page_ok q then Some q else disk st key))"
    if "disk st' = disk st" "df_cnt st' = df_cnt st" "open_pools st' = open_pools st" "df_slots st' = (df_slots st)(int i \<mapsto> e\<lparr>dw_page := q\<rparr>)" for st' q
    using recover_slot [OF hold e(1) _ _ that, of key] e by (cases "page_ok q") simp_all
  from st1(5) show ?thesis
  proof (cases rule: slot_write_cut [where e = "e\<lparr>dw_page := p\<rparr>"])
    case none
    have "recovers_to (st1\<lparr>io := replicate (2 * length (dblwr_pages st) + 4) Io_seek\<rparr>) (stored st)"
      by (rule recover_cut_flush [OF hold, of "[]"]) (simp_all add: flush_cut_at_def st1)
    then show ?thesis using add none by auto
  next
    case (torn t)
    let ?st2 = "st1\<lparr>io := replicate (2 * length (dblwr_pages st) + 4) Io_seek, df_slots := (df_slots st1)(int i \<mapsto> e\<lparr>dw_page := t\<rparr>)\<rparr>"
    have a: "dw_add_page key p (cut_io n x st) = Some (IOERR_WRITE, ?st2)" unfolding add torn(2) by (simp add: e(5))
    have "recovers_to ?st2 ((stored st)(key := disk st key))" using slot [of ?st2 t] st1 assms(4) [OF torn(1)] by simp
    then show ?thesis by (rule fin [OF a]) simp
  next
    case last
    let ?st2 = "st1\<lparr>io := replicate (2 * length (dblwr_pages st) + 4) Io_seek, df_slots := (df_slots st1)(int i \<mapsto> e\<lparr>dw_page := p\<rparr>)\<rparr>"
    have a: "dw_add_page key p (cut_io n x st) = Some (SUCCESS, ?st2)" unfolding add last by (simp add: e(5))
    have "recovers_to ?st2 ((stored st)(key := Some p))" using slot [of ?st2 p] st1 p by simp
    then show ?thesis by (rule fin [OF a]) simp
  next
    case (whole n')
    let ?st2 = "st1\<lparr>io := replicate n' Io_ok @ x # replicate (2 * length (dblwr_pages st) + 4) Io_seek,
      df_slots := (df_slots st1)(int i \<mapsto> e\<lparr>dw_page := p\<rparr>)\<rparr>"
    have a: "dw_add_page key p (cut_io n x st) = Some (SUCCESS, ?st2)" unfolding add whole by (simp add: e(5))
    have "recovers_to ?st2 ((stored st)(key := Some p))" using slot [of ?st2 p] st1 p by simp
    then show ?thesis by (rule fin [OF a]) simp
  qed
qed

definition adding :: "page_key \<Rightarrow> Page \<Rightarrow> nat \<Rightarrow> io_outcome \<Rightarrow> DoubleWriteBuffer \<Rightarrow> DoubleWriteBuffer" where
  \<comment> \<open>with the new entry in memory\<close>
  "adding key p n x st = (cut_io n x st)\<lparr>dblwr_pages := dblwr_pages st @ [(key, Some (new_entry key p st))]\<rparr>"

lemma adding_simps:
  "disk (adding key p n x st) = disk st" "df_cnt (adding key p n x st) = df_cnt st" "open_pools (adding key p n x st) = open_pools st"
  "df_slots (adding key p n x st) = df_slots st" "header_cnt (adding key p n x st) = header_cnt st"
  "io (adding key p n x st) = replicate n Io_ok @ x # replicate (2 * length (dblwr_pages st) + 4) Io_seek"
  by (simp_all add: adding_def cut_io_def)

lemma add_new_steps:
  assumes "map_of (dblwr_pages st) key = None" and "header_cnt st = int (length (dblwr_pages st))"
  shows "dw_add_page key p (cut_io n x st) =
      (case write_page_internal (new_entry key p st) (adding key p n x st) of (rc, st2) \<Rightarrow>
         if OB_FAIL rc then Some (rc, st2)
         else case (if header_cnt st2 < header_cnt st + 1 then write_header (st2\<lparr>header_cnt := header_cnt st + 1\<rparr>) else (SUCCESS, st2)) of (rc, st3) \<Rightarrow>
           if rc \<noteq> SUCCESS then Some (rc, st3)
           else if max_pages st3 \<le> int (length (dblwr_pages st3)) then dw_flush_page st3 else Some (SUCCESS, st3))"
  unfolding assms(2) using assms(1) by (simp add: dw_add_page_def cut_io_def adding_def new_entry_def Let_def)

lemma write_header_seek: "io st = Io_seek # l \<Longrightarrow> write_header st = (IOERR_SEEK, st\<lparr>io := l\<rparr>)"
  by (simp add: write_header_def next_io_def)

lemma after_header:
  \<comment> \<open>the slot and the header are written: the rest is a flush or nothing\<close>
  assumes hold: "slots_hold (with_entry key p st)"
    and io: "io' = replicate j Io_ok @ z # replicate m Io_seek" "Suc (length (dblwr_pages st)) \<le> m"
    and st3: "st3 = (with_entry key p st)\<lparr>io := io'\<rparr>"
  shows "\<exists>rc st'. (if max_pages st3 \<le> int (length (dblwr_pages st3)) then dw_flush_page st3 else Some (SUCCESS, st3)) = Some (rc, st') \<and>
    recovers_to st' (stored (with_entry key p st))"
proof -
  have "length (dblwr_pages (with_entry key p st)) \<le> m" using io(2) by (simp add: with_entry_def)
  from flush_crash [OF hold this, of j z] show ?thesis using recover_idle [OF hold, of io'] unfolding st3 io(1) by auto
qed

lemma add_crash_new:
  assumes hold: "slots_hold st" and key: "fst key \<in> set (open_pools st)" and p: "page_ok p" and tears: "\<And>t. x = Io_torn t \<Longrightarrow> \<not> page_ok t"
    and None: "map_of (dblwr_pages st) key = None"
  shows "\<exists>rc st' d. dw_add_page key p (cut_io n x st) = Some (rc, st') \<and> recovers_to st' d \<and> (d = stored st \<or> d = (stored st)(key \<mapsto> p))"
proof -
  have new: "key \<notin> fst ` set (dblwr_pages st)" using None by (simp add: map_of_eq_None_iff)
  let ?n = "int (length (dblwr_pages st))" and ?l = "replicate (2 * length (dblwr_pages st) + 4) Io_seek" and ?e = "new_entry key p st"
  have cnt: "header_cnt st = ?n" using hold by (simp add: slots_hold_def)
  note add = add_new_steps [OF None cnt]
  have e: "page_index ?e = ?n" "dw_key ?e = key" "valid ?e" "dw_page ?e = p" by (simp_all add: new_entry_def)
  have fin: ?thesis if "dw_add_page key p (cut_io n x st) = Some (rc, st')" "recovers_to st' d" "d = stored st \<or> d = (stored st)(key \<mapsto> p)" for rc st' d
    using that by blast
  have uncounted: ?thesis
    if a: "dw_add_page key p (cut_io n x st) = Some (rc, st')" and f: "disk st' = disk st" "df_cnt st' = df_cnt st" "open_pools st' = open_pools st"
      "df_slots st' = (df_slots st)(?n \<mapsto> ?e\<lparr>dw_page := q\<rparr>)" and q: "page_ok q \<Longrightarrow> q = p" for rc st' q
  proof -
    have "recovers_to st' (stored st) \<or> page_ok q \<and> recovers_to st' ((stored st)(key \<mapsto> q))"
      using recover_new_slot [OF hold _ _ key _ f] new e by simp
    then show ?thesis using fin [OF a] q by blast
  qed
  have self: "?e\<lparr>dw_page := p\<rparr> = ?e" by (simp add: new_entry_def)
  from adding_simps(6) [of key p n x st] show ?thesis
  proof (cases rule: slot_write_cut [where e = ?e])
    case none
    have "recovers_to ((adding key p n x st)\<lparr>io := ?l\<rparr>) (stored st)"
      by (rule recover_cut_flush [OF hold, of "[]"]) (simp_all add: flush_cut_at_def adding_simps)
    then show ?thesis using fin none unfolding add by auto
  next
    case (torn t)
    show ?thesis
    proof (rule uncounted)
      show "dw_add_page key p (cut_io n x st) = Some (IOERR_WRITE, (adding key p n x st)\<lparr>io := ?l,
          df_slots := (df_slots (adding key p n x st))(page_index ?e \<mapsto> ?e\<lparr>dw_page := t\<rparr>)\<rparr>)"
        unfolding add torn(2) by simp
      show "page_ok t \<Longrightarrow> t = p" using tears [OF torn(1)] by simp
    qed (simp_all add: adding_simps e)
  next
    case last
    let ?st2 = "(adding key p n x st)\<lparr>io := ?l, df_slots := (df_slots (adding key p n x st))(page_index ?e \<mapsto> ?e)\<rparr>"
    let ?k = "replicate (2 * length (dblwr_pages st) + 3) Io_seek"
    let ?st3 = "?st2\<lparr>header_cnt := header_cnt st + 1, io := ?k\<rparr>"
    have "?l = Io_seek # ?k" by (simp flip: replicate_Suc)
    then have "io (?st2\<lparr>header_cnt := header_cnt st + 1\<rparr>) = Io_seek # ?k" by simp
    then have "write_header (?st2\<lparr>header_cnt := header_cnt st + 1\<rparr>) = (IOERR_SEEK, ?st3)" using write_header_seek by simp
    then have "dw_add_page key p (cut_io n x st) = Some (IOERR_SEEK, ?st3)" unfolding add last by (simp add: adding_simps(5))
    then show ?thesis by (rule uncounted [where q = p]) (simp_all add: adding_simps e self)
  next
    case (whole n')
    let ?st2 = "(adding key p n x st)\<lparr>io := replicate n' Io_ok @ x # ?l, df_slots := (df_slots (adding key p n x st))(page_index ?e \<mapsto> ?e)\<rparr>"
    show ?thesis
    proof (cases "n' = 0 \<and> x \<noteq> Io_ok")
      case True
      let ?st3 = "?st2\<lparr>header_cnt := header_cnt st + 1, io := ?l\<rparr>"
      obtain rc where "write_header (?st2\<lparr>header_cnt := header_cnt st + 1\<rparr>) = (rc, ?st3)" "rc \<noteq> SUCCESS"
        using True that by (cases x) (simp_all add: write_header_def next_io_def)
      then have "dw_add_page key p (cut_io n x st) = Some (rc, ?st3)" unfolding add whole by (simp add: adding_simps(5))
      then show ?thesis by (rule uncounted [where q = p]) (simp_all add: adding_simps e self)
    next
      case False
      define io' where "io' = (if n' = 0 then ?l else replicate (n' - 1) Io_ok @ x # ?l)"
      have hd: "replicate n' Io_ok @ x # ?l = Io_ok # io'" using False by (cases n') (simp_all add: io'_def)
      have io': "\<exists>j z m. io' = replicate j Io_ok @ z # replicate m Io_seek \<and> Suc (length (dblwr_pages st)) \<le> m"
      proof (cases "n' = 0")
        case True
        have "io' = replicate 0 Io_ok @ Io_seek # replicate (2 * length (dblwr_pages st) + 3) Io_seek"
          unfolding io'_def by (simp add: True flip: replicate_Suc)
        then show ?thesis
          by (intro exI [of _ 0] exI [of _ Io_seek] exI [of _ "2 * length (dblwr_pages st) + 3"]) simp
      next
        case False
        then show ?thesis
          by (intro exI [of _ "n' - 1"] exI [of _ x] exI [of _ "2 * length (dblwr_pages st) + 4"]) (simp add: io'_def)
      qed
      define st3 where "st3 = (with_entry key p st)\<lparr>io := io'\<rparr>"
      have "write_header (?st2\<lparr>header_cnt := header_cnt st + 1\<rparr>) = (SUCCESS, st3)"
        unfolding hd st3_def
        by (cases st) (use cnt in \<open>simp add: write_header_def next_io_def adding_def with_entry_def cut_io_def new_entry_def\<close>)
      then have "dw_add_page key p (cut_io n x st) = (if max_pages st3 \<le> int (length (dblwr_pages st3)) then dw_flush_page st3 else Some (SUCCESS, st3))"
        unfolding add whole by (simp add: adding_simps(5))
      moreover note W = with_entry_holds [OF hold None key p]
      obtain rc st' where "(if max_pages st3 \<le> int (length (dblwr_pages st3)) then dw_flush_page st3 else Some (SUCCESS, st3)) = Some (rc, st')"
        "recovers_to st' ((stored st)(key \<mapsto> p))" using after_header [OF W(1) _ _ st3_def] io' W(2) by metis
      ultimately show ?thesis using fin by simp
    qed
  qed
qed

lemma add_crash:
  assumes hold: "slots_hold st" and key: "fst key \<in> set (open_pools st)" and p: "page_ok p" and torn: "\<And>t. x = Io_torn t \<Longrightarrow> \<not> page_ok t"
  shows "\<exists>rc st' d. dw_add_page key p (cut_io n x st) = Some (rc, st') \<and> recovers_to st' d \<and> (\<forall>k. k \<noteq> key \<longrightarrow> d k = stored st k) \<and>
    (d key = stored st key \<or> d key = disk st key \<or> d key = Some p)"
proof (cases "map_of (dblwr_pages st) key")
  case None
  then show ?thesis using add_crash_new [OF hold key p torn None, where n = n] by fastforce
next
  case (Some y)
  then show ?thesis using add_crash_known [OF hold key p torn Some, where n = n] by blast
qed

section \<open>Crashes in a run\<close>

fun call_kept :: "int list \<Rightarrow> dw_call \<Rightarrow> bool" where
  \<comment> \<open>a page of an open pool with its checksum is added, or the buffer is flushed\<close>
  "call_kept pools (Dw_add key p) = (fst key \<in> set pools \<and> page_ok p)"
| "call_kept pools Dw_flush = True"
| "call_kept pools (Dw_clear bp) = False"

lemma slots_hold_run:
  "slots_hold st \<Longrightarrow> \<forall>x \<in> set xs. call_kept (open_pools st) x \<Longrightarrow> dw_run xs st = Some st' \<Longrightarrow>
   slots_hold st' \<and> open_pools st' = open_pools st"
proof (induction xs arbitrary: st)
  case (Cons x xs)
  have "\<exists>st1. dw_run xs st1 = Some st' \<and> slots_hold st1 \<and> open_pools st1 = open_pools st"
  proof (cases x)
    case (Dw_add key p)
    then obtain st1 where "dw_add_page key p st = Some (SUCCESS, st1)" "dw_run xs st1 = Some st'"
      using Cons.prems(3) by (auto split: option.splits prod.splits rc.splits)
    then show ?thesis using slots_hold_add [OF Cons.prems(1)] Cons.prems(2) Dw_add by (metis call_kept.simps(1) list.set_intros(1))
  next
    case Dw_flush
    then obtain st1 where "dw_flush_page st = Some (SUCCESS, st1)" "dw_run xs st1 = Some st'"
      using Cons.prems(3) by (auto split: option.splits prod.splits rc.splits)
    then show ?thesis using slots_hold_flush [OF Cons.prems(1)] by metis
  qed (use Cons.prems(2) in auto)
  then show ?case using Cons.IH Cons.prems(2) by (metis list.set_intros(2))
qed simp

text \<open>
  C7: the double write buffer repairs torn pages. After any additions of pages and flushes, let the process stop anywhere inside a
  further call, in the middle of any of its writes. Then opening the shared file and recovering succeeds, and every page in the data
  files is whole: it is the one added last, while a page that was just being added may also be the new one or the one in the data
  file before. Pages carry their checksum, and a torn page does not match its own; the writes reach the files in the program's order.
  \<^verbatim>\<open>clear_pages\<close> is excluded: after it a stale slot may hide a newer one (\<open>stale_slot_wins\<close>).
\<close>

theorem dblwr_repairs_torn_pages:
  assumes "dblwr_pages st = []" and "header_cnt st = 0" and "slots_dead st" and "io st = []"
    and "\<forall>y \<in> set (xs @ [c]). call_kept (open_pools st) y" and "dw_run xs st = Some st'" and "\<And>t. x = Io_torn t \<Longrightarrow> \<not> page_ok t"
  shows "\<exists>rc st1 st2 st3. dw_call_result c (cut_io n x st') = Some (rc, st1) \<and>
    dw_open_file (crash st1) = (SUCCESS, st2) \<and> dw_recover st2 = Some (SUCCESS, st3) \<and> dblwr_pages st3 = [] \<and>
    (\<forall>k. disk st3 k = last_written xs (disk st) k \<or>
       (\<exists>p. c = Dw_add k p \<and> (disk st3 k = Some p \<or> disk st3 k = disk st' k)))"
proof -
  have hold0: "slots_hold st" using assms(1-4) by (simp add: slots_hold_def dw_inv_def)
  have hold: "slots_hold st'" "open_pools st' = open_pools st" using slots_hold_run [OF hold0 _ assms(6)] assms(5) by simp_all
  have "call_open (open_pools st) y" if "call_kept (open_pools st) y" for y using that by (cases y) auto
  then have last: "stored st' = last_written xs (disk st)"
    using dw_run_ok [of st xs] flushed_inv [OF assms(1,4)] assms(5,6) by auto
  have "\<exists>rc st1 d. dw_call_result c (cut_io n x st') = Some (rc, st1) \<and> recovers_to st1 d \<and>
      (\<forall>k. d k = last_written xs (disk st) k \<or> (\<exists>p. c = Dw_add k p \<and> (d k = Some p \<or> d k = disk st' k)))"
  proof (cases c)
    case (Dw_add key p)
    then have "fst key \<in> set (open_pools st')" "page_ok p" using assms(5) hold(2) by simp_all
    then obtain rc st1 d where "dw_add_page key p (cut_io n x st') = Some (rc, st1)" "recovers_to st1 d" "\<forall>k. k \<noteq> key \<longrightarrow> d k = stored st' k"
      "d key = stored st' key \<or> d key = disk st' key \<or> d key = Some p"
      using add_crash [OF hold(1), of key p x n] assms(7) by blast
    then show ?thesis unfolding last by (intro exI [of _ rc] exI [of _ st1] exI [of _ d]) (auto simp: Dw_add)
  next
    case Dw_flush
    have "length (dblwr_pages st') \<le> 2 * length (dblwr_pages st') + 4" by simp
    from flush_crash [OF hold(1) this, of n x] show ?thesis unfolding last by (auto simp: Dw_flush cut_io_def)
  qed (use assms(5) in simp)
  then show ?thesis unfolding recovers_to_def by blast
qed

definition bare_page :: "int \<Rightarrow> Page" where
  "bare_page n = \<lparr>pg_lsn = n, check_sum = 0xffffffff, pg_data = []\<rparr>"

definition two_pages :: DoubleWriteBuffer where
  "two_pages = the (dw_run [Dw_add (1, 5) (bare_page 3), Dw_add (2, 5) (bare_page 4)] (fresh_dblwr [1, 2]))"

lemma two_pages_run: "dw_run [Dw_add (1, 5) (bare_page 3), Dw_add (2, 5) (bare_page 4)] (fresh_dblwr [1, 2]) = Some two_pages"
proof -
  have "dw_run [Dw_add (1, 5) (bare_page 3), Dw_add (2, 5) (bare_page 4)] (fresh_dblwr [1, 2]) \<noteq> None" by code_simp
  then show ?thesis by (auto simp: two_pages_def)
qed

definition torn_page :: Page where
  "torn_page = \<lparr>pg_lsn = 9, check_sum = 0, pg_data = []\<rparr>"

lemma bare_page_sums: "page_ok (bare_page n)" "\<not> page_ok torn_page"
  by (simp_all add: bare_page_def torn_page_def crc32_def)

text \<open>The flush of two pages stops in its third write, that of the second page to its place.\<close>

lemma two_pages_torn: "map_option (\<lambda>(rc, st). (disk st (1, 5), disk st (2, 5))) (dw_flush_page (cut_io 2 (Io_torn torn_page) two_pages)) =
    Some (Some (bare_page 3), Some torn_page)"
  by code_simp

theorem dblwr_repairs_torn_pages_witness:
  "\<exists>rc st1 st2 st3. dw_flush_page (cut_io 2 (Io_torn torn_page) two_pages) = Some (rc, st1) \<and> disk st1 (2, 5) = Some torn_page \<and>
     dw_open_file (crash st1) = (SUCCESS, st2) \<and> dw_recover st2 = Some (SUCCESS, st3) \<and> disk st3 (2, 5) = Some (bare_page 4)"
proof -
  let ?xs = "[Dw_add (1, 5) (bare_page 3), Dw_add (2, 5) (bare_page 4)]"
  have kept: "\<forall>y \<in> set (?xs @ [Dw_flush]). call_kept (open_pools (fresh_dblwr [1, 2])) y" by (simp add: fresh_dblwr_def bare_page_sums)
  have "\<not> page_ok t" if "Io_torn torn_page = Io_torn t" for t using that bare_page_sums(2) by simp
  from dblwr_repairs_torn_pages [OF _ _ _ _ kept two_pages_run this, where n = 2 and x = "Io_torn torn_page"] obtain rc st1 st2 st3 where
    r: "dw_flush_page (cut_io 2 (Io_torn torn_page) two_pages) = Some (rc, st1)" "dw_open_file (crash st1) = (SUCCESS, st2)"
      "dw_recover st2 = Some (SUCCESS, st3)" "disk st3 (2, 5) = last_written ?xs (disk (fresh_dblwr [1, 2])) (2, 5)"
    by (auto simp: fresh_dblwr_def slots_dead_def)
  moreover have "disk st1 (2, 5) = Some torn_page" using two_pages_torn r(1) by simp
  ultimately show ?thesis by auto
qed

section \<open>Where the protection is lost\<close>

text \<open>
  \<^verbatim>\<open>clear_pages\<close> takes the entries of one pool out of the buffer, but \<^verbatim>\<open>add_page\<close> numbers slots by the size of the buffer: the
  next page added overwrites the slot of a page that is still buffered.
\<close>

lemma cleared_slot_reused:
  "let st = the (dw_run [Dw_clear 1, Dw_add (1, 6) (bare_page 8)] two_pages)
   in map fst (dblwr_pages st) = [(2, 5), (1, 6)] \<and> map_option dw_key (df_slots st 0) = Some (1, 5) \<and>
      map_option dw_key (df_slots st 1) = Some (1, 6) \<and> df_slots st 2 = None"
  by code_simp

text \<open>
  The slot of a cleared page stays in the file, marked invalid, and \<^verbatim>\<open>load_pages\<close> keeps the first slot of a key: a newer
  copy of the same page in a later slot is dropped, and a torn page is then not repaired.
\<close>

lemma stale_slot_wins:
  "let st = the (dw_run [Dw_clear 1, Dw_add (1, 5) (bare_page 8)] two_pages);
       st1 = crash (st\<lparr>disk := (disk st)((1, 5) \<mapsto> bare_page 99)\<rparr>);
       st2 = snd (the (dw_recover (snd (dw_open_file st1))))
   in map_option dw_page (df_slots st 1) = Some (bare_page 8) \<and> disk st2 (1, 5) = Some (bare_page 99)"
  by code_simp

text \<open>
  A flush that fails at its second page has deleted the first entry but leaves it in the map: the next access to it
  uses freed memory.
\<close>

lemma failed_flush_leaves_freed_entry:
  "case dw_flush_page (two_pages\<lparr>io := [Io_ok, Io_ok, Io_seek]\<rparr>) of
     None \<Rightarrow> False
   | Some (rc, st) \<Rightarrow> rc = IOERR_SEEK \<and> dw_read_page (1, 5) st = None"
  by code_simp

text \<open>\<^verbatim>\<open>clear_pages\<close> reports success also when a write failed; the page is then neither buffered nor on disk.\<close>

lemma failed_clear_loses_page:
  "case dw_clear_pages 1 (two_pages\<lparr>io := [Io_seek]\<rparr>) of
     None \<Rightarrow> False
   | Some (rc, st) \<Rightarrow> rc = SUCCESS \<and> bp_load_page (1, 5) st = Some (IOERR_READ, None)"
  by code_simp

end
