(* ===== verification/Mvcc.thy ===== *)
theory Mvcc
  imports Record_Page Log_Entry
begin

text \<open>
  Multi-version transactions (\<^verbatim>\<open>src/src/observer/storage/trx/mvcc_trx.h\<close>, \<^verbatim>\<open>mvcc_trx.cpp\<close>, \<^verbatim>\<open>mvcc_trx_log.h\<close>,
  \<^verbatim>\<open>mvcc_trx_log.cpp\<close>): visibility, the operations of a transaction, commit, rollback, and replay of the transaction log.

  A table maps record identifiers to rows; of a row the two transaction fields are kept apart from the other bytes.
  The record layer below, with its indexes, is seen through what it returns: \<^verbatim>\<open>insert_record\<close> gives a code and the identifier
  of the new row, which are an argument. Transactions live at addresses, as \<^verbatim>\<open>MvccTrxKit\<close> and the replayer hold pointers to
  them. What the log handler returns for an append or a wait is taken from the script \<open>log_script\<close>, an empty script means
  success; the payloads that were appended are \<open>trx_log\<close>. A failed \<^verbatim>\<open>ASSERT\<close> is \<open>None\<close>.
\<close>

section \<open>State\<close>

record row =
  begin_xid :: int
  end_xid :: int
  row_data :: "byte list"

type_synonym tables = "int \<rightharpoonup> (RID \<rightharpoonup> row)"

datatype OperationType = OP_INSERT | OP_UPDATE | OP_DELETE | OP_UNDEFINED

datatype Operation = Operation (op_type: OperationType) (op_table: int) (op_rid: RID)

record MvccTrx =
  trx_id :: int
  started :: bool
  recovering :: bool
  operations :: "Operation list"

record MvccSystem =
  tabs :: tables
  current_trx_id :: int
  trxes :: "nat list"
  trx_heap :: "nat \<rightharpoonup> MvccTrx"
  next_addr :: nat
  trx_log :: "byte list list"
  log_script :: "rc list"

definition max_trx_id :: int where
  "max_trx_id = 2147483647"

section \<open>The transaction manager\<close>

definition next_trx_id :: "MvccSystem \<Rightarrow> int \<times> MvccSystem" where
  "next_trx_id s = (let n = int32_of (current_trx_id s + 1) in (n, s\<lparr>current_trx_id := n\<rparr>))"

definition create_trx :: "MvccSystem \<Rightarrow> nat \<times> MvccSystem" where
  "create_trx s =
     (let a = next_addr s
      in (a, s\<lparr>trxes := trxes s @ [a], next_addr := Suc a,
               trx_heap := (trx_heap s)(a \<mapsto> \<lparr>trx_id = - 1, started = False, recovering = False, operations = []\<rparr>)\<rparr>))"

definition create_trx_with_id :: "int \<Rightarrow> MvccSystem \<Rightarrow> nat \<times> MvccSystem" where
  \<comment> \<open>for recovery\<close>
  "create_trx_with_id tid s =
     (let a = next_addr s
      in (a, s\<lparr>trxes := trxes s @ [a], next_addr := Suc a,
               trx_heap := (trx_heap s)(a \<mapsto> \<lparr>trx_id = tid, started = True, recovering = True, operations = []\<rparr>),
               current_trx_id := (if current_trx_id s < tid then tid else current_trx_id s)\<rparr>))"

definition destroy_trx :: "nat option \<Rightarrow> MvccSystem \<Rightarrow> MvccSystem" where
  \<comment> \<open>the null pointer is not in the list, and deleting it does nothing\<close>
  "destroy_trx p s =
     (case p of None \<Rightarrow> s | Some a \<Rightarrow> s\<lparr>trxes := remove1 a (trxes s), trx_heap := (trx_heap s)(a := None)\<rparr>)"

definition find_trx :: "int \<Rightarrow> MvccSystem \<Rightarrow> nat option" where
  "find_trx tid s = find (\<lambda>a. map_option trx_id (trx_heap s a) = Some tid) (trxes s)"

section \<open>Visibility\<close>

definition visit_record :: "int \<Rightarrow> bool \<Rightarrow> row \<Rightarrow> rc" where
  \<comment> \<open>for transaction \<open>tid\<close>, read-only or not\<close>
  "visit_record tid readonly r =
     (if 0 < begin_xid r \<and> 0 < end_xid r
      then if begin_xid r \<le> tid \<and> tid \<le> end_xid r then SUCCESS else RECORD_INVISIBLE
      else if begin_xid r < 0
      then if - begin_xid r = tid then SUCCESS else RECORD_INVISIBLE
      else if end_xid r < 0
      then if readonly
           then if - end_xid r \<noteq> tid then SUCCESS else RECORD_INVISIBLE
           else if - end_xid r \<noteq> tid then LOCKED_CONCURRENCY_CONFLICT else RECORD_INVISIBLE
      else SUCCESS)"

section \<open>Tables\<close>

definition find_row :: "tables \<Rightarrow> int \<Rightarrow> RID \<Rightarrow> row option" where
  "find_row ts t rid = (case ts t of None \<Rightarrow> None | Some m \<Rightarrow> m rid)"

definition set_row :: "tables \<Rightarrow> int \<Rightarrow> RID \<Rightarrow> row option \<Rightarrow> tables" where
  "set_row ts t rid r = ts(t := map_option (\<lambda>m. m(rid := r)) (ts t))"

definition visit_row :: "tables \<Rightarrow> int \<Rightarrow> RID \<Rightarrow> (row \<Rightarrow> row option) \<Rightarrow> rc \<times> tables" where
  \<comment> \<open>\<^verbatim>\<open>visit_record\<close> of the record file: the row is written back when the updater returns true\<close>
  "visit_row ts t rid updater =
     (case find_row ts t rid of
        None \<Rightarrow> (RECORD_NOT_EXIST, ts)
      | Some r \<Rightarrow> (SUCCESS, case updater r of None \<Rightarrow> ts | Some r' \<Rightarrow> set_row ts t rid (Some r')))"

section \<open>The transaction log\<close>

datatype MvccLogType = INSERT_RECORD | DELETE_RECORD | COMMIT | ROLLBACK

fun log_type_index :: "MvccLogType \<Rightarrow> int" where
  "log_type_index INSERT_RECORD = 0"
| "log_type_index DELETE_RECORD = 1"
| "log_type_index COMMIT = 2"
| "log_type_index ROLLBACK = 3"

definition log_type_of :: "int \<Rightarrow> MvccLogType option" where
  "log_type_of i =
     (if i = 0 then Some INSERT_RECORD else if i = 1 then Some DELETE_RECORD
      else if i = 2 then Some COMMIT else if i = 3 then Some ROLLBACK else None)"

definition record_log_entry :: "MvccLogType \<Rightarrow> int \<Rightarrow> int \<Rightarrow> RID \<Rightarrow> byte list" where
  "record_log_entry ty tid t rid =
     int_bytes 4 (log_type_index ty) @ int_bytes 4 tid @ int_bytes 4 t @ int_bytes 4 (page_num rid) @ int_bytes 4 (slot_num rid)"

definition commit_log_entry :: "MvccLogType \<Rightarrow> int \<Rightarrow> int \<Rightarrow> byte list" where
  "commit_log_entry ty tid commit_id = int_bytes 4 (log_type_index ty) @ int_bytes 4 tid @ int_bytes 4 commit_id"

definition next_rc :: "MvccSystem \<Rightarrow> rc \<times> MvccSystem" where
  "next_rc s = (case log_script s of [] \<Rightarrow> (SUCCESS, s) | r # rs \<Rightarrow> (r, s\<lparr>log_script := rs\<rparr>))"

definition append_payload :: "byte list \<Rightarrow> MvccSystem \<Rightarrow> rc \<times> MvccSystem" where
  "append_payload bs s =
     (case next_rc s of (rc, s') \<Rightarrow> (rc, if rc = SUCCESS then s'\<lparr>trx_log := trx_log s' @ [bs]\<rparr> else s'))"

definition log_record :: "MvccLogType \<Rightarrow> int \<Rightarrow> int \<Rightarrow> RID \<Rightarrow> MvccSystem \<Rightarrow> (rc \<times> MvccSystem) option" where
  "log_record ty tid t rid s = (if tid \<le> 0 then None else Some (append_payload (record_log_entry ty tid t rid) s))"

definition log_commit :: "int \<Rightarrow> int \<Rightarrow> MvccSystem \<Rightarrow> (rc \<times> MvccSystem) option" where
  \<comment> \<open>waits for the entry to be flushed\<close>
  "log_commit tid commit_id s =
     (if tid \<le> 0 \<or> commit_id \<le> tid then None
      else case append_payload (commit_log_entry COMMIT tid commit_id) s of
        (rc, s') \<Rightarrow> if OB_FAIL rc then Some (rc, s') else Some (next_rc s'))"

definition log_rollback :: "int \<Rightarrow> int \<Rightarrow> MvccSystem \<Rightarrow> (rc \<times> MvccSystem) option" where
  \<comment> \<open>\<^verbatim>\<open>commit_trx_id\<close> is not initialised\<close>
  "log_rollback junk tid s = (if tid \<le> 0 then None else Some (append_payload (commit_log_entry ROLLBACK tid junk) s))"

section \<open>Operations of a transaction\<close>

definition start_if_need :: "MvccTrx \<Rightarrow> MvccSystem \<Rightarrow> (MvccTrx \<times> MvccSystem) option" where
  "start_if_need x s =
     (if started x then Some (x, s)
      else if operations x \<noteq> [] then None
      else case next_trx_id s of (n, s') \<Rightarrow> Some (x\<lparr>trx_id := n, started := True\<rparr>, s'))"

definition mvcc_insert_record ::
  "int \<Rightarrow> byte list \<Rightarrow> rc \<times> RID \<Rightarrow> MvccTrx \<Rightarrow> MvccSystem \<Rightarrow> (rc \<times> MvccTrx \<times> MvccSystem) option" where
  "mvcc_insert_record t data ins x s =
     (case ins of (rc, rid) \<Rightarrow>
        if rc \<noteq> SUCCESS then Some (rc, x, s)
        else let r = \<lparr>begin_xid = - trx_id x, end_xid = max_trx_id, row_data = data\<rparr>;
                 s1 = s\<lparr>tabs := set_row (tabs s) t rid (Some r)\<rparr>
             in case log_record INSERT_RECORD (trx_id x) t rid s1 of
                  None \<Rightarrow> None
                | Some (rc, s2) \<Rightarrow>
                    if rc \<noteq> SUCCESS then None
                    else Some (SUCCESS, x\<lparr>operations := operations x @ [Operation OP_INSERT t rid]\<rparr>, s2))"

definition mvcc_delete_record :: "int \<Rightarrow> RID \<Rightarrow> MvccTrx \<Rightarrow> MvccSystem \<Rightarrow> (rc \<times> MvccTrx \<times> MvccSystem) option" where
  "mvcc_delete_record t rid x s =
     (let res = (case find_row (tabs s) t rid of None \<Rightarrow> SUCCESS | Some r \<Rightarrow> visit_record (trx_id x) False r)
      in case visit_row (tabs s) t rid (\<lambda>r. if OB_FAIL (visit_record (trx_id x) False r) then None else Some (r\<lparr>end_xid := - trx_id x\<rparr>)) of
           (rc, ts) \<Rightarrow>
             if OB_FAIL rc then Some (rc, x, s)
             else if OB_FAIL res then Some (res, x, s)
             else case log_record DELETE_RECORD (trx_id x) t rid (s\<lparr>tabs := ts\<rparr>) of
                    None \<Rightarrow> None
                  | Some (rc, s2) \<Rightarrow>
                      if rc \<noteq> SUCCESS then None
                      else Some (SUCCESS, x\<lparr>operations := operations x @ [Operation OP_DELETE t rid]\<rparr>, s2))"

definition commit_operation :: "int \<Rightarrow> bool \<Rightarrow> int \<Rightarrow> Operation \<Rightarrow> tables \<Rightarrow> tables option" where
  "commit_operation tid recov commit_xid x ts =
     (case find_row ts (op_table x) (op_rid x) of
        None \<Rightarrow> None
      | Some r \<Rightarrow>
          (case op_type x of
             OP_INSERT \<Rightarrow>
               if begin_xid r = - tid \<and> \<not> recov then Some (set_row ts (op_table x) (op_rid x) (Some (r\<lparr>begin_xid := commit_xid\<rparr>))) else None
           | OP_DELETE \<Rightarrow>
               if end_xid r = - tid then Some (set_row ts (op_table x) (op_rid x) (Some (r\<lparr>end_xid := commit_xid\<rparr>))) else None
           | _ \<Rightarrow> None))"

fun commit_operations :: "int \<Rightarrow> bool \<Rightarrow> int \<Rightarrow> Operation list \<Rightarrow> tables \<Rightarrow> tables option" where
  "commit_operations tid recov commit_xid [] ts = Some ts"
| "commit_operations tid recov commit_xid (x # xs) ts =
     (case commit_operation tid recov commit_xid x ts of
        None \<Rightarrow> None
      | Some ts' \<Rightarrow> commit_operations tid recov commit_xid xs ts')"

definition commit_with_trx_id :: "int \<Rightarrow> MvccTrx \<Rightarrow> MvccSystem \<Rightarrow> (rc \<times> MvccTrx \<times> MvccSystem) option" where
  "commit_with_trx_id commit_xid x s =
     (case commit_operations (trx_id x) (recovering x) commit_xid (operations x) (tabs s) of
        None \<Rightarrow> None
      | Some ts \<Rightarrow>
          (let s1 = s\<lparr>tabs := ts\<rparr>; x' = x\<lparr>started := False, operations := []\<rparr>
           in if recovering x then Some (SUCCESS, x', s1)
              else map_option (\<lambda>(rc, s2). (rc, x', s2)) (log_commit (trx_id x) commit_xid s1)))"

definition mvcc_commit :: "MvccTrx \<Rightarrow> MvccSystem \<Rightarrow> (rc \<times> MvccTrx \<times> MvccSystem) option" where
  "mvcc_commit x s = (case next_trx_id s of (n, s') \<Rightarrow> commit_with_trx_id n x s')"

section \<open>Rollback\<close>

text \<open>
  The loop over the operations from the last to the first. It carries the variable \<^verbatim>\<open>rc\<close>, which a skipped insert leaves at
  \<^verbatim>\<open>RECORD_NOT_EXIST\<close>. A row that is missing is the only failure of \<^verbatim>\<open>get_record\<close> here, so that the early return is not taken.
\<close>

fun rollback_operations :: "int \<Rightarrow> bool \<Rightarrow> Operation list \<Rightarrow> rc \<Rightarrow> tables \<Rightarrow> (rc \<times> tables) option" where
  "rollback_operations tid recov [] rc ts = Some (rc, ts)"
| "rollback_operations tid recov (x # xs) rc ts =
     (case op_type x of
        OP_INSERT \<Rightarrow>
          (case find_row ts (op_table x) (op_rid x) of
             None \<Rightarrow> if recov then rollback_operations tid recov xs RECORD_NOT_EXIST ts else None
           | Some r \<Rightarrow>
               if recov \<and> begin_xid r \<noteq> - tid then rollback_operations tid recov xs SUCCESS ts
               else rollback_operations tid recov xs SUCCESS (set_row ts (op_table x) (op_rid x) None))
      | OP_DELETE \<Rightarrow>
          if rc \<noteq> SUCCESS then None
          else case find_row ts (op_table x) (op_rid x) of
                 None \<Rightarrow> None
               | Some r \<Rightarrow>
                   if recov \<and> end_xid r \<noteq> - tid then rollback_operations tid recov xs SUCCESS ts
                   else if end_xid r \<noteq> - tid then None
                   else rollback_operations tid recov xs SUCCESS
                          (set_row ts (op_table x) (op_rid x) (Some (r\<lparr>end_xid := max_trx_id\<rparr>)))
      | _ \<Rightarrow> None)"

definition mvcc_rollback :: "int \<Rightarrow> MvccTrx \<Rightarrow> MvccSystem \<Rightarrow> (rc \<times> MvccTrx \<times> MvccSystem) option" where
  "mvcc_rollback junk x s =
     (case rollback_operations (trx_id x) (recovering x) (rev (operations x)) SUCCESS (tabs s) of
        None \<Rightarrow> None
      | Some (rc, ts) \<Rightarrow>
          (let s1 = s\<lparr>tabs := ts\<rparr>; x' = x\<lparr>started := False, operations := []\<rparr>
           in if recovering x then Some (rc, x', s1)
              else map_option (\<lambda>(rc, s2). (rc, x', s2)) (log_rollback junk (trx_id x) s1)))"

section \<open>Redo\<close>

definition mvcc_redo :: "tables \<Rightarrow> byte list \<Rightarrow> MvccTrx \<Rightarrow> (rc \<times> MvccTrx) option" where
  \<comment> \<open>only inserts and deletes are collected; a record entry shorter than its struct is read beyond its end\<close>
  "mvcc_redo ts payload x =
     (case log_type_of (bytes_int (slice payload 0 4)) of
        None \<Rightarrow> None
      | Some COMMIT \<Rightarrow> Some (SUCCESS, x)
      | Some ROLLBACK \<Rightarrow> Some (SUCCESS, x)
      | Some ty \<Rightarrow>
          if length payload < 20 then None
          else let t = bytes_int (slice payload 8 4); rid = RID (bytes_int (slice payload 12 4)) (bytes_int (slice payload 16 4))
               in if ts t = None then Some (SCHEMA_TABLE_NOT_EXIST, x)
                  else Some (SUCCESS, x\<lparr>operations := operations x @
                         [Operation (if ty = INSERT_RECORD then OP_INSERT else OP_DELETE) t rid]\<rparr>))"

text \<open>The replayer is its map from transaction ids to transactions.\<close>

record MvccTrxLogReplayer =
  trx_map :: "(int \<times> nat) list"

definition mvcc_replay :: "LogEntry \<Rightarrow> MvccTrxLogReplayer \<times> MvccSystem \<Rightarrow> (rc \<times> MvccTrxLogReplayer \<times> MvccSystem) option" where
  "mvcc_replay entry rs =
     (case rs of (rp, s) \<Rightarrow>
        if h_module_id (le_header entry) \<noteq> module_index TRANSACTION then None
        else if payload_size entry < 8 then Some (LOG_ENTRY_INVALID, rp, s)
        else let ty = log_type_of (bytes_int (slice (le_data entry) 0 4)); tid = bytes_int (slice (le_data entry) 4 4) in
          case (case map_of (trx_map rp) tid of None \<Rightarrow> create_trx_with_id tid s | Some a \<Rightarrow> (a, s)) of
            (a, s1) \<Rightarrow>
              (case trx_heap s1 a of
                 None \<Rightarrow> None
               | Some x \<Rightarrow>
                   (case mvcc_redo (tabs s1) (le_data entry) x of
                      None \<Rightarrow> None
                    | Some (rc, x') \<Rightarrow>
                        let s2 = s1\<lparr>trx_heap := (trx_heap s1)(a \<mapsto> x')\<rparr>
                        in if ty = Some ROLLBACK \<or> ty = Some COMMIT
                           then Some (rc, rp\<lparr>trx_map := filter (\<lambda>(k, _). k \<noteq> tid) (trx_map rp)\<rparr>, destroy_trx (map_of (trx_map rp) tid) s2)
                           else Some (rc, rp, s2))))"

fun rollback_all :: "int \<Rightarrow> nat list \<Rightarrow> MvccSystem \<Rightarrow> MvccSystem option" where
  \<comment> \<open>the loop of \<^verbatim>\<open>on_done\<close>; the transactions are deleted, but stay in the list of the transaction manager\<close>
  "rollback_all junk [] s = Some s"
| "rollback_all junk (a # as) s =
     (case trx_heap s a of
        None \<Rightarrow> None
      | Some x \<Rightarrow>
          (case mvcc_rollback junk x s of
             None \<Rightarrow> None
           | Some (_, _, s') \<Rightarrow> rollback_all junk as (s'\<lparr>trx_heap := (trx_heap s')(a := None)\<rparr>)))"

definition mvcc_on_done :: "int \<Rightarrow> MvccTrxLogReplayer \<times> MvccSystem \<Rightarrow> (rc \<times> MvccTrxLogReplayer \<times> MvccSystem) option" where
  "mvcc_on_done junk rs =
     (case rs of (rp, s) \<Rightarrow>
        map_option (\<lambda>s'. (SUCCESS, rp\<lparr>trx_map := []\<rparr>, s')) (rollback_all junk (map snd (trx_map rp)) s))"

fun mvcc_replay_all :: "LogEntry list \<Rightarrow> MvccTrxLogReplayer \<times> MvccSystem \<Rightarrow> (rc \<times> MvccTrxLogReplayer \<times> MvccSystem) option" where
  "mvcc_replay_all [] rs = Some (SUCCESS, rs)"
| "mvcc_replay_all (e # es) rs =
     (case mvcc_replay e rs of
        None \<Rightarrow> None
      | Some (rc, rs') \<Rightarrow> if OB_FAIL rc then Some (rc, rs') else mvcc_replay_all es rs')"

section \<open>What transactions see\<close>

definition view :: "int \<Rightarrow> tables \<Rightarrow> int \<Rightarrow> RID \<Rightarrow> byte list option" where
  \<comment> \<open>the rows a read-only scan by transaction \<open>t\<close> returns\<close>
  "view t ts tab rid =
     (case find_row ts tab rid of
        None \<Rightarrow> None
      | Some r \<Rightarrow> if visit_record t True r = SUCCESS then Some (row_data r) else None)"

lemma find_set_row:
  "find_row (set_row ts t rid r) t' rid' = (if t' = t \<and> rid' = rid \<and> ts t \<noteq> None then r else find_row ts t' rid')"
  by (auto simp: find_row_def set_row_def split: option.splits)

lemma find_row_table: "find_row ts t rid = Some r \<Longrightarrow> ts t \<noteq> None"
  by (auto simp: find_row_def split: option.splits)

lemma find_set_row_Some:
  assumes "find_row ts t rid = Some r0"
  shows "find_row (set_row ts t rid r) t' rid' = (if t' = t \<and> rid' = rid then r else find_row ts t' rid')"
  using find_set_row [of ts t rid r t' rid'] find_row_table [OF assms] by auto

text \<open>What a commit and a rollback make of a row.\<close>

definition commit_row :: "int \<Rightarrow> Operation set \<Rightarrow> int \<Rightarrow> RID \<Rightarrow> row \<Rightarrow> row" where
  "commit_row c ops t rid r =
     r\<lparr>begin_xid := if Operation OP_INSERT t rid \<in> ops then c else begin_xid r,
       end_xid := if Operation OP_DELETE t rid \<in> ops then c else end_xid r\<rparr>"

lemma commit_operations_rows:
  "commit_operations u rec c ops ts = Some ts' \<Longrightarrow> find_row ts' t rid = map_option (commit_row c (set ops) t rid) (find_row ts t rid)"
proof (induction ops arbitrary: ts)
  case Nil
  then show ?case by (cases "find_row ts t rid") (simp_all add: commit_row_def)
next
  case (Cons x ops)
  obtain ts1 where ts1: "commit_operation u rec c x ts = Some ts1" "commit_operations u rec c ops ts1 = Some ts'"
    using Cons.prems by (auto split: option.splits)
  obtain r where r: "find_row ts (op_table x) (op_rid x) = Some r" using ts1(1) by (auto simp: commit_operation_def split: option.splits)
  have "find_row ts1 t rid = map_option (commit_row c {x} t rid) (find_row ts t rid)"
    using ts1(1) r find_set_row_Some [OF r]
    by (cases x; cases "find_row ts t rid") (auto simp: commit_operation_def commit_row_def split: OperationType.splits if_splits)
  moreover have "commit_row c (set ops) t rid (commit_row c {x} t rid r) = commit_row c (set (x # ops)) t rid r" for r
    by (auto simp: commit_row_def)
  ultimately show ?case using Cons.IH [OF ts1(2)] by (cases "find_row ts t rid") simp_all
qed

definition rollback_row :: "Operation set \<Rightarrow> int \<Rightarrow> RID \<Rightarrow> row option \<Rightarrow> row option" where
  "rollback_row ops t rid r =
     (if Operation OP_INSERT t rid \<in> ops then None
      else if Operation OP_DELETE t rid \<in> ops then map_option (\<lambda>r. r\<lparr>end_xid := max_trx_id\<rparr>) r else r)"

lemma rollback_operations_rows:
  "rollback_operations u False ops rc ts = Some (rc', ts') \<Longrightarrow> find_row ts' t rid = rollback_row (set ops) t rid (find_row ts t rid)"
proof (induction ops arbitrary: rc ts)
  case Nil
  then show ?case by (simp add: rollback_row_def)
next
  case (Cons x ops)
  obtain r where r: "find_row ts (op_table x) (op_rid x) = Some r"
    using Cons.prems by (auto split: option.splits OperationType.splits if_splits)
  obtain r' where ts1: "rollback_operations u False ops SUCCESS (set_row ts (op_table x) (op_rid x) r') = Some (rc', ts')"
    and r': "r' = rollback_row {x} (op_table x) (op_rid x) (Some r)"
    using Cons.prems r by (cases x) (auto simp: rollback_row_def split: OperationType.splits if_splits)
  have "find_row (set_row ts (op_table x) (op_rid x) r') t rid = rollback_row {x} t rid (find_row ts t rid)"
    unfolding r' using r find_set_row_Some [OF r] by (cases x) (auto simp: rollback_row_def)
  moreover have "rollback_row (set ops) t rid (rollback_row {x} t rid r) = rollback_row (set (x # ops)) t rid r" for r
    by (auto simp: rollback_row_def option.map_comp comp_def)
  ultimately show ?case using Cons.IH [OF ts1] by simp
qed

section \<open>Interleaved transactions\<close>

datatype trx_call = Tc_start | Tc_insert int "byte list" RID | Tc_delete int RID | Tc_commit | Tc_rollback

type_synonym mvcc_state = "(int \<rightharpoonup> MvccTrx) \<times> MvccSystem"

definition new_trx :: MvccTrx where
  "new_trx = \<lparr>trx_id = - 1, started = False, recovering = False, operations = []\<rparr>"

fun run_call :: "int \<times> trx_call \<Rightarrow> mvcc_state \<Rightarrow> mvcc_state option" where
  \<comment> \<open>one call by the active transaction \<open>u\<close>; \<open>Tc_start\<close> makes a new one\<close>
  "run_call (u, Tc_start) (act, s) =
     (case start_if_need new_trx s of None \<Rightarrow> None | Some (x, s') \<Rightarrow> Some (act(trx_id x \<mapsto> x), s'))"
| "run_call (u, Tc_insert t data rid) (act, s) =
     (case act u of
        None \<Rightarrow> None
      | Some x \<Rightarrow> (case mvcc_insert_record t data (SUCCESS, rid) x s of None \<Rightarrow> None | Some (_, x', s') \<Rightarrow> Some (act(u \<mapsto> x'), s')))"
| "run_call (u, Tc_delete t rid) (act, s) =
     (case act u of
        None \<Rightarrow> None
      | Some x \<Rightarrow> (case mvcc_delete_record t rid x s of None \<Rightarrow> None | Some (_, x', s') \<Rightarrow> Some (act(u \<mapsto> x'), s')))"
| "run_call (u, Tc_commit) (act, s) =
     (case act u of
        None \<Rightarrow> None
      | Some x \<Rightarrow> (case mvcc_commit x s of None \<Rightarrow> None | Some (_, _, s') \<Rightarrow> Some (act(u := None), s')))"
| "run_call (u, Tc_rollback) (act, s) =
     (case act u of
        None \<Rightarrow> None
      | Some x \<Rightarrow> (case mvcc_rollback 0 x s of None \<Rightarrow> None | Some (_, _, s') \<Rightarrow> Some (act(u := None), s')))"

fun run_calls :: "(int \<times> trx_call) list \<Rightarrow> mvcc_state \<Rightarrow> mvcc_state option" where
  "run_calls [] st = Some st"
| "run_calls (x # xs) st = (case run_call x st of None \<Rightarrow> None | Some st' \<Rightarrow> run_calls xs st')"

text \<open>The record layer inserts into a free slot of an existing table, and transaction ids do not overflow.\<close>

fun call_legal :: "int \<times> trx_call \<Rightarrow> mvcc_state \<Rightarrow> bool" where
  "call_legal (u, Tc_insert t data rid) (act, s) = (tabs s t \<noteq> None \<and> find_row (tabs s) t rid = None)"
| "call_legal (u, Tc_delete t rid) (act, s) = True"
| "call_legal (u, Tc_rollback) (act, s) = True"
| "call_legal (u, _) (act, s) = (current_trx_id s + 1 < max_trx_id)"

definition row_inv :: "(int \<rightharpoonup> MvccTrx) \<Rightarrow> int \<Rightarrow> int \<Rightarrow> RID \<Rightarrow> row \<Rightarrow> bool" where
  \<comment> \<open>a negative field names an active transaction that has the operation in its list\<close>
  "row_inv act n t rid r \<longleftrightarrow>
     begin_xid r \<noteq> 0 \<and> end_xid r \<noteq> 0 \<and> begin_xid r \<le> n \<and>
     (begin_xid r < 0 \<longrightarrow> (\<exists>x. act (- begin_xid r) = Some x \<and> Operation OP_INSERT t rid \<in> set (operations x)) \<and>
        (end_xid r = max_trx_id \<or> end_xid r = begin_xid r)) \<and>
     (end_xid r < 0 \<longrightarrow> (\<exists>x. act (- end_xid r) = Some x \<and> Operation OP_DELETE t rid \<in> set (operations x)))"

definition trx_inv :: "tables \<Rightarrow> int \<Rightarrow> int \<Rightarrow> MvccTrx \<Rightarrow> bool" where
  "trx_inv ts n u x \<longleftrightarrow>
     trx_id x = u \<and> 0 < u \<and> u \<le> n \<and> started x \<and> \<not> recovering x \<and>
     (\<forall>t rid. Operation OP_INSERT t rid \<in> set (operations x) \<longrightarrow> map_option begin_xid (find_row ts t rid) = Some (- u)) \<and>
     (\<forall>t rid. Operation OP_DELETE t rid \<in> set (operations x) \<longrightarrow> map_option end_xid (find_row ts t rid) = Some (- u))"

definition mvcc_inv :: "mvcc_state \<Rightarrow> bool" where
  "mvcc_inv st = (case st of (act, s) \<Rightarrow>
     0 \<le> current_trx_id s \<and> current_trx_id s < max_trx_id \<and>
     (\<forall>t rid r. find_row (tabs s) t rid = Some r \<longrightarrow> row_inv act (current_trx_id s) t rid r) \<and>
     (\<forall>u x. act u = Some x \<longrightarrow> trx_inv (tabs s) (current_trx_id s) u x))"

lemma mvcc_invI:
  assumes "0 \<le> current_trx_id s" "current_trx_id s < max_trx_id"
    and "\<And>t rid r. find_row (tabs s) t rid = Some r \<Longrightarrow> row_inv act (current_trx_id s) t rid r"
    and "\<And>u x. act u = Some x \<Longrightarrow> trx_inv (tabs s) (current_trx_id s) u x"
  shows "mvcc_inv (act, s)"
  using assms by (simp add: mvcc_inv_def)

lemma mvcc_invD:
  assumes "mvcc_inv (act, s)"
  shows "0 \<le> current_trx_id s" "current_trx_id s < max_trx_id"
    "find_row (tabs s) t rid = Some r \<Longrightarrow> row_inv act (current_trx_id s) t rid r"
    "act u = Some x \<Longrightarrow> trx_inv (tabs s) (current_trx_id s) u x"
  using assms by (auto simp: mvcc_inv_def)

lemma next_trx_id_fits:
  assumes "0 \<le> current_trx_id s" and "current_trx_id s + 1 < max_trx_id"
  shows "next_trx_id s = (current_trx_id s + 1, s\<lparr>current_trx_id := current_trx_id s + 1\<rparr>)"
proof -
  have "int32_of (current_trx_id s + 1) = current_trx_id s + 1"
    using assms by (intro int32_of_fits) (simp add: int_fits_def max_trx_id_def)
  then show ?thesis by (simp add: next_trx_id_def Let_def)
qed

lemma next_rc_simps [simp]: "tabs (snd (next_rc s)) = tabs s" "current_trx_id (snd (next_rc s)) = current_trx_id s"
  by (simp_all add: next_rc_def split: list.split)

lemma append_payload_simps [simp]:
  "tabs (snd (append_payload bs s)) = tabs s" "current_trx_id (snd (append_payload bs s)) = current_trx_id s"
  by (simp_all add: append_payload_def case_prod_beta)

lemma log_record_simps: "log_record ty u t rid s = Some (rc, s') \<Longrightarrow> tabs s' = tabs s \<and> current_trx_id s' = current_trx_id s"
  by (auto simp: log_record_def split: if_splits) (metis append_payload_simps snd_conv)+

lemma log_commit_simps: "log_commit u c s = Some (rc, s') \<Longrightarrow> tabs s' = tabs s \<and> current_trx_id s' = current_trx_id s"
  by (auto simp: log_commit_def split: if_splits prod.splits)
    (metis append_payload_simps next_rc_simps snd_conv)+

lemma log_rollback_simps: "log_rollback j u s = Some (rc, s') \<Longrightarrow> tabs s' = tabs s \<and> current_trx_id s' = current_trx_id s"
  by (auto simp: log_rollback_def split: if_splits) (metis append_payload_simps snd_conv)+

text \<open>What a call does to the tables and the transactions.\<close>

lemma start_effect:
  assumes "mvcc_inv (act, s)" "call_legal (u, Tc_start) (act, s)" "run_call (u, Tc_start) (act, s) = Some (act', s')"
  shows "tabs s' = tabs s" "current_trx_id s' = current_trx_id s + 1"
    "act' = act(current_trx_id s + 1 \<mapsto> new_trx\<lparr>trx_id := current_trx_id s + 1, started := True\<rparr>)"
  using assms next_trx_id_fits [OF mvcc_invD(1) [OF assms(1)]]
  by (auto simp: start_if_need_def new_trx_def)

lemma insert_effect:
  assumes "run_call (u, Tc_insert t data rid) (act, s) = Some (act', s')" "mvcc_inv (act, s)"
  obtains x where "act u = Some x" "act' = act(u \<mapsto> x\<lparr>operations := operations x @ [Operation OP_INSERT t rid]\<rparr>)"
    "tabs s' = set_row (tabs s) t rid (Some \<lparr>begin_xid = - u, end_xid = max_trx_id, row_data = data\<rparr>)"
    "current_trx_id s' = current_trx_id s"
proof -
  obtain x where x: "act u = Some x" using assms(1) by (auto split: option.splits)
  have "trx_id x = u" using mvcc_invD(4) [OF assms(2) x] by (simp add: trx_inv_def)
  then show ?thesis using that [OF x] assms(1) x log_record_simps
    by (fastforce simp: mvcc_insert_record_def Let_def split: option.splits if_splits prod.splits)
qed

lemma delete_effect:
  assumes "run_call (u, Tc_delete t rid) (act, s) = Some (act', s')" "mvcc_inv (act, s)"
  obtains (none) "act' = act" "s' = s"
  | (deleted) x r where "act u = Some x" "find_row (tabs s) t rid = Some r" "visit_record u False r = SUCCESS"
      "act' = act(u \<mapsto> x\<lparr>operations := operations x @ [Operation OP_DELETE t rid]\<rparr>)"
      "tabs s' = set_row (tabs s) t rid (Some (r\<lparr>end_xid := - u\<rparr>))" "current_trx_id s' = current_trx_id s"
proof -
  obtain x where x: "act u = Some x" using assms(1) by (auto split: option.splits)
  have u: "trx_id x = u" using mvcc_invD(4) [OF assms(2) x] by (simp add: trx_inv_def)
  obtain rc x' where run: "mvcc_delete_record t rid x s = Some (rc, x', s')" and act': "act' = act(u \<mapsto> x')"
    using assms(1) x by (auto split: option.splits)
  show ?thesis
  proof (cases "\<exists>r. find_row (tabs s) t rid = Some r \<and> visit_record u False r = SUCCESS")
    case True
    then obtain r where r: "find_row (tabs s) t rid = Some r" "visit_record u False r = SUCCESS" by blast
    show ?thesis
      using deleted [OF x r] run act' r u log_record_simps
      by (fastforce simp: mvcc_delete_record_def visit_row_def Let_def split: option.splits if_splits)
  next
    case False
    then have "x' = x" "s' = s" using run u by (auto simp: mvcc_delete_record_def visit_row_def Let_def split: option.splits)
    then show ?thesis using none act' x by (simp add: fun_upd_idem)
  qed
qed

lemma commit_effect:
  assumes "run_call (u, Tc_commit) (act, s) = Some (act', s')" "mvcc_inv (act, s)" "call_legal (u, Tc_commit) (act, s)"
  obtains x where "act u = Some x" "act' = act(u := None)" "current_trx_id s' = current_trx_id s + 1"
    "\<forall>t rid. find_row (tabs s') t rid = map_option (commit_row (current_trx_id s + 1) (set (operations x)) t rid) (find_row (tabs s) t rid)"
proof -
  obtain x where x: "act u = Some x" using assms(1) by (auto split: option.splits)
  have inv: "trx_id x = u" "\<not> recovering x" using mvcc_invD(4) [OF assms(2) x] by (simp_all add: trx_inv_def)
  have n: "next_trx_id s = (current_trx_id s + 1, s\<lparr>current_trx_id := current_trx_id s + 1\<rparr>)"
    using next_trx_id_fits [OF mvcc_invD(1) [OF assms(2)]] assms(3) by simp
  obtain rc x' where run: "mvcc_commit x s = Some (rc, x', s')" and act': "act' = act(u := None)"
    using assms(1) x by (auto split: option.splits)
  obtain ts where ts: "commit_operations u False (current_trx_id s + 1) (operations x) (tabs s) = Some ts"
    "log_commit u (current_trx_id s + 1) (s\<lparr>current_trx_id := current_trx_id s + 1, tabs := ts\<rparr>) = Some (rc, s')"
    using run inv n by (auto simp: mvcc_commit_def commit_with_trx_id_def Let_def split: option.splits)
  show ?thesis using that [OF x act'] log_commit_simps [OF ts(2)] commit_operations_rows [OF ts(1)] by simp
qed

lemma rollback_effect:
  assumes "run_call (u, Tc_rollback) (act, s) = Some (act', s')" "mvcc_inv (act, s)"
  obtains x where "act u = Some x" "act' = act(u := None)" "current_trx_id s' = current_trx_id s"
    "\<forall>t rid. find_row (tabs s') t rid = rollback_row (set (operations x)) t rid (find_row (tabs s) t rid)"
proof -
  obtain x where x: "act u = Some x" using assms(1) by (auto split: option.splits)
  have inv: "trx_id x = u" "\<not> recovering x" using mvcc_invD(4) [OF assms(2) x] by (simp_all add: trx_inv_def)
  obtain rc x' where run: "mvcc_rollback 0 x s = Some (rc, x', s')" and act': "act' = act(u := None)"
    using assms(1) x by (auto split: option.splits)
  obtain rc0 ts where ts: "rollback_operations u False (rev (operations x)) SUCCESS (tabs s) = Some (rc0, ts)"
    "log_rollback 0 u (s\<lparr>tabs := ts\<rparr>) = Some (rc, s')"
    using run inv by (auto simp: mvcc_rollback_def Let_def split: option.splits)
  show ?thesis using that [OF x act'] log_rollback_simps [OF ts(2)] rollback_operations_rows [OF ts(1)] by simp
qed

lemma trx_invI:
  assumes "trx_id x = u" "0 < u" "u \<le> n" "started x" "\<not> recovering x"
    and "\<And>t rid. Operation OP_INSERT t rid \<in> set (operations x) \<Longrightarrow> map_option begin_xid (find_row ts t rid) = Some (- u)"
    and "\<And>t rid. Operation OP_DELETE t rid \<in> set (operations x) \<Longrightarrow> map_option end_xid (find_row ts t rid) = Some (- u)"
  shows "trx_inv ts n u x"
  using assms by (simp add: trx_inv_def del: map_option_eq_Some)

lemma trx_invD:
  assumes "trx_inv ts n u x"
  shows "trx_id x = u" "0 < u" "u \<le> n" "started x" "\<not> recovering x"
    and "Operation OP_INSERT t rid \<in> set (operations x) \<Longrightarrow> \<exists>r. find_row ts t rid = Some r \<and> begin_xid r = - u"
    and "Operation OP_DELETE t rid \<in> set (operations x) \<Longrightarrow> \<exists>r. find_row ts t rid = Some r \<and> end_xid r = - u"
  using assms unfolding trx_inv_def map_option_eq_Some by blast+

lemma row_inv_mono: "row_inv act n t rid r \<Longrightarrow> n \<le> m \<Longrightarrow> row_inv act m t rid r"
  by (auto simp: row_inv_def)

lemma row_inv_more:
  \<comment> \<open>the operation lists only grow\<close>
  assumes "row_inv act n t rid r" and "act u = Some x" and "set (operations x) \<subseteq> set (operations x')"
  shows "row_inv (act(u \<mapsto> x')) n t rid r"
  using assms unfolding row_inv_def by (auto split: if_splits)

lemma start_inv:
  assumes "mvcc_inv (act, s)" "call_legal (u, Tc_start) (act, s)" "run_call (u, Tc_start) (act, s) = Some (act', s')"
  shows "mvcc_inv (act', s')"
proof -
  note e = start_effect [OF assms]
  note d = mvcc_invD [OF assms(1)]
  have new: "act (current_trx_id s + 1) = None"
    using d(4) [of "current_trx_id s + 1"] by (cases "act (current_trx_id s + 1)") (auto simp: trx_inv_def)
  have "row_inv act' (current_trx_id s + 1) t rid r" if "find_row (tabs s) t rid = Some r" for t rid r
    using d(3) [OF that] new unfolding row_inv_def e(3) by (auto split: if_splits)
  moreover have "trx_inv (tabs s) (current_trx_id s + 1) v x" if "act' v = Some x" for v x
    using d(1) d(4) [of v x] that unfolding e(3) by (auto simp: trx_inv_def new_trx_def split: if_splits)
  ultimately show ?thesis using d(1,2) assms(2) by (intro mvcc_invI) (simp_all add: e(1,2))
qed

lemma insert_inv:
  assumes "mvcc_inv (act, s)" "call_legal (u, Tc_insert t data rid) (act, s)" "run_call (u, Tc_insert t data rid) (act, s) = Some (act', s')"
  shows "mvcc_inv (act', s')"
proof -
  note d = mvcc_invD [OF assms(1)]
  obtain x where e: "act u = Some x" "act' = act(u \<mapsto> x\<lparr>operations := operations x @ [Operation OP_INSERT t rid]\<rparr>)"
    "tabs s' = set_row (tabs s) t rid (Some \<lparr>begin_xid = - u, end_xid = max_trx_id, row_data = data\<rparr>)"
    "current_trx_id s' = current_trx_id s" using insert_effect [OF assms(3,1)] .
  have free: "find_row (tabs s) t rid = None" "tabs s t \<noteq> None" using assms(2) by simp_all
  have fr: "find_row (tabs s') t' rid' = (if t' = t \<and> rid' = rid then Some \<lparr>begin_xid = - u, end_xid = max_trx_id, row_data = data\<rparr> else find_row (tabs s) t' rid')" for t' rid'
    using free(2) by (simp add: e(3) find_set_row)
  have x: "trx_id x = u" "0 < u" "u \<le> current_trx_id s" using d(4) [OF e(1)] by (simp_all add: trx_inv_def)
  have more: "row_inv act' (current_trx_id s) t' rid' r" if "row_inv act (current_trx_id s) t' rid' r" for t' rid' r
    unfolding e(2) by (rule row_inv_more [OF that e(1)]) auto
  have "row_inv act' (current_trx_id s') t' rid' r" if q: "find_row (tabs s') t' rid' = Some r" for t' rid' r
  proof (cases "t' = t \<and> rid' = rid")
    case True
    then show ?thesis using q fr x d(1) by (auto simp: row_inv_def e(2,4) max_trx_id_def)
  next
    case False
    then have "find_row (tabs s) t' rid' = Some r" using q unfolding fr by (simp only: if_False)
    then show ?thesis using more [OF d(3)] by (simp add: e(4))
  qed
  moreover have "trx_inv (tabs s') (current_trx_id s') v y" if "act' v = Some y" for v y
  proof (cases "v = u")
    case True
    then have y: "y = x\<lparr>operations := operations x @ [Operation OP_INSERT t rid]\<rparr>" using that by (simp add: e(2))
    note tx = trx_invD [OF d(4) [OF e(1)]]
    show ?thesis unfolding y True e(4)
    proof (rule trx_invI)
      show "map_option begin_xid (find_row (tabs s') t' rid') = Some (- u)"
        if "Operation OP_INSERT t' rid' \<in> set (operations (x\<lparr>operations := operations x @ [Operation OP_INSERT t rid]\<rparr>))" for t' rid'
        using that tx(6) [of t' rid'] by (auto simp: fr)
      show "map_option end_xid (find_row (tabs s') t' rid') = Some (- u)"
        if "Operation OP_DELETE t' rid' \<in> set (operations (x\<lparr>operations := operations x @ [Operation OP_INSERT t rid]\<rparr>))" for t' rid'
        using that tx(7) [of t' rid'] free(1) by (auto simp: fr)
    qed (use tx in auto)
  next
    case False
    then have v: "act v = Some y" using that by (simp add: e(2))
    note ty = trx_invD [OF d(4) [OF v]]
    show ?thesis unfolding e(4)
    proof (rule trx_invI)
      show "map_option begin_xid (find_row (tabs s') t' rid') = Some (- v)" if "Operation OP_INSERT t' rid' \<in> set (operations y)" for t' rid'
        using ty(6) [OF that] free(1) by (auto simp: fr)
      show "map_option end_xid (find_row (tabs s') t' rid') = Some (- v)" if "Operation OP_DELETE t' rid' \<in> set (operations y)" for t' rid'
        using ty(7) [OF that] free(1) by (auto simp: fr)
    qed (use ty in auto)
  qed
  ultimately show ?thesis using d(1,2) by (intro mvcc_invI) (simp_all add: e(4))
qed

lemma own_marks:
  \<comment> \<open>an active transaction's operations on a row are the marks the row bears\<close>
  assumes "mvcc_inv (act, s)" and "act u = Some x" and "find_row (tabs s) t rid = Some r"
  shows "Operation OP_INSERT t rid \<in> set (operations x) \<longleftrightarrow> begin_xid r = - u"
    and "Operation OP_DELETE t rid \<in> set (operations x) \<longleftrightarrow> end_xid r = - u"
proof -
  have x: "trx_inv (tabs s) (current_trx_id s) u x" and r: "row_inv act (current_trx_id s) t rid r"
    using mvcc_invD(3,4) assms by blast+
  then have u: "0 < u" by (simp add: trx_inv_def)
  show "Operation OP_INSERT t rid \<in> set (operations x) \<longleftrightarrow> begin_xid r = - u"
  proof
    assume "Operation OP_INSERT t rid \<in> set (operations x)"
    then show "begin_xid r = - u" using trx_invD(6) [OF x] assms(3) by fastforce
  qed (use r u assms(2) in \<open>simp add: row_inv_def\<close>)
  show "Operation OP_DELETE t rid \<in> set (operations x) \<longleftrightarrow> end_xid r = - u"
  proof
    assume "Operation OP_DELETE t rid \<in> set (operations x)"
    then show "end_xid r = - u" using trx_invD(7) [OF x] assms(3) by fastforce
  qed (use r u assms(2) in \<open>simp add: row_inv_def\<close>)
qed

lemma visible_for_write:
  assumes "visit_record u False r = SUCCESS" and "row_inv act n t rid r"
  shows "(0 < begin_xid r \<and> 0 < end_xid r) \<or> begin_xid r = - u"
  using assms by (auto simp: visit_record_def row_inv_def split: if_splits)

lemma delete_inv:
  assumes "mvcc_inv (act, s)" "run_call (u, Tc_delete t rid) (act, s) = Some (act', s')"
  shows "mvcc_inv (act', s')"
  using assms(2,1)
proof (cases rule: delete_effect)
  case none
  then show ?thesis using assms(1) by simp
next
  case (deleted x r)
  note d = mvcc_invD [OF assms(1)]
  have fr: "find_row (tabs s') t' rid' = (if t' = t \<and> rid' = rid then Some (r\<lparr>end_xid := - u\<rparr>) else find_row (tabs s) t' rid')" for t' rid'
    using find_set_row_Some [OF deleted(2)] by (simp add: deleted(5))
  have x: "trx_id x = u" "0 < u" using d(4) [OF deleted(1)] by (simp_all add: trx_inv_def)
  note r = d(3) [OF deleted(2)]
  note vis = visible_for_write [OF deleted(3) r]
  have more: "row_inv act' (current_trx_id s) t' rid' q" if "row_inv act (current_trx_id s) t' rid' q" for t' rid' q
    unfolding deleted(4) by (rule row_inv_more [OF that deleted(1)]) auto
  have "row_inv act' (current_trx_id s') t' rid' q" if q: "find_row (tabs s') t' rid' = Some q" for t' rid' q
  proof (cases "t' = t \<and> rid' = rid")
    case True
    then have "q = r\<lparr>end_xid := - u\<rparr>" using q fr by simp
    then show ?thesis using True vis x(2) deleted(4) more [OF r] by (auto simp: row_inv_def deleted(6))
  next
    case False
    then have "find_row (tabs s) t' rid' = Some q" using q unfolding fr by (simp only: if_False)
    then show ?thesis using more [OF d(3)] by (simp add: deleted(6))
  qed
  moreover have "trx_inv (tabs s') (current_trx_id s') v y" if "act' v = Some y" for v y
  proof (cases "v = u")
    case True
    then have y: "y = x\<lparr>operations := operations x @ [Operation OP_DELETE t rid]\<rparr>" using that by (simp add: deleted(4))
    note tx = trx_invD [OF d(4) [OF deleted(1)]]
    show ?thesis unfolding y True deleted(6)
    proof (rule trx_invI)
      show "map_option begin_xid (find_row (tabs s') t' rid') = Some (- u)"
        if "Operation OP_INSERT t' rid' \<in> set (operations (x\<lparr>operations := operations x @ [Operation OP_DELETE t rid]\<rparr>))" for t' rid'
        using that tx(6) [of t' rid'] deleted(2) by (auto simp: fr)
      show "map_option end_xid (find_row (tabs s') t' rid') = Some (- u)"
        if "Operation OP_DELETE t' rid' \<in> set (operations (x\<lparr>operations := operations x @ [Operation OP_DELETE t rid]\<rparr>))" for t' rid'
        using that tx(7) [of t' rid'] by (auto simp: fr)
    qed (use tx in auto)
  next
    case False
    then have v: "act v = Some y" using that by (simp add: deleted(4))
    note ty = trx_invD [OF d(4) [OF v]]
    have "end_xid r \<noteq> - v" using vis r False x(2) ty(2) by (auto simp: row_inv_def max_trx_id_def)
    then have nod: "Operation OP_DELETE t rid \<notin> set (operations y)" using own_marks(2) [OF assms(1) v deleted(2)] by simp
    show ?thesis unfolding deleted(6)
    proof (rule trx_invI)
      show "map_option begin_xid (find_row (tabs s') t' rid') = Some (- v)" if "Operation OP_INSERT t' rid' \<in> set (operations y)" for t' rid'
        using ty(6) [OF that] deleted(2) by (auto simp: fr)
      show "map_option end_xid (find_row (tabs s') t' rid') = Some (- v)" if "Operation OP_DELETE t' rid' \<in> set (operations y)" for t' rid'
        using ty(7) [OF that] that nod by (auto simp: fr)
    qed (use ty in auto)
  qed
  ultimately show ?thesis using d(1,2) by (intro mvcc_invI) (simp_all add: deleted(6))
qed

lemma marks_of_inserter:
  assumes "mvcc_inv (act, s)" and "find_row (tabs s) t rid = Some r" and "begin_xid r < 0" and "end_xid r < 0"
  shows "end_xid r = begin_xid r"
  using mvcc_invD(3) [OF assms(1,2)] assms(3,4) by (auto simp: row_inv_def max_trx_id_def)

lemma row_inv_end:
  \<comment> \<open>a row without marks of \<open>u\<close> does not need \<open>u\<close> to be active\<close>
  assumes "row_inv act n t rid r" and "begin_xid r \<noteq> - u" and "end_xid r \<noteq> - u"
  shows "row_inv (act(u := None)) n t rid r"
  using assms by (auto simp: row_inv_def)

lemma commit_inv:
  assumes "mvcc_inv (act, s)" "call_legal (u, Tc_commit) (act, s)" "run_call (u, Tc_commit) (act, s) = Some (act', s')"
  shows "mvcc_inv (act', s')"
proof -
  note d = mvcc_invD [OF assms(1)]
  obtain x where e: "act u = Some x" "act' = act(u := None)" "current_trx_id s' = current_trx_id s + 1"
    "\<forall>t rid. find_row (tabs s') t rid = map_option (commit_row (current_trx_id s + 1) (set (operations x)) t rid) (find_row (tabs s) t rid)"
    using commit_effect [OF assms(3,1,2)] .
  have u: "0 < u" using d(4) [OF e(1)] by (simp add: trx_inv_def)
  have "row_inv act' (current_trx_id s') t rid q" if q: "find_row (tabs s') t rid = Some q" for t rid q
  proof -
    obtain r where r: "find_row (tabs s) t rid = Some r" "q = commit_row (current_trx_id s + 1) (set (operations x)) t rid r"
      using q e(4) by auto
    note m = own_marks [OF assms(1) e(1) r(1)]
    have "row_inv act' (current_trx_id s + 1) t rid q"
      using d(3) [OF r(1)] d(1) u unfolding r(2) commit_row_def row_inv_def e(2) m by (auto simp: max_trx_id_def)
    then show ?thesis by (simp add: e(3))
  qed
  moreover have "trx_inv (tabs s') (current_trx_id s') v y" if "act' v = Some y" for v y
  proof -
    have v: "act v = Some y" "v \<noteq> u" using that by (auto simp: e(2) split: if_splits)
    have ins: "map_option begin_xid (find_row (tabs s') t rid) = Some (- v)" if op: "Operation OP_INSERT t rid \<in> set (operations y)" for t rid
    proof -
      obtain r where r: "find_row (tabs s) t rid = Some r" "begin_xid r = - v" using trx_invD(6) [OF d(4) [OF v(1)] op] by blast
      then show ?thesis using own_marks(1) [OF assms(1) e(1) r(1)] v(2) by (simp add: e(4) commit_row_def)
    qed
    have del: "map_option end_xid (find_row (tabs s') t rid) = Some (- v)" if op: "Operation OP_DELETE t rid \<in> set (operations y)" for t rid
    proof -
      obtain r where r: "find_row (tabs s) t rid = Some r" "end_xid r = - v" using trx_invD(7) [OF d(4) [OF v(1)] op] by blast
      then show ?thesis using own_marks(2) [OF assms(1) e(1) r(1)] v(2) by (simp add: e(4) commit_row_def)
    qed
    show ?thesis unfolding e(3) by (rule trx_invI) (use trx_invD(1-5) [OF d(4) [OF v(1)]] ins del in auto)
  qed
  ultimately show ?thesis using d(1) assms(2) by (intro mvcc_invI) (simp_all add: e(3))
qed

lemma rollback_inv:
  assumes "mvcc_inv (act, s)" "run_call (u, Tc_rollback) (act, s) = Some (act', s')"
  shows "mvcc_inv (act', s')"
proof -
  note d = mvcc_invD [OF assms(1)]
  obtain x where e: "act u = Some x" "act' = act(u := None)" "current_trx_id s' = current_trx_id s"
    "\<forall>t rid. find_row (tabs s') t rid = rollback_row (set (operations x)) t rid (find_row (tabs s) t rid)"
    using rollback_effect [OF assms(2,1)] .
  have u: "0 < u" using d(4) [OF e(1)] by (simp add: trx_inv_def)
  have keep: "\<exists>q. find_row (tabs s') t rid = Some q \<and> begin_xid q = begin_xid r \<and> (end_xid r \<noteq> - u \<longrightarrow> end_xid q = end_xid r)"
    if "find_row (tabs s) t rid = Some r" "begin_xid r \<noteq> - u" for t rid r
    using own_marks [OF assms(1) e(1) that(1)] that by (simp add: e(4) rollback_row_def)
  have "row_inv act' (current_trx_id s') t rid q" if q: "find_row (tabs s') t rid = Some q" for t rid q
  proof -
    obtain r where r: "find_row (tabs s) t rid = Some r" "Some q = rollback_row (set (operations x)) t rid (Some r)"
      using q e(4) by (cases "find_row (tabs s) t rid") (auto simp: rollback_row_def split: if_splits)
    note m = own_marks [OF assms(1) e(1) r(1)]
    show ?thesis using d(3) [OF r(1)] r(2) u unfolding rollback_row_def row_inv_def e(2,3) m
      by (auto simp: max_trx_id_def split: if_splits)
  qed
  moreover have "trx_inv (tabs s') (current_trx_id s') v y" if "act' v = Some y" for v y
  proof -
    have v: "act v = Some y" "v \<noteq> u" using that by (auto simp: e(2) split: if_splits)
    have ins: "map_option begin_xid (find_row (tabs s') t rid) = Some (- v)" if op: "Operation OP_INSERT t rid \<in> set (operations y)" for t rid
    proof -
      obtain r where r: "find_row (tabs s) t rid = Some r" "begin_xid r = - v" using trx_invD(6) [OF d(4) [OF v(1)] op] by blast
      then show ?thesis using keep [OF r(1)] v(2) by auto
    qed
    have del: "map_option end_xid (find_row (tabs s') t rid) = Some (- v)" if op: "Operation OP_DELETE t rid \<in> set (operations y)" for t rid
    proof -
      obtain r where r: "find_row (tabs s) t rid = Some r" "end_xid r = - v" using trx_invD(7) [OF d(4) [OF v(1)] op] by blast
      have "begin_xid r \<noteq> - u" using marks_of_inserter [OF assms(1) r(1)] r(2) u v(2) trx_invD(2) [OF d(4) [OF v(1)]] by auto
      then show ?thesis using keep [OF r(1)] r(2) v(2) by auto
    qed
    show ?thesis unfolding e(3) by (rule trx_invI) (use trx_invD(1-5) [OF d(4) [OF v(1)]] ins del in auto)
  qed
  ultimately show ?thesis using d(1,2) by (intro mvcc_invI) (simp_all add: e(3))
qed

lemma run_call_inv:
  assumes "mvcc_inv st" and "call_legal x st" and "run_call x st = Some st'"
  shows "mvcc_inv st'"
proof -
  obtain u c where x: "x = (u, c)" by (cases x)
  obtain act s act' s' where st: "st = (act, s)" "st' = (act', s')" by (cases st; cases st')
  show ?thesis
  proof (cases c)
    case Tc_start
    show ?thesis using start_inv [OF assms [unfolded x st Tc_start]] unfolding st .
  next
    case (Tc_insert t data rid)
    show ?thesis using insert_inv [OF assms [unfolded x st Tc_insert]] unfolding st .
  next
    case (Tc_delete t rid)
    show ?thesis using delete_inv [OF assms(1,3) [unfolded x st Tc_delete]] unfolding st .
  next
    case Tc_commit
    show ?thesis using commit_inv [OF assms [unfolded x st Tc_commit]] unfolding st .
  next
    case Tc_rollback
    show ?thesis using rollback_inv [OF assms(1,3) [unfolded x st Tc_rollback]] unfolding st .
  qed
qed

end
