(* ===== verification/Mvcc_Isolation.thy ===== *)
theory Mvcc_Isolation
  imports Mvcc
begin

text \<open>
  Isolation between the transactions of \<^verbatim>\<open>src/src/observer/storage/trx/mvcc_trx.cpp\<close>: what the calls of other
  transactions leave of what a transaction sees, what a commit publishes and what a rollback undoes.
\<close>

section \<open>Isolation\<close>

text \<open>
  \<open>call_isolated t\<close>: another transaction deletes only current versions of rows that are no newer than \<open>t\<close>. The two lemmas
  below show that both conditions are needed.
\<close>

fun call_isolated :: "int \<Rightarrow> int \<times> trx_call \<Rightarrow> mvcc_state \<Rightarrow> bool" where
  "call_isolated t (u, Tc_delete tab rid) (act, s) =
     (u \<noteq> t \<and> (case find_row (tabs s) tab rid of
        None \<Rightarrow> True
      | Some r \<Rightarrow> visit_record u False r = SUCCESS \<longrightarrow> end_xid r = max_trx_id \<and> begin_xid r \<le> t))"
| "call_isolated t (u, _) st = (u \<noteq> t)"

fun calls_isolated :: "int \<Rightarrow> (int \<times> trx_call) list \<Rightarrow> mvcc_state \<Rightarrow> bool" where
  "calls_isolated t [] st = True"
| "calls_isolated t (x # xs) st =
     (call_legal x st \<and> call_isolated t x st \<and> (case run_call x st of None \<Rightarrow> True | Some st' \<Rightarrow> calls_isolated t xs st'))"

definition pending_old :: "int \<Rightarrow> tables \<Rightarrow> bool" where
  \<comment> \<open>no row newer than \<open>t\<close> is being deleted\<close>
  "pending_old t ts \<longleftrightarrow> (\<forall>tab rid r. find_row ts tab rid = Some r \<longrightarrow> end_xid r < 0 \<longrightarrow> begin_xid r \<le> t)"

definition seen :: "int \<Rightarrow> row option \<Rightarrow> byte list option" where
  "seen t x = (case x of None \<Rightarrow> None | Some r \<Rightarrow> if visit_record t True r = SUCCESS then Some (row_data r) else None)"

lemma view_seen: "view t ts tab rid = seen t (find_row ts tab rid)"
  by (simp add: view_def seen_def)

lemma run_call_view:
  assumes inv: "mvcc_inv (act, s)" and legal: "call_legal (u, c) (act, s)" and iso: "call_isolated t (u, c) (act, s)"
    and old: "pending_old t (tabs s)" and t: "0 < t" "t \<le> current_trx_id s" and run: "run_call (u, c) (act, s) = Some (act', s')"
  shows "seen t (find_row (tabs s') tab rid) = seen t (find_row (tabs s) tab rid) \<and>
    (\<forall>r. find_row (tabs s') tab rid = Some r \<longrightarrow> end_xid r < 0 \<longrightarrow> begin_xid r \<le> t) \<and> current_trx_id s \<le> current_trx_id s'"
proof -
  note d = mvcc_invD [OF inv]
  have old': "begin_xid r \<le> t" if "find_row (tabs s) tab rid = Some r" "end_xid r < 0" for r using old that by (auto simp: pending_old_def)
  show ?thesis
  proof (cases c)
    case Tc_start
    then show ?thesis using start_effect [of act s u act' s'] inv legal run old' by simp
  next
    case (Tc_insert tab' data rid')
    obtain x where e: "act u = Some x" "tabs s' = set_row (tabs s) tab' rid' (Some \<lparr>begin_xid = - u, end_xid = max_trx_id, row_data = data\<rparr>)"
      "current_trx_id s' = current_trx_id s" using insert_effect [OF run [unfolded Tc_insert] inv] .
    have "0 < u" using trx_invD(2) [OF d(4) [OF e(1)]] .
    then show ?thesis using legal iso Tc_insert old' unfolding e(2,3)
      by (auto simp: find_set_row seen_def visit_record_def max_trx_id_def)
  next
    case (Tc_delete tab' rid')
    from run [unfolded Tc_delete] inv show ?thesis
    proof (cases rule: delete_effect)
      case none
      then show ?thesis using old' by simp
    next
      case (deleted x r)
      have u: "0 < u" using trx_invD(2) [OF d(4) [OF deleted(1)]] .
      have r: "end_xid r = max_trx_id" "begin_xid r \<le> t" "u \<noteq> t" using iso Tc_delete deleted(2,3) by simp_all
      have "0 < begin_xid r \<or> begin_xid r = - u" using visible_for_write [OF deleted(3) d(3) [OF deleted(2)]] by auto
      then have "seen t (Some (r\<lparr>end_xid := - u\<rparr>)) = seen t (Some r)"
        using r u t d(2) by (auto simp: seen_def visit_record_def max_trx_id_def)
      then show ?thesis using old' deleted(2) r u unfolding deleted(5,6) by (auto simp: find_set_row_Some [OF deleted(2)])
    qed
  next
    case Tc_commit
    obtain x where e: "act u = Some x" "current_trx_id s' = current_trx_id s + 1"
      "\<forall>tab rid. find_row (tabs s') tab rid = map_option (commit_row (current_trx_id s + 1) (set (operations x)) tab rid) (find_row (tabs s) tab rid)"
      using commit_effect [OF run [unfolded Tc_commit] inv legal [unfolded Tc_commit]] .
    have u: "0 < u" "u \<noteq> t" using trx_invD(2) [OF d(4) [OF e(1)]] iso Tc_commit by auto
    show ?thesis
    proof (cases "find_row (tabs s) tab rid")
      case (Some r)
      note m = own_marks [OF inv e(1) Some]
      note r = d(3) [OF Some]
      have mi: "end_xid r = begin_xid r" if "begin_xid r < 0" "end_xid r < 0" using marks_of_inserter [OF inv Some that] .
      let ?q = "commit_row (current_trx_id s + 1) (set (operations x)) tab rid r"
      have "seen t (Some ?q) = seen t (Some r)"
        using mi u t old' [OF Some] d(2) r unfolding seen_def visit_record_def commit_row_def m
        by (auto simp: row_inv_def max_trx_id_def)
      moreover have "end_xid ?q < 0 \<longrightarrow> begin_xid ?q \<le> t"
        using mi u t old' [OF Some] r unfolding commit_row_def m by (auto simp: row_inv_def max_trx_id_def)
      ultimately show ?thesis using Some e by simp
    qed (use e in \<open>simp add: seen_def\<close>)
  next
    case Tc_rollback
    obtain x where e: "act u = Some x" "current_trx_id s' = current_trx_id s"
      "\<forall>tab rid. find_row (tabs s') tab rid = rollback_row (set (operations x)) tab rid (find_row (tabs s) tab rid)"
      using rollback_effect [OF run [unfolded Tc_rollback] inv] .
    have u: "0 < u" "u \<noteq> t" using trx_invD(2) [OF d(4) [OF e(1)]] iso Tc_rollback by auto
    show ?thesis
    proof (cases "find_row (tabs s) tab rid")
      case (Some r)
      note m = own_marks [OF inv e(1) Some]
      note r = d(3) [OF Some]
      have mi: "end_xid r = begin_xid r" if "begin_xid r < 0" "end_xid r < 0" using marks_of_inserter [OF inv Some that] .
      have "seen t (rollback_row (set (operations x)) tab rid (Some r)) = seen t (Some r)"
        using mi u t old' [OF Some] d(2) r unfolding seen_def visit_record_def rollback_row_def m
        by (auto simp: row_inv_def max_trx_id_def)
      moreover have "end_xid q < 0 \<longrightarrow> begin_xid q \<le> t" if "rollback_row (set (operations x)) tab rid (Some r) = Some q" for q
        using that old' [OF Some] unfolding rollback_row_def m by (auto simp: max_trx_id_def split: if_splits)
      ultimately show ?thesis using Some e by simp
    qed (use e in \<open>auto simp: rollback_row_def\<close>)
  qed
qed

lemma run_calls_view:
  assumes "mvcc_inv st" "calls_isolated t cs st" "pending_old t (tabs (snd st))" "0 < t" "t \<le> current_trx_id (snd st)"
    and "run_calls cs st = Some st'"
  shows "view t (tabs (snd st')) tab rid = view t (tabs (snd st)) tab rid"
  using assms
proof (induction cs arbitrary: st)
  case Nil
  then show ?case by simp
next
  case (Cons x cs)
  obtain act s where st: "st = (act, s)" by (cases st)
  obtain u c where x: "x = (u, c)" by (cases x)
  obtain act1 s1 where run: "run_call (u, c) (act, s) = Some (act1, s1)" and rest: "run_calls cs (act1, s1) = Some st'"
    using Cons.prems(6) unfolding st x by (auto split: option.splits)
  have iso: "call_legal (u, c) (act, s)" "call_isolated t (u, c) (act, s)" "calls_isolated t cs (act1, s1)"
    using Cons.prems(2) run unfolding st x by simp_all
  note prems = Cons.prems(1,3-5) [unfolded st snd_conv]
  note step = run_call_view [OF prems(1) iso(1,2) prems(2-4) run]
  have "pending_old t (tabs s1)" unfolding pending_old_def using step by blast
  moreover have "t \<le> current_trx_id s1" using step prems(4) by (meson order_trans)
  moreover have "mvcc_inv (act1, s1)" using run_call_inv [OF prems(1) iso(1) run] .
  ultimately have "view t (tabs (snd st')) tab rid = view t (tabs s1) tab rid"
    using Cons.IH [of "(act1, s1)"] iso(3) prems(3) rest by simp
  then show ?case using step by (simp add: view_seen st)
qed

lemma run_calls_inv:
  assumes "mvcc_inv st" and "calls_isolated t cs st" and "run_calls cs st = Some st'"
  shows "mvcc_inv st'"
  using assms
proof (induction cs arbitrary: st)
  case Nil
  then show ?case by simp
next
  case (Cons x cs)
  obtain st1 where st1: "run_call x st = Some st1" "run_calls cs st1 = Some st'"
    using Cons.prems(3) by (auto split: option.splits)
  have iso: "call_legal x st" "calls_isolated t cs st1" using Cons.prems(2) st1(1) by simp_all
  show ?case by (rule Cons.IH [OF run_call_inv [OF Cons.prems(1) iso(1) st1(1)] iso(2) st1(2)])
qed

section \<open>Commit and rollback of a transaction\<close>

text \<open>The operations of a transaction in order: no row is inserted or deleted twice, and a row is inserted before it is deleted.\<close>

fun ops_ok :: "Operation list \<Rightarrow> bool" where
  "ops_ok [] = True"
| "ops_ok (x # xs) =
     ((op_type x = OP_INSERT \<or> op_type x = OP_DELETE) \<and> x \<notin> set xs \<and>
      (op_type x = OP_DELETE \<longrightarrow> Operation OP_INSERT (op_table x) (op_rid x) \<notin> set xs) \<and> ops_ok xs)"

lemma ops_ok_snoc:
  "ops_ok (xs @ [x]) \<longleftrightarrow>
     ops_ok xs \<and> (op_type x = OP_INSERT \<or> op_type x = OP_DELETE) \<and> x \<notin> set xs \<and>
     (op_type x = OP_INSERT \<longrightarrow> Operation OP_DELETE (op_table x) (op_rid x) \<notin> set xs)"
proof (induction xs)
  case Nil
  show ?case by auto
next
  case (Cons y xs)
  have "x = Operation OP_INSERT (op_table y) (op_rid y) \<longleftrightarrow> op_type x = OP_INSERT \<and> op_table x = op_table y \<and> op_rid x = op_rid y"
    by (cases x) auto
  moreover have "y = Operation OP_DELETE (op_table x) (op_rid x) \<longleftrightarrow> op_type y = OP_DELETE \<and> op_table x = op_table y \<and> op_rid x = op_rid y"
    by (cases y) auto
  ultimately show ?case using Cons.IH by auto
qed

lemma ops_ok_type: "ops_ok xs \<Longrightarrow> y \<in> set xs \<Longrightarrow> op_type y = OP_INSERT \<or> op_type y = OP_DELETE"
  by (induction xs) auto

definition bears :: "int \<Rightarrow> tables \<Rightarrow> Operation \<Rightarrow> bool" where
  \<comment> \<open>the row has the mark of the operation\<close>
  "bears u ts x =
     (case find_row ts (op_table x) (op_rid x) of
        None \<Rightarrow> False
      | Some r \<Rightarrow> (op_type x = OP_INSERT \<longrightarrow> begin_xid r = - u) \<and> (op_type x = OP_DELETE \<longrightarrow> end_xid r = - u))"

lemma trx_inv_bears:
  assumes "trx_inv ts n u x" and "ops_ok (operations x)" and "y \<in> set (operations x)"
  shows "bears u ts y"
proof -
  obtain ty t rid where y: "y = Operation ty t rid" by (cases y)
  consider "ty = OP_INSERT" | "ty = OP_DELETE" using ops_ok_type [OF assms(2,3)] by (auto simp: y)
  then show ?thesis
  proof cases
    case 1
    obtain r where "find_row ts t rid = Some r" "begin_xid r = - u" using trx_invD(6) [OF assms(1), of t rid] assms(3) unfolding y 1 by blast
    then show ?thesis by (simp add: bears_def y 1)
  next
    case 2
    obtain r where "find_row ts t rid = Some r" "end_xid r = - u" using trx_invD(7) [OF assms(1), of t rid] assms(3) unfolding y 2 by blast
    then show ?thesis by (simp add: bears_def y 2)
  qed
qed

lemma bears_set_row:
  assumes "find_row ts t rid = Some r" and "bears u ts y"
    and "op_table y = t \<Longrightarrow> op_rid y = rid \<Longrightarrow>
      \<exists>q. r' = Some q \<and> (op_type y = OP_INSERT \<longrightarrow> begin_xid q = begin_xid r) \<and> (op_type y = OP_DELETE \<longrightarrow> end_xid q = end_xid r)"
  shows "bears u (set_row ts t rid r') y"
  using assms unfolding bears_def find_set_row_Some [OF assms(1)] by (auto split: if_splits)

lemma commit_operations_total:
  "ops_ok ops \<Longrightarrow> \<forall>y\<in>set ops. bears u ts y \<Longrightarrow> \<exists>ts'. commit_operations u False c ops ts = Some ts'"
proof (induction ops arbitrary: ts)
  case Nil
  then show ?case by simp
next
  case (Cons x ops)
  obtain ty t rid where x: "x = Operation ty t rid" by (cases x)
  have ty: "ty = OP_INSERT \<or> ty = OP_DELETE" using Cons.prems(1) by (simp add: x)
  have "bears u ts x" using Cons.prems(2) by simp
  then obtain r where r: "find_row ts t rid = Some r" "ty = OP_INSERT \<longrightarrow> begin_xid r = - u" "ty = OP_DELETE \<longrightarrow> end_xid r = - u"
    by (auto simp: bears_def x split: option.splits)
  define r' where "r' = (if ty = OP_INSERT then r\<lparr>begin_xid := c\<rparr> else r\<lparr>end_xid := c\<rparr>)"
  have step: "commit_operation u False c x ts = Some (set_row ts t rid (Some r'))"
    using ty r by (auto simp: commit_operation_def x r'_def)
  have "bears u (set_row ts t rid (Some r')) y" if y: "y \<in> set ops" for y
  proof (rule bears_set_row [OF r(1)])
    show "bears u ts y" using Cons.prems(2) y by simp
    show "\<exists>q. Some r' = Some q \<and> (op_type y = OP_INSERT \<longrightarrow> begin_xid q = begin_xid r) \<and> (op_type y = OP_DELETE \<longrightarrow> end_xid q = end_xid r)"
      if "op_table y = t" "op_rid y = rid" using Cons.prems(1) ty that y by (cases y) (auto simp: x r'_def)
  qed
  then show ?case using Cons.IH [of "set_row ts t rid (Some r')"] Cons.prems(1) step by simp
qed

lemma rollback_operations_total:
  "ops_ok ops \<Longrightarrow> \<forall>y\<in>set ops. bears u ts y \<Longrightarrow> \<exists>ts'. rollback_operations u False (rev ops) SUCCESS ts = Some (SUCCESS, ts')"
proof (induction ops arbitrary: ts rule: rev_induct)
  case Nil
  then show ?case by simp
next
  case (snoc x ops)
  obtain ty t rid where x: "x = Operation ty t rid" by (cases x)
  note ok = snoc.prems(1) [unfolded ops_ok_snoc]
  have ty: "ty = OP_INSERT \<or> ty = OP_DELETE" using ok by (simp add: x)
  have "bears u ts x" using snoc.prems(2) by simp
  then obtain r where r: "find_row ts t rid = Some r" "ty = OP_INSERT \<longrightarrow> begin_xid r = - u" "ty = OP_DELETE \<longrightarrow> end_xid r = - u"
    by (auto simp: bears_def x split: option.splits)
  define r' where "r' = (if ty = OP_INSERT then None else Some (r\<lparr>end_xid := max_trx_id\<rparr>))"
  have step: "rollback_operations u False (x # rev ops) SUCCESS ts = rollback_operations u False (rev ops) SUCCESS (set_row ts t rid r')"
    using ty r by (auto simp: x r'_def)
  have "bears u (set_row ts t rid r') y" if y: "y \<in> set ops" for y
  proof (rule bears_set_row [OF r(1)])
    show "bears u ts y" using snoc.prems(2) y by simp
    show "\<exists>q. r' = Some q \<and> (op_type y = OP_INSERT \<longrightarrow> begin_xid q = begin_xid r) \<and> (op_type y = OP_DELETE \<longrightarrow> end_xid q = end_xid r)"
      if "op_table y = t" "op_rid y = rid"
      using ok ty that y ops_ok_type [of ops y] by (cases y) (auto simp: x r'_def)
  qed
  then show ?case using snoc.IH [of "set_row ts t rid r'"] ok step by simp
qed

lemma log_commit_returns:
  assumes "0 < u" and "u < c"
  shows "\<exists>rc s'. log_commit u c s = Some (rc, s')"
  using assms by (cases "append_payload (commit_log_entry COMMIT u c) s"; cases "next_rc (snd (append_payload (commit_log_entry COMMIT u c) s))")
    (simp add: log_commit_def)

lemma commit_returns:
  assumes "mvcc_inv (act, s)" and "act u = Some x" and "ops_ok (operations x)" and "current_trx_id s + 1 < max_trx_id"
  obtains act' s' where "run_call (u, Tc_commit) (act, s) = Some (act', s')"
proof -
  note tx = mvcc_invD(4) [OF assms(1,2)]
  have n: "next_trx_id s = (current_trx_id s + 1, s\<lparr>current_trx_id := current_trx_id s + 1\<rparr>)"
    using next_trx_id_fits [OF mvcc_invD(1) [OF assms(1)] assms(4)] .
  obtain ts where "commit_operations u False (current_trx_id s + 1) (operations x) (tabs s) = Some ts"
    using commit_operations_total [OF assms(3)] trx_inv_bears [OF tx assms(3)] by blast
  moreover obtain rc s2 where
    "log_commit u (current_trx_id s + 1) (s\<lparr>current_trx_id := current_trx_id s + 1, tabs := ts\<rparr>) = Some (rc, s2)"
    using log_commit_returns trx_invD(2,3) [OF tx] by (metis zle_add1_eq_le)
  ultimately show thesis using that trx_invD(1-5) [OF tx] assms(2)
    by (simp add: mvcc_commit_def n commit_with_trx_id_def Let_def)
qed

lemma rollback_returns:
  assumes "mvcc_inv (act, s)" and "act u = Some x" and "ops_ok (operations x)"
  obtains act' s' where "run_call (u, Tc_rollback) (act, s) = Some (act', s')"
proof -
  note tx = mvcc_invD(4) [OF assms(1,2)]
  obtain ts where "rollback_operations u False (rev (operations x)) SUCCESS (tabs s) = Some (SUCCESS, ts)"
    using rollback_operations_total [OF assms(3)] trx_inv_bears [OF tx assms(3)] by blast
  then show thesis using that trx_invD(1-5) [OF tx] assms(2)
    by (auto simp: mvcc_rollback_def log_rollback_def Let_def case_prod_beta)
qed

lemma commit_view:
  assumes "mvcc_inv (act, s)" and "act u = Some x" and "current_trx_id s + 1 < t" and "t < max_trx_id"
    and "find_row (tabs s) tab rid = Some r"
  shows "seen t (Some (commit_row (current_trx_id s + 1) (set (operations x)) tab rid r)) =
    (if Operation OP_DELETE tab rid \<in> set (operations x) then None
     else if Operation OP_INSERT tab rid \<in> set (operations x) then Some (row_data r) else seen t (Some r))"
proof -
  note m = own_marks [OF assms(1,2,5)]
  have u: "0 < u" "u \<le> current_trx_id s" using trx_invD [OF mvcc_invD(4) [OF assms(1,2)]] by simp_all
  have mi: "end_xid r = begin_xid r" if "begin_xid r < 0" "end_xid r < 0" using marks_of_inserter [OF assms(1,5) that] .
  show ?thesis using mi u assms(3,4) mvcc_invD(1) [OF assms(1)] mvcc_invD(3) [OF assms(1,5)]
    unfolding m seen_def visit_record_def commit_row_def by (auto simp: row_inv_def)
qed

text \<open>Transaction 3 has inserted one row and deleted another, while transaction 2 reads.\<close>

definition demo_trx :: "int \<Rightarrow> Operation list \<Rightarrow> MvccTrx" where
  "demo_trx u ops = \<lparr>trx_id = u, started = True, recovering = False, operations = ops\<rparr>"

definition demo_ops :: "Operation list" where
  "demo_ops = [Operation OP_INSERT 0 (RID 1 1), Operation OP_DELETE 0 (RID 1 0)]"

definition demo_system :: "int \<Rightarrow> (RID \<rightharpoonup> row) \<Rightarrow> MvccSystem" where
  "demo_system n m =
     \<lparr>tabs = [0 \<mapsto> m], current_trx_id = n, trxes = [], trx_heap = Map.empty, next_addr = 0, trx_log = [], log_script = []\<rparr>"

definition demo_state :: mvcc_state where
  "demo_state =
     ([2 \<mapsto> demo_trx 2 [], 3 \<mapsto> demo_trx 3 demo_ops],
      demo_system 3 [RID 1 0 \<mapsto> \<lparr>begin_xid = 1, end_xid = - 3, row_data = [7]\<rparr>,
                     RID 1 1 \<mapsto> \<lparr>begin_xid = - 3, end_xid = max_trx_id, row_data = [9]\<rparr>])"

lemma demo_find [simp]: "find_row (tabs (demo_system n m)) t rid = (if t = 0 then m rid else None)"
  by (simp add: find_row_def demo_system_def)

lemma demo_system_simps [simp]: "current_trx_id (demo_system n m) = n" "log_script (demo_system n m) = []"
  by (simp_all add: demo_system_def)

lemma demo_inv: "mvcc_inv demo_state"
  unfolding demo_state_def
  by (rule mvcc_invI)
    (auto simp: row_inv_def demo_trx_def demo_ops_def max_trx_id_def split: if_splits intro!: trx_invI)

text \<open>
  C15: (commit) The commit of a transaction whose operations are each made once returns, and every transaction that starts
  afterwards sees the rows it inserted, does not see the rows it deleted, and sees the other rows as it would have before.
\<close>

theorem commit_publishes:
  assumes "mvcc_inv (act, s)" and "act u = Some x" and "ops_ok (operations x)" and "current_trx_id s + 1 < t" and "t < max_trx_id"
  shows "\<exists>act' s'. run_call (u, Tc_commit) (act, s) = Some (act', s') \<and> act' = act(u := None) \<and>
    (\<forall>tab rid r. find_row (tabs s) tab rid = Some r \<longrightarrow>
       view t (tabs s') tab rid =
         (if Operation OP_DELETE tab rid \<in> set (operations x) then None
          else if Operation OP_INSERT tab rid \<in> set (operations x) then Some (row_data r) else view t (tabs s) tab rid))"
proof -
  have n: "current_trx_id s + 1 < max_trx_id" using assms(4,5) by simp
  obtain act' s' where run: "run_call (u, Tc_commit) (act, s) = Some (act', s')" using commit_returns [OF assms(1-3) n] .
  obtain y where y: "act u = Some y" "act' = act(u := None)" "current_trx_id s' = current_trx_id s + 1"
    "\<forall>tab rid. find_row (tabs s') tab rid = map_option (commit_row (current_trx_id s + 1) (set (operations y)) tab rid) (find_row (tabs s) tab rid)"
    using commit_effect [OF run assms(1)] n by auto
  have "y = x" using y(1) assms(2) by simp
  then show ?thesis using run y(2,4) commit_view [OF assms(1,2,4,5)] by (simp add: view_seen)
qed

lemma commit_publishes_witness:
  "\<exists>act' s'. run_call (3, Tc_commit) demo_state = Some (act', s') \<and>
     view 5 (tabs s') 0 (RID 1 0) = None \<and> view 5 (tabs s') 0 (RID 1 1) = Some [9]"
proof -
  obtain act' s' where "run_call (3, Tc_commit) demo_state = Some (act', s')"
    "\<forall>tab rid r. find_row (tabs (snd demo_state)) tab rid = Some r \<longrightarrow>
       view 5 (tabs s') tab rid =
         (if Operation OP_DELETE tab rid \<in> set demo_ops then None
          else if Operation OP_INSERT tab rid \<in> set demo_ops then Some (row_data r) else view 5 (tabs (snd demo_state)) tab rid)"
    using commit_publishes [of "fst demo_state" "snd demo_state" 3 "demo_trx 3 demo_ops" 5] demo_inv
    by (auto simp: demo_state_def demo_trx_def demo_ops_def max_trx_id_def)
  then show ?thesis by (auto simp: demo_state_def demo_ops_def)
qed

section \<open>Runs of interleaved transactions\<close>

text \<open>
  A call by an active transaction; a transaction does not delete a row that it has inserted and deleted. What the log returns is
  success throughout.
\<close>

fun call_sound :: "int \<times> trx_call \<Rightarrow> mvcc_state \<Rightarrow> bool" where
  "call_sound (u, Tc_start) (act, s) = True"
| "call_sound (u, Tc_delete t rid) (act, s) =
     (act u \<noteq> None \<and> (case find_row (tabs s) t rid of None \<Rightarrow> True | Some r \<Rightarrow> \<not> (begin_xid r = - u \<and> end_xid r = - u)))"
| "call_sound (u, _) (act, s) = (act u \<noteq> None)"

fun calls_sound :: "(int \<times> trx_call) list \<Rightarrow> mvcc_state \<Rightarrow> bool" where
  "calls_sound [] st = True"
| "calls_sound (x # xs) st =
     (call_legal x st \<and> call_sound x st \<and> (case run_call x st of None \<Rightarrow> True | Some st' \<Rightarrow> calls_sound xs st'))"

definition run_inv :: "mvcc_state \<Rightarrow> bool" where
  "run_inv st \<longleftrightarrow> mvcc_inv st \<and> (\<forall>u x. fst st u = Some x \<longrightarrow> ops_ok (operations x)) \<and> log_script (snd st) = []"

lemma next_rc_ok [simp]: "log_script s = [] \<Longrightarrow> next_rc s = (SUCCESS, s)"
  by (simp add: next_rc_def)

lemma append_payload_ok [simp]: "log_script s = [] \<Longrightarrow> append_payload bs s = (SUCCESS, s\<lparr>trx_log := trx_log s @ [bs]\<rparr>)"
  by (simp add: append_payload_def)

lemma log_record_ok [simp]:
  "log_script s = [] \<Longrightarrow> 0 < u \<Longrightarrow> log_record ty u t rid s = Some (SUCCESS, s\<lparr>trx_log := trx_log s @ [record_log_entry ty u t rid]\<rparr>)"
  by (simp add: log_record_def)

lemma log_commit_ok [simp]:
  "log_script s = [] \<Longrightarrow> 0 < u \<Longrightarrow> u < c \<Longrightarrow> log_commit u c s = Some (SUCCESS, s\<lparr>trx_log := trx_log s @ [commit_log_entry COMMIT u c]\<rparr>)"
  by (simp add: log_commit_def)

lemma log_rollback_ok [simp]:
  "log_script s = [] \<Longrightarrow> 0 < u \<Longrightarrow> log_rollback j u s = Some (SUCCESS, s\<lparr>trx_log := trx_log s @ [commit_log_entry ROLLBACK u j]\<rparr>)"
  by (simp add: log_rollback_def)

lemma start_returns:
  assumes "run_inv (act, s)" and "call_legal (u, Tc_start) (act, s)"
  obtains act' s' where "run_call (u, Tc_start) (act, s) = Some (act', s')" "run_inv (act', s')"
proof -
  have inv: "mvcc_inv (act, s)" using assms(1) by (simp add: run_inv_def)
  have n: "next_trx_id s = (current_trx_id s + 1, s\<lparr>current_trx_id := current_trx_id s + 1\<rparr>)"
    using next_trx_id_fits [OF mvcc_invD(1) [OF inv]] assms(2) by simp
  let ?x = "new_trx\<lparr>trx_id := current_trx_id s + 1, started := True\<rparr>"
  have run: "run_call (u, Tc_start) (act, s) = Some (act(current_trx_id s + 1 \<mapsto> ?x), s\<lparr>current_trx_id := current_trx_id s + 1\<rparr>)"
    by (simp add: start_if_need_def new_trx_def n)
  have "run_inv (act(current_trx_id s + 1 \<mapsto> ?x), s\<lparr>current_trx_id := current_trx_id s + 1\<rparr>)"
    using start_inv [OF inv assms(2) run] assms(1) by (simp add: run_inv_def new_trx_def)
  then show thesis using that run by blast
qed

lemma insert_returns:
  assumes "run_inv (act, s)" and "call_legal (u, Tc_insert t data rid) (act, s)" and "act u = Some x"
  obtains act' s' where "run_call (u, Tc_insert t data rid) (act, s) = Some (act', s')" "run_inv (act', s')"
proof -
  have inv: "mvcc_inv (act, s)" "log_script s = []" "ops_ok (operations x)" using assms(1,3) by (simp_all add: run_inv_def)
  note tx = trx_invD [OF mvcc_invD(4) [OF inv(1) assms(3)]]
  let ?x = "x\<lparr>operations := operations x @ [Operation OP_INSERT t rid]\<rparr>"
  obtain s' where run: "run_call (u, Tc_insert t data rid) (act, s) = Some (act(u \<mapsto> ?x), s')" "log_script s' = []"
    using inv(2) tx(1,2) assms(3) by (simp add: mvcc_insert_record_def Let_def)
  have "find_row (tabs s) t rid = None" using assms(2) by simp
  then have "Operation OP_INSERT t rid \<notin> set (operations x)" "Operation OP_DELETE t rid \<notin> set (operations x)"
    using tx(6) [of t rid] tx(7) [of t rid] by auto
  then have "ops_ok (operations ?x)" using inv(3) by (simp add: ops_ok_snoc)
  then have "run_inv (act(u \<mapsto> ?x), s')"
    using insert_inv [OF inv(1) assms(2) run(1)] run(2) assms(1) by (simp add: run_inv_def)
  then show thesis using that run by blast
qed

lemma delete_returns:
  assumes "run_inv (act, s)" and "call_sound (u, Tc_delete t rid) (act, s)" and "act u = Some x"
  obtains act' s' where "run_call (u, Tc_delete t rid) (act, s) = Some (act', s')" "run_inv (act', s')"
proof -
  have inv: "mvcc_inv (act, s)" "log_script s = []" "ops_ok (operations x)" using assms(1,3) by (simp_all add: run_inv_def)
  note tx = trx_invD [OF mvcc_invD(4) [OF inv(1) assms(3)]]
  show thesis
  proof (cases "\<exists>r. find_row (tabs s) t rid = Some r \<and> visit_record u False r = SUCCESS")
    case False
    then have run: "run_call (u, Tc_delete t rid) (act, s) = Some (act, s)"
      using assms(3) tx(1) by (auto simp: mvcc_delete_record_def visit_row_def Let_def fun_upd_idem split: option.splits)
    then show thesis using that assms(1) by blast
  next
    case True
    then obtain r where r: "find_row (tabs s) t rid = Some r" "visit_record u False r = SUCCESS" by blast
    let ?x = "x\<lparr>operations := operations x @ [Operation OP_DELETE t rid]\<rparr>"
    obtain s' where run: "run_call (u, Tc_delete t rid) (act, s) = Some (act(u \<mapsto> ?x), s')" "log_script s' = []"
      using inv(2) tx(1,2) assms(3) r by (simp add: mvcc_delete_record_def visit_row_def Let_def)
    have "end_xid r \<noteq> - u" using visible_for_write [OF r(2) mvcc_invD(3) [OF inv(1) r(1)]] assms(2) r tx(2)
      by (auto simp: visit_record_def split: if_splits)
    then have "Operation OP_DELETE t rid \<notin> set (operations x)" using tx(7) [of t rid] r(1) by auto
    then have "ops_ok (operations ?x)" using inv(3) by (simp add: ops_ok_snoc)
    then have "run_inv (act(u \<mapsto> ?x), s')"
      using delete_inv [OF inv(1) run(1)] run(2) assms(1) by (simp add: run_inv_def)
    then show thesis using that run by blast
  qed
qed

lemma end_returns:
  assumes "run_inv (act, s)" and "act u = Some x" and "c = Tc_commit \<and> call_legal (u, c) (act, s) \<or> c = Tc_rollback"
  obtains act' s' where "run_call (u, c) (act, s) = Some (act', s')" "run_inv (act', s')"
  using assms(3)
proof
  assume c: "c = Tc_commit \<and> call_legal (u, c) (act, s)"
  have inv: "mvcc_inv (act, s)" "log_script s = []" "ops_ok (operations x)" using assms(1,2) by (simp_all add: run_inv_def)
  note tx = trx_invD [OF mvcc_invD(4) [OF inv(1) assms(2)]]
  have n: "current_trx_id s + 1 < max_trx_id" using c by auto
  obtain act' s' where run: "run_call (u, Tc_commit) (act, s) = Some (act', s')" using commit_returns [OF inv(1) assms(2) inv(3) n] .
  have "act' = act(u := None) \<and> log_script s' = []"
    using run tx(1-3,5) assms(2) inv(2) next_trx_id_fits [OF mvcc_invD(1) [OF inv(1)] n]
    by (auto simp: mvcc_commit_def commit_with_trx_id_def Let_def split: option.splits)
  then have "run_inv (act', s')"
    using commit_inv [OF inv(1) _ run] c assms(1) by (auto simp: run_inv_def split: if_splits)
  then show thesis using that run c by blast
next
  assume c: "c = Tc_rollback"
  have inv: "mvcc_inv (act, s)" "log_script s = []" "ops_ok (operations x)" using assms(1,2) by (simp_all add: run_inv_def)
  note tx = trx_invD [OF mvcc_invD(4) [OF inv(1) assms(2)]]
  obtain act' s' where run: "run_call (u, Tc_rollback) (act, s) = Some (act', s')" using rollback_returns [OF inv(1) assms(2) inv(3)] .
  have "act' = act(u := None) \<and> log_script s' = []"
    using run tx(1-3,5) assms(2) inv(2) by (auto simp: mvcc_rollback_def Let_def split: option.splits)
  then have "run_inv (act', s')"
    using rollback_inv [OF inv(1) run] assms(1) by (auto simp: run_inv_def split: if_splits)
  then show thesis using that run c by blast
qed

lemma run_call_returns:
  assumes "run_inv st" and "call_legal (u, c) st" and "call_sound (u, c) st"
  obtains st' where "run_call (u, c) st = Some st'" "run_inv st'"
proof -
  obtain act s where st: "st = (act, s)" by (cases st)
  show thesis
  proof (cases c)
    case Tc_start
    then show thesis using start_returns [of act s u] assms that unfolding st by metis
  next
    case (Tc_insert t data rid)
    then obtain x where "act u = Some x" using assms(3) unfolding st by auto
    then show thesis using insert_returns [of act s u t data rid x] assms that unfolding st Tc_insert by metis
  next
    case (Tc_delete t rid)
    then obtain x where "act u = Some x" using assms(3) unfolding st by auto
    then show thesis using delete_returns [of act s u t rid x] assms that unfolding st Tc_delete by metis
  next
    case Tc_commit
    then obtain x where "act u = Some x" using assms(3) unfolding st by auto
    then show thesis using end_returns [of act s u x Tc_commit] assms that unfolding st Tc_commit by metis
  next
    case Tc_rollback
    then obtain x where "act u = Some x" using assms(3) unfolding st by auto
    then show thesis using end_returns [of act s u x Tc_rollback] assms that unfolding st Tc_rollback by metis
  qed
qed

lemma run_calls_return:
  assumes "run_inv st" and "calls_sound cs st"
  shows "\<exists>st'. run_calls cs st = Some st' \<and> run_inv st'"
  using assms
proof (induction cs arbitrary: st)
  case Nil
  then show ?case by simp
next
  case (Cons x cs)
  obtain u c where x: "x = (u, c)" by (cases x)
  have sound: "call_legal (u, c) st" "call_sound (u, c) st" using Cons.prems(2) by (simp_all add: x)
  obtain st1 where st1: "run_call (u, c) st = Some st1" "run_inv st1" using run_call_returns [OF Cons.prems(1) sound] .
  have "calls_sound cs st1" using Cons.prems(2) st1(1) by (simp add: x)
  then show ?case using Cons.IH [OF st1(2)] st1(1) by (simp add: x)
qed

text \<open>
  C9: (run) Any sequence of calls of interleaved transactions, in which each call is made by an active transaction and none deletes
  a row that the same transaction has inserted and already deleted, runs to its end without a failed assertion, as long as the log
  accepts the entries. It keeps the invariant: a negative transaction field of a row names the active transaction that has the
  operation in its list, the row bears the mark of each operation in a list, and no identifier is ahead of the counter. The excluded
  delete is accepted by the code, whose commit then fails an assertion (\<open>own_delete_twice\<close>).
\<close>

theorem interleaving_safe:
  assumes "run_inv st" and "calls_sound cs st"
  shows "\<exists>st'. run_calls cs st = Some st' \<and> run_inv st'"
  by (rule run_calls_return [OF assms])

definition demo_calls :: "(int \<times> trx_call) list" where
  "demo_calls = [(4, Tc_start), (4, Tc_insert 0 [8] (RID 1 2)), (3, Tc_commit), (4, Tc_rollback)]"

lemmas demo_calls_simps = demo_calls_def demo_state_def demo_trx_def demo_ops_def demo_system_def find_row_def set_row_def max_trx_id_def
  next_trx_id_def start_if_need_def new_trx_def mvcc_insert_record_def mvcc_rollback_def mvcc_commit_def commit_with_trx_id_def commit_operation_def
  int32_of_fits [unfolded int_fits_def]

lemma demo_calls_sound: "calls_sound demo_calls demo_state"
  by (simp add: demo_calls_simps)

lemma interleaving_safe_witness: "\<exists>st'. run_calls demo_calls demo_state = Some st' \<and> run_inv st'"
  using interleaving_safe [OF _ demo_calls_sound] demo_inv by (simp add: run_inv_def demo_state_def demo_trx_def demo_ops_def)

section \<open>What a rollback restores\<close>

text \<open>
  A transaction \<open>u\<close> between its start and its rollback: it does not end, and its deletes are of current versions of rows. Without
  the last condition the rollback makes a row current whose delete was committed (\<open>stale_delete_resurrects\<close>).
\<close>

fun call_current :: "int \<Rightarrow> int \<times> trx_call \<Rightarrow> mvcc_state \<Rightarrow> bool" where
  "call_current u (v, Tc_delete t rid) (act, s) =
     (v = u \<longrightarrow> (case find_row (tabs s) t rid of
        None \<Rightarrow> True
      | Some r \<Rightarrow> visit_record u False r = SUCCESS \<longrightarrow> end_xid r = max_trx_id \<or> end_xid r < 0))"
| "call_current u (v, Tc_commit) st = (v \<noteq> u)"
| "call_current u (v, Tc_rollback) st = (v \<noteq> u)"
| "call_current u (v, c) st = True"

fun calls_current :: "int \<Rightarrow> (int \<times> trx_call) list \<Rightarrow> mvcc_state \<Rightarrow> bool" where
  "calls_current u [] st = True"
| "calls_current u (x # xs) st =
     (call_current u x st \<and> (case run_call x st of None \<Rightarrow> True | Some st' \<Rightarrow> calls_current u xs st'))"

definition operated :: "int \<Rightarrow> int \<Rightarrow> RID \<Rightarrow> mvcc_state \<Rightarrow> bool" where
  \<comment> \<open>transaction \<open>u\<close> has an operation on the row\<close>
  "operated u t rid st =
     (case fst st u of
        None \<Rightarrow> False
      | Some x \<Rightarrow> Operation OP_INSERT t rid \<in> set (operations x) \<or> Operation OP_DELETE t rid \<in> set (operations x))"

fun row_before :: "int \<Rightarrow> int \<Rightarrow> RID \<Rightarrow> (int \<times> trx_call) list \<Rightarrow> mvcc_state \<Rightarrow> row option" where
  \<comment> \<open>in the course of the calls, the row just before the first operation of \<open>u\<close> on it, or at the end when there is none\<close>
  "row_before u t rid [] st = find_row (tabs (snd st)) t rid"
| "row_before u t rid (x # xs) st =
     (case run_call x st of
        None \<Rightarrow> find_row (tabs (snd st)) t rid
      | Some st' \<Rightarrow> if operated u t rid st' then find_row (tabs (snd st)) t rid else row_before u t rid xs st')"

definition undone :: "int \<Rightarrow> row option \<Rightarrow> row option" where
  \<comment> \<open>the row without the marks of \<open>u\<close>\<close>
  "undone u x = (case x of
      None \<Rightarrow> None
    | Some r \<Rightarrow> if begin_xid r = - u then None else if end_xid r = - u then Some (r\<lparr>end_xid := max_trx_id\<rparr>) else Some r)"

definition marked :: "int \<Rightarrow> row option \<Rightarrow> bool" where
  "marked u x = (case x of None \<Rightarrow> False | Some r \<Rightarrow> begin_xid r = - u \<or> end_xid r = - u)"

lemma undone_unmarked: "\<not> marked u x \<Longrightarrow> undone u x = x"
  by (auto simp: undone_def marked_def split: option.split)

lemma operated_marked:
  assumes "mvcc_inv (act, s)" and "act u = Some x"
  shows "operated u t rid (act, s) = marked u (find_row (tabs s) t rid)"
proof (cases "find_row (tabs s) t rid")
  case None
  note tx = trx_invD(6,7) [OF mvcc_invD(4) [OF assms], of t rid]
  show ?thesis using tx None assms(2) by (auto simp: operated_def marked_def)
next
  case (Some r)
  then show ?thesis using own_marks [OF assms Some] assms(2) by (simp add: operated_def marked_def)
qed

lemma row_step:
  \<comment> \<open>what a call does to a row, as far as transaction \<open>u\<close> is concerned\<close>
  assumes inv: "mvcc_inv (act, s)" and legal: "call_legal (v, c) (act, s)" and cur: "call_current u (v, c) (act, s)"
    and u: "act u = Some x" and run: "run_call (v, c) (act, s) = Some (act', s')"
  shows "act' u \<noteq> None"
    and "marked u (find_row (tabs s) t rid) \<Longrightarrow>
      marked u (find_row (tabs s') t rid) \<and> undone u (find_row (tabs s') t rid) = undone u (find_row (tabs s) t rid)"
    and "\<not> marked u (find_row (tabs s) t rid) \<Longrightarrow> marked u (find_row (tabs s') t rid) \<Longrightarrow>
      undone u (find_row (tabs s') t rid) = find_row (tabs s) t rid"
proof -
  note d = mvcc_invD [OF inv]
  have up: "0 < u" using trx_invD(2) [OF d(4) [OF u]] .
  let ?a = "find_row (tabs s) t rid" and ?b = "find_row (tabs s') t rid"
  have all: "act' u \<noteq> None \<and> (marked u ?a \<longrightarrow> marked u ?b \<and> undone u ?b = undone u ?a) \<and>
      (\<not> marked u ?a \<longrightarrow> marked u ?b \<longrightarrow> undone u ?b = ?a)"
  proof (cases c)
    case Tc_start
    then show ?thesis using start_effect [of act s v act' s'] inv legal run u by auto
  next
    case (Tc_insert t' data rid')
    obtain y where e: "act v = Some y" "act' = act(v \<mapsto> y\<lparr>operations := operations y @ [Operation OP_INSERT t' rid']\<rparr>)"
      "tabs s' = set_row (tabs s) t' rid' (Some \<lparr>begin_xid = - v, end_xid = max_trx_id, row_data = data\<rparr>)"
      "current_trx_id s' = current_trx_id s" using insert_effect [OF run [unfolded Tc_insert] inv] .
    show ?thesis using legal Tc_insert e(2) u up unfolding e(3)
      by (auto simp: find_set_row marked_def undone_def max_trx_id_def)
  next
    case (Tc_delete t' rid')
    from run [unfolded Tc_delete] inv show ?thesis
    proof (cases rule: delete_effect)
      case none
      then show ?thesis using u by simp
    next
      case (deleted y r)
      have vp: "0 < v" using trx_invD(2) [OF d(4) [OF deleted(1)]] .
      note w = visible_for_write [OF deleted(3) d(3) [OF deleted(2)]]
      have own: "v = u \<Longrightarrow> end_xid r = max_trx_id \<or> end_xid r < 0" using cur Tc_delete deleted(2,3) by simp
      have mi: "end_xid r = begin_xid r" if "begin_xid r < 0" "end_xid r < 0" using marks_of_inserter [OF inv deleted(2) that] .
      have "marked u (Some r) \<longrightarrow> marked u (Some (r\<lparr>end_xid := - v\<rparr>)) \<and> undone u (Some (r\<lparr>end_xid := - v\<rparr>)) = undone u (Some r)"
        "\<not> marked u (Some r) \<longrightarrow> marked u (Some (r\<lparr>end_xid := - v\<rparr>)) \<longrightarrow> undone u (Some (r\<lparr>end_xid := - v\<rparr>)) = Some r"
        using w own mi up vp by (auto simp: marked_def undone_def)
      then show ?thesis using u unfolding deleted(4,5) find_set_row_Some [OF deleted(2)] by (auto simp: deleted(2))
    qed
  next
    case Tc_commit
    obtain y where e: "act v = Some y" "act' = act(v := None)"
      "\<forall>tab rid. find_row (tabs s') tab rid = map_option (commit_row (current_trx_id s + 1) (set (operations y)) tab rid) (find_row (tabs s) tab rid)"
      using commit_effect [OF run [unfolded Tc_commit] inv legal [unfolded Tc_commit]] by metis
    have v: "0 < v" "v \<noteq> u" using trx_invD(2) [OF d(4) [OF e(1)]] cur Tc_commit by auto
    show ?thesis
    proof (cases ?a)
      case (Some r)
      note m = own_marks [OF inv e(1) Some]
      have mi: "end_xid r = begin_xid r" if "begin_xid r < 0" "end_xid r < 0" using marks_of_inserter [OF inv Some that] .
      have b: "?b = Some (commit_row (current_trx_id s + 1) (set (operations y)) t rid r)" using e(3) Some by simp
      show ?thesis using mi v up u d(1) unfolding b Some commit_row_def m e(2) by (auto simp: marked_def undone_def)
    qed (use e u v in \<open>simp add: marked_def\<close>)
  next
    case Tc_rollback
    obtain y where e: "act v = Some y" "act' = act(v := None)"
      "\<forall>tab rid. find_row (tabs s') tab rid = rollback_row (set (operations y)) tab rid (find_row (tabs s) tab rid)"
      using rollback_effect [OF run [unfolded Tc_rollback] inv] by metis
    have v: "0 < v" "v \<noteq> u" using trx_invD(2) [OF d(4) [OF e(1)]] cur Tc_rollback by auto
    show ?thesis
    proof (cases ?a)
      case (Some r)
      note m = own_marks [OF inv e(1) Some]
      have mi: "end_xid r = begin_xid r" if "begin_xid r < 0" "end_xid r < 0" using marks_of_inserter [OF inv Some that] .
      have b: "?b = rollback_row (set (operations y)) t rid (Some r)" using e(3) Some by simp
      show ?thesis using mi v up u unfolding b Some rollback_row_def m e(2) by (auto simp: marked_def undone_def max_trx_id_def)
    qed (use e u v in \<open>auto simp: marked_def rollback_row_def\<close>)
  qed
  then show "act' u \<noteq> None" by simp
  show "marked u ?a \<Longrightarrow> marked u ?b \<and> undone u ?b = undone u ?a" using all by simp
  show "\<not> marked u ?a \<Longrightarrow> marked u ?b \<Longrightarrow> undone u ?b = ?a" using all by simp
qed

lemma undone_after_calls:
  assumes "mvcc_inv st" and "fst st u \<noteq> None" and "calls_sound cs st" and "calls_current u cs st" and "run_calls cs st = Some st'"
  shows "fst st' u \<noteq> None \<and> undone u (find_row (tabs (snd st')) t rid) =
    (if operated u t rid st then undone u (find_row (tabs (snd st)) t rid) else row_before u t rid cs st)"
  using assms
proof (induction cs arbitrary: st)
  case Nil
  obtain act s where st: "st = (act, s)" by (cases st)
  then show ?case using Nil operated_marked [of act s u _ t rid] undone_unmarked [of u "find_row (tabs s) t rid"] by auto
next
  case (Cons y cs)
  obtain act s where st: "st = (act, s)" by (cases st)
  obtain v c where y: "y = (v, c)" by (cases y)
  obtain act1 s1 where run: "run_call (v, c) (act, s) = Some (act1, s1)" and rest: "run_calls cs (act1, s1) = Some st'"
    using Cons.prems(5) unfolding st y by (auto split: option.splits)
  obtain x where x: "act u = Some x" using Cons.prems(2) by (auto simp: st)
  note inv = Cons.prems(1) [unfolded st]
  have c: "call_legal (v, c) (act, s)" "call_current u (v, c) (act, s)" "calls_sound cs (act1, s1)" "calls_current u cs (act1, s1)"
    using Cons.prems(3,4) run unfolding st y by simp_all
  note step = row_step [OF inv c(1,2) x run]
  note inv1 = run_call_inv [OF inv c(1) run]
  obtain x1 where x1: "act1 u = Some x1" using step(1) by blast
  have IH: "fst st' u \<noteq> None \<and> undone u (find_row (tabs (snd st')) t rid) =
      (if operated u t rid (act1, s1) then undone u (find_row (tabs s1) t rid) else row_before u t rid cs (act1, s1))"
    using Cons.IH [OF inv1] step(1) c(3,4) rest by simp
  show ?case
    using IH step(2,3) [of t rid] run by (auto simp: st y operated_marked [OF inv x] operated_marked [OF inv1 x1])
qed

lemma calls_then_rollback:
  "run_calls cs st = Some st1 \<Longrightarrow> run_call (u, Tc_rollback) st1 = Some st' \<Longrightarrow> run_calls (cs @ [(u, Tc_rollback)]) st = Some st'"
  by (induction cs arbitrary: st) (auto split: option.splits)

text \<open>
  C16: (rollback) Let a transaction without operations yet make any inserts and deletes, interleaved with the calls of the others, and
  then roll back: every call returns, and afterwards each row is as it was just before the first operation of the transaction on it,
  and as the others left it where there was none. The calls are those of \<open>calls_sound\<close>, and each delete of the transaction is
  of a current version: that of a row whose delete was committed is undone wrongly (\<open>stale_delete_resurrects\<close>).
\<close>

theorem rollback_undoes:
  assumes "run_inv st" and "fst st u = Some x" and "operations x = []" and "calls_sound cs st" and "calls_current u cs st"
  shows "\<exists>st'. run_calls (cs @ [(u, Tc_rollback)]) st = Some st' \<and> fst st' u = None \<and>
    (\<forall>t rid. find_row (tabs (snd st')) t rid = row_before u t rid cs st)"
proof -
  obtain act1 s1 where run: "run_calls cs st = Some (act1, s1)" "run_inv (act1, s1)"
    using run_calls_return [OF assms(1,4)] by (metis surj_pair)
  have inv: "mvcc_inv st" "mvcc_inv (act1, s1)" using assms(1) run(2) by (simp_all add: run_inv_def)
  have "fst st u \<noteq> None" using assms(2) by simp
  note un = undone_after_calls [OF inv(1) this assms(4,5) run(1), unfolded fst_conv snd_conv]
  obtain x1 where x1: "act1 u = Some x1" using un by blast
  have "ops_ok (operations x1)" using run(2) x1 by (simp add: run_inv_def)
  then obtain act' s' where rb: "run_call (u, Tc_rollback) (act1, s1) = Some (act', s')" using rollback_returns [OF inv(2) x1] by blast
  obtain y where e: "act1 u = Some y" "act' = act1(u := None)"
    "\<forall>t rid. find_row (tabs s') t rid = rollback_row (set (operations y)) t rid (find_row (tabs s1) t rid)"
    using rollback_effect [OF rb inv(2)] by metis
  have "find_row (tabs s') t rid = undone u (find_row (tabs s1) t rid)" for t rid
  proof (cases "find_row (tabs s1) t rid")
    case (Some r)
    then show ?thesis using own_marks [OF inv(2) e(1) Some] e(3) by (simp add: rollback_row_def undone_def)
  qed (use e(3) in \<open>simp add: rollback_row_def undone_def\<close>)
  moreover have "\<not> operated u t rid st" for t rid using assms(2,3) by (simp add: operated_def)
  ultimately have "\<forall>t rid. find_row (tabs s') t rid = row_before u t rid cs st" using un by simp
  then show ?thesis using calls_then_rollback [OF run(1) rb] e(2) by auto
qed

text \<open>Transaction 3 inserts a row and deletes another, while transaction 2 inserts a third and commits.\<close>

definition undo_state :: mvcc_state where
  "undo_state = ([2 \<mapsto> demo_trx 2 [], 3 \<mapsto> demo_trx 3 []], demo_system 3 [RID 1 0 \<mapsto> \<lparr>begin_xid = 1, end_xid = max_trx_id, row_data = [7]\<rparr>])"

definition undo_calls :: "(int \<times> trx_call) list" where
  "undo_calls = [(3, Tc_insert 0 [9] (RID 1 1)), (2, Tc_insert 0 [8] (RID 1 2)), (3, Tc_delete 0 (RID 1 0)), (2, Tc_commit)]"

lemmas undo_simps = undo_calls_def undo_state_def demo_calls_simps mvcc_delete_record_def visit_row_def visit_record_def

lemma undo_inv: "run_inv undo_state"
proof -
  have "mvcc_inv undo_state" unfolding undo_state_def
    by (rule mvcc_invI) (auto simp: row_inv_def demo_trx_def max_trx_id_def split: if_splits intro!: trx_invI)
  then show ?thesis by (simp add: run_inv_def undo_state_def demo_trx_def)
qed

lemma undo_calls_ok: "calls_sound undo_calls undo_state" "calls_current 3 undo_calls undo_state"
  by (simp_all add: undo_simps)

lemma undo_rows:
  "row_before 3 0 (RID 1 0) undo_calls undo_state = Some \<lparr>begin_xid = 1, end_xid = max_trx_id, row_data = [7]\<rparr>"
  "row_before 3 0 (RID 1 1) undo_calls undo_state = None"
  "row_before 3 0 (RID 1 2) undo_calls undo_state = Some \<lparr>begin_xid = 4, end_xid = max_trx_id, row_data = [8]\<rparr>"
  by (simp_all add: undo_simps operated_def)

lemma rollback_undoes_witness:
  "\<exists>st'. run_calls (undo_calls @ [(3, Tc_rollback)]) undo_state = Some st' \<and>
     find_row (tabs (snd st')) 0 (RID 1 0) = Some \<lparr>begin_xid = 1, end_xid = max_trx_id, row_data = [7]\<rparr> \<and>
     find_row (tabs (snd st')) 0 (RID 1 1) = None \<and>
     find_row (tabs (snd st')) 0 (RID 1 2) = Some \<lparr>begin_xid = 4, end_xid = max_trx_id, row_data = [8]\<rparr>"
proof -
  have "fst undo_state 3 = Some (demo_trx 3 [])" "operations (demo_trx 3 []) = []" by (simp_all add: undo_state_def demo_trx_def)
  from rollback_undoes [OF undo_inv this undo_calls_ok] show ?thesis by (auto simp: undo_rows)
qed

text \<open>
  C3: (isolation) What a transaction sees is not changed by the calls of the others: their inserts and deletes, while they are
  active and when they commit or roll back, do not change any row it reads. The calls are those described at \<open>call_isolated\<close>.
\<close>

theorem isolation:
  assumes "mvcc_inv st" and "calls_isolated t cs st" and "pending_old t (tabs (snd st))" and "0 < t" and "t \<le> current_trx_id (snd st)"
    and "run_calls cs st = Some st'"
  shows "view t (tabs (snd st')) = view t (tabs (snd st))"
  using run_calls_view [OF assms] by (intro ext)

lemma demo_calls_isolated: "calls_isolated 2 demo_calls demo_state"
  by (simp add: demo_calls_simps)

lemma isolation_witness:
  "\<exists>st'. run_calls demo_calls demo_state = Some st' \<and> view 2 (tabs (snd st')) 0 (RID 1 0) = Some [7]"
proof -
  obtain st' where run: "run_calls demo_calls demo_state = Some st'"
    by (simp add: demo_calls_simps)
  have "view 2 (tabs (snd st')) = view 2 (tabs (snd demo_state))"
    by (rule isolation [OF demo_inv demo_calls_isolated _ _ _ run]) (auto simp: pending_old_def demo_state_def max_trx_id_def split: if_splits)
  moreover have "view 2 (tabs (snd demo_state)) 0 (RID 1 0) = Some [7]"
    by (simp add: view_seen demo_state_def seen_def visit_record_def)
  ultimately show ?thesis using run by simp
qed

section \<open>The transaction log read back\<close>

lemma int32_fits: "int_fits 32 v \<longleftrightarrow> - 2147483648 \<le> v \<and> v < 2147483648"
  by (simp add: int_fits_def)

lemma record_log_entry_fields:
  assumes "int_fits 32 tid" "int_fits 32 t" "int_fits 32 (page_num rid)" "int_fits 32 (slot_num rid)"
  shows "length (record_log_entry ty tid t rid) = 20"
    and "bytes_int (slice (record_log_entry ty tid t rid) 0 4) = log_type_index ty"
    and "bytes_int (slice (record_log_entry ty tid t rid) 4 4) = tid"
    and "bytes_int (slice (record_log_entry ty tid t rid) 8 4) = t"
    and "bytes_int (slice (record_log_entry ty tid t rid) 12 4) = page_num rid"
    and "bytes_int (slice (record_log_entry ty tid t rid) 16 4) = slot_num rid"
  using assms by (cases ty; simp add: record_log_entry_def slice_def bytes_int_bytes int32_fits)+

lemma log_type_of_index [simp]: "log_type_of (log_type_index ty) = Some ty"
  by (cases ty) (simp_all add: log_type_of_def)

text \<open>
  C34: (redo) What the redo function reads out of a logged insert or delete is the operation that the transaction had added to
  its list when it wrote the entry.
\<close>

theorem logged_operation_redone:
  assumes "int_fits 32 tid" "int_fits 32 t" "int_fits 32 (page_num rid)" "int_fits 32 (slot_num rid)" and "ts t \<noteq> None"
  shows "mvcc_redo ts (record_log_entry INSERT_RECORD tid t rid) x =
      Some (SUCCESS, x\<lparr>operations := operations x @ [Operation OP_INSERT t rid]\<rparr>) \<and>
    mvcc_redo ts (record_log_entry DELETE_RECORD tid t rid) x =
      Some (SUCCESS, x\<lparr>operations := operations x @ [Operation OP_DELETE t rid]\<rparr>)"
  using assms by (simp add: mvcc_redo_def record_log_entry_fields log_type_of_def Let_def)

lemma logged_operation_redone_witness:
  "mvcc_redo [5 \<mapsto> Map.empty] (record_log_entry DELETE_RECORD 3 5 (RID 1 2)) (demo_trx 3 []) =
     Some (SUCCESS, demo_trx 3 [Operation OP_DELETE 5 (RID 1 2)])"
  using logged_operation_redone [of 3 5 "RID 1 2" "[5 \<mapsto> Map.empty]" "demo_trx 3 []"] by (simp add: demo_trx_def int32_fits)

section \<open>Where the code falls short\<close>

text \<open>
  The replayer never enters a transaction in its map, so that the map stays empty and \<^verbatim>\<open>on_done\<close> rolls nothing back: replay
  changes no row, whatever the log holds, and the changes of unfinished transactions that reached the disk stay.
\<close>

lemma replay_forgets_transactions:
  "trx_map rp = [] \<Longrightarrow> mvcc_replay e (rp, s) = Some (rc, rp', s') \<Longrightarrow> trx_map rp' = [] \<and> tabs s' = tabs s"
  by (auto simp: mvcc_replay_def create_trx_with_id_def destroy_trx_def Let_def split: if_splits option.splits)

lemma replay_rolls_nothing_back:
  assumes "trx_map rp = []" and "mvcc_replay_all es (rp, s) = Some (rc, rp', s')"
  shows "tabs s' = tabs s \<and> mvcc_on_done junk (rp', s') = Some (SUCCESS, rp', s')"
  using assms
proof (induction es arbitrary: rp s)
  case Nil
  then show ?case by (simp add: mvcc_on_done_def)
next
  case (Cons e es)
  obtain rc1 rp1 s1 where step: "mvcc_replay e (rp, s) = Some (rc1, rp1, s1)"
    and rest: "if OB_FAIL rc1 then (rc1, rp1, s1) = (rc, rp', s') else mvcc_replay_all es (rp1, s1) = Some (rc, rp', s')"
    using Cons.prems(2) by (auto split: option.splits if_splits)
  have keep: "trx_map rp1 = []" "tabs s1 = tabs s" using replay_forgets_transactions [OF Cons.prems(1) step] by simp_all
  show ?case
  proof (cases "OB_FAIL rc1")
    case True
    then show ?thesis using rest keep by (simp add: mvcc_on_done_def)
  next
    case False
    then show ?thesis using Cons.IH [OF keep(1)] rest keep(2) by simp
  qed
qed

definition trx_entry :: "byte list \<Rightarrow> LogEntry" where
  "trx_entry bs = \<lparr>le_header = \<lparr>h_lsn = 1, h_size = int (length bs), h_module_id = 3\<rparr>, le_data = bs\<rparr>"

text \<open>
  The commit identifiers in the log are not read. After a restart the counter can be behind them, and then a committed row is
  not visible to the next transactions.
\<close>

lemma commit_id_forgotten:
  "map_option (\<lambda>(rc, rp, s). (rc, fst (next_trx_id s)))
      (mvcc_replay_all [trx_entry (commit_log_entry COMMIT 2 5)] (\<lparr>trx_map = []\<rparr>, demo_system 0 Map.empty)) = Some (SUCCESS, 3) \<and>
    visit_record 3 True \<lparr>begin_xid = 5, end_xid = max_trx_id, row_data = []\<rparr> = RECORD_INVISIBLE"
proof -
  have "bytes_int (slice (commit_log_entry COMMIT 2 5) 0 4) = 2" "bytes_int (slice (commit_log_entry COMMIT 2 5) 4 4) = 2"
    "length (commit_log_entry COMMIT 2 5) = 12"
    by (simp_all add: commit_log_entry_def slice_def bytes_int_bytes int32_fits)
  then show ?thesis
    by (simp add: trx_entry_def mvcc_replay_def payload_size_def mvcc_redo_def log_type_of_def create_trx_with_id_def destroy_trx_def
        demo_system_def next_trx_id_def int32_of_fits int_fits_def visit_record_def max_trx_id_def Let_def)
qed

text \<open>
  A row that was committed after transaction 2 started becomes visible to it while transaction 5 is deleting it: the branch for a
  pending delete does not look at \<^verbatim>\<open>begin_xid\<close>. Hence the condition on \<open>begin_xid\<close> in \<open>call_isolated\<close>.
\<close>

lemma pending_delete_reveals_newer_row:
  "visit_record 2 True \<lparr>begin_xid = 4, end_xid = max_trx_id, row_data = d\<rparr> = RECORD_INVISIBLE \<and>
   visit_record 2 True \<lparr>begin_xid = 4, end_xid = - 5, row_data = d\<rparr> = SUCCESS"
  by (simp add: visit_record_def max_trx_id_def)

text \<open>
  A transaction that started before the delete of a row was committed may delete the row again, without an error; when it
  rolls back, the row is there again for everyone. Hence the condition on \<open>end_xid\<close> in \<open>call_isolated\<close>.
\<close>

definition stale_delete_state :: mvcc_state where
  "stale_delete_state = ([2 \<mapsto> demo_trx 2 []], demo_system 4 [RID 1 0 \<mapsto> \<lparr>begin_xid = 1, end_xid = 4, row_data = [7]\<rparr>])"

lemma stale_delete_resurrects:
  "view 5 (tabs (snd stale_delete_state)) 0 (RID 1 0) = None \<and>
   (case run_calls [(2, Tc_delete 0 (RID 1 0)), (2, Tc_rollback)] stale_delete_state of
      None \<Rightarrow> False | Some (act, s) \<Rightarrow> view 5 (tabs s) 0 (RID 1 0) = Some [7])"
  by (simp add: stale_delete_state_def demo_calls_simps view_def visit_record_def mvcc_delete_record_def visit_row_def)

text \<open>
  A row that a transaction has inserted and deleted is still visible to it; it can delete the row again, and the assertion in its
  commit then fails. Hence the condition in \<open>call_sound\<close>.
\<close>

definition own_delete_state :: mvcc_state where
  "own_delete_state = ([3 \<mapsto> demo_trx 3 []], demo_system 3 Map.empty)"

lemma own_delete_twice:
  "(case run_calls [(3, Tc_insert 0 [7] (RID 1 0)), (3, Tc_delete 0 (RID 1 0))] own_delete_state of
      None \<Rightarrow> False | Some (act, s) \<Rightarrow> view 3 (tabs s) 0 (RID 1 0) = Some [7]) \<and>
   run_calls [(3, Tc_insert 0 [7] (RID 1 0)), (3, Tc_delete 0 (RID 1 0)), (3, Tc_delete 0 (RID 1 0)), (3, Tc_commit)] own_delete_state = None"
  by (simp add: own_delete_state_def demo_calls_simps view_def visit_record_def mvcc_delete_record_def visit_row_def)

text \<open>
  In recovery, an insert whose row is gone is skipped but leaves \<^verbatim>\<open>rc\<close> at \<^verbatim>\<open>RECORD_NOT_EXIST\<close>, and the assertion of the next
  delete of the transaction fails although its row is there.
\<close>

lemma skipped_insert_breaks_rollback:
  "rollback_operations 3 True [Operation OP_INSERT 0 (RID 1 1), Operation OP_DELETE 0 (RID 1 0)] SUCCESS
     [0 \<mapsto> [RID 1 0 \<mapsto> \<lparr>begin_xid = 1, end_xid = - 3, row_data = [7]\<rparr>]] = None"
  by (simp add: find_row_def)

end
