(* ===== verification/Bplus_Node.thy ===== *)
theory Bplus_Node
  imports Record_Page Lower_Bound "HOL-Library.Monad_Syntax"
begin

text \<open>
  The nodes of the B+ tree (\<^verbatim>\<open>src/src/observer/storage/index/bplus_tree.h\<close>, \<^verbatim>\<open>bplus_tree.cpp\<close>): \<^verbatim>\<open>IndexNodeHandler\<close>,
  \<^verbatim>\<open>LeafIndexNodeHandler\<close> and \<^verbatim>\<open>InternalIndexNodeHandler\<close>, with the log entries that each change of a node makes
  (\<^verbatim>\<open>bplus_tree_log.cpp\<close>, \<^verbatim>\<open>bplus_tree_log_entry.cpp\<close>).

  A node is its header and the list of its items; the value of an item is a RID in a leaf and a page number in an internal
  node. Nodes live in the pages of the index file, the map \<open>nodes\<close>; a frame is the number of its page. An operation whose index
  is outside the node, or that follows a page without a node, has no result. Latches and pins are not modelled, and the
  buffer pool reads every page of the file without error; it hands out the least free page or extends the file, up to
  \<open>max_pages\<close>.
\<close>

section \<open>State\<close>

definition BP_INVALID_PAGE_NUM :: int where
  "BP_INVALID_PAGE_NUM = - 1"

type_synonym key = "byte list"

datatype node_value = Rid RID | Page int

type_synonym item = "key \<times> node_value"

record IndexNode =
  is_leaf :: bool
  parent :: int
  next_brother :: int
  items :: "item list"

record IndexFileHeader =
  root_page :: int
  internal_max_size :: nat
  leaf_max_size :: nat
  attr_length :: nat
  key_length :: nat

datatype LogEntryHandler =
    Update_root_page int int
  | Set_parent_page int int int
  | Leaf_init_empty int
  | Leaf_set_next_page int int int
  | Internal_init_empty int
  | Internal_create_new_root int int key int
  | Internal_update_key int nat key key
  | Node_insert int nat "item list"
  | Node_remove int nat "item list"

record BplusTree =
  file_header :: IndexFileHeader
  key_comparator :: "key \<Rightarrow> key \<Rightarrow> int"
  nodes :: "int \<rightharpoonup> IndexNode"
  free_pages :: "int list"
  page_count :: int
  max_pages :: int
  disposed_pages :: "int list"
  logged :: "LogEntryHandler list"
  wal :: "LogEntryHandler list list"

definition calc_internal_page_capacity :: "nat \<Rightarrow> nat" where
  "calc_internal_page_capacity len = (nat BP_PAGE_DATA_SIZE - 12) div (len + 8 + 4)"

definition calc_leaf_page_capacity :: "nat \<Rightarrow> nat" where
  "calc_leaf_page_capacity len = (nat BP_PAGE_DATA_SIZE - 16) div (len + 8 + 8)"

section \<open>Any node\<close>

abbreviation node_size :: "IndexNode \<Rightarrow> nat" where
  "node_size nd \<equiv> length (items nd)"

definition max_size :: "IndexFileHeader \<Rightarrow> IndexNode \<Rightarrow> nat" where
  "max_size h nd = (if is_leaf nd then leaf_max_size h else internal_max_size h)"

definition min_size :: "IndexFileHeader \<Rightarrow> IndexNode \<Rightarrow> nat" where
  "min_size h nd = max_size h nd - max_size h nd div 2"

datatype BplusTreeOperationType = READ | INSERT | DELETE

definition is_safe :: "IndexFileHeader \<Rightarrow> BplusTreeOperationType \<Rightarrow> bool \<Rightarrow> IndexNode \<Rightarrow> bool" where
  "is_safe h op is_root_node nd =
     (case op of
        READ \<Rightarrow> True
      | INSERT \<Rightarrow> node_size nd < max_size h nd
      | DELETE \<Rightarrow> if is_root_node then (if is_leaf nd then 1 < node_size nd else 2 < node_size nd)
                  else min_size h nd < node_size nd)"

definition node_validate :: "IndexNode \<Rightarrow> bool" where
  "node_validate nd =
     (if parent nd = BP_INVALID_PAGE_NUM
      then if node_size nd < 1 then False else if \<not> is_leaf nd \<and> node_size nd < 2 then False else True
      else True)"

definition recover_insert_items :: "nat \<Rightarrow> item list \<Rightarrow> IndexNode \<Rightarrow> IndexNode option" where
  "recover_insert_items index its nd =
     (if index \<le> node_size nd then Some (nd\<lparr>items := take index (items nd) @ its @ drop index (items nd)\<rparr>) else None)"

definition recover_remove_items :: "nat \<Rightarrow> nat \<Rightarrow> IndexNode \<Rightarrow> IndexNode option" where
  "recover_remove_items index num nd =
     (if index + num \<le> node_size nd then Some (nd\<lparr>items := take index (items nd) @ drop (index + num) (items nd)\<rparr>) else None)"

definition mtr_log :: "LogEntryHandler \<Rightarrow> BplusTree \<Rightarrow> BplusTree" where
  "mtr_log e s = s\<lparr>logged := logged s @ [e]\<rparr>"

definition put_node :: "int \<Rightarrow> IndexNode \<Rightarrow> BplusTree \<Rightarrow> BplusTree" where
  "put_node pn nd s = s\<lparr>nodes := (nodes s)(pn \<mapsto> nd)\<rparr>"

definition set_parent_page_num :: "int \<Rightarrow> int \<Rightarrow> BplusTree \<Rightarrow> BplusTree option" where
  "set_parent_page_num pn p s = do {
     nd \<leftarrow> nodes s pn;
     Some (put_node pn (nd\<lparr>parent := p\<rparr>) (mtr_log (Set_parent_page pn p (parent nd)) s))
   }"

definition node_insert_items :: "int \<Rightarrow> nat \<Rightarrow> item list \<Rightarrow> BplusTree \<Rightarrow> BplusTree option" where
  \<comment> \<open>logs the items, then inserts them\<close>
  "node_insert_items pn index its s = do {
     nd \<leftarrow> nodes s pn;
     nd' \<leftarrow> recover_insert_items index its nd;
     Some (put_node pn nd' (mtr_log (Node_insert pn index its) s))
   }"

definition node_remove_items :: "int \<Rightarrow> nat \<Rightarrow> nat \<Rightarrow> BplusTree \<Rightarrow> BplusTree option" where
  "node_remove_items pn index num s = do {
     nd \<leftarrow> nodes s pn;
     nd' \<leftarrow> recover_remove_items index num nd;
     Some (put_node pn nd' (mtr_log (Node_remove pn index (take num (drop index (items nd)))) s))
   }"

section \<open>Leaves\<close>

definition leaf_init_empty :: "int \<Rightarrow> BplusTree \<Rightarrow> BplusTree" where
  "leaf_init_empty pn s =
     put_node pn \<lparr>is_leaf = True, parent = BP_INVALID_PAGE_NUM, next_brother = BP_INVALID_PAGE_NUM, items = []\<rparr>
       (mtr_log (Leaf_init_empty pn) s)"

definition set_next_page :: "int \<Rightarrow> int \<Rightarrow> BplusTree \<Rightarrow> BplusTree option" where
  "set_next_page pn n s = do {
     nd \<leftarrow> nodes s pn;
     Some (put_node pn (nd\<lparr>next_brother := n\<rparr>) (mtr_log (Leaf_set_next_page pn n (next_brother nd)) s))
   }"

definition key_at :: "IndexNode \<Rightarrow> nat \<Rightarrow> key option" where
  "key_at nd i = (if i < node_size nd then Some (fst (items nd ! i)) else None)"

definition leaf_value_at :: "IndexNode \<Rightarrow> nat \<Rightarrow> RID option" where
  "leaf_value_at nd i = (if i < node_size nd then (case snd (items nd ! i) of Rid r \<Rightarrow> Some r | Page _ \<Rightarrow> None) else None)"

definition leaf_lookup :: "(key \<Rightarrow> key \<Rightarrow> int) \<Rightarrow> IndexNode \<Rightarrow> key \<Rightarrow> nat \<times> bool" where
  "leaf_lookup cmp nd k = lower_bound (\<lambda>x. cmp (fst x)) (items nd) k"

definition leaf_insert :: "int \<Rightarrow> nat \<Rightarrow> key \<Rightarrow> RID \<Rightarrow> BplusTree \<Rightarrow> BplusTree option" where
  "leaf_insert pn index k rid s = node_insert_items pn index [(k, Rid rid)] s"

definition node_remove_at :: "int \<Rightarrow> nat \<Rightarrow> BplusTree \<Rightarrow> BplusTree option" where
  \<comment> \<open>\<^verbatim>\<open>remove(index)\<close> of leaves and of internal nodes\<close>
  "node_remove_at pn index s = do {
     nd \<leftarrow> nodes s pn;
     if index < node_size nd then node_remove_items pn index 1 s else None
   }"

definition leaf_remove_key :: "int \<Rightarrow> key \<Rightarrow> BplusTree \<Rightarrow> (nat \<times> BplusTree) option" where
  "leaf_remove_key pn k s = do {
     nd \<leftarrow> nodes s pn;
     case leaf_lookup (key_comparator s) nd k of
       (index, found) \<Rightarrow>
         if found then do { s' \<leftarrow> node_remove_at pn index s; Some (1, s') } else Some (0, s)
   }"

definition leaf_append :: "int \<Rightarrow> item list \<Rightarrow> BplusTree \<Rightarrow> BplusTree option" where
  "leaf_append pn its s = do { nd \<leftarrow> nodes s pn; node_insert_items pn (node_size nd) its s }"

definition leaf_preappend :: "int \<Rightarrow> item \<Rightarrow> BplusTree \<Rightarrow> BplusTree option" where
  "leaf_preappend pn it s = node_insert_items pn 0 [it] s"

definition leaf_move_half_to :: "int \<Rightarrow> int \<Rightarrow> BplusTree \<Rightarrow> BplusTree option" where
  "leaf_move_half_to pn other s = do {
     nd \<leftarrow> nodes s pn;
     let move_index = node_size nd div 2;
     s1 \<leftarrow> leaf_append other (drop move_index (items nd)) s;
     node_remove_items pn move_index (node_size nd - move_index) s1
   }"

definition leaf_move_first_to_end :: "int \<Rightarrow> int \<Rightarrow> BplusTree \<Rightarrow> BplusTree option" where
  "leaf_move_first_to_end pn other s = do {
     nd \<leftarrow> nodes s pn;
     if items nd = [] then None
     else do { s1 \<leftarrow> leaf_append other [hd (items nd)] s; node_remove_at pn 0 s1 }
   }"

definition leaf_move_last_to_front :: "int \<Rightarrow> int \<Rightarrow> BplusTree \<Rightarrow> BplusTree option" where
  "leaf_move_last_to_front pn other s = do {
     nd \<leftarrow> nodes s pn;
     if items nd = [] then None
     else do { s1 \<leftarrow> leaf_preappend other (last (items nd)) s; node_remove_at pn (node_size nd - 1) s1 }
   }"

definition leaf_move_to :: "int \<Rightarrow> int \<Rightarrow> BplusTree \<Rightarrow> BplusTree option" where
  "leaf_move_to pn other s = do {
     nd \<leftarrow> nodes s pn;
     s1 \<leftarrow> leaf_append other (items nd) s;
     s2 \<leftarrow> set_next_page other (next_brother nd) s1;
     node_remove_items pn 0 (node_size nd) s2
   }"

section \<open>Internal nodes\<close>

definition internal_init_empty :: "int \<Rightarrow> BplusTree \<Rightarrow> BplusTree" where
  "internal_init_empty pn s =
     put_node pn \<lparr>is_leaf = False, parent = BP_INVALID_PAGE_NUM, next_brother = BP_INVALID_PAGE_NUM, items = []\<rparr>
       (mtr_log (Internal_init_empty pn) s)"

definition internal_create_new_root :: "int \<Rightarrow> int \<Rightarrow> key \<Rightarrow> int \<Rightarrow> BplusTree \<Rightarrow> BplusTree option" where
  "internal_create_new_root pn first_page k page s = do {
     nd \<leftarrow> nodes s pn;
     if items nd \<noteq> [] then None
     else Some (put_node pn
            (nd\<lparr>items := [(replicate (key_length (file_header s)) 0, Page first_page), (k, Page page)]\<rparr>)
            (mtr_log (Internal_create_new_root pn first_page k page) s))
   }"

definition internal_lookup :: "(key \<Rightarrow> key \<Rightarrow> int) \<Rightarrow> IndexNode \<Rightarrow> key \<Rightarrow> nat \<times> nat" where
  \<comment> \<open>the index of the child for the key, and where the key would be inserted\<close>
  "internal_lookup cmp nd k =
     (if node_size nd = 0 then (0, 1)
      else let ret = fst (lower_bound (\<lambda>x. cmp (fst x)) (tl (items nd)) k) + 1
           in (if node_size nd \<le> ret \<or> cmp k (fst (items nd ! ret)) < 0 then ret - 1 else ret, ret))"

definition value_at :: "IndexNode \<Rightarrow> nat \<Rightarrow> int option" where
  "value_at nd i = (if i < node_size nd then (case snd (items nd ! i) of Page p \<Rightarrow> Some p | Rid _ \<Rightarrow> None) else None)"

definition value_index :: "IndexNode \<Rightarrow> int \<Rightarrow> int" where
  "value_index nd pn =
     (case find (\<lambda>i. snd (items nd ! i) = Page pn) [0 ..< node_size nd] of None \<Rightarrow> - 1 | Some i \<Rightarrow> int i)"

definition internal_insert :: "int \<Rightarrow> key \<Rightarrow> int \<Rightarrow> BplusTree \<Rightarrow> BplusTree option" where
  "internal_insert pn k page s = do {
     nd \<leftarrow> nodes s pn;
     node_insert_items pn (snd (internal_lookup (key_comparator s) nd k)) [(k, Page page)] s
   }"

definition set_key_at :: "int \<Rightarrow> nat \<Rightarrow> key \<Rightarrow> BplusTree \<Rightarrow> BplusTree option" where
  "set_key_at pn i k s = do {
     nd \<leftarrow> nodes s pn;
     old \<leftarrow> key_at nd i;
     Some (put_node pn (nd\<lparr>items := (items nd)[i := (k, snd (items nd ! i))]\<rparr>) (mtr_log (Internal_update_key pn i k old) s))
   }"

fun set_parents :: "int \<Rightarrow> item list \<Rightarrow> BplusTree \<Rightarrow> BplusTree option" where
  \<comment> \<open>the loop over the children in \<^verbatim>\<open>insert_items\<close>\<close>
  "set_parents pn [] s = Some s"
| "set_parents pn ((_, Page c) # its) s = do { s1 \<leftarrow> set_parent_page_num c pn s; set_parents pn its s1 }"
| "set_parents pn ((_, Rid _) # its) s = None"

definition internal_insert_items :: "int \<Rightarrow> nat \<Rightarrow> item list \<Rightarrow> BplusTree \<Rightarrow> BplusTree option" where
  "internal_insert_items pn index its s = do { s1 \<leftarrow> node_insert_items pn index its s; set_parents pn its s1 }"

definition internal_append :: "int \<Rightarrow> item list \<Rightarrow> BplusTree \<Rightarrow> BplusTree option" where
  "internal_append pn its s = do { nd \<leftarrow> nodes s pn; internal_insert_items pn (node_size nd) its s }"

definition internal_preappend :: "int \<Rightarrow> item \<Rightarrow> BplusTree \<Rightarrow> BplusTree option" where
  "internal_preappend pn it s = internal_insert_items pn 0 [it] s"

definition internal_move_half_to :: "int \<Rightarrow> int \<Rightarrow> BplusTree \<Rightarrow> BplusTree option" where
  "internal_move_half_to pn other s = do {
     nd \<leftarrow> nodes s pn;
     let move_index = node_size nd div 2;
     s1 \<leftarrow> internal_append other (drop move_index (items nd)) s;
     node_remove_items pn move_index (node_size nd - move_index) s1
   }"

definition internal_move_to :: "int \<Rightarrow> int \<Rightarrow> BplusTree \<Rightarrow> BplusTree option" where
  "internal_move_to pn other s = do {
     nd \<leftarrow> nodes s pn;
     s1 \<leftarrow> internal_append other (items nd) s;
     node_remove_items pn 0 (node_size nd) s1
   }"

definition internal_move_first_to_end :: "int \<Rightarrow> int \<Rightarrow> BplusTree \<Rightarrow> BplusTree option" where
  "internal_move_first_to_end pn other s = do {
     nd \<leftarrow> nodes s pn;
     if items nd = [] then None
     else do { s1 \<leftarrow> internal_append other [hd (items nd)] s; node_remove_at pn 0 s1 }
   }"

definition internal_move_last_to_front :: "int \<Rightarrow> int \<Rightarrow> BplusTree \<Rightarrow> BplusTree option" where
  "internal_move_last_to_front pn other s = do {
     nd \<leftarrow> nodes s pn;
     if items nd = [] then None
     else do { s1 \<leftarrow> internal_preappend other (last (items nd)) s; node_remove_items pn (node_size nd - 1) 1 s1 }
   }"

end
