(* ===== verification/Bplus_Tree.thy ===== *)
theory Bplus_Tree
  imports Bplus_Node Ob_Rc
begin

text \<open>
  The B+ tree (\<^verbatim>\<open>src/src/observer/storage/index/bplus_tree.cpp\<close>): \<^verbatim>\<open>BplusTreeHandler\<close>, its mini transactions
  (\<^verbatim>\<open>bplus_tree_log.cpp\<close>, \<^verbatim>\<open>latch_memo.cpp\<close>) and \<^verbatim>\<open>BplusTreeScanner\<close>.

  Climbing from a leaf to the root and descending follow page numbers in the nodes, so these functions are partial: \<open>None\<close> is
  a failed assertion, a missing node, or a walk that does not end. A mini transaction collects the log entries of an operation;
  when the operation has succeeded they are appended to the log as one payload, otherwise they are rolled back from the last to
  the first. Disposed pages go back to the buffer pool when the transaction ends.
\<close>

section \<open>Pages and the header\<close>

definition latch_allocate_page :: "BplusTree \<Rightarrow> rc \<times> int \<times> BplusTree" where
  "latch_allocate_page s =
     (case free_pages s of
        p # ps \<Rightarrow> (SUCCESS, p, s\<lparr>free_pages := ps\<rparr>)
      | [] \<Rightarrow> if max_pages s \<le> page_count s then (BUFFERPOOL_NOBUF, BP_INVALID_PAGE_NUM, s)
              else (SUCCESS, page_count s, s\<lparr>page_count := page_count s + 1\<rparr>))"

definition latch_dispose_page :: "int \<Rightarrow> BplusTree \<Rightarrow> BplusTree" where
  "latch_dispose_page pn s = s\<lparr>disposed_pages := disposed_pages s @ [pn]\<rparr>"

definition latch_release :: "BplusTree \<Rightarrow> BplusTree" where
  "latch_release s = s\<lparr>free_pages := fold insort (disposed_pages s) (free_pages s), disposed_pages := []\<rparr>"

definition is_empty :: "BplusTree \<Rightarrow> bool" where
  "is_empty s = (root_page (file_header s) = BP_INVALID_PAGE_NUM)"

definition update_root_page_num_locked :: "int \<Rightarrow> BplusTree \<Rightarrow> BplusTree" where
  "update_root_page_num_locked root s =
     (mtr_log (Update_root_page root (root_page (file_header s))) s)\<lparr>file_header := (file_header s)\<lparr>root_page := root\<rparr>\<rparr>"

definition rid_bytes :: "RID \<Rightarrow> byte list" where
  "rid_bytes r = int_bytes 4 (page_num r) @ int_bytes 4 (slot_num r)"

definition make_key :: "BplusTree \<Rightarrow> byte list \<Rightarrow> RID \<Rightarrow> key option" where
  "make_key s user_key rid =
     (let n = attr_length (file_header s)
      in if length user_key < n then None else Some (take n user_key @ rid_bytes rid))"

section \<open>Mini transactions\<close>

fun rollback_entry :: "LogEntryHandler \<Rightarrow> BplusTree \<Rightarrow> BplusTree option" where
  \<comment> \<open>items are moved through a plain \<^verbatim>\<open>IndexNodeHandler\<close>, whose item address is null: that ends the process unless no byte is moved\<close>
  "rollback_entry (Update_root_page root old) s = Some (s\<lparr>file_header := (file_header s)\<lparr>root_page := old\<rparr>\<rparr>)"
| "rollback_entry (Set_parent_page pn p old) s = do { nd \<leftarrow> nodes s pn; Some (put_node pn (nd\<lparr>parent := old\<rparr>) s) }"
| "rollback_entry (Leaf_set_next_page pn n old) s = do { nd \<leftarrow> nodes s pn; Some (put_node pn (nd\<lparr>next_brother := old\<rparr>) s) }"
| "rollback_entry (Internal_update_key pn i k old) s = do {
     nd \<leftarrow> nodes s pn;
     if i < node_size nd then Some (put_node pn (nd\<lparr>items := (items nd)[i := (old, snd (items nd ! i))]\<rparr>) s) else None
   }"
| "rollback_entry (Node_insert pn index its) s = do {
     nd \<leftarrow> nodes s pn;
     if index + length its = node_size nd then Some (put_node pn (nd\<lparr>items := take index (items nd)\<rparr>) s) else None
   }"
| "rollback_entry (Node_remove pn index its) s = (if its = [] then Some s else None)"
| "rollback_entry _ s = Some s"

fun rollback_entries :: "LogEntryHandler list \<Rightarrow> BplusTree \<Rightarrow> BplusTree option" where
  "rollback_entries [] s = Some s"
| "rollback_entries (e # es) s = do { s1 \<leftarrow> rollback_entry e s; rollback_entries es s1 }"

definition mtr_commit :: "BplusTree \<Rightarrow> BplusTree" where
  "mtr_commit s = (if logged s = [] then s else s\<lparr>wal := wal s @ [logged s], logged := []\<rparr>)"

definition mtr_rollback :: "BplusTree \<Rightarrow> BplusTree option" where
  "mtr_rollback s = do { s1 \<leftarrow> rollback_entries (rev (logged s)) s; Some (s1\<lparr>logged := []\<rparr>) }"

definition mtr_end :: "(rc \<times> BplusTree) option \<Rightarrow> (rc \<times> BplusTree) option" where
  \<comment> \<open>the destructor of the mini transaction, then that of its latch memo\<close>
  "mtr_end r = do {
     (rc, s) \<leftarrow> r;
     if OB_SUCC rc then Some (rc, latch_release (mtr_commit s))
     else do { s1 \<leftarrow> mtr_rollback s; Some (rc, latch_release s1) }
   }"

section \<open>Finding a leaf\<close>

partial_function (option) find_leaf_loop :: "(IndexNode \<Rightarrow> int option) \<Rightarrow> int \<Rightarrow> BplusTree \<Rightarrow> int option" where
  "find_leaf_loop child_page_getter pn s = do {
     nd \<leftarrow> nodes s pn;
     if is_leaf nd then Some pn
     else do { c \<leftarrow> child_page_getter nd; find_leaf_loop child_page_getter c s }
   }"

declare find_leaf_loop.simps [code]

definition find_leaf_internal :: "(IndexNode \<Rightarrow> int option) \<Rightarrow> BplusTree \<Rightarrow> (rc \<times> int) option" where
  "find_leaf_internal child_page_getter s =
     (if is_empty s then Some (EMPTY, BP_INVALID_PAGE_NUM)
      else do { leaf \<leftarrow> find_leaf_loop child_page_getter (root_page (file_header s)) s; Some (SUCCESS, leaf) })"

definition child_for :: "(key \<Rightarrow> key \<Rightarrow> int) \<Rightarrow> key \<Rightarrow> IndexNode \<Rightarrow> int option" where
  "child_for cmp k nd = value_at nd (fst (internal_lookup cmp nd k))"

definition find_leaf :: "key \<Rightarrow> BplusTree \<Rightarrow> (rc \<times> int) option" where
  "find_leaf k s = find_leaf_internal (child_for (key_comparator s) k) s"

definition left_most_page :: "BplusTree \<Rightarrow> (rc \<times> int) option" where
  "left_most_page s = find_leaf_internal (\<lambda>nd. value_at nd 0) s"

section \<open>Insertion\<close>

definition split :: "bool \<Rightarrow> int \<Rightarrow> BplusTree \<Rightarrow> (rc \<times> int \<times> BplusTree) option" where
  \<comment> \<open>the template parameter is \<open>leaf\<close>\<close>
  "split leaf pn s =
     (case latch_allocate_page s of
        (rc, new, s0) \<Rightarrow>
          if OB_FAIL rc then Some (rc, BP_INVALID_PAGE_NUM, s0)
          else do {
            old \<leftarrow> nodes s0 pn;
            s1 \<leftarrow> set_parent_page_num new (parent old) (if leaf then leaf_init_empty new s0 else internal_init_empty new s0);
            s2 \<leftarrow> (if leaf then leaf_move_half_to pn new s1 else internal_move_half_to pn new s1);
            Some (SUCCESS, new, s2)
          })"

definition new_root :: "int \<Rightarrow> int \<Rightarrow> key \<Rightarrow> BplusTree \<Rightarrow> (rc \<times> BplusTree) option" where
  \<comment> \<open>the branch of \<^verbatim>\<open>insert_entry_into_parent\<close> for a root that was split\<close>
  "new_root pn new_pn k s =
     (case latch_allocate_page s of
        (rc, root, s0) \<Rightarrow>
          if OB_FAIL rc then Some (rc, s0)
          else do {
            s1 \<leftarrow> internal_create_new_root root pn k new_pn (internal_init_empty root s0);
            s2 \<leftarrow> set_parent_page_num pn root s1;
            s3 \<leftarrow> set_parent_page_num new_pn root s2;
            Some (SUCCESS, update_root_page_num_locked root s3)
          })"

definition insert_child :: "int \<Rightarrow> key \<Rightarrow> int \<Rightarrow> BplusTree \<Rightarrow> BplusTree option" where
  "insert_child pp k new_pn s = do { s1 \<leftarrow> internal_insert pp k new_pn s; set_parent_page_num new_pn pp s1 }"

partial_function (option) insert_entry_into_parent :: "int \<Rightarrow> int \<Rightarrow> key \<Rightarrow> BplusTree \<Rightarrow> (rc \<times> BplusTree) option" where
  "insert_entry_into_parent pn new_pn k s = do {
     nd \<leftarrow> nodes s pn;
     if parent nd = BP_INVALID_PAGE_NUM then new_root pn new_pn k s
     else do {
       p \<leftarrow> nodes s (parent nd);
       if node_size p < max_size (file_header s) p then do { s1 \<leftarrow> insert_child (parent nd) k new_pn s; Some (SUCCESS, s1) }
       else do {
         (rc, new_pp, s1) \<leftarrow> split False (parent nd) s;
         if OB_FAIL rc then Some (rc, s1)
         else do {
           np \<leftarrow> nodes s1 new_pp;
           k0 \<leftarrow> key_at np 0;
           s2 \<leftarrow> insert_child (if 0 < key_comparator s k k0 then new_pp else parent nd) k new_pn s1;
           np2 \<leftarrow> nodes s2 new_pp;
           k1 \<leftarrow> key_at np2 0;
           insert_entry_into_parent (parent nd) new_pp k1 s2
         }
       }
     }
   }"

declare insert_entry_into_parent.simps [code]

definition insert_entry_into_leaf_node :: "int \<Rightarrow> key \<Rightarrow> RID \<Rightarrow> BplusTree \<Rightarrow> (rc \<times> BplusTree) option" where
  "insert_entry_into_leaf_node pn k rid s = do {
     nd \<leftarrow> nodes s pn;
     case leaf_lookup (key_comparator s) nd k of
       (insert_position, exists) \<Rightarrow>
         if exists then Some (RECORD_DUPLICATE_KEY, s)
         else if node_size nd < max_size (file_header s) nd
         then do { s1 \<leftarrow> leaf_insert pn insert_position k rid s; Some (SUCCESS, s1) }
         else do {
           (rc, new, s1) \<leftarrow> split True pn s;
           if OB_FAIL rc then Some (rc, s1)
           else do {
             s2 \<leftarrow> set_next_page new (next_brother nd) s1;
             s3 \<leftarrow> set_parent_page_num new (parent nd) s2;
             s4 \<leftarrow> set_next_page pn new s3;
             nd4 \<leftarrow> nodes s4 pn;
             s5 \<leftarrow> (if insert_position < node_size nd4 then leaf_insert pn insert_position k rid s4
                    else leaf_insert new (insert_position - node_size nd4) k rid s4);
             new5 \<leftarrow> nodes s5 new;
             k0 \<leftarrow> key_at new5 0;
             insert_entry_into_parent pn new k0 s5
           }
         }
   }"

definition create_new_tree :: "key \<Rightarrow> RID \<Rightarrow> BplusTree \<Rightarrow> (rc \<times> BplusTree) option" where
  "create_new_tree k rid s =
     (if \<not> is_empty s then Some (INTERNAL, s)
      else case latch_allocate_page s of
        (rc, pn, s0) \<Rightarrow>
          if OB_FAIL rc then Some (rc, s0)
          else do {
            s1 \<leftarrow> leaf_insert pn 0 k rid (leaf_init_empty pn s0);
            Some (rc, update_root_page_num_locked pn s1)
          })"

definition insert_key :: "key \<Rightarrow> RID \<Rightarrow> BplusTree \<Rightarrow> (rc \<times> BplusTree) option" where
  "insert_key k rid s =
     (if is_empty s then create_new_tree k rid s
      else do {
        (rc, leaf) \<leftarrow> find_leaf k s;
        if OB_FAIL rc then Some (rc, s) else insert_entry_into_leaf_node leaf k rid s
      })"

definition insert_entry :: "byte list option \<Rightarrow> RID option \<Rightarrow> BplusTree \<Rightarrow> (rc \<times> BplusTree) option" where
  "insert_entry user_key rid s =
     (case (user_key, rid) of
        (Some u, Some r) \<Rightarrow> do { k \<leftarrow> make_key s u r; mtr_end (insert_key k r s) }
      | _ \<Rightarrow> Some (INVALID_ARGUMENT, s))"

section \<open>Deletion\<close>

definition adjust_root :: "int \<Rightarrow> BplusTree \<Rightarrow> BplusTree option" where
  "adjust_root pn s = do {
     nd \<leftarrow> nodes s pn;
     if is_leaf nd \<and> 0 < node_size nd then Some s
     else do {
       (root, s1) \<leftarrow> (if is_leaf nd then Some (BP_INVALID_PAGE_NUM, s)
                      else do { c \<leftarrow> value_at nd 0; s1 \<leftarrow> set_parent_page_num c BP_INVALID_PAGE_NUM s; Some (c, s1) });
       Some (latch_dispose_page pn (update_root_page_num_locked root s1))
     }
   }"

definition coalesce :: "bool \<Rightarrow> int \<Rightarrow> int \<Rightarrow> int \<Rightarrow> nat \<Rightarrow> BplusTree \<Rightarrow> BplusTree option" where
  \<comment> \<open>up to the recursive call\<close>
  "coalesce leaf neighbor pn pp index s =
     (let left = (if index = 0 then pn else neighbor); right = (if index = 0 then neighbor else pn);
          i = (if index = 0 then 1 else index)
      in do {
        s1 \<leftarrow> node_remove_at pp i s;
        s2 \<leftarrow> (if leaf then leaf_move_to right left s1 else internal_move_to right left s1);
        ln \<leftarrow> nodes s2 left;
        s3 \<leftarrow> (if is_leaf ln then do { rn \<leftarrow> nodes s2 right; set_next_page left (next_brother rn) s2 } else Some s2);
        Some (latch_dispose_page right s3)
      })"

definition redistribute :: "bool \<Rightarrow> int \<Rightarrow> int \<Rightarrow> int \<Rightarrow> nat \<Rightarrow> BplusTree \<Rightarrow> BplusTree option" where
  "redistribute leaf neighbor pn pp index s =
     (if index = 0
      then do {
        s1 \<leftarrow> (if leaf then leaf_move_first_to_end neighbor pn s else internal_move_first_to_end neighbor pn s);
        nn \<leftarrow> nodes s1 neighbor;
        k \<leftarrow> key_at nn 0;
        set_key_at pp (index + 1) k s1
      }
      else do {
        s1 \<leftarrow> (if leaf then leaf_move_last_to_front neighbor pn s else internal_move_last_to_front neighbor pn s);
        nd \<leftarrow> nodes s1 pn;
        k \<leftarrow> key_at nd 0;
        set_key_at pp index k s1
      })"

partial_function (option) coalesce_or_redistribute :: "bool \<Rightarrow> int \<Rightarrow> BplusTree \<Rightarrow> (rc \<times> BplusTree) option" where
  "coalesce_or_redistribute leaf pn s = do {
     nd \<leftarrow> nodes s pn;
     if min_size (file_header s) nd \<le> node_size nd then Some (SUCCESS, s)
     else if parent nd = BP_INVALID_PAGE_NUM
     then if 1 < node_size nd then Some (SUCCESS, s) else do { s1 \<leftarrow> adjust_root pn s; Some (SUCCESS, s1) }
     else do {
       p \<leftarrow> nodes s (parent nd);
       k \<leftarrow> (if node_size nd = 0 then None else key_at nd (node_size nd - 1));
       c \<leftarrow> value_at p (fst (internal_lookup (key_comparator s) p k));
       if c \<noteq> pn then None
       else do {
         neighbor \<leftarrow> value_at p (case fst (internal_lookup (key_comparator s) p k) of 0 \<Rightarrow> 1 | Suc i \<Rightarrow> i);
         nn \<leftarrow> nodes s neighbor;
         if max_size (file_header s) nd < node_size nd + node_size nn
         then do {
           s1 \<leftarrow> redistribute leaf neighbor pn (parent nd) (fst (internal_lookup (key_comparator s) p k)) s;
           Some (SUCCESS, s1)
         }
         else do {
           s1 \<leftarrow> coalesce leaf neighbor pn (parent nd) (fst (internal_lookup (key_comparator s) p k)) s;
           coalesce_or_redistribute False (parent nd) s1
         }
       }
     }
   }"

declare coalesce_or_redistribute.simps [code]

definition delete_entry_internal :: "int \<Rightarrow> key \<Rightarrow> BplusTree \<Rightarrow> (rc \<times> BplusTree) option" where
  "delete_entry_internal pn k s = do {
     (remove_count, s1) \<leftarrow> leaf_remove_key pn k s;
     if remove_count = 0 then Some (RECORD_NOT_EXIST, s1)
     else do {
       nd \<leftarrow> nodes s1 pn;
       if min_size (file_header s1) nd \<le> node_size nd then Some (SUCCESS, s1) else coalesce_or_redistribute True pn s1
     }
   }"

definition delete_key :: "key \<Rightarrow> BplusTree \<Rightarrow> (rc \<times> BplusTree) option" where
  "delete_key k s = do {
     (rc, leaf) \<leftarrow> find_leaf k s;
     if rc = EMPTY then Some (RECORD_NOT_EXIST, s)
     else if OB_FAIL rc then Some (rc, s)
     else delete_entry_internal leaf k s
   }"

definition delete_entry :: "byte list \<Rightarrow> RID \<Rightarrow> BplusTree \<Rightarrow> (rc \<times> BplusTree) option" where
  "delete_entry user_key rid s = do { k \<leftarrow> make_key s user_key rid; mtr_end (delete_key k s) }"

end
