(* ===== verification/Bplus_Log.thy ===== *)
theory Bplus_Log
  imports Bplus_Tree Log_Entry Serializer
begin

text \<open>
  The redo log of the B+ tree (\<^verbatim>\<open>src/src/observer/storage/index/bplus_tree_log.cpp\<close>, \<^verbatim>\<open>bplus_tree_log_entry.cpp\<close>): how a
  mini transaction becomes a payload, and how the payload is redone after a restart.

  Pages are read through the pool of their file: the number of a page gives its LSN and its content, the index header, a node or
  something else (\<open>Blank\<close>). The items of a node are logged as bytes and get their meaning from the node they are put into.
  The log entry that initialises the header page belongs to the creation of an index, which is not modelled: reading one is \<open>None\<close>.
\<close>

section \<open>Payloads\<close>

definition FIRST_INDEX_PAGE :: int where
  "FIRST_INDEX_PAGE = 1"

fun entry_page :: "LogEntryHandler \<Rightarrow> int" where
  "entry_page (Update_root_page root old) = FIRST_INDEX_PAGE"
| "entry_page (Set_parent_page pn p old) = pn"
| "entry_page (Leaf_init_empty pn) = pn"
| "entry_page (Leaf_set_next_page pn n old) = pn"
| "entry_page (Internal_init_empty pn) = pn"
| "entry_page (Internal_create_new_root pn first k page) = pn"
| "entry_page (Internal_update_key pn i k old) = pn"
| "entry_page (Node_insert pn index its) = pn"
| "entry_page (Node_remove pn index its) = pn"

fun operation_index :: "LogEntryHandler \<Rightarrow> int" where
  "operation_index (Update_root_page root old) = 1"
| "operation_index (Set_parent_page pn p old) = 2"
| "operation_index (Leaf_init_empty pn) = 3"
| "operation_index (Leaf_set_next_page pn n old) = 4"
| "operation_index (Internal_init_empty pn) = 5"
| "operation_index (Internal_create_new_root pn first k page) = 6"
| "operation_index (Internal_update_key pn i k old) = 7"
| "operation_index (Node_insert pn index its) = 8"
| "operation_index (Node_remove pn index its) = 9"

definition item_bytes :: "item \<Rightarrow> byte list" where
  "item_bytes x = fst x @ (case snd x of Rid r \<Rightarrow> rid_bytes r | Page c \<Rightarrow> int_bytes 4 c)"

fun items_fields :: "nat \<Rightarrow> item list \<Rightarrow> field list" where
  "items_fields index its =
     [I32 (int index), I32 (int (length its)), I32 (int (length (concat (map item_bytes its)))), Raw (concat (map item_bytes its))]"

fun body_fields :: "LogEntryHandler \<Rightarrow> field list" where
  \<comment> \<open>what the functions \<^verbatim>\<open>serialize_body\<close> write\<close>
  "body_fields (Update_root_page root old) = [I32 root]"
| "body_fields (Set_parent_page pn p old) = [I32 p]"
| "body_fields (Leaf_init_empty pn) = []"
| "body_fields (Leaf_set_next_page pn n old) = [I32 n]"
| "body_fields (Internal_init_empty pn) = []"
| "body_fields (Internal_create_new_root pn first k page) = [I32 first, I32 page, I32 (int (length k)), Raw k]"
| "body_fields (Internal_update_key pn i k old) = [I32 (int i), I32 (int (length k)), Raw k]"
| "body_fields (Node_insert pn index its) = items_fields index its"
| "body_fields (Node_remove pn index its) = items_fields index its"

definition serialize :: "Serializer \<Rightarrow> LogEntryHandler \<Rightarrow> Serializer" where
  "serialize buffer e = foldl write_field buffer ([I32 (operation_index e), I32 (entry_page e)] @ body_fields e)"

definition commit_payload :: "int \<Rightarrow> LogEntryHandler list \<Rightarrow> byte list" where
  "commit_payload buffer_pool_id es = ser_buffer (foldl serialize (snd (write_int32 ser_new buffer_pool_id)) es)"

section \<open>Pages\<close>

datatype page_content = Header IndexFileHeader | Node IndexNode | Blank

type_synonym index_pages = "int \<rightharpoonup> int \<times> page_content"

section \<open>Reading an entry\<close>

datatype RedoHandler =
    Redo LogEntryHandler
  | Redo_key int int key  \<comment> \<open>page, index, key\<close>
  | Redo_items bool int int int "byte list"  \<comment> \<open>whether to insert, page, index, number of items, items\<close>

fun redo_page :: "RedoHandler \<Rightarrow> int" where
  "redo_page (Redo e) = entry_page e"
| "redo_page (Redo_key pn index k) = pn"
| "redo_page (Redo_items ins pn index num bs) = pn"

definition rd32 :: "Deserializer \<Rightarrow> (int \<times> Deserializer) option" where
  \<comment> \<open>\<open>None\<close> when the read fails\<close>
  "rd32 d = (case read_int32 d (- 1) of Some (ret, v, d') \<Rightarrow> if ret = 0 then Some (v, d') else None | None \<Rightarrow> None)"

definition rd_vector :: "int \<Rightarrow> Deserializer \<Rightarrow> (byte list \<times> Deserializer) option" where
  "rd_vector n d = (case des_read d (replicate (nat n) 0) of Some (ret, bs, d') \<Rightarrow> if ret = 0 then Some (bs, d') else None | None \<Rightarrow> None)"

definition read_key_update :: "int \<Rightarrow> Deserializer \<Rightarrow> (RedoHandler \<times> Deserializer) option" where
  "read_key_update pn d = do {
     (index, d1) \<leftarrow> rd32 d; (key_size, d2) \<leftarrow> rd32 d1; (k, d3) \<leftarrow> rd_vector key_size d2;
     Some (Redo_key pn index k, d3)
   }"

definition read_new_root :: "int \<Rightarrow> Deserializer \<Rightarrow> (RedoHandler \<times> Deserializer) option" where
  "read_new_root pn d = do {
     (first_page_num, d1) \<leftarrow> rd32 d; (page_num, d2) \<leftarrow> rd32 d1; (key_size, d3) \<leftarrow> rd32 d2; (k, d4) \<leftarrow> rd_vector key_size d3;
     Some (Redo (Internal_create_new_root pn first_page_num k page_num), d4)
   }"

definition read_items :: "bool \<Rightarrow> int \<Rightarrow> Deserializer \<Rightarrow> (RedoHandler \<times> Deserializer) option" where
  "read_items ins pn d = do {
     (index, d1) \<leftarrow> rd32 d; (item_num, d2) \<leftarrow> rd32 d1; (item_bytes, d3) \<leftarrow> rd32 d2; (bs, d4) \<leftarrow> rd_vector item_bytes d3;
     Some (Redo_items ins pn index item_num bs, d4)
   }"

definition read_body :: "int \<Rightarrow> int \<Rightarrow> Deserializer \<Rightarrow> (RedoHandler \<times> Deserializer) option" where
  \<comment> \<open>the functions \<^verbatim>\<open>deserialize\<close>; the old values, which only a rollback uses, are not read\<close>
  "read_body type pn d =
     (if type = 1 then map_option (\<lambda>(v, d'). (Redo (Update_root_page v (- 1)), d')) (rd32 d)
      else if type = 2 then map_option (\<lambda>(v, d'). (Redo (Set_parent_page pn v (- 1)), d')) (rd32 d)
      else if type = 3 then Some (Redo (Leaf_init_empty pn), d)
      else if type = 4 then map_option (\<lambda>(v, d'). (Redo (Leaf_set_next_page pn v (- 1)), d')) (rd32 d)
      else if type = 5 then Some (Redo (Internal_init_empty pn), d)
      else if type = 6 then read_new_root pn d
      else if type = 7 then read_key_update pn d
      else read_items (type = 8) pn d)"

definition from_buffer :: "index_pages \<Rightarrow> Deserializer \<Rightarrow> (rc + RedoHandler \<times> Deserializer) option" where
  "from_buffer st d =
     (case do { (type, d1) \<leftarrow> rd32 d; if type < 0 \<or> 10 \<le> type then None else do { (pn, d2) \<leftarrow> rd32 d1; Some (type, pn, d2) } } of
        None \<Rightarrow> Some (Inl INVALID_ARGUMENT)
      | Some (type, pn, d2) \<Rightarrow>
          if st pn = None then Some (Inl BUFFERPOOL_INVALID_PAGE_NUM)
          else if type = 0 then None
          else (case read_body type pn d2 of None \<Rightarrow> Some (Inl INTERNAL) | Some r \<Rightarrow> Some (Inr r)))"

section \<open>Redo\<close>

definition new_node :: "bool \<Rightarrow> IndexNode" where
  "new_node leaf = \<lparr>is_leaf = leaf, parent = BP_INVALID_PAGE_NUM, next_brother = BP_INVALID_PAGE_NUM, items = []\<rparr>"

fun redo_content :: "nat \<Rightarrow> LogEntryHandler \<Rightarrow> page_content \<Rightarrow> page_content option" where
  \<comment> \<open>the functions \<^verbatim>\<open>redo\<close> on the page of the entry; the first argument is the length of a key\<close>
  "redo_content kl (Update_root_page root old) (Header h) = Some (Header (h\<lparr>root_page := root\<rparr>))"
| "redo_content kl (Set_parent_page pn p old) (Node nd) = Some (Node (nd\<lparr>parent := p\<rparr>))"
| "redo_content kl (Leaf_init_empty pn) c = Some (Node (new_node True))"
| "redo_content kl (Leaf_set_next_page pn n old) (Node nd) = Some (Node (nd\<lparr>next_brother := n\<rparr>))"
| "redo_content kl (Internal_init_empty pn) c = Some (Node (new_node False))"
| "redo_content kl (Internal_create_new_root pn first k page) (Node nd) =
     (if items nd \<noteq> [] then None else Some (Node (nd\<lparr>items := [(replicate kl 0, Page first), (k, Page page)]\<rparr>)))"
| "redo_content kl (Internal_update_key pn i k old) (Node nd) =
     (if i < node_size nd then Some (Node (nd\<lparr>items := (items nd)[i := (k, snd (items nd ! i))]\<rparr>)) else None)"
| "redo_content kl (Node_insert pn index its) (Node nd) = map_option Node (recover_insert_items index its nd)"
| "redo_content kl (Node_remove pn index its) (Node nd) = map_option Node (recover_remove_items index (length its) nd)"
| "redo_content kl _ _ = None"

definition value_of_bytes :: "bool \<Rightarrow> byte list \<Rightarrow> node_value" where
  "value_of_bytes leaf bs = (if leaf then Rid (RID (bytes_int (slice bs 0 4)) (bytes_int (slice bs 4 4))) else Page (bytes_int bs))"

fun items_of_bytes :: "nat \<Rightarrow> bool \<Rightarrow> nat \<Rightarrow> byte list \<Rightarrow> item list option" where
  "items_of_bytes kl leaf 0 bs = Some []"
| "items_of_bytes kl leaf (Suc n) bs =
     (let sz = kl + (if leaf then 8 else 4)
      in if length bs < sz then None
         else do { its \<leftarrow> items_of_bytes kl leaf n (drop sz bs); Some ((take kl bs, value_of_bytes leaf (drop kl (take sz bs))) # its) })"

fun redo_handler :: "nat \<Rightarrow> RedoHandler \<Rightarrow> page_content \<Rightarrow> page_content option" where
  "redo_handler kl (Redo e) c = redo_content kl e c"
| "redo_handler kl (Redo_key pn index k) c = (if index < 0 then None else redo_content kl (Internal_update_key pn (nat index) k []) c)"
| "redo_handler kl (Redo_items ins pn index num bs) (Node nd) =
     (if index < 0 \<or> num < 0 then None
      else if ins then do { its \<leftarrow> items_of_bytes kl (is_leaf nd) (nat num) bs; map_option Node (recover_insert_items (nat index) its nd) }
      else map_option Node (recover_remove_items (nat index) (nat num) nd))"
| "redo_handler kl (Redo_items ins pn index num bs) _ = None"

definition set_page_lsn :: "int \<Rightarrow> int \<Rightarrow> index_pages \<Rightarrow> index_pages" where
  "set_page_lsn lsn pn st = st(pn := map_option (\<lambda>(_, c). (lsn, c)) (st pn))"

partial_function (option) redo_loop :: "int \<Rightarrow> nat \<Rightarrow> int list \<Rightarrow> Deserializer \<Rightarrow> index_pages \<Rightarrow> index_pages option" where
  \<comment> \<open>\<^verbatim>\<open>__redo\<close>; \<open>frames\<close> are the pages that were changed\<close>
  "redo_loop lsn kl frames d st =
     (if remain d \<le> 0 then Some (fold (set_page_lsn lsn) frames st)
      else do {
        r \<leftarrow> from_buffer st d;
        case r of
          Inl rc \<Rightarrow> Some st
        | Inr (e, d') \<Rightarrow> do {
            (l, c) \<leftarrow> st (redo_page e);
            if lsn \<le> l then redo_loop lsn kl frames d' st
            else do {
              c' \<leftarrow> redo_handler kl e c;
              redo_loop lsn kl (frames @ [redo_page e]) d' (st(redo_page e \<mapsto> (l, c')))
            }
          }
      })"

declare redo_loop.simps [code]

definition index_redo :: "LogEntry \<Rightarrow> (int \<rightharpoonup> index_pages) \<Rightarrow> (rc \<times> (int \<rightharpoonup> index_pages)) option" where
  \<comment> \<open>\<^verbatim>\<open>redo\<close>, with the files by the numbers of their buffer pools; a header page that is no header is \<open>None\<close>\<close>
  "index_redo entry files =
     (if module_of_index (h_module_id (le_header entry)) \<noteq> Some BPLUS_TREE then None
      else case rd32 (des_new (le_data entry)) of
        None \<Rightarrow> Some (IOERR_READ, files)
      | Some (buffer_pool_id, d) \<Rightarrow>
          (case files buffer_pool_id of
             None \<Rightarrow> Some (INTERNAL, files)
           | Some st \<Rightarrow>
               (case st FIRST_INDEX_PAGE of
                  None \<Rightarrow> Some (BUFFERPOOL_INVALID_PAGE_NUM, files)
                | Some (l, Header h) \<Rightarrow> do {
                    st' \<leftarrow> redo_loop (le_lsn entry) (key_length h) [] d st;
                    Some (SUCCESS, files(buffer_pool_id \<mapsto> st'))
                  }
                | Some _ \<Rightarrow> None)))"

end
