(* ===== verification/Bplus_Replay.thy ===== *)
theory Bplus_Replay
  imports Bplus_Log
begin

text \<open>
  What the operations of the tree log is what they do: for every page, redoing the entries of an operation that concern the page
  on its content before the operation gives its content after it.
\<close>

section \<open>Entries that concern a page\<close>

definition page_content :: "BplusTree \<Rightarrow> int \<Rightarrow> page_content" where
  "page_content s p =
     (if p = FIRST_INDEX_PAGE then Header (file_header s) else case nodes s p of None \<Rightarrow> Blank | Some nd \<Rightarrow> Node nd)"

fun redo_on :: "nat \<Rightarrow> int \<Rightarrow> LogEntryHandler list \<Rightarrow> page_content \<Rightarrow> page_content option" where
  "redo_on kl p [] c = Some c"
| "redo_on kl p (e # es) c = (if entry_page e = p then do { c' \<leftarrow> redo_content kl e c; redo_on kl p es c' } else redo_on kl p es c)"

lemma redo_on_append: "redo_on kl p (es @ es') c = do { c' \<leftarrow> redo_on kl p es c; redo_on kl p es' c' }"
  by (induction es arbitrary: c) (auto split: Option.bind_split)

lemma redo_on_other: "p \<notin> entry_page ` set es \<Longrightarrow> redo_on kl p es c = Some c"
  by (induction es arbitrary: c) auto

definition fresh :: "BplusTree \<Rightarrow> bool" where
  \<comment> \<open>the header page is not handed out\<close>
  "fresh s \<longleftrightarrow> nodes s FIRST_INDEX_PAGE = None \<and> FIRST_INDEX_PAGE \<notin> set (free_pages s) \<and> FIRST_INDEX_PAGE \<notin> set (disposed_pages s) \<and>
     FIRST_INDEX_PAGE < page_count s"

definition logs :: "BplusTree \<Rightarrow> BplusTree \<Rightarrow> LogEntryHandler list \<Rightarrow> bool" where
  "logs s s' es \<longleftrightarrow> fresh s' \<and> (file_header s')\<lparr>root_page := 0\<rparr> = (file_header s)\<lparr>root_page := 0\<rparr> \<and> wal s' = wal s \<and>
     logged s' = logged s @ es \<and> (\<forall>p. redo_on (key_length (file_header s)) p es (page_content s p) = Some (page_content s' p))"

definition replays :: "BplusTree \<Rightarrow> BplusTree \<Rightarrow> bool" where
  "replays s s' \<longleftrightarrow> (fresh s \<longrightarrow> (\<exists>es. logs s s' es))"

lemma header_length: "h\<lparr>root_page := 0\<rparr> = h'\<lparr>root_page := 0\<rparr> \<Longrightarrow> key_length h = key_length h'"
  by (drule arg_cong [of _ _ key_length]) simp

lemma replays_refl [intro]: "replays s s"
  unfolding replays_def logs_def by (auto intro: exI [of _ "[]"])

lemma replays_trans: "replays s t \<Longrightarrow> replays t u \<Longrightarrow> replays s u"
proof -
  have "logs s u (es @ es')" if a: "logs s t es" and b: "logs t u es'" for es es'
  proof -
    have "key_length (file_header t) = key_length (file_header s)" using a header_length [of "file_header t" "file_header s"] by (simp add: logs_def)
    then show ?thesis using a b by (simp add: logs_def redo_on_append)
  qed
  moreover have "fresh t" if "logs s t es" for es using that by (simp add: logs_def)
  ultimately show "replays s t \<Longrightarrow> replays t u \<Longrightarrow> replays s u" unfolding replays_def by blast
qed

lemma replays_put:
  assumes "nodes s pn = Some nd" "entry_page e = pn" "redo_content (key_length (file_header s)) e (Node nd) = Some (Node nd')"
  shows "replays s (put_node pn nd' (mtr_log e s))"
  unfolding replays_def
proof (intro impI exI [of _ "[e]"])
  assume f: "fresh s"
  then have "pn \<noteq> FIRST_INDEX_PAGE" using assms(1) by (auto simp: fresh_def)
  then show "logs s (put_node pn nd' (mtr_log e s)) [e]"
    using f assms by (auto simp: logs_def fresh_def put_node_def mtr_log_def page_content_def)
qed

lemma replays_init:
  assumes "fresh s \<Longrightarrow> pn \<noteq> FIRST_INDEX_PAGE"
  shows "replays s (leaf_init_empty pn s)" and "replays s (internal_init_empty pn s)"
proof -
  have "logs s (leaf_init_empty pn s) [Leaf_init_empty pn]" "logs s (internal_init_empty pn s) [Internal_init_empty pn]" if "fresh s"
    using that assms
    by (auto simp: logs_def fresh_def put_node_def mtr_log_def page_content_def leaf_init_empty_def internal_init_empty_def new_node_def)
  then show "replays s (leaf_init_empty pn s)" "replays s (internal_init_empty pn s)" unfolding replays_def by blast+
qed

lemma allocate_replays:
  assumes "latch_allocate_page s = (rc, p, s')"
  shows "replays s s'" and "fresh s \<Longrightarrow> OB_SUCC rc \<Longrightarrow> p \<noteq> FIRST_INDEX_PAGE" and "fresh s \<Longrightarrow> fresh s'"
proof -
  have "logs s s' [] \<and> (OB_SUCC rc \<longrightarrow> p \<noteq> FIRST_INDEX_PAGE) \<and> fresh s'" if "fresh s"
    using assms that by (auto simp: latch_allocate_page_def logs_def fresh_def page_content_def OB_SUCC_def split: list.splits if_splits)
  then show "replays s s'" "fresh s \<Longrightarrow> OB_SUCC rc \<Longrightarrow> p \<noteq> FIRST_INDEX_PAGE" "fresh s \<Longrightarrow> fresh s'" unfolding replays_def by blast+
qed

lemma dispose_replays: "nodes s pn \<noteq> None \<Longrightarrow> replays s (latch_dispose_page pn s)"
proof -
  assume "nodes s pn \<noteq> None"
  then have "logs s (latch_dispose_page pn s) []" if "fresh s"
    using that by (auto simp: latch_dispose_page_def logs_def fresh_def page_content_def)
  then show ?thesis unfolding replays_def by blast
qed

lemma update_root_replays: "replays s (update_root_page_num_locked r s)"
  unfolding replays_def
  by (intro impI exI [of _ "[Update_root_page r (root_page (file_header s))]"])
    (auto simp: update_root_page_num_locked_def mtr_log_def logs_def fresh_def page_content_def)

section \<open>Operations on nodes\<close>

named_theorems replaying

lemma set_parent_replays [replaying]: "set_parent_page_num pn p s = Some s' \<Longrightarrow> replays s s'"
  by (auto simp: set_parent_page_num_def bind_eq_Some_conv intro!: replays_put)

lemma set_next_replays [replaying]: "set_next_page pn p s = Some s' \<Longrightarrow> replays s s'"
  by (auto simp: set_next_page_def bind_eq_Some_conv intro!: replays_put)

lemma insert_items_replays [replaying]: "node_insert_items pn i its s = Some s' \<Longrightarrow> replays s s'"
  by (auto simp: node_insert_items_def bind_eq_Some_conv intro!: replays_put)

lemma remove_items_replays [replaying]: "node_remove_items pn i n s = Some s' \<Longrightarrow> replays s s'"
  by (auto simp: node_remove_items_def bind_eq_Some_conv recover_remove_items_def min_def intro!: replays_put split: if_splits)

lemma set_key_replays [replaying]: "set_key_at pn i k s = Some s' \<Longrightarrow> replays s s'"
  by (auto simp: set_key_at_def key_at_def bind_eq_Some_conv intro!: replays_put split: if_splits)

lemma create_new_root_replays [replaying]: "internal_create_new_root pn f k p s = Some s' \<Longrightarrow> replays s s'"
  by (auto simp: internal_create_new_root_def bind_eq_Some_conv intro!: replays_put split: if_splits)

lemma remove_at_replays [replaying]: "node_remove_at pn i s = Some s' \<Longrightarrow> replays s s'"
  by (auto simp: node_remove_at_def bind_eq_Some_conv split: if_splits dest: replaying)

lemma set_parents_replays [replaying]: "set_parents pn its s = Some s' \<Longrightarrow> replays s s'"
  by (induction pn its s rule: set_parents.induct) (auto simp: bind_eq_Some_conv dest: replaying intro: replays_trans)

lemmas node_op_defs = leaf_insert_def leaf_append_def leaf_preappend_def leaf_move_half_to_def leaf_move_first_to_end_def
  leaf_move_last_to_front_def leaf_move_to_def internal_insert_def internal_insert_items_def internal_append_def internal_preappend_def
  internal_move_half_to_def internal_move_to_def internal_move_first_to_end_def internal_move_last_to_front_def insert_child_def

lemma leaf_ops_replay [replaying]:
  "leaf_insert pn i k r s = Some s' \<Longrightarrow> replays s s'"
  "leaf_append pn its s = Some s' \<Longrightarrow> replays s s'"
  "leaf_preappend pn it s = Some s' \<Longrightarrow> replays s s'"
  "internal_insert pn k p s = Some s' \<Longrightarrow> replays s s'"
  "internal_insert_items pn i its s = Some s' \<Longrightarrow> replays s s'"
  by (auto simp: node_op_defs bind_eq_Some_conv dest: replaying intro: replays_trans)

lemma internal_ops_replay [replaying]:
  "internal_append pn its s = Some s' \<Longrightarrow> replays s s'"
  "internal_preappend pn it s = Some s' \<Longrightarrow> replays s s'"
  "insert_child pn k p s = Some s' \<Longrightarrow> replays s s'"
  by (auto simp: internal_append_def internal_preappend_def insert_child_def bind_eq_Some_conv dest: replaying intro: replays_trans)

lemma move_ops_replay [replaying]:
  "leaf_move_half_to pn other s = Some s' \<Longrightarrow> replays s s'"
  "leaf_move_first_to_end pn other s = Some s' \<Longrightarrow> replays s s'"
  "leaf_move_last_to_front pn other s = Some s' \<Longrightarrow> replays s s'"
  "internal_move_half_to pn other s = Some s' \<Longrightarrow> replays s s'"
  "internal_move_to pn other s = Some s' \<Longrightarrow> replays s s'"
  "internal_move_first_to_end pn other s = Some s' \<Longrightarrow> replays s s'"
  "internal_move_last_to_front pn other s = Some s' \<Longrightarrow> replays s s'"
  by (auto simp: leaf_move_half_to_def leaf_move_first_to_end_def leaf_move_last_to_front_def
      internal_move_half_to_def internal_move_to_def internal_move_first_to_end_def internal_move_last_to_front_def
      bind_eq_Some_conv Let_def split: if_splits dest: replaying intro: replays_trans)

lemma leaf_move_to_replays [replaying]: "leaf_move_to pn other s = Some s' \<Longrightarrow> replays s s'"
  by (clarsimp simp: leaf_move_to_def bind_eq_Some_conv) (blast intro: replays_trans leaf_ops_replay set_next_replays remove_items_replays)

section \<open>Insertion and deletion\<close>

lemma split_replays [replaying]: "split leaf pn s = Some (rc, new, s') \<Longrightarrow> replays s s'"
proof -
  assume r: "split leaf pn s = Some (rc, new, s')"
  obtain rc0 p s0 where al: "latch_allocate_page s = (rc0, p, s0)" by (metis prod_cases3)
  note A = allocate_replays [OF al]
  show ?thesis
  proof (cases "OB_FAIL rc0")
    case True
    then show ?thesis using r al A(1) by (simp add: split_def)
  next
    case False
    let ?i = "if leaf then leaf_init_empty p s0 else internal_init_empty p s0"
    have i: "replays s ?i"
    proof (cases "fresh s")
      case True
      then have "p \<noteq> FIRST_INDEX_PAGE" using A(2) False by (simp add: OB_SUCC_def OB_FAIL_def)
      then show ?thesis using replays_trans [OF A(1) replays_init(1)] replays_trans [OF A(1) replays_init(2)] by (cases leaf) simp_all
    qed (simp add: replays_def)
    obtain old s1 where s1: "nodes s0 pn = Some old" "set_parent_page_num p (parent old) ?i = Some s1"
      "(if leaf then leaf_move_half_to pn p s1 else internal_move_half_to pn p s1) = Some s'"
      using r al False by (auto simp: split_def bind_eq_Some_conv split: if_splits)
    have "replays s1 s'" using s1(3) by (cases leaf) (auto dest: replaying)
    then show ?thesis using replays_trans [OF replays_trans [OF i set_parent_replays [OF s1(2)]]] by blast
  qed
qed

lemma new_root_replays [replaying]: "new_root pn new k s = Some (rc, s') \<Longrightarrow> replays s s'"
proof -
  assume r: "new_root pn new k s = Some (rc, s')"
  obtain rc0 p s0 where al: "latch_allocate_page s = (rc0, p, s0)" by (metis prod_cases3)
  note A = allocate_replays [OF al]
  show ?thesis
  proof (cases "OB_FAIL rc0")
    case True
    then show ?thesis using r al A(1) by (simp add: new_root_def)
  next
    case False
    have i: "replays s (internal_init_empty p s0)"
    proof (cases "fresh s")
      case True
      then have "p \<noteq> FIRST_INDEX_PAGE" using A(2) False by (simp add: OB_SUCC_def OB_FAIL_def)
      then show ?thesis using replays_trans [OF A(1) replays_init(2)] by simp
    qed (simp add: replays_def)
    obtain s1 s2 s3 where s: "internal_create_new_root p pn k new (internal_init_empty p s0) = Some s1"
      "set_parent_page_num pn p s1 = Some s2" "set_parent_page_num new p s2 = Some s3" "s' = update_root_page_num_locked p s3"
      using r al False by (auto simp: new_root_def bind_eq_Some_conv)
    show ?thesis
      unfolding s(4) by (rule replays_trans [OF i replays_trans [OF create_new_root_replays [OF s(1)]
          replays_trans [OF set_parent_replays [OF s(2)] replays_trans [OF set_parent_replays [OF s(3)] update_root_replays]]]])
  qed
qed

lemma create_new_tree_replays [replaying]: "create_new_tree k r s = Some (rc, s') \<Longrightarrow> replays s s'"
proof -
  assume r: "create_new_tree k r s = Some (rc, s')"
  obtain rc0 p s0 where al: "latch_allocate_page s = (rc0, p, s0)" by (metis prod_cases3)
  note A = allocate_replays [OF al]
  show ?thesis
  proof (cases "OB_FAIL rc0 \<or> \<not> is_empty s")
    case True
    then show ?thesis using r al A(1) by (auto simp: create_new_tree_def split: if_splits)
  next
    case False
    have i: "replays s (leaf_init_empty p s0)"
    proof (cases "fresh s")
      case True
      then have "p \<noteq> FIRST_INDEX_PAGE" using A(2) False by (simp add: OB_SUCC_def OB_FAIL_def)
      then show ?thesis using replays_trans [OF A(1) replays_init(1)] by simp
    qed (simp add: replays_def)
    obtain s1 where s: "leaf_insert p 0 k r (leaf_init_empty p s0) = Some s1" "s' = update_root_page_num_locked p s1"
      using r al False by (auto simp: create_new_tree_def bind_eq_Some_conv)
    show ?thesis unfolding s(2) by (rule replays_trans [OF i replays_trans [OF leaf_ops_replay(1) [OF s(1)] update_root_replays]])
  qed
qed

lemma insert_into_parent_replays [replaying]: "insert_entry_into_parent pn new k s = Some (rc, s') \<Longrightarrow> replays s s'"
proof -
  have "replays s (snd r)" if "insert_entry_into_parent pn new k s = Some r" for r
  proof (rule insert_entry_into_parent.raw_induct [OF _ that, where P = "\<lambda>pn new k s r. replays s (snd r)"])
    fix f pn new k s r
    assume 1: "\<And>pn new k s r. f pn new k s = Some r \<Longrightarrow> replays s (snd r)"
      "(do {
         nd \<leftarrow> nodes s pn;
         if parent nd = BP_INVALID_PAGE_NUM then new_root pn new k s
         else do {
           p \<leftarrow> nodes s (parent nd);
           if node_size p < Bplus_Node.max_size (file_header s) p then do { s1 \<leftarrow> insert_child (parent nd) k new s; Some (SUCCESS, s1) }
           else do {
             (rc, new_pp, s1) \<leftarrow> split False (parent nd) s;
             if OB_FAIL rc then Some (rc, s1)
             else do {
               np \<leftarrow> nodes s1 new_pp;
               k0 \<leftarrow> key_at np 0;
               s2 \<leftarrow> insert_child (if 0 < key_comparator s k k0 then new_pp else parent nd) k new s1;
               np2 \<leftarrow> nodes s2 new_pp;
               k1 \<leftarrow> key_at np2 0;
               f (parent nd) new_pp k1 s2
             }
           }
         }
       }) = Some r"
    obtain nd where nd: "nodes s pn = Some nd" using 1(2) by (auto simp: bind_eq_Some_conv)
    show "replays s (snd r)"
    proof (cases "parent nd = BP_INVALID_PAGE_NUM")
      case True
      then have "new_root pn new k s = Some r" using 1(2) nd by simp
      then show ?thesis using new_root_replays [of pn new k s "fst r" "snd r"] by simp
    next
      case False
      then obtain p where p: "nodes s (parent nd) = Some p" using 1(2) nd by (auto simp: bind_eq_Some_conv)
      show ?thesis
      proof (cases "node_size p < Bplus_Node.max_size (file_header s) p")
        case True
        then obtain s1 where "insert_child (parent nd) k new s = Some s1" "r = (SUCCESS, s1)"
          using 1(2) nd False p by (auto simp: bind_eq_Some_conv)
        then show ?thesis using internal_ops_replay(3) by simp
      next
        case full: False
        obtain rc new_pp s1 where sp: "split False (parent nd) s = Some (rc, new_pp, s1)"
          using 1(2) nd False p full by (auto simp: bind_eq_Some_conv)
        note S = split_replays [OF sp]
        show ?thesis
        proof (cases "OB_FAIL rc")
          case True
          then have "(rc, s1) = r" using 1(2) nd False p full sp by simp
          then show ?thesis using S by (metis snd_conv)
        next
          case ok: False
          obtain q s2 k1 where "insert_child q k new s1 = Some s2" "f (parent nd) new_pp k1 s2 = Some r"
            using 1(2) nd False p full sp ok by (auto simp: bind_eq_Some_conv)
          then show ?thesis using replays_trans [OF S replays_trans [OF internal_ops_replay(3) 1(1)]] by blast
        qed
      qed
    qed
  qed
  then show "insert_entry_into_parent pn new k s = Some (rc, s') \<Longrightarrow> replays s s'" by force
qed

lemma insert_into_leaf_replays [replaying]: "insert_entry_into_leaf_node pn k rid s = Some (rc, s') \<Longrightarrow> replays s s'"
proof -
  assume r: "insert_entry_into_leaf_node pn k rid s = Some (rc, s')"
  obtain nd where nd: "nodes s pn = Some nd" using r by (auto simp: insert_entry_into_leaf_node_def bind_eq_Some_conv)
  obtain pos found where look: "leaf_lookup (key_comparator s) nd k = (pos, found)" by fastforce
  show ?thesis
  proof (cases "found \<or> node_size nd < Bplus_Node.max_size (file_header s) nd")
    case True
    then show ?thesis using r nd look
      by (auto simp: insert_entry_into_leaf_node_def bind_eq_Some_conv split: if_splits dest: leaf_ops_replay(1))
  next
    case False
    obtain rc0 new s1 where sp: "split True pn s = Some (rc0, new, s1)"
      using r nd look False by (auto simp: insert_entry_into_leaf_node_def bind_eq_Some_conv)
    note S = split_replays [OF sp]
    show ?thesis
    proof (cases "OB_FAIL rc0")
      case True
      then show ?thesis using r nd look False sp S by (simp add: insert_entry_into_leaf_node_def)
    next
      case ok: False
      obtain s2 s3 s4 s5 q i k0 where s: "set_next_page new (next_brother nd) s1 = Some s2" "set_parent_page_num new (parent nd) s2 = Some s3"
          "set_next_page pn new s3 = Some s4" "leaf_insert q i k rid s4 = Some s5" "insert_entry_into_parent pn new k0 s5 = Some (rc, s')"
        using r nd look False sp ok by (auto simp: insert_entry_into_leaf_node_def bind_eq_Some_conv split: if_splits)
      show ?thesis
        by (rule replays_trans [OF S replays_trans [OF set_next_replays [OF s(1)] replays_trans [OF set_parent_replays [OF s(2)]
            replays_trans [OF set_next_replays [OF s(3)] replays_trans [OF leaf_ops_replay(1) [OF s(4)] insert_into_parent_replays [OF s(5)]]]]]])
    qed
  qed
qed

lemma insert_key_replays: "insert_key k rid s = Some (rc, s') \<Longrightarrow> replays s s'"
  by (auto simp: insert_key_def bind_eq_Some_conv split: if_splits dest: create_new_tree_replays insert_into_leaf_replays)

lemma leaf_remove_key_replays: "leaf_remove_key pn k s = Some (n, s') \<Longrightarrow> replays s s'"
proof -
  assume r: "leaf_remove_key pn k s = Some (n, s')"
  obtain nd where nd: "nodes s pn = Some nd" using r by (auto simp: leaf_remove_key_def bind_eq_Some_conv)
  obtain i found where "leaf_lookup (key_comparator s) nd k = (i, found)" by fastforce
  then show ?thesis using r nd by (auto simp: leaf_remove_key_def bind_eq_Some_conv split: if_splits dest: remove_at_replays)
qed

lemma adjust_root_replays: "adjust_root pn s = Some s' \<Longrightarrow> replays s s'"
proof -
  assume r: "adjust_root pn s = Some s'"
  obtain nd where nd: "nodes s pn = Some nd" using r by (auto simp: adjust_root_def bind_eq_Some_conv)
  have d: "replays s1 (latch_dispose_page pn (update_root_page_num_locked root s1))" if "nodes s1 pn \<noteq> None" for root s1
    by (rule replays_trans [OF update_root_replays dispose_replays]) (use that in \<open>simp add: update_root_page_num_locked_def mtr_log_def\<close>)
  show ?thesis
  proof (cases "is_leaf nd")
    case True
    then show ?thesis using r nd d [of s] by (auto simp: adjust_root_def split: if_splits)
  next
    case False
    then obtain c s1 where s: "set_parent_page_num c BP_INVALID_PAGE_NUM s = Some s1" "s' = latch_dispose_page pn (update_root_page_num_locked c s1)"
      using r nd by (auto simp: adjust_root_def bind_eq_Some_conv)
    have "nodes s1 pn \<noteq> None" using s(1) nd by (auto simp: set_parent_page_num_def bind_eq_Some_conv put_node_def mtr_log_def)
    then show ?thesis unfolding s(2) by (rule replays_trans [OF set_parent_replays [OF s(1)] d])
  qed
qed

lemma redistribute_replays: "redistribute leaf neighbor pn pp index s = Some s' \<Longrightarrow> replays s s'"
  by (cases leaf; cases "index = 0")
    (auto simp: redistribute_def bind_eq_Some_conv intro: replays_trans [OF move_ops_replay(2)] replays_trans [OF move_ops_replay(3)]
      replays_trans [OF move_ops_replay(6)] replays_trans [OF move_ops_replay(7)] set_key_replays)

lemma moved_from:
  "leaf_move_to pn other s = Some s' \<Longrightarrow> nodes s' pn \<noteq> None"
  "internal_move_to pn other s = Some s' \<Longrightarrow> nodes s' pn \<noteq> None"
  by (auto simp: leaf_move_to_def internal_move_to_def node_remove_items_def put_node_def bind_eq_Some_conv)

lemma coalesce_replays: "coalesce leaf neighbor pn pp index s = Some s' \<Longrightarrow> replays s s'"
proof -
  assume r: "coalesce leaf neighbor pn pp index s = Some s'"
  let ?left = "if index = 0 then pn else neighbor" and ?right = "if index = 0 then neighbor else pn"
  obtain s1 s2 ln s3 where s: "node_remove_at pp (if index = 0 then 1 else index) s = Some s1"
      "(if leaf then leaf_move_to ?right ?left s1 else internal_move_to ?right ?left s1) = Some s2" "nodes s2 ?left = Some ln"
      "(if is_leaf ln then do { rn \<leftarrow> nodes s2 ?right; set_next_page ?left (next_brother rn) s2 } else Some s2) = Some s3"
      "s' = latch_dispose_page ?right s3"
    using r by (auto simp: coalesce_def Let_def bind_eq_Some_conv split del: if_split cong: if_cong)
  have m: "replays s1 s2 \<and> nodes s2 ?right \<noteq> None"
  proof (cases leaf)
    case True
    then have "leaf_move_to ?right ?left s1 = Some s2" using s(2) by simp
    then show ?thesis using leaf_move_to_replays moved_from by blast
  next
    case False
    then have "internal_move_to ?right ?left s1 = Some s2" using s(2) by simp
    then show ?thesis using move_ops_replay(5) moved_from by blast
  qed
  have n: "replays s2 s3 \<and> nodes s3 ?right \<noteq> None"
  proof (cases "is_leaf ln")
    case True
    then obtain n where n: "set_next_page ?left n s2 = Some s3" using s(4) by (auto simp: bind_eq_Some_conv)
    have "nodes s3 ?right \<noteq> None" using n m by (auto simp: set_next_page_def bind_eq_Some_conv put_node_def mtr_log_def)
    then show ?thesis using set_next_replays [OF n] by blast
  next
    case False
    then have "s3 = s2" using s(4) by simp
    then show ?thesis using m by blast
  qed
  show ?thesis
    unfolding s(5) using m n replays_trans [OF remove_at_replays [OF s(1)]] replays_trans dispose_replays by blast
qed

lemma coalesce_or_redistribute_replays: "coalesce_or_redistribute leaf pn s = Some (rc, s') \<Longrightarrow> replays s s'"
proof -
  have "replays s (snd r)" if "coalesce_or_redistribute leaf pn s = Some r" for r
  proof (rule coalesce_or_redistribute.raw_induct [OF _ that, where P = "\<lambda>leaf pn s r. replays s (snd r)"])
    fix f leaf pn s r
    assume 1: "\<And>leaf pn s r. f leaf pn s = Some r \<Longrightarrow> replays s (snd r)"
      "(do {
         nd \<leftarrow> nodes s pn;
         if min_size (file_header s) nd \<le> node_size nd then Some (SUCCESS, s)
         else if parent nd = BP_INVALID_PAGE_NUM
         then if 1 < node_size nd then Some (SUCCESS, s) else do { s1 \<leftarrow> adjust_root pn s; Some (SUCCESS, s1) }
         else do {
           p \<leftarrow> nodes s (parent nd);
           k \<leftarrow> (if node_size nd = 0 then None else key_at nd (node_size nd - 1));
           c \<leftarrow> value_at p (fst (internal_lookup (key_comparator s) p k));
           if c \<noteq> pn then None
           else do {
             neighbor \<leftarrow> value_at p (case fst (internal_lookup (key_comparator s) p k) of 0 \<Rightarrow> 1 | Suc i \<Rightarrow> i);
             nn \<leftarrow> nodes s neighbor;
             if Bplus_Node.max_size (file_header s) nd < node_size nd + node_size nn
             then do {
               s1 \<leftarrow> redistribute leaf neighbor pn (parent nd) (fst (internal_lookup (key_comparator s) p k)) s;
               Some (SUCCESS, s1)
             }
             else do {
               s1 \<leftarrow> coalesce leaf neighbor pn (parent nd) (fst (internal_lookup (key_comparator s) p k)) s;
               f False (parent nd) s1
             }
           }
         }
       }) = Some r"
    obtain nd where nd: "nodes s pn = Some nd" using 1(2) by (auto simp: bind_eq_Some_conv)
    show "replays s (snd r)"
    proof (cases "min_size (file_header s) nd \<le> node_size nd \<or> parent nd = BP_INVALID_PAGE_NUM")
      case True
      then show ?thesis using 1(2) nd by (auto simp: bind_eq_Some_conv split: if_splits dest: adjust_root_replays)
    next
      case False
      then obtain neighbor i where "(\<exists>s1. redistribute leaf neighbor pn (parent nd) i s = Some s1 \<and> r = (SUCCESS, s1)) \<or>
          (\<exists>s1. coalesce leaf neighbor pn (parent nd) i s = Some s1 \<and> f False (parent nd) s1 = Some r)"
        using 1(2) nd by (auto simp: bind_eq_Some_conv split: if_splits)
      then show ?thesis
      proof (elim disjE exE conjE)
        fix s1
        assume "redistribute leaf neighbor pn (parent nd) i s = Some s1" "r = (SUCCESS, s1)"
        then show ?thesis using redistribute_replays by simp
      next
        fix s1
        assume c: "coalesce leaf neighbor pn (parent nd) i s = Some s1" "f False (parent nd) s1 = Some r"
        show ?thesis by (rule replays_trans [OF coalesce_replays [OF c(1)] 1(1) [OF c(2)]])
      qed
    qed
  qed
  then show "coalesce_or_redistribute leaf pn s = Some (rc, s') \<Longrightarrow> replays s s'" by force
qed

lemma delete_key_replays: "delete_key k s = Some (rc, s') \<Longrightarrow> replays s s'"
  by (auto simp: delete_key_def delete_entry_internal_def bind_eq_Some_conv split: if_splits
      intro: leaf_remove_key_replays replays_trans [OF leaf_remove_key_replays coalesce_or_redistribute_replays])

end
