(* ===== verification/Bplus_Effects.thy ===== *)
theory Bplus_Effects
  imports Bplus_Tree
begin

text \<open>
  What the operations on nodes do to the state: they change \<open>nodes\<close> and append to the log of the mini transaction, nothing else.
  \<open>edit s N es\<close> is the state with the pages \<open>N\<close> and the further log entries \<open>es\<close>. The pool of pages is described by \<open>pool_ok\<close>
  and by the number of pages that can still be handed out.
\<close>

section \<open>Edits\<close>

definition edit :: "BplusTree \<Rightarrow> (int \<rightharpoonup> IndexNode) \<Rightarrow> LogEntryHandler list \<Rightarrow> BplusTree" where
  "edit s N es = s\<lparr>nodes := N, logged := logged s @ es\<rparr>"

lemma edit_fields [simp]:
  "nodes (edit s N es) = N" "file_header (edit s N es) = file_header s" "key_comparator (edit s N es) = key_comparator s"
  "free_pages (edit s N es) = free_pages s" "page_count (edit s N es) = page_count s" "max_pages (edit s N es) = max_pages s"
  "disposed_pages (edit s N es) = disposed_pages s" "wal (edit s N es) = wal s" "logged (edit s N es) = logged s @ es"
  by (simp_all add: edit_def)

lemma edit_edit [simp]: "edit (edit s N es) N' es' = edit s N' (es @ es')"
  by (simp add: edit_def)

lemma put_mtr [simp]: "put_node pn nd (mtr_log e s) = edit s ((nodes s)(pn \<mapsto> nd)) [e]"
  by (simp add: put_node_def mtr_log_def edit_def)

lemma set_parent_edit: "nodes s pn = Some nd \<Longrightarrow> \<exists>es. set_parent_page_num pn p s = Some (edit s ((nodes s)(pn \<mapsto> nd\<lparr>parent := p\<rparr>)) es)"
  by (simp add: set_parent_page_num_def) blast

lemma set_next_edit: "nodes s pn = Some nd \<Longrightarrow> \<exists>es. set_next_page pn p s = Some (edit s ((nodes s)(pn \<mapsto> nd\<lparr>next_brother := p\<rparr>)) es)"
  by (simp add: set_next_page_def) blast

lemma insert_items_edit:
  "nodes s pn = Some nd \<Longrightarrow> i \<le> node_size nd \<Longrightarrow>
   \<exists>es. node_insert_items pn i its s = Some (edit s ((nodes s)(pn \<mapsto> nd\<lparr>items := take i (items nd) @ its @ drop i (items nd)\<rparr>)) es)"
  by (simp add: node_insert_items_def recover_insert_items_def) blast

lemma remove_items_edit:
  "nodes s pn = Some nd \<Longrightarrow> i + n \<le> node_size nd \<Longrightarrow>
   \<exists>es. node_remove_items pn i n s = Some (edit s ((nodes s)(pn \<mapsto> nd\<lparr>items := take i (items nd) @ drop (i + n) (items nd)\<rparr>)) es)"
  by (simp add: node_remove_items_def recover_remove_items_def) blast

definition reparent :: "item list \<Rightarrow> int \<Rightarrow> (int \<rightharpoonup> IndexNode) \<Rightarrow> (int \<rightharpoonup> IndexNode)" where
  "reparent its p N = (\<lambda>c. if Page c \<in> snd ` set its then map_option (parent_update (\<lambda>_. p)) (N c) else N c)"

definition children_in :: "(int \<rightharpoonup> IndexNode) \<Rightarrow> item list \<Rightarrow> bool" where
  "children_in N its \<longleftrightarrow> (\<forall>x\<in>set its. \<exists>c. snd x = Page c \<and> N c \<noteq> None)"

lemma children_in_upd: "children_in N its \<Longrightarrow> children_in (N(p \<mapsto> nd)) its"
  unfolding children_in_def by (metis fun_upd_apply option.distinct(1))

lemma children_in_Cons: "children_in N (x # its) \<longleftrightarrow> (\<exists>c. snd x = Page c \<and> N c \<noteq> None) \<and> children_in N its"
  by (simp add: children_in_def)

lemma reparent_upd_same: "Page pn \<notin> snd ` set its \<Longrightarrow> reparent its p (N(pn \<mapsto> nd)) = (reparent its p N)(pn \<mapsto> nd)"
  by (auto simp: reparent_def)

lemma set_parents_edit:
  "children_in (nodes s) its \<Longrightarrow> \<exists>es. set_parents p its s = Some (edit s (reparent its p (nodes s)) es)"
proof (induction its arbitrary: s)
  case Nil
  have "s = edit s (reparent [] p (nodes s)) []" by (simp add: edit_def reparent_def)
  then show ?case by (metis set_parents.simps(1))
next
  case (Cons x its)
  obtain k c where x: "x = (k, Page c)" using Cons(2) by (cases x) (auto simp: children_in_def)
  obtain nd where nd: "nodes s c = Some nd" using Cons(2) by (auto simp: children_in_def x)
  obtain es where s1: "set_parent_page_num c p s = Some (edit s ((nodes s)(c \<mapsto> nd\<lparr>parent := p\<rparr>)) es)"
    using set_parent_edit [of s c nd p, OF nd] by blast
  have "children_in (nodes (edit s ((nodes s)(c \<mapsto> nd\<lparr>parent := p\<rparr>)) es)) its"
    using children_in_upd [of "nodes s" its] Cons(2) unfolding edit_fields children_in_Cons by blast
  from Cons(1) [OF this] obtain es' where
    s2: "set_parents p its (edit s ((nodes s)(c \<mapsto> nd\<lparr>parent := p\<rparr>)) es) =
      Some (edit s (reparent its p ((nodes s)(c \<mapsto> nd\<lparr>parent := p\<rparr>))) (es @ es'))"
    unfolding edit_fields edit_edit by blast
  have "reparent its p ((nodes s)(c \<mapsto> nd\<lparr>parent := p\<rparr>)) = reparent (x # its) p (nodes s)"
    using nd by (auto simp: reparent_def x)
  then have "set_parents p (x # its) s = Some (edit s (reparent (x # its) p (nodes s)) (es @ es'))" using s1 s2 by (simp add: x)
  then show ?case by blast
qed

lemma internal_append_edit:
  assumes "nodes s pn = Some nd" "Page pn \<notin> snd ` set its" "children_in (nodes s) its"
  shows "\<exists>es. internal_append pn its s = Some (edit s ((reparent its pn (nodes s))(pn \<mapsto> nd\<lparr>items := items nd @ its\<rparr>)) es)"
proof -
  obtain es where e: "node_insert_items pn (node_size nd) its s = Some (edit s ((nodes s)(pn \<mapsto> nd\<lparr>items := items nd @ its\<rparr>)) es)"
    using insert_items_edit [of s pn nd "node_size nd" its] assms(1) by auto
  let ?s = "edit s ((nodes s)(pn \<mapsto> nd\<lparr>items := items nd @ its\<rparr>)) es"
  have "children_in (nodes ?s) its" using assms(3) by (simp add: children_in_upd)
  from set_parents_edit [OF this, of pn] show ?thesis
    using assms(1,2) e by (auto simp: internal_append_def internal_insert_items_def reparent_upd_same)
qed

section \<open>Allocation\<close>

definition pool_ok :: "BplusTree \<Rightarrow> int set \<Rightarrow> bool" where
  "pool_ok s D \<longleftrightarrow> 0 \<le> page_count s \<and> distinct (free_pages s) \<and> distinct (disposed_pages s) \<and>
     (\<forall>p \<in> D \<union> set (free_pages s) \<union> set (disposed_pages s). 0 \<le> p \<and> p < page_count s) \<and>
     set (free_pages s) \<inter> D = {} \<and> set (disposed_pages s) \<inter> D = {} \<and> set (free_pages s) \<inter> set (disposed_pages s) = {}"

definition room :: "BplusTree \<Rightarrow> nat" where
  "room s = length (free_pages s) + nat (max_pages s - page_count s)"

definition kept :: "BplusTree \<Rightarrow> BplusTree \<Rightarrow> bool" where
  "kept s s' \<longleftrightarrow> (file_header s')\<lparr>root_page := 0\<rparr> = (file_header s)\<lparr>root_page := 0\<rparr> \<and> key_comparator s' = key_comparator s \<and> wal s' = wal s \<and>
     max_pages s' = max_pages s"

lemma keptI:
  "file_header s' = file_header s \<Longrightarrow> key_comparator s' = key_comparator s \<Longrightarrow> wal s' = wal s \<Longrightarrow> max_pages s' = max_pages s \<Longrightarrow> kept s s'"
  by (simp add: kept_def)

lemma kept_refl [simp]: "kept s s"
  by (rule keptI) simp_all

lemma kept_trans: "kept s s' \<Longrightarrow> kept s' s'' \<Longrightarrow> kept s s''"
  by (auto simp: kept_def)

lemma kept_edit [simp]: "kept s (edit s' N es) = kept s s'"
  by (simp add: kept_def)

lemma pool_ok_edit [simp]: "pool_ok (edit s N es) D = pool_ok s D"
  by (simp add: pool_ok_def)

lemma room_edit [simp]: "room (edit s N es) = room s"
  by (simp add: room_def)

lemma kept_sizes:
  assumes "kept s s'"
  shows "leaf_max_size (file_header s') = leaf_max_size (file_header s)" "internal_max_size (file_header s') = internal_max_size (file_header s)"
    "max_size (file_header s') = max_size (file_header s)" "key_comparator s' = key_comparator s"
proof -
  have h: "(file_header s')\<lparr>root_page := 0\<rparr> = (file_header s)\<lparr>root_page := 0\<rparr>" using assms by (simp add: kept_def)
  show l: "leaf_max_size (file_header s') = leaf_max_size (file_header s)" using arg_cong [OF h, of leaf_max_size] by simp
  show i: "internal_max_size (file_header s') = internal_max_size (file_header s)" using arg_cong [OF h, of internal_max_size] by simp
  show "max_size (file_header s') = max_size (file_header s)" by (rule ext) (simp add: max_size_def l i)
  show "key_comparator s' = key_comparator s" using assms by (simp add: kept_def)
qed

lemma allocate:
  assumes "pool_ok s D" "0 < room s"
  obtains p s0 where "latch_allocate_page s = (SUCCESS, p, s0)" "p \<notin> D" "0 \<le> p" "pool_ok s0 (insert p D)" "Suc (room s0) = room s"
    "kept s s0" "nodes s0 = nodes s" "file_header s0 = file_header s" "disposed_pages s0 = disposed_pages s" "logged s0 = logged s"
proof (cases "free_pages s")
  case Nil
  then have "page_count s < max_pages s" using assms(2) by (simp add: room_def)
  moreover have "p \<le> page_count s" if "p \<in> D \<or> p \<in> set (disposed_pages s)" for p
  proof -
    have "p < page_count s" using that assms(1) by (auto simp: pool_ok_def)
    then show ?thesis by simp
  qed
  ultimately show ?thesis
    by (intro that [of "page_count s" "s\<lparr>page_count := page_count s + 1\<rparr>"])
      (use assms Nil in \<open>auto simp: latch_allocate_page_def pool_ok_def room_def intro: keptI\<close>)
next
  case (Cons p ps)
  show ?thesis
    by (rule that [of p "s\<lparr>free_pages := ps\<rparr>"])
      (use assms Cons in \<open>auto simp: latch_allocate_page_def pool_ok_def room_def intro: keptI\<close>)
qed

end
