(* ===== verification/Bplus_Order.thy ===== *)
theory Bplus_Order
  imports Bplus_Effects
begin

text \<open>
  Searching in the nodes of the B+ tree. \<open>key_order\<close> is what the tree needs of its comparator: on the keys that occur
  (\<open>valid\<close>) it decides the order of a rank in a linear order. From it follow the search in a leaf and in an internal node, and the
  intervals of ranks that an internal node gives to its children.
\<close>

locale key_order =
  fixes cmp :: "key \<Rightarrow> key \<Rightarrow> int" and rank :: "key \<Rightarrow> 'r::linorder" and valid :: "key \<Rightarrow> bool"
  assumes cmp_less: "valid a \<Longrightarrow> valid b \<Longrightarrow> cmp a b < 0 \<longleftrightarrow> rank a < rank b"
    and cmp_zero: "valid a \<Longrightarrow> valid b \<Longrightarrow> cmp a b = 0 \<longleftrightarrow> rank a = rank b"
begin

abbreviation irank :: "item \<Rightarrow> 'r" where
  "irank x \<equiv> rank (fst x)"

lemma cmp_pos: "valid a \<Longrightarrow> valid b \<Longrightarrow> 0 < cmp a b \<longleftrightarrow> rank b < rank a"
  using cmp_less [of a b] cmp_zero [of a b] by (metis linorder_neqE neq_iff order_less_imp_not_less)

lemma cmp_le: "valid a \<Longrightarrow> valid b \<Longrightarrow> cmp a b \<le> 0 \<longleftrightarrow> rank a \<le> rank b"
  using cmp_pos [of a b] by (simp add: not_less [symmetric])

lemma cmp_ge: "valid a \<Longrightarrow> valid b \<Longrightarrow> 0 \<le> cmp a b \<longleftrightarrow> rank b \<le> rank a"
  using cmp_less [of a b] by (simp add: not_less [symmetric])

section \<open>Binary search in the items\<close>

definition ascending :: "item list \<Rightarrow> bool" where
  "ascending xs \<longleftrightarrow> sorted_wrt (\<lambda>x y. irank x < irank y) xs"

lemma lower_bound_items:
  assumes asc: "ascending xs" and val: "\<forall>x\<in>set xs. valid (fst x)" and k: "valid k"
    and lb: "lower_bound (\<lambda>x. cmp (fst x)) xs k = (p, found)"
  shows "p \<le> length xs" and "\<And>i. i < p \<Longrightarrow> irank (xs ! i) < rank k"
    and "\<And>i. p \<le> i \<Longrightarrow> i < length xs \<Longrightarrow> rank k \<le> irank (xs ! i)"
    and "found \<longleftrightarrow> (\<exists>x\<in>set xs. irank x = rank k)" and "found \<Longrightarrow> p < length xs \<and> irank (xs ! p) = rank k"
proof -
  have v: "valid (fst (xs ! i))" if "i < length xs" for i using val that by simp
  have s: "irank (xs ! i) < irank (xs ! j)" if "i < j" "j < length xs" for i j
    using asc that by (simp add: ascending_def sorted_wrt_iff_nth_less)
  have part: "partitioned (\<lambda>x. cmp (fst x)) xs k"
    unfolding partitioned_def sorted_wrt_iff_nth_less
  proof (intro conjI allI impI)
    fix i j
    assume ij: "i < j" "j < length xs"
    note l = s [OF ij]
    have vij: "valid (fst (xs ! i))" "valid (fst (xs ! j))" using v ij by auto
    show "cmp (fst (xs ! i)) k < 0" if "cmp (fst (xs ! j)) k \<le> 0" using that l cmp_le [OF vij(2) k] cmp_less [OF vij(1) k] by simp
    show "0 < cmp (fst (xs ! j)) k" if "0 \<le> cmp (fst (xs ! i)) k" using that l cmp_ge [OF vij(1) k] cmp_pos [OF vij(2) k] by simp
  qed
  note f = lower_bound_partitioned [OF part lb]
  show p: "p \<le> length xs" using f(1) by (simp add: split_point_def)
  show lt: "irank (xs ! i) < rank k" if "i < p" for i
    using f(1) that p cmp_less [OF v k, of i] by (simp add: split_point_def)
  show ge: "rank k \<le> irank (xs ! i)" if "p \<le> i" "i < length xs" for i
    using f(1) that cmp_ge [OF v k, of i] by (simp add: split_point_def)
  show fp: "p < length xs \<and> irank (xs ! p) = rank k" if found
    using f(2) that cmp_zero [OF v k, of p] by simp
  show "found \<longleftrightarrow> (\<exists>x\<in>set xs. irank x = rank k)"
  proof
    assume "\<exists>x\<in>set xs. irank x = rank k"
    then obtain i where i: "i < length xs" "irank (xs ! i) = rank k" by (auto simp: in_set_conv_nth)
    have "\<not> i < p" using lt [of i] i(2) by auto
    moreover have "\<not> p < i" using s [of p i] ge [of p] i by fastforce
    ultimately have "i = p" by simp
    then show found using f(2) i cmp_zero [OF v k, of p] by simp
  qed (use fp in auto)
qed

section \<open>Intervals\<close>

definition above :: "'r option \<Rightarrow> 'r \<Rightarrow> bool" where
  "above l r = (case l of None \<Rightarrow> True | Some a \<Rightarrow> a \<le> r)"

definition below :: "'r option \<Rightarrow> 'r \<Rightarrow> bool" where
  "below h r = (case h of None \<Rightarrow> True | Some b \<Rightarrow> r < b)"

definition nonempty :: "'r option \<Rightarrow> 'r option \<Rightarrow> bool" where
  "nonempty l h = (case l of None \<Rightarrow> True | Some a \<Rightarrow> below h a)"

lemma above_simps [simp]: "above None r" "above (Some a) r \<longleftrightarrow> a \<le> r"
  by (simp_all add: above_def)

lemma below_simps [simp]: "below None r" "below (Some b) r \<longleftrightarrow> r < b"
  by (simp_all add: below_def)

lemma nonempty_simps [simp]: "nonempty None h" "nonempty (Some a) h \<longleftrightarrow> below h a"
  by (simp_all add: nonempty_def)

lemma nonempty_None [simp]: "nonempty l None"
  by (cases l) simp_all

lemma below_trans: "below h b \<Longrightarrow> a \<le> b \<Longrightarrow> below h a"
  by (cases h) auto

lemma above_trans: "above l a \<Longrightarrow> a \<le> b \<Longrightarrow> above l b"
  by (cases l) auto

lemma nonempty_witness: "above l r \<Longrightarrow> below h r \<Longrightarrow> nonempty l h"
  by (cases l; cases h) auto

fun kids :: "'r option \<Rightarrow> 'r option \<Rightarrow> item list \<Rightarrow> (node_value \<times> 'r option \<times> 'r option) list" where
  \<comment> \<open>the children of an internal node with their intervals, the first key is ignored\<close>
  "kids l h [] = []"
| "kids l h [x] = [(snd x, l, h)]"
| "kids l h (x # y # xs) = (snd x, l, Some (irank y)) # kids (Some (irank y)) h (y # xs)"

lemma length_kids [simp]: "length (kids l h xs) = length xs"
  by (induction l h xs rule: kids.induct) simp_all

lemma kids_eq_Nil [simp]: "kids l h xs = [] \<longleftrightarrow> xs = []"
  using length_kids [of l h xs] by (metis length_0_conv)

lemma map_fst_kids: "map fst (kids l h xs) = map snd xs"
  by (induction l h xs rule: kids.induct) simp_all

lemma kids_Cons: "kids l h (x # xs) = (snd x, l, case xs of [] \<Rightarrow> h | y # _ \<Rightarrow> Some (irank y)) # (case xs of [] \<Rightarrow> [] | y # _ \<Rightarrow> kids (Some (irank y)) h xs)"
  by (cases xs) simp_all

lemma kids_append:
  "xs \<noteq> [] \<Longrightarrow> kids l h (xs @ y # ys) = kids l (Some (irank y)) xs @ kids (Some (irank y)) h (y # ys)"
  by (induction l h xs rule: kids.induct) simp_all

lemma kids_mid:
  "kids l h (as @ x # bs) =
     kids l (Some (irank x)) as @
     (snd x, if as = [] then l else Some (irank x), case bs of [] \<Rightarrow> h | y # _ \<Rightarrow> Some (irank y)) #
     (case bs of [] \<Rightarrow> [] | y # _ \<Rightarrow> kids (Some (irank y)) h bs)"
  by (cases "as = []") (simp_all add: kids_append kids_Cons)

lemma kids_nth:
  "i < length xs \<Longrightarrow> kids l h xs ! i =
     (snd (xs ! i), if i = 0 then l else Some (irank (xs ! i)), if Suc i < length xs then Some (irank (xs ! Suc i)) else h)"
proof (induction l h xs arbitrary: i rule: kids.induct)
  case (3 l h x y xs)
  then show ?case by (cases i) auto
qed auto

lemma kids_ascending:
  assumes "\<forall>(v, l', h')\<in>set (kids l h xs). nonempty l' h'"
  shows "ascending (tl xs)" and "\<forall>x\<in>set (tl xs). nonempty l (Some (irank x)) \<and> below h (irank x)"
  using assms
proof (induction l h xs rule: kids.induct)
  case (3 l h x y xs)
  {
    case 1
    have "nonempty (Some (irank y)) (Some (irank z))" if "z \<in> set xs" for z using "3.IH"(2) 1 that by simp
    then show ?case using "3.IH"(1) 1 by (auto simp: ascending_def)
  next
    case 2
    have y: "nonempty l (Some (irank y))" using 2 by simp
    have "nonempty (Some (irank y)) (Some (irank z)) \<and> below h (irank z)" if "z \<in> set xs" for z using "3.IH"(2) 2 that by simp
    moreover have "below h (irank y)"
    proof (cases xs)
      case (Cons z zs)
      then have "nonempty (Some (irank y)) (Some (irank z)) \<and> below h (irank z)" using "3.IH"(2) 2 by simp
      then show ?thesis using below_trans [of h "irank z" "irank y"] less_imp_le by auto
    qed (use 2 in simp)
    ultimately show ?case using y by (cases l) (auto intro: less_trans)
  }
qed (simp_all add: ascending_def)

lemma kids_low_less:
  assumes "\<forall>(v, l', h')\<in>set (kids l h xs). nonempty l' h'" and "i < j" and "j < length xs"
  shows "fst (snd (kids l h xs ! i)) \<noteq> fst (snd (kids l h xs ! j))"
proof -
  note a = kids_ascending [OF assms(1)]
  have j: "xs ! j = tl xs ! (j - 1)" "j - 1 < length (tl xs)" using assms(2,3) by (auto simp: nth_tl)
  have "nonempty l (Some (irank (xs ! j)))" using a(2) j by auto
  moreover have "irank (xs ! i) < irank (xs ! j)" if "0 < i"
  proof -
    have "xs ! i = tl xs ! (i - 1)" using assms(2,3) that by (auto simp: nth_tl)
    then show ?thesis using a(1) j assms(2) that by (simp add: ascending_def sorted_wrt_iff_nth_less)
  qed
  ultimately show ?thesis using assms(2,3) by (cases l) (auto simp: kids_nth)
qed

lemma kids_distinct:
  assumes "\<forall>(v, l', h')\<in>set (kids l h xs). nonempty l' h'"
  shows "distinct (map (fst \<circ> snd) (kids l h xs))"
  unfolding distinct_conv_nth using kids_low_less [OF assms] by (metis comp_apply length_kids length_map linorder_neqE_nat nth_map)

section \<open>The child for a key\<close>

lemma internal_lookup_child:
  assumes ne: "\<forall>(v, l', h')\<in>set (kids l h (items nd)). nonempty l' h'" and val: "\<forall>x\<in>set (tl (items nd)). valid (fst x)"
    and k: "valid k" and nonnil: "items nd \<noteq> []" and look: "internal_lookup cmp nd k = (i, pos)"
  shows "i < node_size nd" and "0 < i \<Longrightarrow> irank (items nd ! i) \<le> rank k"
    and "Suc i < node_size nd \<Longrightarrow> rank k < irank (items nd ! Suc i)"
    and "pos \<le> node_size nd" and "(\<forall>x\<in>set (tl (items nd)). irank x \<noteq> rank k) \<Longrightarrow> pos = Suc i"
proof -
  obtain x0 xs where it: "items nd = x0 # xs" using nonnil by (cases "items nd") auto
  obtain p found where lb: "lower_bound (\<lambda>x. cmp (fst x)) xs k = (p, found)" by fastforce
  have asc: "ascending xs" and val': "\<forall>x\<in>set xs. valid (fst x)" using kids_ascending(1) [OF ne] val by (simp_all add: it)
  note s = lower_bound_items [OF asc val' k lb]
  have c: "cmp k (fst (xs ! p)) < 0 \<longleftrightarrow> rank k < irank (xs ! p)" if "p < length xs"
    by (rule cmp_less [OF k]) (use val' that in simp)
  have pos: "pos = Suc p" and i: "i = (if length xs \<le> p \<or> rank k < irank (xs ! p) then p else Suc p)"
    using look c not_le [of "length xs" p] by (auto simp: internal_lookup_def it lb Let_def split: if_splits)
  show "pos \<le> node_size nd" using pos s(1) by (simp add: it)
  show "i < node_size nd" using i s(1) by (auto simp: it)
  show "irank (items nd ! i) \<le> rank k" if "0 < i"
  proof (cases "i = p")
    case True
    then obtain q where q: "p = Suc q" using \<open>0 < i\<close> by (cases p) auto
    then have "irank (xs ! q) < rank k" using s(2) [of q] by simp
    then show ?thesis by (simp add: it True q)
  next
    case False
    then show ?thesis using i by (auto simp: it split: if_splits)
  qed
  show "rank k < irank (items nd ! Suc i)" if "Suc i < node_size nd"
  proof (cases "i = p")
    case True
    then show ?thesis using i that by (auto simp: it split: if_splits)
  next
    case False
    then have *: "i = Suc p" "p < length xs" using i by (auto split: if_splits)
    moreover have "rank k \<le> irank (xs ! p)" using s(3) * by simp
    moreover have "irank (xs ! p) < irank (xs ! Suc p)"
      using asc that * by (simp add: ascending_def sorted_wrt_iff_nth_less it)
    ultimately show ?thesis by (simp add: it)
  qed
  show "pos = Suc i" if neq: "\<forall>x\<in>set (tl (items nd)). irank x \<noteq> rank k"
  proof (cases "p < length xs")
    case True
    then have "rank k \<le> irank (xs ! p)" "irank (xs ! p) \<noteq> rank k" using s(3) [of p] neq by (auto simp: it)
    then show ?thesis using i pos by auto
  next
    case False
    then show ?thesis using i pos by simp
  qed
qed

end

end
