(* ===== verification/Bplus_Shape.thy ===== *)
theory Bplus_Shape
  imports Bplus_Order
begin

text \<open>
  The shape of a B+ tree in its pages. A ghost gives every page of the tree its level and the interval of the ranks that it is
  responsible for. The conditions are local to a page and its children: the children divide the interval of their parent at the
  keys, the parent links agree, and the keys of a leaf lie in its interval in ascending order. The first key of an internal node
  is the lower end of its interval, when it has one.

  While a split climbs to the root, a new page is not yet in its parent, and the interval its left sibling \<open>l\<close> has in the parent
  is that of both: \<open>X\<close> is the set of pages that have no parent yet, and \<open>eh\<close> the upper ends that the parents know.
\<close>

record 'r ghost =
  gD :: "int set"
  glo :: "int \<Rightarrow> 'r option"
  ghi :: "int \<Rightarrow> 'r option"
  glv :: "int \<Rightarrow> nat"

context key_order
begin

definition child_ok ::
  "(int \<rightharpoonup> IndexNode) \<Rightarrow> 'r ghost \<Rightarrow> (int \<Rightarrow> 'r option) \<Rightarrow> int \<Rightarrow> node_value \<times> 'r option \<times> 'r option \<Rightarrow> bool" where
  "child_ok N g eh p x \<longleftrightarrow> (case x of (v, l, h) \<Rightarrow>
     \<exists>c. v = Page c \<and> c \<in> gD g \<and> map_option parent (N c) = Some p \<and> glo g c = l \<and> eh c = h \<and> Suc (glv g c) = glv g p)"

definition leaf_ok :: "'r option \<Rightarrow> 'r option \<Rightarrow> item list \<Rightarrow> bool" where
  "leaf_ok l h xs \<longleftrightarrow>
     ascending xs \<and> (\<forall>x\<in>set xs. valid (fst x) \<and> above l (irank x) \<and> below h (irank x) \<and> (\<exists>r. snd x = Rid r))"

definition inner_ok :: "(int \<rightharpoonup> IndexNode) \<Rightarrow> 'r ghost \<Rightarrow> (int \<Rightarrow> 'r option) \<Rightarrow> int \<Rightarrow> item list \<Rightarrow> bool" where
  "inner_ok N g eh p xs \<longleftrightarrow>
     xs \<noteq> [] \<and> (\<forall>x\<in>set (tl xs). valid (fst x)) \<and>
     (\<forall>r. glo g p = Some r \<longrightarrow> valid (fst (hd xs)) \<and> irank (hd xs) = r) \<and>
     (\<forall>x\<in>set (kids (glo g p) (ghi g p) xs). child_ok N g eh p x)"

definition page_ok :: "(int \<rightharpoonup> IndexNode) \<Rightarrow> 'r ghost \<Rightarrow> (int \<Rightarrow> 'r option) \<Rightarrow> int \<Rightarrow> bool" where
  "page_ok N g eh p \<longleftrightarrow> nonempty (glo g p) (ghi g p) \<and>
     (case N p of
        None \<Rightarrow> False
      | Some nd \<Rightarrow> if is_leaf nd then glv g p = 0 \<and> leaf_ok (glo g p) (ghi g p) (items nd)
                   else 0 < glv g p \<and> inner_ok N g eh p (items nd))"

definition has_child :: "(int \<rightharpoonup> IndexNode) \<Rightarrow> int \<Rightarrow> int \<Rightarrow> bool" where
  "has_child N p c \<longleftrightarrow> (\<exists>nd. N p = Some nd \<and> \<not> is_leaf nd \<and> Page c \<in> snd ` set (items nd))"

definition shape :: "(int \<rightharpoonup> IndexNode) \<Rightarrow> int \<Rightarrow> 'r ghost \<Rightarrow> int set \<Rightarrow> (int \<Rightarrow> 'r option) \<Rightarrow> bool" where
  "shape N root g X eh \<longleftrightarrow>
     root \<in> gD g \<and> root \<notin> X \<and> glo g root = None \<and> eh root = None \<and> map_option parent (N root) = Some (- 1) \<and> - 1 \<notin> gD g \<and>
     (\<forall>p\<in>gD g. page_ok N g eh p \<and> nonempty (glo g p) (eh p)) \<and>
     (\<forall>c\<in>gD g. c \<noteq> root \<longrightarrow> c \<notin> X \<longrightarrow> (\<exists>p\<in>gD g. has_child N p c)) \<and>
     (\<forall>p\<in>gD g. \<forall>c\<in>X. \<not> has_child N p c)"

lemma shapeI:
  assumes "root \<in> gD g" "root \<notin> X" "glo g root = None" "eh root = None" "map_option parent (N root) = Some (- 1)" "- 1 \<notin> gD g"
    and "\<And>p. p \<in> gD g \<Longrightarrow> page_ok N g eh p" and "\<And>p. p \<in> gD g \<Longrightarrow> nonempty (glo g p) (eh p)"
    and "\<And>c. c \<in> gD g \<Longrightarrow> c \<noteq> root \<Longrightarrow> c \<notin> X \<Longrightarrow> \<exists>p\<in>gD g. has_child N p c"
    and "\<And>p c. p \<in> gD g \<Longrightarrow> c \<in> X \<Longrightarrow> \<not> has_child N p c"
  shows "shape N root g X eh"
  using assms unfolding shape_def by blast

lemma shapeD:
  assumes "shape N root g X eh"
  shows "root \<in> gD g" "root \<notin> X" "glo g root = None" "eh root = None" "map_option parent (N root) = Some (- 1)" "- 1 \<notin> gD g"
    and "p \<in> gD g \<Longrightarrow> page_ok N g eh p" and "p \<in> gD g \<Longrightarrow> nonempty (glo g p) (eh p)"
    and "c \<in> gD g \<Longrightarrow> c \<noteq> root \<Longrightarrow> c \<notin> X \<Longrightarrow> \<exists>p\<in>gD g. has_child N p c"
    and "p \<in> gD g \<Longrightarrow> c \<in> X \<Longrightarrow> \<not> has_child N p c"
  using assms unfolding shape_def by blast+

lemma page_okD:
  assumes "page_ok N g eh p" "N p = Some nd"
  shows "nonempty (glo g p) (ghi g p)" and "is_leaf nd \<Longrightarrow> glv g p = 0" and "is_leaf nd \<Longrightarrow> leaf_ok (glo g p) (ghi g p) (items nd)"
    and "\<not> is_leaf nd \<Longrightarrow> 0 < glv g p" and "\<not> is_leaf nd \<Longrightarrow> inner_ok N g eh p (items nd)"
  using assms by (auto simp: page_ok_def)

lemma page_ok_node: "page_ok N g eh p \<Longrightarrow> \<exists>nd. N p = Some nd"
  by (auto simp: page_ok_def split: option.splits)

lemma page_okI:
  assumes "N p = Some nd" "nonempty (glo g p) (ghi g p)"
    and "is_leaf nd \<Longrightarrow> glv g p = 0 \<and> leaf_ok (glo g p) (ghi g p) (items nd)"
    and "\<not> is_leaf nd \<Longrightarrow> 0 < glv g p \<and> inner_ok N g eh p (items nd)"
  shows "page_ok N g eh p"
  using assms by (simp add: page_ok_def)

lemma inner_okD:
  assumes "inner_ok N g eh p xs"
  shows "xs \<noteq> []" and "\<forall>x\<in>set (tl xs). valid (fst x)" and "glo g p = Some r \<Longrightarrow> valid (fst (hd xs)) \<and> irank (hd xs) = r"
    and "x \<in> set (kids (glo g p) (ghi g p) xs) \<Longrightarrow> child_ok N g eh p x"
  using assms by (auto simp: inner_ok_def)

lemma child_okD:
  assumes "child_ok N g eh p (v, l, h)"
  obtains c where "v = Page c" "c \<in> gD g" "map_option parent (N c) = Some p" "glo g c = l" "eh c = h" "Suc (glv g c) = glv g p"
  using assms by (auto simp: child_ok_def simp del: map_option_eq_Some)

lemma kids_ne:
  assumes "shape N root g X eh" and "inner_ok N g eh p xs"
  shows "\<forall>(v, l', h')\<in>set (kids (glo g p) (ghi g p) xs). nonempty l' h'"
proof (clarify)
  fix v l' h'
  assume "(v, l', h') \<in> set (kids (glo g p) (ghi g p) xs)"
  from inner_okD(4) [OF assms(2) this] show "nonempty l' h'"
    by (rule child_okD) (use shapeD(8) [OF assms(1)] in blast)
qed

lemma items_kids: "v \<in> snd ` set xs \<Longrightarrow> \<exists>l' h'. (v, l', h') \<in> set (kids l h xs)"
proof -
  assume "v \<in> snd ` set xs"
  then have "v \<in> set (map fst (kids l h xs))" by (simp add: map_fst_kids)
  then show ?thesis unfolding set_map image_iff by (metis prod.collapse)
qed

lemma child_parent:
  assumes "shape N root g X eh" and "p \<in> gD g" and "has_child N p c"
  shows "c \<in> gD g" "map_option parent (N c) = Some p" "Suc (glv g c) = glv g p" "c \<noteq> root" "c \<noteq> p"
proof -
  obtain nd where nd: "N p = Some nd" "\<not> is_leaf nd" "Page c \<in> snd ` set (items nd)" using assms(3) by (auto simp: has_child_def)
  obtain l h where k: "(Page c, l, h) \<in> set (kids (glo g p) (ghi g p) (items nd))" using items_kids [OF nd(3)] by blast
  note i = page_okD(5) [OF shapeD(7) [OF assms(1,2)] nd(1,2)]
  from inner_okD(4) [OF i k] show c: "c \<in> gD g" "map_option parent (N c) = Some p" "Suc (glv g c) = glv g p"
    by (auto elim!: child_okD simp del: map_option_eq_Some)
  show "c \<noteq> root" using c(2) shapeD(5,6) [OF assms(1)] assms(2) by auto
  show "c \<noteq> p" using c(3) by auto
qed

lemma parent_of:
  assumes "shape N root g X eh" and "c \<in> gD g" "c \<noteq> root" "c \<notin> X"
  obtains p nd l h where "p \<in> gD g" "N p = Some nd" "\<not> is_leaf nd" "map_option parent (N c) = Some p" "glv g p = Suc (glv g c)"
    "inner_ok N g eh p (items nd)" "(Page c, l, h) \<in> set (kids (glo g p) (ghi g p) (items nd))" "has_child N p c"
proof -
  obtain p where p: "p \<in> gD g" "has_child N p c" using shapeD(9) [OF assms] by blast
  obtain nd where nd: "N p = Some nd" "\<not> is_leaf nd" "Page c \<in> snd ` set (items nd)" using p(2) by (auto simp: has_child_def)
  note i = page_okD(5) [OF shapeD(7) [OF assms(1) p(1)] nd(1,2)]
  show thesis using that [OF p(1) nd(1,2) child_parent(2) [OF assms(1) p] _ i _ p(2)] child_parent(3) [OF assms(1) p] items_kids [OF nd(3)] by metis
qed

section \<open>Descending to a leaf\<close>

lemma child_for_ok:
  assumes sh: "shape N root g X eh" and p: "p \<in> gD g" and nd: "N p = Some nd" "\<not> is_leaf nd"
    and k: "valid k" "above (glo g p) (rank k)" "below (ghi g p) (rank k)"
  obtains c where "child_for cmp k nd = Some c" "c \<in> gD g" "above (glo g c) (rank k)" "below (eh c) (rank k)" "Suc (glv g c) = glv g p"
    "\<exists>i pos. internal_lookup cmp nd k = (i, pos) \<and> i < node_size nd \<and> snd (items nd ! i) = Page c \<and>
       ((\<forall>x\<in>set (tl (items nd)). irank x \<noteq> rank k) \<longrightarrow> pos = Suc i)"
proof -
  note i = page_okD(5) [OF shapeD(7) [OF sh p] nd]
  obtain j pos where look: "internal_lookup cmp nd k = (j, pos)" by fastforce
  note l = internal_lookup_child [OF kids_ne [OF sh i] inner_okD(2) [OF i] k(1) inner_okD(1) [OF i] look]
  let ?x = "kids (glo g p) (ghi g p) (items nd) ! j"
  have "?x \<in> set (kids (glo g p) (ghi g p) (items nd))" using l(1) by simp
  then have "child_ok N g eh p ?x" by (rule inner_okD(4) [OF i])
  then obtain c where c: "snd (items nd ! j) = Page c" "c \<in> gD g" "Suc (glv g c) = glv g p"
    "glo g c = (if j = 0 then glo g p else Some (irank (items nd ! j)))"
    "eh c = (if Suc j < node_size nd then Some (irank (items nd ! Suc j)) else ghi g p)"
    using l(1) unfolding kids_nth [OF l(1)] by (auto elim!: child_okD)
  have "child_for cmp k nd = Some c" using l(1) c(1) by (simp add: child_for_def value_at_def look)
  moreover have "above (glo g c) (rank k)" using l(2) k(2) by (simp add: c(4))
  moreover have "below (eh c) (rank k)" using l(3) k(3) by (simp add: c(5))
  ultimately show thesis using that c(1-3) look l(1,5) by blast
qed

lemma find_leaf_loop_ok:
  assumes "shape N root g {} (ghi g)" and "nodes s = N" and "valid k"
  shows "p \<in> gD g \<Longrightarrow> above (glo g p) (rank k) \<Longrightarrow> below (ghi g p) (rank k) \<Longrightarrow>
    \<exists>leaf nd. find_leaf_loop (child_for cmp k) p s = Some leaf \<and> leaf \<in> gD g \<and> N leaf = Some nd \<and> is_leaf nd \<and>
      above (glo g leaf) (rank k) \<and> below (ghi g leaf) (rank k)"
proof (induction "glv g p" arbitrary: p)
  case 0
  obtain nd where nd: "N p = Some nd" using page_ok_node [OF shapeD(7) [OF assms(1) 0(2)]] by blast
  then have "is_leaf nd" using page_okD(4) [OF shapeD(7) [OF assms(1) 0(2)] nd] 0(1) by auto
  then show ?case using 0 nd assms(2) by (subst find_leaf_loop.simps) simp
next
  case (Suc n)
  obtain nd where nd: "N p = Some nd" using page_ok_node [OF shapeD(7) [OF assms(1) Suc(3)]] by blast
  then have leaf: "\<not> is_leaf nd" using page_okD(2) [OF shapeD(7) [OF assms(1) Suc(3)] nd] Suc(2) by auto
  obtain c where c: "child_for cmp k nd = Some c" "c \<in> gD g" "above (glo g c) (rank k)" "below (ghi g c) (rank k)" "Suc (glv g c) = glv g p"
    using child_for_ok [OF assms(1) Suc(3) nd leaf assms(3) Suc(4,5)] .
  from Suc(1) [OF _ c(2-4)] c(5) Suc(2) show ?case using c(1) nd leaf assms(2) by (subst find_leaf_loop.simps) simp
qed

lemma find_leaf_ok:
  assumes "shape (nodes s) (root_page (file_header s)) g {} (ghi g)" and "key_comparator s = cmp" and "valid k"
  obtains leaf nd where "find_leaf k s = Some (SUCCESS, leaf)" "leaf \<in> gD g" "nodes s leaf = Some nd" "is_leaf nd"
    "above (glo g leaf) (rank k)" "below (ghi g leaf) (rank k)"
proof -
  note r = shapeD(1,3,4,6) [OF assms(1)]
  have "root_page (file_header s) \<noteq> - 1" using r by auto
  moreover have "above (glo g (root_page (file_header s))) (rank k)" "below (ghi g (root_page (file_header s))) (rank k)" using r by simp_all
  ultimately show thesis
    using that find_leaf_loop_ok [OF assms(1) refl assms(3) r(1)] assms(2)
    by (auto simp: find_leaf_def find_leaf_internal_def is_empty_def BP_INVALID_PAGE_NUM_def)
qed

section \<open>Updates of the pages\<close>

lemma child_ok_frame:
  assumes "child_ok N g eh p x" and "glv g' p' = glv g p"
    and "\<And>c. fst x = Page c \<Longrightarrow> c \<in> gD g \<Longrightarrow> map_option parent (N c) = Some p \<Longrightarrow>
      c \<in> gD g' \<and> map_option parent (N' c) = Some p' \<and> glo g' c = glo g c \<and> eh' c = eh c \<and> glv g' c = glv g c"
  shows "child_ok N' g' eh' p' x"
  using assms unfolding child_ok_def by (cases x) (auto simp del: map_option_eq_Some)

lemma page_ok_frame:
  assumes "page_ok N g eh p" "N p = Some nd" "N' p = Some nd'" "is_leaf nd' = is_leaf nd" "items nd' = items nd"
    and "glo g' p = glo g p" "ghi g' p = ghi g p" "glv g' p = glv g p"
    and "\<And>c. \<not> is_leaf nd \<Longrightarrow> Page c \<in> snd ` set (items nd) \<Longrightarrow> c \<in> gD g \<Longrightarrow> map_option parent (N c) = Some p \<Longrightarrow>
      c \<in> gD g' \<and> map_option parent (N' c) = Some p \<and> glo g' c = glo g c \<and> eh' c = eh c \<and> glv g' c = glv g c"
  shows "page_ok N' g' eh' p"
proof (rule page_okI [of N' p nd'])
  show "N' p = Some nd'" by (rule assms(3))
  show "nonempty (glo g' p) (ghi g' p)" using page_okD(1) [OF assms(1,2)] assms(6,7) by simp
  show "glv g' p = 0 \<and> leaf_ok (glo g' p) (ghi g' p) (items nd')" if "is_leaf nd'"
    using page_okD(2,3) [OF assms(1,2)] that assms(4-8) by simp
  show "0 < glv g' p \<and> inner_ok N' g' eh' p (items nd')" if "\<not> is_leaf nd'"
  proof -
    have lf: "\<not> is_leaf nd" using that assms(4) by simp
    note i = page_okD(5) [OF assms(1,2) lf]
    have "child_ok N' g' eh' p x" if x: "x \<in> set (kids (glo g p) (ghi g p) (items nd))" for x
    proof (rule child_ok_frame [OF inner_okD(4) [OF i x] assms(8)])
      fix c
      assume c: "fst x = Page c" "c \<in> gD g" "map_option parent (N c) = Some p"
      have "fst x \<in> set (map fst (kids (glo g p) (ghi g p) (items nd)))" using x by simp
      then have "Page c \<in> snd ` set (items nd)" by (simp add: map_fst_kids c(1))
      from assms(9) [OF lf this c(2,3)] show "c \<in> gD g' \<and> map_option parent (N' c) = Some p \<and> glo g' c = glo g c \<and> eh' c = eh c \<and> glv g' c = glv g c" .
    qed
    then show ?thesis using i page_okD(4) [OF assms(1,2) lf] assms(5-8) by (simp add: inner_ok_def)
  qed
qed

lemma has_child_upd:
  "has_child (N(p \<mapsto> nd)) q c \<longleftrightarrow> (if q = p then \<not> is_leaf nd \<and> Page c \<in> snd ` set (items nd) else has_child N q c)"
  by (auto simp: has_child_def)

lemma parent_upd: "map_option parent ((N(p \<mapsto> nd)) q) = (if q = p then Some (parent nd) else map_option parent (N q))"
  by simp

text \<open>A new page is entered in the parent of its left sibling.\<close>

lemma attach_shape:
  assumes sh: "shape N root g (insert n Y) eh" and l: "l \<in> gD g" "n \<in> gD g" "l \<noteq> n" "ghi g l = Some (rank k)" "glo g n = Some (rank k)"
    and eh: "eh l = ghi g n" "eh n = ghi g n" and Y: "n \<notin> Y"
    and k: "valid k" and lv: "glv g n = glv g l" and p: "p \<in> gD g" "N p = Some pd" "\<not> is_leaf pd"
    and its: "items pd = as @ (kl, Page l) # bs" and n: "N n = Some nn"
    and N': "N' = N(p \<mapsto> pd\<lparr>items := as @ (kl, Page l) # (k, Page n) # bs\<rparr>, n \<mapsto> nn\<lparr>parent := p\<rparr>)"
  shows "shape N' root g Y (eh(l := ghi g l))"
proof -
  let ?eh' = "eh(l := ghi g l)"
  have hcl: "has_child N p l" using p its by (auto simp: has_child_def)
  note pl = child_parent [OF sh p(1) hcl]
  have pn: "p \<noteq> n" using pl(3) lv by auto
  have rn: "root \<noteq> n" using shapeD(2) [OF sh] by simp
  note i = page_okD(5) [OF shapeD(7) [OF sh p(1)] p(2,3)]
  have Np: "N' p = Some (pd\<lparr>items := as @ (kl, Page l) # (k, Page n) # bs\<rparr>)" using pn by (simp add: N')
  have par: "map_option parent (N' c) = (if c = n then Some p else map_option parent (N c))" for c
    using p(2) pn by (auto simp: N')
  have frame: "c \<in> gD g \<and> map_option parent (N' c) = Some q \<and> glo g c = glo g c \<and> ?eh' c = eh c \<and> glv g c = glv g c"
    if "c \<in> gD g" "map_option parent (N c) = Some q" "c \<noteq> n" "c \<noteq> l" for c q
    using that par by simp
  have page_p: "page_ok N' g ?eh' p"
  proof (rule page_okI [of N' p, OF Np])
    show "nonempty (glo g p) (ghi g p)" by (rule page_okD(1) [OF shapeD(7) [OF sh p(1)] p(2)])
    have old: "child_ok N g eh p x" if "x \<in> set (kids (glo g p) (ghi g p) (as @ (kl, Page l) # bs))" for x
      using inner_okD(4) [OF i] that by (simp add: its)
    let ?A = "kids (glo g p) (Some (rank kl)) as" and ?B = "case bs of [] \<Rightarrow> [] | y # _ \<Rightarrow> kids (Some (irank y)) (ghi g p) bs"
    let ?u = "case bs of [] \<Rightarrow> ghi g p | y # _ \<Rightarrow> Some (irank y)" and ?lo = "if as = [] then glo g p else Some (rank kl)"
    have cl: "child_ok N g eh p (Page l, ?lo, ?u)" by (rule old) (simp add: kids_mid)
    have x_eq: "child_ok N' g ?eh' p x"
      if x: "x \<in> set ?A \<or> x \<in> set ?B" for x
    proof (rule child_ok_frame)
      have kx: "x \<in> set (kids (glo g p) (ghi g p) (as @ (kl, Page l) # bs))" using x by (auto simp: kids_mid)
      show "child_ok N g eh p x" by (rule old [OF kx])
      fix c
      assume c: "fst x = Page c" "c \<in> gD g" "map_option parent (N c) = Some p"
      have "has_child N p c"
      proof -
        have "fst x \<in> set (map fst (kids (glo g p) (ghi g p) (as @ (kl, Page l) # bs)))" using kx by simp
        then have "Page c \<in> snd ` set (items pd)" unfolding map_fst_kids c(1) its by (simp add: image_Un)
        then show ?thesis using p by (auto simp: has_child_def)
      qed
      then have "c \<noteq> n" using shapeD(10) [OF sh p(1)] by auto
      moreover have "c \<noteq> l"
      proof
        assume "c = l"
        then have "fst (snd x) = ?lo" using old [OF kx] cl c(1) by (cases x) (auto simp: child_ok_def)
        moreover have "distinct (map (fst \<circ> snd) (?A @ (Page l, ?lo, ?u) # ?B))"
          using kids_distinct [OF kids_ne [OF sh i]] unfolding its kids_mid fst_conv snd_conv .
        then have "?lo \<notin> (fst \<circ> snd) ` (set ?A \<union> set ?B)" by (simp add: image_Un)
        moreover have "(fst \<circ> snd) x \<in> (fst \<circ> snd) ` (set ?A \<union> set ?B)" using x by (intro imageI) blast
        ultimately show False by simp
      qed
      ultimately show "c \<in> gD g \<and> map_option parent (N' c) = Some p \<and> glo g c = glo g c \<and> ?eh' c = eh c \<and> glv g c = glv g c"
        using frame c by blast
    qed simp
    have "child_ok N' g ?eh' p (Page l, ?lo, Some (rank k))"
      using cl l(3,4) par by (auto simp: child_ok_def simp del: map_option_eq_Some)
    moreover have "child_ok N' g ?eh' p (Page n, Some (rank k), ?u)"
      using cl l(2,3,5) eh lv par by (auto simp: child_ok_def simp del: map_option_eq_Some)
    moreover have kids_eq: "kids (glo g p) (ghi g p) (as @ (kl, Page l) # (k, Page n) # bs) =
        ?A @ (Page l, ?lo, Some (rank k)) # (Page n, Some (rank k), ?u) # ?B"
      unfolding kids_mid [of _ _ as] by (simp add: kids_Cons [of _ _ "(k, Page n)"])
    ultimately have kids': "\<forall>x\<in>set (kids (glo g p) (ghi g p) (as @ (kl, Page l) # (k, Page n) # bs)). child_ok N' g ?eh' p x"
      unfolding kids_eq set_append list.set using x_eq by blast
    show "0 < glv g p \<and> inner_ok N' g ?eh' p (items (pd\<lparr>items := as @ (kl, Page l) # (k, Page n) # bs\<rparr>))"
      using kids' inner_okD(2,3) [OF i] k page_okD(4) [OF shapeD(7) [OF sh p(1)] p(2,3)]
      unfolding inner_ok_def its by (cases as) auto
  qed (use p(3) in simp)
  show ?thesis
  proof (rule shapeI)
    show "?eh' root = None" using shapeD(4) [OF sh] pl(4) by simp
    show "map_option parent (N' root) = Some (- 1)" using shapeD(5) [OF sh] rn by (simp only: par if_False)
    show "page_ok N' g ?eh' q" if q: "q \<in> gD g" for q
    proof (cases "q = p")
      case False
      obtain nd where nd: "N q = Some nd" using page_ok_node [OF shapeD(7) [OF sh q]] by blast
      have Nq: "\<exists>nd'. N' q = Some nd' \<and> is_leaf nd' = is_leaf nd \<and> items nd' = items nd" using nd n False by (auto simp: N')
      then obtain nd' where nd': "N' q = Some nd'" "is_leaf nd' = is_leaf nd" "items nd' = items nd" by blast
      show ?thesis
      proof (rule page_ok_frame [of N g eh q nd N' nd', OF shapeD(7) [OF sh q] nd nd'])
        fix c
        assume c: "\<not> is_leaf nd" "Page c \<in> snd ` set (items nd)" "c \<in> gD g" "map_option parent (N c) = Some q"
        then have "has_child N q c" using nd by (auto simp: has_child_def)
        then have "c \<noteq> n" using shapeD(10) [OF sh q] by auto
        moreover have "c \<noteq> l" using pl(2) c(4) False by auto
        ultimately show "c \<in> gD g \<and> map_option parent (N' c) = Some q \<and> glo g c = glo g c \<and> ?eh' c = eh c \<and> glv g c = glv g c"
          using frame c by blast
      qed simp_all
    qed (use page_p in simp)
    then have ne: "nonempty (glo g q) (ghi g q)" if "q \<in> gD g" for q using page_ok_node [of N' g ?eh' q] page_okD(1) [of N' g ?eh' q] that by blast
    show "nonempty (glo g q) (?eh' q)" if "q \<in> gD g" for q using ne [OF that] shapeD(8) [OF sh that] by auto
    show "\<not> has_child N' q c" if "q \<in> gD g" "c \<in> Y" for q c
    proof -
      have "\<not> has_child N q c" using shapeD(10) [OF sh] that by blast
      moreover have "c \<noteq> n" using that Y by blast
      ultimately show ?thesis using p(2,3) n its pn unfolding N' has_child_upd by (cases "q = p") (simp_all add: has_child_def image_Un)
    qed
    show "\<exists>q\<in>gD g. has_child N' q c" if c: "c \<in> gD g" "c \<noteq> root" "c \<notin> Y" for c
    proof (cases "c = n")
      case True
      have "has_child N' p n" unfolding has_child_def using Np p(3) by simp
      then show ?thesis using p(1) True by blast
    next
      case False
      obtain q where q: "q \<in> gD g" "has_child N q c" using shapeD(9) [OF sh c(1,2)] c(3) False by blast
      have "has_child N' q c" using q(2) p(2) n its unfolding N' has_child_upd by (auto simp: has_child_def)
      then show ?thesis using q(1) by blast
    qed
  qed (use shapeD(1,2,3,6) [OF sh] in simp_all)
qed

end

end
