(* ===== verification/Bplus_Split.thy ===== *)
theory Bplus_Split
  imports Bplus_Shape
begin

text \<open>
  Splitting pages of a B+ tree, as changes of the shape: an internal page that gives the right part of its children to a new page,
  a leaf whose items are divided with a new leaf, and a new root above two pages.
\<close>

context key_order
begin

lemma distinct_children:
  assumes "shape N root g X eh" and "inner_ok N g eh p xs"
  shows "distinct (map snd xs)"
  unfolding distinct_conv_nth
proof (intro allI impI)
  fix i j
  assume ij: "i < length (map snd xs)" "j < length (map snd xs)" "i \<noteq> j"
  let ?K = "kids (glo g p) (ghi g p) xs"
  have *: "snd (xs ! a) \<noteq> snd (xs ! b)" if ab: "a < b" "b < length xs" for a b
  proof
    assume eq: "snd (xs ! a) = snd (xs ! b)"
    have ca: "child_ok N g eh p (?K ! a)" and cb: "child_ok N g eh p (?K ! b)"
      using inner_okD(4) [OF assms(2)] ab by auto
    have "fst (?K ! a) = fst (?K ! b)" using ab eq by (simp add: kids_nth)
    then have "fst (snd (?K ! a)) = fst (snd (?K ! b))" using ca cb by (auto simp: child_ok_def split: prod.splits)
    then show False using kids_low_less [OF kids_ne [OF assms] ab] by simp
  qed
  show "map snd xs ! i \<noteq> map snd xs ! j"
  proof (cases "i < j")
    case True
    then show ?thesis using * [of i j] ij by simp
  next
    case False
    then have "j < i" using ij(3) by simp
    then show ?thesis using * [of j i] ij by simp
  qed
qed

lemma parent_reparent:
  "map_option parent (reparent its p N c) = (if Page c \<in> snd ` set its then map_option (\<lambda>_. p) (N c) else map_option parent (N c))"
  by (simp add: reparent_def map_option_case split: option.splits)

lemma reparent_node: "reparent its p N c = Some nd' \<longleftrightarrow>
    (\<exists>nd. N c = Some nd \<and> nd' = (if Page c \<in> snd ` set its then nd\<lparr>parent := p\<rparr> else nd))"
  by (auto simp: reparent_def)

lemma reparent_fields:
  "N c = Some nd \<Longrightarrow> \<exists>nd'. reparent its p N c = Some nd' \<and> is_leaf nd' = is_leaf nd \<and> items nd' = items nd \<and> next_brother nd' = next_brother nd"
  by (simp add: reparent_def)

lemma has_child_reparent [simp]: "has_child (reparent its p N) q c = has_child N q c"
  unfolding has_child_def reparent_def by (cases "N q") simp_all

lemma kids_fst: "x \<in> set (kids l h xs) \<Longrightarrow> fst x \<in> snd ` set xs"
proof -
  assume "x \<in> set (kids l h xs)"
  then have "fst x \<in> set (map fst (kids l h xs))" by simp
  then show ?thesis by (simp add: map_fst_kids)
qed

lemma split_shape:
  assumes sh: "shape N root g Y eh" and p: "p \<in> gD g" "N p = Some pd" "\<not> is_leaf pd"
    and its: "items pd = xs @ (k, v) # ys" "xs \<noteq> []" and np: "np \<notin> gD g" "np \<noteq> - 1"
    and nq: "\<not> is_leaf nq" "items nq = (k, v) # ys"
    and N': "N' = (reparent ((k, v) # ys) np N)(p \<mapsto> pd\<lparr>items := xs\<rparr>, np \<mapsto> nq)"
    and g': "g' = g\<lparr>gD := insert np (gD g), glo := (glo g)(np := Some (rank k)), ghi := (ghi g)(p := Some (rank k), np := ghi g p),
        glv := (glv g)(np := glv g p)\<rparr>"
  shows "shape N' root g' (insert np Y) (eh(np := ghi g p))" and "valid k" and "nonempty (glo g p) (Some (rank k))" and "below (ghi g p) (rank k)"
proof -
  let ?eh' = "eh(np := ghi g p)" and ?R = "(k, v) # ys"
  note i = page_okD(5) [OF shapeD(7) [OF sh p(1)] p(2,3)]
  have pn: "p \<noteq> np" using p(1) np(1) by auto
  have lvp: "0 < glv g p" by (rule page_okD(4) [OF shapeD(7) [OF sh p(1)] p(2,3)])
  have k_in: "(k, v) \<in> set (tl (items pd))" using its by (cases xs) auto
  show vk: "valid k" using inner_okD(2) [OF i] k_in by fastforce
  have "nonempty (glo g p) (Some (irank (k, v))) \<and> below (ghi g p) (irank (k, v))" using kids_ascending(2) [OF kids_ne [OF sh i]] k_in by blast
  then show lo: "nonempty (glo g p) (Some (rank k))" and hi: "below (ghi g p) (rank k)" by simp_all
  have ne_p: "nonempty (glo g p) (ghi g p)" by (rule page_okD(1) [OF shapeD(7) [OF sh p(1)] p(2)])
  have dist: "distinct (map snd (xs @ ?R))" using distinct_children [OF sh i] its by simp
  have child_p: "has_child N p c" if "Page c \<in> snd ` set (items pd)" for c using that p by (auto simp: has_child_def)
  have par: "map_option parent (N' c) =
      (if c = np then Some (parent nq) else if Page c \<in> snd ` set ?R then map_option (\<lambda>_. np) (N c) else map_option parent (N c))" for c
  proof -
    have "Page p \<notin> snd ` set ?R" using child_parent(5) [OF sh p(1) child_p, of p] its by (auto simp: image_Un)
    then show ?thesis using parent_reparent [of ?R np N c] p(2) pn unfolding N' by auto
  qed
  have K: "kids (glo g p) (ghi g p) (items pd) = kids (glo g p) (Some (rank k)) xs @ kids (Some (rank k)) (ghi g p) ?R"
    using kids_append [OF its(2), of "glo g p" "ghi g p" "(k, v)" ys] its(1) by simp
  have frame: "c \<in> gD g' \<and> map_option parent (N' c) = Some q \<and> glo g' c = glo g c \<and> ?eh' c = eh c \<and> glv g' c = glv g c"
    if "c \<in> gD g" "map_option parent (N c) = Some q" "Page c \<notin> snd ` set ?R" for c q
    using that np(1) par by (auto simp: g' simp del: map_option_eq_Some)
  have page_p: "page_ok N' g' ?eh' p"
  proof (rule page_okI [of N' p "pd\<lparr>items := xs\<rparr>"])
    show "N' p = Some (pd\<lparr>items := xs\<rparr>)" using pn by (simp add: N')
    show "nonempty (glo g' p) (ghi g' p)" using lo pn by (simp add: g')
    have "child_ok N' g' ?eh' p x" if x: "x \<in> set (kids (glo g p) (Some (rank k)) xs)" for x
    proof (rule child_ok_frame)
      show "child_ok N g eh p x" using inner_okD(4) [OF i] x K by simp
      show "glv g' p = glv g p" using pn by (simp add: g')
      fix c
      assume c: "fst x = Page c" "c \<in> gD g" "map_option parent (N c) = Some p"
      have "Page c \<in> snd ` set xs" using kids_fst [OF x] c(1) by simp
      then have "Page c \<notin> snd ` set ?R" using dist by auto
      then show "c \<in> gD g' \<and> map_option parent (N' c) = Some p \<and> glo g' c = glo g c \<and> ?eh' c = eh c \<and> glv g' c = glv g c"
        by (rule frame [OF c(2,3)])
    qed
    then show "0 < glv g' p \<and> inner_ok N' g' ?eh' p (items (pd\<lparr>items := xs\<rparr>))"
      using lvp its inner_okD(2,3) [OF i] pn by (cases xs) (auto simp: inner_ok_def g')
  qed (use p(3) in simp)
  have page_np: "page_ok N' g' ?eh' np"
  proof (rule page_okI [of N' np nq])
    show "N' np = Some nq" by (simp add: N')
    show "nonempty (glo g' np) (ghi g' np)" using hi by (simp add: g')
    have "child_ok N' g' ?eh' np x" if x: "x \<in> set (kids (Some (rank k)) (ghi g p) ?R)" for x
    proof (rule child_ok_frame)
      show "child_ok N g eh p x" using inner_okD(4) [OF i] x K by simp
      show "glv g' np = glv g p" by (simp add: g')
      fix c
      assume c: "fst x = Page c" "c \<in> gD g" "map_option parent (N c) = Some p"
      have "Page c \<in> snd ` set ?R" using kids_fst [OF x] c(1) by simp
      moreover have "c \<noteq> np" using c(2) np(1) by auto
      ultimately show "c \<in> gD g' \<and> map_option parent (N' c) = Some np \<and> glo g' c = glo g c \<and> ?eh' c = eh c \<and> glv g' c = glv g c"
        using c(2,3) par by (auto simp: g')
    qed
    then show "0 < glv g' np \<and> inner_ok N' g' ?eh' np (items nq)" if "\<not> is_leaf nq"
      using lvp its inner_okD(2) [OF i] vk unfolding nq inner_ok_def by (cases xs) (auto simp: g')
  qed (use nq(1) in simp)
  have page_old: "page_ok N' g' ?eh' q" if q: "q \<in> gD g" "q \<noteq> p" for q
  proof -
    obtain nd where nd: "N q = Some nd" using page_ok_node [OF shapeD(7) [OF sh q(1)]] by blast
    have qn: "q \<noteq> np" using q(1) np(1) by auto
    obtain nd' where nd': "N' q = Some nd'" "is_leaf nd' = is_leaf nd" "items nd' = items nd"
      using reparent_fields [of N q nd ?R np, OF nd] q(2) qn by (auto simp: N')
    show ?thesis
    proof (rule page_ok_frame [of N g eh q nd N' nd', OF shapeD(7) [OF sh q(1)] nd nd'])
      fix c
      assume c: "\<not> is_leaf nd" "Page c \<in> snd ` set (items nd)" "c \<in> gD g" "map_option parent (N c) = Some q"
      have "Page c \<notin> snd ` set ?R"
      proof
        assume "Page c \<in> snd ` set ?R"
        then have "has_child N p c" using its by (intro child_p) (auto simp: image_Un)
        then have "map_option parent (N c) = Some p" by (rule child_parent(2) [OF sh p(1)])
        then show False using c(4) q(2) by simp
      qed
      then show "c \<in> gD g' \<and> map_option parent (N' c) = Some q \<and> glo g' c = glo g c \<and> ?eh' c = eh c \<and> glv g' c = glv g c"
        by (rule frame [OF c(3,4)])
    qed (use q qn in \<open>simp_all add: g'\<close>)
  qed
  have hc: "\<exists>q'\<in>gD g. has_child N q' c" if q: "q \<in> gD g'" "has_child N' q c" for q c
  proof (cases "q = p \<or> q = np")
    case True
    then have "Page c \<in> snd ` set (items pd)" using q(2) pn nq its unfolding N' by (auto simp: has_child_upd image_Un)
    then show ?thesis using p(1) child_p by blast
  next
    case False
    then have "has_child N q c" using q(2) unfolding N' has_child_upd by simp
    then show ?thesis using q(1) False by (auto simp: g')
  qed
  show "shape N' root g' (insert np Y) ?eh'"
  proof (rule shapeI)
    show "root \<in> gD g'" using shapeD(1) [OF sh] by (simp add: g')
    have rn: "root \<noteq> np" using shapeD(1) [OF sh] np(1) by auto
    show "root \<notin> insert np Y" using shapeD(2) [OF sh] rn by simp
    show "glo g' root = None" using shapeD(3) [OF sh] rn by (simp add: g')
    show "?eh' root = None" using shapeD(4) [OF sh] rn by simp
    have "Page root \<notin> snd ` set ?R" using child_parent(4) [OF sh p(1) child_p, of root] its by (auto simp: image_Un)
    then show "map_option parent (N' root) = Some (- 1)" using shapeD(5) [OF sh] rn par by (simp del: map_option_eq_Some)
    show "- 1 \<notin> gD g'" using shapeD(6) [OF sh] np(2) by (simp add: g')
    show pg: "page_ok N' g' ?eh' q" if "q \<in> gD g'" for q using that page_p page_np page_old [of q] by (cases "q = p"; cases "q = np") (auto simp: g')
    show "nonempty (glo g' q) (?eh' q)" if "q \<in> gD g'" for q
      using that shapeD(8) [OF sh, of q] hi by (cases "q = np") (auto simp: g')
    show "\<exists>q\<in>gD g'. has_child N' q c" if c: "c \<in> gD g'" "c \<noteq> root" "c \<notin> insert np Y" for c
    proof -
      obtain q where q: "q \<in> gD g" "has_child N q c" using shapeD(9) [OF sh, of c] c by (auto simp: g')
      then obtain nd where nd: "N q = Some nd" "\<not> is_leaf nd" "Page c \<in> snd ` set (items nd)" by (auto simp: has_child_def)
      have qn: "q \<noteq> np" using q(1) np(1) by auto
      show ?thesis
      proof (cases "q = p")
        case True
        then have "Page c \<in> snd ` set xs \<or> Page c \<in> snd ` set ?R" using nd(1,3) p(2) its by (auto simp: image_Un)
        then have "has_child N' p c \<or> has_child N' np c" using p(3) nq pn unfolding N' has_child_upd by simp
        then show ?thesis using p(1) by (auto simp: g')
      next
        case False
        then have "has_child N' q c" using q(2) qn unfolding N' has_child_upd by simp
        then show ?thesis using q(1) by (auto simp: g')
      qed
    qed
    show "\<not> has_child N' q c" if "q \<in> gD g'" "c \<in> insert np Y" for q c
    proof
      assume "has_child N' q c"
      with hc that(1) obtain q' where q': "q' \<in> gD g" "has_child N q' c" by blast
      then show False using child_parent(1) [OF sh q'] np(1) shapeD(10) [OF sh q'(1), of c] that(2) by auto
    qed
  qed
qed

section \<open>Leaves\<close>

lemma leaf_update_shape:
  assumes sh: "shape N root g Y eh" and p: "p \<in> gD g" "N p = Some pd" "is_leaf pd"
    and new: "is_leaf nd" "parent nd = parent pd" "leaf_ok (glo g p) (ghi g p) (items nd)"
  shows "shape (N(p \<mapsto> nd)) root g Y eh"
proof -
  have par: "map_option parent ((N(p \<mapsto> nd)) c) = map_option parent (N c)" for c using p(2) new(2) by simp
  have hc: "has_child (N(p \<mapsto> nd)) q c = has_child N q c" for q c
    using p new(1) unfolding has_child_upd by (auto simp: has_child_def)
  note po = shapeD(7) [OF sh]
  have pg: "page_ok (N(p \<mapsto> nd)) g eh q" if q: "q \<in> gD g" for q
  proof (cases "q = p")
    case True
    show ?thesis unfolding True
    proof (rule page_okI [of _ p nd])
      show "nonempty (glo g p) (ghi g p)" by (rule page_okD(1) [OF po [OF p(1)] p(2)])
      show "glv g p = 0 \<and> leaf_ok (glo g p) (ghi g p) (items nd)" using page_okD(2) [OF po [OF p(1)] p(2,3)] new(3) by simp
    qed (use new(1) in simp_all)
  next
    case False
    obtain qd where qd: "N q = Some qd" using page_ok_node [OF po [OF q]] by blast
    show ?thesis
      by (rule page_ok_frame [of N g eh q qd _ qd, OF po [OF q] qd]) (use qd False par in simp_all)
  qed
  show ?thesis
    by (rule shapeI) (use shapeD [OF sh] par hc pg in \<open>simp_all del: map_option_eq_Some\<close>)
qed

lemma leaf_split_shape:
  assumes sh: "shape N root g Y eh" and p: "p \<in> gD g" "N p = Some pd" "is_leaf pd"
    and its: "leaf_ok (glo g p) (ghi g p) (xs @ (k, v) # ys)" "xs \<noteq> []" and np: "np \<notin> gD g" "np \<noteq> - 1"
    and pd': "is_leaf pd'" "items pd' = xs" "parent pd' = parent pd"
    and nq: "is_leaf nq" "items nq = (k, v) # ys"
    and N': "N' = N(p \<mapsto> pd', np \<mapsto> nq)"
    and g': "g' = g\<lparr>gD := insert np (gD g), glo := (glo g)(np := Some (rank k)), ghi := (ghi g)(p := Some (rank k), np := ghi g p),
        glv := (glv g)(np := glv g p)\<rparr>"
  shows "shape N' root g' (insert np Y) (eh(np := ghi g p))" and "valid k" and "nonempty (glo g p) (Some (rank k))" and "below (ghi g p) (rank k)"
proof -
  let ?eh' = "eh(np := ghi g p)"
  note po = shapeD(7) [OF sh]
  have pn: "p \<noteq> np" using p(1) np(1) by auto
  have lvp: "glv g p = 0" by (rule page_okD(2) [OF po [OF p(1)] p(2,3)])
  have asc: "ascending xs" "ascending ((k, v) # ys)" "\<forall>x\<in>set xs. irank x < rank k" "\<forall>y\<in>set ys. rank k < irank y"
    and el: "\<forall>x\<in>set (xs @ (k, v) # ys). valid (fst x) \<and> above (glo g p) (irank x) \<and> below (ghi g p) (irank x) \<and> (\<exists>r. snd x = Rid r)"
    using its(1) by (auto simp: leaf_ok_def ascending_def sorted_wrt_append)
  show "valid k" and hi: "below (ghi g p) (rank k)" using el by auto
  obtain x0 where x0: "x0 \<in> set xs" using its(2) by (cases xs) auto
  have "above (glo g p) (irank x0)" "irank x0 < rank k" using el asc(3) x0 by auto
  then show lo: "nonempty (glo g p) (Some (rank k))" using nonempty_witness [of "glo g p" "irank x0" "Some (rank k)"] by simp
  have okl: "leaf_ok (glo g p) (Some (rank k)) xs" using asc el by (auto simp: leaf_ok_def)
  have okr: "leaf_ok (Some (rank k)) (ghi g p) ((k, v) # ys)" using asc(2,4) el by (auto simp: leaf_ok_def intro: less_imp_le)
  have par: "map_option parent (N' c) = (if c = np then Some (parent nq) else map_option parent (N c))" for c
    using p(2) pn pd'(3) by (simp add: N')
  have hc: "has_child N' q c = has_child N q c" if "q \<noteq> np" for q c
    using that p pd'(1) nq(1) unfolding N' has_child_upd by (auto simp: has_child_def)
  have frame: "c \<in> gD g' \<and> map_option parent (N' c) = Some q \<and> glo g' c = glo g c \<and> ?eh' c = eh c \<and> glv g' c = glv g c"
    if "c \<in> gD g" "map_option parent (N c) = Some q" for c q
    using that np(1) par by (auto simp: g' simp del: map_option_eq_Some)
  have page_p: "page_ok N' g' ?eh' p"
    by (rule page_okI [of N' p pd']) (use okl lo lvp pn pd' in \<open>simp_all add: N' g'\<close>)
  have page_np: "page_ok N' g' ?eh' np"
    by (rule page_okI [of N' np nq]) (use okr hi lvp nq in \<open>simp_all add: N' g'\<close>)
  have page_old: "page_ok N' g' ?eh' q" if q: "q \<in> gD g" "q \<noteq> p" for q
  proof -
    obtain nd where nd: "N q = Some nd" using page_ok_node [OF po [OF q(1)]] by blast
    have qn: "q \<noteq> np" using q(1) np(1) by auto
    show ?thesis
      by (rule page_ok_frame [of N g eh q nd N' nd, OF po [OF q(1)] nd]) (use nd q qn frame in \<open>simp_all add: N' g'\<close>)
  qed
  show "shape N' root g' (insert np Y) ?eh'"
  proof (rule shapeI)
    have rn: "root \<noteq> np" using shapeD(1) [OF sh] np(1) by auto
    show "map_option parent (N' root) = Some (- 1)" using shapeD(5) [OF sh] rn par by (simp del: map_option_eq_Some)
    show "root \<in> gD g'" "root \<notin> insert np Y" "glo g' root = None" "?eh' root = None" "- 1 \<notin> gD g'"
      using shapeD(1,2,3,4,6) [OF sh] np rn by (simp_all add: g')
    show "page_ok N' g' ?eh' q" if "q \<in> gD g'" for q using that page_p page_np page_old [of q] by (cases "q = p"; cases "q = np") (auto simp: g')
    show "nonempty (glo g' q) (?eh' q)" if "q \<in> gD g'" for q
      using that shapeD(8) [OF sh, of q] hi by (cases "q = np") (auto simp: g')
    show "\<exists>q\<in>gD g'. has_child N' q c" if c: "c \<in> gD g'" "c \<noteq> root" "c \<notin> insert np Y" for c
    proof -
      obtain q where q: "q \<in> gD g" "has_child N q c" using shapeD(9) [OF sh, of c] c by (auto simp: g')
      then have "q \<noteq> np" using np(1) by auto
      then show ?thesis using q hc by (auto simp: g')
    qed
    show "\<not> has_child N' q c" if q: "q \<in> gD g'" "c \<in> insert np Y" for q c
    proof (cases "q = np")
      case True
      then show ?thesis using nq(1) by (simp add: N' has_child_def)
    next
      case False
      then have "q \<in> gD g" using q(1) by (simp add: g')
      then show ?thesis using False hc child_parent(1) [OF sh, of q np] np(1) shapeD(10) [OF sh, of q c] q(2) by auto
    qed
  qed
qed

section \<open>A new root\<close>

lemma new_root_shape:
  assumes sh: "shape N root g {n} eh" and n: "n \<in> gD g" "ghi g n = None" "glo g n = Some (rank k)" "ghi g root = Some (rank k)"
    and lv: "glv g n = glv g root" and k: "valid k" and eh: "eh n = None" and r: "r \<notin> gD g" "r \<noteq> - 1"
    and nd: "N root = Some rd" "N n = Some nn" and new: "\<not> is_leaf nr" "parent nr = - 1" "items nr = [(z, Page root), (k, Page n)]"
    and N': "N' = N(r \<mapsto> nr, root \<mapsto> rd\<lparr>parent := r\<rparr>, n \<mapsto> nn\<lparr>parent := r\<rparr>)"
    and g': "g' = g\<lparr>gD := insert r (gD g), glo := (glo g)(r := None), ghi := (ghi g)(r := None), glv := (glv g)(r := Suc (glv g root))\<rparr>"
  shows "shape N' r g' {} (eh(root := Some (rank k), r := None))"
proof -
  let ?eh' = "eh(root := Some (rank k), r := None)"
  note po = shapeD(7) [OF sh] and root = shapeD(1) [OF sh]
  have ne: "r \<noteq> root" "r \<noteq> n" "root \<noteq> n" using root n(1) r(1) shapeD(2) [OF sh] by auto
  have par: "map_option parent (N' c) = (if c = r then Some (- 1) else if c = root \<or> c = n then Some r else map_option parent (N c))" for c
    using ne nd new(2) by (simp add: N')
  have hc: "has_child N' q c = (if q = r then c = root \<or> c = n else has_child N q c)" for q c
    using ne nd new unfolding N' has_child_upd by (auto simp: has_child_def)
  have Nr: "N' r = Some nr" using ne by (simp add: N')
  have page_r: "page_ok N' g' ?eh' r"
  proof (rule page_okI [of N' r, OF Nr])
    have "child_ok N' g' ?eh' r (Page root, None, Some (rank k))" "child_ok N' g' ?eh' r (Page n, Some (rank k), None)"
      using ne par root n lv eh shapeD(3) [OF sh] by (simp_all add: child_ok_def g')
    then show "0 < glv g' r \<and> inner_ok N' g' ?eh' r (items nr)" using k by (simp add: inner_ok_def g' new(3))
  qed (use new(1) in \<open>simp_all add: g'\<close>)
  have page_old: "page_ok N' g' ?eh' q" if q: "q \<in> gD g" for q
  proof -
    obtain qd where qd: "N q = Some qd" using page_ok_node [OF po [OF q]] by blast
    have qr: "q \<noteq> r" using q r(1) by auto
    obtain qd' where qd': "N' q = Some qd'" "is_leaf qd' = is_leaf qd" "items qd' = items qd"
      using qd qr nd ne by (cases "q = root"; cases "q = n") (auto simp: N')
    show ?thesis
    proof (rule page_ok_frame [of N g eh q qd N' qd', OF po [OF q] qd qd'])
      fix c
      assume c: "\<not> is_leaf qd" "Page c \<in> snd ` set (items qd)" "c \<in> gD g" "map_option parent (N c) = Some q"
      have h: "has_child N q c" using c qd by (auto simp: has_child_def)
      have "c \<noteq> root" "c \<noteq> n" "c \<noteq> r" using child_parent(4) [OF sh q h] shapeD(10) [OF sh q] h c(3) r(1) by auto
      then show "c \<in> gD g' \<and> map_option parent (N' c) = Some q \<and> glo g' c = glo g c \<and> ?eh' c = eh c \<and> glv g' c = glv g c"
        using c par by (auto simp: g' simp del: map_option_eq_Some)
    qed (use qr in \<open>simp_all add: g'\<close>)
  qed
  show ?thesis
  proof (rule shapeI)
    show "map_option parent (N' r) = Some (- 1)" by (simp add: par)
    show "page_ok N' g' ?eh' q" if "q \<in> gD g'" for q using that page_r page_old by (auto simp: g')
    show "nonempty (glo g' q) (?eh' q)" if "q \<in> gD g'" for q
      using that shapeD(3) [OF sh] shapeD(8) [OF sh, of q] by (auto simp: g')
    show "\<exists>q\<in>gD g'. has_child N' q c" if c: "c \<in> gD g'" "c \<noteq> r" for c
    proof (cases "c = root \<or> c = n")
      case True
      then show ?thesis using hc [of r c] by (auto simp: g')
    next
      case False
      then obtain q where q: "q \<in> gD g" "has_child N q c" using shapeD(9) [OF sh, of c] c by (auto simp: g')
      then have "q \<noteq> r" using r(1) by auto
      then show ?thesis using q hc [of q c] by (auto simp: g')
    qed
  qed (use shapeD(6) [OF sh] r(2) in \<open>simp_all add: g'\<close>)
qed

end

end
