(* ===== verification/Bplus_Insert.thy ===== *)
theory Bplus_Insert
  imports Bplus_Split
begin

text \<open>
  Insertion into the B+ tree keeps the tree well formed, and adds the item to the leaf for its key.
\<close>

context key_order
begin

section \<open>The child of a page that holds a key\<close>

lemma inner_asc:
  assumes sh: "shape N root g X eh" and i: "inner_ok N g eh p xs" and ab: "0 < a" "a < b" "b < length xs"
  shows "irank (xs ! a) < irank (xs ! b)"
proof -
  obtain x xs' where x: "xs = x # xs'" using ab by (cases xs) auto
  have "ascending xs'" using kids_ascending(1) [OF kids_ne [OF sh i]] by (simp add: x)
  moreover obtain a' b' where "a = Suc a'" "b = Suc b'" using ab by (cases a; cases b) auto
  ultimately show ?thesis using ab by (simp add: x ascending_def sorted_wrt_iff_nth_less)
qed

lemma inner_asc_le:
  assumes "shape N root g X eh" "inner_ok N g eh p xs" "0 < a" "a \<le> b" "b < length xs"
  shows "irank (xs ! a) \<le> irank (xs ! b)"
  using inner_asc [OF assms(1,2,3), of b] assms(4,5) by (cases "a = b") auto

lemma child_at:
  assumes "inner_ok N g eh p xs" "j < length xs" "snd (xs ! j) = Page c"
  shows "c \<in> gD g" "map_option parent (N c) = Some p" "glo g c = (if j = 0 then glo g p else Some (irank (xs ! j)))"
    "eh c = (if Suc j < length xs then Some (irank (xs ! Suc j)) else ghi g p)" "Suc (glv g c) = glv g p"
proof -
  have "kids (glo g p) (ghi g p) xs ! j \<in> set (kids (glo g p) (ghi g p) xs)" using assms(2) by simp
  from inner_okD(4) [OF assms(1) this] show "c \<in> gD g" "map_option parent (N c) = Some p"
    "glo g c = (if j = 0 then glo g p else Some (irank (xs ! j)))"
    "eh c = (if Suc j < length xs then Some (irank (xs ! Suc j)) else ghi g p)" "Suc (glv g c) = glv g p"
    unfolding kids_nth [OF assms(2)] assms(3) by (auto elim!: child_okD simp del: map_option_eq_Some)
qed

lemma lookup_at:
  assumes sh: "shape N root g X eh" and p: "p \<in> gD g" "N p = Some pd" "\<not> is_leaf pd" and k: "valid k"
    and j: "j < node_size pd" "snd (items pd ! j) = Page c" and in_c: "above (glo g c) (rank k)" "below (eh c) (rank k)"
  shows "fst (internal_lookup cmp pd k) = j" and "nonempty (glo g c) (Some (rank k)) \<Longrightarrow> snd (internal_lookup cmp pd k) = Suc j"
proof -
  note i = page_okD(5) [OF shapeD(7) [OF sh p(1)] p(2,3)]
  obtain i' pos where look: "internal_lookup cmp pd k = (i', pos)" by fastforce
  note l = internal_lookup_child [OF kids_ne [OF sh i] inner_okD(2) [OF i] k inner_okD(1) [OF i] look]
  note c = child_at [OF i j]
  have "\<not> j < i'"
  proof
    assume "j < i'"
    then have "irank (items pd ! Suc j) \<le> rank k" using inner_asc_le [OF sh i, of "Suc j" i'] l(1,2) by fastforce
    moreover have "rank k < irank (items pd ! Suc j)" using in_c(2) c(4) \<open>j < i'\<close> l(1) by simp
    ultimately show False by simp
  qed
  moreover have "\<not> i' < j"
  proof
    assume "i' < j"
    then have "rank k < irank (items pd ! j)" using inner_asc_le [OF sh i, of "Suc i'" j] l(3) j(1) by fastforce
    moreover have "irank (items pd ! j) \<le> rank k" using in_c(1) c(3) \<open>i' < j\<close> by simp
    ultimately show False by simp
  qed
  ultimately have ij: "i' = j" by simp
  show "fst (internal_lookup cmp pd k) = j" using look ij by simp
  show "snd (internal_lookup cmp pd k) = Suc j" if lt: "nonempty (glo g c) (Some (rank k))"
  proof -
    have "irank x \<noteq> rank k" if x: "x \<in> set (tl (items pd))" for x
    proof -
      obtain b where b: "Suc b < node_size pd" "x = items pd ! Suc b" using x by (cases "items pd") (auto simp: in_set_conv_nth)
      show ?thesis
      proof (cases "Suc b \<le> j")
        case True
        then have "irank x \<le> irank (items pd ! j)" using inner_asc_le [OF sh i, of "Suc b" j] j(1) b(2) by simp
        moreover have "irank (items pd ! j) < rank k" using lt c(3) True by simp
        ultimately show ?thesis by simp
      next
        case False
        then have "irank (items pd ! Suc j) \<le> irank x" using inner_asc_le [OF sh i, of "Suc j" "Suc b"] b by simp
        moreover have "rank k < irank (items pd ! Suc j)" using in_c(2) c(4) False b(1) by simp
        ultimately show ?thesis by simp
      qed
    qed
    then show ?thesis using l(5) look ij by simp
  qed
qed

lemma child_index:
  assumes "shape N root g X eh" "c \<in> gD g" "c \<noteq> root" "c \<notin> X"
  obtains p pd as kc bs where "p \<in> gD g" "N p = Some pd" "\<not> is_leaf pd" "map_option parent (N c) = Some p" "glv g p = Suc (glv g c)"
    "items pd = as @ (kc, Page c) # bs"
proof -
  obtain p pd where p: "p \<in> gD g" "N p = Some pd" "\<not> is_leaf pd" "map_option parent (N c) = Some p" "glv g p = Suc (glv g c)" "has_child N p c"
    using parent_of [OF assms] by metis
  then obtain kc where "(kc, Page c) \<in> set (items pd)" by (auto simp: has_child_def)
  then obtain as bs where "items pd = as @ (kc, Page c) # bs" by (meson split_list)
  then show thesis using that p(1-5) by blast
qed

section \<open>A page is added to its parent\<close>

lemma insert_child_shape:
  assumes sh: "shape (nodes s) root g (insert n Y) eh" and cmp: "key_comparator s = cmp"
    and l: "l \<in> gD g" "n \<in> gD g" "l \<noteq> n" "ghi g l = Some (rank k)" "glo g n = Some (rank k)"
    and eh: "eh l = ghi g n" "eh n = ghi g n" and Y: "n \<notin> Y" and k: "valid k" and lv: "glv g n = glv g l"
    and p: "p \<in> gD g" "nodes s p = Some pd" "\<not> is_leaf pd" and its: "items pd = as @ (kl, Page l) # bs"
  obtains es nn where "nodes s n = Some nn"
    "insert_child p k n s =
      Some (edit s ((nodes s)(p \<mapsto> pd\<lparr>items := as @ (kl, Page l) # (k, Page n) # bs\<rparr>, n \<mapsto> nn\<lparr>parent := p\<rparr>)) es)"
    "shape ((nodes s)(p \<mapsto> pd\<lparr>items := as @ (kl, Page l) # (k, Page n) # bs\<rparr>, n \<mapsto> nn\<lparr>parent := p\<rparr>)) root g Y (eh(l := ghi g l))"
    "p \<noteq> n"
proof -
  obtain nn where nn: "nodes s n = Some nn" using page_ok_node [OF shapeD(7) [OF sh l(2)]] by blast
  have lo: "nonempty (glo g l) (Some (rank k))" using page_ok_node [OF shapeD(7) [OF sh l(1)]] page_okD(1) [OF shapeD(7) [OF sh l(1)]] l(4) by metis
  have hi: "below (ghi g n) (rank k)" using page_okD(1) [OF shapeD(7) [OF sh l(2)] nn] l(5) by simp
  have j: "length as < node_size pd" "snd (items pd ! length as) = Page l" using its by simp_all
  have abv: "above (glo g l) (rank k)" using lo by (cases "glo g l") auto
  have blw: "below (eh l) (rank k)" using hi eh(1) by simp
  have pos: "snd (internal_lookup cmp pd k) = Suc (length as)"
    by (rule lookup_at(2) [OF sh p k j abv blw lo])
  let ?pd = "pd\<lparr>items := as @ (kl, Page l) # (k, Page n) # bs\<rparr>"
  obtain es where e1: "node_insert_items p (Suc (length as)) [(k, Page n)] s = Some (edit s ((nodes s)(p \<mapsto> ?pd)) es)"
    using insert_items_edit [of s p pd "Suc (length as)" "[(k, Page n)]"] p(2) its by auto
  have "has_child (nodes s) p l" using p its by (auto simp: has_child_def)
  from child_parent(3) [OF sh p(1) this] have pn: "p \<noteq> n" using lv by auto
  let ?N = "(nodes s)(p \<mapsto> ?pd, n \<mapsto> nn\<lparr>parent := p\<rparr>)"
  obtain es' where e2: "set_parent_page_num n p (edit s ((nodes s)(p \<mapsto> ?pd)) es) = Some (edit s ?N (es @ es'))"
    using set_parent_edit [of "edit s ((nodes s)(p \<mapsto> ?pd)) es" n nn p] nn pn by auto
  have "insert_child p k n s = Some (edit s ?N (es @ es'))"
    using e1 e2 p(2) pos cmp by (simp add: insert_child_def internal_insert_def)
  moreover have "shape ?N root g Y (eh(l := ghi g l))"
    by (rule attach_shape [OF sh l eh Y k lv p its nn refl])
  ultimately show thesis using that nn pn by blast
qed

section \<open>Splitting an internal page\<close>

lemma inner_children:
  assumes sh: "shape N root g Y eh" and p: "p \<in> gD g" "N p = Some pd" "\<not> is_leaf pd"
  shows "children_in N (items pd)" and "np \<notin> gD g \<Longrightarrow> Page np \<notin> snd ` set (items pd)" and "Page p \<notin> snd ` set (items pd)"
proof -
  note i = page_okD(5) [OF shapeD(7) [OF sh p(1)] p(2,3)]
  have hc: "has_child N p c" if "Page c \<in> snd ` set (items pd)" for c using that p by (auto simp: has_child_def)
  show "children_in N (items pd)"
    unfolding children_in_def
  proof
    fix x
    assume x: "x \<in> set (items pd)"
    then obtain l h where "(snd x, l, h) \<in> set (kids (glo g p) (ghi g p) (items pd))" using items_kids [of "snd x" "items pd"] by blast
    from inner_okD(4) [OF i this] show "\<exists>c. snd x = Page c \<and> N c \<noteq> None" by (auto elim!: child_okD)
  qed
  show "Page np \<notin> snd ` set (items pd)" if "np \<notin> gD g" using child_parent(1) [OF sh p(1) hc] that by blast
  show "Page p \<notin> snd ` set (items pd)" using child_parent(5) [OF sh p(1) hc] by blast
qed

lemma split_inner:
  assumes sh: "shape (nodes s) root g Y eh" and p: "p \<in> gD g" "nodes s p = Some pd" "\<not> is_leaf pd" "2 \<le> node_size pd"
    and pool: "pool_ok s (gD g)" "0 < room s"
  obtains np s' k v xs ys g' where "items pd = xs @ (k, v) # ys" "length xs = node_size pd div 2" "xs \<noteq> []"
    "split False p s = Some (SUCCESS, np, s')" "np \<notin> gD g"
    "nodes s' = (reparent ((k, v) # ys) np (nodes s))(p \<mapsto> pd\<lparr>items := xs\<rparr>,
       np \<mapsto> \<lparr>is_leaf = False, parent = parent pd, next_brother = BP_INVALID_PAGE_NUM, items = (k, v) # ys\<rparr>)"
    "g' = g\<lparr>gD := insert np (gD g), glo := (glo g)(np := Some (rank k)), ghi := (ghi g)(p := Some (rank k), np := ghi g p),
       glv := (glv g)(np := glv g p)\<rparr>"
    "shape (nodes s') root g' (insert np Y) (eh(np := ghi g p))" "valid k" "nonempty (glo g p) (Some (rank k))" "below (ghi g p) (rank k)"
    "pool_ok s' (insert np (gD g))" "Suc (room s') = room s" "kept s s'" "file_header s' = file_header s"
proof -
  obtain np s0 where al: "latch_allocate_page s = (SUCCESS, np, s0)" "np \<notin> gD g" "0 \<le> np" "pool_ok s0 (insert np (gD g))"
      "Suc (room s0) = room s" "kept s s0" "nodes s0 = nodes s" "file_header s0 = file_header s"
    using allocate [OF pool] by metis
  define m where "m = node_size pd div 2"
  have m: "0 < m" "m < node_size pd" using p(4) by (auto simp: m_def)
  obtain k v ys where R: "drop m (items pd) = (k, v) # ys" using m(2) by (cases "drop m (items pd)") auto
  define xs where "xs = take m (items pd)"
  have its: "items pd = xs @ (k, v) # ys" using append_take_drop_id [of m "items pd"] by (simp add: R xs_def)
  have len: "length xs = m" using m by (simp add: xs_def)
  then have xs: "xs \<noteq> []" using m(1) by auto
  let ?R = "(k, v) # ys"
  let ?e = "\<lparr>is_leaf = False, parent = parent pd, next_brother = BP_INVALID_PAGE_NUM, items = []\<rparr>"
  have pn: "p \<noteq> np" using p(1) al(2) by auto
  note ch = inner_children [OF sh p(1-3)]
  have chR: "children_in (nodes s) ?R" using ch(1) by (auto simp: children_in_def its)
  have npR: "Page np \<notin> snd ` set ?R" using ch(2) [OF al(2)] by (auto simp: its image_Un)
  have pR: "Page p \<notin> snd ` set ?R" using ch(3) by (auto simp: its image_Un)
  obtain es1 where s1: "set_parent_page_num np (parent pd) (internal_init_empty np s0) = Some (edit s0 ((nodes s)(np \<mapsto> ?e)) es1)"
    by (simp add: set_parent_page_num_def internal_init_empty_def al(7))
  let ?s1 = "edit s0 ((nodes s)(np \<mapsto> ?e)) es1"
  obtain es2 where s2: "internal_append np ?R ?s1 = Some (edit s0 ((reparent ?R np (nodes s))(np \<mapsto> ?e\<lparr>items := ?R\<rparr>)) es2)"
    using internal_append_edit [of ?s1 np ?e ?R] npR children_in_upd [OF chR] by (auto simp: reparent_upd_same)
  let ?s2 = "edit s0 ((reparent ?R np (nodes s))(np \<mapsto> ?e\<lparr>items := ?R\<rparr>)) es2"
  have np2: "nodes ?s2 p = Some pd" using pn p(2) pR by (simp add: reparent_def)
  obtain es3 where s3: "node_remove_items p m (node_size pd - m) ?s2 =
      Some (edit s0 ((reparent ?R np (nodes s))(np \<mapsto> ?e\<lparr>items := ?R\<rparr>, p \<mapsto> pd\<lparr>items := xs\<rparr>)) es3)"
    using remove_items_edit [of ?s2 p pd m "node_size pd - m", OF np2] m by (auto simp: xs_def)
  let ?N' = "(reparent ?R np (nodes s))(p \<mapsto> pd\<lparr>items := xs\<rparr>, np \<mapsto> ?e\<lparr>items := ?R\<rparr>)"
  have tw: "(reparent ?R np (nodes s))(np \<mapsto> ?e\<lparr>items := ?R\<rparr>, p \<mapsto> pd\<lparr>items := xs\<rparr>) = ?N'" using pn by (simp add: fun_upd_twist)
  have "internal_move_half_to p np ?s1 = Some (edit s0 ?N' es3)"
    using p(2) pn s2 s3 [unfolded tw] R m_def by (simp add: internal_move_half_to_def Let_def)
  then have sp: "split False p s = Some (SUCCESS, np, edit s0 ?N' es3)"
    using s1 p(2) al by (simp add: split_def OB_FAIL_def)
  define g' where "g' = g\<lparr>gD := insert np (gD g), glo := (glo g)(np := Some (rank k)), ghi := (ghi g)(p := Some (rank k), np := ghi g p),
       glv := (glv g)(np := glv g p)\<rparr>"
  have "np \<noteq> - 1" using al(3) by simp
  note S = split_shape [OF sh p(1-3) its xs al(2) this _ _ refl g'_def, of "?e\<lparr>items := ?R\<rparr>"]
  show thesis
    by (rule that [OF its len [unfolded m_def] xs sp al(2) _ g'_def _ S(2-4)]) (use S(1) al in simp_all)
qed

section \<open>The invariant\<close>

definition body :: "(int \<rightharpoonup> IndexNode) \<Rightarrow> int \<Rightarrow> (bool \<times> item list \<times> int) option" where
  "body N p = map_option (\<lambda>nd. (is_leaf nd, items nd, next_brother nd)) (N p)"

lemma body_upd: "body (N(p \<mapsto> nd)) q = (if q = p then Some (is_leaf nd, items nd, next_brother nd) else body N q)"
  by (simp add: body_def)

lemma body_reparent: "body (reparent its p N) q = body N q"
  by (cases "N q") (simp_all add: body_def reparent_def)

lemma body_node: "N p = Some nd \<Longrightarrow> body N p = Some (is_leaf nd, items nd, next_brother nd)"
  by (simp add: body_def)

definition max_items :: "IndexFileHeader \<Rightarrow> bool \<Rightarrow> nat" where
  "max_items h lf = (if lf then leaf_max_size h else internal_max_size h)"

definition sized :: "IndexFileHeader \<Rightarrow> (int \<rightharpoonup> IndexNode) \<Rightarrow> int set \<Rightarrow> int \<Rightarrow> bool" where
  "sized h N D r \<longleftrightarrow> (\<forall>p\<in>D. \<forall>lf its nb. body N p = Some (lf, its, nb) \<longrightarrow>
     length its \<le> max_items h lf \<and> (if p = r then if lf then 1 else 2 else max_items h lf div 2) \<le> length its)"

definition levels :: "'r ghost \<Rightarrow> int \<Rightarrow> bool" where
  "levels g root \<longleftrightarrow> (\<forall>p\<in>gD g. glv g p \<le> glv g root)"

definition leaves :: "'r ghost \<Rightarrow> int set" where
  "leaves g = {p \<in> gD g. glv g p = 0}"

definition linked :: "(int \<rightharpoonup> IndexNode) \<Rightarrow> 'r ghost \<Rightarrow> bool" where
  "linked N g \<longleftrightarrow> (\<forall>p\<in>leaves g. \<forall>lf its nb. body N p = Some (lf, its, nb) \<longrightarrow>
     (if nb = - 1 then ghi g p = None else nb \<in> leaves g \<and> ghi g p \<noteq> None \<and> glo g nb = ghi g p))"

definition page_items :: "(int \<rightharpoonup> IndexNode) \<Rightarrow> int \<Rightarrow> item set" where
  "page_items N p = (case body N p of None \<Rightarrow> {} | Some (lf, its, nb) \<Rightarrow> set its)"

definition contents :: "(int \<rightharpoonup> IndexNode) \<Rightarrow> 'r ghost \<Rightarrow> item set" where
  "contents N g = (\<Union>p\<in>leaves g. page_items N p)"

lemma page_items_node: "N p = Some nd \<Longrightarrow> page_items N p = set (items nd)"
  by (simp add: page_items_def body_def)

lemma page_items_upd: "page_items (N(p \<mapsto> nd)) q = (if q = p then set (items nd) else page_items N q)"
  by (simp add: page_items_def body_upd)

definition same_leaves :: "(int \<rightharpoonup> IndexNode) \<Rightarrow> 'r ghost \<Rightarrow> (int \<rightharpoonup> IndexNode) \<Rightarrow> 'r ghost \<Rightarrow> bool" where
  "same_leaves N g N' g' \<longleftrightarrow> leaves g' = leaves g \<and> (\<forall>p\<in>leaves g. body N' p = body N p \<and> glo g' p = glo g p \<and> ghi g' p = ghi g p)"

lemma same_leaves_trans: "same_leaves N g N' g' \<Longrightarrow> same_leaves N' g' N'' g'' \<Longrightarrow> same_leaves N g N'' g''"
  unfolding same_leaves_def by metis

lemma same_leaves_contents: "same_leaves N g N' g' \<Longrightarrow> contents N' g' = contents N g"
  by (simp add: same_leaves_def contents_def page_items_def)

lemma same_leaves_linked: "same_leaves N g N' g' \<Longrightarrow> linked N g \<Longrightarrow> linked N' g'"
  unfolding linked_def
proof (intro ballI allI impI)
  fix p lf its nb
  assume s: "same_leaves N g N' g'" and l: "\<forall>p\<in>leaves g. \<forall>lf its nb. body N p = Some (lf, its, nb) \<longrightarrow>
     (if nb = - 1 then ghi g p = None else nb \<in> leaves g \<and> ghi g p \<noteq> None \<and> glo g nb = ghi g p)"
    and p: "p \<in> leaves g'" "body N' p = Some (lf, its, nb)"
  then have "p \<in> leaves g" "body N p = Some (lf, its, nb)" by (simp_all add: same_leaves_def)
  with l have *: "if nb = - 1 then ghi g p = None else nb \<in> leaves g \<and> ghi g p \<noteq> None \<and> glo g nb = ghi g p" by blast
  then show "if nb = - 1 then ghi g' p = None else nb \<in> leaves g' \<and> ghi g' p \<noteq> None \<and> glo g' nb = ghi g' p"
    using s \<open>p \<in> leaves g\<close> unfolding same_leaves_def by (cases "nb = - 1") simp_all
qed

definition settled :: "BplusTree \<Rightarrow> 'r ghost \<Rightarrow> bool" where
  \<comment> \<open>what holds at every moment of an insertion\<close>
  "settled s g \<longleftrightarrow> levels g (root_page (file_header s)) \<and> linked (nodes s) g \<and> pool_ok s (gD g) \<and> key_comparator s = cmp \<and>
     2 \<le> internal_max_size (file_header s) \<and> 2 \<le> leaf_max_size (file_header s)"

definition tree_ok :: "BplusTree \<Rightarrow> 'r ghost \<Rightarrow> bool" where
  "tree_ok s g \<longleftrightarrow> settled s g \<and> shape (nodes s) (root_page (file_header s)) g {} (ghi g) \<and>
     sized (file_header s) (nodes s) (gD g) (root_page (file_header s))"

definition pending :: "BplusTree \<Rightarrow> 'r ghost \<Rightarrow> int \<Rightarrow> int \<Rightarrow> key \<Rightarrow> bool" where
  \<comment> \<open>page \<open>n\<close> was split off page \<open>l\<close> and has no parent yet\<close>
  "pending s g l n k \<longleftrightarrow> settled s g \<and> shape (nodes s) (root_page (file_header s)) g {n} ((ghi g)(l := ghi g n)) \<and>
     sized (file_header s) (nodes s) (gD g) (if l = root_page (file_header s) then - 1 else root_page (file_header s)) \<and>
     l \<in> gD g \<and> n \<in> gD g \<and> l \<noteq> n \<and> ghi g l = Some (rank k) \<and> glo g n = Some (rank k) \<and> valid k \<and> glv g n = glv g l"

lemma settledI:
  assumes "settled s g" "kept s s'" "levels g' (root_page (file_header s'))" "pool_ok s' (gD g')" "same_leaves (nodes s) g (nodes s') g'"
  shows "settled s' g'"
  using assms same_leaves_linked [OF assms(5)] unfolding settled_def by (auto simp: kept_sizes)

section \<open>The climb to the root\<close>

lemma sizedD:
  assumes "sized h N D r" "p \<in> D" "body N p = Some (lf, its, nb)"
  shows "length its \<le> max_items h lf" "p \<noteq> r \<Longrightarrow> max_items h lf div 2 \<le> length its" "p = r \<Longrightarrow> (if lf then 1 else 2) \<le> length its"
proof -
  have "length its \<le> max_items h lf \<and> (if p = r then if lf then 1 else 2 else max_items h lf div 2) \<le> length its"
    using assms unfolding sized_def by blast
  then show "length its \<le> max_items h lf" "p \<noteq> r \<Longrightarrow> max_items h lf div 2 \<le> length its" "p = r \<Longrightarrow> (if lf then 1 else 2) \<le> length its"
    by simp_all
qed

lemma sizedI:
  assumes "\<And>p lf its nb. p \<in> D \<Longrightarrow> body N p = Some (lf, its, nb) \<Longrightarrow>
     length its \<le> max_items h lf \<and> (if p = r then if lf then 1 else 2 else max_items h lf div 2) \<le> length its"
  shows "sized h N D r"
  using assms unfolding sized_def by blast

lemma pendingD:
  assumes "pending s g l n k"
  shows "settled s g" "shape (nodes s) (root_page (file_header s)) g {n} ((ghi g)(l := ghi g n))"
    "sized (file_header s) (nodes s) (gD g) (if l = root_page (file_header s) then - 1 else root_page (file_header s))"
    "l \<in> gD g" "n \<in> gD g" "l \<noteq> n" "ghi g l = Some (rank k)" "glo g n = Some (rank k)" "valid k" "glv g n = glv g l"
    "levels g (root_page (file_header s))" "linked (nodes s) g" "pool_ok s (gD g)" "key_comparator s = cmp"
    "2 \<le> internal_max_size (file_header s)" "2 \<le> leaf_max_size (file_header s)" "- 1 \<notin> gD g"
  using assms unfolding pending_def settled_def shape_def by auto

lemma new_root_edit:
  assumes nd: "nodes s l = Some ld" "nodes s n = Some nn" "l \<noteq> n" "l \<in> D" "n \<in> D" and pool: "pool_ok s D" "0 < room s"
  obtains r s0 es z where "r \<notin> D" "r \<noteq> - 1" "pool_ok s0 (insert r D)" "Suc (room s0) = room s" "kept s s0"
    "new_root l n k s = Some (SUCCESS, update_root_page_num_locked r (edit s0 ((nodes s)
       (r \<mapsto> \<lparr>is_leaf = False, parent = - 1, next_brother = - 1, items = [(z, Page l), (k, Page n)]\<rparr>,
        l \<mapsto> ld\<lparr>parent := r\<rparr>, n \<mapsto> nn\<lparr>parent := r\<rparr>)) es))"
proof -
  obtain r s0 where al: "latch_allocate_page s = (SUCCESS, r, s0)" "r \<notin> D" "0 \<le> r" "pool_ok s0 (insert r D)"
      "Suc (room s0) = room s" "kept s s0" "nodes s0 = nodes s"
    using allocate [OF pool] by metis
  have ne: "l \<noteq> r" "n \<noteq> r" using assms(4,5) al(2) by auto
  let ?z = "replicate (key_length (file_header s0)) 0"
  let ?nr = "\<lparr>is_leaf = False, parent = - 1, next_brother = - 1, items = [(?z, Page l), (k, Page n)]\<rparr>"
  obtain es1 where s1: "internal_create_new_root r l k n (internal_init_empty r s0) = Some (edit s0 ((nodes s)(r \<mapsto> ?nr)) es1)"
    by (simp add: internal_create_new_root_def internal_init_empty_def al(7) BP_INVALID_PAGE_NUM_def)
  obtain es2 where s2: "set_parent_page_num l r (edit s0 ((nodes s)(r \<mapsto> ?nr)) es1) =
      Some (edit s0 ((nodes s)(r \<mapsto> ?nr, l \<mapsto> ld\<lparr>parent := r\<rparr>)) es2)"
    using set_parent_edit [of "edit s0 ((nodes s)(r \<mapsto> ?nr)) es1" l ld r] nd(1) ne by auto
  obtain es3 where s3: "set_parent_page_num n r (edit s0 ((nodes s)(r \<mapsto> ?nr, l \<mapsto> ld\<lparr>parent := r\<rparr>)) es2) =
      Some (edit s0 ((nodes s)(r \<mapsto> ?nr, l \<mapsto> ld\<lparr>parent := r\<rparr>, n \<mapsto> nn\<lparr>parent := r\<rparr>)) es3)"
    using set_parent_edit [of "edit s0 ((nodes s)(r \<mapsto> ?nr, l \<mapsto> ld\<lparr>parent := r\<rparr>)) es2" n nn r] nd(2,3) ne by auto
  show thesis
    by (rule that [OF al(2) _ al(4,5,6), of ?z es3]) (use al(1,3) s1 s2 s3 in \<open>simp_all add: new_root_def\<close>)
qed

lemma update_root_fields [simp]:
  "nodes (update_root_page_num_locked r s) = nodes s" "root_page (file_header (update_root_page_num_locked r s)) = r"
  "max_items (file_header (update_root_page_num_locked r s)) = max_items (file_header s)"
  "pool_ok (update_root_page_num_locked r s) D = pool_ok s D" "kept s0 (update_root_page_num_locked r s) = kept s0 s"
  "room (update_root_page_num_locked r s) = room s"
  by (auto simp: update_root_page_num_locked_def mtr_log_def max_items_def pool_ok_def kept_def room_def fun_eq_iff)

lemma kept_max_items: "kept s s' \<Longrightarrow> max_items (file_header s') = max_items (file_header s)"
  by (simp add: kept_sizes max_items_def fun_eq_iff)

lemma climb_root:
  assumes P: "pending s g l n k" and l: "l = root_page (file_header s)" and rm: "0 < room s"
  obtains s' g' where "insert_entry_into_parent l n k s = Some (SUCCESS, s')" "tree_ok s' g'"
    "same_leaves (nodes s) g (nodes s') g'" "kept s s'"
proof -
  note D = pendingD [OF P]
  let ?root = "root_page (file_header s)"
  note sh = D(2)
  obtain ld nn where nd: "nodes s l = Some ld" "nodes s n = Some nn"
    using page_ok_node [OF shapeD(7) [OF sh D(4)]] page_ok_node [OF shapeD(7) [OF sh D(5)]] by blast
  have ghn: "ghi g n = None" using shapeD(4) [OF sh] l by simp
  obtain r s0 es z where nr: "r \<notin> gD g" "r \<noteq> - 1" "pool_ok s0 (insert r (gD g))" "Suc (room s0) = room s" "kept s s0"
    "new_root l n k s = Some (SUCCESS, update_root_page_num_locked r (edit s0 ((nodes s)
       (r \<mapsto> \<lparr>is_leaf = False, parent = - 1, next_brother = - 1, items = [(z, Page l), (k, Page n)]\<rparr>,
        l \<mapsto> ld\<lparr>parent := r\<rparr>, n \<mapsto> nn\<lparr>parent := r\<rparr>)) es))"
    using new_root_edit [OF nd D(6,4,5) D(13) rm] by metis
  let ?nr = "\<lparr>is_leaf = False, parent = - 1, next_brother = - 1, items = [(z, Page l), (k, Page n)]\<rparr>"
  let ?N' = "(nodes s)(r \<mapsto> ?nr, l \<mapsto> ld\<lparr>parent := r\<rparr>, n \<mapsto> nn\<lparr>parent := r\<rparr>)"
  let ?s' = "update_root_page_num_locked r (edit s0 ?N' es)"
  define g' where "g' = g\<lparr>gD := insert r (gD g), glo := (glo g)(r := None), ghi := (ghi g)(r := None), glv := (glv g)(r := Suc (glv g l))\<rparr>"
  have ne: "l \<noteq> r" "n \<noteq> r" using D(4,5) nr(1) by auto
  have par: "parent ld = - 1" using shapeD(5) [OF sh] nd(1) l by simp
  have "insert_entry_into_parent l n k s = Some (SUCCESS, ?s')"
    using nr(6) nd(1) par by (subst insert_entry_into_parent.simps) (simp add: BP_INVALID_PAGE_NUM_def)
  moreover have "shape ?N' r g' {} (((ghi g)(l := ghi g n))(l := Some (rank k), r := None))"
    by (rule new_root_shape [of "nodes s" l g n _ k r ld nn ?nr])
      (use D(5-10) ghn nr(1,2) nd sh l in \<open>simp_all add: g'_def\<close>)
  then have "shape ?N' r g' {} (ghi g')"
  proof -
    assume "shape ?N' r g' {} (((ghi g)(l := ghi g n))(l := Some (rank k), r := None))"
    moreover have "((ghi g)(l := ghi g n))(l := Some (rank k), r := None) = ghi g'" using D(7) by (auto simp: g'_def)
    ultimately show ?thesis by simp
  qed
  moreover have lv: "leaves g' = leaves g" using nr(1) by (auto simp: leaves_def g'_def)
  have bd: "body ?N' q = body (nodes s) q" if "q \<noteq> r" for q using that nd ne D(6) by (simp add: body_def)
  have sl: "same_leaves (nodes s) g ?N' g'"
    unfolding same_leaves_def lv
  proof (intro conjI refl ballI)
    fix q
    assume "q \<in> leaves g"
    then have "q \<noteq> r" using nr(1) by (auto simp: leaves_def)
    then show "body ?N' q = body (nodes s) q" "glo g' q = glo g q" "ghi g' q = ghi g q" using bd by (simp_all add: g'_def)
  qed
  moreover have "levels g' r" using D(11) l by (auto simp: levels_def g'_def le_Suc_eq)
  then have "settled ?s' g'" by (intro settledI [OF D(1)]) (use nr(3,5) sl in \<open>simp_all add: g'_def\<close>)
  moreover have "sized (file_header ?s') ?N' (gD g') r"
  proof (rule sizedI)
    fix q lf its nb
    assume q: "q \<in> gD g'" "body ?N' q = Some (lf, its, nb)"
    show "length its \<le> max_items (file_header ?s') lf \<and> (if q = r then if lf then 1 else 2 else max_items (file_header ?s') lf div 2) \<le> length its"
    proof (cases "q = r")
      case True
      then have "\<not> lf" "length its = 2" using q(2) ne by (auto simp: body_def)
      then show ?thesis using True D(15) kept_sizes(2) [OF nr(5)] by (simp add: max_items_def update_root_page_num_locked_def mtr_log_def)
    next
      case False
      then have q': "q \<in> gD g" "body (nodes s) q = Some (lf, its, nb)" using q bd by (simp_all add: g'_def)
      have "q \<noteq> - 1" using q'(1) D(17) by auto
      then show ?thesis using sizedD(1,2) [OF D(3) q'] l False kept_max_items [OF nr(5)] by simp
    qed
  qed
  ultimately have "tree_ok ?s' g'" unfolding tree_ok_def by simp
  then show thesis using that [of ?s' g'] sl nr(5) \<open>insert_entry_into_parent l n k s = Some (SUCCESS, ?s')\<close> by simp
qed

lemma same_leaves_inner:
  assumes lv: "leaves g' = leaves g" and gh: "\<And>q. q \<in> leaves g \<Longrightarrow> glo g' q = glo g q \<and> ghi g' q = ghi g q"
    and N: "\<And>q. q \<in> leaves g \<Longrightarrow> body N' q = body N q"
  shows "same_leaves N g N' g'"
  using assms by (simp add: same_leaves_def)

lemma climb_attach:
  assumes P: "pending s g l n k" and l: "l \<noteq> root_page (file_header s)"
    and p: "p \<in> gD g" "nodes s p = Some pd" "\<not> is_leaf pd" "map_option parent (nodes s l) = Some p" "glv g p = Suc (glv g l)"
    and its: "items pd = as @ (kl, Page l) # bs" and free: "node_size pd < internal_max_size (file_header s)"
  obtains s' where "insert_entry_into_parent l n k s = Some (SUCCESS, s')" "tree_ok s' g" "same_leaves (nodes s) g (nodes s') g" "kept s s'"
proof -
  note D = pendingD [OF P]
  obtain ld where ld: "nodes s l = Some ld" "parent ld = p" using p(4) by auto
  have pm: "p \<noteq> - 1" using p(1) D(17) by auto
  obtain es nn where nn: "nodes s n = Some nn" and
    ins: "insert_child p k n s = Some (edit s ((nodes s)(p \<mapsto> pd\<lparr>items := as @ (kl, Page l) # (k, Page n) # bs\<rparr>, n \<mapsto> nn\<lparr>parent := p\<rparr>)) es)"
    and sh: "shape ((nodes s)(p \<mapsto> pd\<lparr>items := as @ (kl, Page l) # (k, Page n) # bs\<rparr>, n \<mapsto> nn\<lparr>parent := p\<rparr>)) (root_page (file_header s)) g {}
      (((ghi g)(l := ghi g n))(l := ghi g l))" and pn: "p \<noteq> n"
    by (rule insert_child_shape [OF D(2,14,4,5,6,7,8) _ _ _ D(9,10) p(1-3) its]) (use D(6) in simp_all)
  let ?pd = "pd\<lparr>items := as @ (kl, Page l) # (k, Page n) # bs\<rparr>"
  let ?N = "(nodes s)(p \<mapsto> ?pd, n \<mapsto> nn\<lparr>parent := p\<rparr>)"
  let ?s' = "edit s ?N es"
  have run: "insert_entry_into_parent l n k s = Some (SUCCESS, ?s')"
    using ld p(2,3) pm free ins by (subst insert_entry_into_parent.simps) (simp add: BP_INVALID_PAGE_NUM_def max_size_def)
  have bd: "body ?N q = (if q = p then Some (False, as @ (kl, Page l) # (k, Page n) # bs, next_brother pd) else body (nodes s) q)" for q
    using pn nn p(3) by (simp add: body_def)
  have lf: "q \<noteq> p" if "q \<in> leaves g" for q using that p(5) by (auto simp: leaves_def)
  have sl: "same_leaves (nodes s) g ?N g" by (rule same_leaves_inner) (use bd lf in simp_all)
  have shN: "shape ?N (root_page (file_header s)) g {} (ghi g)" using sh by simp
  have sz: "sized (file_header s) ?N (gD g) (root_page (file_header s))"
  proof (rule sizedI)
    fix q lf its' nb
    assume q: "q \<in> gD g" "body ?N q = Some (lf, its', nb)"
    show "length its' \<le> max_items (file_header s) lf \<and>
      (if q = root_page (file_header s) then if lf then 1 else 2 else max_items (file_header s) lf div 2) \<le> length its'"
    proof (cases "q = p")
      case True
      note b = body_node [of "nodes s", OF p(2)]
      have "its' = as @ (kl, Page l) # (k, Page n) # bs" "\<not> lf" using q(2) bd True by auto
      then show ?thesis using sizedD [OF D(3) p(1) b] l True free p(3) its by (auto simp: max_items_def)
    next
      case False
      then have q2: "body (nodes s) q = Some (lf, its', nb)" using q(2) bd by simp
      show ?thesis using sizedD [OF D(3) q(1) q2] l by simp
    qed
  qed
  have "settled ?s' g" by (rule settledI [OF D(1)]) (use D(11,13) sl in simp_all)
  then show thesis using that [OF run] shN sz sl by (simp add: tree_ok_def)
qed

lemma split_side:
  \<comment> \<open>which half of a split page holds the left sibling\<close>
  assumes sh: "shape N root g X eh" and i: "inner_ok N g eh p (xs @ (kk, v) # ys)" and xs: "xs \<noteq> []"
    and its: "xs @ (kk, v) # ys = as @ (kl, Page l) # bs" and in_l: "nonempty (glo g l) (Some (rank k))" "below (eh l) (rank k)"
  shows "rank k < rank kk \<and> (\<exists>bs'. xs = as @ (kl, Page l) # bs') \<or>
         rank kk < rank k \<and> (\<exists>as'. (kk, v) # ys = as' @ (kl, Page l) # bs)"
proof (cases "length as < length xs")
  case True
  then have bs: "xs = as @ (kl, Page l) # take (length xs - Suc (length as)) bs" (is "_ = _ @ _ # ?bs'")
    using arg_cong [OF its, of "take (length xs)"] by (simp add: take_Cons')
  have j: "length as < length (xs @ (kk, v) # ys)" "snd ((xs @ (kk, v) # ys) ! length as) = Page l" using True unfolding its by simp_all
  have "eh l = Some (irank ((xs @ (kk, v) # ys) ! Suc (length as)))" using child_at(4) [OF i j] True by simp
  then have "rank k < irank ((xs @ (kk, v) # ys) ! Suc (length as))" using in_l(2) by simp
  also have "... \<le> irank ((xs @ (kk, v) # ys) ! length xs)" by (rule inner_asc_le [OF sh i]) (use True in simp_all)
  finally have "rank k < rank kk" by simp
  then show ?thesis using bs by blast
next
  case False
  then have len: "length xs \<le> length as" by simp
  have as: "(kk, v) # ys = drop (length xs) as @ (kl, Page l) # bs"
    using arg_cong [OF its, of "drop (length xs)"] len by simp
  have j: "length as < length (xs @ (kk, v) # ys)" "snd ((xs @ (kk, v) # ys) ! length as) = Page l" unfolding its by simp_all
  have pos: "0 < length as" using len xs by (cases xs) auto
  have "rank kk = irank ((xs @ (kk, v) # ys) ! length xs)" by simp
  also have "... \<le> irank ((xs @ (kk, v) # ys) ! length as)" by (rule inner_asc_le [OF sh i]) (use len xs j in simp_all)
  also have "... < rank k" using child_at(3) [OF i j] pos in_l(1) by simp
  finally show ?thesis using as by blast
qed

lemma climb_split:
  assumes P: "pending s g l n k" and l: "l \<noteq> root_page (file_header s)" and rm: "0 < room s"
    and p: "p \<in> gD g" "nodes s p = Some pd" "\<not> is_leaf pd" "map_option parent (nodes s l) = Some p" "glv g p = Suc (glv g l)"
    and its: "items pd = as @ (kl, Page l) # bs" and full: "\<not> node_size pd < internal_max_size (file_header s)"
  obtains s' g' np kk where "insert_entry_into_parent l n k s = insert_entry_into_parent p np kk s'" "pending s' g' p np kk"
    "same_leaves (nodes s) g (nodes s') g'" "kept s s'" "file_header s' = file_header s" "Suc (room s') = room s"
    "glv g' p = Suc (glv g l)" "glv g' (root_page (file_header s)) = glv g (root_page (file_header s))"
proof -
  note D = pendingD [OF P]
  let ?root = "root_page (file_header s)" and ?M = "internal_max_size (file_header s)"
  obtain ld where ld: "nodes s l = Some ld" "parent ld = p" using p(4) by auto
  have pm: "p \<noteq> - 1" using p(1) D(17) by auto
  have len: "node_size pd = ?M"
    using sizedD(1) [OF D(3) p(1) body_node [of "nodes s", OF p(2)]] full p(3) by (simp add: max_items_def)
  then have two: "2 \<le> node_size pd" using D(15) by simp
  obtain np s1 kk v xs ys g' where S: "items pd = xs @ (kk, v) # ys" "length xs = node_size pd div 2" "xs \<noteq> []"
    "split False p s = Some (SUCCESS, np, s1)" "np \<notin> gD g"
    "nodes s1 = (reparent ((kk, v) # ys) np (nodes s))(p \<mapsto> pd\<lparr>items := xs\<rparr>,
       np \<mapsto> \<lparr>is_leaf = False, parent = parent pd, next_brother = BP_INVALID_PAGE_NUM, items = (kk, v) # ys\<rparr>)"
    and g': "g' = g\<lparr>gD := insert np (gD g), glo := (glo g)(np := Some (rank kk)), ghi := (ghi g)(p := Some (rank kk), np := ghi g p),
       glv := (glv g)(np := glv g p)\<rparr>"
    and S2: "shape (nodes s1) ?root g' (insert np {n}) (((ghi g)(l := ghi g n))(np := ghi g p))" "valid kk"
      "nonempty (glo g p) (Some (rank kk))" "below (ghi g p) (rank kk)"
      "pool_ok s1 (insert np (gD g))" "Suc (room s1) = room s" "kept s s1" "file_header s1 = file_header s"
    by (rule split_inner [OF D(2) p(1-3) two D(13) rm])
  let ?np = "\<lparr>is_leaf = False, parent = parent pd, next_brother = BP_INVALID_PAGE_NUM, items = (kk, v) # ys\<rparr>"
  have ne: "l \<noteq> p" "n \<noteq> p" "l \<noteq> np" "n \<noteq> np" "p \<noteq> np" using p(1,5) D(4,5,10) S(5) by auto
  have in_l: "nonempty (glo g l) (Some (rank k))" "below (((ghi g)(l := ghi g n)) l) (rank k)"
    using page_okD(1) [OF shapeD(7) [OF D(2,4)] ld(1)] D(7,8) page_ok_node [OF shapeD(7) [OF D(2,5)]]
      page_okD(1) [OF shapeD(7) [OF D(2,5)]] by auto
  note i = page_okD(5) [OF shapeD(7) [OF D(2) p(1)] p(2,3)]
  define pp where "pp = (if rank kk < rank k then np else p)"
  have "rank k < rank kk \<and> (\<exists>bs'. xs = as @ (kl, Page l) # bs') \<or> rank kk < rank k \<and> (\<exists>as'. (kk, v) # ys = as' @ (kl, Page l) # bs)"
    by (rule split_side [OF D(2) i [unfolded S(1)] S(3) _ in_l]) (use its S(1) in simp)
  then obtain ppd a b where pp: "nodes s1 pp = Some ppd" "\<not> is_leaf ppd" "items ppd = a @ (kl, Page l) # b" "pp \<in> gD g'"
    and side: "items ppd = (if pp = np then (kk, v) # ys else xs)"
  proof
    assume "rank k < rank kk \<and> (\<exists>bs'. xs = as @ (kl, Page l) # bs')"
    then obtain bs' where b: "rank k < rank kk" "xs = as @ (kl, Page l) # bs'" by blast
    then have "pp = p" by (auto simp: pp_def)
    then show ?thesis using that [of "pd\<lparr>items := xs\<rparr>" as bs'] b(2) S(6) ne p(1,3) by (simp add: g')
  next
    assume "rank kk < rank k \<and> (\<exists>as'. (kk, v) # ys = as' @ (kl, Page l) # bs)"
    then obtain as' where b: "rank kk < rank k" "(kk, v) # ys = as' @ (kl, Page l) # bs" by blast
    then have "pp = np" by (auto simp: pp_def)
    then show ?thesis using that [of ?np as' bs] b(2) S(6) by (simp add: g')
  qed
  have ppn: "pp = p \<or> pp = np" by (simp add: pp_def)
  have cmp1: "key_comparator s1 = cmp" using D(14) kept_sizes(4) [OF S2(7)] by simp
  have sh1: "shape (nodes s1) ?root g' (insert n {np}) (((ghi g)(l := ghi g n))(np := ghi g p))" using S2(1) by (simp add: insert_commute)
  obtain es nn where nn: "nodes s1 n = Some nn" and
    ins: "insert_child pp k n s1 = Some (edit s1 ((nodes s1)(pp \<mapsto> ppd\<lparr>items := a @ (kl, Page l) # (k, Page n) # b\<rparr>, n \<mapsto> nn\<lparr>parent := pp\<rparr>)) es)"
    and sh2: "shape ((nodes s1)(pp \<mapsto> ppd\<lparr>items := a @ (kl, Page l) # (k, Page n) # b\<rparr>, n \<mapsto> nn\<lparr>parent := pp\<rparr>)) ?root g' {np}
      ((((ghi g)(l := ghi g n))(np := ghi g p))(l := ghi g' l))"
    by (rule insert_child_shape [OF sh1 cmp1 _ _ D(6) _ _ _ _ _ D(9) _ pp(4,1,2,3)]) (use D(4-10) ne in \<open>simp_all add: g'\<close>)
  let ?ppd = "ppd\<lparr>items := a @ (kl, Page l) # (k, Page n) # b\<rparr>"
  let ?N = "(nodes s1)(pp \<mapsto> ?ppd, n \<mapsto> nn\<lparr>parent := pp\<rparr>)"
  let ?s2 = "edit s1 ?N es"
  have npn: "n \<noteq> pp" using ppn ne by auto
  have hd_np: "\<exists>nd. ?N np = Some nd \<and> key_at nd 0 = Some kk"
  proof (cases "pp = np")
    case True
    have "a @ (kl, Page l) # b = (kk, v) # ys" using pp(3) side True by simp
    then have "fst (hd (a @ (kl, Page l) # (k, Page n) # b)) = kk" by (cases a) auto
    then have "fst ((a @ (kl, Page l) # (k, Page n) # b) ! 0) = kk" by (cases a) auto
    then show ?thesis using True ne by (simp add: key_at_def)
  next
    case False
    then show ?thesis using ne S(6) by (simp add: key_at_def)
  qed
  have cmpk: "0 < cmp k kk \<longleftrightarrow> rank kk < rank k" by (rule cmp_pos [OF D(9) S2(2)])
  obtain npd where npd: "nodes s1 np = Some npd" "key_at npd 0 = Some kk" using S(6) by (simp add: key_at_def)
  obtain npd2 where npd2: "nodes ?s2 np = Some npd2" "key_at npd2 0 = Some kk" using hd_np by auto
  have ins': "insert_child (if 0 < key_comparator s1 k kk then np else p) k n s1 = Some ?s2" using ins cmpk cmp1 by (simp add: pp_def)
  have full': "\<not> node_size pd < max_size (file_header s) pd" using full p(3) by (simp add: max_size_def)
  have cmpeq: "key_comparator s = key_comparator s1" using cmp1 D(14) by simp
  have run: "insert_entry_into_parent l n k s = insert_entry_into_parent p np kk ?s2"
    unfolding insert_entry_into_parent.simps [of l n k s]
    by (simp only: ld p(2) S(4) npd npd2 ins' cmpeq Option.bind.bind_lunit pm BP_INVALID_PAGE_NUM_def full' if_False OB_FAIL_iff OB_SUCC_def prod.case simp_thms)
  have eh2: "(((ghi g)(l := ghi g n))(np := ghi g p))(l := ghi g' l) = (ghi g')(p := ghi g' np)"
    using ne D(7) by (auto simp: g')
  have bd: "body ?N q = (if q = pp then Some (False, a @ (kl, Page l) # (k, Page n) # b, next_brother ppd) else
      if q = p then Some (False, xs, next_brother pd) else if q = np then Some (False, (kk, v) # ys, - 1) else body (nodes s) q)" for q
  proof -
    have "body ?N q = (if q = pp then Some (False, a @ (kl, Page l) # (k, Page n) # b, next_brother ppd) else body (nodes s1) q)"
      using npn nn pp(2) by (simp add: body_def)
    moreover have "body (nodes s1) q = (if q = p then Some (False, xs, next_brother pd) else if q = np then Some (False, (kk, v) # ys, - 1) else body (nodes s) q)"
      using ne p(3) unfolding S(6) body_upd body_reparent by (auto simp: BP_INVALID_PAGE_NUM_def)
    ultimately show ?thesis by simp
  qed
  have lv: "leaves g' = leaves g" using S(5) p(5) by (auto simp: leaves_def g')
  have lf: "q \<noteq> p \<and> q \<noteq> np \<and> q \<noteq> pp" if "q \<in> leaves g" for q using that p(5) S(5) ppn by (auto simp: leaves_def)
  have sl: "same_leaves (nodes s) g ?N g'" by (rule same_leaves_inner) (use lv bd lf in \<open>simp_all add: g'\<close>)
  have shN: "shape ?N ?root g' {np} ((ghi g')(p := ghi g' np))" using sh2 eh2 by simp
  have rootD: "?root \<in> gD g" by (rule shapeD(1) [OF D(2)])
  have sz: "sized (file_header s) ?N (gD g') (if p = ?root then - 1 else ?root)"
  proof (rule sizedI)
    fix q lf its' nb
    assume q: "q \<in> gD g'" "body ?N q = Some (lf, its', nb)"
    have q1: "q \<noteq> - 1" using shapeD(6) [OF shN] q(1) by auto
    have len2: "length xs + length ((kk, v) # ys) = ?M" "length xs = ?M div 2" using S(1,2) len by simp_all
    show "length its' \<le> max_items (file_header s) lf \<and>
      (if q = (if p = ?root then - 1 else ?root) then if lf then 1 else 2 else max_items (file_header s) lf div 2) \<le> length its'"
    proof (cases "q = p \<or> q = np")
      case True
      then have qr: "q \<noteq> (if p = ?root then - 1 else ?root)" using q1 rootD S(5) by auto
      have la: "length (a @ (kl, Page l) # (k, Page n) # b) = Suc (if pp = np then length ((kk, v) # ys) else length xs)"
        using arg_cong [OF pp(3), of length] side by (auto split: if_splits)
      have "\<not> lf" and "length its' = length xs \<or> length its' = Suc (length xs) \<or> length its' = length ((kk, v) # ys) \<or> length its' = Suc (length ((kk, v) # ys))"
        using True q(2) la unfolding bd by (auto split: if_splits)
      then show ?thesis using qr len2 D(15) by (auto simp: max_items_def)
    next
      case False
      then have q2: "q \<in> gD g" "body (nodes s) q = Some (lf, its', nb)" using q bd ppn by (auto simp: g')
      have "q = ?root \<Longrightarrow> p \<noteq> ?root" using False by auto
      then show ?thesis using sizedD [OF D(3) q2] l q1 by (cases "q = ?root") auto
    qed
  qed
  have lev: "levels g' ?root" using D(11) p(1) rootD S(5) by (auto simp: levels_def g')
  have st: "settled ?s2 g'" by (rule settledI [OF D(1)]) (use lev S2(5,7,8) sl in \<open>simp_all add: g'\<close>)
  have gg: "p \<in> gD g'" "np \<in> gD g'" "ghi g' p = Some (rank kk)" "glo g' np = Some (rank kk)" "glv g' np = glv g' p"
    using ne p(1) by (simp_all add: g')
  have "pending ?s2 g' p np kk"
    unfolding pending_def edit_fields S2(8) using st shN sz gg ne(5) S2(2) by (intro conjI)
  moreover have "glv g' p = Suc (glv g l)" "glv g' ?root = glv g ?root" using ne p(5) rootD S(5) by (auto simp: g')
  ultimately show thesis using that [OF run] sl S2(6,7,8) by simp
qed

lemma climb:
  "pending s g l n k \<Longrightarrow> glv g (root_page (file_header s)) - glv g l < room s \<Longrightarrow>
   \<exists>s' g'. insert_entry_into_parent l n k s = Some (SUCCESS, s') \<and> tree_ok s' g' \<and> same_leaves (nodes s) g (nodes s') g' \<and> kept s s'"
proof (induction "glv g (root_page (file_header s)) - glv g l" arbitrary: s g l n k)
  case (0 s g l n k)
  note D = pendingD [OF 0(2)]
  have "l = root_page (file_header s)"
  proof (rule ccontr)
    assume l: "l \<noteq> root_page (file_header s)"
    obtain p where "p \<in> gD g" "glv g p = Suc (glv g l)" by (rule child_index [OF D(2,4) l]) (use D(6) in auto)
    then show False using D(11) 0(1) by (auto simp: levels_def dest!: bspec)
  qed
  then show ?case using climb_root [OF 0(2)] 0(3) by (metis neq0_conv not_less_zero)
next
  case (Suc d s g l n k)
  note D = pendingD [OF Suc(3)]
  have l: "l \<noteq> root_page (file_header s)" using Suc(2) by auto
  obtain p pd as kl bs where p: "p \<in> gD g" "nodes s p = Some pd" "\<not> is_leaf pd" "map_option parent (nodes s l) = Some p" "glv g p = Suc (glv g l)"
    "items pd = as @ (kl, Page l) # bs"
    by (rule child_index [OF D(2,4) l]) (use D(6) in auto)
  show ?case
  proof (cases "node_size pd < internal_max_size (file_header s)")
    case True
    then show ?thesis using climb_attach [OF Suc(3) l p] by metis
  next
    case False
    have "0 < room s" using Suc(4) by simp
    obtain s' g' np kk where C: "insert_entry_into_parent l n k s = insert_entry_into_parent p np kk s'" "pending s' g' p np kk"
      "same_leaves (nodes s) g (nodes s') g'" "kept s s'" "file_header s' = file_header s" "Suc (room s') = room s"
      "glv g' p = Suc (glv g l)" "glv g' (root_page (file_header s)) = glv g (root_page (file_header s))"
      by (rule climb_split [OF Suc(3) l \<open>0 < room s\<close> p False])
    have d: "d = glv g' (root_page (file_header s')) - glv g' p" using Suc(2) C(5,7,8) by simp
    moreover have "glv g' (root_page (file_header s')) - glv g' p < room s'" using Suc(2,4) C(5-8) by simp
    ultimately obtain s'' g'' where "insert_entry_into_parent p np kk s' = Some (SUCCESS, s'')" "tree_ok s'' g''"
      "same_leaves (nodes s') g' (nodes s'') g''" "kept s' s''"
      using Suc(1) [OF d C(2)] by blast
    then show ?thesis using C same_leaves_trans kept_trans by metis
  qed
qed

end

end
