(* ===== verification/Bplus_Leaf.thy ===== *)
theory Bplus_Leaf
  imports Bplus_Insert
begin

text \<open>
  Insertion at a leaf, with and without a split, and the whole of \<^verbatim>\<open>BplusTreeHandler::insert_entry\<close>: the tree stays well
  formed, and its contents grow by the new item unless the key is already there.
\<close>

context key_order
begin

section \<open>The leaf of a key\<close>

lemma child_interval:
  assumes sh: "shape N root g X eh" and p: "p \<in> gD g" "N p = Some pd" "\<not> is_leaf pd" and j: "j < node_size pd" "snd (items pd ! j) = Page c"
    and r: "above (glo g c) r" "below (eh c) r"
  shows "above (glo g p) r" "below (ghi g p) r"
proof -
  note i = page_okD(5) [OF shapeD(7) [OF sh p(1)] p(2,3)]
  note c = child_at [OF i j] and a = kids_ascending(2) [OF kids_ne [OF sh i]]
  have t: "items pd ! Suc m \<in> set (tl (items pd))" if "Suc m < node_size pd" for m using that by (cases "items pd") auto
  show "above (glo g p) r"
  proof (cases j)
    case 0
    then show ?thesis using c(3) r(1) by simp
  next
    case (Suc m)
    then have "nonempty (glo g p) (Some (irank (items pd ! j)))" "irank (items pd ! j) \<le> r" using a t [of m] j(1) c(3) r(1) by auto
    then show ?thesis by (cases "glo g p") auto
  qed
  show "below (ghi g p) r"
  proof (cases "Suc j < node_size pd")
    case True
    then have "below (ghi g p) (irank (items pd ! Suc j))" "r < irank (items pd ! Suc j)" using a t [of j] c(4) r(2) by auto
    then show ?thesis using below_trans less_imp_le by blast
  next
    case False
    then show ?thesis using c(4) r(2) by simp
  qed
qed

lemma same_page:
  assumes sh: "shape N root g {} (ghi g)" and lev: "levels g root" and k: "valid k"
  shows "p \<in> gD g \<Longrightarrow> q \<in> gD g \<Longrightarrow> glv g p = glv g q \<Longrightarrow> above (glo g p) (rank k) \<Longrightarrow> below (ghi g p) (rank k) \<Longrightarrow>
    above (glo g q) (rank k) \<Longrightarrow> below (ghi g q) (rank k) \<Longrightarrow> p = q"
proof (induction "glv g root - glv g p" arbitrary: p q)
  case 0
  have *: "a = root" if a: "a \<in> gD g" "glv g a = glv g p" for a
  proof (rule ccontr)
    assume "a \<noteq> root"
    obtain b where "b \<in> gD g" "glv g b = Suc (glv g a)" by (rule child_index [OF sh a(1) \<open>a \<noteq> root\<close>]) auto
    then have "Suc (glv g a) \<le> glv g root" using lev by (auto simp: levels_def dest!: bspec)
    then show False using 0(1) a(2) by simp
  qed
  show ?case using * [of p] * [of q] 0(2-4) by simp
next
  case (Suc d)
  have pr: "p \<noteq> root" "q \<noteq> root" using Suc(2,5) by auto
  obtain p' pd as kp bs where p': "p' \<in> gD g" "N p' = Some pd" "\<not> is_leaf pd" "glv g p' = Suc (glv g p)" "items pd = as @ (kp, Page p) # bs"
    by (rule child_index [OF sh Suc(3) pr(1)]) (simp, blast)
  obtain q' qd cs kq ds where q': "q' \<in> gD g" "N q' = Some qd" "\<not> is_leaf qd" "glv g q' = Suc (glv g q)" "items qd = cs @ (kq, Page q) # ds"
    by (rule child_index [OF sh Suc(4) pr(2)]) (simp, blast)
  have jp: "length as < node_size pd" "snd (items pd ! length as) = Page p" and jq: "length cs < node_size qd" "snd (items qd ! length cs) = Page q"
    using p'(5) q'(5) by simp_all
  have "p' = q'"
  proof (rule Suc(1) [OF _ p'(1) q'(1)])
    show "d = glv g root - glv g p'" using Suc(2) p'(4) by simp
    show "glv g p' = glv g q'" using p'(4) q'(4) Suc(5) by simp
  qed (use child_interval [OF sh p'(1-3) jp Suc(6,7)] child_interval [OF sh q'(1-3) jq Suc(8,9)] in simp_all)
  then have "pd = qd" using p'(2) q'(2) by simp
  moreover have "fst (internal_lookup cmp pd k) = length as" by (rule lookup_at(1) [OF sh p'(1-3) k jp Suc(6,7)])
  moreover have "fst (internal_lookup cmp qd k) = length cs" by (rule lookup_at(1) [OF sh q'(1-3) k jq Suc(8,9)])
  ultimately show ?case using jp jq by simp
qed

lemma leafD:
  assumes "shape N root g X eh" "p \<in> leaves g"
  obtains nd where "N p = Some nd" "is_leaf nd" "leaf_ok (glo g p) (ghi g p) (items nd)" "body N p = Some (True, items nd, next_brother nd)"
proof -
  have p: "p \<in> gD g" "glv g p = 0" using assms(2) by (auto simp: leaves_def)
  obtain nd where nd: "N p = Some nd" using page_ok_node [OF shapeD(7) [OF assms(1) p(1)]] by blast
  then have "is_leaf nd" using page_okD(4) [OF shapeD(7) [OF assms(1) p(1)] nd] p(2) by auto
  then show thesis using that nd page_okD(3) [OF shapeD(7) [OF assms(1) p(1)] nd] body_node [of N p nd] by simp
qed

lemma leaf_in_leaves: "shape N root g X eh \<Longrightarrow> p \<in> gD g \<Longrightarrow> N p = Some nd \<Longrightarrow> is_leaf nd \<Longrightarrow> p \<in> leaves g"
  using page_okD(2) [OF shapeD(7)] by (fastforce simp: leaves_def)

lemma contents_iff:
  \<comment> \<open>an item with the rank of \<open>k\<close> can only be in the leaf for \<open>k\<close>\<close>
  assumes sh: "shape N root g {} (ghi g)" and lev: "levels g root" and k: "valid k" and p: "p \<in> leaves g" "N p = Some nd"
    and "above (glo g p) (rank k)" "below (ghi g p) (rank k)" and x: "irank x = rank k"
  shows "x \<in> contents N g \<longleftrightarrow> x \<in> set (items nd)"
proof
  assume "x \<in> contents N g"
  then obtain q where q: "q \<in> leaves g" "x \<in> page_items N q" by (auto simp: contents_def)
  obtain qd where qd: "N q = Some qd" "leaf_ok (glo g q) (ghi g q) (items qd)" by (rule leafD [OF sh q(1)])
  have its: "x \<in> set (items qd)" using q(2) page_items_node [of N q qd, OF qd(1)] by simp
  then have "above (glo g q) (rank k)" "below (ghi g q) (rank k)" using qd(2) x by (auto simp: leaf_ok_def)
  then have "p = q" using same_page [OF sh lev k, of p q] assms(6,7) p(1) q(1) by (simp add: leaves_def)
  then show "x \<in> set (items nd)" using its qd(1) p(2) by simp
next
  assume "x \<in> set (items nd)"
  then show "x \<in> contents N g" using p page_items_node [of N p nd] unfolding contents_def by blast
qed

section \<open>Inserting into the items of a leaf\<close>

lemma leaf_insert_ok:
  assumes lf: "leaf_ok l h (items nd)" and k: "valid k" "above l (rank k)" "below h (rank k)" and look: "leaf_lookup cmp nd k = (pos, found)"
  shows "pos \<le> node_size nd" and "found \<longleftrightarrow> (\<exists>x\<in>set (items nd). irank x = rank k)"
    and "\<not> found \<Longrightarrow> leaf_ok l h (take pos (items nd) @ (k, Rid r) # drop pos (items nd))"
proof -
  let ?xs = "items nd"
  have asc: "ascending ?xs" and val: "\<forall>x\<in>set ?xs. valid (fst x)" using lf by (auto simp: leaf_ok_def)
  note s = lower_bound_items [OF asc val k(1) look [unfolded leaf_lookup_def]]
  show "pos \<le> length ?xs" "found \<longleftrightarrow> (\<exists>x\<in>set ?xs. irank x = rank k)" by (fact s)+
  assume nf: "\<not> found"
  have t: "\<forall>x\<in>set (take pos ?xs). irank x < rank k"
  proof
    fix x
    assume "x \<in> set (take pos ?xs)"
    then obtain i where "i < pos" "x = ?xs ! i" by (auto simp: in_set_conv_nth)
    then show "irank x < rank k" using s(2) by simp
  qed
  have d: "\<forall>x\<in>set (drop pos ?xs). rank k < irank x"
  proof
    fix x
    assume x: "x \<in> set (drop pos ?xs)"
    then obtain i where "i < length ?xs - pos" "x = ?xs ! (pos + i)" by (auto simp: in_set_conv_nth)
    then have "rank k \<le> irank x" using s(3) [of "pos + i"] by simp
    moreover have "irank x \<noteq> rank k" using nf s(4) x by (auto dest: in_set_dropD)
    ultimately show "rank k < irank x" by simp
  qed
  have "ascending (take pos ?xs @ drop pos ?xs)" using asc by simp
  then have "ascending (take pos ?xs @ (k, Rid r) # drop pos ?xs)" using t d unfolding ascending_def sorted_wrt_append by (auto intro: less_trans)
  then show "leaf_ok l h (take pos ?xs @ (k, Rid r) # drop pos ?xs)"
    using lf k unfolding leaf_ok_def by (auto dest: in_set_takeD in_set_dropD)
qed

section \<open>A leaf with room\<close>

lemma tree_okD:
  assumes "tree_ok s g"
  shows "settled s g" "shape (nodes s) (root_page (file_header s)) g {} (ghi g)"
    "sized (file_header s) (nodes s) (gD g) (root_page (file_header s))"
    "levels g (root_page (file_header s))" "linked (nodes s) g" "pool_ok s (gD g)" "key_comparator s = cmp"
    "2 \<le> internal_max_size (file_header s)" "2 \<le> leaf_max_size (file_header s)" "- 1 \<notin> gD g"
  using assms unfolding tree_ok_def settled_def shape_def by auto

lemma linkedD:
  assumes "linked N g" "p \<in> leaves g" "body N p = Some (lf, its, nb)"
  shows "nb = - 1 \<Longrightarrow> ghi g p = None" "nb \<noteq> - 1 \<Longrightarrow> nb \<in> leaves g \<and> ghi g p \<noteq> None \<and> glo g nb = ghi g p"
proof -
  have "if nb = - 1 then ghi g p = None else nb \<in> leaves g \<and> ghi g p \<noteq> None \<and> glo g nb = ghi g p"
    using assms unfolding linked_def by blast
  then show "nb = - 1 \<Longrightarrow> ghi g p = None" "nb \<noteq> - 1 \<Longrightarrow> nb \<in> leaves g \<and> ghi g p \<noteq> None \<and> glo g nb = ghi g p" by simp_all
qed

lemma contents_upd:
  assumes "p \<in> leaves g" "N p = Some nd" "set (items nd') = insert x (set (items nd))"
  shows "contents (N(p \<mapsto> nd')) g = insert x (contents N g)"
proof -
  have l: "leaves g = insert p (leaves g - {p})" using assms(1) by blast
  have "contents (N(p \<mapsto> nd')) g = set (items nd') \<union> (\<Union>q\<in>leaves g - {p}. page_items N q)"
    unfolding contents_def by (subst l, subst UN_insert) (simp add: page_items_upd)
  moreover have "contents N g = set (items nd) \<union> (\<Union>q\<in>leaves g - {p}. page_items N q)"
    unfolding contents_def by (subst l, subst UN_insert) (simp add: page_items_node [of N p nd, OF assms(2)])
  ultimately show ?thesis using assms(3) by simp
qed

lemma insert_into_leaf:
  assumes T: "tree_ok s g" and p: "p \<in> leaves g" "nodes s p = Some nd" and k: "valid k" "above (glo g p) (rank k)" "below (ghi g p) (rank k)"
    and look: "leaf_lookup cmp nd k = (pos, False)" and free: "node_size nd < leaf_max_size (file_header s)"
  obtains s' where "insert_entry_into_leaf_node p k rid s = Some (SUCCESS, s')" "tree_ok s' g" "kept s s'"
    "contents (nodes s') g = insert (k, Rid rid) (contents (nodes s) g)"
proof -
  note D = tree_okD [OF T]
  have pD: "p \<in> gD g" using p(1) by (simp add: leaves_def)
  have lf: "is_leaf nd" "leaf_ok (glo g p) (ghi g p) (items nd)" using leafD [OF D(2) p(1)] p(2) by auto
  note ins = leaf_insert_ok [OF lf(2) k look]
  let ?nd = "nd\<lparr>items := take pos (items nd) @ (k, Rid rid) # drop pos (items nd)\<rparr>"
  let ?N = "(nodes s)(p \<mapsto> ?nd)"
  obtain es where e: "node_insert_items p pos [(k, Rid rid)] s = Some (edit s ?N es)"
    using insert_items_edit [of s p nd pos "[(k, Rid rid)]", OF p(2) ins(1)] by auto
  have run: "insert_entry_into_leaf_node p k rid s = Some (SUCCESS, edit s ?N es)"
    using p(2) look free lf(1) e D(7) by (simp add: insert_entry_into_leaf_node_def max_size_def leaf_insert_def)
  have shN: "shape ?N (root_page (file_header s)) g {} (ghi g)"
    by (rule leaf_update_shape [OF D(2) pD p(2) lf(1)]) (use lf(1) ins(3) in simp_all)
  have bd: "body ?N q = (if q = p then Some (True, items ?nd, next_brother nd) else body (nodes s) q)" for q
    using lf(1) by (simp add: body_upd)
  note bp = body_node [of "nodes s", OF p(2)]
  have sz: "sized (file_header s) ?N (gD g) (root_page (file_header s))"
  proof (rule sizedI)
    fix q lf' its nb
    assume q: "q \<in> gD g" "body ?N q = Some (lf', its, nb)"
    show "length its \<le> max_items (file_header s) lf' \<and>
      (if q = root_page (file_header s) then if lf' then 1 else 2 else max_items (file_header s) lf' div 2) \<le> length its"
    proof (cases "q = p")
      case True
      then have "lf'" "length its = Suc (node_size nd)" using q(2) ins(1) by (auto simp: bd)
      then show ?thesis using sizedD [OF D(3) pD bp] free lf(1) True by (auto simp: max_items_def)
    next
      case False
      then have "body (nodes s) q = Some (lf', its, nb)" using q(2) by (simp add: bd)
      then show ?thesis using sizedD [OF D(3) q(1)] by auto
    qed
  qed
  have lk: "linked ?N g"
    unfolding linked_def
  proof (intro ballI allI impI)
    fix q lf' its nb
    assume q: "q \<in> leaves g" "body ?N q = Some (lf', its, nb)"
    have "\<exists>its'. body (nodes s) q = Some (lf', its', nb)" using q(2) bp lf(1) by (auto simp: bd split: if_splits)
    then show "if nb = - 1 then ghi g q = None else nb \<in> leaves g \<and> ghi g q \<noteq> None \<and> glo g nb = ghi g q"
      using linkedD [OF D(5) q(1)] by auto
  qed
  have "set (items ?nd) = insert (k, Rid rid) (set (items nd))"
    using set_append [of "take pos (items nd)" "drop pos (items nd)"] unfolding append_take_drop_id by auto
  from contents_upd [of p g "nodes s" nd ?nd, OF p this] have ct: "contents ?N g = insert (k, Rid rid) (contents (nodes s) g)" .
  have "tree_ok (edit s ?N es) g" unfolding tree_ok_def settled_def edit_fields pool_ok_edit using shN sz lk D by (intro conjI)
  then show thesis using that [OF run] ct by simp
qed

section \<open>A full leaf\<close>

lemma split_leaf_edit:
  assumes p: "p \<in> D" "nodes s p = Some nd" and pool: "pool_ok s D" "0 < room s"
  obtains n s1 where "split True p s = Some (SUCCESS, n, s1)" "n \<notin> D" "n \<noteq> - 1" "pool_ok s1 (insert n D)" "Suc (room s1) = room s"
    "kept s s1" "file_header s1 = file_header s"
    "nodes s1 = (nodes s)(p \<mapsto> nd\<lparr>items := take (node_size nd div 2) (items nd)\<rparr>,
       n \<mapsto> \<lparr>is_leaf = True, parent = parent nd, next_brother = - 1, items = drop (node_size nd div 2) (items nd)\<rparr>)"
proof -
  obtain n s0 where al: "latch_allocate_page s = (SUCCESS, n, s0)" "n \<notin> D" "0 \<le> n" "pool_ok s0 (insert n D)"
      "Suc (room s0) = room s" "kept s s0" "nodes s0 = nodes s" "file_header s0 = file_header s"
    using allocate [OF pool] by metis
  have pn: "p \<noteq> n" using p(1) al(2) by auto
  define m where "m = node_size nd div 2"
  let ?R = "drop m (items nd)"
  let ?e = "\<lparr>is_leaf = True, parent = parent nd, next_brother = - 1, items = []\<rparr>"
  obtain es1 where s1: "set_parent_page_num n (parent nd) (leaf_init_empty n s0) = Some (edit s0 ((nodes s)(n \<mapsto> ?e)) es1)"
    by (simp add: set_parent_page_num_def leaf_init_empty_def al(7) BP_INVALID_PAGE_NUM_def)
  let ?s1 = "edit s0 ((nodes s)(n \<mapsto> ?e)) es1"
  obtain es2 where s2: "leaf_append n ?R ?s1 = Some (edit s0 ((nodes s)(n \<mapsto> ?e\<lparr>items := ?R\<rparr>)) es2)"
    using insert_items_edit [of ?s1 n ?e 0 ?R] by (auto simp: leaf_append_def)
  let ?s2 = "edit s0 ((nodes s)(n \<mapsto> ?e\<lparr>items := ?R\<rparr>)) es2"
  let ?N = "(nodes s)(p \<mapsto> nd\<lparr>items := take m (items nd)\<rparr>, n \<mapsto> ?e\<lparr>items := ?R\<rparr>)"
  have tw: "(nodes s)(n \<mapsto> ?e\<lparr>items := ?R\<rparr>, p \<mapsto> nd\<lparr>items := take m (items nd)\<rparr>) = ?N" using pn by (simp add: fun_upd_twist)
  obtain es3 where "node_remove_items p m (node_size nd - m) ?s2 =
      Some (edit s0 ((nodes s)(n \<mapsto> ?e\<lparr>items := ?R\<rparr>, p \<mapsto> nd\<lparr>items := take m (items nd)\<rparr>)) es3)"
    using remove_items_edit [of ?s2 p nd m "node_size nd - m"] p(2) pn by (auto simp: m_def)
  note s3 = this [unfolded tw]
  have mv: "leaf_move_half_to p n ?s1 = Some (edit s0 ?N es3)"
    using p(2) pn s2 s3 m_def by (simp add: leaf_move_half_to_def Let_def)
  have "split True p s = Some (SUCCESS, n, edit s0 ?N es3)"
    using s1 mv p(2) al(1,7) by (simp add: split_def)
  from that [OF this al(2)] show thesis using al by (simp add: m_def)
qed

lemma leaf_split_edit:
  assumes p: "p \<in> D" "nodes s p = Some nd" "is_leaf nd" and pool: "pool_ok s D" "0 < room s" and two: "2 \<le> node_size nd"
    and look: "leaf_lookup (key_comparator s) nd k = (pos, False)" "pos \<le> node_size nd" and full: "\<not> node_size nd < leaf_max_size (file_header s)"
  obtains n s' xs kk v ys where "insert_entry_into_leaf_node p k rid s = insert_entry_into_parent p n kk s'" "n \<notin> D" "n \<noteq> - 1"
    "pool_ok s' (insert n D)" "Suc (room s') = room s" "kept s s'" "file_header s' = file_header s"
    "nodes s' = (nodes s)(p \<mapsto> nd\<lparr>next_brother := n, items := xs\<rparr>,
       n \<mapsto> \<lparr>is_leaf = True, parent = parent nd, next_brother = next_brother nd, items = (kk, v) # ys\<rparr>)"
    "xs @ (kk, v) # ys = take pos (items nd) @ (k, Rid rid) # drop pos (items nd)"
    "node_size nd div 2 \<le> length xs" "length xs \<le> Suc (node_size nd div 2)"
proof -
  define m where "m = node_size nd div 2"
  obtain n s1 where S: "split True p s = Some (SUCCESS, n, s1)" "n \<notin> D" "n \<noteq> - 1" "pool_ok s1 (insert n D)" "Suc (room s1) = room s"
    "kept s s1" "file_header s1 = file_header s"
    and N1: "nodes s1 = (nodes s)(p \<mapsto> nd\<lparr>items := take m (items nd)\<rparr>,
       n \<mapsto> \<lparr>is_leaf = True, parent = parent nd, next_brother = - 1, items = drop m (items nd)\<rparr>)"
    unfolding m_def by (rule split_leaf_edit [OF p(1,2) pool])
  have pn: "p \<noteq> n" using p(1) S(2) by auto
  have m: "0 < m" "m < node_size nd" using two by (auto simp: m_def)
  let ?l = "nd\<lparr>next_brother := n, items := take m (items nd)\<rparr>"
  let ?r = "\<lparr>is_leaf = True, parent = parent nd, next_brother = next_brother nd, items = drop m (items nd)\<rparr>"
  let ?N4 = "(nodes s)(p \<mapsto> ?l, n \<mapsto> ?r)"
  obtain es2 where s2: "set_next_page n (next_brother nd) s1 = Some (edit s1 ((nodes s)(p \<mapsto> nd\<lparr>items := take m (items nd)\<rparr>, n \<mapsto> ?r)) es2)"
    using set_next_edit [of s1 n "\<lparr>is_leaf = True, parent = parent nd, next_brother = - 1, items = drop m (items nd)\<rparr>" "next_brother nd"]
    unfolding N1 by auto
  let ?s2 = "edit s1 ((nodes s)(p \<mapsto> nd\<lparr>items := take m (items nd)\<rparr>, n \<mapsto> ?r)) es2"
  obtain es3 where s3: "set_parent_page_num n (parent nd) ?s2 = Some (edit s1 ((nodes s)(p \<mapsto> nd\<lparr>items := take m (items nd)\<rparr>, n \<mapsto> ?r)) es3)"
    using set_parent_edit [of ?s2 n ?r "parent nd"] by auto
  let ?s3 = "edit s1 ((nodes s)(p \<mapsto> nd\<lparr>items := take m (items nd)\<rparr>, n \<mapsto> ?r)) es3"
  have rc: "nd\<lparr>items := take m (items nd), next_brother := n\<rparr> = ?l" by (cases nd) simp
  obtain es4 where s4: "set_next_page p n ?s3 = Some (edit s1 ?N4 es4)"
    using set_next_edit [of ?s3 p "nd\<lparr>items := take m (items nd)\<rparr>" n] pn by (auto simp: fun_upd_twist rc)
  let ?s4 = "edit s1 ?N4 es4"
  define left where "left \<longleftrightarrow> pos < m"
  define xs where "xs = (if left then take pos (items nd) @ (k, Rid rid) # drop pos (take m (items nd)) else take m (items nd))"
  define zs where "zs = (if left then drop m (items nd) else drop m (take pos (items nd)) @ (k, Rid rid) # drop pos (items nd))"
  have app: "xs @ zs = take pos (items nd) @ (k, Rid rid) # drop pos (items nd)"
  proof (cases left)
    case True
    then have "drop pos (items nd) = drop pos (take m (items nd)) @ drop m (items nd)"
      using append_take_drop_id [of "m - pos" "drop pos (items nd)"] by (simp add: left_def drop_take)
    then show ?thesis using True by (simp add: xs_def zs_def)
  next
    case False
    then have "take pos (items nd) = take m (items nd) @ drop m (take pos (items nd))"
      using append_take_drop_id [of m "take pos (items nd)"] by (simp add: left_def min_def)
    then show ?thesis using False by (simp add: xs_def zs_def)
  qed
  have zs: "zs \<noteq> []" using m by (simp add: zs_def)
  let ?N5 = "(nodes s)(p \<mapsto> nd\<lparr>next_brother := n, items := xs\<rparr>, n \<mapsto> ?r\<lparr>items := zs\<rparr>)"
  obtain es5 where s5: "(if pos < m then leaf_insert p pos k rid ?s4 else leaf_insert n (pos - m) k rid ?s4) = Some (edit s1 ?N5 es5)"
  proof (cases left)
    case True
    have "nodes ?s4 p = Some ?l" using pn by simp
    from insert_items_edit [of ?s4 p ?l pos "[(k, Rid rid)]", OF this] obtain es where
      "node_insert_items p pos [(k, Rid rid)] ?s4 =
        Some (edit s1 ((nodes s)(p \<mapsto> ?l, n \<mapsto> ?r, p \<mapsto> ?l\<lparr>items := take pos (take m (items nd)) @ (k, Rid rid) # drop pos (take m (items nd))\<rparr>)) (es4 @ es))"
      using True m by (auto simp: left_def)
    then show ?thesis using that True pn by (auto simp: left_def leaf_insert_def xs_def zs_def min_def fun_upd_twist)
  next
    case False
    have "nodes ?s4 n = Some ?r" by simp
    from insert_items_edit [of ?s4 n ?r "pos - m" "[(k, Rid rid)]", OF this] obtain es where
      "node_insert_items n (pos - m) [(k, Rid rid)] ?s4 =
        Some (edit s1 ((nodes s)(p \<mapsto> ?l, n \<mapsto> ?r\<lparr>items := take (pos - m) (drop m (items nd)) @ (k, Rid rid) # drop (pos - m) (drop m (items nd))\<rparr>)) (es4 @ es))"
      using diff_le_mono [OF look(2), of m] by auto
    then show ?thesis using that False by (auto simp: left_def leaf_insert_def xs_def zs_def drop_take)
  qed
  obtain kk v ys where z: "zs = (kk, v) # ys" using zs by (cases zs) auto
  have run: "insert_entry_into_leaf_node p k rid s = insert_entry_into_parent p n kk (edit s1 ?N5 es5)"
    using p look(1) full S(1) s2 s3 s4 s5 pn m z
    by (simp add: insert_entry_into_leaf_node_def max_size_def key_at_def min_absorb2 split del: if_split cong: if_cong)
  show thesis
    by (rule that [OF run S(2,3), of xs v ys]) (use S app z m in \<open>auto simp: xs_def left_def min_def m_def\<close>)
qed

lemma insert_full_leaf:
  assumes T: "tree_ok s g" and p: "p \<in> leaves g" "nodes s p = Some nd" and k: "valid k" "above (glo g p) (rank k)" "below (ghi g p) (rank k)"
    and look: "leaf_lookup cmp nd k = (pos, False)" and full: "\<not> node_size nd < leaf_max_size (file_header s)"
    and rm: "Suc (glv g (root_page (file_header s))) < room s"
  obtains s' g' where "insert_entry_into_leaf_node p k rid s = Some (SUCCESS, s')" "tree_ok s' g'" "kept s s'"
    "contents (nodes s') g' = insert (k, Rid rid) (contents (nodes s) g)"
proof -
  note D = tree_okD [OF T]
  let ?root = "root_page (file_header s)" and ?M = "leaf_max_size (file_header s)"
  have pD: "p \<in> gD g" "glv g p = 0" using p(1) by (simp_all add: leaves_def)
  have lf: "is_leaf nd" "leaf_ok (glo g p) (ghi g p) (items nd)" using leafD [OF D(2) p(1)] p(2) by auto
  note ins = leaf_insert_ok [OF lf(2) k look]
  note bp = body_node [of "nodes s", OF p(2)]
  have len: "node_size nd = ?M" using sizedD(1) [OF D(3) pD(1) bp] full lf(1) by (simp add: max_items_def)
  then have two: "2 \<le> node_size nd" using D(9) by simp
  have look': "leaf_lookup (key_comparator s) nd k = (pos, False)" using look D(7) by simp
  have rm0: "0 < room s" using rm by simp
  obtain n s1 xs kk v ys where S: "insert_entry_into_leaf_node p k rid s = insert_entry_into_parent p n kk s1" "n \<notin> gD g" "n \<noteq> - 1"
    "pool_ok s1 (insert n (gD g))" "Suc (room s1) = room s" "kept s s1" "file_header s1 = file_header s"
    and N1: "nodes s1 = (nodes s)(p \<mapsto> nd\<lparr>next_brother := n, items := xs\<rparr>,
       n \<mapsto> \<lparr>is_leaf = True, parent = parent nd, next_brother = next_brother nd, items = (kk, v) # ys\<rparr>)"
    and L: "xs @ (kk, v) # ys = take pos (items nd) @ (k, Rid rid) # drop pos (items nd)"
    and sz: "node_size nd div 2 \<le> length xs" "length xs \<le> Suc (node_size nd div 2)"
    by (rule leaf_split_edit [OF pD(1) p(2) lf(1) D(6) rm0 two look' ins(1) full])
  have pn: "p \<noteq> n" using pD(1) S(2) by auto
  have xs: "xs \<noteq> []" using sz(1) two by auto
  let ?pd = "nd\<lparr>next_brother := n, items := xs\<rparr>"
  let ?nq = "\<lparr>is_leaf = True, parent = parent nd, next_brother = next_brother nd, items = (kk, v) # ys\<rparr>"
  define g' where "g' = g\<lparr>gD := insert n (gD g), glo := (glo g)(n := Some (rank kk)), ghi := (ghi g)(p := Some (rank kk), n := ghi g p),
        glv := (glv g)(n := glv g p)\<rparr>"
  have lok: "leaf_ok (glo g p) (ghi g p) (xs @ (kk, v) # ys)" using ins(3) L by simp
  note P = leaf_split_shape [OF D(2) pD(1) p(2) lf(1) lok xs S(2,3) _ _ _ _ _ N1 g'_def]
  have sh: "shape (nodes s1) ?root g' {n} ((ghi g)(n := ghi g p))" by (rule P(1)) (use lf(1) in simp_all)
  have vk: "valid kk" by (rule P(2)) (use lf(1) in simp_all)
  have eh: "(ghi g)(n := ghi g p) = (ghi g')(p := ghi g' n)" using pn by (auto simp: g'_def)
  have bd: "body (nodes s1) q = (if q = n then Some (True, (kk, v) # ys, next_brother nd) else if q = p then Some (True, xs, n) else body (nodes s) q)" for q
    using lf(1) by (simp add: N1 body_upd)
  have lv: "leaves g' = insert n (leaves g)" using pD(2) S(2) by (auto simp: leaves_def g'_def)
  have nl: "n \<notin> leaves g" using S(2) by (simp add: leaves_def)
  have lk: "linked (nodes s1) g'"
    unfolding linked_def
  proof (intro ballI allI impI)
    fix q lf' its nb
    assume q: "q \<in> leaves g'" "body (nodes s1) q = Some (lf', its, nb)"
    note l = linkedD [OF D(5)]
    show "if nb = - 1 then ghi g' q = None else nb \<in> leaves g' \<and> ghi g' q \<noteq> None \<and> glo g' nb = ghi g' q"
    proof (cases "q = n")
      case True
      then have nb: "nb = next_brother nd" using q(2) by (simp add: bd)
      note lp = l [OF p(1) bp]
      show ?thesis
      proof (cases "nb = - 1")
        case False
        then have "nb \<in> leaves g" "ghi g p \<noteq> None" "glo g nb = ghi g p" using lp(2) nb by auto
        then show ?thesis using False nl True lv by (auto simp: g'_def)
      qed (use lp(1) nb True in \<open>simp add: g'_def\<close>)
    next
      case qn: False
      show ?thesis
      proof (cases "q = p")
        case True
        then have "nb = n" using q(2) qn by (simp add: bd)
        then show ?thesis using S(3) True pn lv by (simp add: g'_def)
      next
        case False
        then have q': "q \<in> leaves g" "body (nodes s) q = Some (lf', its, nb)" using q qn by (simp_all add: bd lv)
        note lq = l [OF q']
        show ?thesis
        proof (cases "nb = - 1")
          case nb: False
          then have "nb \<in> leaves g" "ghi g q \<noteq> None" "glo g nb = ghi g q" using lq(2) by auto
          then show ?thesis using nb nl False qn lv by (auto simp: g'_def)
        qed (use lq(1) False qn in \<open>simp add: g'_def\<close>)
      qed
    qed
  qed
  have lenL: "length xs + length ((kk, v) # ys) = Suc ?M" using arg_cong [OF L, of length] ins(1) len by simp
  have szd: "sized (file_header s) (nodes s1) (gD g') (if p = ?root then - 1 else ?root)"
  proof (rule sizedI)
    fix q lf' its nb
    assume q: "q \<in> gD g'" "body (nodes s1) q = Some (lf', its, nb)"
    have q1: "q \<noteq> - 1" using q(1) S(3) D(10) by (auto simp: g'_def)
    show "length its \<le> max_items (file_header s) lf' \<and>
      (if q = (if p = ?root then - 1 else ?root) then if lf' then 1 else 2 else max_items (file_header s) lf' div 2) \<le> length its"
    proof (cases "q = p \<or> q = n")
      case True
      have "?root \<in> gD g" by (rule shapeD(1) [OF D(2)])
      then have qr: "q \<noteq> (if p = ?root then - 1 else ?root)" using q1 True S(2) by auto
      have "lf'" and "its = xs \<or> its = (kk, v) # ys" using True q(2) by (auto simp: bd split: if_splits)
      then show ?thesis using qr sz lenL len D(9) by (auto simp: max_items_def)
    next
      case False
      then have q2: "q \<in> gD g" "body (nodes s) q = Some (lf', its, nb)" using q by (auto simp: bd g'_def)
      show ?thesis using sizedD [OF D(3) q2] q1 False by (cases "q = ?root") auto
    qed
  qed
  have lev: "levels g' ?root" using D(4) pD shapeD(1) [OF D(2)] S(2) by (auto simp: levels_def g'_def)
  have gg: "p \<in> gD g'" "n \<in> gD g'" "ghi g' p = Some (rank kk)" "glo g' n = Some (rank kk)" "glv g' n = glv g' p" "gD g' = insert n (gD g)"
    using pn pD(1) by (simp_all add: g'_def)
  have st: "settled s1 g'" unfolding settled_def S(7) gg(6) using lev lk S(4) D(7-9) kept_sizes(4) [OF S(6)] by simp
  have "pending s1 g' p n kk"
    unfolding pending_def S(7) using st sh [unfolded eh] szd gg pn vk by (intro conjI)
  moreover have "glv g' (root_page (file_header s1)) - glv g' p < room s1"
  proof -
    have "glv g' ?root = glv g ?root" using shapeD(1) [OF D(2)] S(2) by (auto simp: g'_def)
    then show ?thesis using S(5,7) rm by simp
  qed
  ultimately obtain s' g'' where R: "insert_entry_into_parent p n kk s1 = Some (SUCCESS, s')" "tree_ok s' g''"
    "same_leaves (nodes s1) g' (nodes s') g''" "kept s1 s'"
    using climb [of s1 g' p n kk] by blast
  have "contents (nodes s1) g' = insert (k, Rid rid) (contents (nodes s) g)"
  proof -
    have l: "leaves g = insert p (leaves g - {p})" using p(1) by blast
    have "contents (nodes s1) g' = set ((kk, v) # ys) \<union> set xs \<union> (\<Union>q\<in>leaves g - {p}. page_items (nodes s) q)"
    proof -
      have "leaves g' = insert n (insert p (leaves g - {p}))" using lv l by simp
      moreover have "page_items (nodes s1) n = set ((kk, v) # ys)" "page_items (nodes s1) p = set xs" using pn by (simp_all add: N1 page_items_upd)
      moreover have "(\<Union>q\<in>leaves g - {p}. page_items (nodes s1) q) = (\<Union>q\<in>leaves g - {p}. page_items (nodes s) q)"
        by (rule SUP_cong [OF refl]) (use nl in \<open>auto simp: N1 page_items_upd\<close>)
      ultimately show ?thesis unfolding contents_def by (simp only: UN_insert Un_assoc)
    qed
    moreover have "contents (nodes s) g = set (items nd) \<union> (\<Union>q\<in>leaves g - {p}. page_items (nodes s) q)"
      unfolding contents_def by (subst l, subst UN_insert) (simp add: page_items_node [of "nodes s" p nd, OF p(2)])
    moreover have "set ((kk, v) # ys) \<union> set xs = insert (k, Rid rid) (set (items nd))"
    proof -
      have "set (take pos (items nd)) \<union> set (drop pos (items nd)) = set (items nd)" by (metis append_take_drop_id set_append)
      then show ?thesis using arg_cong [OF L, of set] by auto
    qed
    ultimately show ?thesis by (simp only: Un_insert_left)
  qed
  then show thesis
    using that [of s' g''] R S(1,6) same_leaves_contents [OF R(3)] kept_trans by simp
qed

section \<open>The contents of a tree\<close>

definition holds :: "BplusTree \<Rightarrow> item set \<Rightarrow> nat \<Rightarrow> bool" where
  \<comment> \<open>a well formed tree of height \<open>h\<close> with the items \<open>C\<close>\<close>
  "holds s C h \<longleftrightarrow>
     (if is_empty s
      then C = {} \<and> h = 0 \<and> pool_ok s {} \<and> key_comparator s = cmp \<and> 2 \<le> internal_max_size (file_header s) \<and> 2 \<le> leaf_max_size (file_header s)
      else \<exists>g. tree_ok s g \<and> C = contents (nodes s) g \<and> h = glv g (root_page (file_header s)))"

lemma tree_not_empty: "tree_ok s g \<Longrightarrow> \<not> is_empty s"
  using shapeD(1,6) unfolding tree_ok_def is_empty_def BP_INVALID_PAGE_NUM_def by metis

lemma holds_tree: "tree_ok s g \<Longrightarrow> holds s (contents (nodes s) g) (glv g (root_page (file_header s)))"
  using tree_not_empty [of s g] unfolding holds_def by auto

lemma holds_common:
  assumes "holds s C h"
  shows "key_comparator s = cmp" "2 \<le> internal_max_size (file_header s)" "2 \<le> leaf_max_size (file_header s)"
  using assms unfolding holds_def tree_ok_def settled_def by (auto split: if_splits)

lemma create_ok:
  assumes H: "holds s C h" and e: "is_empty s" and k: "valid k" and rm: "0 < room s"
  obtains s' where "insert_key k rid s = Some (SUCCESS, s')" "holds s' {(k, Rid rid)} 0" "kept s s'"
proof -
  have P: "pool_ok s {}" "key_comparator s = cmp" "2 \<le> internal_max_size (file_header s)" "2 \<le> leaf_max_size (file_header s)"
    using H e by (simp_all add: holds_def)
  obtain p s0 where al: "latch_allocate_page s = (SUCCESS, p, s0)" "0 \<le> p" "pool_ok s0 {p}" "Suc (room s0) = room s"
      "kept s s0" "nodes s0 = nodes s" "file_header s0 = file_header s"
    using allocate [OF P(1) rm] by metis
  let ?nd = "\<lparr>is_leaf = True, parent = - 1, next_brother = - 1, items = [(k, Rid rid)]\<rparr>"
  let ?N = "(nodes s)(p \<mapsto> ?nd)"
  obtain es where s1: "leaf_insert p 0 k rid (leaf_init_empty p s0) = Some (edit s0 ?N es)"
    using insert_items_edit [of "leaf_init_empty p s0" p "?nd\<lparr>items := []\<rparr>" 0 "[(k, Rid rid)]"]
    by (auto simp: leaf_insert_def leaf_init_empty_def BP_INVALID_PAGE_NUM_def al(6))
  let ?s' = "update_root_page_num_locked p (edit s0 ?N es)"
  have run: "insert_key k rid s = Some (SUCCESS, ?s')" using e al(1) s1 by (simp add: insert_key_def create_new_tree_def)
  define g :: "'r ghost" where "g = \<lparr>gD = {p}, glo = (\<lambda>_. None), ghi = (\<lambda>_. None), glv = (\<lambda>_. 0)\<rparr>"
  have lf: "leaf_ok None None [(k, Rid rid)]" using k by (simp add: leaf_ok_def ascending_def)
  have pg: "page_ok ?N g (ghi g) p" by (rule page_okI [of ?N p ?nd]) (use lf in \<open>simp_all add: g_def\<close>)
  have sh: "shape ?N p g {} (ghi g)"
    by (rule shapeI) (use pg al(2) in \<open>auto simp: g_def\<close>)
  have lv: "leaves g = {p}" by (auto simp: leaves_def g_def)
  have lk: "linked ?N g" unfolding linked_def lv by (simp add: body_upd g_def)
  have sz: "sized (file_header ?s') ?N (gD g) p"
    using P(4) by (simp add: sized_def g_def body_upd max_items_def update_root_page_num_locked_def mtr_log_def al(7))
  have kp: "kept s ?s'" using al(5) by simp
  have "tree_ok ?s' g"
    using sh lk sz al(3) P(2-4) kept_sizes [OF kp] unfolding tree_ok_def settled_def by (simp add: g_def levels_def)
  from holds_tree [OF this] have "holds ?s' {(k, Rid rid)} 0" unfolding contents_def lv by (simp add: page_items_upd g_def)
  then show thesis using that run kp by blast
qed

lemma insert_key_ok:
  assumes H: "holds s C h" and k: "valid k" and rm: "Suc h < room s"
  shows "(\<exists>x\<in>C. irank x = rank k) \<Longrightarrow> insert_key k rid s = Some (RECORD_DUPLICATE_KEY, s)"
    and "\<not> (\<exists>x\<in>C. irank x = rank k) \<Longrightarrow>
      \<exists>s' h'. insert_key k rid s = Some (SUCCESS, s') \<and> holds s' (insert (k, Rid rid) C) h' \<and> kept s s'"
proof -
  have *: "if \<exists>x\<in>C. irank x = rank k then insert_key k rid s = Some (RECORD_DUPLICATE_KEY, s)
    else \<exists>s' h'. insert_key k rid s = Some (SUCCESS, s') \<and> holds s' (insert (k, Rid rid) C) h' \<and> kept s s'"
  proof (cases "is_empty s")
    case True
    then have "C = {}" using H by (simp add: holds_def)
    moreover obtain s' where "insert_key k rid s = Some (SUCCESS, s')" "holds s' {(k, Rid rid)} 0" "kept s s'"
      by (rule create_ok [OF H True k]) (use rm in simp_all)
    ultimately show ?thesis by auto
  next
    case ne: False
    obtain g where g: "tree_ok s g" "C = contents (nodes s) g" "h = glv g (root_page (file_header s))" using H ne by (auto simp: holds_def)
    note D = tree_okD [OF g(1)]
    obtain leaf nd where F: "find_leaf k s = Some (SUCCESS, leaf)" "leaf \<in> gD g" "nodes s leaf = Some nd" "is_leaf nd"
      "above (glo g leaf) (rank k)" "below (ghi g leaf) (rank k)"
      by (rule find_leaf_ok [OF D(2) D(7) k])
    have lv: "leaf \<in> leaves g" by (rule leaf_in_leaves [OF D(2) F(2-4)])
    have lok: "leaf_ok (glo g leaf) (ghi g leaf) (items nd)" using leafD [OF D(2) lv] F(3) by auto
    obtain pos found where look: "leaf_lookup cmp nd k = (pos, found)" by fastforce
    note ins = leaf_insert_ok [OF lok k F(5,6) look]
    have mem: "x \<in> C \<longleftrightarrow> x \<in> set (items nd)" if "irank x = rank k" for x
      using contents_iff [OF D(2) D(4) k lv F(3,5,6) that] g(2) by simp
    have run: "insert_key k rid s = insert_entry_into_leaf_node leaf k rid s" using ne F(1) by (simp add: insert_key_def)
    show ?thesis
    proof (cases found)
      case True
      then have "\<exists>x\<in>C. irank x = rank k" using ins(2) mem by blast
      moreover have "insert_key k rid s = Some (RECORD_DUPLICATE_KEY, s)"
        unfolding run using F(3) look True D(7) by (simp add: insert_entry_into_leaf_node_def)
      ultimately show ?thesis by simp
    next
      case False
      then have nf: "\<not> (\<exists>x\<in>C. irank x = rank k)" using ins(2) mem by blast
      have lk: "leaf_lookup cmp nd k = (pos, False)" using look False by simp
      have "\<exists>s' g'. insert_key k rid s = Some (SUCCESS, s') \<and> tree_ok s' g' \<and> kept s s' \<and> contents (nodes s') g' = insert (k, Rid rid) C"
      proof (cases "node_size nd < leaf_max_size (file_header s)")
        case True
        obtain s' where "insert_entry_into_leaf_node leaf k rid s = Some (SUCCESS, s')" "tree_ok s' g" "kept s s'"
          "contents (nodes s') g = insert (k, Rid rid) (contents (nodes s) g)"
          by (rule insert_into_leaf [OF g(1) lv F(3) k F(5,6) lk True])
        then show ?thesis unfolding run g(2) by blast
      next
        case full: False
        obtain s' g' where "insert_entry_into_leaf_node leaf k rid s = Some (SUCCESS, s')" "tree_ok s' g'" "kept s s'"
          "contents (nodes s') g' = insert (k, Rid rid) (contents (nodes s) g)"
          by (rule insert_full_leaf [OF g(1) lv F(3) k F(5,6) lk full rm [unfolded g(3)]])
        then show ?thesis unfolding run g(2) by blast
      qed
      then obtain s' g' where "insert_key k rid s = Some (SUCCESS, s')" "tree_ok s' g'" "kept s s'" "contents (nodes s') g' = insert (k, Rid rid) C" by blast
      then have "\<exists>s' h'. insert_key k rid s = Some (SUCCESS, s') \<and> holds s' (insert (k, Rid rid) C) h' \<and> kept s s'"
        using holds_tree [of s' g'] by metis
      then show ?thesis using nf by simp
    qed
  qed
  show "(\<exists>x\<in>C. irank x = rank k) \<Longrightarrow> insert_key k rid s = Some (RECORD_DUPLICATE_KEY, s)" using * by simp
  show "\<not> (\<exists>x\<in>C. irank x = rank k) \<Longrightarrow>
      \<exists>s' h'. insert_key k rid s = Some (SUCCESS, s') \<and> holds s' (insert (k, Rid rid) C) h' \<and> kept s s'" using * by simp
qed

end

end
