(* ===== verification/Bplus_Merge.thy ===== *)
theory Bplus_Merge
  imports Bplus_Leaf
begin

text \<open>
  Two adjacent pages of a B+ tree are merged, as a change of the shape; moving items from a page to its neighbour is a merge
  followed by a split. The root is removed when it has a single child.
\<close>

context key_order
begin

lemma leaf_no_child: "leaf_ok l h xs \<Longrightarrow> Page c \<notin> snd ` set xs"
proof
  assume l: "leaf_ok l h xs" and "Page c \<in> snd ` set xs"
  then obtain x where "x \<in> set xs" "snd x = Page c" by auto
  with l show False by (auto simp: leaf_ok_def)
qed

lemma reparent_leaf: "leaf_ok l h its \<Longrightarrow> reparent its p N = N"
  using leaf_no_child by (simp add: reparent_def fun_eq_iff)

lemma kids_glue:
  \<comment> \<open>the children of two adjacent pages, when the first key of the second is where they meet\<close>
  assumes "xs \<noteq> []" "ys \<noteq> []" "irank (hd ys) = m"
  shows "kids l h (xs @ ys) = kids l (Some m) xs @ kids (Some m) h ys"
  using assms kids_append [of xs l h "hd ys" "tl ys"] by (cases ys) auto

lemma merge_shape:
  assumes sh: "shape N root g {} eh" and eh: "eh = ghi g" and p: "p \<in> gD g" "N p = Some pd" "\<not> is_leaf pd"
    and its: "items pd = as @ (ka, Page a) # (kb, Page b) # bs"
    and ad: "N a = Some ad" and bd: "N b = Some bd"
    and a': "is_leaf a' = is_leaf ad" "parent a' = parent ad" "items a' = items ad @ items bd"
    and N': "N' = (reparent (items bd) a N)(a \<mapsto> a', p \<mapsto> pd\<lparr>items := as @ (ka, Page a) # bs\<rparr>)"
    and g': "g' = g\<lparr>gD := gD g - {b}, ghi := (ghi g)(a := ghi g b)\<rparr>"
  shows "shape N' root g' {} (ghi g')" and "a \<in> gD g" and "b \<in> gD g" and "a \<noteq> b" and "p \<noteq> a" and "p \<noteq> b" and "b \<noteq> root"
    and "Suc (glv g a) = glv g p" and "glv g b = glv g a" and "is_leaf bd = is_leaf ad" and "ghi g a = Some (rank kb)" and "glo g b = Some (rank kb)"
    and "valid kb" and "nonempty (glo g a) (Some (rank kb))" and "below (ghi g b) (rank kb)"
proof -
  note po = shapeD(7) [OF sh]
  note i = page_okD(5) [OF po [OF p(1)] p(2,3)]
  have ja: "length as < node_size pd" "snd (items pd ! length as) = Page a" and jb: "Suc (length as) < node_size pd" "snd (items pd ! Suc (length as)) = Page b"
    by (simp_all add: its nth_append)
  note ca = child_at [OF i ja] and cb = child_at [OF i jb]
  have kb: "fst (items pd ! Suc (length as)) = kb" by (simp add: its nth_append)
  show aD: "a \<in> gD g" and bD: "b \<in> gD g" using ca(1) cb(1) by simp_all
  have hca: "has_child N p a" and hcb: "has_child N p b" using p its by (auto simp: has_child_def)
  show pa: "p \<noteq> a" and pb: "p \<noteq> b" and br: "b \<noteq> root" using child_parent(4,5) [OF sh p(1) hca] child_parent(4,5) [OF sh p(1) hcb] by auto
  have ar: "a \<noteq> root" using child_parent(4) [OF sh p(1) hca] .
  show lva: "Suc (glv g a) = glv g p" and lvb: "glv g b = glv g a" using ca(5) cb(5) by simp_all
  have dist: "distinct (map snd (items pd))" by (rule distinct_children [OF sh i])
  then show ab: "a \<noteq> b" by (auto simp: its)
  show gha: "ghi g a = Some (rank kb)" and glb: "glo g b = Some (rank kb)" using ca(4) cb(3) jb(1) kb eh by simp_all
  show leq: "is_leaf bd = is_leaf ad"
    using page_okD(2,4) [OF po [OF aD] ad] page_okD(2,4) [OF po [OF bD] bd] lvb by (cases "is_leaf bd"; cases "is_leaf ad") auto
  have "(kb, Page b) \<in> set (tl (items pd))" using its by (cases as) auto
  then show vkb: "valid kb" using inner_okD(2) [OF i] by fastforce
  show nea: "nonempty (glo g a) (Some (rank kb))" using page_okD(1) [OF po [OF aD] ad] gha by simp
  show blb: "below (ghi g b) (rank kb)" using page_okD(1) [OF po [OF bD] bd] glb by simp
  have nep: "nonempty (glo g a) (ghi g b)" using nea blb by (cases "glo g a") (auto intro: below_trans less_imp_le)
  have nb: "Page c \<notin> snd ` set (items bd)" if "is_leaf bd" for c
    by (rule leaf_no_child [OF page_okD(3) [OF po [OF bD] bd that]])
  have childb: "has_child N b c" if "Page c \<in> snd ` set (items bd)" for c
    using that nb bd by (cases "is_leaf bd") (auto simp: has_child_def)
  have childa: "has_child N a c" if "Page c \<in> snd ` set (items ad)" for c
  proof -
    have "\<not> is_leaf ad" using page_okD(3) [OF po [OF aD] ad] leaf_no_child that by blast
    then show ?thesis using ad that by (auto simp: has_child_def)
  qed
  have lvc: "Suc (glv g c) = glv g b \<and> c \<noteq> root \<and> c \<noteq> b" if "Page c \<in> snd ` set (items bd)" for c
    using child_parent(3,4,5) [OF sh bD childb [OF that]] by simp
  have notb: "Page a \<notin> snd ` set (items bd)" "Page p \<notin> snd ` set (items bd)" "Page root \<notin> snd ` set (items bd)"
    using lvc [of a] lvc [of p] lvc [of root] lva lvb by linarith+
  have par: "map_option parent (N' c) = (if Page c \<in> snd ` set (items bd) then map_option (\<lambda>_. a) (N c) else map_option parent (N c))" for c
    using parent_reparent [of "items bd" a N c] p(2) ad a'(2) notb(1,2) pa unfolding N' by auto
  have np: "N' p = Some (pd\<lparr>items := as @ (ka, Page a) # bs\<rparr>)" and na: "N' a = Some a'" using pa by (simp_all add: N')
  have gg: "glo g' = glo g" "glv g' = glv g" "gD g' = gD g - {b}" "ghi g' c = (if c = a then ghi g b else ghi g c)" for c by (simp_all add: g')
  have frame: "c \<in> gD g' \<and> map_option parent (N' c) = Some q \<and> glo g' c = glo g c \<and> ghi g' c = eh c \<and> glv g' c = glv g c"
    if "c \<in> gD g" "map_option parent (N c) = Some q" "c \<noteq> a" "c \<noteq> b" "Page c \<notin> snd ` set (items bd)" for c q
    using that par gg eh by (simp del: map_option_eq_Some)
  have page_a: "page_ok N' g' (ghi g') a"
  proof (rule page_okI [of N' a, OF na])
    show "nonempty (glo g' a) (ghi g' a)" using nep gg by simp
    show "glv g' a = 0 \<and> leaf_ok (glo g' a) (ghi g' a) (items a')" if "is_leaf a'"
    proof -
      have l: "is_leaf ad" "is_leaf bd" using that a'(1) leq by simp_all
      note la = page_okD(3) [OF po [OF aD] ad l(1)] and lb = page_okD(3) [OF po [OF bD] bd l(2)]
      have "\<forall>x\<in>set (items ad). \<forall>y\<in>set (items bd). irank x < irank y"
        using la lb unfolding leaf_ok_def gha glb by (auto intro: less_le_trans)
      then have asc: "ascending (items ad @ items bd)" using la lb unfolding leaf_ok_def ascending_def by (simp add: sorted_wrt_append)
      have "below (ghi g b) (irank x)" if "x \<in> set (items ad)" for x
        using that la blb below_trans [of "ghi g b" "rank kb" "irank x"] unfolding leaf_ok_def gha by (auto intro: less_imp_le)
      moreover have "above (glo g a) (irank y)" if "y \<in> set (items bd)" for y
      proof -
        have "rank kb \<le> irank y" using that lb unfolding leaf_ok_def glb by auto
        then show ?thesis using nea by (cases "glo g a") auto
      qed
      ultimately show ?thesis using asc la lb page_okD(2) [OF po [OF aD] ad l(1)] by (auto simp: leaf_ok_def gg a'(3))
    qed
    show "0 < glv g' a \<and> inner_ok N' g' (ghi g') a (items a')" if "\<not> is_leaf a'"
    proof -
      have l: "\<not> is_leaf ad" "\<not> is_leaf bd" using that a'(1) leq by simp_all
      note ia = page_okD(5) [OF po [OF aD] ad l(1)] and ib = page_okD(5) [OF po [OF bD] bd l(2)]
      have hb: "valid (fst (hd (items bd)))" "irank (hd (items bd)) = rank kb" using inner_okD(3) [OF ib glb] by simp_all
      note K = kids_glue [OF inner_okD(1) [OF ia] inner_okD(1) [OF ib] hb(2), of "glo g a" "ghi g b"]
      have "child_ok N' g' (ghi g') a x" if x: "x \<in> set (kids (glo g a) (Some (rank kb)) (items ad))" for x
      proof (rule child_ok_frame)
        show "child_ok N g eh a x" using inner_okD(4) [OF ia] x gha by simp
        fix c
        assume c: "fst x = Page c" "c \<in> gD g" "map_option parent (N c) = Some a"
        have "Page c \<in> snd ` set (items ad)" using kids_fst [OF x] c(1) by simp
        note h = childa [OF this]
        have "Page c \<notin> snd ` set (items bd)" using child_parent(2) [OF sh bD childb, of c] c(3) ab by auto
        moreover have "c \<noteq> a" "c \<noteq> b" using child_parent(3,5) [OF sh aD h] lvb by auto
        ultimately show "c \<in> gD g' \<and> map_option parent (N' c) = Some a \<and> glo g' c = glo g c \<and> ghi g' c = eh c \<and> glv g' c = glv g c"
          using frame c by blast
      qed (simp add: gg)
      moreover have "child_ok N' g' (ghi g') a x" if x: "x \<in> set (kids (Some (rank kb)) (ghi g b) (items bd))" for x
      proof (rule child_ok_frame)
        show "child_ok N g eh b x" using inner_okD(4) [OF ib] x glb by simp
        show "glv g' a = glv g b" using lvb by (simp add: gg)
        fix c
        assume c: "fst x = Page c" "c \<in> gD g" "map_option parent (N c) = Some b"
        have cb: "Page c \<in> snd ` set (items bd)" using kids_fst [OF x] c(1) by simp
        have "c \<noteq> a" "c \<noteq> b" using child_parent(3,5) [OF sh bD childb [OF cb]] lvb by auto
        then show "c \<in> gD g' \<and> map_option parent (N' c) = Some a \<and> glo g' c = glo g c \<and> ghi g' c = eh c \<and> glv g' c = glv g c"
          using cb c(2,3) par eh by (auto simp: gg)
      qed
      ultimately have "\<forall>x\<in>set (kids (glo g' a) (ghi g' a) (items a')). child_ok N' g' (ghi g') a x" by (auto simp: gg a'(3) K)
      moreover have "\<forall>x\<in>set (tl (items a')). valid (fst x)"
      proof -
        have "set (tl (items a')) \<subseteq> set (tl (items ad)) \<union> insert (hd (items bd)) (set (tl (items bd)))"
          using inner_okD(1) [OF ia] inner_okD(1) [OF ib] a'(3) by (cases "items ad"; cases "items bd") auto
        then show ?thesis using inner_okD(2) [OF ia] inner_okD(2) [OF ib] hb(1) by blast
      qed
      ultimately show ?thesis
        using page_okD(4) [OF po [OF aD] ad l(1)] inner_okD(1,3) [OF ia] by (simp add: inner_ok_def gg a'(3))
    qed
  qed
  have page_p: "page_ok N' g' (ghi g') p"
  proof (rule page_okI [of N' p, OF np])
    show "nonempty (glo g' p) (ghi g' p)" using page_okD(1) [OF po [OF p(1)] p(2)] pa by (simp add: gg)
    let ?xs = "as @ (ka, Page a) # bs"
    let ?A = "kids (glo g p) (Some (rank ka)) as" and ?B = "case bs of [] \<Rightarrow> [] | y # _ \<Rightarrow> kids (Some (irank y)) (ghi g p) bs"
    let ?lo = "if as = [] then glo g p else Some (rank ka)" and ?u = "case bs of [] \<Rightarrow> ghi g p | y # _ \<Rightarrow> Some (irank y)"
    have K1: "kids (glo g p) (ghi g p) (items pd) = ?A @ (Page a, ?lo, Some (rank kb)) # (Page b, Some (rank kb), ?u) # ?B"
      unfolding its kids_mid [of _ _ as] by (simp add: kids_Cons [of _ _ "(kb, Page b)"])
    have K2: "kids (glo g p) (ghi g p) ?xs = ?A @ (Page a, ?lo, ?u) # ?B" unfolding kids_mid [of _ _ as] by simp
    have x_eq: "child_ok N' g' (ghi g') p x" if x: "x \<in> set ?A \<union> set ?B" for x
    proof (rule child_ok_frame)
      have kx: "x \<in> set (kids (glo g p) (ghi g p) (items pd))" using x unfolding K1 by auto
      show "child_ok N g eh p x" by (rule inner_okD(4) [OF i kx])
      fix c
      assume c: "fst x = Page c" "c \<in> gD g" "map_option parent (N c) = Some p"
      have "distinct (map fst (kids (glo g p) (ghi g p) (items pd)))" unfolding map_fst_kids by (rule dist)
      then have nAB: "Page a \<notin> fst ` (set ?A \<union> set ?B)" "Page b \<notin> fst ` (set ?A \<union> set ?B)" unfolding K1 by (auto simp: image_Un)
      have fx: "Page c \<in> fst ` (set ?A \<union> set ?B)" using imageI [OF x, of fst] unfolding c(1) .
      have "c \<noteq> a" using fx nAB(1) by (intro notI) (simp only:)
      moreover have "c \<noteq> b" using fx nAB(2) by (intro notI) (simp only:)
      moreover have "Page c \<notin> snd ` set (items bd)" using child_parent(2) [OF sh bD childb, of c] c(3) pb by auto
      ultimately show "c \<in> gD g' \<and> map_option parent (N' c) = Some p \<and> glo g' c = glo g c \<and> ghi g' c = eh c \<and> glv g' c = glv g c"
        using frame c by blast
    qed (simp add: gg)
    have "child_ok N g eh p (Page a, ?lo, Some (rank kb))" "child_ok N g eh p (Page b, Some (rank kb), ?u)"
      using inner_okD(4) [OF i] unfolding K1 by auto
    then have "child_ok N' g' (ghi g') p (Page a, ?lo, ?u)"
      using ab par notb(1) eh by (auto simp: child_ok_def gg simp del: map_option_eq_Some)
    moreover have "kids (glo g' p) (ghi g' p) ?xs = ?A @ (Page a, ?lo, ?u) # ?B" using K2 pa by (simp add: gg del: kids.simps)
    ultimately have "\<forall>x\<in>set (kids (glo g' p) (ghi g' p) ?xs). child_ok N' g' (ghi g') p x"
      using x_eq by (simp only: set_append list.set) blast
    then show "0 < glv g' p \<and> inner_ok N' g' (ghi g') p (items (pd\<lparr>items := ?xs\<rparr>))"
      using inner_okD(2,3) [OF i] page_okD(4) [OF po [OF p(1)] p(2,3)] unfolding inner_ok_def its by (cases as) (auto simp: gg)
  qed (use p(3) in simp)
  have page_old: "page_ok N' g' (ghi g') q" if q: "q \<in> gD g" "q \<noteq> p" "q \<noteq> a" "q \<noteq> b" for q
  proof -
    obtain nd where nd: "N q = Some nd" using page_ok_node [OF po [OF q(1)]] by blast
    obtain nd' where nd': "N' q = Some nd'" "is_leaf nd' = is_leaf nd" "items nd' = items nd"
      using reparent_fields [of N q nd "items bd" a, OF nd] q by (auto simp: N')
    show ?thesis
    proof (rule page_ok_frame [of N g eh q nd N' nd', OF po [OF q(1)] nd nd'])
      fix c
      assume c: "\<not> is_leaf nd" "Page c \<in> snd ` set (items nd)" "c \<in> gD g" "map_option parent (N c) = Some q"
      have "c \<noteq> a" "c \<noteq> b" using ca(2) cb(2) c(4) q(2) by auto
      moreover have "Page c \<notin> snd ` set (items bd)" using child_parent(2) [OF sh bD childb, of c] c(4) q(4) by auto
      ultimately show "c \<in> gD g' \<and> map_option parent (N' c) = Some q \<and> glo g' c = glo g c \<and> ghi g' c = eh c \<and> glv g' c = glv g c"
        using frame c(3,4) by blast
    qed (use q in \<open>simp_all add: gg\<close>)
  qed
  show "shape N' root g' {} (ghi g')"
  proof (rule shapeI)
    show "map_option parent (N' root) = Some (- 1)" using shapeD(5) [OF sh] par notb(3) by (simp del: map_option_eq_Some)
    show "root \<in> gD g'" "root \<notin> {}" "glo g' root = None" "ghi g' root = None" "- 1 \<notin> gD g'"
      using shapeD(1,3,4,6) [OF sh] br ar eh by (simp_all add: gg)
    show pg: "page_ok N' g' (ghi g') q" if "q \<in> gD g'" for q using that page_p page_a page_old [of q] by (cases "q = p"; cases "q = a") (auto simp: gg)
    show "nonempty (glo g' q) (ghi g' q)" if "q \<in> gD g'" for q
      using page_ok_node [OF pg [OF that]] page_okD(1) [OF pg [OF that]] by blast
    show "\<exists>q\<in>gD g'. has_child N' q c" if c: "c \<in> gD g'" "c \<noteq> root" for c
    proof -
      obtain q where q: "q \<in> gD g" "has_child N q c" using shapeD(9) [OF sh, of c] c by (auto simp: gg)
      then obtain nd where nd: "N q = Some nd" "\<not> is_leaf nd" "Page c \<in> snd ` set (items nd)" by (auto simp: has_child_def)
      consider "q = p" | "q = a" | "q = b" | "q \<noteq> p" "q \<noteq> a" "q \<noteq> b" by blast
      then show ?thesis
      proof cases
        case 1
        have "c \<noteq> b" using c by (simp add: gg)
        then have "Page c \<in> snd ` set (as @ (ka, Page a) # bs)" using nd(1,3) 1 p(2) its by (auto simp: image_Un)
        then have "has_child N' p c" using np p(3) unfolding has_child_def by simp
        then show ?thesis using p(1) pb by (auto simp: gg)
      next
        case 2
        then have "has_child N' a c" using nd ad na a' unfolding has_child_def by (simp add: image_Un)
        then show ?thesis using aD ab by (auto simp: gg)
      next
        case 3
        then have "has_child N' a c" using nd bd na a' leq unfolding has_child_def by (simp add: image_Un)
        then show ?thesis using aD ab by (auto simp: gg)
      next
        case 4
        then have "has_child N' q c" using q(2) unfolding N' has_child_upd by simp
        then show ?thesis using q(1) 4 by (auto simp: gg)
      qed
    qed
  qed simp
qed

section \<open>Moving items between neighbours\<close>

lemma reparent_id: "(\<And>c. Page c \<in> snd ` set its \<Longrightarrow> map_option parent (N c) = Some p) \<Longrightarrow> reparent its p N = N"
proof (rule ext)
  fix c
  assume h: "\<And>c. Page c \<in> snd ` set its \<Longrightarrow> map_option parent (N c) = Some p"
  show "reparent its p N c = N c"
  proof (cases "Page c \<in> snd ` set its")
    case True
    then show ?thesis using h [OF True] by (auto simp: reparent_def)
  qed (simp add: reparent_def)
qed

lemma reparent_append: "reparent (xs @ ys) p N = reparent xs p (reparent ys p N)"
  by (auto simp: reparent_def image_Un option.map_comp fun_eq_iff option.map_comp comp_def)

lemma reparent_over: "reparent its p (reparent its q N) = reparent its p N"
  by (auto simp: reparent_def option.map_comp comp_def fun_eq_iff)

lemma reparent_commute:
  "(\<And>c. Page c \<in> snd ` set xs \<Longrightarrow> Page c \<notin> snd ` set ys) \<Longrightarrow> reparent xs p (reparent ys q N) = reparent ys q (reparent xs p N)"
  by (rule ext) (simp add: reparent_def)

lemma shift_shape:
  assumes sh: "shape N root g {} (ghi g)" and p: "p \<in> gD g" "N p = Some pd" "\<not> is_leaf pd"
    and its: "items pd = as @ (ka, Page a) # (kb, Page b) # bs"
    and ad: "N a = Some ad" and bd: "N b = Some bd"
    and eq: "items ad @ items bd = xs @ (k, v) # ys" "xs \<noteq> []"
    and N': "N' = (reparent ((k, v) # ys) b (reparent (items bd) a N))
      (p \<mapsto> pd\<lparr>items := as @ (ka, Page a) # (k, Page b) # bs\<rparr>, a \<mapsto> ad\<lparr>items := xs\<rparr>, b \<mapsto> bd\<lparr>items := (k, v) # ys\<rparr>)"
    and g': "g' = g\<lparr>glo := (glo g)(b := Some (rank k)), ghi := (ghi g)(a := Some (rank k))\<rparr>"
  shows "shape N' root g' {} (ghi g')"
proof -
  let ?a' = "ad\<lparr>items := items ad @ items bd\<rparr>"
  define Nm where "Nm = (reparent (items bd) a N)(a \<mapsto> ?a', p \<mapsto> pd\<lparr>items := as @ (ka, Page a) # bs\<rparr>)"
  define gm where "gm = g\<lparr>gD := gD g - {b}, ghi := (ghi g)(a := ghi g b)\<rparr>"
  have "is_leaf ?a' = is_leaf ad" "parent ?a' = parent ad" "items ?a' = items ad @ items bd" by simp_all
  note M = merge_shape [OF sh refl p its ad bd this Nm_def gm_def]
  have am: "a \<in> gD gm" "Nm a = Some ?a'" "b \<notin> gD gm" "p \<in> gD gm" "Nm p = Some (pd\<lparr>items := as @ (ka, Page a) # bs\<rparr>)"
    using M(2-6) p(1) by (simp_all add: gm_def Nm_def)
  have b1: "b \<noteq> - 1" using M(3) shapeD(6) [OF sh] by auto
  define gs where "gs = gm\<lparr>gD := insert b (gD gm), glo := (glo gm)(b := Some (rank k)), ghi := (ghi gm)(a := Some (rank k), b := ghi gm a),
        glv := (glv gm)(b := glv gm a)\<rparr>"
  have gs: "gs = g'"
  proof -
    have "(ghi g)(a \<mapsto> rank k, b := ghi g b) = (ghi g)(a \<mapsto> rank k)" using M(4) by (simp add: fun_eq_iff)
    moreover have "(glv g)(b := glv g a) = glv g" using M(9) by (simp add: fun_upd_idem)
    moreover have "insert b (gD g) = gD g" using M(3) by (simp add: insert_absorb)
    ultimately show ?thesis using M(4) by (simp add: gs_def gm_def g')
  qed
  let ?nq = "bd\<lparr>items := (k, v) # ys\<rparr>"
  define Ns where "Ns = (reparent ((k, v) # ys) b Nm)(a \<mapsto> ?a'\<lparr>items := xs\<rparr>, b \<mapsto> ?nq)"
  have lfa: "is_leaf ad \<longleftrightarrow> is_leaf bd" by (simp add: M(10))
  have S: "shape Ns root gs {b} ((ghi gm)(b := ghi gm a)) \<and> valid k"
  proof (cases "is_leaf ad")
    case False
    show ?thesis
      using split_shape(1,2) [OF M(1) am(1,2) _ _ eq(2) am(3) b1 _ _ Ns_def gs_def] eq(1) False lfa by simp
  next
    case True
    have rp: "reparent ((k, v) # ys) b Nm = Nm"
    proof (rule reparent_leaf)
      have "leaf_ok (glo gm a) (ghi gm a) (items ?a')" using page_okD(3) [OF shapeD(7) [OF M(1) am(1)] am(2)] True by simp
      then have l: "leaf_ok (glo gm a) (ghi gm a) (xs @ (k, v) # ys)" using eq(1) by simp
      then show "leaf_ok None None ((k, v) # ys)" by (auto simp: leaf_ok_def ascending_def sorted_wrt_append)
    qed
    have lok: "leaf_ok (glo gm a) (ghi gm a) (xs @ (k, v) # ys)"
      using page_okD(3) [OF shapeD(7) [OF M(1) am(1)] am(2)] True eq(1) by simp
    show ?thesis
      using leaf_split_shape(1,2) [OF M(1) am(1,2) _ lok eq(2) am(3) b1 _ _ _ _ _ Ns_def [unfolded rp] gs_def] True lfa by simp
  qed
  have ap: "p \<in> gD gs" "Ns p = Some (pd\<lparr>items := as @ (ka, Page a) # bs\<rparr>)" "Ns b = Some ?nq"
  proof -
    have "Page p \<notin> snd ` set ((k, v) # ys)"
    proof
      assume h: "Page p \<in> snd ` set ((k, v) # ys)"
      then have h2: "Page p \<in> snd ` set (items ?a')" using arg_cong [OF eq(1), of "\<lambda>l. snd ` set l"] by (auto simp: image_Un)
      have "\<not> is_leaf ad"
      proof
        assume "is_leaf ad"
        then have "leaf_ok (glo gm a) (ghi gm a) (items ?a')" using page_okD(3) [OF shapeD(7) [OF M(1) am(1)] am(2)] by simp
        from leaf_no_child [OF this] show False using h2 by blast
      qed
      then have "has_child Nm a p" using am(2) h2 by (simp add: has_child_def)
      from child_parent(3) [OF M(1) am(1) this] show False using M(8) by (simp add: gm_def)
    qed
    then show "p \<in> gD gs" "Ns p = Some (pd\<lparr>items := as @ (ka, Page a) # bs\<rparr>)" "Ns b = Some ?nq"
      using am(4,5) M(5,6) by (simp_all add: gs_def Ns_def reparent_def)
  qed
  have "shape (Ns(p \<mapsto> pd\<lparr>items := as @ (ka, Page a) # (k, Page b) # bs\<rparr>, b \<mapsto> ?nq\<lparr>parent := p\<rparr>)) root gs {} (((ghi gm)(b := ghi gm a))(a := ghi gs a))"
    by (rule attach_shape [OF conjunct1 [OF S] _ _ M(4) _ _ _ _ _ conjunct2 [OF S] _ ap(1,2) _ _ ap(3)])
      (use M(4,9) am(1) p(3) in \<open>simp_all add: gs_def gm_def\<close>)
  moreover have "((ghi gm)(b := ghi gm a))(a := ghi gs a) = ghi g'" using M(4) by (auto simp: gs_def gm_def g')
  moreover have "?nq\<lparr>parent := p\<rparr> = ?nq"
  proof -
    have "has_child N p b" using p its by (auto simp: has_child_def)
    from child_parent(2) [OF sh p(1) this] have "parent bd = p" using bd by simp
    then show ?thesis by (cases bd) simp
  qed
  moreover have "Ns(p \<mapsto> pd\<lparr>items := as @ (ka, Page a) # (k, Page b) # bs\<rparr>, b \<mapsto> ?nq) = N'"
  proof -
    have "reparent ((k, v) # ys) b Nm c = reparent ((k, v) # ys) b (reparent (items bd) a N) c" if "c \<noteq> a" "c \<noteq> p" for c
      using that by (simp add: reparent_def Nm_def)
    then show ?thesis using M(4-6) unfolding N' Ns_def by (auto simp: fun_eq_iff)
  qed
  ultimately show ?thesis by (simp only: gs)
qed

section \<open>A root with one child\<close>

lemma drop_root_shape:
  assumes sh: "shape N root g {} (ghi g)" and r: "N root = Some rd" "\<not> is_leaf rd" "items rd = [(k, Page c)]" and cd: "N c = Some cd"
    and g': "g' = g\<lparr>gD := gD g - {root}\<rparr>"
  shows "shape (N(c \<mapsto> cd\<lparr>parent := - 1\<rparr>)) c g' {} (ghi g')" and "c \<in> gD g" and "Suc (glv g c) = glv g root"
proof -
  note po = shapeD(7) [OF sh] and R = shapeD(1) [OF sh]
  note i = page_okD(5) [OF po [OF R] r(1,2)]
  have j: "0 < length (items rd)" "snd (items rd ! 0) = Page c" by (simp_all add: r(3))
  note cc = child_at [OF i j]
  show cD: "c \<in> gD g" and lvc: "Suc (glv g c) = glv g root" using cc(1,5) by simp_all
  let ?N = "N(c \<mapsto> cd\<lparr>parent := - 1\<rparr>)"
  have hc: "has_child N root c" using r by (simp add: has_child_def)
  have cr: "c \<noteq> root" using child_parent(4) [OF sh R hc] .
  have only: "has_child N root d \<Longrightarrow> d = c" for d using r by (auto simp: has_child_def)
  have par: "map_option parent (?N d) = (if d = c then Some (- 1) else map_option parent (N d))" for d by simp
  have hcN: "has_child ?N q d = has_child N q d" for q d using cd by (auto simp: has_child_def)
  have pg: "page_ok ?N g' (ghi g') q" if q: "q \<in> gD g'" for q
  proof -
    have q': "q \<in> gD g" "q \<noteq> root" using q by (simp_all add: g')
    obtain nd where nd: "N q = Some nd" using page_ok_node [OF po [OF q'(1)]] by blast
    obtain nd' where nd': "?N q = Some nd'" "is_leaf nd' = is_leaf nd" "items nd' = items nd" using nd cd by (cases "q = c") auto
    show ?thesis
    proof (rule page_ok_frame [of N g "ghi g" q nd ?N nd', OF po [OF q'(1)] nd nd'])
      fix d
      assume d: "\<not> is_leaf nd" "Page d \<in> snd ` set (items nd)" "d \<in> gD g" "map_option parent (N d) = Some q"
      then have h: "has_child N q d" using nd by (simp add: has_child_def)
      have "d \<noteq> root" using child_parent(4) [OF sh q'(1) h] .
      moreover have "d \<noteq> c" using d(4) cc(2) q'(2) by auto
      ultimately show "d \<in> gD g' \<and> map_option parent (?N d) = Some q \<and> glo g' d = glo g d \<and> ghi g' d = ghi g d \<and> glv g' d = glv g d"
        using d by (simp add: g')
    qed (simp_all add: g')
  qed
  show "shape ?N c g' {} (ghi g')"
  proof (rule shapeI)
    show "c \<in> gD g'" "glo g' c = None" "ghi g' c = None" "- 1 \<notin> gD g'"
      using cD cr cc(3,4) shapeD(3,4,6) [OF sh] by (simp_all add: g' r(3))
    show "page_ok ?N g' (ghi g') q" if "q \<in> gD g'" for q by (rule pg [OF that])
    show "nonempty (glo g' q) (ghi g' q)" if "q \<in> gD g'" for q using shapeD(8) [OF sh, of q] that by (simp add: g')
    show "\<exists>q\<in>gD g'. has_child ?N q d" if d: "d \<in> gD g'" "d \<noteq> c" for d
    proof -
      obtain q where q: "q \<in> gD g" "has_child N q d" using shapeD(9) [OF sh, of d] d by (auto simp: g')
      have "q \<noteq> root" using only q(2) d(2) by auto
      then show ?thesis using q hcN by (auto simp: g')
    qed
  qed simp_all
qed

end

end
