(* ===== verification/Bplus_Delete.thy ===== *)
theory Bplus_Delete
  imports Bplus_Merge
begin

text \<open>
  Deletion from the B+ tree keeps the tree well formed, and takes the item of the key away.
\<close>

context key_order
begin

section \<open>Effects\<close>

lemma child_facts:
  assumes sh: "shape N root g X eh" and q: "q \<in> gD g" "N q = Some nd" and c: "Page c \<in> snd ` set (items nd)"
  shows "\<not> is_leaf nd" "c \<in> gD g" "map_option parent (N c) = Some q" "Suc (glv g c) = glv g q" "c \<noteq> root" "N c \<noteq> None"
proof -
  show l: "\<not> is_leaf nd" using page_okD(3) [OF shapeD(7) [OF sh q(1)] q(2)] leaf_no_child c by blast
  have h: "has_child N q c" using l q(2) c by (simp add: has_child_def)
  show "c \<in> gD g" "map_option parent (N c) = Some q" "Suc (glv g c) = glv g q" "c \<noteq> root" using child_parent [OF sh q(1) h] by simp_all
  then show "N c \<noteq> None" by auto
qed

lemma child_unique:
  assumes sh: "shape N root g X eh" and q: "q \<in> gD g" "N q = Some nd" and its: "items nd = xs @ ys" and c: "Page c \<in> snd ` set xs"
  shows "Page c \<notin> snd ` set ys"
proof -
  have cc: "Page c \<in> snd ` set (items nd)" using c its by (simp add: image_Un)
  have "inner_ok N g eh q (items nd)" by (rule page_okD(5) [OF shapeD(7) [OF sh q(1)] q(2) child_facts(1) [OF sh q cc]])
  from distinct_children [OF sh this] c show ?thesis using its by auto
qed

lemma append_edit:
  \<comment> \<open>an item is added at the end of a page; the child in it gets the page as its parent\<close>
  assumes a: "nodes s a = Some ad" and x: "lf \<Longrightarrow> reparent [x] a (nodes s) = nodes s" "\<not> lf \<Longrightarrow> \<exists>c. snd x = Page c \<and> c \<noteq> a \<and> nodes s c \<noteq> None"
  shows "\<exists>es. (if lf then leaf_append a [x] s else internal_append a [x] s) =
    Some (edit s ((reparent [x] a (nodes s))(a \<mapsto> ad\<lparr>items := items ad @ [x]\<rparr>)) es)"
proof (cases lf)
  case True
  then show ?thesis using insert_items_edit [of s a ad "node_size ad" "[x]", OF a] a x(1) by (simp add: leaf_append_def)
next
  case False
  then obtain c where "snd x = Page c" "c \<noteq> a" "nodes s c \<noteq> None" using x(2) by blast
  then show ?thesis using internal_append_edit [of s a ad "[x]", OF a] False by (simp add: children_in_def)
qed

lemma prepend_edit:
  assumes a: "nodes s a = Some ad" and x: "lf \<Longrightarrow> reparent [x] a (nodes s) = nodes s" "\<not> lf \<Longrightarrow> \<exists>c. snd x = Page c \<and> c \<noteq> a \<and> nodes s c \<noteq> None"
  shows "\<exists>es. (if lf then leaf_preappend a x s else internal_preappend a x s) =
    Some (edit s ((reparent [x] a (nodes s))(a \<mapsto> ad\<lparr>items := x # items ad\<rparr>)) es)"
proof -
  obtain es where e: "node_insert_items a 0 [x] s = Some (edit s ((nodes s)(a \<mapsto> ad\<lparr>items := x # items ad\<rparr>)) es)"
    using insert_items_edit [of s a ad 0 "[x]", OF a] by auto
  show ?thesis
  proof (cases lf)
    case True
    then show ?thesis using e x(1) by (simp add: leaf_preappend_def) blast
  next
    case False
    then obtain c where c: "snd x = Page c" "c \<noteq> a" "nodes s c \<noteq> None" using x(2) by blast
    let ?s = "edit s ((nodes s)(a \<mapsto> ad\<lparr>items := x # items ad\<rparr>)) es"
    have "children_in (nodes ?s) [x]" using c by (simp add: children_in_def)
    from set_parents_edit [OF this, of a] show ?thesis
      using False e c by (auto simp: internal_preappend_def internal_insert_items_def reparent_upd_same)
  qed
qed

lemma set_key_edit:
  "nodes s p = Some pd \<Longrightarrow> items pd = as @ (k0, v) # bs \<Longrightarrow> i = length as \<Longrightarrow>
   \<exists>es. set_key_at p i k s = Some (edit s ((nodes s)(p \<mapsto> pd\<lparr>items := as @ (k, v) # bs\<rparr>)) es)"
  by (simp add: set_key_at_def key_at_def nth_append list_update_append) blast

section \<open>Redistribution\<close>

lemma redistribute_first:
  assumes sh: "shape (nodes s) root g {} (ghi g)" and p: "p \<in> gD g" "nodes s p = Some pd" "\<not> is_leaf pd"
    and its: "items pd = (ka, Page a) # (kb, Page b) # bs" and ad: "nodes s a = Some ad" and bd: "nodes s b = Some bd"
    and D: "a \<in> gD g" "b \<in> gD g" "a \<noteq> b" "p \<noteq> a" "p \<noteq> b" "glv g b = glv g a" "Suc (glv g a) = glv g p" and x: "items bd = x # (k, v) # ys"
  shows "\<exists>es. redistribute (is_leaf bd) b a p 0 s = Some (edit s ((reparent ((k, v) # ys) b (reparent (items bd) a (nodes s)))
      (p \<mapsto> pd\<lparr>items := (ka, Page a) # (k, Page b) # bs\<rparr>, a \<mapsto> ad\<lparr>items := items ad @ [x]\<rparr>, b \<mapsto> bd\<lparr>items := (k, v) # ys\<rparr>)) es)"
proof -
  let ?N = "nodes s" and ?R = "(k, v) # ys"
  have px: "c \<noteq> a \<and> c \<noteq> b \<and> c \<noteq> p \<and> ?N c \<noteq> None \<and> \<not> is_leaf bd" if "Page c = snd x" for c
  proof -
    have "Page c \<in> snd ` set (items bd)" using that x by simp
    from child_facts [OF sh D(2) bd this] D(6,7) show ?thesis by auto
  qed
  have lfx: "\<exists>c. snd x = Page c" if "\<not> is_leaf bd"
    using inner_children(1) [OF sh D(2) bd that] x by (auto simp: children_in_def)
  have rp: "reparent ?R b (reparent (items bd) a ?N) = reparent [x] a ?N"
  proof -
    have 1: "reparent (items bd) a ?N = reparent [x] a (reparent ?R a ?N)" using reparent_append [of "[x]" ?R] x by simp
    have 2: "reparent ?R b (reparent [x] a M) = reparent [x] a (reparent ?R b M)" for M
    proof (rule reparent_commute)
      fix c
      assume c: "Page c \<in> snd ` set ?R"
      have "items bd = [x] @ ?R" using x by simp
      from child_unique [OF sh D(2) bd this, of c] c show "Page c \<notin> snd ` set [x]" by blast
    qed
    have 3: "reparent ?R b ?N = ?N"
    proof (rule reparent_id)
      fix c
      assume "Page c \<in> snd ` set ?R"
      then have "Page c \<in> snd ` set (items bd)" using x by auto
      from child_facts(3) [OF sh D(2) bd this] show "map_option parent (?N c) = Some b" .
    qed
    show ?thesis unfolding 1 2 reparent_over 3 ..
  qed
  have idx: "is_leaf bd \<Longrightarrow> reparent [x] a ?N = ?N" using px by (auto simp: reparent_def fun_eq_iff)
  have "\<not> is_leaf bd \<Longrightarrow> \<exists>c. snd x = Page c \<and> c \<noteq> a \<and> ?N c \<noteq> None" using lfx px by metis
  from append_edit [of s a ad "is_leaf bd" x, OF ad idx this] obtain es1 where
    e1: "(if is_leaf bd then leaf_append a [x] s else internal_append a [x] s) =
      Some (edit s ((reparent [x] a ?N)(a \<mapsto> ad\<lparr>items := items ad @ [x]\<rparr>)) es1)" by blast
  let ?N1 = "(reparent [x] a ?N)(a \<mapsto> ad\<lparr>items := items ad @ [x]\<rparr>)"
  let ?s1 = "edit s ?N1 es1"
  have rc: "reparent [x] a ?N q = ?N q" if "Page q \<noteq> snd x" for q using that by (simp add: reparent_def)
  have nb: "?N1 b = Some bd" using D(3) rc [of b] px [of b] bd by auto
  obtain es2 where e2: "node_remove_at b 0 ?s1 = Some (edit s (?N1(b \<mapsto> bd\<lparr>items := ?R\<rparr>)) es2)"
    using remove_items_edit [of ?s1 b bd 0 1] nb x by (auto simp: node_remove_at_def)
  have mv: "(if is_leaf bd then leaf_move_first_to_end b a s else internal_move_first_to_end b a s) = Some (edit s (?N1(b \<mapsto> bd\<lparr>items := ?R\<rparr>)) es2)"
    using bd x e1 e2 by (cases "is_leaf bd") (simp_all add: leaf_move_first_to_end_def internal_move_first_to_end_def)
  let ?s2 = "edit s (?N1(b \<mapsto> bd\<lparr>items := ?R\<rparr>)) es2"
  have np: "nodes ?s2 p = Some pd" using D(4,5) rc [of p] px [of p] p(2) by auto
  obtain es3 where e3: "set_key_at p 1 k ?s2 = Some (edit s (?N1(b \<mapsto> bd\<lparr>items := ?R\<rparr>, p \<mapsto> pd\<lparr>items := (ka, Page a) # (k, Page b) # bs\<rparr>)) es3)"
    using set_key_edit [of ?s2 p pd "[(ka, Page a)]" kb "Page b" bs 1 k, OF np] its by auto
  have "redistribute (is_leaf bd) b a p 0 s = Some (edit s (?N1(b \<mapsto> bd\<lparr>items := ?R\<rparr>, p \<mapsto> pd\<lparr>items := (ka, Page a) # (k, Page b) # bs\<rparr>)) es3)"
    using mv e3 unfolding redistribute_def by (simp add: key_at_def)
  moreover have "?N1(b \<mapsto> bd\<lparr>items := ?R\<rparr>, p \<mapsto> pd\<lparr>items := (ka, Page a) # (k, Page b) # bs\<rparr>) = (reparent ?R b (reparent (items bd) a ?N))
      (p \<mapsto> pd\<lparr>items := (ka, Page a) # (k, Page b) # bs\<rparr>, a \<mapsto> ad\<lparr>items := items ad @ [x]\<rparr>, b \<mapsto> bd\<lparr>items := ?R\<rparr>)"
    unfolding rp using D(3-5) by (simp add: fun_eq_iff)
  ultimately show ?thesis by metis
qed

lemma redistribute_last:
  assumes sh: "shape (nodes s) root g {} (ghi g)" and p: "p \<in> gD g" "nodes s p = Some pd" "\<not> is_leaf pd"
    and its: "items pd = as @ (ka, Page a) # (kb, Page b) # bs" and ad: "nodes s a = Some ad" and bd: "nodes s b = Some bd"
    and D: "a \<in> gD g" "b \<in> gD g" "a \<noteq> b" "p \<noteq> a" "p \<noteq> b" "glv g b = glv g a" "Suc (glv g a) = glv g p" and x: "items ad = xs @ [(k, v)]"
  shows "\<exists>es. redistribute (is_leaf ad) a b p (Suc (length as)) s = Some (edit s ((reparent ((k, v) # items bd) b (reparent (items bd) a (nodes s)))
      (p \<mapsto> pd\<lparr>items := as @ (ka, Page a) # (k, Page b) # bs\<rparr>, a \<mapsto> ad\<lparr>items := xs\<rparr>, b \<mapsto> bd\<lparr>items := (k, v) # items bd\<rparr>)) es)"
proof -
  let ?N = "nodes s" and ?x = "(k, v)"
  have px: "c \<noteq> a \<and> c \<noteq> b \<and> c \<noteq> p \<and> ?N c \<noteq> None \<and> \<not> is_leaf ad" if "Page c = snd ?x" for c
  proof -
    have "Page c \<in> snd ` set (items ad)" using that x by simp
    from child_facts [OF sh D(1) ad this] D(6,7) show ?thesis by auto
  qed
  have lfx: "\<exists>c. snd ?x = Page c" if "\<not> is_leaf ad"
    using inner_children(1) [OF sh D(1) ad that] x by (auto simp: children_in_def)
  have rp: "reparent (?x # items bd) b (reparent (items bd) a ?N) = reparent [?x] b ?N"
  proof -
    have "reparent (?x # items bd) b M = reparent [?x] b (reparent (items bd) b M)" for M
      using reparent_append [of "[?x]" "items bd"] by simp
    moreover have "reparent (items bd) b ?N = ?N"
      by (rule reparent_id) (rule child_facts(3) [OF sh D(2) bd])
    ultimately show ?thesis by (simp only: reparent_over)
  qed
  have idx: "is_leaf ad \<Longrightarrow> reparent [?x] b ?N = ?N" using px by (auto simp: reparent_def fun_eq_iff)
  have "\<not> is_leaf ad \<Longrightarrow> \<exists>c. snd ?x = Page c \<and> c \<noteq> b \<and> ?N c \<noteq> None" using lfx px by metis
  from prepend_edit [of s b bd "is_leaf ad" ?x, OF bd idx this] obtain es1 where
    e1: "(if is_leaf ad then leaf_preappend b ?x s else internal_preappend b ?x s) =
      Some (edit s ((reparent [?x] b ?N)(b \<mapsto> bd\<lparr>items := ?x # items bd\<rparr>)) es1)" by blast
  let ?N1 = "(reparent [?x] b ?N)(b \<mapsto> bd\<lparr>items := ?x # items bd\<rparr>)"
  let ?s1 = "edit s ?N1 es1"
  have rc: "reparent [?x] b ?N q = ?N q" if "Page q \<noteq> snd ?x" for q using that by (simp add: reparent_def)
  have na: "?N1 a = Some ad" using D(3) rc [of a] px [of a] ad by auto
  obtain es2 where e2: "node_remove_items a (length xs) 1 ?s1 = Some (edit s (?N1(a \<mapsto> ad\<lparr>items := xs\<rparr>)) es2)"
    using remove_items_edit [of ?s1 a ad "length xs" 1] na x by auto
  have mv: "(if is_leaf ad then leaf_move_last_to_front a b s else internal_move_last_to_front a b s) = Some (edit s (?N1(a \<mapsto> ad\<lparr>items := xs\<rparr>)) es2)"
    using ad x e1 e2 na by (cases "is_leaf ad") (simp_all add: leaf_move_last_to_front_def internal_move_last_to_front_def node_remove_at_def)
  let ?s2 = "edit s (?N1(a \<mapsto> ad\<lparr>items := xs\<rparr>)) es2"
  have np: "nodes ?s2 p = Some pd" using D(4,5) rc [of p] px [of p] p(2) by auto
  obtain es3 where e3: "set_key_at p (Suc (length as)) k ?s2 =
      Some (edit s (?N1(a \<mapsto> ad\<lparr>items := xs\<rparr>, p \<mapsto> pd\<lparr>items := as @ (ka, Page a) # (k, Page b) # bs\<rparr>)) es3)"
    using set_key_edit [of ?s2 p pd "as @ [(ka, Page a)]" kb "Page b" bs "Suc (length as)" k, OF np] its by auto
  have "redistribute (is_leaf ad) a b p (Suc (length as)) s =
      Some (edit s (?N1(a \<mapsto> ad\<lparr>items := xs\<rparr>, p \<mapsto> pd\<lparr>items := as @ (ka, Page a) # (k, Page b) # bs\<rparr>)) es3)"
    using mv e3 D(3) unfolding redistribute_def by (simp add: key_at_def)
  moreover have "?N1(a \<mapsto> ad\<lparr>items := xs\<rparr>, p \<mapsto> pd\<lparr>items := as @ (ka, Page a) # (k, Page b) # bs\<rparr>) =
      (reparent (?x # items bd) b (reparent (items bd) a ?N))
      (p \<mapsto> pd\<lparr>items := as @ (ka, Page a) # (k, Page b) # bs\<rparr>, a \<mapsto> ad\<lparr>items := xs\<rparr>, b \<mapsto> bd\<lparr>items := ?x # items bd\<rparr>)"
    unfolding rp using D(3-5) by (simp add: fun_eq_iff)
  ultimately show ?thesis by metis
qed

section \<open>Coalescing\<close>

lemma shape_outside:
  assumes sh: "shape N root g X eh" and same: "\<And>q. q \<in> gD g \<Longrightarrow> N' q = N q"
  shows "shape N' root g X eh"
proof -
  have hc: "has_child N' q c = has_child N q c" if "q \<in> gD g" for q c using same [OF that] by (simp add: has_child_def)
  have pg: "page_ok N' g eh q" if q: "q \<in> gD g" for q
  proof -
    obtain nd where nd: "N q = Some nd" using page_ok_node [OF shapeD(7) [OF sh q]] by blast
    have nd': "N' q = Some nd" using same [OF q] nd by simp
    show ?thesis
      by (rule page_ok_frame [of N g eh q nd N' nd, OF shapeD(7) [OF sh q] nd nd']) (use same in simp_all)
  qed
  show ?thesis
    by (rule shapeI) (use shapeD [OF sh] same [OF shapeD(1) [OF sh]] hc pg in \<open>simp_all del: map_option_eq_Some\<close>)
qed

lemma coalesce_edit:
  assumes sh: "shape (nodes s) root g {} (ghi g)" and p: "p \<in> gD g" "nodes s p = Some pd" "\<not> is_leaf pd"
    and its: "items pd = as @ (ka, Page a) # (kb, Page b) # bs" and ad: "nodes s a = Some ad" and bd: "nodes s b = Some bd"
    and D: "a \<in> gD g" "b \<in> gD g" "a \<noteq> b" "p \<noteq> a" "p \<noteq> b" "glv g b = glv g a" "Suc (glv g a) = glv g p" "is_leaf bd = is_leaf ad"
    and which: "index = 0 \<and> as = [] \<and> pn = a \<and> neighbor = b \<or> index = Suc (length as) \<and> pn = b \<and> neighbor = a"
    and a': "a' = (if is_leaf ad then ad\<lparr>next_brother := next_brother bd, items := items ad @ items bd\<rparr> else ad\<lparr>items := items ad @ items bd\<rparr>)"
  shows "\<exists>es. coalesce (is_leaf ad) neighbor pn p index s = Some (latch_dispose_page b (edit s ((reparent (items bd) a (nodes s))
      (a \<mapsto> a', p \<mapsto> pd\<lparr>items := as @ (ka, Page a) # bs\<rparr>, b \<mapsto> bd\<lparr>items := []\<rparr>)) es))"
proof -
  let ?N = "nodes s" and ?pd = "pd\<lparr>items := as @ (ka, Page a) # bs\<rparr>" and ?ad = "ad\<lparr>items := items ad @ items bd\<rparr>"
  have px: "c \<noteq> a \<and> c \<noteq> b \<and> c \<noteq> p \<and> ?N c \<noteq> None" if "Page c \<in> snd ` set (items bd)" for c
    using child_facts [OF sh D(2) bd that] D(6,7) by auto
  have rc: "reparent (items bd) a M q = M q" if "q = a \<or> q = b \<or> q = p" for q M using that px by (auto simp: reparent_def)
  have rp: "reparent (items bd) a (M(q \<mapsto> nd)) = (reparent (items bd) a M)(q \<mapsto> nd)" if "q = a \<or> q = b \<or> q = p" for q M nd
    by (rule reparent_upd_same) (use that px in auto)
  obtain es1 where e1: "node_remove_at p (Suc (length as)) s = Some (edit s (?N(p \<mapsto> ?pd)) es1)"
    using remove_items_edit [of s p pd "Suc (length as)" 1] p(2) its by (auto simp: node_remove_at_def)
  let ?s1 = "edit s (?N(p \<mapsto> ?pd)) es1"
  let ?N2 = "(reparent (items bd) a ?N)(p \<mapsto> ?pd, a \<mapsto> a', b \<mapsto> bd\<lparr>items := []\<rparr>)"
  have n1: "nodes ?s1 a = Some ad" "nodes ?s1 b = Some bd" using ad bd D(3-5) by simp_all
  have mv: "\<exists>es. (do {
        s2 \<leftarrow> (if is_leaf ad then leaf_move_to b a ?s1 else internal_move_to b a ?s1);
        ln \<leftarrow> nodes s2 a;
        s3 \<leftarrow> (if is_leaf ln then do { rn \<leftarrow> nodes s2 b; set_next_page a (next_brother rn) s2 } else Some s2);
        Some (latch_dispose_page b s3)
      }) = Some (latch_dispose_page b (edit s ?N2 es))"
  proof (cases "is_leaf ad")
    case True
    have id: "reparent (items bd) a ?N = ?N"
      using leaf_no_child [OF page_okD(3) [OF shapeD(7) [OF sh D(2)] bd]] True D(8) by (simp add: reparent_def fun_eq_iff)
    obtain es2 where e2: "leaf_append a (items bd) ?s1 = Some (edit s (?N(p \<mapsto> ?pd, a \<mapsto> ?ad)) es2)"
      using insert_items_edit [of ?s1 a ad "node_size ad" "items bd", OF n1(1)] n1(1) by (auto simp: leaf_append_def)
    have rc2: "ad\<lparr>items := items ad @ items bd, next_brother := next_brother bd\<rparr> = a'" using True by (simp add: a')
    let ?s2 = "edit s (?N(p \<mapsto> ?pd, a \<mapsto> ?ad)) es2"
    obtain es3 where e3: "set_next_page a (next_brother bd) ?s2 = Some (edit s (?N(p \<mapsto> ?pd, a \<mapsto> a')) es3)"
      using set_next_edit [of ?s2 a ?ad "next_brother bd"] rc2 by auto
    let ?s3 = "edit s (?N(p \<mapsto> ?pd, a \<mapsto> a')) es3"
    obtain es4 where e4: "node_remove_items b 0 (node_size bd) ?s3 = Some (edit s (?N(p \<mapsto> ?pd, a \<mapsto> a', b \<mapsto> bd\<lparr>items := []\<rparr>)) es4)"
      using remove_items_edit [of ?s3 b bd 0 "node_size bd"] bd D(3,5) by auto
    let ?s4 = "edit s (?N(p \<mapsto> ?pd, a \<mapsto> a', b \<mapsto> bd\<lparr>items := []\<rparr>)) es4"
    have m: "leaf_move_to b a ?s1 = Some ?s4" using n1(2) e2 e3 e4 by (simp add: leaf_move_to_def)
    have a'n: "is_leaf a'" "a'\<lparr>next_brother := next_brother bd\<rparr> = a'" using True by (simp_all add: a')
    obtain es5 where e5: "set_next_page a (next_brother bd) ?s4 = Some (edit s (?N(p \<mapsto> ?pd, a \<mapsto> a', b \<mapsto> bd\<lparr>items := []\<rparr>)) es5)"
      using set_next_edit [of ?s4 a a' "next_brother bd"] D(3) a'n(2) by (auto simp: fun_upd_twist)
    have "nodes ?s4 a = Some a'" "nodes ?s4 b = Some (bd\<lparr>items := []\<rparr>)" using D(3) by simp_all
    then show ?thesis using True m e5 a'n(1) id by (simp only: if_True Option.bind.bind_lunit) auto
  next
    case False
    have ch: "children_in (nodes ?s1) (items bd)"
      using inner_children(1) [OF sh D(2) bd] False D(8) children_in_upd by auto
    have "Page a \<notin> snd ` set (items bd)" using px by blast
    from internal_append_edit [of ?s1 a ad "items bd", OF n1(1) this ch] obtain es2 where
      e2: "internal_append a (items bd) ?s1 = Some (edit s ((reparent (items bd) a (?N(p \<mapsto> ?pd)))(a \<mapsto> ?ad)) es2)" by auto
    let ?s2 = "edit s ((reparent (items bd) a (?N(p \<mapsto> ?pd)))(a \<mapsto> ?ad)) es2"
    have "nodes ?s2 b = Some bd" using rc [of b] bd D(3,5) by simp
    from remove_items_edit [of ?s2 b bd 0 "node_size bd", OF this] obtain es3 where
      e3: "node_remove_items b 0 (node_size bd) ?s2 = Some (edit s ((reparent (items bd) a (?N(p \<mapsto> ?pd)))(a \<mapsto> ?ad, b \<mapsto> bd\<lparr>items := []\<rparr>)) es3)" by auto
    have eq: "(reparent (items bd) a (?N(p \<mapsto> ?pd)))(a \<mapsto> ?ad, b \<mapsto> bd\<lparr>items := []\<rparr>) = ?N2" using rp [of p] False by (simp add: a')
    have m: "internal_move_to b a ?s1 = Some (edit s ?N2 es3)" using n1(2) e2 e3 eq by (simp add: internal_move_to_def)
    have "nodes (edit s ?N2 es3) a = Some a'" "\<not> is_leaf a'" using D(3) False by (simp_all add: a')
    then show ?thesis using False m by auto
  qed
  have tw: "?N2 = (reparent (items bd) a ?N)(a \<mapsto> a', p \<mapsto> ?pd, b \<mapsto> bd\<lparr>items := []\<rparr>)" using D(4) by (simp add: fun_upd_twist)
  from mv obtain es where m: "(do {
        s2 \<leftarrow> (if is_leaf ad then leaf_move_to b a ?s1 else internal_move_to b a ?s1);
        ln \<leftarrow> nodes s2 a;
        s3 \<leftarrow> (if is_leaf ln then do { rn \<leftarrow> nodes s2 b; set_next_page a (next_brother rn) s2 } else Some s2);
        Some (latch_dispose_page b s3)
      }) = Some (latch_dispose_page b (edit s ?N2 es))" by blast
  have "coalesce (is_leaf ad) neighbor pn p index s = Some (latch_dispose_page b (edit s ?N2 es))"
    using which
  proof
    assume w: "index = 0 \<and> as = [] \<and> pn = a \<and> neighbor = b"
    then show ?thesis using m e1 unfolding coalesce_def Let_def by (simp split del: if_split cong: if_cong)
  next
    assume w: "index = Suc (length as) \<and> pn = b \<and> neighbor = a"
    then show ?thesis using m e1 unfolding coalesce_def Let_def by (simp split del: if_split cong: if_cong)
  qed
  then show ?thesis unfolding tw by blast
qed

end

end
