(* ===== verification/Bplus_Coalesce.thy ===== *)
theory Bplus_Coalesce
  imports Bplus_Delete
begin

text \<open>
  After a removal a page may have one item too few; \<^verbatim>\<open>coalesce_or_redistribute\<close> climbs from it and leaves a well
  formed tree with the same contents, or no tree when the last item is gone.
\<close>

context key_order
begin

definition sized_but :: "IndexFileHeader \<Rightarrow> (int \<rightharpoonup> IndexNode) \<Rightarrow> int set \<Rightarrow> int \<Rightarrow> int \<Rightarrow> bool" where
  "sized_but h N D r p \<longleftrightarrow> (\<forall>q\<in>D. \<forall>lf its nb. body N q = Some (lf, its, nb) \<longrightarrow>
     length its \<le> max_items h lf \<and>
     (if q = r then if lf then 1 else 2 else max_items h lf div 2) - (if q = p then 1 else 0) \<le> length its)"

definition underfull :: "BplusTree \<Rightarrow> 'r ghost \<Rightarrow> int \<Rightarrow> bool" where
  \<comment> \<open>page \<open>p\<close> may miss one item\<close>
  "underfull s g p \<longleftrightarrow> settled s g \<and> shape (nodes s) (root_page (file_header s)) g {} (ghi g) \<and> p \<in> gD g \<and>
     sized_but (file_header s) (nodes s) (gD g) (root_page (file_header s)) p \<and>
     4 \<le> leaf_max_size (file_header s) \<and> 6 \<le> internal_max_size (file_header s)"

lemma sized_butD:
  assumes "sized_but h N D r p" "q \<in> D" "body N q = Some (lf, its, nb)"
  shows "length its \<le> max_items h lf" "q \<noteq> p \<Longrightarrow> q \<noteq> r \<Longrightarrow> max_items h lf div 2 \<le> length its"
    "q \<noteq> p \<Longrightarrow> q = r \<Longrightarrow> (if lf then 1 else 2) \<le> length its" "q = p \<Longrightarrow> q \<noteq> r \<Longrightarrow> max_items h lf div 2 \<le> Suc (length its)"
    "q = p \<Longrightarrow> q = r \<Longrightarrow> \<not> lf \<Longrightarrow> 1 \<le> length its"
proof -
  have *: "length its \<le> max_items h lf \<and>
     (if q = r then if lf then 1 else 2 else max_items h lf div 2) - (if q = p then 1 else 0) \<le> length its"
    using assms unfolding sized_but_def by blast
  then show "length its \<le> max_items h lf" "q \<noteq> p \<Longrightarrow> q \<noteq> r \<Longrightarrow> max_items h lf div 2 \<le> length its"
    "q \<noteq> p \<Longrightarrow> q = r \<Longrightarrow> (if lf then 1 else 2) \<le> length its" "q = p \<Longrightarrow> q \<noteq> r \<Longrightarrow> max_items h lf div 2 \<le> Suc (length its)"
    "q = p \<Longrightarrow> q = r \<Longrightarrow> \<not> lf \<Longrightarrow> 1 \<le> length its"
    by (auto split: if_splits)
qed

lemma sized_butI:
  assumes "\<And>q lf its nb. q \<in> D \<Longrightarrow> body N q = Some (lf, its, nb) \<Longrightarrow> length its \<le> max_items h lf \<and>
     (if q = r then if lf then 1 else 2 else max_items h lf div 2) - (if q = p then 1 else 0) \<le> length its"
  shows "sized_but h N D r p"
  using assms unfolding sized_but_def by blast

lemma underfullD:
  assumes "underfull s g p"
  shows "settled s g" "shape (nodes s) (root_page (file_header s)) g {} (ghi g)" "p \<in> gD g"
    "sized_but (file_header s) (nodes s) (gD g) (root_page (file_header s)) p"
    "4 \<le> leaf_max_size (file_header s)" "6 \<le> internal_max_size (file_header s)"
    "levels g (root_page (file_header s))" "linked (nodes s) g" "pool_ok s (gD g)" "key_comparator s = cmp" "- 1 \<notin> gD g"
  using assms unfolding underfull_def settled_def shape_def by auto

lemma underfull_full:
  assumes U: "underfull s g p" and nd: "nodes s p = Some nd"
    and sz: "if p = root_page (file_header s) then if is_leaf nd then 1 \<le> node_size nd else 2 \<le> node_size nd
             else max_items (file_header s) (is_leaf nd) div 2 \<le> node_size nd"
  shows "tree_ok s g"
proof -
  note D = underfullD [OF U]
  note b = body_node [of "nodes s", OF nd]
  have "sized (file_header s) (nodes s) (gD g) (root_page (file_header s))"
  proof (rule sizedI)
    fix q lf its nb
    assume q: "q \<in> gD g" "body (nodes s) q = Some (lf, its, nb)"
    show "length its \<le> max_items (file_header s) lf \<and>
      (if q = root_page (file_header s) then if lf then 1 else 2 else max_items (file_header s) lf div 2) \<le> length its"
    proof (cases "q = p")
      case True
      then have "lf = is_leaf nd" "its = items nd" using q(2) b by simp_all
      then show ?thesis using sized_butD(1) [OF D(4) q] sz True by (simp split: if_splits)
    next
      case False
      then show ?thesis using sized_butD(1-3) [OF D(4) q] by simp
    qed
  qed
  then show ?thesis using D(1,2) by (simp add: tree_ok_def)
qed

lemma body_Some:
  assumes "shape N root g X eh" "q \<in> gD g"
  obtains nd where "N q = Some nd" "body N q = Some (is_leaf nd, items nd, next_brother nd)"
  using page_ok_node [OF shapeD(7) [OF assms]] body_node by metis

lemma half_max:
  assumes "4 \<le> leaf_max_size h" "6 \<le> internal_max_size h"
  shows "2 \<le> max_items h lf div 2" and "\<not> lf \<Longrightarrow> 3 \<le> max_items h lf div 2"
  using div_le_mono [OF assms(1), of 2] div_le_mono [OF assms(2), of 2] by (simp_all add: max_items_def)

section \<open>The root\<close>

lemma pool_ok_dispose:
  "pool_ok s D \<Longrightarrow> b \<in> D \<Longrightarrow> pool_ok (latch_dispose_page b s) (D - {b})"
  unfolding pool_ok_def latch_dispose_page_def by auto

lemma dispose_fields [simp]:
  "nodes (latch_dispose_page b s) = nodes s" "file_header (latch_dispose_page b s) = file_header s"
  "key_comparator (latch_dispose_page b s) = key_comparator s" "kept s0 (latch_dispose_page b s) = kept s0 s"
  by (simp_all add: latch_dispose_page_def kept_def)

lemma update_root_header: "file_header (update_root_page_num_locked r s) = (file_header s)\<lparr>root_page := r\<rparr>"
  "key_comparator (update_root_page_num_locked r s) = key_comparator s"
  by (simp_all add: update_root_page_num_locked_def mtr_log_def)

lemma levelsD: "levels g root \<Longrightarrow> p \<in> gD g \<Longrightarrow> glv g p \<le> glv g root"
  by (simp add: levels_def)

lemma only_root:
  assumes sh: "shape N root g {} (ghi g)" and lev: "levels g root" and lf: "glv g root = 0"
  shows "gD g = {root}"
proof (rule ccontr)
  assume "gD g \<noteq> {root}"
  then obtain c where c: "c \<in> gD g" "c \<noteq> root" using shapeD(1) [OF sh] by blast
  obtain p where p: "p \<in> gD g" "glv g p = Suc (glv g c)" by (rule child_index [OF sh c]) simp_all
  then have "glv g p \<le> 0" using lev lf by (auto simp: levels_def dest: bspec)
  then show False using p(2) by simp
qed

lemma coalesce_root:
  assumes U: "underfull s g p" and r: "p = root_page (file_header s)" and nd: "nodes s p = Some nd"
    and small: "node_size nd < min_size (file_header s) nd"
  shows "\<exists>s' h'. coalesce_or_redistribute lf p s = Some (SUCCESS, s') \<and> holds s' (contents (nodes s) g) h' \<and> kept s s'"
proof -
  note D = underfullD [OF U]
  have par: "parent nd = - 1" using shapeD(5) [OF D(2)] nd r by simp
  have step: "coalesce_or_redistribute lf p s =
      (if 1 < node_size nd then Some (SUCCESS, s) else do { s1 \<leftarrow> adjust_root p s; Some (SUCCESS, s1) })"
    using nd par small by (subst coalesce_or_redistribute.simps) (simp add: BP_INVALID_PAGE_NUM_def)
  note b = body_node [of "nodes s", OF nd]
  show ?thesis
  proof (cases "is_leaf nd \<and> 0 < node_size nd \<or> 1 < node_size nd")
    case True
    then have "tree_ok s g" by (intro underfull_full [OF U nd]) (use r in \<open>auto simp: Suc_le_eq\<close>)
    moreover have "coalesce_or_redistribute lf p s = Some (SUCCESS, s)"
      using True nd unfolding step by (auto simp: adjust_root_def)
    ultimately show ?thesis using holds_tree [of s g] kept_refl by blast
  next
    case False
    show ?thesis
    proof (cases "is_leaf nd")
      case True
      then have nil: "items nd = []" using False by simp
      let ?s' = "latch_dispose_page p (update_root_page_num_locked (- 1) s)"
      have run: "coalesce_or_redistribute lf p s = Some (SUCCESS, ?s')"
        unfolding step using nd True nil by (simp add: adjust_root_def BP_INVALID_PAGE_NUM_def)
      have "glv g p = 0" by (rule page_okD(2) [OF shapeD(7) [OF D(2,3)] nd True])
      then have D1: "gD g = {p}" using only_root [OF D(2,7)] r by simp
      have "contents (nodes s) g = {}"
      proof -
        have "leaves g \<subseteq> {p}" using D1 by (auto simp: leaves_def)
        then show ?thesis using page_items_node [of "nodes s" p nd, OF nd] nil by (auto simp: contents_def)
      qed
      moreover have "pool_ok ?s' {}" using pool_ok_dispose [of "update_root_page_num_locked (- 1) s" "{p}" p] D(9) D1 by simp
      then have "holds ?s' {} 0"
        using D(1) by (simp add: holds_def is_empty_def BP_INVALID_PAGE_NUM_def settled_def update_root_header)
      ultimately show ?thesis using run by (intro exI [of _ ?s'] exI [of _ 0]) simp
    next
      case inner: False
      have "1 \<le> node_size nd" using sized_butD(5) [OF D(4,3) b] r inner by simp
      then have "node_size nd = 1" using False by simp
      then obtain x where "items nd = [x]" by (auto simp: length_Suc_conv)
      moreover obtain c where "snd x = Page c" using inner_children(1) [OF D(2,3) nd inner] calculation by (auto simp: children_in_def)
      ultimately obtain k where its: "items nd = [(k, Page c)]" by (cases x) auto
      obtain cd where cd: "nodes s c = Some cd" using inner_children(1) [OF D(2,3) nd inner] by (auto simp: its children_in_def)
      let ?N = "(nodes s)(c \<mapsto> cd\<lparr>parent := - 1\<rparr>)"
      obtain es where e: "set_parent_page_num c (- 1) s = Some (edit s ?N es)" using set_parent_edit [of s c cd "- 1", OF cd] by blast
      let ?s' = "latch_dispose_page p (update_root_page_num_locked c (edit s ?N es))"
      have run: "coalesce_or_redistribute lf p s = Some (SUCCESS, ?s')"
        unfolding step using nd inner its e by (simp add: adjust_root_def value_at_def BP_INVALID_PAGE_NUM_def)
      define g' where "g' = g\<lparr>gD := gD g - {p}\<rparr>"
      note R = drop_root_shape [OF D(2) _ inner its cd, of g', folded r, OF nd g'_def]
      have cp: "c \<noteq> p" using R(3) by auto
      have bd: "body ?N q = body (nodes s) q" for q using cd by (simp add: body_def)
      have lvs: "leaves g' = leaves g" using R(3) by (auto simp: leaves_def g'_def)
      have sl: "same_leaves (nodes s) g ?N g'" by (rule same_leaves_inner) (use lvs bd in \<open>simp_all add: g'_def\<close>)
      have lev: "levels g' c"
        unfolding levels_def
      proof
        fix q
        assume q: "q \<in> gD g'"
        then have q': "q \<in> gD g" "q \<noteq> p" by (simp_all add: g'_def)
        obtain t where t: "t \<in> gD g" "glv g t = Suc (glv g q)" by (rule child_index [OF D(2) q'(1)]) (use q'(2) r in simp_all)
        then have "glv g t \<le> glv g p" using levelsD [OF D(7) t(1)] r by simp
        then show "glv g' q \<le> glv g' c" using t(2) R(3) by (simp add: g'_def)
      qed
      have st: "settled ?s' g'"
        by (rule settledI [OF D(1)])
          (use lev sl pool_ok_dispose [of "update_root_page_num_locked c (edit s ?N es)" "gD g" p] D(3,9) in \<open>simp_all add: g'_def\<close>)
      have "sized (file_header ?s') ?N (gD g') c"
      proof (rule sizedI)
        fix q lf' its' nb
        assume q: "q \<in> gD g'" "body ?N q = Some (lf', its', nb)"
        then have q': "q \<in> gD g" "q \<noteq> p" "body (nodes s) q = Some (lf', its', nb)" using bd by (simp_all add: g'_def)
        have "max_items (file_header ?s') lf' = max_items (file_header s) lf'" by (simp add: update_root_header max_items_def)
        moreover have "2 \<le> max_items (file_header s) lf' div 2" using half_max [OF D(5,6)] by simp
        ultimately show "length its' \<le> max_items (file_header ?s') lf' \<and>
          (if q = c then if lf' then 1 else 2 else max_items (file_header ?s') lf' div 2) \<le> length its'"
          using sized_butD(1,2) [OF D(4) q'(1,3)] q'(2) r by auto
      qed
      then have "tree_ok ?s' g'" using st R(1) by (simp add: tree_ok_def update_root_header)
      from holds_tree [OF this] have "\<exists>h. holds ?s' (contents (nodes s) g) h" using same_leaves_contents [OF sl] by auto
      moreover have "kept s ?s'" by simp
      ultimately show ?thesis using run by blast
    qed
  qed
qed

section \<open>Links and contents when neighbours change\<close>

lemma pred_unique:
  \<comment> \<open>only the left neighbour of a leaf links to it\<close>
  assumes sh: "shape N root g {} (ghi g)" and lev: "levels g root" and lk: "linked N g"
    and a: "a \<in> leaves g" "N a = Some ad" "items ad \<noteq> []" "ghi g a = Some r" and b: "glo g b = Some r"
    and q: "q \<in> leaves g" "body N q = Some (lf, its, b)" "its \<noteq> []" "b \<noteq> - 1"
  shows "q = a"
proof -
  have hq: "ghi g q = Some r" using linkedD(2) [OF lk q(1,2,4)] b by simp
  obtain x where x: "x \<in> set (items ad)" using a(3) by (cases "items ad") auto
  obtain qd where qd: "N q = Some qd" "leaf_ok (glo g q) (ghi g q) (items qd)" "body N q = Some (True, items qd, next_brother qd)" by (rule leafD [OF sh q(1)])
  obtain y where y: "y \<in> set (items qd)" using q(2,3) qd(3) by (cases its) auto
  have la: "leaf_ok (glo g a) (ghi g a) (items ad)" by (rule leafD [OF sh a(1)]) (use a(2) in simp)
  have X: "valid (fst x)" "above (glo g a) (irank x)" "below (ghi g a) (irank x)" using la x by (auto simp: leaf_ok_def)
  have Y: "valid (fst y)" "above (glo g q) (irank y)" "below (ghi g q) (irank y)" using qd(2) y by (auto simp: leaf_ok_def)
  have lv: "a \<in> gD g" "q \<in> gD g" "glv g a = glv g q" using a(1) q(1) by (simp_all add: leaves_def)
  have "a = q"
  proof (cases "above (glo g q) (irank x)")
    case True
    show ?thesis by (rule same_page [OF sh lev X(1) lv X(2,3) True]) (use X(3) hq a(4) in simp)
  next
    case False
    then have "above (glo g a) (irank y)" using X(2) Y(2) by (cases "glo g q"; cases "glo g a") auto
    then show ?thesis by (rule same_page [OF sh lev Y(1) lv _ _ Y(2,3)]) (use Y(3) hq a(4) in simp)
  qed
  then show ?thesis by simp
qed

definition same_entries :: "(int \<rightharpoonup> IndexNode) \<Rightarrow> 'r ghost \<Rightarrow> (int \<rightharpoonup> IndexNode) \<Rightarrow> 'r ghost \<Rightarrow> bool" where
  "same_entries N g N' g' \<longleftrightarrow> linked N' g' \<and> contents N' g' = contents N g"

lemma same_entries_inner: "linked N g \<Longrightarrow> same_leaves N g N' g' \<Longrightarrow> same_entries N g N' g'"
  using same_leaves_linked same_leaves_contents by (simp add: same_entries_def)

lemma shift_entries:
  assumes sh: "shape N root g {} (ghi g)" and lev: "levels g root" and lk: "linked N g"
    and a: "a \<in> leaves g" "N a = Some ad" "items ad \<noteq> []" "ghi g a = Some r" and b: "b \<in> leaves g" "N b = Some bd" "glo g b = Some r" "a \<noteq> b"
    and ne: "\<And>q lf its nb. q \<in> leaves g \<Longrightarrow> body N q = Some (lf, its, nb) \<Longrightarrow> its \<noteq> []"
    and lv: "leaves g' = leaves g" and gh: "glo g' = (glo g)(b := Some m)" "ghi g' = (ghi g)(a := Some m)"
    and bd': "\<And>q. q \<in> leaves g \<Longrightarrow> q \<noteq> a \<Longrightarrow> q \<noteq> b \<Longrightarrow> body N' q = body N q"
    and ab': "body N' a = Some (True, xs, next_brother ad)" "body N' b = Some (True, ys, next_brother bd)"
    and its: "set xs \<union> set ys = set (items ad) \<union> set (items bd)"
    and nx: "next_brother ad = b" and b1: "b \<noteq> - 1"
  shows "same_entries N g N' g'"
  unfolding same_entries_def
proof
  have old: "\<exists>its'. body N q = Some (lf, its', nb)" if h: "q \<in> leaves g" "body N' q = Some (lf, its, nb)" for q lf its nb
  proof -
    obtain nd where nd: "N q = Some nd" "body N q = Some (True, items nd, next_brother nd)" by (rule leafD [OF sh h(1)])
    show ?thesis using h nd bd' [of q] ab' a(2) b(2) by (cases "q = a"; cases "q = b") auto
  qed
  show "linked N' g'"
    unfolding linked_def
  proof (intro ballI allI impI)
    fix q lf its nb
    assume q: "q \<in> leaves g'" "body N' q = Some (lf, its, nb)"
    then have q': "q \<in> leaves g" using lv by simp
    obtain its' where o: "body N q = Some (lf, its', nb)" using old [OF q' q(2)] by blast
    note l = linkedD [OF lk q' o]
    show "if nb = - 1 then ghi g' q = None else nb \<in> leaves g' \<and> ghi g' q \<noteq> None \<and> glo g' nb = ghi g' q"
    proof (cases "q = a")
      case True
      then have "nb = b" using o a(2) nx by (auto simp: body_def)
      then show ?thesis using True b(1) b1 lv by (simp add: gh)
    next
      case False
      have "nb = b \<Longrightarrow> q = a"
        using pred_unique [OF sh lev lk a b(3) q', of lf its'] o ne [OF q' o] b1 by simp
      then show ?thesis using l False lv by (auto simp: gh)
    qed
  qed
  have "page_items N' a \<union> page_items N' b = page_items N a \<union> page_items N b"
    using ab' its page_items_node [of N a ad, OF a(2)] page_items_node [of N b bd, OF b(2)] by (simp add: page_items_def)
  moreover have "(\<Union>q\<in>leaves g - {a, b}. page_items N' q) = (\<Union>q\<in>leaves g - {a, b}. page_items N q)"
    by (rule SUP_cong [OF refl]) (use bd' in \<open>simp add: page_items_def\<close>)
  moreover have "leaves g = insert a (insert b (leaves g - {a, b}))" using a(1) b(1) by blast
  ultimately show "contents N' g' = contents N g"
    unfolding contents_def lv by (metis (no_types, lifting) UN_insert Un_assoc)
qed

lemma merge_entries:
  assumes sh: "shape N root g {} (ghi g)" and lev: "levels g root" and lk: "linked N g"
    and a: "a \<in> leaves g" "N a = Some ad" "items ad \<noteq> []" "ghi g a = Some r" and b: "b \<in> leaves g" "N b = Some bd" "glo g b = Some r" "a \<noteq> b"
    and ne: "\<And>q lf its nb. q \<in> leaves g \<Longrightarrow> body N q = Some (lf, its, nb) \<Longrightarrow> its \<noteq> []"
    and lv: "leaves g' = leaves g - {b}" and gh: "glo g' = glo g" "ghi g' = (ghi g)(a := ghi g b)"
    and bd': "\<And>q. q \<in> leaves g \<Longrightarrow> q \<noteq> a \<Longrightarrow> q \<noteq> b \<Longrightarrow> body N' q = body N q"
    and a': "body N' a = Some (True, items ad @ items bd, next_brother bd)" and b1: "b \<noteq> - 1"
  shows "same_entries N g N' g'"
  unfolding same_entries_def
proof
  have bb: "body N b = Some (True, items bd, next_brother bd)" using leafD [OF sh b(1)] b(2) by auto
  show "linked N' g'"
    unfolding linked_def
  proof (intro ballI allI impI)
    fix q lf its nb
    assume q: "q \<in> leaves g'" "body N' q = Some (lf, its, nb)"
    then have q': "q \<in> leaves g" "q \<noteq> b" using lv by simp_all
    show "if nb = - 1 then ghi g' q = None else nb \<in> leaves g' \<and> ghi g' q \<noteq> None \<and> glo g' nb = ghi g' q"
    proof (cases "q = a")
      case True
      then have nb: "nb = next_brother bd" using q(2) a' by simp
      note l = linkedD [OF lk b(1) bb]
      have "nb \<noteq> b"
      proof
        assume "nb = b"
        then have "ghi g b = glo g b" using l(2) nb b1 by simp
        moreover have "nonempty (glo g b) (ghi g b)" using shapeD(8) [OF sh, of b] b(1) by (simp add: leaves_def)
        ultimately show False using b(3) by simp
      qed
      then show ?thesis using l nb True lv by (auto simp: gh)
    next
      case False
      then have o: "body N q = Some (lf, its, nb)" using bd' q' q(2) by simp
      have "nb \<noteq> b"
        using pred_unique [OF sh lev lk a b(3) q'(1), of lf its] o ne [OF q'(1) o] b1 False by auto
      then show ?thesis using linkedD [OF lk q'(1) o] False lv by (auto simp: gh)
    qed
  qed
  have "page_items N' a = page_items N a \<union> page_items N b"
    using a' page_items_node [of N a ad, OF a(2)] page_items_node [of N b bd, OF b(2)] by (simp add: page_items_def)
  moreover have "(\<Union>q\<in>leaves g - {a, b}. page_items N' q) = (\<Union>q\<in>leaves g - {a, b}. page_items N q)"
    by (rule SUP_cong [OF refl]) (use bd' in \<open>simp add: page_items_def\<close>)
  moreover have "leaves g = insert a (insert b (leaves g - {a, b}))" "leaves g - {b} = insert a (leaves g - {a, b})" using a(1) b(1,4) by blast+
  ultimately show "contents N' g' = contents N g"
    unfolding contents_def lv by (metis (no_types, lifting) UN_insert Un_assoc)
qed

section \<open>A page and its neighbour\<close>

lemma last_key:
  \<comment> \<open>the last key of a page is in its interval\<close>
  assumes U: "underfull s g p" and nd: "nodes s p = Some nd" and nr: "p \<noteq> root_page (file_header s)"
  obtains k where "key_at nd (node_size nd - 1) = Some k" "valid k" "above (glo g p) (rank k)" "below (ghi g p) (rank k)" "node_size nd \<noteq> 0"
proof -
  note D = underfullD [OF U]
  note b = body_node [of "nodes s", OF nd]
  note po = shapeD(7) [OF D(2,3)]
  have two: "2 \<le> max_items (file_header s) (is_leaf nd) div 2" by (rule half_max(1) [OF D(5,6)])
  then have ne: "items nd \<noteq> []" using sized_butD(4) [OF D(4,3) b] nr by auto
  let ?x = "last (items nd)"
  have k: "key_at nd (node_size nd - 1) = Some (fst ?x)" using ne by (simp add: key_at_def last_conv_nth)
  have "valid (fst ?x) \<and> above (glo g p) (irank ?x) \<and> below (ghi g p) (irank ?x)"
  proof (cases "is_leaf nd")
    case True
    then show ?thesis using page_okD(3) [OF po nd True] ne by (simp add: leaf_ok_def)
  next
    case False
    note i = page_okD(5) [OF po nd False]
    have "2 \<le> node_size nd" using sized_butD(4) [OF D(4,3) b] nr half_max(2) [OF D(5,6) False] by simp
    then have "?x \<in> set (tl (items nd))" by (cases "items nd") auto
    then have "valid (fst ?x)" "nonempty (glo g p) (Some (irank ?x))" "below (ghi g p) (irank ?x)"
      using inner_okD(2) [OF i] kids_ascending(2) [OF kids_ne [OF D(2) i]] by blast+
    then show ?thesis by (cases "glo g p") auto
  qed
  then show thesis using that [OF k] ne by simp
qed

lemma sibling_step:
  assumes U: "underfull s g p" and nr: "p \<noteq> root_page (file_header s)" and nd: "nodes s p = Some nd"
    and small: "node_size nd < min_size (file_header s) nd"
  obtains pp pd as ka a kb b bs index neighbor ad bd where "pp \<in> gD g" "nodes s pp = Some pd" "\<not> is_leaf pd"
    "items pd = as @ (ka, Page a) # (kb, Page b) # bs" "nodes s a = Some ad" "nodes s b = Some bd" "pp \<noteq> p" "glv g pp = Suc (glv g p)"
    "index = 0 \<and> as = [] \<and> p = a \<and> neighbor = b \<or> index = Suc (length as) \<and> p = b \<and> neighbor = a"
    "coalesce_or_redistribute lf p s =
      (if max_size (file_header s) nd < node_size ad + node_size bd then do { s1 \<leftarrow> redistribute lf neighbor p pp index s; Some (SUCCESS, s1) }
       else do { s1 \<leftarrow> coalesce lf neighbor p pp index s; coalesce_or_redistribute False pp s1 })"
proof -
  note D = underfullD [OF U]
  obtain pp pd as0 kp bs0 where pp: "pp \<in> gD g" "nodes s pp = Some pd" "\<not> is_leaf pd" "map_option parent (nodes s p) = Some pp"
    "glv g pp = Suc (glv g p)" "items pd = as0 @ (kp, Page p) # bs0"
    by (rule child_index [OF D(2,3) nr]) simp_all
  note i = page_okD(5) [OF shapeD(7) [OF D(2) pp(1)] pp(2,3)]
  have ppp: "pp \<noteq> p" using pp(5) by auto
  have pm: "pp \<noteq> - 1" using pp(1) D(11) by auto
  have par: "parent nd = pp" using pp(4) nd by simp
  have two: "2 \<le> node_size pd"
  proof -
    note b = body_node [of "nodes s", OF pp(2)]
    show ?thesis using sized_butD(2,3) [OF D(4) pp(1) b] ppp pp(3) half_max(1) [OF D(5,6), of False]
      by (cases "pp = root_page (file_header s)") auto
  qed
  obtain k where k: "key_at nd (node_size nd - 1) = Some k" "valid k" "above (glo g p) (rank k)" "below (ghi g p) (rank k)" "node_size nd \<noteq> 0"
    by (rule last_key [OF U nd nr])
  have j: "length as0 < node_size pd" "snd (items pd ! length as0) = Page p" using pp(6) by simp_all
  define index where "index = length as0"
  have look: "fst (internal_lookup cmp pd k) = index" unfolding index_def by (rule lookup_at(1) [OF D(2) pp(1-3) k(2) j k(3,4)])
  have vi: "value_at pd index = Some p" using j by (simp add: value_at_def index_def)
  have small': "\<not> min_size (file_header s) nd \<le> node_size nd" using small by simp
  have run: "coalesce_or_redistribute lf p s = do {
      neighbor \<leftarrow> value_at pd (case index of 0 \<Rightarrow> 1 | Suc i \<Rightarrow> i);
      nn \<leftarrow> nodes s neighbor;
      if max_size (file_header s) nd < node_size nd + node_size nn
      then do { s1 \<leftarrow> redistribute lf neighbor p pp index s; Some (SUCCESS, s1) }
      else do { s1 \<leftarrow> coalesce lf neighbor p pp index s; coalesce_or_redistribute False pp s1 } }"
    unfolding coalesce_or_redistribute.simps [of lf p s]
    by (simp only: nd Option.bind.bind_lunit small' if_False par pm BP_INVALID_PAGE_NUM_def pp(2) k(1,5) D(10) look vi simp_thms)
  have child: "\<exists>c cd. v = Page c \<and> nodes s c = Some cd" if "(kv, v) \<in> set (items pd)" for kv v
    using inner_children(1) [OF D(2) pp(1-3)] that by (fastforce simp: children_in_def)
  show thesis
  proof (cases "as0 = []")
    case True
    then obtain y bs where bs: "bs0 = y # bs" using two pp(6) by (cases bs0) auto
    obtain kb b bd where b: "y = (kb, Page b)" "nodes s b = Some bd" using child [of "fst y" "snd y"] pp(6) bs by (cases y) auto
    have its: "items pd = [] @ (kp, Page p) # (kb, Page b) # bs" using pp(6) True bs b by simp
    have "value_at pd 1 = Some b" using its by (simp add: value_at_def)
    then have "coalesce_or_redistribute lf p s =
      (if max_size (file_header s) nd < node_size nd + node_size bd then do { s1 \<leftarrow> redistribute lf b p pp 0 s; Some (SUCCESS, s1) }
       else do { s1 \<leftarrow> coalesce lf b p pp 0 s; coalesce_or_redistribute False pp s1 })"
      unfolding run using True b(2) by (simp add: index_def)
    then show thesis using that [OF pp(1-3) its nd b(2) ppp pp(5), of 0 b] by simp
  next
    case False
    obtain as y where as: "as0 = as @ [y]" using False by (metis append_butlast_last_id)
    obtain ka a ad where a: "y = (ka, Page a)" "nodes s a = Some ad" using child [of "fst y" "snd y"] pp(6) as by (cases y) auto
    have its: "items pd = as @ (ka, Page a) # (kp, Page p) # bs0" using pp(6) as a by simp
    have "value_at pd (length as) = Some a" using its by (simp add: value_at_def)
    then have "coalesce_or_redistribute lf p s =
      (if max_size (file_header s) nd < node_size ad + node_size nd then do { s1 \<leftarrow> redistribute lf a p pp (Suc (length as)) s; Some (SUCCESS, s1) }
       else do { s1 \<leftarrow> coalesce lf a p pp (Suc (length as)) s; coalesce_or_redistribute False pp s1 })"
      unfolding run using as a(2) by (simp add: index_def add.commute)
    then show thesis using that [OF pp(1-3) its a(2) nd ppp pp(5), of "Suc (length as)" a] by simp
  qed
qed

text \<open>The facts about two adjacent pages that both cases use.\<close>

lemma pair_facts:
  assumes U: "underfull s g p" and nr: "p \<noteq> root_page (file_header s)" and pp: "pp \<in> gD g" "nodes s pp = Some pd" "\<not> is_leaf pd"
    and its: "items pd = as @ (ka, Page a) # (kb, Page b) # bs" and ab: "nodes s a = Some ad" "nodes s b = Some bd" "p = a \<or> p = b"
  shows "a \<in> gD g" "b \<in> gD g" "a \<noteq> b" "pp \<noteq> a" "pp \<noteq> b" "a \<noteq> root_page (file_header s)" "b \<noteq> root_page (file_header s)" "b \<noteq> - 1"
    "Suc (glv g a) = glv g pp" "glv g b = glv g a" "is_leaf bd = is_leaf ad" "ghi g a = Some (rank kb)" "glo g b = Some (rank kb)" "valid kb"
    "items ad \<noteq> []" "items bd \<noteq> []"
    "node_size ad \<le> max_items (file_header s) (is_leaf ad)" "node_size bd \<le> max_items (file_header s) (is_leaf ad)"
    "p \<noteq> a \<Longrightarrow> max_items (file_header s) (is_leaf ad) div 2 \<le> node_size ad" "p \<noteq> b \<Longrightarrow> max_items (file_header s) (is_leaf ad) div 2 \<le> node_size bd"
    "p = a \<Longrightarrow> max_items (file_header s) (is_leaf ad) div 2 \<le> Suc (node_size ad)" "p = b \<Longrightarrow> max_items (file_header s) (is_leaf ad) div 2 \<le> Suc (node_size bd)"
proof -
  note D = underfullD [OF U]
  have a': "is_leaf (ad\<lparr>items := items ad @ items bd\<rparr>) = is_leaf ad" "parent (ad\<lparr>items := items ad @ items bd\<rparr>) = parent ad"
    "items (ad\<lparr>items := items ad @ items bd\<rparr>) = items ad @ items bd" by simp_all
  note M = merge_shape [OF D(2) refl pp its ab(1,2) a' refl refl]
  show m: "a \<in> gD g" "b \<in> gD g" "a \<noteq> b" "pp \<noteq> a" "pp \<noteq> b" "b \<noteq> root_page (file_header s)"
    "Suc (glv g a) = glv g pp" "glv g b = glv g a" "is_leaf bd = is_leaf ad" "ghi g a = Some (rank kb)" "glo g b = Some (rank kb)" "valid kb"
    using M(2-13) by simp_all
  show ar: "a \<noteq> root_page (file_header s)" using m(10) shapeD(4) [OF D(2)] by auto
  show "b \<noteq> - 1" using m(2) D(11) by auto
  note ba = body_node [of "nodes s", OF ab(1)] and bb = body_node [of "nodes s", OF ab(2)]
  note sa = sized_butD [OF D(4) m(1) ba] and sb = sized_butD [OF D(4) m(2) bb, unfolded m(9)]
  show "node_size ad \<le> max_items (file_header s) (is_leaf ad)" "node_size bd \<le> max_items (file_header s) (is_leaf ad)"
    "p \<noteq> a \<Longrightarrow> max_items (file_header s) (is_leaf ad) div 2 \<le> node_size ad" "p \<noteq> b \<Longrightarrow> max_items (file_header s) (is_leaf ad) div 2 \<le> node_size bd"
    "p = a \<Longrightarrow> max_items (file_header s) (is_leaf ad) div 2 \<le> Suc (node_size ad)" "p = b \<Longrightarrow> max_items (file_header s) (is_leaf ad) div 2 \<le> Suc (node_size bd)"
    using sa(1,2,4) sb(1,2,4) ar m(6) by auto
  have "2 \<le> max_items (file_header s) (is_leaf ad) div 2" by (rule half_max(1) [OF D(5,6)])
  then show "items ad \<noteq> []" "items bd \<noteq> []" using sa(2,4) sb(2,4) ar m(6) by (cases "p = a"; cases "p = b"; force)+
qed

section \<open>Redistribution\<close>

lemma redistribute_run:
  assumes U: "underfull s g p" and nr: "p \<noteq> root_page (file_header s)" and pp: "pp \<in> gD g" "nodes s pp = Some pd" "\<not> is_leaf pd"
    and its: "items pd = as @ (ka, Page a) # (kb, Page b) # bs" and ab: "nodes s a = Some ad" "nodes s b = Some bd"
    and which: "index = 0 \<and> as = [] \<and> p = a \<and> neighbor = b \<or> index = Suc (length as) \<and> p = b \<and> neighbor = a"
    and small: "nodes s p = Some nd" "node_size nd < min_size (file_header s) nd"
    and big: "max_size (file_header s) nd < node_size ad + node_size bd"
  obtains xs k v ys es where "redistribute (is_leaf nd) neighbor p pp index s = Some (edit s ((reparent ((k, v) # ys) b (reparent (items bd) a (nodes s)))
      (pp \<mapsto> pd\<lparr>items := as @ (ka, Page a) # (k, Page b) # bs\<rparr>, a \<mapsto> ad\<lparr>items := xs\<rparr>, b \<mapsto> bd\<lparr>items := (k, v) # ys\<rparr>)) es)"
    "items ad @ items bd = xs @ (k, v) # ys" "xs \<noteq> []"
    "length xs \<le> max_items (file_header s) (is_leaf ad)" "length ((k, v) # ys) \<le> max_items (file_header s) (is_leaf ad)"
    "max_items (file_header s) (is_leaf ad) div 2 \<le> length xs" "max_items (file_header s) (is_leaf ad) div 2 \<le> length ((k, v) # ys)"
proof -
  note D = underfullD [OF U]
  have "p = a \<or> p = b" using which by blast
  note F = pair_facts [OF U nr pp its ab this]
  let ?M = "max_items (file_header s) (is_leaf ad)"
  have ms: "max_size (file_header s) nd = ?M" "is_leaf nd = is_leaf ad" using which small(1) ab F(11) by (auto simp: max_size_def max_items_def)
  have half: "2 \<le> ?M div 2" by (rule half_max(1) [OF D(5,6)])
  from which show thesis
  proof
    assume w: "index = 0 \<and> as = [] \<and> p = a \<and> neighbor = b"
    then have nda: "nd = ad" using small(1) ab by simp
    have sza: "node_size ad < ?M - ?M div 2" using small(2) ms nda by (simp add: min_size_def)
    then have szb: "?M div 2 < node_size bd" using big ms by linarith
    obtain x zs where xz: "items bd = x # zs" using F(16) by (cases "items bd") auto
    then obtain k v ys where zs: "zs = (k, v) # ys" using half szb by (cases zs) auto
    have x: "items bd = x # (k, v) # ys" using xz zs by simp
    obtain es where "redistribute (is_leaf bd) b a pp 0 s = Some (edit s ((reparent ((k, v) # ys) b (reparent (items bd) a (nodes s)))
      (pp \<mapsto> pd\<lparr>items := (ka, Page a) # (k, Page b) # bs\<rparr>, a \<mapsto> ad\<lparr>items := items ad @ [x]\<rparr>, b \<mapsto> bd\<lparr>items := (k, v) # ys\<rparr>)) es)"
      using redistribute_first [OF D(2) pp _ ab F(1-5,10,9) x] its w by auto
    then show thesis
      by (intro that [of k v ys "items ad @ [x]" es]) (use w ms F(11,17,18,21) sza szb x half in auto)
  next
    assume w: "index = Suc (length as) \<and> p = b \<and> neighbor = a"
    then have ndb: "nd = bd" using small(1) ab by simp
    have szb: "node_size bd < ?M - ?M div 2" using small(2) ms ndb by (simp add: min_size_def)
    then have sza: "?M div 2 < node_size ad" using big ms by linarith
    obtain xs k v where x: "items ad = xs @ [(k, v)]" using F(15) by (metis append_butlast_last_id prod.collapse)
    obtain es where "redistribute (is_leaf ad) a b pp (Suc (length as)) s = Some (edit s ((reparent ((k, v) # items bd) b (reparent (items bd) a (nodes s)))
      (pp \<mapsto> pd\<lparr>items := as @ (ka, Page a) # (k, Page b) # bs\<rparr>, a \<mapsto> ad\<lparr>items := xs\<rparr>, b \<mapsto> bd\<lparr>items := (k, v) # items bd\<rparr>)) es)"
      using redistribute_last [OF D(2) pp its ab F(1-5,10,9) x] by auto
    then show thesis
      by (intro that [of k v "items bd" xs es]) (use w ms F(17,18,22) sza szb x half in auto)
  qed
qed

lemma redistribute_ok:
  assumes U: "underfull s g p" and nr: "p \<noteq> root_page (file_header s)" and pp: "pp \<in> gD g" "nodes s pp = Some pd" "\<not> is_leaf pd"
    and its: "items pd = as @ (ka, Page a) # (kb, Page b) # bs" and ab: "nodes s a = Some ad" "nodes s b = Some bd"
    and which: "index = 0 \<and> as = [] \<and> p = a \<and> neighbor = b \<or> index = Suc (length as) \<and> p = b \<and> neighbor = a"
    and small: "nodes s p = Some nd" "node_size nd < min_size (file_header s) nd"
    and big: "max_size (file_header s) nd < node_size ad + node_size bd"
  shows "\<exists>s' g'. redistribute (is_leaf nd) neighbor p pp index s = Some s' \<and> tree_ok s' g' \<and> contents (nodes s') g' = contents (nodes s) g \<and> kept s s'"
proof -
  note D = underfullD [OF U]
  have "p = a \<or> p = b" using which by blast
  note F = pair_facts [OF U nr pp its ab this]
  obtain xs k v ys es where R: "redistribute (is_leaf nd) neighbor p pp index s = Some (edit s ((reparent ((k, v) # ys) b (reparent (items bd) a (nodes s)))
      (pp \<mapsto> pd\<lparr>items := as @ (ka, Page a) # (k, Page b) # bs\<rparr>, a \<mapsto> ad\<lparr>items := xs\<rparr>, b \<mapsto> bd\<lparr>items := (k, v) # ys\<rparr>)) es)"
    and eq: "items ad @ items bd = xs @ (k, v) # ys" "xs \<noteq> []"
    and sz: "length xs \<le> max_items (file_header s) (is_leaf ad)" "length ((k, v) # ys) \<le> max_items (file_header s) (is_leaf ad)"
    "max_items (file_header s) (is_leaf ad) div 2 \<le> length xs" "max_items (file_header s) (is_leaf ad) div 2 \<le> length ((k, v) # ys)"
    by (rule redistribute_run [OF U nr pp its ab which small big])
  let ?root = "root_page (file_header s)"
  let ?pd = "pd\<lparr>items := as @ (ka, Page a) # (k, Page b) # bs\<rparr>"
  let ?N = "(reparent ((k, v) # ys) b (reparent (items bd) a (nodes s)))(pp \<mapsto> ?pd, a \<mapsto> ad\<lparr>items := xs\<rparr>, b \<mapsto> bd\<lparr>items := (k, v) # ys\<rparr>)"
  define g' where "g' = g\<lparr>glo := (glo g)(b := Some (rank k)), ghi := (ghi g)(a := Some (rank k))\<rparr>"
  have sh: "shape ?N ?root g' {} (ghi g')" by (rule shift_shape [OF D(2) pp its ab eq refl g'_def])
  have bd': "body ?N q = (if q = b then Some (is_leaf ad, (k, v) # ys, next_brother bd) else if q = a then Some (is_leaf ad, xs, next_brother ad)
      else if q = pp then Some (False, as @ (ka, Page a) # (k, Page b) # bs, next_brother pd) else body (nodes s) q)" for q
    using F(3-5,11) pp(3) by (simp add: body_upd body_reparent)
  have lv: "leaves g' = leaves g" by (simp add: leaves_def g'_def)
  have pl: "pp \<notin> leaves g" using F(9) by (auto simp: leaves_def)
  have ent: "same_entries (nodes s) g ?N g'"
  proof (cases "is_leaf ad")
    case True
    have al: "a \<in> leaves g" "b \<in> leaves g" using leaf_in_leaves [OF D(2)] F(1,2,11) ab True by auto
    have ne: "its' \<noteq> []" if q: "q \<in> leaves g" "body (nodes s) q = Some (lf, its', nb)" for q lf its' nb
    proof -
      have qD: "q \<in> gD g" using q(1) by (simp add: leaves_def)
      have "q = ?root \<Longrightarrow> pp = ?root"
        using levelsD [OF D(7) pp(1)] F(9) q(1) by (auto simp: leaves_def)
      then have "q \<noteq> ?root" using q(1) pl by auto
      then show ?thesis using sized_butD(2,4) [OF D(4) qD q(2)] half_max(1) [OF D(5,6), of lf] by (cases "q = p") auto
    qed
    note bA = body_node [of "nodes s", OF ab(1)]
    have nx: "next_brother ad = b"
    proof -
      note l = linkedD [OF D(8) al(1) bA]
      have n1: "next_brother ad \<noteq> - 1" using l(1) F(12) by auto
      then have n: "next_brother ad \<in> leaves g" "glo g (next_brother ad) = Some (rank kb)" using l(2) F(12) by auto
      have nn: "nonempty (glo g q) (ghi g q)" if "q \<in> leaves g" for q using shapeD(8) [OF D(2), of q] that by (simp add: leaves_def)
      have "below (ghi g b) (rank kb)" "below (ghi g (next_brother ad)) (rank kb)" using nn [OF al(2)] nn [OF n(1)] F(13) n(2) by simp_all
      then show ?thesis
        using same_page [OF D(2,7) F(14), of "next_brother ad" b] n F(13) al(2) by (simp add: leaves_def)
    qed
    show ?thesis
    proof (rule shift_entries [OF D(2,7,8) al(1) ab(1) F(15,12) al(2) ab(2) F(13,3) ne lv])
      show "glo g' = (glo g)(b := Some (rank k))" "ghi g' = (ghi g)(a := Some (rank k))" by (simp_all add: g'_def)
      show "body ?N q = body (nodes s) q" if "q \<in> leaves g" "q \<noteq> a" "q \<noteq> b" for q using that pl by (auto simp: bd')
      show "body ?N a = Some (True, xs, next_brother ad)" "body ?N b = Some (True, (k, v) # ys, next_brother bd)" using True F(3) by (simp_all add: bd')
      show "set xs \<union> set ((k, v) # ys) = set (items ad) \<union> set (items bd)" using arg_cong [OF eq(1), of set] by simp
    qed (use nx F(8) in simp_all)
  next
    case False
    have "a \<notin> leaves g" "b \<notin> leaves g"
      using page_okD(4) [OF shapeD(7) [OF D(2) F(1)] ab(1) False] F(10) by (auto simp: leaves_def)
    then have "same_leaves (nodes s) g ?N g'"
      by (intro same_leaves_inner) (use lv pl bd' in \<open>auto simp: g'_def\<close>)
    then show ?thesis by (rule same_entries_inner [OF D(8)])
  qed
  have szd: "sized (file_header s) ?N (gD g') ?root"
  proof (rule sizedI)
    fix q lf its' nb
    assume q: "q \<in> gD g'" "body ?N q = Some (lf, its', nb)"
    have qD: "q \<in> gD g" using q(1) by (simp add: g'_def)
    show "length its' \<le> max_items (file_header s) lf \<and> (if q = ?root then if lf then 1 else 2 else max_items (file_header s) lf div 2) \<le> length its'"
    proof (cases "q = a \<or> q = b")
      case True
      then have "lf = is_leaf ad" "its' = xs \<or> its' = (k, v) # ys" "q \<noteq> ?root" using q(2) F(6,7) by (auto simp: bd' split: if_splits)
      then show ?thesis using sz by auto
    next
      case False
      have "\<exists>its0. body (nodes s) q = Some (lf, its0, nb) \<and> length its' = length its0"
        using q(2) False its body_node [of "nodes s", OF pp(2)] pp(3) by (auto simp: bd' split: if_splits)
      then obtain its0 where o: "body (nodes s) q = Some (lf, its0, nb)" "length its' = length its0" by blast
      have "q \<noteq> p" using False \<open>p = a \<or> p = b\<close> by auto
      then show ?thesis using sized_butD(1-3) [OF D(4) qD o(1)] o(2) by simp
    qed
  qed
  have "settled (edit s ?N es) g'"
    using D(1,7) ent by (simp add: settled_def same_entries_def g'_def levels_def)
  then have "tree_ok (edit s ?N es) g'" using sh szd by (simp add: tree_ok_def)
  then show ?thesis using R ent by (intro exI [of _ "edit s ?N es"] exI [of _ g']) (simp add: same_entries_def)
qed

section \<open>Merging\<close>

lemma coalesce_ok:
  assumes U: "underfull s g p" and nr: "p \<noteq> root_page (file_header s)" and pp: "pp \<in> gD g" "nodes s pp = Some pd" "\<not> is_leaf pd"
    and its: "items pd = as @ (ka, Page a) # (kb, Page b) # bs" and ab: "nodes s a = Some ad" "nodes s b = Some bd"
    and which: "index = 0 \<and> as = [] \<and> p = a \<and> neighbor = b \<or> index = Suc (length as) \<and> p = b \<and> neighbor = a"
    and small: "nodes s p = Some nd" and fits: "\<not> max_size (file_header s) nd < node_size ad + node_size bd"
  obtains s' g' pd' where "coalesce (is_leaf nd) neighbor p pp index s = Some s'" "underfull s' g' pp"
    "contents (nodes s') g' = contents (nodes s) g" "kept s s'" "file_header s' = file_header s"
    "glv g' = glv g" "nodes s' pp = Some pd'" "\<not> is_leaf pd'"
proof -
  note D = underfullD [OF U]
  have "p = a \<or> p = b" using which by blast
  note F = pair_facts [OF U nr pp its ab this]
  let ?root = "root_page (file_header s)" and ?M = "max_items (file_header s) (is_leaf ad)"
  have ms: "max_size (file_header s) nd = ?M" "is_leaf nd = is_leaf ad" using which small(1) ab F(11) by (auto simp: max_size_def max_items_def)
  define a' where "a' = (if is_leaf ad then ad\<lparr>next_brother := next_brother bd, items := items ad @ items bd\<rparr> else ad\<lparr>items := items ad @ items bd\<rparr>)"
  have a's: "is_leaf a' = is_leaf ad" "parent a' = parent ad" "items a' = items ad @ items bd" by (simp_all add: a'_def)
  let ?pd = "pd\<lparr>items := as @ (ka, Page a) # bs\<rparr>"
  define Nm where "Nm = (reparent (items bd) a (nodes s))(a \<mapsto> a', pp \<mapsto> ?pd)"
  let ?N = "Nm(b \<mapsto> bd\<lparr>items := []\<rparr>)"
  obtain es where R: "coalesce (is_leaf ad) neighbor p pp index s = Some (latch_dispose_page b (edit s ?N es))"
    using coalesce_edit [OF D(2) pp its ab F(1-5,10,9,11) which a'_def] unfolding Nm_def by blast
  define g' where "g' = g\<lparr>gD := gD g - {b}, ghi := (ghi g)(a := ghi g b)\<rparr>"
  note M = merge_shape [OF D(2) refl pp its ab a's Nm_def g'_def]
  have sh: "shape ?N ?root g' {} (ghi g')" by (rule shape_outside [OF M(1)]) (auto simp: g'_def)
  have bd': "body ?N q = (if q = b then Some (is_leaf ad, [], next_brother bd) else if q = pp then Some (False, as @ (ka, Page a) # bs, next_brother pd)
      else if q = a then Some (is_leaf ad, items ad @ items bd, next_brother a') else body (nodes s) q)" for q
    using F(3-5,11) pp(3) a's by (simp add: Nm_def body_upd body_reparent)
  have pl: "pp \<notin> leaves g" using F(9) by (auto simp: leaves_def)
  have lv: "leaves g' = leaves g - {b}" by (auto simp: leaves_def g'_def)
  have ent: "same_entries (nodes s) g ?N g'"
  proof (cases "is_leaf ad")
    case True
    have al: "a \<in> leaves g" "b \<in> leaves g" using leaf_in_leaves [OF D(2)] F(1,2,11) ab True by auto
    have ne: "its' \<noteq> []" if q: "q \<in> leaves g" "body (nodes s) q = Some (lf, its', nb)" for q lf its' nb
    proof -
      have qD: "q \<in> gD g" using q(1) by (simp add: leaves_def)
      have "q = ?root \<Longrightarrow> pp = ?root"
        using levelsD [OF D(7) pp(1)] F(9) q(1) by (auto simp: leaves_def)
      then have "q \<noteq> ?root" using q(1) pl by auto
      then show ?thesis using sized_butD(2,4) [OF D(4) qD q(2)] half_max(1) [OF D(5,6), of lf] by (cases "q = p") auto
    qed
    show ?thesis
    proof (rule merge_entries [OF D(2,7,8) al(1) ab(1) F(15,12) al(2) ab(2) F(13,3) ne lv])
      show "glo g' = glo g" "ghi g' = (ghi g)(a := ghi g b)" by (simp_all add: g'_def)
      show "body ?N q = body (nodes s) q" if "q \<in> leaves g" "q \<noteq> a" "q \<noteq> b" for q using that pl by (auto simp: bd')
      show "body ?N a = Some (True, items ad @ items bd, next_brother bd)" using True F(3,4) by (simp add: bd' a'_def)
    qed (use F(8) in simp_all)
  next
    case False
    have nl: "a \<notin> leaves g" "b \<notin> leaves g"
      using page_okD(4) [OF shapeD(7) [OF D(2) F(1)] ab(1) False] F(10) by (auto simp: leaves_def)
    then have "leaves g' = leaves g" using lv by auto
    then have "same_leaves (nodes s) g ?N g'"
      by (intro same_leaves_inner) (use pl bd' nl in \<open>auto simp: g'_def\<close>)
    then show ?thesis by (rule same_entries_inner [OF D(8)])
  qed
  have szd: "sized_but (file_header s) ?N (gD g') ?root pp"
  proof (rule sized_butI)
    fix q lf its' nb
    assume q: "q \<in> gD g'" "body ?N q = Some (lf, its', nb)"
    have qD: "q \<in> gD g" "q \<noteq> b" using q(1) by (simp_all add: g'_def)
    show "length its' \<le> max_items (file_header s) lf \<and>
      (if q = ?root then if lf then 1 else 2 else max_items (file_header s) lf div 2) - (if q = pp then 1 else 0) \<le> length its'"
    proof (cases "q = pp")
      case True
      have l: "\<not> lf" "length its' = node_size pd - 1" using q(2) True qD(2) its by (auto simp: bd')
      have "pp \<noteq> p" using F(4,5) \<open>p = a \<or> p = b\<close> by auto
      then show ?thesis using sized_butD(1,2,3) [OF D(4) pp(1) body_node [of "nodes s", OF pp(2)]] pp(3) l True by auto
    next
      case False
      show ?thesis
      proof (cases "q = a")
        case True
        then have l: "lf = is_leaf ad" "its' = items ad @ items bd" using q(2) qD(2) F(4) by (simp_all add: bd')
        have "?M div 2 \<le> node_size ad \<or> ?M div 2 \<le> node_size bd" using F(19,20) F(3) \<open>p = a \<or> p = b\<close> by auto
        then show ?thesis using l True F(6) fits ms False by auto
      next
        case qa: False
        then have o: "body (nodes s) q = Some (lf, its', nb)" using q(2) qD(2) False by (simp add: bd')
        have "q \<noteq> p" using \<open>p = a \<or> p = b\<close> qa qD(2) by auto
        then show ?thesis using sized_butD(1-3) [OF D(4) qD(1) o] False by simp
      qed
    qed
  qed
  let ?s' = "latch_dispose_page b (edit s ?N es)"
  have rD: "?root \<in> gD g" by (rule shapeD(1) [OF D(2)])
  have st: "settled ?s' g'"
    using D(1,7) ent pool_ok_dispose [of "edit s ?N es" "gD g" b] D(9) F(2)
    by (simp add: settled_def same_entries_def g'_def levels_def)
  have "underfull ?s' g' pp"
    using st sh szd D(5,6) pp(1) F(5) by (simp add: underfull_def g'_def)
  moreover have "nodes ?s' pp = Some ?pd" using F(5) by (simp add: Nm_def)
  ultimately show thesis
    by (intro that [of ?s' g' ?pd]) (use R ms ent pp(3) in \<open>simp_all add: same_entries_def g'_def\<close>)
qed

section \<open>The climb\<close>

lemma coalesce_or_redistribute_ok:
  "underfull s g p \<Longrightarrow> nodes s p = Some nd \<Longrightarrow> lf = is_leaf nd \<Longrightarrow>
   \<exists>s' h'. coalesce_or_redistribute lf p s = Some (SUCCESS, s') \<and> holds s' (contents (nodes s) g) h' \<and> kept s s'"
proof (induction "glv g (root_page (file_header s)) - glv g p" arbitrary: s g p nd lf rule: less_induct)
  case (less s g p nd lf)
  note U = less(2) and nd = less(3) and D = underfullD [OF less(2)]
  let ?root = "root_page (file_header s)"
  show ?case
  proof (cases "min_size (file_header s) nd \<le> node_size nd")
    case True
    have "tree_ok s g"
    proof (rule underfull_full [OF U nd])
      have ms: "min_size (file_header s) nd = max_items (file_header s) (is_leaf nd) - max_items (file_header s) (is_leaf nd) div 2"
        by (simp add: min_size_def max_size_def max_items_def)
      moreover have "2 \<le> max_items (file_header s) (is_leaf nd) div 2" by (rule half_max(1) [OF D(5,6)])
      ultimately show "if p = ?root then if is_leaf nd then 1 \<le> node_size nd else 2 \<le> node_size nd
             else max_items (file_header s) (is_leaf nd) div 2 \<le> node_size nd"
        using True by auto
    qed
    moreover have "coalesce_or_redistribute lf p s = Some (SUCCESS, s)" using True nd by (subst coalesce_or_redistribute.simps) simp
    ultimately show ?thesis using holds_tree [of s g] kept_refl by blast
  next
    case False
    then have small: "node_size nd < min_size (file_header s) nd" by simp
    show ?thesis
    proof (cases "p = ?root")
      case True
      show ?thesis by (rule coalesce_root [OF U True nd small])
    next
      case nr: False
      obtain pp pd as ka a kb b bs index neighbor ad bd where S: "pp \<in> gD g" "nodes s pp = Some pd" "\<not> is_leaf pd"
        "items pd = as @ (ka, Page a) # (kb, Page b) # bs" "nodes s a = Some ad" "nodes s b = Some bd" "pp \<noteq> p" "glv g pp = Suc (glv g p)"
        "index = 0 \<and> as = [] \<and> p = a \<and> neighbor = b \<or> index = Suc (length as) \<and> p = b \<and> neighbor = a"
        and run: "coalesce_or_redistribute lf p s =
          (if max_size (file_header s) nd < node_size ad + node_size bd then do { s1 \<leftarrow> redistribute lf neighbor p pp index s; Some (SUCCESS, s1) }
           else do { s1 \<leftarrow> coalesce lf neighbor p pp index s; coalesce_or_redistribute False pp s1 })"
        by (rule sibling_step [OF U nr nd small])
      show ?thesis
      proof (cases "max_size (file_header s) nd < node_size ad + node_size bd")
        case True
        obtain s' g' where "redistribute (is_leaf nd) neighbor p pp index s = Some s'" "tree_ok s' g'"
          "contents (nodes s') g' = contents (nodes s) g" "kept s s'"
          using redistribute_ok [OF U nr S(1-6,9) nd small True] by blast
        then show ?thesis using run True less(4) holds_tree [of s' g'] by auto
      next
        case fits: False
        obtain s1 g1 pd1 where C: "coalesce (is_leaf nd) neighbor p pp index s = Some s1" "underfull s1 g1 pp"
          "contents (nodes s1) g1 = contents (nodes s) g" "kept s s1" "file_header s1 = file_header s"
          "glv g1 = glv g" "nodes s1 pp = Some pd1" "\<not> is_leaf pd1"
          by (rule coalesce_ok [OF U nr S(1-6,9) nd fits])
        have "glv g p < glv g ?root" using levelsD [OF D(7) S(1)] S(8) by simp
        then have lt: "glv g1 (root_page (file_header s1)) - glv g1 pp < glv g ?root - glv g p" using C(5,6) S(8) by simp
        obtain s' h' where "coalesce_or_redistribute False pp s1 = Some (SUCCESS, s')" "holds s' (contents (nodes s1) g1) h'" "kept s1 s'"
          using less(1) [OF lt C(2,7), of False] C(8) by blast
        then show ?thesis using run fits C(1,3,4) less(4) kept_trans by auto
      qed
    qed
  qed
qed

end

end
