(* ===== verification/Bplus_Correct.thy ===== *)
theory Bplus_Correct
  imports Bplus_Coalesce
begin

text \<open>
  \<^verbatim>\<open>BplusTreeHandler::insert_entry\<close> and \<^verbatim>\<open>delete_entry\<close> as operations on the set of the items of the tree, with the end
  of their mini transaction.
\<close>

context key_order
begin

section \<open>Deletion at a leaf\<close>

lemma contents_other:
  \<comment> \<open>the items of a leaf are in no other leaf\<close>
  assumes sh: "shape N root g {} (ghi g)" and lev: "levels g root" and p: "p \<in> leaves g" "N p = Some nd" and x: "x \<in> set (items nd)"
  shows "x \<notin> (\<Union>q\<in>leaves g - {p}. page_items N q)"
proof
  assume "x \<in> (\<Union>q\<in>leaves g - {p}. page_items N q)"
  then obtain q where q: "q \<in> leaves g" "q \<noteq> p" "x \<in> page_items N q" by blast
  obtain qd where qd: "N q = Some qd" "leaf_ok (glo g q) (ghi g q) (items qd)" by (rule leafD [OF sh q(1)])
  have lp: "leaf_ok (glo g p) (ghi g p) (items nd)" by (rule leafD [OF sh p(1)]) (use p(2) in simp)
  have xq: "x \<in> set (items qd)" using q(3) page_items_node [of N q qd, OF qd(1)] by simp
  have "valid (fst x)" "above (glo g p) (irank x)" "below (ghi g p) (irank x)" "above (glo g q) (irank x)" "below (ghi g q) (irank x)"
    using lp x qd(2) xq by (auto simp: leaf_ok_def)
  then have "p = q" using same_page [OF sh lev, of "fst x" p q] p(1) q(1) by (simp add: leaves_def)
  then show False using q(2) by simp
qed

lemma ascending_remove:
  assumes asc: "ascending (xs @ x # ys)"
  shows "ascending (xs @ ys)" and "set (xs @ ys) = set (xs @ x # ys) - {x}"
proof -
  have d: "\<forall>y\<in>set xs \<union> set ys. irank y \<noteq> irank x" using asc by (auto simp: ascending_def sorted_wrt_append)
  then show "set (xs @ ys) = set (xs @ x # ys) - {x}" by auto
  show "ascending (xs @ ys)" using asc by (auto simp: ascending_def sorted_wrt_append)
qed

lemma remove_from_leaf:
  assumes T: "tree_ok s g" and big: "4 \<le> leaf_max_size (file_header s)" "6 \<le> internal_max_size (file_header s)"
    and p: "p \<in> leaves g" "nodes s p = Some nd" and its: "items nd = xs @ x # ys"
  shows "underfull (edit s ((nodes s)(p \<mapsto> nd\<lparr>items := xs @ ys\<rparr>)) es) g p"
    and "contents ((nodes s)(p \<mapsto> nd\<lparr>items := xs @ ys\<rparr>)) g = contents (nodes s) g - {x}"
proof -
  note D = tree_okD [OF T]
  have pD: "p \<in> gD g" using p(1) by (simp add: leaves_def)
  have lf: "is_leaf nd" "leaf_ok (glo g p) (ghi g p) (items nd)" using leafD [OF D(2) p(1)] p(2) by auto
  let ?nd = "nd\<lparr>items := xs @ ys\<rparr>" and ?root = "root_page (file_header s)"
  let ?N = "(nodes s)(p \<mapsto> ?nd)"
  note rm = ascending_remove [of xs x ys]
  have asc: "ascending (xs @ x # ys)" using lf(2) its by (simp add: leaf_ok_def)
  have lok: "leaf_ok (glo g p) (ghi g p) (items ?nd)" using lf(2) rm(1) [OF asc] unfolding leaf_ok_def its by auto
  have sh: "shape ?N ?root g {} (ghi g)" by (rule leaf_update_shape [OF D(2) pD p(2) lf(1)]) (use lf(1) lok in simp_all)
  have bd: "body ?N q = (if q = p then Some (True, xs @ ys, next_brother nd) else body (nodes s) q)" for q using lf(1) by (simp add: body_upd)
  note bp = body_node [of "nodes s", OF p(2)]
  have lk: "linked ?N g"
    unfolding linked_def
  proof (intro ballI allI impI)
    fix q lf' its' nb
    assume q: "q \<in> leaves g" "body ?N q = Some (lf', its', nb)"
    have "\<exists>its0. body (nodes s) q = Some (lf', its0, nb)" using q(2) bp lf(1) by (auto simp: bd split: if_splits)
    then show "if nb = - 1 then ghi g q = None else nb \<in> leaves g \<and> ghi g q \<noteq> None \<and> glo g nb = ghi g q"
      using linkedD [OF D(5) q(1)] by auto
  qed
  have sz: "sized_but (file_header s) ?N (gD g) ?root p"
  proof (rule sized_butI)
    fix q lf' its' nb
    assume q: "q \<in> gD g" "body ?N q = Some (lf', its', nb)"
    show "length its' \<le> max_items (file_header s) lf' \<and>
      (if q = ?root then if lf' then 1 else 2 else max_items (file_header s) lf' div 2) - (if q = p then 1 else 0) \<le> length its'"
    proof (cases "q = p")
      case True
      then have "lf'" "node_size nd = Suc (length its')" using q(2) its by (auto simp: bd)
      then show ?thesis using sizedD [OF D(3) pD bp] lf(1) True by auto
    next
      case False
      then have "body (nodes s) q = Some (lf', its', nb)" using q(2) by (simp add: bd)
      then show ?thesis using sizedD [OF D(3) q(1)] False by auto
    qed
  qed
  show "underfull (edit s ?N es) g p"
    unfolding underfull_def settled_def edit_fields pool_ok_edit using sh lk sz D big pD by (intro conjI)
  have l: "leaves g = insert p (leaves g - {p})" using p(1) by blast
  have "contents ?N g = set (xs @ ys) \<union> (\<Union>q\<in>leaves g - {p}. page_items (nodes s) q)"
    unfolding contents_def by (subst l, subst UN_insert) (simp add: page_items_upd)
  moreover have "contents (nodes s) g = set (items nd) \<union> (\<Union>q\<in>leaves g - {p}. page_items (nodes s) q)"
    unfolding contents_def by (subst l, subst UN_insert) (simp add: page_items_node [of "nodes s" p nd, OF p(2)])
  moreover have "x \<notin> (\<Union>q\<in>leaves g - {p}. page_items (nodes s) q)"
    by (rule contents_other [OF D(2,4) p]) (simp add: its)
  ultimately show "contents ?N g = contents (nodes s) g - {x}" using rm(2) [OF asc] its by auto
qed

lemma delete_key_ok:
  assumes H: "holds s C h" and k: "valid k" and big: "4 \<le> leaf_max_size (file_header s)" "6 \<le> internal_max_size (file_header s)"
  shows "\<not> (\<exists>x\<in>C. irank x = rank k) \<Longrightarrow> delete_key k s = Some (RECORD_NOT_EXIST, s)"
    and "x \<in> C \<Longrightarrow> irank x = rank k \<Longrightarrow> \<exists>s' h'. delete_key k s = Some (SUCCESS, s') \<and> holds s' (C - {x}) h' \<and> kept s s'"
proof -
  have *: "(\<not> (\<exists>x\<in>C. irank x = rank k) \<longrightarrow> delete_key k s = Some (RECORD_NOT_EXIST, s)) \<and>
    (\<forall>x\<in>C. irank x = rank k \<longrightarrow> (\<exists>s' h'. delete_key k s = Some (SUCCESS, s') \<and> holds s' (C - {x}) h' \<and> kept s s'))"
  proof (cases "is_empty s")
    case True
    then have "C = {}" using H by (simp add: holds_def)
    moreover have "delete_key k s = Some (RECORD_NOT_EXIST, s)" using True by (simp add: delete_key_def find_leaf_def find_leaf_internal_def)
    ultimately show ?thesis by simp
  next
    case ne: False
    obtain g where g: "tree_ok s g" "C = contents (nodes s) g" using H ne by (auto simp: holds_def)
    note D = tree_okD [OF g(1)]
    obtain leaf nd where F: "find_leaf k s = Some (SUCCESS, leaf)" "leaf \<in> gD g" "nodes s leaf = Some nd" "is_leaf nd"
      "above (glo g leaf) (rank k)" "below (ghi g leaf) (rank k)"
      by (rule find_leaf_ok [OF D(2) D(7) k])
    have lv: "leaf \<in> leaves g" by (rule leaf_in_leaves [OF D(2) F(2-4)])
    have lok: "leaf_ok (glo g leaf) (ghi g leaf) (items nd)" using leafD [OF D(2) lv] F(3) by auto
    have asc: "ascending (items nd)" and val: "\<forall>x\<in>set (items nd). valid (fst x)" using lok by (auto simp: leaf_ok_def)
    obtain pos found where look: "leaf_lookup cmp nd k = (pos, found)" by fastforce
    note lb = lower_bound_items [OF asc val k look [unfolded leaf_lookup_def]]
    have mem: "x \<in> C \<longleftrightarrow> x \<in> set (items nd)" if "irank x = rank k" for x
      using contents_iff [OF D(2) D(4) k lv F(3,5,6) that] g(2) by simp
    have run: "delete_key k s = delete_entry_internal leaf k s" using F(1) by (simp add: delete_key_def)
    show ?thesis
    proof (cases found)
      case False
      then have "\<not> (\<exists>x\<in>C. irank x = rank k)" using lb(4) mem by blast
      moreover have "delete_key k s = Some (RECORD_NOT_EXIST, s)"
        unfolding run using F(3) look False D(7) by (simp add: delete_entry_internal_def leaf_remove_key_def)
      ultimately show ?thesis by blast
    next
      case True
      then have pos: "pos < node_size nd" "irank (items nd ! pos) = rank k" using lb(5) by auto
      have its: "items nd = take pos (items nd) @ (items nd ! pos) # drop (Suc pos) (items nd)" by (rule id_take_nth_drop [OF pos(1)])
      let ?nd = "nd\<lparr>items := take pos (items nd) @ drop (Suc pos) (items nd)\<rparr>"
      let ?N = "(nodes s)(leaf \<mapsto> ?nd)"
      obtain es where e: "node_remove_items leaf pos 1 s = Some (edit s ?N es)"
        using remove_items_edit [of s leaf nd pos 1] F(3) pos(1) by auto
      let ?s1 = "edit s ?N es"
      note R = remove_from_leaf(1) [OF g(1) big lv F(3) its, of es] remove_from_leaf(2) [OF g(1) big lv F(3) its]
      have "delete_key k s = (if min_size (file_header s) ?nd \<le> node_size ?nd then Some (SUCCESS, ?s1) else coalesce_or_redistribute True leaf ?s1)"
        unfolding run using F(3) look True D(7) e pos(1)
        by (simp add: delete_entry_internal_def leaf_remove_key_def node_remove_at_def)
      also have "... = coalesce_or_redistribute True leaf ?s1"
      proof (cases "min_size (file_header s) ?nd \<le> node_size ?nd")
        case True
        then show ?thesis unfolding coalesce_or_redistribute.simps [of True leaf ?s1] by simp
      qed (simp only: if_False)
      finally have run': "delete_key k s = coalesce_or_redistribute True leaf ?s1" .
      have lf1: "True = is_leaf ?nd" using F(4) by simp
      obtain s' h' where S: "coalesce_or_redistribute True leaf ?s1 = Some (SUCCESS, s')" "holds s' (contents ?N g) h'" "kept ?s1 s'"
        using coalesce_or_redistribute_ok [OF R(1) _ lf1] by auto
      have uniq: "x = items nd ! pos" if "x \<in> C" "irank x = rank k" for x
      proof -
        have "x \<in> set (items nd)" using mem that by blast
        then obtain i where i: "i < node_size nd" "x = items nd ! i" by (auto simp: in_set_conv_nth)
        have "\<not> i < pos" using lb(2) [of i] i(2) that(2) by auto
        moreover have "\<not> pos < i"
          using asc i pos that(2) unfolding ascending_def sorted_wrt_iff_nth_less by fastforce
        ultimately show ?thesis using i(2) by (metis linorder_neqE_nat)
      qed
      have kp: "kept s s'" using S(3) by (rule kept_trans [rotated]) simp
      have ct: "contents ?N g = C - {items nd ! pos}" using R(2) g(2) by simp
      have inC: "items nd ! pos \<in> C" using mem [OF pos(2)] pos(1) by simp
      show ?thesis
      proof (intro conjI ballI impI)
        assume "\<not> (\<exists>x\<in>C. irank x = rank k)"
        then show "delete_key k s = Some (RECORD_NOT_EXIST, s)" using inC pos(2) by blast
      next
        fix x
        assume "x \<in> C" "irank x = rank k"
        then have "x = items nd ! pos" by (rule uniq)
        then have "holds s' (C - {x}) h'" using S(2) ct by simp
        then show "\<exists>s' h'. delete_key k s = Some (SUCCESS, s') \<and> holds s' (C - {x}) h' \<and> kept s s'"
          using run' S(1) kp by (intro exI [of _ s'] exI [of _ h']) simp
      qed
    qed
  qed
  show "\<not> (\<exists>x\<in>C. irank x = rank k) \<Longrightarrow> delete_key k s = Some (RECORD_NOT_EXIST, s)" using * by blast
  show "x \<in> C \<Longrightarrow> irank x = rank k \<Longrightarrow> \<exists>s' h'. delete_key k s = Some (SUCCESS, s') \<and> holds s' (C - {x}) h' \<and> kept s s'" using * by blast
qed

section \<open>The end of the mini transaction\<close>

lemma set_fold_insort [simp]: "set (fold insort xs ys) = set xs \<union> set ys"
  by (induction xs arbitrary: ys) (auto simp: set_insort_key)

lemma distinct_fold_insort: "distinct ys \<Longrightarrow> distinct xs \<Longrightarrow> set xs \<inter> set ys = {} \<Longrightarrow> distinct (fold insort xs ys)"
  by (induction xs arbitrary: ys) (auto simp: distinct_insort set_insort_key)

lemma pool_ok_release: "pool_ok s D \<Longrightarrow> pool_ok (latch_release s) D"
  using distinct_fold_insort [of "free_pages s" "disposed_pages s"] unfolding pool_ok_def latch_release_def by auto

lemma release_fields [simp]:
  "nodes (latch_release s) = nodes s" "file_header (latch_release s) = file_header s" "key_comparator (latch_release s) = key_comparator s"
  "logged (latch_release s) = logged s" "wal (latch_release s) = wal s" "max_pages (latch_release s) = max_pages s"
  by (simp_all add: latch_release_def)

lemma tree_ok_release: "tree_ok s g \<Longrightarrow> tree_ok (latch_release s) g"
  by (simp add: tree_ok_def settled_def pool_ok_release)

lemma holds_release:
  assumes "holds s C h"
  shows "holds (latch_release s) C h"
proof (cases "is_empty s")
  case True
  then show ?thesis using assms pool_ok_release [of s "{}"] by (simp add: holds_def is_empty_def)
next
  case False
  then obtain g where "tree_ok s g" "C = contents (nodes s) g" "h = glv g (root_page (file_header s))" using assms by (auto simp: holds_def)
  then show ?thesis using holds_tree [OF tree_ok_release, of s g] by simp
qed

lemma commit_fields [simp]:
  "nodes (mtr_commit s) = nodes s" "file_header (mtr_commit s) = file_header s" "key_comparator (mtr_commit s) = key_comparator s"
  "pool_ok (mtr_commit s) D = pool_ok s D" "logged (mtr_commit s) = []"
  by (simp_all add: mtr_commit_def pool_ok_def)

lemma tree_ok_commit: "tree_ok (mtr_commit s) g = tree_ok s g"
  by (simp add: tree_ok_def settled_def)

lemma holds_commit: "holds s C h \<Longrightarrow> holds (mtr_commit s) C h"
  unfolding holds_def is_empty_def tree_ok_commit commit_fields .

lemma mtr_end_success: "mtr_end (Some (SUCCESS, s)) = Some (SUCCESS, latch_release (mtr_commit s))"
  by (simp add: mtr_end_def)

lemma mtr_end_clean:
  assumes "logged s = []" "rc \<noteq> SUCCESS"
  shows "mtr_end (Some (rc, s)) = Some (rc, latch_release s)"
proof -
  have eq: "s\<lparr>logged := []\<rparr> = s" using assms(1) by (cases s) simp
  show ?thesis using assms by (simp add: mtr_end_def mtr_rollback_def OB_SUCC_def eq)
qed

lemma insert_entry_ok:
  assumes H: "holds s C h" "logged s = []" and key: "make_key s u r = Some k" "valid k" and rm: "Suc h < room s"
  shows "(\<exists>x\<in>C. irank x = rank k) \<Longrightarrow> insert_entry (Some u) (Some r) s = Some (RECORD_DUPLICATE_KEY, latch_release s)"
    and "\<not> (\<exists>x\<in>C. irank x = rank k) \<Longrightarrow> \<exists>s' h'. insert_entry (Some u) (Some r) s = Some (SUCCESS, s') \<and>
      holds s' (insert (k, Rid r) C) h' \<and> logged s' = [] \<and>
      (file_header s')\<lparr>root_page := 0\<rparr> = (file_header s)\<lparr>root_page := 0\<rparr>"
proof -
  note I = insert_key_ok [OF H(1) key(2) rm, where rid = r]
  show "insert_entry (Some u) (Some r) s = Some (RECORD_DUPLICATE_KEY, latch_release s)" if "\<exists>x\<in>C. irank x = rank k"
    using I(1) [OF that] key(1) H(2) by (simp add: insert_entry_def mtr_end_clean)
  show "\<exists>s' h'. insert_entry (Some u) (Some r) s = Some (SUCCESS, s') \<and> holds s' (insert (k, Rid r) C) h' \<and> logged s' = [] \<and>
      (file_header s')\<lparr>root_page := 0\<rparr> = (file_header s)\<lparr>root_page := 0\<rparr>"
    if new: "\<not> (\<exists>x\<in>C. irank x = rank k)"
  proof -
    obtain s1 h1 where "insert_key k r s = Some (SUCCESS, s1)" "holds s1 (insert (k, Rid r) C) h1" "kept s s1" using I(2) [OF new] by blast
    then show ?thesis using key(1)
      by (intro exI [of _ "latch_release (mtr_commit s1)"] exI [of _ h1]) (simp add: insert_entry_def mtr_end_success holds_release holds_commit kept_def)
  qed
qed

lemma delete_entry_ok:
  assumes H: "holds s C h" "logged s = []" and key: "make_key s u r = Some k" "valid k"
    and big: "4 \<le> leaf_max_size (file_header s)" "6 \<le> internal_max_size (file_header s)"
  shows "\<not> (\<exists>x\<in>C. irank x = rank k) \<Longrightarrow> delete_entry u r s = Some (RECORD_NOT_EXIST, latch_release s)"
    and "x \<in> C \<Longrightarrow> irank x = rank k \<Longrightarrow> \<exists>s' h'. delete_entry u r s = Some (SUCCESS, s') \<and> holds s' (C - {x}) h' \<and> logged s' = [] \<and>
      (file_header s')\<lparr>root_page := 0\<rparr> = (file_header s)\<lparr>root_page := 0\<rparr>"
proof -
  note I = delete_key_ok [OF H(1) key(2) big]
  show "delete_entry u r s = Some (RECORD_NOT_EXIST, latch_release s)" if "\<not> (\<exists>x\<in>C. irank x = rank k)"
    using I(1) [OF that] key(1) H(2) by (simp add: delete_entry_def mtr_end_clean)
  show "\<exists>s' h'. delete_entry u r s = Some (SUCCESS, s') \<and> holds s' (C - {x}) h' \<and> logged s' = [] \<and>
      (file_header s')\<lparr>root_page := 0\<rparr> = (file_header s)\<lparr>root_page := 0\<rparr>" if old: "x \<in> C" "irank x = rank k"
  proof -
    obtain s1 h1 where "delete_key k s = Some (SUCCESS, s1)" "holds s1 (C - {x}) h1" "kept s s1" using I(2) [OF old] by blast
    then show ?thesis using key(1)
      by (intro exI [of _ "latch_release (mtr_commit s1)"] exI [of _ h1]) (simp add: delete_entry_def mtr_end_success holds_release holds_commit kept_def)
  qed
qed

end

end
