(* ===== verification/Bplus_Scanner.thy ===== *)
theory Bplus_Scanner
  imports Bplus_Correct
begin

text \<open>
  \<^verbatim>\<open>BplusTreeScanner\<close> and \<^verbatim>\<open>BplusTreeHandler::get_entry\<close> (\<^verbatim>\<open>bplus_tree.cpp\<close>), and what they return on a well formed
  tree: the RIDs of the items between the two keys, in the order of the keys.

  A user key is the memory from its address on: \<open>open\<close> compares the two user keys with the key comparator, which reads the
  RIDs behind the attributes. Latches are not modelled, so \<^verbatim>\<open>try_slatch\<close> succeeds.
\<close>

section \<open>The scanner\<close>

record BplusTreeScanner =
  inited :: bool
  first_emitted :: bool
  current_frame :: "int option"
  iter_index :: int
  right_key :: "key option"

definition new_scanner :: BplusTreeScanner where
  "new_scanner = \<lparr>inited = False, first_emitted = False, current_frame = None, iter_index = - 1, right_key = None\<rparr>"

definition RID_min :: RID where
  "RID_min = RID 0 0"

definition RID_max :: RID where
  "RID_max = RID (2 ^ 31 - 1) (2 ^ 31 - 1)"

definition touch_end :: "BplusTree \<Rightarrow> BplusTreeScanner \<Rightarrow> bool option" where
  "touch_end s sc =
     (case right_key sc of
        None \<Rightarrow> Some False
      | Some rk \<Rightarrow> do {
          f \<leftarrow> current_frame sc;
          nd \<leftarrow> nodes s f;
          this_key \<leftarrow> (if iter_index sc < 0 then None else key_at nd (nat (iter_index sc)));
          Some (0 < key_comparator s this_key rk)
        })"

definition fetch_item :: "BplusTree \<Rightarrow> BplusTreeScanner \<Rightarrow> RID option" where
  "fetch_item s sc = do {
     f \<leftarrow> current_frame sc;
     nd \<leftarrow> nodes s f;
     if iter_index sc < 0 then None else leaf_value_at nd (nat (iter_index sc))
   }"

definition scanner_finish_open :: "BplusTree \<Rightarrow> byte list option \<Rightarrow> bool \<Rightarrow> BplusTreeScanner \<Rightarrow> (rc \<times> BplusTreeScanner) option" where
  \<comment> \<open>\<^verbatim>\<open>open\<close> from the right key on\<close>
  "scanner_finish_open s right_user_key right_inclusive sc = do {
     sc1 \<leftarrow> (case right_user_key of
               None \<Rightarrow> Some (sc\<lparr>right_key := None\<rparr>)
             | Some u \<Rightarrow> do { k \<leftarrow> make_key s u (if right_inclusive then RID_max else RID_min); Some (sc\<lparr>right_key := Some k\<rparr>) });
     e \<leftarrow> touch_end s sc1;
     Some (SUCCESS, if e then sc1\<lparr>current_frame := None\<rparr> else sc1)
   }"

definition scanner_open ::
  "BplusTree \<Rightarrow> byte list option \<Rightarrow> bool \<Rightarrow> byte list option \<Rightarrow> bool \<Rightarrow> BplusTreeScanner \<Rightarrow> (rc \<times> BplusTreeScanner) option" where
  "scanner_open s left_user_key left_inclusive right_user_key right_inclusive sc =
     (if inited sc then Some (INTERNAL, sc)
      else let sc0 = sc\<lparr>inited := True, first_emitted := False\<rparr> in
        if (case (left_user_key, right_user_key) of
              (Some l, Some r) \<Rightarrow> 0 < key_comparator s l r \<or> (key_comparator s l r = 0 \<and> (\<not> left_inclusive \<or> \<not> right_inclusive))
            | _ \<Rightarrow> False)
        then Some (INVALID_ARGUMENT, sc0)
        else case left_user_key of
          None \<Rightarrow> do {
            (rc, leaf) \<leftarrow> left_most_page s;
            if rc = EMPTY then Some (SUCCESS, sc0\<lparr>current_frame := None\<rparr>)
            else if OB_FAIL rc then Some (rc, sc0)
            else scanner_finish_open s right_user_key right_inclusive (sc0\<lparr>current_frame := Some leaf, iter_index := 0\<rparr>)
          }
        | Some u \<Rightarrow> do {
            k \<leftarrow> make_key s u (if left_inclusive then RID_min else RID_max);
            (rc, leaf) \<leftarrow> find_leaf k s;
            if rc = EMPTY then Some (SUCCESS, sc0\<lparr>current_frame := None\<rparr>)
            else if OB_FAIL rc then Some (rc, sc0)
            else do {
              nd \<leftarrow> nodes s leaf;
              let left_index = fst (leaf_lookup (key_comparator s) nd k);
              if node_size nd \<le> left_index
              then if next_brother nd = BP_INVALID_PAGE_NUM then Some (SUCCESS, sc0\<lparr>current_frame := None\<rparr>)
                   else scanner_finish_open s right_user_key right_inclusive (sc0\<lparr>current_frame := Some (next_brother nd), iter_index := 0\<rparr>)
              else scanner_finish_open s right_user_key right_inclusive (sc0\<lparr>current_frame := Some leaf, iter_index := int left_index\<rparr>)
            }
          })"

partial_function (option) next_entry :: "BplusTree \<Rightarrow> BplusTreeScanner \<Rightarrow> (rc \<times> RID option \<times> BplusTreeScanner) option" where
  \<comment> \<open>\<open>first_emitted\<close> is set when the function calls itself\<close>
  "next_entry s sc =
     (case current_frame sc of
        None \<Rightarrow> Some (RECORD_EOF, None, sc)
      | Some f \<Rightarrow>
          if \<not> first_emitted sc then do { rid \<leftarrow> fetch_item s sc; Some (SUCCESS, Some rid, sc\<lparr>first_emitted := True\<rparr>) }
          else do {
            nd \<leftarrow> nodes s f;
            if iter_index sc + 1 < int (node_size nd)
            then do {
              e \<leftarrow> touch_end s (sc\<lparr>iter_index := iter_index sc + 1\<rparr>);
              if e then Some (RECORD_EOF, None, sc\<lparr>iter_index := iter_index sc + 1\<rparr>)
              else do {
                rid \<leftarrow> fetch_item s (sc\<lparr>iter_index := iter_index sc + 1\<rparr>);
                Some (SUCCESS, Some rid, sc\<lparr>iter_index := iter_index sc + 1\<rparr>)
              }
            }
            else if next_brother nd = BP_INVALID_PAGE_NUM then Some (RECORD_EOF, None, sc\<lparr>iter_index := iter_index sc + 1\<rparr>)
            else next_entry s (sc\<lparr>current_frame := Some (next_brother nd), iter_index := - 1\<rparr>)
          })"

declare next_entry.simps [code]

partial_function (option) fetch_all :: "BplusTree \<Rightarrow> BplusTreeScanner \<Rightarrow> RID list \<Rightarrow> (rc \<times> RID list) option" where
  \<comment> \<open>the loop of a caller that reads the scanner to its end\<close>
  "fetch_all s sc rids = do {
     (rc, rid, sc1) \<leftarrow> next_entry s sc;
     if rc = SUCCESS then do { r \<leftarrow> rid; fetch_all s sc1 (rids @ [r]) } else Some (rc, rids)
   }"

declare fetch_all.simps [code]

definition scan ::
  "BplusTree \<Rightarrow> byte list option \<Rightarrow> bool \<Rightarrow> byte list option \<Rightarrow> bool \<Rightarrow> (rc \<times> RID list) option" where
  "scan s left_user_key left_inclusive right_user_key right_inclusive = do {
     (rc, sc) \<leftarrow> scanner_open s left_user_key left_inclusive right_user_key right_inclusive new_scanner;
     if OB_FAIL rc then Some (rc, [])
     else do { (rc, rids) \<leftarrow> fetch_all s sc []; Some (if rc = RECORD_EOF then SUCCESS else rc, rids) }
   }"

definition get_entry :: "byte list \<Rightarrow> BplusTree \<Rightarrow> (rc \<times> RID list) option" where
  "get_entry user_key s = scan s (Some user_key) True (Some user_key) True"

section \<open>The chain of the leaves\<close>

inductive chain :: "(int \<rightharpoonup> IndexNode) \<Rightarrow> int \<Rightarrow> item list \<Rightarrow> bool" for N where
  last: "chain N p (items nd)" if "N p = Some nd" "items nd \<noteq> []" "next_brother nd = - 1"
| step: "chain N p (items nd @ L)" if "N p = Some nd" "items nd \<noteq> []" "next_brother nd \<noteq> - 1" "chain N (next_brother nd) L"

definition chain_tail :: "(int \<rightharpoonup> IndexNode) \<Rightarrow> IndexNode \<Rightarrow> item list \<Rightarrow> bool" where
  "chain_tail N nd L \<longleftrightarrow> (if next_brother nd = - 1 then L = [] else chain N (next_brother nd) L)"

lemma chain_split:
  assumes "chain N p L"
  obtains nd L' where "N p = Some nd" "items nd \<noteq> []" "chain_tail N nd L'" "L = items nd @ L'"
  using assms by cases (auto simp: chain_tail_def)

definition positioned :: "(int \<rightharpoonup> IndexNode) \<Rightarrow> BplusTreeScanner \<Rightarrow> item list \<Rightarrow> bool" where
  \<comment> \<open>the scanner stands at the first of the items \<open>R\<close>\<close>
  "positioned N sc R \<longleftrightarrow> (\<exists>p nd i L. current_frame sc = Some p \<and> iter_index sc = int i \<and> N p = Some nd \<and> i < node_size nd \<and>
     R = drop i (items nd) @ L \<and> chain_tail N nd L)"

definition item_rid :: "item \<Rightarrow> RID" where
  "item_rid x = (case snd x of Rid r \<Rightarrow> r | Page _ \<Rightarrow> RID_min)"

definition beyond :: "BplusTree \<Rightarrow> BplusTreeScanner \<Rightarrow> item \<Rightarrow> bool" where
  "beyond s sc x = (case right_key sc of None \<Rightarrow> False | Some rk \<Rightarrow> 0 < key_comparator s (fst x) rk)"

definition all_rids :: "item list \<Rightarrow> bool" where
  "all_rids R \<longleftrightarrow> (\<forall>x\<in>set R. \<exists>r. snd x = Rid r)"

lemma positioned_hd:
  assumes "positioned (nodes s) sc (x # R)" and "all_rids (x # R)"
  shows "touch_end s sc = Some (beyond s sc x)" and "fetch_item s sc = Some (item_rid x)"
proof -
  obtain p nd i L where p: "current_frame sc = Some p" "iter_index sc = int i" "nodes s p = Some nd" "i < node_size nd"
    "x # R = drop i (items nd) @ L" using assms(1) by (auto simp: positioned_def)
  have x: "items nd ! i = x" using p(4,5) by (metis Cons_nth_drop_Suc append_Cons list.inject)
  obtain r where r: "snd x = Rid r" using assms(2) by (auto simp: all_rids_def)
  show "touch_end s sc = Some (beyond s sc x)"
    using p x by (cases "right_key sc") (simp_all add: touch_end_def beyond_def key_at_def)
  show "fetch_item s sc = Some (item_rid x)" using p x r by (simp add: fetch_item_def leaf_value_at_def item_rid_def)
qed

lemma positioned_next:
  assumes pos: "positioned (nodes s) sc (x # R)" and rids: "all_rids (x # R)" and fe: "first_emitted sc"
  shows "R = [] \<Longrightarrow> \<exists>sc'. next_entry s sc = Some (RECORD_EOF, None, sc')"
    and "R = y # R' \<Longrightarrow> beyond s sc y \<Longrightarrow> \<exists>sc'. next_entry s sc = Some (RECORD_EOF, None, sc')"
    and "R = y # R' \<Longrightarrow> \<not> beyond s sc y \<Longrightarrow> \<exists>sc'. next_entry s sc = Some (SUCCESS, Some (item_rid y), sc') \<and>
      positioned (nodes s) sc' R \<and> first_emitted sc' \<and> right_key sc' = right_key sc"
proof -
  obtain p nd i L where p: "current_frame sc = Some p" "iter_index sc = int i" "nodes s p = Some nd" "i < node_size nd"
    "x # R = drop i (items nd) @ L" "chain_tail (nodes s) nd L" using pos by (auto simp: positioned_def)
  have R: "R = drop (Suc i) (items nd) @ L" using p(4,5) by (metis Cons_nth_drop_Suc append_Cons list.inject)
  have one: "\<exists>sc'. next_entry s sc = Some (if beyond s sc y then (RECORD_EOF, None, sc') else (SUCCESS, Some (item_rid y), sc')) \<and>
      positioned (nodes s) sc' R \<and> first_emitted sc' \<and> right_key sc' = right_key sc" if y: "R = y # R'" for y R'
  proof (cases "Suc i < node_size nd")
    case True
    let ?sc = "sc\<lparr>iter_index := iter_index sc + 1\<rparr>"
    have "positioned (nodes s) ?sc R"
      unfolding positioned_def using p True R by (intro exI [of _ p] exI [of _ nd] exI [of _ "Suc i"] exI [of _ L]) simp
    moreover have "all_rids R" using rids by (simp add: all_rids_def)
    ultimately have h: "touch_end s ?sc = Some (beyond s ?sc y)" "fetch_item s ?sc = Some (item_rid y)" "positioned (nodes s) ?sc R"
      using positioned_hd [of s ?sc y R'] y by simp_all
    have "beyond s ?sc y = beyond s sc y" by (simp add: beyond_def)
    then show ?thesis using h p fe True by (subst next_entry.simps) auto
  next
    case False
    then have L: "L = y # R'" using R y by simp
    then have nb: "next_brother nd \<noteq> - 1" "chain (nodes s) (next_brother nd) L" using p(6) by (auto simp: chain_tail_def split: if_splits)
    obtain nd2 L2 where c: "nodes s (next_brother nd) = Some nd2" "items nd2 \<noteq> []" "chain_tail (nodes s) nd2 L2" "L = items nd2 @ L2"
      by (rule chain_split [OF nb(2)])
    let ?sc = "sc\<lparr>current_frame := Some (next_brother nd), iter_index := 0\<rparr>"
    have RL: "R = L" using R False by simp
    have "positioned (nodes s) ?sc R"
      unfolding positioned_def using c RL by (intro exI [of _ "next_brother nd"] exI [of _ nd2] exI [of _ 0] exI [of _ L2]) simp
    moreover have "all_rids R" using rids by (simp add: all_rids_def)
    ultimately have h: "touch_end s ?sc = Some (beyond s ?sc y)" "fetch_item s ?sc = Some (item_rid y)" "positioned (nodes s) ?sc R"
      using positioned_hd [of s ?sc y R'] y by simp_all
    have b: "beyond s ?sc y = beyond s sc y" by (simp add: beyond_def)
    have "next_entry s sc = next_entry s (sc\<lparr>current_frame := Some (next_brother nd), iter_index := - 1\<rparr>)"
      using p fe False nb(1) by (subst next_entry.simps) (simp add: BP_INVALID_PAGE_NUM_def)
    also have "... = Some (if beyond s sc y then (RECORD_EOF, None, ?sc) else (SUCCESS, Some (item_rid y), ?sc))"
      using h b c(1,2) fe by (subst next_entry.simps) simp
    finally show ?thesis using h fe by (intro exI [of _ ?sc]) simp
  qed
  show "\<exists>sc'. next_entry s sc = Some (RECORD_EOF, None, sc')" if "R = []"
  proof -
    have "Suc i = node_size nd" "L = []" using that R p(4) by auto
    then have "next_brother nd = - 1"
      using p(6) chain_split [of "nodes s" "next_brother nd" "[]"] by (auto simp: chain_tail_def split: if_splits)
    then show ?thesis using p fe \<open>Suc i = node_size nd\<close> by (subst next_entry.simps) (simp add: BP_INVALID_PAGE_NUM_def)
  qed
  show "\<exists>sc'. next_entry s sc = Some (RECORD_EOF, None, sc')" if "R = y # R'" "beyond s sc y" using one [OF that(1)] that(2) by auto
  show "\<exists>sc'. next_entry s sc = Some (SUCCESS, Some (item_rid y), sc') \<and>
      positioned (nodes s) sc' R \<and> first_emitted sc' \<and> right_key sc' = right_key sc" if "R = y # R'" "\<not> beyond s sc y"
    using one [OF that(1)] that(2) by auto
qed

lemma fetch_rest:
  "positioned (nodes s) sc (x # R) \<Longrightarrow> all_rids (x # R) \<Longrightarrow> first_emitted sc \<Longrightarrow>
   fetch_all s sc acc = Some (RECORD_EOF, acc @ map item_rid (takeWhile (\<lambda>y. \<not> beyond s sc y) R))"
proof (induction R arbitrary: x sc acc)
  case Nil
  obtain sc' where "next_entry s sc = Some (RECORD_EOF, None, sc')" using positioned_next(1) [OF Nil] by auto
  then show ?case by (subst fetch_all.simps) simp
next
  case (Cons y R)
  show ?case
  proof (cases "beyond s sc y")
    case True
    obtain sc' where "next_entry s sc = Some (RECORD_EOF, None, sc')" using positioned_next(2) [OF Cons.prems refl True] by blast
    then show ?thesis using True by (subst fetch_all.simps) simp
  next
    case False
    obtain sc' where n: "next_entry s sc = Some (SUCCESS, Some (item_rid y), sc')" "positioned (nodes s) sc' (y # R)" "first_emitted sc'"
      "right_key sc' = right_key sc" using positioned_next(3) [OF Cons.prems refl False] by blast
    have "beyond s sc' = beyond s sc" using n(4) by (simp add: beyond_def fun_eq_iff)
    moreover have "all_rids (y # R)" using Cons.prems(2) by (simp add: all_rids_def)
    ultimately show ?thesis using n(1) Cons.IH [OF n(2) _ n(3)] False by (subst fetch_all.simps) simp
  qed
qed

lemma fetch_positioned:
  assumes "positioned (nodes s) sc (x # R)" "all_rids (x # R)" "\<not> first_emitted sc" "\<not> beyond s sc x"
  shows "fetch_all s sc [] = Some (RECORD_EOF, map item_rid (takeWhile (\<lambda>y. \<not> beyond s sc y) (x # R)))"
proof -
  let ?sc = "sc\<lparr>first_emitted := True\<rparr>"
  have "positioned (nodes s) ?sc (x # R)" using assms(1) by (simp add: positioned_def)
  from fetch_rest [OF this assms(2)] have r: "fetch_all s ?sc [item_rid x] = Some (RECORD_EOF, [item_rid x] @ map item_rid (takeWhile (\<lambda>y. \<not> beyond s ?sc y) R))"
    by simp
  obtain p where "current_frame sc = Some p" using assms(1) by (auto simp: positioned_def)
  then have "next_entry s sc = Some (SUCCESS, Some (item_rid x), ?sc)"
    using assms(3) positioned_hd(2) [OF assms(1,2)] by (subst next_entry.simps) simp
  moreover have "beyond s ?sc = beyond s sc" by (simp add: beyond_def fun_eq_iff)
  ultimately show ?thesis using r assms(4) by (subst fetch_all.simps) simp
qed

lemma fetch_none: "current_frame sc = None \<Longrightarrow> fetch_all s sc [] = Some (RECORD_EOF, [])"
  by (subst fetch_all.simps, subst next_entry.simps) simp

end
