(* ===== verification/Bplus_Scan.thy ===== *)
theory Bplus_Scan
  imports Bplus_Scanner
begin

text \<open>
  A scan of a well formed B+ tree: the chain of the leaves holds the contents of the tree in the order of the keys, the scanner
  starts at the first item that is not below the left key and stops before the first one above the right key.
\<close>

context key_order
begin

section \<open>The leaves in their order\<close>

lemma leaf_nonempty:
  assumes T: "tree_ok s g" and p: "p \<in> leaves g"
  obtains nd where "nodes s p = Some nd" "is_leaf nd" "items nd \<noteq> []" "leaf_ok (glo g p) (ghi g p) (items nd)"
    "body (nodes s) p = Some (True, items nd, next_brother nd)"
proof -
  note D = tree_okD [OF T]
  obtain nd where nd: "nodes s p = Some nd" "is_leaf nd" "leaf_ok (glo g p) (ghi g p) (items nd)" "body (nodes s) p = Some (True, items nd, next_brother nd)"
    by (rule leafD [OF D(2) p])
  have pD: "p \<in> gD g" using p by (simp add: leaves_def)
  have "1 \<le> max_items (file_header s) True div 2" using div_le_mono [OF D(9), of 2] by (simp add: max_items_def)
  then have "items nd \<noteq> []" using sizedD(2,3) [OF D(3) pD nd(4)] by (cases "p = root_page (file_header s)") auto
  then show thesis using that nd by blast
qed

definition from_page :: "BplusTree \<Rightarrow> 'r ghost \<Rightarrow> int \<Rightarrow> item set" where
  "from_page s g p = {x \<in> contents (nodes s) g. above (glo g p) (irank x)}"

lemma contents_leaf:
  assumes T: "tree_ok s g" and x: "x \<in> contents (nodes s) g"
  obtains q nd where "q \<in> leaves g" "nodes s q = Some nd" "x \<in> set (items nd)" "valid (fst x)" "above (glo g q) (irank x)" "below (ghi g q) (irank x)"
proof -
  obtain q where q: "q \<in> leaves g" "x \<in> page_items (nodes s) q" using x by (auto simp: contents_def)
  obtain nd where nd: "nodes s q = Some nd" "leaf_ok (glo g q) (ghi g q) (items nd)" by (rule leafD [OF tree_okD(2) [OF T] q(1)])
  have "x \<in> set (items nd)" using q(2) page_items_node [of "nodes s" q nd, OF nd(1)] by simp
  then show thesis using that [OF q(1) nd(1)] nd(2) by (auto simp: leaf_ok_def)
qed

lemma items_from:
  \<comment> \<open>the items of a leaf are those of the tree in its interval\<close>
  assumes T: "tree_ok s g" and p: "p \<in> leaves g" "nodes s p = Some nd"
  shows "set (items nd) = {x \<in> contents (nodes s) g. above (glo g p) (irank x) \<and> below (ghi g p) (irank x)}"
proof -
  note D = tree_okD [OF T]
  have lok: "leaf_ok (glo g p) (ghi g p) (items nd)" using leafD [OF D(2) p(1)] p(2) by auto
  have "x \<in> set (items nd) \<longleftrightarrow> x \<in> contents (nodes s) g \<and> above (glo g p) (irank x) \<and> below (ghi g p) (irank x)" for x
  proof
    assume x: "x \<in> set (items nd)"
    then have "x \<in> contents (nodes s) g" using p page_items_node [of "nodes s" p nd] unfolding contents_def by blast
    then show "x \<in> contents (nodes s) g \<and> above (glo g p) (irank x) \<and> below (ghi g p) (irank x)" using lok x by (simp add: leaf_ok_def)
  next
    assume x: "x \<in> contents (nodes s) g \<and> above (glo g p) (irank x) \<and> below (ghi g p) (irank x)"
    obtain q qd where q: "valid (fst x)" by (rule contents_leaf [OF T]) (use x in blast)+
    then show "x \<in> set (items nd)" using contents_iff [OF D(2,4) q p, of x] x by simp
  qed
  then show ?thesis by blast
qed

lemma chain_from:
  assumes T: "tree_ok s g"
  shows "p \<in> leaves g \<Longrightarrow> \<exists>L. chain (nodes s) p L \<and> ascending L \<and> set L = from_page s g p"
proof (induction "card {q \<in> leaves g. (case glo g p of None \<Rightarrow> True | Some a \<Rightarrow> \<exists>b. glo g q = Some b \<and> a \<le> b)}" arbitrary: p rule: less_induct)
  case (less p)
  note D = tree_okD [OF T]
  let ?S = "\<lambda>p. {q \<in> leaves g. (case glo g p of None \<Rightarrow> True | Some a \<Rightarrow> \<exists>b. glo g q = Some b \<and> a \<le> b)}"
  have fin: "finite (leaves g)"
  proof (rule finite_subset)
    show "leaves g \<subseteq> {0 ..< page_count s}" using D(6) by (auto simp: leaves_def pool_ok_def)
  qed simp
  obtain nd where nd: "nodes s p = Some nd" "items nd \<noteq> []" "leaf_ok (glo g p) (ghi g p) (items nd)" "body (nodes s) p = Some (True, items nd, next_brother nd)"
    by (rule leaf_nonempty [OF T less(2)])
  note its = items_from [OF T less(2) nd(1)]
  note l = linkedD [OF D(5) less(2) nd(4)]
  have asc: "ascending (items nd)" using nd(3) by (simp add: leaf_ok_def)
  have ne: "nonempty (glo g p) (ghi g p)" using shapeD(8) [OF D(2), of p] less(2) by (simp add: leaves_def)
  show ?case
  proof (cases "next_brother nd = - 1")
    case True
    have "chain (nodes s) p (items nd)" by (rule chain.last [of "nodes s" p nd, OF nd(1,2) True])
    moreover have "set (items nd) = from_page s g p" using its l(1) [OF True] by (simp add: from_page_def)
    ultimately show ?thesis using asc by blast
  next
    case False
    then have n: "next_brother nd \<in> leaves g" "ghi g p \<noteq> None" "glo g (next_brother nd) = ghi g p" using l(2) by auto
    obtain m where m: "ghi g p = Some m" using n(2) by auto
    have "?S (next_brother nd) \<subset> ?S p"
    proof
      show "?S (next_brother nd) \<subseteq> ?S p" using n(3) m ne by (cases "glo g p") (auto intro: less_imp_le order_trans)
      have "p \<in> ?S p" using less(2) by (cases "glo g p") auto
      moreover have "p \<notin> ?S (next_brother nd)" using n(3) m ne by (cases "glo g p") auto
      ultimately show "?S (next_brother nd) \<noteq> ?S p" by blast
    qed
    then have "card (?S (next_brother nd)) < card (?S p)" by (rule psubset_card_mono [rotated]) (use fin in simp)
    from less(1) [OF this n(1)] obtain L where L: "chain (nodes s) (next_brother nd) L" "ascending L" "set L = from_page s g (next_brother nd)" by blast
    have "chain (nodes s) p (items nd @ L)" by (rule chain.step [of "nodes s" p nd, OF nd(1,2) False L(1)])
    moreover have "ascending (items nd @ L)"
    proof -
      have "\<forall>x\<in>set (items nd). \<forall>y\<in>set L. irank x < irank y"
        using its L(3) n(3) m by (auto simp: from_page_def intro: less_le_trans)
      then show ?thesis using asc L(2) by (simp add: ascending_def sorted_wrt_append)
    qed
    moreover have "set (items nd @ L) = from_page s g p"
    proof -
      have "above (glo g p) r \<longleftrightarrow> above (glo g p) r \<and> r < m \<or> m \<le> r" for r
        using ne m by (cases "glo g p") (auto intro: less_imp_le order_trans)
      then show ?thesis using its L(3) n(3) m by (auto simp: from_page_def)
    qed
    ultimately show ?thesis by blast
  qed
qed

lemma ascending_rids:
  assumes T: "tree_ok s g" and "set R \<subseteq> contents (nodes s) g"
  shows "all_rids R"
  unfolding all_rids_def
proof
  fix x
  assume "x \<in> set R"
  then obtain q nd where q: "q \<in> leaves g" "nodes s q = Some nd" "x \<in> set (items nd)" using contents_leaf [OF T] assms(2) by (metis subsetD)
  have "leaf_ok (glo g q) (ghi g q) (items nd)" using leafD [OF tree_okD(2) [OF T] q(1)] q(2) by auto
  then show "\<exists>r. snd x = Rid r" using q(3) by (auto simp: leaf_ok_def)
qed

section \<open>The first leaf\<close>

lemma left_most_loop_ok:
  assumes "shape N root g {} (ghi g)" and "nodes s = N"
  shows "p \<in> gD g \<Longrightarrow> glo g p = None \<Longrightarrow>
    \<exists>leaf nd. find_leaf_loop (\<lambda>nd. value_at nd 0) p s = Some leaf \<and> leaf \<in> gD g \<and> N leaf = Some nd \<and> is_leaf nd \<and> glo g leaf = None"
proof (induction "glv g p" arbitrary: p)
  case 0
  obtain nd where nd: "N p = Some nd" using page_ok_node [OF shapeD(7) [OF assms(1) 0(2)]] by blast
  then have "is_leaf nd" using page_okD(4) [OF shapeD(7) [OF assms(1) 0(2)] nd] 0(1) by auto
  then show ?case using 0 nd assms(2) by (subst find_leaf_loop.simps) simp
next
  case (Suc n)
  obtain nd where nd: "N p = Some nd" using page_ok_node [OF shapeD(7) [OF assms(1) Suc(3)]] by blast
  then have leaf: "\<not> is_leaf nd" using page_okD(2) [OF shapeD(7) [OF assms(1) Suc(3)] nd] Suc(2) by auto
  note i = page_okD(5) [OF shapeD(7) [OF assms(1) Suc(3)] nd leaf]
  have j: "0 < node_size nd" using inner_okD(1) [OF i] by simp
  have "\<exists>c. snd (items nd ! 0) = Page c"
    using inner_children(1) [OF assms(1) Suc(3) nd leaf] j by (auto simp: children_in_def)
  then obtain c where c: "snd (items nd ! 0) = Page c" by blast
  note cc = child_at [OF i j c]
  have "value_at nd 0 = Some c" using j c by (simp add: value_at_def)
  moreover have "n = glv g c" "glo g c = None" using cc(3,5) Suc(2,4) by simp_all
  ultimately show ?case using Suc(1) [of c] cc(1) nd leaf assms(2) by (subst find_leaf_loop.simps) simp
qed

lemma left_most_ok:
  assumes T: "tree_ok s g"
  obtains leaf where "left_most_page s = Some (SUCCESS, leaf)" "leaf \<in> leaves g" "glo g leaf = None"
proof -
  note D = tree_okD [OF T]
  obtain leaf nd where l: "find_leaf_loop (\<lambda>nd. value_at nd 0) (root_page (file_header s)) s = Some leaf" "leaf \<in> gD g" "nodes s leaf = Some nd" "is_leaf nd"
    "glo g leaf = None"
    using left_most_loop_ok [OF D(2) refl shapeD(1,3) [OF D(2)]] by blast
  have "left_most_page s = Some (SUCCESS, leaf)"
    using l(1) tree_not_empty [OF T] by (simp add: left_most_page_def find_leaf_internal_def)
  then show thesis using that leaf_in_leaves [OF D(2) l(2-4)] l(5) by blast
qed

section \<open>A scan\<close>

lemma chain_positioned:
  assumes "chain N p L"
  shows "positioned N (sc\<lparr>current_frame := Some p, iter_index := 0\<rparr>) L" and "L \<noteq> []"
proof -
  obtain nd L' where c: "N p = Some nd" "items nd \<noteq> []" "chain_tail N nd L'" "L = items nd @ L'" by (rule chain_split [OF assms])
  show "positioned N (sc\<lparr>current_frame := Some p, iter_index := 0\<rparr>) L"
    unfolding positioned_def using c by (intro exI [of _ p] exI [of _ nd] exI [of _ 0] exI [of _ L']) simp
  show "L \<noteq> []" using c by simp
qed

definition upto :: "key option \<Rightarrow> item \<Rightarrow> bool" where
  "upto rk x = (case rk of None \<Rightarrow> True | Some k \<Rightarrow> irank x \<le> rank k)"

definition right_key_for :: "BplusTree \<Rightarrow> byte list option \<Rightarrow> bool \<Rightarrow> key option \<Rightarrow> bool" where
  \<comment> \<open>\<open>rk\<close> is the right key that \<open>open\<close> makes\<close>
  "right_key_for s u inclusive rk = (case u of
      None \<Rightarrow> rk = None
    | Some v \<Rightarrow> \<exists>k. rk = Some k \<and> make_key s v (if inclusive then RID_max else RID_min) = Some k \<and> valid k)"

lemma takeWhile_ascending:
  assumes "ascending R"
  shows "set (takeWhile (upto rk) R) = {x \<in> set R. upto rk x}" and "ascending (takeWhile (upto rk) R)"
proof -
  show "ascending (takeWhile (upto rk) R)" using assms by (simp add: ascending_def sorted_wrt_takeWhile)
  show "set (takeWhile (upto rk) R) = {x \<in> set R. upto rk x}"
    using assms
  proof (induction R)
    case (Cons a R)
    have "upto rk x \<Longrightarrow> upto rk a" if "x \<in> set R" for x
      using Cons.prems that by (cases rk) (auto simp: upto_def ascending_def intro: less_imp_le less_le_trans)
    then show ?case using Cons by (auto simp: ascending_def)
  qed simp
qed

lemma finish_open_ok:
  assumes T: "tree_ok s g" and pos: "positioned (nodes s) sc R" and fe: "\<not> first_emitted sc" and asc: "ascending R"
    and R: "set R \<subseteq> contents (nodes s) g" and rk: "right_key_for s u inclusive rk"
  obtains sc' where "scanner_finish_open s u inclusive sc = Some (SUCCESS, sc')"
    "fetch_all s sc' [] = Some (RECORD_EOF, map item_rid (takeWhile (upto rk) R))"
proof -
  obtain x R' where x: "R = x # R'" using pos by (cases R) (auto simp: positioned_def)
  have rids: "all_rids (x # R')" using ascending_rids [OF T R] x by simp
  let ?sc = "sc\<lparr>right_key := rk\<rparr>"
  have pos': "positioned (nodes s) ?sc (x # R')" using pos x by (simp add: positioned_def)
  have val: "valid (fst y)" if "y \<in> set R" for y
    using contents_leaf [OF T, of y] R that by blast
  have b: "beyond s ?sc y \<longleftrightarrow> \<not> upto rk y" if "y \<in> set R" for y
  proof (cases rk)
    case (Some k)
    then have "valid k" using rk by (cases u) (auto simp: right_key_for_def)
    then show ?thesis using Some cmp_pos [OF val [OF that], of k] tree_okD(7) [OF T] by (auto simp: beyond_def upto_def)
  qed (simp add: beyond_def upto_def)
  have tw: "takeWhile (\<lambda>y. \<not> beyond s ?sc y) (x # R') = takeWhile (upto rk) R"
    unfolding x by (rule takeWhile_cong) (use b x in auto)
  note h = positioned_hd(1) [OF pos' rids]
  have "scanner_finish_open s u inclusive sc = Some (SUCCESS, if beyond s ?sc x then ?sc\<lparr>current_frame := None\<rparr> else ?sc)"
    using rk h by (cases u) (auto simp: scanner_finish_open_def right_key_for_def)
  moreover have "fetch_all s (if beyond s ?sc x then ?sc\<lparr>current_frame := None\<rparr> else ?sc) [] = Some (RECORD_EOF, map item_rid (takeWhile (upto rk) R))"
  proof (cases "beyond s ?sc x")
    case True
    then have "takeWhile (upto rk) R = []" using tw by simp
    then show ?thesis using True fetch_none [of "?sc\<lparr>current_frame := None\<rparr>" s] by simp
  next
    case False
    have "fetch_all s ?sc [] = Some (RECORD_EOF, map item_rid (takeWhile (\<lambda>y. \<not> beyond s ?sc y) (x # R')))"
      by (rule fetch_positioned [OF pos' rids _ False]) (use fe in simp)
    then show ?thesis using False unfolding tw by simp
  qed
  ultimately show thesis using that by blast
qed

definition downto :: "key option \<Rightarrow> item \<Rightarrow> bool" where
  "downto lk x = (case lk of None \<Rightarrow> True | Some k \<Rightarrow> rank k \<le> irank x)"

definition left_key_for :: "BplusTree \<Rightarrow> byte list option \<Rightarrow> bool \<Rightarrow> key option \<Rightarrow> bool" where
  "left_key_for s u inclusive lk = (case u of
      None \<Rightarrow> lk = None
    | Some v \<Rightarrow> \<exists>k. lk = Some k \<and> make_key s v (if inclusive then RID_min else RID_max) = Some k \<and> valid k)"

definition range_ok :: "BplusTree \<Rightarrow> byte list option \<Rightarrow> bool \<Rightarrow> byte list option \<Rightarrow> bool \<Rightarrow> bool" where
  \<comment> \<open>\<open>open\<close> accepts the two user keys\<close>
  "range_ok s lu li ru ri = (case (lu, ru) of
      (Some l, Some r) \<Rightarrow> key_comparator s l r < 0 \<or> (key_comparator s l r = 0 \<and> li \<and> ri)
    | _ \<Rightarrow> True)"

lemma scan_ok:
  assumes H: "holds s C h" and range: "range_ok s lu li ru ri" and lk: "left_key_for s lu li lk" and rk: "right_key_for s ru ri rk"
  shows "\<exists>R. scan s lu li ru ri = Some (SUCCESS, map item_rid R) \<and> ascending R \<and> set R = {x \<in> C. downto lk x \<and> upto rk x}"
proof -
  let ?sc0 = "new_scanner\<lparr>inited := True, first_emitted := False\<rparr>"
  have rng: "\<not> (case (lu, ru) of (Some l, Some r) \<Rightarrow> 0 < key_comparator s l r \<or> (key_comparator s l r = 0 \<and> (\<not> li \<or> \<not> ri)) | _ \<Rightarrow> False)"
    using range by (auto simp: range_ok_def split: option.splits)
  have fin: "\<exists>R. scan s lu li ru ri = Some (SUCCESS, map item_rid R) \<and> ascending R \<and> set R = {x \<in> C. downto lk x \<and> upto rk x}"
    if "scanner_open s lu li ru ri new_scanner = Some (SUCCESS, sc)" "fetch_all s sc [] = Some (RECORD_EOF, map item_rid R)"
      "ascending R" "set R = {x \<in> C. downto lk x \<and> upto rk x}" for sc R
    using that by (intro exI [of _ R]) (simp add: scan_def)
  have none: "scanner_open s lu li ru ri new_scanner = Some (SUCCESS, sc) \<Longrightarrow> current_frame sc = None \<Longrightarrow> {x \<in> C. downto lk x \<and> upto rk x} = {} \<Longrightarrow>
      \<exists>R. scan s lu li ru ri = Some (SUCCESS, map item_rid R) \<and> ascending R \<and> set R = {x \<in> C. downto lk x \<and> upto rk x}" for sc
    using fin [of sc "[]"] fetch_none [of sc s] by (simp add: ascending_def)
  have inited: "\<not> inited new_scanner" by (simp add: new_scanner_def)
  show ?thesis
  proof (cases "is_empty s")
    case True
    then have C: "C = {}" using H by (simp add: holds_def)
    have "scanner_open s lu li ru ri new_scanner = Some (SUCCESS, ?sc0\<lparr>current_frame := None\<rparr>)"
      using True rng inited lk
      by (cases lu) (auto simp: scanner_open_def Let_def left_most_page_def find_leaf_def find_leaf_internal_def left_key_for_def)
    from none [OF this] show ?thesis using C by simp
  next
    case ne: False
    obtain g where g: "tree_ok s g" "C = contents (nodes s) g" using H ne by (auto simp: holds_def)
    note D = tree_okD [OF g(1)]
    have fe: "\<not> first_emitted (?sc0\<lparr>current_frame := Some p, iter_index := i\<rparr>)" for p i by simp
    have go: ?thesis
      if R: "positioned (nodes s) (?sc0\<lparr>current_frame := Some p, iter_index := i\<rparr>) R" "ascending R" "set R = {x \<in> C. downto lk x}"
        and run: "scanner_open s lu li ru ri new_scanner = scanner_finish_open s ru ri (?sc0\<lparr>current_frame := Some p, iter_index := i\<rparr>)" for p i R
    proof -
      have "set R \<subseteq> contents (nodes s) g" using R(3) g(2) by blast
      then obtain sc' where "scanner_finish_open s ru ri (?sc0\<lparr>current_frame := Some p, iter_index := i\<rparr>) = Some (SUCCESS, sc')"
        "fetch_all s sc' [] = Some (RECORD_EOF, map item_rid (takeWhile (upto rk) R))"
        by (rule finish_open_ok [OF g(1) R(1) fe R(2) _ rk])
      then show ?thesis using fin run takeWhile_ascending [OF R(2), of rk] R(3) by auto
    qed
    show ?thesis
    proof (cases lu)
      case None
      obtain leaf where l: "left_most_page s = Some (SUCCESS, leaf)" "leaf \<in> leaves g" "glo g leaf = None" by (rule left_most_ok [OF g(1)])
      obtain L where L: "chain (nodes s) leaf L" "ascending L" "set L = from_page s g leaf" using chain_from [OF g(1) l(2)] by blast
      have "lk = None" using lk None by (simp add: left_key_for_def)
      then have "set L = {x \<in> C. downto lk x}" using L(3) l(3) g(2) by (simp add: from_page_def downto_def)
      from go [OF chain_positioned(1) [OF L(1)] L(2) this] show ?thesis
        using None inited l(1) by (simp add: scanner_open_def Let_def)
    next
      case (Some u)
      obtain k where k: "lk = Some k" "make_key s u (if li then RID_min else RID_max) = Some k" "valid k" using lk Some by (auto simp: left_key_for_def)
      obtain leaf nd where F: "find_leaf k s = Some (SUCCESS, leaf)" "leaf \<in> gD g" "nodes s leaf = Some nd" "is_leaf nd"
        "above (glo g leaf) (rank k)" "below (ghi g leaf) (rank k)"
        by (rule find_leaf_ok [OF D(2) D(7) k(3)])
      have lv: "leaf \<in> leaves g" by (rule leaf_in_leaves [OF D(2) F(2-4)])
      have lok: "leaf_ok (glo g leaf) (ghi g leaf) (items nd)" using leafD [OF D(2) lv] F(3) by auto
      have asc: "ascending (items nd)" and val: "\<forall>x\<in>set (items nd). valid (fst x)" using lok by (auto simp: leaf_ok_def)
      obtain i found where look: "leaf_lookup cmp nd k = (i, found)" by fastforce
      note lb = lower_bound_items [OF asc val k(3) look [unfolded leaf_lookup_def]]
      obtain L where L: "chain (nodes s) leaf L" "ascending L" "set L = from_page s g leaf" using chain_from [OF g(1) lv] by blast
      obtain L' where L': "chain_tail (nodes s) nd L'" "L = items nd @ L'" using chain_split [OF L(1)] F(3) by (metis option.inject)
      have dn: "{x \<in> C. downto lk x} = set (drop i (items nd)) \<union> set L'"
      proof -
        have C1: "{x \<in> C. downto lk x} \<subseteq> set L"
          using L(3) g(2) F(5) k(1) by (auto simp: from_page_def downto_def intro: above_trans)
        have lo: "rank k \<le> irank x" if "x \<in> set L'" for x
        proof -
          have "x \<in> contents (nodes s) g" "above (glo g leaf) (irank x)" using that L(3) L'(2) by (auto simp: from_page_def)
          moreover have "x \<notin> set (items nd)"
            using L(2) that L'(2) by (force simp: ascending_def sorted_wrt_append)
          ultimately have "\<not> below (ghi g leaf) (irank x)" using items_from [OF g(1) lv F(3)] by blast
          then show ?thesis using F(6) by (cases "ghi g leaf") auto
        qed
        have t: "\<not> rank k \<le> irank x" if "x \<in> set (take i (items nd))" for x
        proof -
          obtain j where "j < i" "x = items nd ! j" using \<open>x \<in> set (take i (items nd))\<close> by (auto simp: in_set_conv_nth)
          then show ?thesis using lb(2) [of j] by simp
        qed
        have d: "rank k \<le> irank x" if "x \<in> set (drop i (items nd))" for x
        proof -
          obtain j where "j < node_size nd - i" "x = items nd ! (i + j)" using \<open>x \<in> set (drop i (items nd))\<close> by (auto simp: in_set_conv_nth)
          then show ?thesis using lb(3) [of "i + j"] by simp
        qed
        have "set L = set (take i (items nd)) \<union> set (drop i (items nd)) \<union> set L'"
          unfolding L'(2) set_append by (metis append_take_drop_id set_append)
        moreover have "set L \<subseteq> C" using L(3) g(2) by (auto simp: from_page_def)
        ultimately show ?thesis using C1 lo t d k(1) by (auto simp: downto_def)
      qed
      have ascR: "ascending (drop i (items nd) @ L')"
      proof -
        have "ascending (drop i (items nd @ L'))" using L(2) unfolding L'(2) ascending_def by (rule sorted_wrt_drop)
        then show ?thesis using lb(1) by simp
      qed
      have op: "scanner_open s lu li ru ri new_scanner =
        (if node_size nd \<le> i
         then if next_brother nd = - 1 then Some (SUCCESS, ?sc0\<lparr>current_frame := None\<rparr>)
              else scanner_finish_open s ru ri (?sc0\<lparr>current_frame := Some (next_brother nd), iter_index := 0\<rparr>)
         else scanner_finish_open s ru ri (?sc0\<lparr>current_frame := Some leaf, iter_index := int i\<rparr>))"
        using Some inited rng k(2) F(1,3) look D(7) by (simp add: scanner_open_def Let_def BP_INVALID_PAGE_NUM_def)
      show ?thesis
      proof (cases "node_size nd \<le> i")
        case True
        then have R: "drop i (items nd) = []" by simp
        show ?thesis
        proof (cases "next_brother nd = - 1")
          case nb: True
          then have "L' = []" using L'(1) by (simp add: chain_tail_def)
          then have "{x \<in> C. downto lk x \<and> upto rk x} = {}" using dn R by auto
          then show ?thesis using none [of "?sc0\<lparr>current_frame := None\<rparr>"] op True nb by simp
        next
          case False
          then have c: "chain (nodes s) (next_brother nd) L'" using L'(1) by (simp add: chain_tail_def)
          show ?thesis
            by (rule go [OF chain_positioned(1) [OF c]]) (use ascR R dn op True False in simp_all)
        qed
      next
        case False
        have "positioned (nodes s) (?sc0\<lparr>current_frame := Some leaf, iter_index := int i\<rparr>) (drop i (items nd) @ L')"
          unfolding positioned_def using F(3) False L'(1)
          by (intro exI [of _ leaf] exI [of _ nd] exI [of _ i] exI [of _ L']) simp
        from go [OF this ascR] show ?thesis using dn op False by simp
      qed
    qed
  qed
qed

end

end
