(* ===== verification/Bplus_Validate.thy ===== *)
theory Bplus_Validate
  imports Bplus_Scan
begin

text \<open>
  \<^verbatim>\<open>BplusTreeHandler::validate_tree\<close> and the \<^verbatim>\<open>validate\<close> functions of the nodes (\<^verbatim>\<open>bplus_tree.cpp\<close>), and that every
  well formed tree passes. The recursion over the children of a page is a stack of the pages still to be checked. A read of a key
  that the node does not have is \<open>None\<close>.
\<close>

section \<open>The checks\<close>

fun keys_ascend :: "(key \<Rightarrow> key \<Rightarrow> int) \<Rightarrow> item list \<Rightarrow> bool" where
  \<comment> \<open>the loop over adjacent keys\<close>
  "keys_ascend cmp (x # y # xs) = (if 0 \<le> cmp (fst x) (fst y) then False else keys_ascend cmp (y # xs))"
| "keys_ascend cmp _ = True"

definition validate_in_parent :: "BplusTree \<Rightarrow> int \<Rightarrow> IndexNode \<Rightarrow> nat \<Rightarrow> bool option" where
  \<comment> \<open>the last part of both functions; \<open>first\<close> is the index of the first real key\<close>
  "validate_in_parent s pn nd first =
     (if parent nd = BP_INVALID_PAGE_NUM then Some True
      else do {
        p \<leftarrow> nodes s (parent nd);
        let index_in_parent = value_index p pn;
        if index_in_parent < 0 then Some False
        else do {
          low \<leftarrow> (if index_in_parent = 0 then Some True
                   else do { k \<leftarrow> key_at nd first; pk \<leftarrow> key_at p (nat index_in_parent); Some (0 \<le> key_comparator s k pk) });
          if \<not> low then Some False
          else if index_in_parent < int (node_size p) - 1
          then do {
            k \<leftarrow> (if node_size nd = 0 then None else key_at nd (node_size nd - 1));
            pk \<leftarrow> key_at p (nat index_in_parent + 1);
            Some (key_comparator s k pk < 0)
          }
          else Some True
        }
      })"

definition leaf_validate :: "BplusTree \<Rightarrow> int \<Rightarrow> IndexNode \<Rightarrow> bool option" where
  "leaf_validate s pn nd =
     (if \<not> node_validate nd then Some False
      else if \<not> keys_ascend (key_comparator s) (items nd) then Some False
      else validate_in_parent s pn nd 0)"

definition child_link_ok :: "BplusTree \<Rightarrow> int \<Rightarrow> node_value \<Rightarrow> bool" where
  \<comment> \<open>a child that cannot be read is only reported\<close>
  "child_link_ok s pn v = (case v of
      Rid _ \<Rightarrow> True
    | Page c \<Rightarrow> if c < 0 then True else (case nodes s c of None \<Rightarrow> True | Some cd \<Rightarrow> parent cd = pn))"

definition internal_validate :: "BplusTree \<Rightarrow> int \<Rightarrow> IndexNode \<Rightarrow> bool option" where
  "internal_validate s pn nd =
     (if \<not> node_validate nd then Some False
      else if \<not> keys_ascend (key_comparator s) (tl (items nd)) then Some False
      else if \<not> list_all (\<lambda>x. child_link_ok s pn (snd x)) (items nd) then Some False
      else validate_in_parent s pn nd 1)"

fun child_pages :: "item list \<Rightarrow> int list option" where
  "child_pages [] = Some []"
| "child_pages ((_, Page c) # its) = do { cs \<leftarrow> child_pages its; Some (c # cs) }"
| "child_pages ((_, Rid _) # its) = None"

partial_function (option) validate_nodes :: "BplusTree \<Rightarrow> int list \<Rightarrow> bool option" where
  \<comment> \<open>\<^verbatim>\<open>validate_node_recursive\<close> on the pages of the stack\<close>
  "validate_nodes s pns =
     (case pns of
        [] \<Rightarrow> Some True
      | pn # rest \<Rightarrow> do {
          nd \<leftarrow> nodes s pn;
          result \<leftarrow> (if is_leaf nd then leaf_validate s pn nd else internal_validate s pn nd);
          if \<not> result then Some False
          else do {
            cs \<leftarrow> (if is_leaf nd then Some [] else child_pages (items nd));
            validate_nodes s (cs @ rest)
          }
        })"

declare validate_nodes.simps [code]

partial_function (option) leaf_link_loop :: "BplusTree \<Rightarrow> key \<Rightarrow> int \<Rightarrow> bool option" where
  "leaf_link_loop s prev_key next_page_num =
     (if next_page_num = BP_INVALID_PAGE_NUM then Some True
      else do {
        nd \<leftarrow> nodes s next_page_num;
        k0 \<leftarrow> key_at nd 0;
        if 0 \<le> key_comparator s prev_key k0 then Some False
        else do { kl \<leftarrow> key_at nd (node_size nd - 1); leaf_link_loop s kl (next_brother nd) }
      })"

declare leaf_link_loop.simps [code]

definition validate_leaf_link :: "BplusTree \<Rightarrow> bool option" where
  "validate_leaf_link s =
     (if is_empty s then Some True
      else do {
        (rc, leaf) \<leftarrow> left_most_page s;
        if OB_FAIL rc then Some False
        else do {
          nd \<leftarrow> nodes s leaf;
          kl \<leftarrow> (if node_size nd = 0 then None else key_at nd (node_size nd - 1));
          leaf_link_loop s kl (next_brother nd)
        }
      })"

definition validate_tree :: "BplusTree \<Rightarrow> bool option" where
  "validate_tree s =
     (if is_empty s then Some True
      else do {
        r \<leftarrow> validate_nodes s [root_page (file_header s)];
        if \<not> r then Some False else validate_leaf_link s
      })"

section \<open>Well formed trees pass\<close>

lemma value_index_at:
  assumes "distinct (map snd (items nd))" "j < node_size nd" "snd (items nd ! j) = Page c"
  shows "value_index nd c = int j"
proof -
  have "find (\<lambda>i. snd (items nd ! i) = Page c) [0 ..< node_size nd] = Some j"
    unfolding find_Some_iff
  proof (intro exI [of _ j] conjI allI impI)
    show "j < length [0 ..< node_size nd]" "snd (items nd ! ([0 ..< node_size nd] ! j)) = Page c" "j = [0 ..< node_size nd] ! j" using assms(2,3) by simp_all
    fix i
    assume "i < j"
    then have "map snd (items nd) ! i \<noteq> map snd (items nd) ! j" using nth_eq_iff_index_eq [OF assms(1), of i j] assms(2) by simp
    then show "snd (items nd ! ([0 ..< node_size nd] ! i)) \<noteq> Page c" using \<open>i < j\<close> assms(2,3) by simp
  qed
  then show ?thesis by (simp add: value_index_def)
qed

lemma child_pages_items: "children_in N its \<Longrightarrow> \<exists>cs. child_pages its = Some cs \<and> (\<forall>c\<in>set cs. Page c \<in> snd ` set its)"
proof (induction its rule: child_pages.induct)
  case (2 k c its)
  then show ?case by (auto simp: children_in_Cons)
qed (auto simp: children_in_def)

context key_order
begin

lemma keys_ascend_ok: "ascending xs \<Longrightarrow> \<forall>x\<in>set xs. valid (fst x) \<Longrightarrow> keys_ascend cmp xs"
proof (induction xs)
  case (Cons x xs)
  show ?case
  proof (cases xs)
    case (Cons y ys)
    have "ascending xs" "irank x < irank y" using Cons.prems(1) by (simp_all add: ascending_def Cons)
    then show ?thesis using Cons.IH Cons.prems(2) cmp_ge [of "fst x" "fst y"] by (simp add: Cons)
  qed simp
qed simp

lemma in_parent_ok:
  assumes T: "tree_ok s g" and p: "p \<in> gD g" "nodes s p = Some nd" and nr: "first < node_size nd"
    and k0: "valid (fst (items nd ! first))" "above (glo g p) (irank (items nd ! first))"
    and kl: "valid (fst (last (items nd)))" "below (ghi g p) (irank (last (items nd)))"
  shows "validate_in_parent s p nd first = Some True"
proof (cases "p = root_page (file_header s)")
  case True
  then show ?thesis using shapeD(5) [OF tree_okD(2) [OF T]] p(2) by (simp add: validate_in_parent_def BP_INVALID_PAGE_NUM_def)
next
  case False
  note D = tree_okD [OF T]
  obtain pp pd as kp bs where pp: "pp \<in> gD g" "nodes s pp = Some pd" "\<not> is_leaf pd" "map_option parent (nodes s p) = Some pp"
    "glv g pp = Suc (glv g p)" "items pd = as @ (kp, Page p) # bs"
    by (rule child_index [OF D(2) p(1) False]) simp_all
  note i = page_okD(5) [OF shapeD(7) [OF D(2) pp(1)] pp(2,3)]
  have par: "parent nd = pp" "pp \<noteq> - 1" using pp(1,4) p(2) D(10) by auto
  have j: "length as < node_size pd" "snd (items pd ! length as) = Page p" using pp(6) by simp_all
  note c = child_at [OF i j]
  have vi: "value_index pd p = int (length as)" by (rule value_index_at [OF distinct_children [OF D(2) i] j])
  have vk: "valid (fst (items pd ! m))" if "0 < m" "m < node_size pd" for m
  proof -
    have "items pd ! m \<in> set (tl (items pd))" using that by (cases "items pd"; cases m) auto
    then show ?thesis using inner_okD(2) [OF i] by blast
  qed
  have "0 \<le> cmp (fst (items nd ! first)) (fst (items pd ! length as))" if "0 < length as"
    using cmp_ge [OF k0(1) vk [OF that j(1)]] c(3) that k0(2) by simp
  moreover have "cmp (fst (last (items nd))) (fst (items pd ! Suc (length as))) < 0" if "Suc (length as) < node_size pd"
    using cmp_less [OF kl(1) vk [OF _ that]] c(4) that kl(2) by simp
  moreover have "items nd \<noteq> []" using nr by auto
  ultimately show ?thesis
    using par pp(2) vi nr j(1) D(7) by (auto simp: validate_in_parent_def BP_INVALID_PAGE_NUM_def Let_def key_at_def last_conv_nth)
qed

lemma leaf_validate_ok:
  assumes T: "tree_ok s g" and p: "p \<in> leaves g" "nodes s p = Some nd"
  shows "leaf_validate s p nd = Some True"
proof -
  obtain lf: "items nd \<noteq> []" "leaf_ok (glo g p) (ghi g p) (items nd)" "is_leaf nd" by (rule leaf_nonempty [OF T p(1)]) (use p(2) in simp)
  have "0 < node_size nd" using lf(1) by simp
  moreover have "p \<in> gD g" using p(1) by (simp add: leaves_def)
  moreover have m: "items nd ! 0 \<in> set (items nd)" "last (items nd) \<in> set (items nd)" using lf(1) by simp_all
  ultimately have "validate_in_parent s p nd 0 = Some True" using lf(2) in_parent_ok [OF T _ p(2)] by (simp add: leaf_ok_def)
  moreover have "keys_ascend (key_comparator s) (items nd)" using keys_ascend_ok lf(2) tree_okD(7) [OF T] by (simp add: leaf_ok_def)
  ultimately show ?thesis using lf by (simp add: leaf_validate_def node_validate_def Suc_le_eq)
qed

lemma internal_validate_ok:
  assumes T: "tree_ok s g" and big: "4 \<le> internal_max_size (file_header s)" and p: "p \<in> gD g" "nodes s p = Some nd" "\<not> is_leaf nd"
  shows "internal_validate s p nd = Some True"
proof -
  note D = tree_okD [OF T]
  note i = page_okD(5) [OF shapeD(7) [OF D(2) p(1)] p(2,3)]
  note b = body_node [of "nodes s", OF p(2)]
  have "2 \<le> max_items (file_header s) False div 2" using div_le_mono [OF big, of 2] by (simp add: max_items_def)
  then have two: "2 \<le> node_size nd" using sizedD(2,3) [OF D(3) p(1) b] p(3) by (cases "p = root_page (file_header s)") auto
  then obtain x y zs where its: "items nd = x # y # zs" by (cases "items nd"; cases "tl (items nd)") auto
  note ka = kids_ascending [OF kids_ne [OF D(2) i]]
  have real: "valid (fst z) \<and> above (glo g p) (irank z) \<and> below (ghi g p) (irank z)" if "z \<in> set (y # zs)" for z
  proof -
    have z: "z \<in> set (tl (items nd))" using that its by simp
    then have "valid (fst z)" "nonempty (glo g p) (Some (irank z))" "below (ghi g p) (irank z)" using inner_okD(2) [OF i] ka(2) by blast+
    then show ?thesis by (cases "glo g p") auto
  qed
  have "validate_in_parent s p nd 1 = Some True"
    by (rule in_parent_ok [OF T p(1,2)]) (use real [of y] real [of "last (y # zs)"] its in simp_all)
  moreover have "keys_ascend (key_comparator s) (tl (items nd))" using keys_ascend_ok ka(1) inner_okD(2) [OF i] D(7) by simp
  moreover have "list_all (\<lambda>x. child_link_ok s p (snd x)) (items nd)"
    unfolding list_all_iff
  proof
    fix z
    assume z: "z \<in> set (items nd)"
    show "child_link_ok s p (snd z)"
    proof (cases "snd z")
      case (Page c)
      have "Page c \<in> snd ` set (items nd)" using z Page by (metis imageI)
      from child_facts(3) [OF D(2) p(1,2) this] show ?thesis using Page by (auto simp: child_link_ok_def split: option.splits)
    qed (simp add: child_link_ok_def)
  qed
  ultimately show ?thesis using two p(3) its by (simp add: internal_validate_def node_validate_def)
qed

lemma validate_nodes_ok:
  assumes T: "tree_ok s g" and big: "4 \<le> internal_max_size (file_header s)"
  shows "p \<in> gD g \<Longrightarrow> validate_nodes s (p # ps) = validate_nodes s ps"
proof (induction "glv g p" arbitrary: p ps rule: less_induct)
  case (less p ps)
  note D = tree_okD [OF T]
  obtain nd where nd: "nodes s p = Some nd" using page_ok_node [OF shapeD(7) [OF D(2) less(2)]] by blast
  show ?case
  proof (cases "is_leaf nd")
    case True
    have "leaf_validate s p nd = Some True" by (rule leaf_validate_ok [OF T leaf_in_leaves [OF D(2) less(2) nd True] nd])
    then show ?thesis using nd True by (subst validate_nodes.simps) simp
  next
    case False
    obtain cs where cs: "child_pages (items nd) = Some cs" "\<forall>c\<in>set cs. Page c \<in> snd ` set (items nd)"
      using child_pages_items inner_children(1) [OF D(2) less(2) nd False] by blast
    have step: "validate_nodes s (p # ps) = validate_nodes s (cs @ ps)"
      using nd False cs(1) internal_validate_ok [OF T big less(2) nd False] by (subst validate_nodes.simps) simp
    have "\<forall>c\<in>set cs. c \<in> gD g \<and> glv g c < glv g p"
      using cs(2) child_facts(2,4) [OF D(2) less(2) nd] by (metis lessI)
    then have "validate_nodes s (cs @ ps) = validate_nodes s ps"
      using less(1) by (induction cs) simp_all
    then show ?thesis using step by simp
  qed
qed

lemma leaf_link_ok:
  "chain (nodes s) p L \<Longrightarrow> ascending L \<Longrightarrow> \<forall>x\<in>set L. valid (fst x) \<Longrightarrow> key_comparator s = cmp \<Longrightarrow> valid k \<Longrightarrow>
   \<forall>x\<in>set L. rank k < irank x \<Longrightarrow> p \<noteq> - 1 \<Longrightarrow> leaf_link_loop s k p = Some True"
proof (induction arbitrary: k rule: chain.induct)
  case (last p nd)
  have m: "items nd ! 0 \<in> set (items nd)" using last(2) by simp
  then have "cmp k (fst (items nd ! 0)) < 0" using last(5,7,8) cmp_less [of k "fst (items nd ! 0)"] by blast
  then show ?case using last by (subst leaf_link_loop.simps, simp add: BP_INVALID_PAGE_NUM_def key_at_def, subst leaf_link_loop.simps, simp add: BP_INVALID_PAGE_NUM_def)
next
  case (step p nd L)
  have m: "items nd ! 0 \<in> set (items nd)" "items nd ! (node_size nd - 1) \<in> set (items nd)" using step(2) by simp_all
  then have "cmp k (fst (items nd ! 0)) < 0" using step(7,9,10) cmp_less [of k "fst (items nd ! 0)"] by auto
  moreover have "leaf_link_loop s (fst (items nd ! (node_size nd - 1))) (next_brother nd) = Some True"
  proof (rule step.IH)
    show "ascending L" using step(6) by (simp add: ascending_def sorted_wrt_append)
    show "\<forall>x\<in>set L. irank (items nd ! (node_size nd - 1)) < irank x" using step(6) m(2) by (simp add: ascending_def sorted_wrt_append)
  qed (use step m in simp_all)
  ultimately show ?case using step(1,2,8,11) by (subst leaf_link_loop.simps) (simp add: BP_INVALID_PAGE_NUM_def key_at_def)
qed

lemma validate_tree_ok:
  assumes H: "holds s C h" and big: "4 \<le> internal_max_size (file_header s)"
  shows "validate_tree s = Some True"
proof (cases "is_empty s")
  case False
  obtain g where g: "tree_ok s g" using H False by (auto simp: holds_def)
  note D = tree_okD [OF g]
  have "validate_nodes s [root_page (file_header s)] = validate_nodes s []" by (rule validate_nodes_ok [OF g big shapeD(1) [OF D(2)]])
  then have vn: "validate_nodes s [root_page (file_header s)] = Some True" by (simp add: validate_nodes.simps [of s "[]"])
  obtain leaf where l: "left_most_page s = Some (SUCCESS, leaf)" "leaf \<in> leaves g" "glo g leaf = None" by (rule left_most_ok [OF g])
  obtain L where L: "chain (nodes s) leaf L" "ascending L" "set L = from_page s g leaf" using chain_from [OF g l(2)] by blast
  obtain nd L' where c: "nodes s leaf = Some nd" "items nd \<noteq> []" "chain_tail (nodes s) nd L'" "L = items nd @ L'" by (rule chain_split [OF L(1)])
  have val: "\<forall>x\<in>set L. valid (fst x)"
  proof
    fix x
    assume "x \<in> set L"
    then have "x \<in> contents (nodes s) g" using L(3) by (simp add: from_page_def)
    then show "valid (fst x)" by (rule contents_leaf [OF g])
  qed
  have "validate_leaf_link s = leaf_link_loop s (fst (last (items nd))) (next_brother nd)"
    using False l(1) c(1,2) by (simp add: validate_leaf_link_def key_at_def last_conv_nth)
  also have "... = Some True"
  proof (cases "next_brother nd = - 1")
    case True
    then show ?thesis by (subst leaf_link_loop.simps) (simp add: BP_INVALID_PAGE_NUM_def)
  next
    case nb: False
    then have ch: "chain (nodes s) (next_brother nd) L'" using c(3) by (simp add: chain_tail_def)
    have "last (items nd) \<in> set (items nd)" using c(2) by simp
    then show ?thesis
      using L(2) val c(4) by (intro leaf_link_ok [OF ch _ _ D(7) _ _ nb]) (auto simp: ascending_def sorted_wrt_append)
  qed
  finally show ?thesis using vn False by (simp add: validate_tree_def)
qed (simp add: validate_tree_def)

end

end
