(* ===== verification/Bplus_Height.thy ===== *)
theory Bplus_Height
  imports Bplus_Validate
begin

text \<open>
  The height of a well formed B+ tree: a page holds the items of its children, whose intervals are disjoint, so the number of
  items grows exponentially with the level of the root.
\<close>

fun search_path :: "nat \<Rightarrow> (IndexNode \<Rightarrow> int option) \<Rightarrow> int \<Rightarrow> BplusTree \<Rightarrow> int list option" where
  \<comment> \<open>the pages that \<^verbatim>\<open>find_leaf_internal\<close> reads, when there are at most \<open>n\<close> of them\<close>
  "search_path 0 child_page_getter pn s = None"
| "search_path (Suc n) child_page_getter pn s = do {
     nd \<leftarrow> nodes s pn;
     if is_leaf nd then Some [pn]
     else do { c \<leftarrow> child_page_getter nd; ps \<leftarrow> search_path n child_page_getter c s; Some (pn # ps) }
   }"

context key_order
begin

definition within :: "BplusTree \<Rightarrow> 'r ghost \<Rightarrow> int \<Rightarrow> item set" where
  \<comment> \<open>the items in the interval of a page\<close>
  "within s g p = {x \<in> contents (nodes s) g. above (glo g p) (irank x) \<and> below (ghi g p) (irank x)}"

lemma finite_contents:
  assumes T: "tree_ok s g"
  shows "finite (contents (nodes s) g)"
proof -
  have "gD g \<subseteq> {0 ..< page_count s}" using tree_okD(6) [OF T] by (auto simp: pool_ok_def)
  then have "finite (leaves g)" by (auto simp: leaves_def intro: finite_subset)
  moreover have "finite (page_items (nodes s) p)" for p by (simp add: page_items_def split: option.split prod.split)
  ultimately show ?thesis by (simp add: contents_def)
qed

lemma ascending_distinct: "ascending xs \<Longrightarrow> distinct xs"
  unfolding ascending_def by (induction xs) auto

lemma leaf_items:
  assumes T: "tree_ok s g" and p: "p \<in> leaves g" "nodes s p = Some nd"
  shows "node_size nd \<le> card (within s g p)"
proof -
  obtain nd' where "nodes s p = Some nd'" "leaf_ok (glo g p) (ghi g p) (items nd')" by (rule leafD [OF tree_okD(2) [OF T] p(1)])
  then have lf: "leaf_ok (glo g p) (ghi g p) (items nd)" using p(2) by simp
  have "set (items nd) \<subseteq> contents (nodes s) g" using p page_items_node [of "nodes s" p nd] by (auto simp: contents_def)
  then have "set (items nd) \<subseteq> within s g p" using lf by (auto simp: within_def leaf_ok_def)
  then have "card (set (items nd)) \<le> card (within s g p)" by (rule card_mono [rotated]) (simp add: within_def finite_contents [OF T])
  moreover have "card (set (items nd)) = node_size nd" using lf by (simp add: distinct_card ascending_distinct leaf_ok_def)
  ultimately show ?thesis by simp
qed

lemma inner_items:
  assumes T: "tree_ok s g" and p: "p \<in> gD g" "nodes s p = Some nd" "\<not> is_leaf nd"
    and b: "\<And>c. Page c \<in> snd ` set (items nd) \<Longrightarrow> b \<le> card (within s g c)"
  shows "node_size nd * b \<le> card (within s g p)"
proof -
  note D = tree_okD [OF T]
  note i = page_okD(5) [OF shapeD(7) [OF D(2) p(1)] p(2,3)]
  note ka = kids_ascending [OF kids_ne [OF D(2) i]]
  define ch where "ch j = (case snd (items nd ! j) of Page c \<Rightarrow> c | Rid _ \<Rightarrow> 0)" for j
  have ch: "snd (items nd ! j) = Page (ch j)" if "j < node_size nd" for j
  proof -
    have "items nd ! j \<in> set (items nd)" using that by simp
    then have "\<exists>c. snd (items nd ! j) = Page c" using inner_children(1) [OF D(2) p] unfolding children_in_def by blast
    then show ?thesis by (auto simp: ch_def)
  qed
  note c = child_at [OF i _ ch]
  have key: "items nd ! j \<in> set (tl (items nd))" if "0 < j" "j < node_size nd" for j
    using that by (cases "items nd"; cases j) auto
  have less: "irank (items nd ! j) < irank (items nd ! k)" if "0 < j" "j < k" "k < node_size nd" for j k
  proof -
    have "tl (items nd) ! (j - 1) = items nd ! j" "tl (items nd) ! (k - 1) = items nd ! k" "j - 1 < k - 1" "k - 1 < length (tl (items nd))"
      using that by (simp_all add: nth_tl)
    then show ?thesis using ka(1) by (metis ascending_def sorted_wrt_iff_nth_less)
  qed
  have disj: "within s g (ch j) \<inter> within s g (ch k) = {}" if "j < k" "k < node_size nd" for j k
  proof -
    have "ghi g (ch j) = Some (irank (items nd ! Suc j))" "glo g (ch k) = Some (irank (items nd ! k))"
      using c(4) [of j] c(3) [of k] that by simp_all
    moreover have "irank (items nd ! Suc j) \<le> irank (items nd ! k)"
      using less [of "Suc j" k] that by (cases "Suc j = k") (simp_all add: less_imp_le)
    ultimately show ?thesis by (auto simp: within_def)
  qed
  have sub: "within s g (ch j) \<subseteq> within s g p" if j: "j < node_size nd" for j
  proof
    fix x
    assume "x \<in> within s g (ch j)"
    then have x: "x \<in> contents (nodes s) g" "above (glo g (ch j)) (irank x)" "below (ghi g (ch j)) (irank x)" by (simp_all add: within_def)
    have "above (glo g p) (irank x)"
    proof (cases "j = 0")
      case False
      then have "nonempty (glo g p) (Some (irank (items nd ! j)))" using ka(2) key [of j] j by blast
      then show ?thesis using x(2) c(3) [OF j j] False by (cases "glo g p") auto
    qed (use x(2) c(3) [OF j j] in simp)
    moreover have "below (ghi g p) (irank x)"
    proof (cases "Suc j < node_size nd")
      case True
      then have "below (ghi g p) (irank (items nd ! Suc j))" using ka(2) key [of "Suc j"] by blast
      then show ?thesis using x(3) c(4) [OF j j] True by (cases "ghi g p") auto
    qed (use x(3) c(4) [OF j j] in simp)
    ultimately show "x \<in> within s g p" using x(1) by (simp add: within_def)
  qed
  have fin: "finite (within s g q)" for q by (simp add: within_def finite_contents [OF T])
  have "node_size nd * b = (\<Sum>j < node_size nd. b)" by simp
  also have "... \<le> (\<Sum>j < node_size nd. card (within s g (ch j)))"
  proof (rule sum_mono)
    fix j
    assume "j \<in> {..< node_size nd}"
    then have "items nd ! j \<in> set (items nd)" "snd (items nd ! j) = Page (ch j)" using ch by simp_all
    then have "Page (ch j) \<in> snd ` set (items nd)" by (metis imageI)
    then show "b \<le> card (within s g (ch j))" by (rule b)
  qed
  also have "... = card (\<Union>j < node_size nd. within s g (ch j))"
  proof (rule card_UN_disjoint [symmetric])
    show "\<forall>j\<in>{..< node_size nd}. \<forall>k\<in>{..< node_size nd}. j \<noteq> k \<longrightarrow> within s g (ch j) \<inter> within s g (ch k) = {}"
      using disj by (metis Int_commute lessThan_iff linorder_neqE_nat)
  qed (simp_all add: fin)
  also have "... \<le> card (within s g p)" by (rule card_mono) (use sub fin in auto)
  finally show ?thesis .
qed

lemma page_level_items:
  assumes T: "tree_ok s g"
  shows "p \<in> gD g \<Longrightarrow> p \<noteq> root_page (file_header s) \<Longrightarrow>
    (internal_max_size (file_header s) div 2) ^ glv g p * (leaf_max_size (file_header s) div 2) \<le> card (within s g p)"
proof (induction "glv g p" arbitrary: p)
  case 0
  note D = tree_okD [OF T]
  have p: "p \<in> leaves g" using 0 by (simp add: leaves_def)
  obtain nd where nd: "nodes s p = Some nd" "is_leaf nd" "body (nodes s) p = Some (True, items nd, next_brother nd)" by (rule leafD [OF D(2) p])
  have "leaf_max_size (file_header s) div 2 \<le> node_size nd" using sizedD(2) [OF D(3) 0(2) nd(3) 0(3)] by (simp add: max_items_def)
  then show ?case using leaf_items [OF T p nd(1)] 0(1) by simp
next
  case (Suc l)
  note D = tree_okD [OF T]
  obtain nd where nd: "nodes s p = Some nd" using page_ok_node [OF shapeD(7) [OF D(2) Suc(3)]] by blast
  have inner: "\<not> is_leaf nd" using page_okD(2) [OF shapeD(7) [OF D(2) Suc(3)] nd] Suc(2) by auto
  let ?b = "(internal_max_size (file_header s) div 2) ^ l * (leaf_max_size (file_header s) div 2)"
  have "node_size nd * ?b \<le> card (within s g p)"
  proof (rule inner_items [OF T Suc(3) nd inner])
    fix c
    assume c: "Page c \<in> snd ` set (items nd)"
    note f = child_facts [OF D(2) Suc(3) nd c]
    have l: "glv g c = l" using f(4) Suc(2) by linarith
    show "?b \<le> card (within s g c)" using Suc(1) [of c] f(2,5) unfolding l by blast
  qed
  moreover have "internal_max_size (file_header s) div 2 \<le> node_size nd"
    using sizedD(2) [OF D(3) Suc(3) body_node [of "nodes s", OF nd] Suc(4)] inner by (simp add: max_items_def)
  then have "(internal_max_size (file_header s) div 2) * ?b \<le> node_size nd * ?b" by (rule mult_le_mono1)
  ultimately have "(internal_max_size (file_header s) div 2) * ?b \<le> card (within s g p)" by (rule le_trans [rotated])
  then show ?case unfolding Suc(2) [symmetric] by (simp only: power_Suc mult.assoc)
qed

lemma root_height:
  assumes T: "tree_ok s g" and h: "glv g (root_page (file_header s)) = Suc l"
  shows "2 * ((internal_max_size (file_header s) div 2) ^ l * (leaf_max_size (file_header s) div 2)) \<le> card (contents (nodes s) g)"
proof -
  let ?r = "root_page (file_header s)" and ?b = "(internal_max_size (file_header s) div 2) ^ l * (leaf_max_size (file_header s) div 2)"
  note D = tree_okD [OF T]
  note r = shapeD(1) [OF D(2)]
  obtain nd where nd: "nodes s ?r = Some nd" using page_ok_node [OF shapeD(7) [OF D(2) r]] by blast
  have inner: "\<not> is_leaf nd" using page_okD(2) [OF shapeD(7) [OF D(2) r] nd] h by auto
  have "node_size nd * ?b \<le> card (within s g ?r)"
  proof (rule inner_items [OF T r nd inner])
    fix c
    assume c: "Page c \<in> snd ` set (items nd)"
    note f = child_facts [OF D(2) r nd c]
    have l: "glv g c = l" using f(4) h by linarith
    show "?b \<le> card (within s g c)" using page_level_items [OF T f(2,5)] unfolding l .
  qed
  moreover have "2 \<le> node_size nd" using sizedD(3) [OF D(3) r body_node [of "nodes s", OF nd]] inner by simp
  then have "2 * ?b \<le> node_size nd * ?b" by (rule mult_le_mono1)
  moreover have "card (within s g ?r) \<le> card (contents (nodes s) g)" by (rule card_mono) (auto simp: within_def finite_contents [OF T])
  ultimately show ?thesis by (meson le_trans)
qed

lemma height_bound:
  assumes H: "holds s C (Suc l)"
  shows "2 * ((internal_max_size (file_header s) div 2) ^ l * (leaf_max_size (file_header s) div 2)) \<le> card C"
proof -
  obtain g where "tree_ok s g" "C = contents (nodes s) g" "glv g (root_page (file_header s)) = Suc l"
    using H by (auto simp: holds_def split: if_splits)
  then show ?thesis using root_height by simp
qed

lemma search_path_level:
  assumes "shape (nodes s) root g {} (ghi g)" and "valid k"
  shows "p \<in> gD g \<Longrightarrow> above (glo g p) (rank k) \<Longrightarrow> below (ghi g p) (rank k) \<Longrightarrow>
    \<exists>ps. search_path (Suc (glv g p)) (child_for cmp k) p s = Some ps \<and> length ps = Suc (glv g p) \<and>
      find_leaf_loop (child_for cmp k) p s = Some (last ps)"
proof (induction "glv g p" arbitrary: p)
  case 0
  obtain nd where nd: "nodes s p = Some nd" using page_ok_node [OF shapeD(7) [OF assms(1) 0(2)]] by blast
  then have "is_leaf nd" using page_okD(4) [OF shapeD(7) [OF assms(1) 0(2)] nd] 0(1) by auto
  then show ?case using 0(1) nd by (subst find_leaf_loop.simps) simp
next
  case (Suc n)
  obtain nd where nd: "nodes s p = Some nd" using page_ok_node [OF shapeD(7) [OF assms(1) Suc(3)]] by blast
  then have leaf: "\<not> is_leaf nd" using page_okD(2) [OF shapeD(7) [OF assms(1) Suc(3)] nd] Suc(2) by auto
  obtain c where c: "child_for cmp k nd = Some c" "c \<in> gD g" "above (glo g c) (rank k)" "below (ghi g c) (rank k)" "Suc (glv g c) = glv g p"
    using child_for_ok [OF assms(1) Suc(3) nd leaf assms(2) Suc(4,5)] .
  have n: "n = glv g c" using c(5) Suc(2) by linarith
  obtain ps where "search_path (Suc n) (child_for cmp k) c s = Some ps" "length ps = Suc n" "find_leaf_loop (child_for cmp k) c s = Some (last ps)"
    using Suc(1) [OF n c(2-4)] n by blast
  note ps = this
  have "search_path (Suc (Suc n)) (child_for cmp k) p s = Some (p # ps)" unfolding search_path.simps(2) [of "Suc n"] using ps(1) c(1) nd leaf by (simp del: search_path.simps)
  moreover have "find_leaf_loop (child_for cmp k) p s = Some (last (p # ps))"
    using ps(2,3) c(1) nd leaf by (subst find_leaf_loop.simps) (cases ps, simp_all)
  ultimately show ?case using ps(2) unfolding Suc(2) [symmetric] by (intro exI [of _ "p # ps"]) simp
qed

lemma search_height:
  assumes H: "holds s C h" and ne: "C \<noteq> {}" and k: "valid k"
  shows "\<exists>ps. search_path (Suc h) (child_for cmp k) (root_page (file_header s)) s = Some ps \<and> length ps = Suc h \<and>
    find_leaf k s = Some (SUCCESS, last ps)"
proof -
  have full: "\<not> is_empty s" using H ne by (auto simp: holds_def)
  then obtain g where g: "tree_ok s g" "h = glv g (root_page (file_header s))" using H by (auto simp: holds_def)
  note D = tree_okD [OF g(1)]
  note r = shapeD(1,3,4) [OF D(2)]
  have "above (glo g (root_page (file_header s))) (rank k)" "below (ghi g (root_page (file_header s))) (rank k)" using r by simp_all
  from search_path_level [OF D(2) k r(1) this] show ?thesis
    using g(2) full D(7) by (auto simp: find_leaf_def find_leaf_internal_def)
qed

lemma finite_holds: "holds s C h \<Longrightarrow> finite C"
  using finite_contents by (auto simp: holds_def split: if_splits)

lemma holds_inj:
  assumes H: "holds s C h" and x: "x \<in> C" and y: "y \<in> C" and eq: "irank x = irank y"
  shows "x = y"
proof -
  obtain g where g: "tree_ok s g" "C = contents (nodes s) g" using H x by (auto simp: holds_def split: if_splits)
  note D = tree_okD [OF g(1)]
  obtain q nd where q: "q \<in> leaves g" "nodes s q = Some nd" "x \<in> set (items nd)" "valid (fst x)" "above (glo g q) (irank x)" "below (ghi g q) (irank x)"
    using contents_leaf [OF g(1)] x g(2) by metis
  have "y \<in> set (items nd)" using contents_iff [OF D(2,4) q(4,1,2,5,6) eq [symmetric]] y g(2) by simp
  moreover have "ascending (items nd)" using leafD [OF D(2) q(1)] q(2) by (metis leaf_ok_def option.inject)
  ultimately show ?thesis using q(3) eq unfolding ascending_def sorted_wrt_iff_nth_less in_set_conv_nth
    by (metis linorder_neqE_nat order_less_irrefl)
qed

lemma holds_valid: "holds s C h \<Longrightarrow> x \<in> C \<Longrightarrow> valid (fst x)"
  using contents_leaf unfolding holds_def by (metis empty_iff)

end

end
