(* ===== verification/Key_Comparator.thy ===== *)
theory Key_Comparator
  imports Record_Page Lower_Bound "HOL-Library.List_Lexorder" "HOL-Library.Monad_Syntax"
begin

text \<open>
  The comparison of index keys: \<^verbatim>\<open>AttrComparator\<close> and \<^verbatim>\<open>KeyComparator\<close> of \<^verbatim>\<open>bplus_tree.h\<close>, which compare the
  attributes through \<^verbatim>\<open>Value\<close> (\<^verbatim>\<open>value.cpp\<close>) and its types (\<^verbatim>\<open>common/type\<close>), then the RIDs.

  A key is a list of bytes. The types INTS, DATES and CHARS are modelled; a comparison of other attributes, or of a key that is
  too short, is \<open>None\<close>. The order of the keys without NULL attributes is that of their ranks, lists of integers compared
  lexicographically.
\<close>

section \<open>Attributes\<close>

datatype AttrType = UNDEFINED | DATES | NULLS | CHARS | INTS | FLOATS | VECTORS | BOOLEANS | MAXTYPE

definition INT_NULL :: int where
  "INT_NULL = - (2 ^ 31)"

definition DATE_NULL :: int where
  "DATE_NULL = - (2 ^ 31)"

definition IntegerType_compare :: "int \<Rightarrow> int \<Rightarrow> int" where
  \<comment> \<open>of two values of type INTS\<close>
  "IntegerType_compare left right =
     (if left = INT_NULL then - 1 else if right = INT_NULL then 1 else compare_int left right)"

definition DateType_compare :: "int \<Rightarrow> int \<Rightarrow> int" where
  \<comment> \<open>of two values of type DATES\<close>
  "DateType_compare left right =
     (if left = DATE_NULL then - 1 else if right = DATE_NULL then 1 else compare_int left right)"

definition Value_set_string :: "byte list \<Rightarrow> nat \<Rightarrow> byte list" where
  \<comment> \<open>the characters that a value of type CHARS takes from \<open>len\<close> bytes\<close>
  "Value_set_string s len = takeWhile (\<lambda>c. c \<noteq> 0) (take len s)"

definition CharType_compare :: "byte list \<Rightarrow> byte list \<Rightarrow> int option" where
  \<comment> \<open>of two values of type CHARS; the characters are followed by a NUL\<close>
  "CharType_compare left right =
     (if left = [] then Some (- 1) else if right = [] then Some 1
      else compare_string (left @ [0]) (length left) (right @ [0]) (length right))"

definition AttrComparator :: "AttrType \<Rightarrow> nat \<Rightarrow> byte list \<Rightarrow> byte list \<Rightarrow> int option" where
  "AttrComparator attr_type len v1 v2 =
     (if length v1 < len \<or> length v2 < len then None
      else case attr_type of
        INTS \<Rightarrow> if len < 4 then None else Some (IntegerType_compare (bytes_int (take 4 v1)) (bytes_int (take 4 v2)))
      | DATES \<Rightarrow> if len < 4 then None else Some (DateType_compare (bytes_int (take 4 v1)) (bytes_int (take 4 v2)))
      | CHARS \<Rightarrow> if len = 0 then None else CharType_compare (Value_set_string v1 len) (Value_set_string v2 len)
      | _ \<Rightarrow> None)"

section \<open>Keys\<close>

record KeyComparator =
  unique :: bool
  attrs_comparator :: "(AttrType \<times> nat) list"

definition kc_key_length :: "KeyComparator \<Rightarrow> nat" where
  \<comment> \<open>the member \<^verbatim>\<open>key_length_\<close>: the attributes without the RID\<close>
  "kc_key_length kc = sum_list (map snd (attrs_comparator kc))"

fun compare_attrs :: "(AttrType \<times> nat) list \<Rightarrow> byte list \<Rightarrow> byte list \<Rightarrow> int option" where
  \<comment> \<open>the loop over the attributes; the keys start at the offset of the first one\<close>
  "compare_attrs [] v1 v2 = Some 0"
| "compare_attrs ((t, len) # attrs) v1 v2 = do {
     result \<leftarrow> AttrComparator t len v1 v2;
     if result \<noteq> 0 then Some result else compare_attrs attrs (drop len v1) (drop len v2)
   }"

definition key_rid :: "KeyComparator \<Rightarrow> byte list \<Rightarrow> RID option" where
  "key_rid kc v =
     (if length v < kc_key_length kc + 8 then None
      else Some (RID (bytes_int (slice v (kc_key_length kc) 4)) (bytes_int (slice v (kc_key_length kc + 4) 4))))"

definition compare_keys :: "KeyComparator \<Rightarrow> byte list \<Rightarrow> byte list \<Rightarrow> int option" where
  "compare_keys kc v1 v2 = do {
     result \<leftarrow> compare_attrs (attrs_comparator kc) v1 v2;
     if result \<noteq> 0 then Some result
     else if unique kc then Some 0
     else do { rid1 \<leftarrow> key_rid kc v1; rid2 \<leftarrow> key_rid kc v2; Some (rid_compare rid1 rid2) }
   }"

definition key_compare :: "KeyComparator \<Rightarrow> byte list \<Rightarrow> byte list \<Rightarrow> int" where
  \<comment> \<open>as the total function that the tree calls\<close>
  "key_compare kc v1 v2 = the (compare_keys kc v1 v2)"

section \<open>The order of the ranks\<close>

definition attr_rank :: "AttrType \<Rightarrow> nat \<Rightarrow> byte list \<Rightarrow> int list" where
  "attr_rank t len v = (if t = CHARS then map uint (Value_set_string v len) else [bytes_int (take 4 v)])"

definition attr_ok :: "AttrType \<Rightarrow> nat \<Rightarrow> byte list \<Rightarrow> bool" where
  \<comment> \<open>a modelled type, and not NULL\<close>
  "attr_ok t len v \<longleftrightarrow> len \<le> length v \<and>
     (case t of
        INTS \<Rightarrow> 4 \<le> len \<and> bytes_int (take 4 v) \<noteq> INT_NULL
      | DATES \<Rightarrow> 4 \<le> len \<and> bytes_int (take 4 v) \<noteq> DATE_NULL
      | CHARS \<Rightarrow> Value_set_string v len \<noteq> []
      | _ \<Rightarrow> False)"

fun attrs_rank :: "(AttrType \<times> nat) list \<Rightarrow> byte list \<Rightarrow> int list list" where
  "attrs_rank [] v = []"
| "attrs_rank ((t, len) # attrs) v = attr_rank t len v # attrs_rank attrs (drop len v)"

fun attrs_ok :: "(AttrType \<times> nat) list \<Rightarrow> byte list \<Rightarrow> bool" where
  "attrs_ok [] v = True"
| "attrs_ok ((t, len) # attrs) v = (attr_ok t len v \<and> attrs_ok attrs (drop len v))"

definition key_rank :: "KeyComparator \<Rightarrow> byte list \<Rightarrow> int list list" where
  "key_rank kc v = attrs_rank (attrs_comparator kc) v @
     (if unique kc then [] else case key_rid kc v of None \<Rightarrow> [] | Some r \<Rightarrow> [[page_num r], [slot_num r]])"

definition key_valid :: "KeyComparator \<Rightarrow> byte list \<Rightarrow> bool" where
  \<comment> \<open>no NULL attribute, and a RID whose numbers are not negative\<close>
  "key_valid kc v \<longleftrightarrow> attrs_ok (attrs_comparator kc) v \<and> (case key_rid kc v of None \<Rightarrow> False | Some r \<Rightarrow> rid_fits r)"

definition decides :: "int option \<Rightarrow> 'a::linorder \<Rightarrow> 'a \<Rightarrow> bool" where
  "decides c a b \<longleftrightarrow> (\<exists>r. c = Some r \<and> (r < 0 \<longleftrightarrow> a < b) \<and> (r = 0 \<longleftrightarrow> a = b))"

lemma compare_int_sign: "(compare_int a b < 0 \<longleftrightarrow> a < b) \<and> (compare_int a b = 0 \<longleftrightarrow> a = b)"
  by (auto simp: compare_int_def)

lemma strncmp_decides:
  assumes "0 \<notin> set a" "0 \<notin> set b"
  shows "decides (compare_string (a @ [0]) (length a) (b @ [0]) (length b)) (map uint a) (map uint b)"
  using assms
proof (induction a arbitrary: b)
  case Nil
  then show ?case by (cases b) (auto simp: decides_def compare_string_def)
next
  case (Cons x a)
  show ?case
  proof (cases b)
    case Nil
    then show ?thesis by (auto simp: decides_def compare_string_def)
  next
    case (Cons y b')
    have IH: "decides (compare_string (a @ [0]) (length a) (b' @ [0]) (length b')) (map uint a) (map uint b')"
      using Cons.IH [of b'] Cons.prems Cons by simp
    show ?thesis
    proof (cases "x = y")
      case True
      have "x \<noteq> 0" using Cons.prems(1) by auto
      then have "compare_string ((x # a) @ [0]) (length (x # a)) (b @ [0]) (length b) =
          compare_string (a @ [0]) (length a) (b' @ [0]) (length b')"
        by (cases "length a" "length b'" rule: linorder_cases) (simp_all add: compare_string_def Cons True Let_def min_def)
      then show ?thesis using IH by (auto simp: decides_def Cons True)
    next
      case False
      then have "uint x \<noteq> uint y" by (simp add: word_uint_eq_iff)
      then show ?thesis using False
        by (cases "x < y") (auto simp: decides_def compare_string_def Cons word_less_def)
    qed
  qed
qed

lemma CharType_decides:
  assumes "0 \<notin> set a" "0 \<notin> set b" "a \<noteq> []" "b \<noteq> []"
  shows "decides (CharType_compare a b) (map uint a) (map uint b)"
  using strncmp_decides [OF assms(1,2)] assms(3,4) by (simp add: CharType_compare_def)

lemma Value_set_string_no_nul: "0 \<notin> set (Value_set_string s len)"
  by (auto simp: Value_set_string_def dest: set_takeWhileD)

lemma AttrComparator_decides:
  assumes "attr_ok t len v1" "attr_ok t len v2"
  shows "decides (AttrComparator t len v1 v2) (attr_rank t len v1) (attr_rank t len v2)"
proof (cases t)
  case CHARS
  have ne: "Value_set_string v1 len \<noteq> []" "Value_set_string v2 len \<noteq> []" "len \<le> length v1" "len \<le> length v2"
    using assms by (simp_all add: attr_ok_def CHARS)
  then have "len \<noteq> 0" by (cases len) (simp_all add: Value_set_string_def)
  then show ?thesis
    using CharType_decides [OF Value_set_string_no_nul Value_set_string_no_nul ne(1,2)] ne
    by (simp add: AttrComparator_def attr_rank_def CHARS)
next
  case INTS
  then show ?thesis using assms compare_int_sign
    by (auto simp: attr_ok_def AttrComparator_def attr_rank_def decides_def IntegerType_compare_def)
next
  case DATES
  then show ?thesis using assms compare_int_sign
    by (auto simp: attr_ok_def AttrComparator_def attr_rank_def decides_def DateType_compare_def)
qed (use assms in \<open>simp_all add: attr_ok_def\<close>)

lemma compare_attrs_decides:
  "attrs_ok attrs v1 \<Longrightarrow> attrs_ok attrs v2 \<Longrightarrow> decides (compare_attrs attrs v1 v2) (attrs_rank attrs v1) (attrs_rank attrs v2)"
proof (induction attrs v1 v2 rule: compare_attrs.induct)
  case (2 t len attrs v1 v2)
  have "decides (AttrComparator t len v1 v2) (attr_rank t len v1) (attr_rank t len v2)"
    using AttrComparator_decides 2 by simp
  moreover have "decides (compare_attrs attrs (drop len v1) (drop len v2)) (attrs_rank attrs (drop len v1)) (attrs_rank attrs (drop len v2))"
    if "attr_rank t len v1 = attr_rank t len v2"
    using 2 calculation that by (auto simp: decides_def)
  ultimately show ?case by (auto simp: decides_def)
qed (simp add: decides_def)

lemma length_attrs_rank: "length (attrs_rank attrs v) = length attrs"
  by (induction attrs v rule: attrs_rank.induct) simp_all

lemma append_less_same_length:
  fixes a b :: "'a::linorder list"
  assumes "length a = length b"
  shows "a @ c < b @ d \<longleftrightarrow> a < b \<or> (a = b \<and> c < d)"
  using assms by (induction a b rule: list_induct2) auto

lemma compare_keys_decides:
  assumes "key_valid kc v1" "key_valid kc v2"
  shows "decides (compare_keys kc v1 v2) (key_rank kc v1) (key_rank kc v2)"
proof -
  have a: "decides (compare_attrs (attrs_comparator kc) v1 v2) (attrs_rank (attrs_comparator kc) v1) (attrs_rank (attrs_comparator kc) v2)"
    using compare_attrs_decides assms by (simp add: key_valid_def)
  obtain r1 r2 where r: "key_rid kc v1 = Some r1" "key_rid kc v2 = Some r2" "rid_fits r1" "rid_fits r2"
    using assms by (auto simp: key_valid_def split: option.splits)
  have rid: "(rid_compare r1 r2 < 0 \<longleftrightarrow> [[page_num r1], [slot_num r1]] < [[page_num r2], [slot_num r2]]) \<and>
      (rid_compare r1 r2 = 0 \<longleftrightarrow> [[page_num r1], [slot_num r1]] = [[page_num r2], [slot_num r2]])"
    using rid_compare_less [OF r(3,4)] rid_compare_zero [OF r(3,4)] by (auto simp: less_RID_def RID.expand)
  have app: "attrs_rank (attrs_comparator kc) v1 @ c < attrs_rank (attrs_comparator kc) v2 @ d \<longleftrightarrow>
      attrs_rank (attrs_comparator kc) v1 < attrs_rank (attrs_comparator kc) v2 \<or>
      (attrs_rank (attrs_comparator kc) v1 = attrs_rank (attrs_comparator kc) v2 \<and> c < d)" for c d :: "int list list"
    by (rule append_less_same_length) (simp add: length_attrs_rank)
  show ?thesis
    using a rid app r by (cases "unique kc") (auto simp: decides_def compare_keys_def key_rank_def)
qed

lemma key_compare_sign:
  assumes "key_valid kc v1" "key_valid kc v2"
  shows "key_compare kc v1 v2 < 0 \<longleftrightarrow> key_rank kc v1 < key_rank kc v2" "key_compare kc v1 v2 = 0 \<longleftrightarrow> key_rank kc v1 = key_rank kc v2"
  using compare_keys_decides [OF assms] by (auto simp: decides_def key_compare_def)

text \<open>
  Of keys with any bytes for a RID: the attributes decide when they differ, and a key is equal to itself.
\<close>

lemma key_compare_attrs:
  assumes "attrs_ok (attrs_comparator kc) v1" "attrs_ok (attrs_comparator kc) v2"
    and "attrs_rank (attrs_comparator kc) v1 < attrs_rank (attrs_comparator kc) v2"
  shows "key_compare kc v1 v2 < 0"
  using compare_attrs_decides [OF assms(1,2)] assms(3) by (auto simp: decides_def key_compare_def compare_keys_def)

lemma key_compare_self:
  assumes "attrs_ok (attrs_comparator kc) v" "key_rid kc v \<noteq> None"
  shows "key_compare kc v v = 0"
  using compare_attrs_decides [OF assms(1,1)] assms(2)
  by (auto simp: decides_def key_compare_def compare_keys_def rid_compare_self)

text \<open>Two NULL attributes compare as \<open>- 1\<close> both ways, so that no search finds an entry with one.\<close>

lemma null_has_no_order:
  "compare_keys \<lparr>unique = True, attrs_comparator = [(INTS, 4)]\<rparr> (int_bytes 4 INT_NULL) (int_bytes 4 INT_NULL) = Some (- 1)"
  by code_simp

text \<open>
  C38: (functional) The comparison of two keys without NULL attributes, whose RIDs have no negative number, has a result, whose sign
  is the lexicographic order of the attributes, then of page and slot of the RIDs unless the index is unique: a total order, the same
  from both sides. The differences of the numbers are taken with 32 bits; \<open>rid_compare_overflow\<close> shows why negative numbers are
  left out.
\<close>

theorem compare_keys_orders:
  assumes "key_valid kc v1" and "key_valid kc v2"
  shows "\<exists>r r'. compare_keys kc v1 v2 = Some r \<and> compare_keys kc v2 v1 = Some r' \<and> (r < 0 \<longleftrightarrow> key_rank kc v1 < key_rank kc v2) \<and>
    (r = 0 \<longleftrightarrow> key_rank kc v1 = key_rank kc v2) \<and> (0 < r \<longleftrightarrow> r' < 0)"
  using compare_keys_decides [OF assms] compare_keys_decides [OF assms(2,1)] unfolding decides_def
  by (metis less_linear order_less_imp_not_less)

theorem compare_keys_orders_witness:
  "\<exists>r r'. compare_keys \<lparr>unique = False, attrs_comparator = [(INTS, 4), (CHARS, 2)]\<rparr>
      (int_bytes 4 7 @ [97, 98] @ int_bytes 4 1 @ int_bytes 4 2) (int_bytes 4 7 @ [97, 0] @ int_bytes 4 1 @ int_bytes 4 1) = Some r \<and>
    compare_keys \<lparr>unique = False, attrs_comparator = [(INTS, 4), (CHARS, 2)]\<rparr>
      (int_bytes 4 7 @ [97, 0] @ int_bytes 4 1 @ int_bytes 4 1) (int_bytes 4 7 @ [97, 98] @ int_bytes 4 1 @ int_bytes 4 2) = Some r' \<and>
    0 < r \<and> r' < 0"
proof -
  let ?kc = "\<lparr>unique = False, attrs_comparator = [(INTS, 4), (CHARS, 2)]\<rparr>"
  let ?a = "int_bytes 4 7 @ [97, 98] @ int_bytes 4 1 @ int_bytes 4 2 :: byte list"
    and ?b = "int_bytes 4 7 @ [97, 0] @ int_bytes 4 1 @ int_bytes 4 1 :: byte list"
  have v: "key_valid ?kc ?a" "key_valid ?kc ?b" by code_simp+
  have r: "key_rank ?kc ?a = [[7], [97, 98], [1], [2]]" "key_rank ?kc ?b = [[7], [97], [1], [1]]" by code_simp+
  show ?thesis using compare_keys_orders [OF v] unfolding r by auto
qed

end
