(* ===== verification/Bplus_Index.thy ===== *)
theory Bplus_Index
  imports Bplus_Height Key_Comparator
begin

text \<open>
  The index as its callers see it: a set of entries, user keys with RIDs. The interface \<open>key_order\<close> is interpreted for the
  comparator of the code, and every operation of \<^verbatim>\<open>BplusTreeHandler\<close> is shown to act on the set of entries.

  Two entries have the same key when their attributes are equal and, unless the index is unique, their RIDs too. NULL attributes
  are excluded (\<open>attr_ok\<close>): the comparison of two of them has no order.
\<close>

interpretation idx: key_order "key_compare kc" "key_rank kc" "key_valid kc" for kc
  by unfold_locales (simp_all add: key_compare_sign)

section \<open>Entries\<close>

type_synonym entry = "byte list \<times> RID"

definition entry_item :: "entry \<Rightarrow> item" where
  "entry_item e = (fst e @ rid_bytes (snd e), Rid (snd e))"

abbreviation attrs_of :: "KeyComparator \<Rightarrow> byte list \<Rightarrow> int list list" where
  "attrs_of kc v \<equiv> attrs_rank (attrs_comparator kc) v"

definition rid_ok :: "RID \<Rightarrow> bool" where
  \<comment> \<open>page 0 of a table is the header page\<close>
  "rid_ok r \<longleftrightarrow> 0 < page_num r \<and> page_num r < 2 ^ 31 - 1 \<and> 0 \<le> slot_num r \<and> slot_num r < 2 ^ 31"

lemma rid_ok_fits: "rid_ok r \<Longrightarrow> rid_fits r"
  by (simp add: rid_ok_def rid_fits_def)

lemma rid_fits_min_max [simp]: "rid_fits RID_min" "rid_fits RID_max"
  by (simp_all add: rid_fits_def RID_min_def RID_max_def)

definition entry_ok :: "KeyComparator \<Rightarrow> entry \<Rightarrow> bool" where
  "entry_ok kc e \<longleftrightarrow> length (fst e) = kc_key_length kc \<and> attrs_ok (attrs_comparator kc) (fst e) \<and> rid_ok (snd e)"

definition same_key :: "KeyComparator \<Rightarrow> entry \<Rightarrow> entry \<Rightarrow> bool" where
  "same_key kc a b \<longleftrightarrow> attrs_of kc (fst a) = attrs_of kc (fst b) \<and> (unique kc \<or> snd a = snd b)"

definition key_before :: "KeyComparator \<Rightarrow> entry \<Rightarrow> entry \<Rightarrow> bool" where
  "key_before kc a b \<longleftrightarrow> attrs_of kc (fst a) < attrs_of kc (fst b) \<or>
     (attrs_of kc (fst a) = attrs_of kc (fst b) \<and> \<not> unique kc \<and> snd a < snd b)"

definition index_holds :: "KeyComparator \<Rightarrow> BplusTree \<Rightarrow> entry set \<Rightarrow> nat \<Rightarrow> bool" where
  \<comment> \<open>between two operations: a well formed tree of height \<open>h\<close> with the entries \<open>E\<close>\<close>
  "index_holds kc s E h \<longleftrightarrow> idx.holds kc s (entry_item ` E) h \<and> logged s = [] \<and> kc_key_length kc = attr_length (file_header s) \<and>
     4 \<le> leaf_max_size (file_header s) \<and> 6 \<le> internal_max_size (file_header s) \<and> (\<forall>e\<in>E. entry_ok kc e)"

section \<open>The rank of an entry\<close>

lemma attr_cong:
  assumes "take len v = take len w" "len \<le> length v" "len \<le> length w"
  shows "attr_ok t len v = attr_ok t len w" and "attr_ok t len v \<Longrightarrow> attr_rank t len v = attr_rank t len w"
proof -
  have four: "take 4 v = take 4 w" if "4 \<le> len" using arg_cong [OF assms(1), of "take 4"] that by (simp add: min_absorb1)
  show "attr_ok t len v = attr_ok t len w" using assms four by (cases t) (auto simp: attr_ok_def Value_set_string_def)
  show "attr_ok t len v \<Longrightarrow> attr_rank t len v = attr_rank t len w"
    using assms four by (cases t) (auto simp: attr_ok_def attr_rank_def Value_set_string_def)
qed

lemma attrs_cong:
  "take (sum_list (map snd as)) v = take (sum_list (map snd as)) w \<Longrightarrow> sum_list (map snd as) \<le> length v \<Longrightarrow>
   sum_list (map snd as) \<le> length w \<Longrightarrow> attrs_ok as v = attrs_ok as w \<and> (attrs_ok as v \<longrightarrow> attrs_rank as v = attrs_rank as w)"
proof (induction as v arbitrary: w rule: attrs_ok.induct)
  case (2 t len as v)
  let ?n = "sum_list (map snd as)"
  have eq: "take (len + ?n) v = take (len + ?n) w" "len + ?n \<le> length v" "len + ?n \<le> length w" using 2(2-4) by simp_all
  have "take len v = take len w" using arg_cong [OF eq(1), of "take len"] by simp
  note a = attr_cong [OF this, of t]
  have "take ?n (drop len v) = take ?n (drop len w)" using arg_cong [OF eq(1), of "drop len"] by (simp add: drop_take)
  then show ?case using 2(1) [of "drop len w"] a eq(2,3) by auto
qed simp

lemma attrs_prefix:
  assumes "kc_key_length kc \<le> length v"
  shows "attrs_ok (attrs_comparator kc) (take (kc_key_length kc) v @ ws) = attrs_ok (attrs_comparator kc) v"
    and "attrs_ok (attrs_comparator kc) v \<Longrightarrow> attrs_of kc (take (kc_key_length kc) v @ ws) = attrs_of kc v"
  using attrs_cong [of "attrs_comparator kc" "take (kc_key_length kc) v @ ws" v] assms by (simp_all add: kc_key_length_def)

lemma key_rid_append:
  assumes "length v = kc_key_length kc" "rid_ok r"
  shows "key_rid kc (v @ rid_bytes r) = Some r"
proof -
  have "int_fits 32 (page_num r)" "int_fits 32 (slot_num r)" using assms(2) by (simp_all add: rid_ok_def int_fits_def)
  then have "bytes_int (int_bytes 4 (page_num r)) = page_num r" "bytes_int (int_bytes 4 (slot_num r)) = slot_num r"
    by (simp_all add: bytes_int_bytes)
  then show ?thesis using assms(1) by (simp add: key_rid_def rid_bytes_def slice_def)
qed

lemma rank_append:
  assumes "length v = kc_key_length kc" "attrs_ok (attrs_comparator kc) v" "key_rid kc (v @ rid_bytes r) = Some r" "rid_fits r"
  shows "key_valid kc (v @ rid_bytes r)"
    and "key_rank kc (v @ rid_bytes r) = attrs_of kc v @ (if unique kc then [] else [[page_num r], [slot_num r]])"
  using attrs_prefix [of kc v "rid_bytes r"] assms by (simp_all add: key_valid_def key_rank_def)

lemma entry_rank:
  assumes "entry_ok kc e"
  shows "key_valid kc (fst (entry_item e))"
    and "key_rank kc (fst (entry_item e)) = attrs_of kc (fst e) @ (if unique kc then [] else [[page_num (snd e)], [slot_num (snd e)]])"
  using rank_append [of "fst e" kc "snd e"] key_rid_append [of "fst e" kc "snd e"] rid_ok_fits [of "snd e"] assms
  by (simp_all add: entry_ok_def entry_item_def)

lemma rank_same_key: "entry_ok kc a \<Longrightarrow> entry_ok kc b \<Longrightarrow>
    key_rank kc (fst (entry_item a)) = key_rank kc (fst (entry_item b)) \<longleftrightarrow> same_key kc a b"
  using entry_rank(2) [of kc a] entry_rank(2) [of kc b]
  by (auto simp: same_key_def length_attrs_rank append_eq_append_conv RID.expand)

lemma rank_before: "entry_ok kc a \<Longrightarrow> entry_ok kc b \<Longrightarrow>
    key_rank kc (fst (entry_item a)) < key_rank kc (fst (entry_item b)) \<longleftrightarrow> key_before kc a b"
  using entry_rank(2) [of kc a] entry_rank(2) [of kc b]
  by (auto simp: key_before_def append_less_same_length length_attrs_rank less_RID_def)

lemma entry_item_inj: "length (fst a) = length (fst b) \<Longrightarrow> entry_item a = entry_item b \<Longrightarrow> a = b"
  by (cases a; cases b) (simp add: entry_item_def)

section \<open>The operations on the set of entries\<close>

definition set_insert :: "KeyComparator \<Rightarrow> entry \<Rightarrow> entry set \<Rightarrow> rc \<times> entry set" where
  "set_insert kc e E = (if \<exists>a\<in>E. same_key kc a e then (RECORD_DUPLICATE_KEY, E) else (SUCCESS, insert e E))"

definition set_delete :: "KeyComparator \<Rightarrow> entry \<Rightarrow> entry set \<Rightarrow> rc \<times> entry set" where
  "set_delete kc e E = (if \<exists>a\<in>E. same_key kc a e then (SUCCESS, {a \<in> E. \<not> same_key kc a e}) else (RECORD_NOT_EXIST, E))"

lemma index_holdsD:
  assumes "index_holds kc s E h"
  shows "idx.holds kc s (entry_item ` E) h" "logged s = []" "kc_key_length kc = attr_length (file_header s)"
    "4 \<le> leaf_max_size (file_header s)" "6 \<le> internal_max_size (file_header s)" "e \<in> E \<Longrightarrow> entry_ok kc e"
  using assms by (simp_all add: index_holds_def)

lemma index_make_key:
  assumes "index_holds kc s E h" and e: "entry_ok kc (take (kc_key_length kc) u, r)"
  shows "make_key s u r = Some (fst (entry_item (take (kc_key_length kc) u, r)))"
proof -
  have "\<not> length u < kc_key_length kc" using e by (simp add: entry_ok_def min_def split: if_splits)
  then show ?thesis using index_holdsD(3) [OF assms(1)] by (simp add: make_key_def entry_item_def)
qed

lemma header_sizes:
  assumes "h\<lparr>root_page := 0\<rparr> = h'\<lparr>root_page := 0\<rparr>"
  shows "leaf_max_size h = leaf_max_size h'" "internal_max_size h = internal_max_size h'" "attr_length h = attr_length h'"
  using arg_cong [OF assms, of leaf_max_size] arg_cong [OF assms, of internal_max_size] arg_cong [OF assms, of attr_length] by simp_all

lemma index_holdsI:
  assumes "index_holds kc s E h" and "idx.holds kc s' (entry_item ` E') h'" "logged s' = []"
    and "(file_header s')\<lparr>root_page := 0\<rparr> = (file_header s)\<lparr>root_page := 0\<rparr>" and "\<And>e. e \<in> E' \<Longrightarrow> entry_ok kc e"
  shows "index_holds kc s' E' h'"
  using assms(1,2,3,5) unfolding index_holds_def header_sizes [OF assms(4)] by simp

lemma index_release: "index_holds kc s E h \<Longrightarrow> index_holds kc (latch_release s) E h"
  by (simp add: index_holds_def idx.holds_release)

lemma same_rank_item:
  assumes "index_holds kc s E h" and "entry_ok kc e"
  shows "(\<exists>x\<in>entry_item ` E. key_rank kc (fst x) = key_rank kc (fst (entry_item e))) \<longleftrightarrow> (\<exists>a\<in>E. same_key kc a e)"
  using rank_same_key [OF index_holdsD(6) [OF assms(1)] assms(2)] by auto

lemma insert_step:
  assumes H: "index_holds kc s E h" and e: "entry_ok kc (take (kc_key_length kc) u, r)" and rm: "Suc h < room s"
  shows "\<exists>s' h'. insert_entry (Some u) (Some r) s = Some (fst (set_insert kc (take (kc_key_length kc) u, r) E), s') \<and>
    index_holds kc s' (snd (set_insert kc (take (kc_key_length kc) u, r) E)) h'"
proof (cases "\<exists>a\<in>E. same_key kc a (take (kc_key_length kc) u, r)")
  case True
  note I = idx.insert_entry_ok(1) [OF index_holdsD(1,2) [OF H] index_make_key [OF H e] entry_rank(1) [OF e] rm]
  show ?thesis using True I same_rank_item [OF H e] index_release [OF H] by (auto simp: set_insert_def)
next
  case False
  note I = idx.insert_entry_ok(2) [OF index_holdsD(1,2) [OF H] index_make_key [OF H e] entry_rank(1) [OF e] rm]
  have "(fst (entry_item (take (kc_key_length kc) u, r)), Rid r) = entry_item (take (kc_key_length kc) u, r)" by (simp add: entry_item_def)
  then obtain s' h' where "insert_entry (Some u) (Some r) s = Some (SUCCESS, s')"
      "idx.holds kc s' (entry_item ` insert (take (kc_key_length kc) u, r) E) h'" "logged s' = []"
      "(file_header s')\<lparr>root_page := 0\<rparr> = (file_header s)\<lparr>root_page := 0\<rparr>"
    using I False same_rank_item [OF H e] unfolding image_insert by auto
  moreover from this have "index_holds kc s' (insert (take (kc_key_length kc) u, r) E) h'"
    using e index_holdsD(6) [OF H] by (intro index_holdsI [OF H]) auto
  ultimately show ?thesis using False by (auto simp: set_insert_def)
qed

lemma delete_step:
  assumes H: "index_holds kc s E h" and e: "entry_ok kc (take (kc_key_length kc) u, r)"
  shows "\<exists>s' h'. delete_entry u r s = Some (fst (set_delete kc (take (kc_key_length kc) u, r) E), s') \<and>
    index_holds kc s' (snd (set_delete kc (take (kc_key_length kc) u, r) E)) h'"
proof (cases "\<exists>a\<in>E. same_key kc a (take (kc_key_length kc) u, r)")
  case False
  note I = idx.delete_entry_ok(1) [OF index_holdsD(1,2) [OF H] index_make_key [OF H e] entry_rank(1) [OF e] index_holdsD(4,5) [OF H]]
  show ?thesis using False I same_rank_item [OF H e] index_release [OF H] by (auto simp: set_delete_def)
next
  case True
  then obtain a where a: "a \<in> E" "same_key kc a (take (kc_key_length kc) u, r)" by blast
  have ra: "key_rank kc (fst (entry_item a)) = key_rank kc (fst (entry_item (take (kc_key_length kc) u, r)))"
    using a rank_same_key [OF index_holdsD(6) [OF H a(1)] e] by blast
  obtain s' h' where S: "delete_entry u r s = Some (SUCCESS, s')" "idx.holds kc s' (entry_item ` E - {entry_item a}) h'" "logged s' = []"
      "(file_header s')\<lparr>root_page := 0\<rparr> = (file_header s)\<lparr>root_page := 0\<rparr>"
    using idx.delete_entry_ok(2) [OF index_holdsD(1,2) [OF H] index_make_key [OF H e] entry_rank(1) [OF e] index_holdsD(4,5) [OF H]
        imageI [OF a(1)] ra] by blast
  have "entry_item ` E - {entry_item a} = entry_item ` {b \<in> E. \<not> same_key kc b (take (kc_key_length kc) u, r)}"
  proof (intro set_eqI iffI)
    fix x
    assume "x \<in> entry_item ` E - {entry_item a}"
    then obtain b where b: "b \<in> E" "x = entry_item b" "entry_item b \<noteq> entry_item a" by blast
    then have "key_rank kc (fst (entry_item b)) \<noteq> key_rank kc (fst (entry_item a))"
      using idx.holds_inj [OF index_holdsD(1) [OF H], of "entry_item b" "entry_item a"] a(1) by blast
    then show "x \<in> entry_item ` {b \<in> E. \<not> same_key kc b (take (kc_key_length kc) u, r)}"
      using b ra rank_same_key [OF index_holdsD(6) [OF H b(1)] e] by simp
  next
    fix x
    assume "x \<in> entry_item ` {b \<in> E. \<not> same_key kc b (take (kc_key_length kc) u, r)}"
    then obtain b where b: "b \<in> E" "x = entry_item b" "\<not> same_key kc b (take (kc_key_length kc) u, r)" by blast
    then have "entry_item b \<noteq> entry_item a" using ra rank_same_key [OF index_holdsD(6) [OF H b(1)] e] by metis
    then show "x \<in> entry_item ` E - {entry_item a}" using b(1,2) by simp
  qed
  then have "index_holds kc s' {b \<in> E. \<not> same_key kc b (take (kc_key_length kc) u, r)} h'"
    using S(2-4) index_holdsD(6) [OF H] by (intro index_holdsI [OF H]) auto
  then show ?thesis using S(1) True by (auto simp: set_delete_def)
qed

section \<open>Ranges\<close>

definition after_left :: "KeyComparator \<Rightarrow> byte list option \<Rightarrow> bool \<Rightarrow> entry \<Rightarrow> bool" where
  \<comment> \<open>\<open>li\<close>: whether the entries with the attributes of the bound itself are asked for\<close>
  "after_left kc lu li e = (case lu of
      None \<Rightarrow> True
    | Some u \<Rightarrow> attrs_of kc u < attrs_of kc (fst e) \<or> (attrs_of kc u = attrs_of kc (fst e) \<and> li))"

definition before_right :: "KeyComparator \<Rightarrow> byte list option \<Rightarrow> bool \<Rightarrow> entry \<Rightarrow> bool" where
  "before_right kc ru ri e = (case ru of
      None \<Rightarrow> True
    | Some u \<Rightarrow> attrs_of kc (fst e) < attrs_of kc u \<or> (attrs_of kc (fst e) = attrs_of kc u \<and> ri))"

definition bound_ok :: "KeyComparator \<Rightarrow> byte list option \<Rightarrow> bool" where
  "bound_ok kc b = (case b of None \<Rightarrow> True | Some u \<Rightarrow> kc_key_length kc \<le> length u \<and> attrs_ok (attrs_comparator kc) u)"

definition bounds_ok :: "KeyComparator \<Rightarrow> byte list option \<Rightarrow> bool \<Rightarrow> byte list option \<Rightarrow> bool \<Rightarrow> bool" where
  \<comment> \<open>the code compares the bounds with the bytes behind them as RIDs, which are then to be readable\<close>
  "bounds_ok kc lu li ru ri \<longleftrightarrow> bound_ok kc lu \<and> bound_ok kc ru \<and>
     (case (lu, ru) of
        (Some l, Some r) \<Rightarrow> kc_key_length kc + 8 \<le> length l \<and> kc_key_length kc + 8 \<le> length r \<and>
          (attrs_of kc l < attrs_of kc r \<or> (l = r \<and> li \<and> ri))
      | _ \<Rightarrow> True)"

lemma key_rid_RID_min: "length v = kc_key_length kc \<Longrightarrow> key_rid kc (v @ rid_bytes RID_min) = Some RID_min"
  by (simp add: key_rid_def rid_bytes_def slice_def bytes_int_bytes RID_min_def int_fits_def)

lemma key_rid_RID_max: "length v = kc_key_length kc \<Longrightarrow> key_rid kc (v @ rid_bytes RID_max) = Some RID_max"
  by (simp add: key_rid_def rid_bytes_def slice_def bytes_int_bytes RID_max_def int_fits_def)

lemma bound_key:
  assumes H: "index_holds kc s E h" and b: "kc_key_length kc \<le> length u" "attrs_ok (attrs_comparator kc) u"
    and r: "key_rid kc (take (kc_key_length kc) u @ rid_bytes r) = Some r" "rid_fits r"
  shows "make_key s u r = Some (take (kc_key_length kc) u @ rid_bytes r)"
    and "key_valid kc (take (kc_key_length kc) u @ rid_bytes r)"
    and "key_rank kc (take (kc_key_length kc) u @ rid_bytes r) = attrs_of kc u @ (if unique kc then [] else [[page_num r], [slot_num r]])"
proof -
  show "make_key s u r = Some (take (kc_key_length kc) u @ rid_bytes r)" using b(1) index_holdsD(3) [OF H] by (simp add: make_key_def)
  have "length (take (kc_key_length kc) u) = kc_key_length kc" using b(1) by simp
  moreover have "attrs_ok (attrs_comparator kc) (take (kc_key_length kc) u)" "attrs_of kc (take (kc_key_length kc) u) = attrs_of kc u"
    using attrs_prefix [OF b(1), of "[]"] b(2) by simp_all
  ultimately show "key_valid kc (take (kc_key_length kc) u @ rid_bytes r)"
    "key_rank kc (take (kc_key_length kc) u @ rid_bytes r) = attrs_of kc u @ (if unique kc then [] else [[page_num r], [slot_num r]])"
    using rank_append [OF _ _ r(1)] r(2) by simp_all
qed

definition item_entry :: "KeyComparator \<Rightarrow> item \<Rightarrow> entry" where
  "item_entry kc x = (take (kc_key_length kc) (fst x), item_rid x)"

lemma item_entry: "entry_ok kc e \<Longrightarrow> item_entry kc (entry_item e) = e"
  by (simp add: item_entry_def entry_item_def entry_ok_def item_rid_def)

lemma append_le_same_length:
  fixes a b :: "'a::linorder list"
  shows "length a = length b \<Longrightarrow> a @ c \<le> b @ d \<longleftrightarrow> a < b \<or> (a = b \<and> c \<le> d)"
  using append_less_same_length [of b a d c] by (auto simp: not_less [symmetric])

text \<open>
  A unique index does not look at the RIDs of its keys, by which the code tells an exclusive bound from an inclusive one: it
  includes the bound in any case.
\<close>

lemma left_bound:
  assumes H: "index_holds kc s E h" and b: "bound_ok kc lu"
  obtains lk where "idx.left_key_for kc s lu li lk" "\<And>e. entry_ok kc e \<Longrightarrow> idx.downto kc lk (entry_item e) \<longleftrightarrow> after_left kc lu (li \<or> unique kc) e"
proof (cases lu)
  case None
  show thesis by (rule that [of None]) (simp_all add: None idx.left_key_for_def idx.downto_def after_left_def)
next
  case (Some u)
  then have u: "kc_key_length kc \<le> length u" "attrs_ok (attrs_comparator kc) u" using b by (simp_all add: bound_ok_def)
  let ?r = "if li then RID_min else RID_max" and ?n = "kc_key_length kc"
  have "length (take ?n u) = ?n" using u(1) by simp
  then have "key_rid kc (take ?n u @ rid_bytes ?r) = Some ?r" using key_rid_RID_min key_rid_RID_max by simp
  then have "key_rid kc (take ?n u @ rid_bytes ?r) = Some ?r" "rid_fits ?r" by simp_all
  note k = bound_key [OF H u this]
  show thesis
  proof (rule that [of "Some (take ?n u @ rid_bytes ?r)"])
    show "idx.left_key_for kc s lu li (Some (take ?n u @ rid_bytes ?r))" using k by (simp add: Some idx.left_key_for_def)
    fix e
    assume e: "entry_ok kc e"
    then have "rid_ok (snd e)" by (simp add: entry_ok_def)
    then show "idx.downto kc (Some (take ?n u @ rid_bytes ?r)) (entry_item e) \<longleftrightarrow> after_left kc lu (li \<or> unique kc) e"
      using entry_rank(2) [OF e] k(3)
      by (auto simp: Some idx.downto_def after_left_def append_le_same_length length_attrs_rank rid_ok_def RID_min_def RID_max_def)
  qed
qed

lemma right_bound:
  assumes H: "index_holds kc s E h" and b: "bound_ok kc ru"
  obtains rk where "idx.right_key_for kc s ru ri rk" "\<And>e. entry_ok kc e \<Longrightarrow> idx.upto kc rk (entry_item e) \<longleftrightarrow> before_right kc ru (ri \<or> unique kc) e"
proof (cases ru)
  case None
  show thesis by (rule that [of None]) (simp_all add: None idx.right_key_for_def idx.upto_def before_right_def)
next
  case (Some u)
  then have u: "kc_key_length kc \<le> length u" "attrs_ok (attrs_comparator kc) u" using b by (simp_all add: bound_ok_def)
  let ?r = "if ri then RID_max else RID_min" and ?n = "kc_key_length kc"
  have "length (take ?n u) = ?n" using u(1) by simp
  then have "key_rid kc (take ?n u @ rid_bytes ?r) = Some ?r" using key_rid_RID_min key_rid_RID_max by simp
  then have "key_rid kc (take ?n u @ rid_bytes ?r) = Some ?r" "rid_fits ?r" by simp_all
  note k = bound_key [OF H u this]
  show thesis
  proof (rule that [of "Some (take ?n u @ rid_bytes ?r)"])
    show "idx.right_key_for kc s ru ri (Some (take ?n u @ rid_bytes ?r))" using k by (simp add: Some idx.right_key_for_def)
    fix e
    assume e: "entry_ok kc e"
    then have "rid_ok (snd e)" by (simp add: entry_ok_def)
    then show "idx.upto kc (Some (take ?n u @ rid_bytes ?r)) (entry_item e) \<longleftrightarrow> before_right kc ru (ri \<or> unique kc) e"
      using entry_rank(2) [OF e] k(3)
      by (auto simp: Some idx.upto_def before_right_def append_le_same_length length_attrs_rank rid_ok_def RID_min_def RID_max_def)
  qed
qed

lemma bounds_range:
  assumes H: "index_holds kc s E h" and b: "bounds_ok kc lu li ru ri"
  shows "idx.range_ok s lu li ru ri"
proof -
  have cmp: "key_comparator s = key_compare kc" using idx.holds_common(1) [OF index_holdsD(1) [OF H]] .
  have "key_compare kc l r < 0 \<or> (key_compare kc l r = 0 \<and> li \<and> ri)" if l: "lu = Some l" and r: "ru = Some r" for l r
  proof -
    have a: "attrs_ok (attrs_comparator kc) l" "attrs_ok (attrs_comparator kc) r" "key_rid kc l \<noteq> None"
      using b by (simp_all add: bounds_ok_def bound_ok_def key_rid_def l r)
    have "attrs_of kc l < attrs_of kc r \<or> (l = r \<and> li \<and> ri)" using b by (simp add: bounds_ok_def l r)
    then show ?thesis using key_compare_attrs [OF a(1,2)] key_compare_self [OF a(1,3)] by auto
  qed
  then show ?thesis by (auto simp: idx.range_ok_def cmp split: option.split)
qed

lemma scan_step:
  assumes H: "index_holds kc s E h" and b: "bounds_ok kc lu li ru ri"
  shows "\<exists>L. scan s lu li ru ri = Some (SUCCESS, map snd L) \<and> sorted_wrt (key_before kc) L \<and>
    set L = {e \<in> E. after_left kc lu (li \<or> unique kc) e \<and> before_right kc ru (ri \<or> unique kc) e}"
proof -
  obtain lk where lk: "idx.left_key_for kc s lu li lk" "\<And>e. entry_ok kc e \<Longrightarrow> idx.downto kc lk (entry_item e) \<longleftrightarrow> after_left kc lu (li \<or> unique kc) e"
    by (rule left_bound [OF H, of lu li]) (use b in \<open>auto simp: bounds_ok_def\<close>)
  obtain rk where rk: "idx.right_key_for kc s ru ri rk" "\<And>e. entry_ok kc e \<Longrightarrow> idx.upto kc rk (entry_item e) \<longleftrightarrow> before_right kc ru (ri \<or> unique kc) e"
    by (rule right_bound [OF H, of ru ri]) (use b in \<open>auto simp: bounds_ok_def\<close>)
  obtain R where R: "scan s lu li ru ri = Some (SUCCESS, map item_rid R)" "idx.ascending kc R"
      "set R = {x \<in> entry_item ` E. idx.downto kc lk x \<and> idx.upto kc rk x}"
    using idx.scan_ok [OF index_holdsD(1) [OF H] bounds_range [OF H b] lk(1) rk(1)] by blast
  have elem: "entry_ok kc (item_entry kc x) \<and> x = entry_item (item_entry kc x)" if "x \<in> set R" for x
    using that R(3) item_entry index_holdsD(6) [OF H] by force
  have ok: "entry_ok kc e" if "e \<in> E" for e using index_holdsD(6) [OF H that] .
  let ?L = "map (item_entry kc) R"
  have "map snd ?L = map item_rid R" by (simp add: item_entry_def)
  moreover have "sorted_wrt (\<lambda>x y. key_before kc (item_entry kc x) (item_entry kc y)) R"
    using R(2) unfolding idx.ascending_def
  proof (rule sorted_wrt_mono_rel [rotated])
    fix x y
    assume "x \<in> set R" "y \<in> set R" "key_rank kc (fst x) < key_rank kc (fst y)"
    then show "key_before kc (item_entry kc x) (item_entry kc y)" using elem rank_before by metis
  qed
  then have "sorted_wrt (key_before kc) ?L" by (simp add: sorted_wrt_map)
  moreover have "set ?L = {e \<in> E. after_left kc lu (li \<or> unique kc) e \<and> before_right kc ru (ri \<or> unique kc) e}"
  proof (intro set_eqI iffI)
    fix e
    assume "e \<in> set ?L"
    then obtain x where x: "x \<in> set R" "e = item_entry kc x" by auto
    then obtain e' where e': "e' \<in> E" "x = entry_item e'" "idx.downto kc lk x" "idx.upto kc rk x" using R(3) by auto
    then have "e = e'" using x(2) item_entry [OF ok [OF e'(1)]] by simp
    then show "e \<in> {e \<in> E. after_left kc lu (li \<or> unique kc) e \<and> before_right kc ru (ri \<or> unique kc) e}" using e' lk(2) rk(2) ok by auto
  next
    fix e
    assume "e \<in> {e \<in> E. after_left kc lu (li \<or> unique kc) e \<and> before_right kc ru (ri \<or> unique kc) e}"
    then have "entry_item e \<in> set R" "item_entry kc (entry_item e) = e" using R(3) lk(2) rk(2) ok item_entry by auto
    then show "e \<in> set ?L" by (metis image_eqI list.set_map)
  qed
  ultimately show ?thesis using R(1) by (intro exI [of _ ?L]) simp
qed

section \<open>An index of six entries\<close>

definition demo_kc :: KeyComparator where
  "demo_kc = \<lparr>unique = False, attrs_comparator = [(INTS, 4)]\<rparr>"

definition demo_empty :: BplusTree where
  "demo_empty = \<lparr>file_header = \<lparr>root_page = - 1, internal_max_size = 6, leaf_max_size = 4, attr_length = 4, key_length = 12\<rparr>,
     key_comparator = key_compare demo_kc, nodes = Map.empty, free_pages = [], page_count = 2, max_pages = 100, disposed_pages = [],
     logged = [], wal = []\<rparr>"

definition demo_entry :: "int \<Rightarrow> entry" where
  "demo_entry i = (int_bytes 4 (10 * i), RID 1 i)"

fun demo_inserts :: "int list \<Rightarrow> BplusTree \<Rightarrow> BplusTree" where
  "demo_inserts [] s = s"
| "demo_inserts (i # is) s =
     demo_inserts is (case insert_entry (Some (fst (demo_entry i))) (Some (snd (demo_entry i))) s of None \<Rightarrow> s | Some (rc, s') \<Rightarrow> s')"

definition demo_index :: BplusTree where
  "demo_index = demo_inserts [3, 1, 5, 2, 6, 4] demo_empty"

lemma demo_rooms:
  "room (demo_inserts [3] demo_empty) = 97" "room (demo_inserts [3, 1] demo_empty) = 97" "room (demo_inserts [3, 1, 5] demo_empty) = 97"
  "room (demo_inserts [3, 1, 5, 2] demo_empty) = 97" "room (demo_inserts [3, 1, 5, 2, 6] demo_empty) = 95" "room demo_index = 95"
  by code_simp+

lemma small_heights:
  assumes "index_holds kc s E h"
  shows "h = 0 \<or> 2 * ((internal_max_size (file_header s) div 2) ^ (h - 1) * (leaf_max_size (file_header s) div 2)) \<le> card E"
    and "h \<le> card E"
proof -
  let ?M = "internal_max_size (file_header s) div 2" and ?L = "leaf_max_size (file_header s) div 2"
  note H = index_holdsD [OF assms]
  have big: "2 \<le> ?M" "2 \<le> ?L" using div_le_mono [OF H(5), of 2] div_le_mono [OF H(4), of 2] by simp_all
  have c: "card (entry_item ` E) \<le> card E"
    using idx.finite_holds [OF H(1)] H(6) by (intro card_image_le) (metis finite_imageD inj_onI entry_item_inj entry_ok_def)
  have b: "2 * (?M ^ l * ?L) \<le> card E" if "h = Suc l" for l using idx.height_bound [of kc s "entry_item ` E" l] H(1) c that by simp
  show "h = 0 \<or> 2 * (?M ^ (h - 1) * ?L) \<le> card E" using b by (cases h) auto
  show "h \<le> card E"
  proof (cases h)
    case (Suc l)
    have "Suc l < 2 ^ Suc l" by (rule less_exp)
    also have "(2::nat) ^ Suc l \<le> 2 * ?M ^ l" using power_mono [OF big(1), of l] by simp
    also have "... \<le> 2 * (?M ^ l * ?L)" using big(2) by simp
    finally show ?thesis using b [OF Suc] Suc by simp
  qed simp
qed

lemma demo_entry_ok: "1 \<le> i \<Longrightarrow> i \<le> 6 \<Longrightarrow> entry_ok demo_kc (demo_entry i)"
  by (simp add: entry_ok_def demo_entry_def demo_kc_def kc_key_length_def attr_ok_def bytes_int_bytes int_fits_def INT_NULL_def rid_ok_def)

lemma demo_insert:
  assumes H: "\<exists>h. index_holds demo_kc s (demo_entry ` I) h" and i: "1 \<le> i" "i \<le> 6" "i \<notin> I" and rm: "Suc (card I) < room s" and fin: "finite I"
  shows "\<exists>h. index_holds demo_kc (demo_inserts [i] s) (demo_entry ` insert i I) h"
proof -
  obtain h where h: "index_holds demo_kc s (demo_entry ` I) h" using H by blast
  have "h \<le> card (demo_entry ` I)" by (rule small_heights(2) [OF h])
  then have rm': "Suc h < room s" using rm card_image_le [OF fin, of demo_entry] by simp
  have tk: "(take (kc_key_length demo_kc) (fst (demo_entry i)), snd (demo_entry i)) = demo_entry i"
    by (simp add: demo_entry_def demo_kc_def kc_key_length_def)
  have new: "\<not> (\<exists>a\<in>demo_entry ` I. same_key demo_kc a (demo_entry i))" using i(3) by (auto simp: same_key_def demo_entry_def demo_kc_def)
  show ?thesis
    using insert_step [OF h _ rm', of "fst (demo_entry i)" "snd (demo_entry i)"] demo_entry_ok [OF i(1,2)] new unfolding tk
    by (auto simp: set_insert_def)
qed

lemma demo_empty_holds: "index_holds demo_kc demo_empty {} 0"
  by (simp add: index_holds_def idx.holds_def demo_empty_def is_empty_def BP_INVALID_PAGE_NUM_def pool_ok_def demo_kc_def kc_key_length_def)

lemma demo_index_holds: "\<exists>h. index_holds demo_kc demo_index (demo_entry ` {1, 2, 3, 4, 5, 6}) h"
proof -
  let ?s = "\<lambda>is. demo_inserts is demo_empty"
  have e: "\<exists>h. index_holds demo_kc (?s []) (demo_entry ` {}) h" using demo_empty_holds by auto
  have "\<exists>h. index_holds demo_kc (?s [3]) (demo_entry ` {3}) h"
    using demo_insert [OF e, of 3] by (simp add: demo_empty_def room_def)
  from demo_insert [OF this, of 1] have "\<exists>h. index_holds demo_kc (?s [3, 1]) (demo_entry ` {1, 3}) h"
    using demo_rooms(1) by simp
  from demo_insert [OF this, of 5] have "\<exists>h. index_holds demo_kc (?s [3, 1, 5]) (demo_entry ` {5, 1, 3}) h"
    using demo_rooms(2) by simp
  from demo_insert [OF this, of 2] have "\<exists>h. index_holds demo_kc (?s [3, 1, 5, 2]) (demo_entry ` {2, 5, 1, 3}) h"
    using demo_rooms(3) by simp
  from demo_insert [OF this, of 6] have "\<exists>h. index_holds demo_kc (?s [3, 1, 5, 2, 6]) (demo_entry ` {6, 2, 5, 1, 3}) h"
    using demo_rooms(4) by simp
  from demo_insert [OF this, of 4] have "\<exists>h. index_holds demo_kc demo_index (demo_entry ` {4, 6, 2, 5, 1, 3}) h"
    using demo_rooms(5) by (simp add: demo_index_def)
  moreover have "{4, 6, 2, 5, 1, 3} = {1, 2, 3, 4, 5, 6 :: int}" by auto
  ultimately show ?thesis by simp
qed

section \<open>Where the code departs from this\<close>

text \<open>
  A unique index does not look at the RIDs of its keys, so a scan with an exclusive left bound starts at the bound. An entry whose
  attribute is NULL is found by no deletion. An internal node of one child asks the key at index 0, which was never written.
\<close>

definition demo_unique :: BplusTree where
  "demo_unique = demo_inserts [1, 2] (demo_empty\<lparr>key_comparator := key_compare (demo_kc\<lparr>unique := True\<rparr>)\<rparr>)"

lemma unique_scan_includes_bound:
  "scan demo_unique (Some (int_bytes 4 10 @ replicate 8 0)) False None True = Some (SUCCESS, [RID 1 1, RID 1 2])"
  by code_simp

lemma null_entry_stays:
  "(case insert_entry (Some (int_bytes 4 INT_NULL)) (Some (RID 1 1)) demo_empty of
      Some (rc, s) \<Rightarrow> map_option fst (delete_entry (int_bytes 4 INT_NULL) (RID 1 1) s)
    | None \<Rightarrow> None) = Some RECORD_NOT_EXIST"
  by code_simp

text \<open>
  The right user key carries the memory behind its attributes into the comparison of the two bounds: equal inclusive bounds are
  refused when the bytes behind the left one are greater.
\<close>

lemma equal_bounds_refused:
  "scan demo_index (Some (int_bytes 4 10 @ replicate 8 1)) True (Some (int_bytes 4 10 @ replicate 8 0)) True = Some (INVALID_ARGUMENT, [])"
  by code_simp

text \<open>An insertion that runs out of pages after its leaf was split cannot be rolled back.\<close>

lemma rollback_fails:
  "insert_entry (Some (int_bytes 4 50)) (Some (RID 1 5)) (demo_inserts [1, 2, 3, 4] (demo_empty\<lparr>max_pages := 4\<rparr>)) = None"
  by code_simp




section \<open>Properties\<close>

text \<open>
  C2: (refinement) Inserting a user key with a RID into an index of the entries \<open>E\<close> is the insertion into the set: an entry with the
  same key is answered with \<^verbatim>\<open>RECORD_DUPLICATE_KEY\<close> and changes nothing, any other key is added, whatever splits that takes up
  to the root; the tree is well formed again. The pool must have a page for every level and one more.
\<close>

theorem index_insert:
  assumes "index_holds kc s E h" and "entry_ok kc (take (kc_key_length kc) user_key, rid)" and "Suc h < room s"
  shows "\<exists>s' h'. insert_entry (Some user_key) (Some rid) s = Some (fst (set_insert kc (take (kc_key_length kc) user_key, rid) E), s') \<and>
    index_holds kc s' (snd (set_insert kc (take (kc_key_length kc) user_key, rid) E)) h'"
  using insert_step [OF assms] .

theorem index_insert_witness:
  "\<exists>s' h'. insert_entry (Some (int_bytes 4 10)) (Some (RID 1 1)) demo_empty = Some (SUCCESS, s') \<and> index_holds demo_kc s' {demo_entry 1} h'"
proof -
  have "take (kc_key_length demo_kc) (int_bytes 4 10) = int_bytes 4 10" by (simp add: demo_kc_def kc_key_length_def)
  moreover have "entry_ok demo_kc (int_bytes 4 10, RID 1 1)" using demo_entry_ok [of 1] by (simp add: demo_entry_def)
  moreover have "Suc 0 < room demo_empty" by (simp add: demo_empty_def room_def)
  ultimately show ?thesis
    using index_insert [OF demo_empty_holds, of "int_bytes 4 10" "RID 1 1"] by (simp add: set_insert_def demo_entry_def)
qed

text \<open>
  C4: (refinement) Deleting a user key with a RID from an index of the entries \<open>E\<close> removes the entry with that key from the set, or
  answers \<^verbatim>\<open>RECORD_NOT_EXIST\<close> when there is none; pages that fall below their minimum are merged with a neighbour or take an
  item of it, up to the root, and the tree is well formed again.
\<close>

theorem index_delete:
  assumes "index_holds kc s E h" and "entry_ok kc (take (kc_key_length kc) user_key, rid)"
  shows "\<exists>s' h'. delete_entry user_key rid s = Some (fst (set_delete kc (take (kc_key_length kc) user_key, rid) E), s') \<and>
    index_holds kc s' (snd (set_delete kc (take (kc_key_length kc) user_key, rid) E)) h'"
  using delete_step [OF assms] .

lemma demo_same_key: "same_key demo_kc (demo_entry i) (demo_entry j) \<longleftrightarrow> i = j"
  by (auto simp: same_key_def demo_entry_def demo_kc_def)

theorem index_delete_witness:
  "\<exists>s' h'. delete_entry (int_bytes 4 20) (RID 1 2) demo_index = Some (SUCCESS, s') \<and>
     index_holds demo_kc s' (demo_entry ` {1, 3, 4, 5, 6}) h'"
proof -
  obtain h where h: "index_holds demo_kc demo_index (demo_entry ` {1, 2, 3, 4, 5, 6}) h" using demo_index_holds by blast
  have e: "(take (kc_key_length demo_kc) (int_bytes 4 20), RID 1 2) = demo_entry 2"
    by (simp add: demo_kc_def kc_key_length_def demo_entry_def)
  have d: "set_delete demo_kc (demo_entry 2) (demo_entry ` {1, 2, 3, 4, 5, 6}) = (SUCCESS, demo_entry ` {1, 3, 4, 5, 6})"
    by (auto simp: set_delete_def demo_same_key)
  show ?thesis using index_delete [OF h, of "int_bytes 4 20" "RID 1 2"] demo_entry_ok [of 2] unfolding e d by simp
qed



text \<open>
  C35: (functional) \<^verbatim>\<open>get_entry\<close> returns the RIDs of the entries with the attributes of the user key, in their order, and an empty list
  when there is none.
\<close>

theorem index_get_entry:
  assumes "index_holds kc s E h" and "kc_key_length kc + 8 \<le> length user_key" and "attrs_ok (attrs_comparator kc) user_key"
  shows "\<exists>L. get_entry user_key s = Some (SUCCESS, map snd L) \<and> sorted_wrt (key_before kc) L \<and>
    set L = {e \<in> E. attrs_of kc (fst e) = attrs_of kc user_key}"
proof -
  have "bounds_ok kc (Some user_key) True (Some user_key) True" using assms(2,3) by (simp add: bounds_ok_def bound_ok_def)
  moreover have "after_left kc (Some user_key) (True \<or> unique kc) e \<and> before_right kc (Some user_key) (True \<or> unique kc) e \<longleftrightarrow> attrs_of kc (fst e) = attrs_of kc user_key" for e
    by (auto simp: after_left_def before_right_def)
  ultimately show ?thesis using scan_step [OF assms(1), of "Some user_key" True "Some user_key" True] by (simp add: get_entry_def)
qed

theorem index_get_entry_witness:
  "\<exists>L. get_entry (int_bytes 4 40 @ replicate 8 0) demo_index = Some (SUCCESS, map snd L) \<and> set L = {demo_entry 4}"
proof -
  let ?I = "{1, 2, 3, 4, 5, 6 :: int}"
  obtain h where h: "index_holds demo_kc demo_index (demo_entry ` ?I) h" using demo_index_holds by blast
  have k: "kc_key_length demo_kc + 8 \<le> length (int_bytes 4 40 @ replicate 8 0 :: byte list)"
    "attrs_ok (attrs_comparator demo_kc) (int_bytes 4 40 @ replicate 8 0)"
    by (simp_all add: demo_kc_def kc_key_length_def attr_ok_def bytes_int_bytes int_fits_def INT_NULL_def)
  have a: "attrs_of demo_kc (int_bytes 4 40 @ replicate 8 0) = [[40]]"
    by (simp add: demo_kc_def attr_rank_def bytes_int_bytes int_fits_def)
  have b: "attrs_of demo_kc (fst (demo_entry i)) = [[40]] \<longleftrightarrow> i = 4" if "1 \<le> i" "i \<le> 6" for i
    using that by (simp add: demo_kc_def demo_entry_def attr_rank_def bytes_int_bytes int_fits_def)
  have I: "1 \<le> i \<and> i \<le> 6" if "i \<in> ?I" for i using that by auto
  have "{e \<in> demo_entry ` ?I. attrs_of demo_kc (fst e) = [[40]]} = demo_entry ` {i \<in> ?I. i = 4}"
    using b I by blast
  also have "{i \<in> ?I. i = 4} = {4}" by auto
  finally show ?thesis using index_get_entry [OF h k] unfolding a by auto
qed

text \<open>
  C36: (invariant) Between operations the checks of the code itself pass: \<^verbatim>\<open>validate_tree\<close> finds the keys of every page in order, every
  child linked to its parent, every page between the keys its parent gives it, and the leaves linked in ascending order.
\<close>

theorem index_validates:
  assumes "index_holds kc s E h"
  shows "validate_tree s = Some True"
  using idx.validate_tree_ok [OF index_holdsD(1) [OF assms]] index_holdsD(5) [OF assms] by simp

theorem index_validates_witness: "validate_tree demo_index = Some True"
  using demo_index_holds index_validates by blast

text \<open>
  C37: (bounds) A search for a key reads one page per level, \<open>Suc h\<close> in all, and the height grows with the logarithm of the number
  of entries: every page but the root is at least half full.
\<close>

theorem index_search_bound:
  assumes "index_holds kc s E h" and "E \<noteq> {}" and "key_valid kc k"
  shows "\<exists>pages. search_path (Suc h) (child_for (key_compare kc) k) (root_page (file_header s)) s = Some pages \<and> length pages = Suc h \<and>
    find_leaf k s = Some (SUCCESS, last pages) \<and>
    (h = 0 \<or> 2 * ((internal_max_size (file_header s) div 2) ^ (h - 1) * (leaf_max_size (file_header s) div 2)) \<le> card E)"
  using idx.search_height [OF index_holdsD(1) [OF assms(1)] _ assms(3)] assms(2) small_heights(1) [OF assms(1)] by fastforce

theorem index_search_bound_witness:
  "\<exists>h pages. search_path (Suc h) (child_for (key_compare demo_kc) (fst (entry_item (demo_entry 4)))) 4 demo_index = Some pages \<and>
     length pages = Suc h \<and> h \<le> 1"
proof -
  obtain h where h: "index_holds demo_kc demo_index (demo_entry ` {1, 2, 3, 4, 5, 6}) h" using demo_index_holds by blast
  have hd: "root_page (file_header demo_index) = 4" "internal_max_size (file_header demo_index) = 6" "leaf_max_size (file_header demo_index) = 4"
    by code_simp+
  obtain pages where p: "search_path (Suc h) (child_for (key_compare demo_kc) (fst (entry_item (demo_entry 4)))) 4 demo_index = Some pages"
      "length pages = Suc h" "h = 0 \<or> 2 * ((6 div 2) ^ (h - 1) * (4 div 2)) \<le> card (demo_entry ` {1, 2, 3, 4, 5, 6})"
    using index_search_bound [OF h _ entry_rank(1) [OF demo_entry_ok [of 4]]] unfolding hd by auto
  have "card (demo_entry ` {1, 2, 3, 4, 5, 6}) \<le> 6" by (rule order_trans [OF card_image_le]) simp_all
  moreover have "h \<le> 1 \<or> 12 \<le> 2 * ((3::nat) ^ (h - 1) * 2)"
  proof (cases "h \<le> 1")
    case False
    then have "(3::nat) ^ 1 \<le> 3 ^ (h - 1)" by (intro power_increasing) simp_all
    then show ?thesis by simp
  qed simp
  ultimately show ?thesis using p by auto
qed

end
