(* ===== verification/Bplus_Redo.thy ===== *)
theory Bplus_Redo
  imports Bplus_Replay Bplus_Index
begin

text \<open>
  Recovery of a B+ tree from its log: a payload reads back as the entries that were logged, and replaying the payloads of a run
  brings every page of the file from any version that a crash can leave to its version at the end of the run.
\<close>

section \<open>Reading a payload\<close>

definition item_fits :: "nat \<Rightarrow> bool \<Rightarrow> item \<Rightarrow> bool" where
  "item_fits kl leaf x \<longleftrightarrow> length (fst x) = kl \<and>
     (case snd x of Rid r \<Rightarrow> leaf \<and> int_fits 32 (page_num r) \<and> int_fits 32 (slot_num r) | Page c \<Rightarrow> \<not> leaf \<and> int_fits 32 c)"

fun kind_fits :: "nat \<Rightarrow> LogEntryHandler \<Rightarrow> page_content \<Rightarrow> bool" where
  \<comment> \<open>inserted items are of the kind of their node\<close>
  "kind_fits kl (Node_insert pn index its) (Node nd) = list_all (item_fits kl (is_leaf nd)) its"
| "kind_fits kl e c = True"

fun fits_on :: "nat \<Rightarrow> int \<Rightarrow> LogEntryHandler list \<Rightarrow> page_content \<Rightarrow> bool" where
  "fits_on kl p [] c = True"
| "fits_on kl p (e # es) c =
     (if entry_page e = p
      then kind_fits kl e c \<and> (case redo_content kl e c of None \<Rightarrow> False | Some c' \<Rightarrow> fits_on kl p es c')
      else fits_on kl p es c)"

definition entry_fields :: "LogEntryHandler \<Rightarrow> field list" where
  "entry_fields e = [I32 (operation_index e), I32 (entry_page e)] @ body_fields e"

definition numbers_fit :: "LogEntryHandler \<Rightarrow> bool" where
  "numbers_fit e \<longleftrightarrow> list_all field_fits (entry_fields e)"

fun logged_handler :: "LogEntryHandler \<Rightarrow> RedoHandler" where
  \<comment> \<open>how an entry comes back\<close>
  "logged_handler (Update_root_page root old) = Redo (Update_root_page root (- 1))"
| "logged_handler (Set_parent_page pn p old) = Redo (Set_parent_page pn p (- 1))"
| "logged_handler (Leaf_init_empty pn) = Redo (Leaf_init_empty pn)"
| "logged_handler (Leaf_set_next_page pn n old) = Redo (Leaf_set_next_page pn n (- 1))"
| "logged_handler (Internal_init_empty pn) = Redo (Internal_init_empty pn)"
| "logged_handler (Internal_create_new_root pn first k page) = Redo (Internal_create_new_root pn first k page)"
| "logged_handler (Internal_update_key pn i k old) = Redo_key pn (int i) k"
| "logged_handler (Node_insert pn index its) = Redo_items True pn (int index) (int (length its)) (concat (map item_bytes its))"
| "logged_handler (Node_remove pn index its) = Redo_items False pn (int index) (int (length its)) (concat (map item_bytes its))"

lemma redo_page_logged [simp]: "redo_page (logged_handler e) = entry_page e"
  by (cases e) simp_all

lemma rd32_unread:
  assumes "des_wf d" and "unread d = int_bytes 4 v @ rest" and "int_fits 32 v"
  obtains d' where "rd32 d = Some (v, d')" "des_wf d'" "unread d' = rest"
  using read_int32_unread [OF assms, of "- 1"] that by (auto simp: rd32_def)

lemma rd_vector_unread:
  assumes "des_wf d" and "unread d = xs @ rest"
  obtains d' where "rd_vector (int (length xs)) d = Some (xs, d')" "des_wf d'" "unread d' = rest"
  using des_read_unread [OF assms, of "replicate (length xs) 0"] that by (auto simp: rd_vector_def)

lemma read_items_unread:
  assumes "des_wf d" "unread d = concat (map field_bytes (items_fields index its)) @ rest" "list_all field_fits (items_fields index its)"
  obtains d' where "read_items ins pn d = Some (Redo_items ins pn (int index) (int (length its)) (concat (map item_bytes its)), d')"
    "des_wf d'" "unread d' = rest"
proof -
  have f: "int_fits 32 (int index)" "int_fits 32 (int (length its))" "int_fits 32 (int (length (concat (map item_bytes its))))"
    using assms(3) by simp_all
  have u: "unread d = int_bytes 4 (int index) @ int_bytes 4 (int (length its)) @
      int_bytes 4 (int (length (concat (map item_bytes its)))) @ concat (map item_bytes its) @ rest"
    using assms(2) by simp
  obtain d1 where 1: "rd32 d = Some (int index, d1)" "des_wf d1"
      "unread d1 = int_bytes 4 (int (length its)) @ int_bytes 4 (int (length (concat (map item_bytes its)))) @ concat (map item_bytes its) @ rest"
    by (rule rd32_unread [OF assms(1) u f(1)])
  obtain d2 where 2: "rd32 d1 = Some (int (length its), d2)" "des_wf d2"
      "unread d2 = int_bytes 4 (int (length (concat (map item_bytes its)))) @ concat (map item_bytes its) @ rest"
    by (rule rd32_unread [OF 1(2,3) f(2)])
  obtain d3 where 3: "rd32 d2 = Some (int (length (concat (map item_bytes its))), d3)" "des_wf d3" "unread d3 = concat (map item_bytes its) @ rest"
    by (rule rd32_unread [OF 2(2,3) f(3)])
  obtain d4 where 4: "rd_vector (int (length (concat (map item_bytes its)))) d3 = Some (concat (map item_bytes its), d4)" "des_wf d4" "unread d4 = rest"
    by (rule rd_vector_unread [OF 3(2,3)])
  show thesis by (rule that [of d4]) (simp_all add: read_items_def 1(1) 2(1) 3(1) 4 del: length_concat map_map)
qed

lemma read_body_unread:
  assumes "des_wf d" "unread d = concat (map field_bytes (body_fields e)) @ rest" "list_all field_fits (body_fields e)"
  obtains d' where "read_body (operation_index e) (entry_page e) d = Some (logged_handler e, d')" "des_wf d'" "unread d' = rest"
proof (cases e)
  case (Internal_create_new_root pn first k page)
  have f: "int_fits 32 first" "int_fits 32 page" "int_fits 32 (int (length k))" using assms(3) by (simp_all add: Internal_create_new_root)
  have u: "unread d = int_bytes 4 first @ int_bytes 4 page @ int_bytes 4 (int (length k)) @ k @ rest" using assms(2) by (simp add: Internal_create_new_root)
  obtain d1 where 1: "rd32 d = Some (first, d1)" "des_wf d1" "unread d1 = int_bytes 4 page @ int_bytes 4 (int (length k)) @ k @ rest"
    by (rule rd32_unread [OF assms(1) u f(1)])
  obtain d2 where 2: "rd32 d1 = Some (page, d2)" "des_wf d2" "unread d2 = int_bytes 4 (int (length k)) @ k @ rest"
    by (rule rd32_unread [OF 1(2,3) f(2)])
  obtain d3 where 3: "rd32 d2 = Some (int (length k), d3)" "des_wf d3" "unread d3 = k @ rest" by (rule rd32_unread [OF 2(2,3) f(3)])
  obtain d4 where 4: "rd_vector (int (length k)) d3 = Some (k, d4)" "des_wf d4" "unread d4 = rest" by (rule rd_vector_unread [OF 3(2,3)])
  show thesis by (rule that [of d4]) (simp_all add: read_body_def Internal_create_new_root read_new_root_def 1(1) 2(1) 3(1) 4)
next
  case (Internal_update_key pn i k old)
  have f: "int_fits 32 (int i)" "int_fits 32 (int (length k))" using assms(3) by (simp_all add: Internal_update_key)
  have u: "unread d = int_bytes 4 (int i) @ int_bytes 4 (int (length k)) @ k @ rest" using assms(2) by (simp add: Internal_update_key)
  obtain d1 where 1: "rd32 d = Some (int i, d1)" "des_wf d1" "unread d1 = int_bytes 4 (int (length k)) @ k @ rest"
    by (rule rd32_unread [OF assms(1) u f(1)])
  obtain d2 where 2: "rd32 d1 = Some (int (length k), d2)" "des_wf d2" "unread d2 = k @ rest" by (rule rd32_unread [OF 1(2,3) f(2)])
  obtain d3 where 3: "rd_vector (int (length k)) d2 = Some (k, d3)" "des_wf d3" "unread d3 = rest" by (rule rd_vector_unread [OF 2(2,3)])
  show thesis by (rule that [of d3]) (simp_all add: read_body_def Internal_update_key read_key_update_def 1(1) 2(1) 3)
next
  case (Node_insert pn index its)
  obtain d' where d: "read_items True pn d = Some (Redo_items True pn (int index) (int (length its)) (concat (map item_bytes its)), d')"
      "des_wf d'" "unread d' = rest"
    by (rule read_items_unread [OF assms(1)]) (use assms(2,3) in \<open>simp_all add: Node_insert\<close>)
  show thesis by (rule that [of d']) (simp_all add: read_body_def Node_insert d)
next
  case (Node_remove pn index its)
  obtain d' where d: "read_items False pn d = Some (Redo_items False pn (int index) (int (length its)) (concat (map item_bytes its)), d')"
      "des_wf d'" "unread d' = rest"
    by (rule read_items_unread [OF assms(1)]) (use assms(2,3) in \<open>simp_all add: Node_remove\<close>)
  show thesis by (rule that [of d']) (simp_all add: read_body_def Node_remove d)
next
  case (Update_root_page root old)
  obtain d' where "rd32 d = Some (root, d')" "des_wf d'" "unread d' = rest"
    by (rule rd32_unread [OF assms(1), of root rest]) (use assms(2,3) in \<open>simp_all add: Update_root_page\<close>)
  then show thesis by (intro that [of d']) (simp_all add: read_body_def Update_root_page)
next
  case (Set_parent_page pn p old)
  obtain d' where "rd32 d = Some (p, d')" "des_wf d'" "unread d' = rest"
    by (rule rd32_unread [OF assms(1), of p rest]) (use assms(2,3) in \<open>simp_all add: Set_parent_page\<close>)
  then show thesis by (intro that [of d']) (simp_all add: read_body_def Set_parent_page)
next
  case (Leaf_set_next_page pn n old)
  obtain d' where "rd32 d = Some (n, d')" "des_wf d'" "unread d' = rest"
    by (rule rd32_unread [OF assms(1), of n rest]) (use assms(2,3) in \<open>simp_all add: Leaf_set_next_page\<close>)
  then show thesis by (intro that [of d']) (simp_all add: read_body_def Leaf_set_next_page)
qed (use assms that [of d] in \<open>simp_all add: read_body_def\<close>)

lemma operation_index_bounds: "1 \<le> operation_index e" "operation_index e < 10"
  by (cases e; simp)+

lemma from_buffer_unread:
  assumes "des_wf d" "unread d = concat (map field_bytes (entry_fields e)) @ rest" "numbers_fit e" "st (entry_page e) \<noteq> None"
  obtains d' where "from_buffer st d = Some (Inr (logged_handler e, d'))" "des_wf d'" "unread d' = rest"
proof -
  have f: "int_fits 32 (operation_index e)" "int_fits 32 (entry_page e)" "list_all field_fits (body_fields e)"
    using assms(3) by (simp_all add: numbers_fit_def entry_fields_def)
  have u: "unread d = int_bytes 4 (operation_index e) @ int_bytes 4 (entry_page e) @ concat (map field_bytes (body_fields e)) @ rest"
    using assms(2) by (simp add: entry_fields_def)
  obtain d1 where 1: "rd32 d = Some (operation_index e, d1)" "des_wf d1"
      "unread d1 = int_bytes 4 (entry_page e) @ concat (map field_bytes (body_fields e)) @ rest" by (rule rd32_unread [OF assms(1) u f(1)])
  obtain d2 where 2: "rd32 d1 = Some (entry_page e, d2)" "des_wf d2" "unread d2 = concat (map field_bytes (body_fields e)) @ rest"
    by (rule rd32_unread [OF 1(2,3) f(2)])
  obtain d3 where 3: "read_body (operation_index e) (entry_page e) d2 = Some (logged_handler e, d3)" "des_wf d3" "unread d3 = rest"
    by (rule read_body_unread [OF 2(2,3) f(3)])
  show thesis using operation_index_bounds [of e] assms(4) by (intro that [of d3]) (auto simp: from_buffer_def 1(1) 2(1) 3)
qed

lemma items_of_bytes_back:
  "list_all (item_fits kl leaf) its \<Longrightarrow> items_of_bytes kl leaf (length its) (concat (map item_bytes its) @ rest) = Some its"
proof (induction its arbitrary: rest)
  case (Cons x its)
  obtain k v where x: "x = (k, v)" by (cases x)
  have k: "length k = kl" using Cons(2) by (simp add: x item_fits_def)
  show ?case
  proof (cases v)
    case (Rid r)
    have "leaf" "int_fits 32 (page_num r)" "int_fits 32 (slot_num r)" using Cons(2) by (simp_all add: x Rid item_fits_def)
    moreover from this have "value_of_bytes leaf (rid_bytes r) = Rid r"
      by (simp add: value_of_bytes_def rid_bytes_def slice_def bytes_int_bytes)
    moreover have "items_of_bytes kl leaf (length its) (concat (map item_bytes its) @ rest) = Some its" using Cons by simp
    moreover have "length (rid_bytes r) = 8" by (simp add: rid_bytes_def)
    moreover have "item_bytes x = k @ rid_bytes r" by (simp add: x Rid item_bytes_def)
    ultimately show ?thesis using k by (simp add: x Rid Let_def)
  next
    case (Page c)
    have "\<not> leaf" "int_fits 32 c" using Cons(2) by (simp_all add: x Page item_fits_def)
    moreover from this have "value_of_bytes leaf (int_bytes 4 c) = Page c" by (simp add: value_of_bytes_def bytes_int_bytes)
    moreover have "items_of_bytes kl leaf (length its) (concat (map item_bytes its) @ rest) = Some its" using Cons by simp
    moreover have "item_bytes x = k @ int_bytes 4 c" by (simp add: x Page item_bytes_def)
    ultimately show ?thesis using k by (simp add: x Page Let_def)
  qed
qed simp

lemma redo_logged:
  assumes "kind_fits kl e c" "redo_content kl e c = Some c'"
  shows "redo_handler kl (logged_handler e) c = Some c'"
proof (cases e)
  case (Node_insert pn index its)
  then obtain nd where nd: "c = Node nd" using assms(2) by (cases c) simp_all
  have "items_of_bytes kl (is_leaf nd) (length its) (concat (map item_bytes its)) = Some its"
    using items_of_bytes_back [of kl "is_leaf nd" its "[]"] assms(1) by (simp add: Node_insert nd)
  then show ?thesis using assms(2) by (simp add: Node_insert nd)
next
  case (Node_remove pn index its)
  then show ?thesis using assms(2) by (cases c) simp_all
qed (use assms(2) in \<open>cases c; simp\<close>)+

section \<open>Redoing a payload\<close>

lemma set_page_lsn_fold:
  "fold (set_page_lsn lsn) ps (\<lambda>p. Some (l p, c p)) = (\<lambda>p. Some (if p \<in> set ps then lsn else l p, c p))"
proof (induction ps arbitrary: l)
  case (Cons q ps)
  have "set_page_lsn lsn q (\<lambda>p. Some (l p, c p)) = (\<lambda>p. Some ((l(q := lsn)) p, c p))" by (auto simp: set_page_lsn_def)
  then have "fold (set_page_lsn lsn) (q # ps) (\<lambda>p. Some (l p, c p)) = fold (set_page_lsn lsn) ps (\<lambda>p. Some ((l(q := lsn)) p, c p))"
    by (simp only: fold_Cons o_apply)
  also have "... = (\<lambda>p. Some (if p \<in> set ps then lsn else (l(q := lsn)) p, c p))" by (rule Cons)
  also have "... = (\<lambda>p. Some (if p \<in> set (q # ps) then lsn else l p, c p))" by (simp add: fun_eq_iff)
  finally show ?case .
qed simp

lemma unread_remain: "des_wf d \<Longrightarrow> remain d = int (length (unread d))"
  by (auto simp: remain_def unread_def des_wf_def)

lemma entry_bytes_nonempty: "0 < length (concat (map field_bytes (entry_fields e)))"
  by (simp add: entry_fields_def)

lemma redo_loop_payload:
  \<comment> \<open>the pages with a smaller LSN get the effect of the entries, the others stay\<close>
  "des_wf d \<Longrightarrow> unread d = concat (map (\<lambda>e. concat (map field_bytes (entry_fields e))) es) \<Longrightarrow> list_all numbers_fit es \<Longrightarrow>
   (\<And>p. if lsn \<le> l p then c' p = c p else fits_on kl p es (c p) \<and> redo_on kl p es (c p) = Some (c' p)) \<Longrightarrow>
   redo_loop lsn kl ps d (\<lambda>p. Some (l p, c p)) =
     Some (\<lambda>p. Some (if p \<in> set ps \<or> (p \<in> entry_page ` set es \<and> l p < lsn) then lsn else l p, c' p))"
proof (induction es arbitrary: d c ps)
  case Nil
  have "remain d \<le> 0" using Nil(1,2) by (simp add: unread_remain)
  moreover have "c' = c" using Nil(4) by (metis ext option.inject redo_on.simps(1))
  ultimately show ?case by (subst redo_loop.simps) (simp add: set_page_lsn_fold)
next
  case (Cons e es)
  let ?p = "entry_page e"
  have u: "unread d = concat (map field_bytes (entry_fields e)) @ concat (map (\<lambda>e. concat (map field_bytes (entry_fields e))) es)"
    using Cons.prems(2) by simp
  obtain d' where d': "from_buffer (\<lambda>p. Some (l p, c p)) d = Some (Inr (logged_handler e, d'))" "des_wf d'"
      "unread d' = concat (map (\<lambda>e. concat (map field_bytes (entry_fields e))) es)"
    by (rule from_buffer_unread [OF Cons.prems(1) u, where st = "\<lambda>p. Some (l p, c p)"]) (use Cons.prems(3) in simp_all)
  have r: "\<not> remain d \<le> 0" unfolding unread_remain [OF Cons.prems(1)] u length_append using entry_bytes_nonempty [of e] by linarith
  have fit: "list_all numbers_fit es" using Cons.prems(3) by simp
  show ?case
  proof (cases "lsn \<le> l ?p")
    case True
    have "if lsn \<le> l p then c' p = c p else fits_on kl p es (c p) \<and> redo_on kl p es (c p) = Some (c' p)" for p
      using Cons.prems(4) [of p] True by (cases "?p = p") auto
    from Cons.IH [OF d'(2,3) fit this] show ?thesis
      using r d'(1) True by (subst redo_loop.simps) (auto simp: fun_eq_iff)
  next
    case False
    obtain c1 where c1: "redo_content kl e (c ?p) = Some c1" "kind_fits kl e (c ?p)" "fits_on kl ?p es c1" "redo_on kl ?p es c1 = Some (c' ?p)"
      using Cons.prems(4) [of ?p] False by (auto simp: bind_eq_Some_conv split: option.splits)
    have "if lsn \<le> l p then c' p = (c(?p := c1)) p else fits_on kl p es ((c(?p := c1)) p) \<and> redo_on kl p es ((c(?p := c1)) p) = Some (c' p)" for p
      using Cons.prems(4) [of p] False c1 by (cases "?p = p") auto
    note IH = Cons.IH [OF d'(2,3) fit this, of "ps @ [?p]"]
    have upd: "(\<lambda>p. Some (l p, c p))(?p \<mapsto> (l ?p, c1)) = (\<lambda>p. Some (l p, (c(?p := c1)) p))" by auto
    have "redo_loop lsn kl ps d (\<lambda>p. Some (l p, c p)) = redo_loop lsn kl (ps @ [?p]) d' ((\<lambda>p. Some (l p, c p))(?p \<mapsto> (l ?p, c1)))"
      using r d'(1) False redo_logged [OF c1(2,1)] by (subst redo_loop.simps) simp
    then show ?thesis unfolding upd IH using False by (auto simp: fun_eq_iff)
  qed
qed

definition redo_entry :: "int \<Rightarrow> int \<Rightarrow> LogEntryHandler list \<Rightarrow> LogEntry" where
  \<comment> \<open>what \<^verbatim>\<open>commit\<close> appends\<close>
  "redo_entry lsn bp es = \<lparr>le_header = \<lparr>h_lsn = lsn, h_size = int (length (commit_payload bp es)), h_module_id = module_index BPLUS_TREE\<rparr>,
     le_data = commit_payload bp es\<rparr>"

lemma serialize_bytes: "ser_buffer (foldl serialize s es) = ser_buffer s @ concat (map (\<lambda>e. concat (map field_bytes (entry_fields e))) es)"
  by (induction es arbitrary: s) (simp_all add: serialize_def write_fields_bytes entry_fields_def write_int32_def ser_write_def)

lemma index_redo_entry:
  assumes "int_fits 32 bp" "list_all numbers_fit es" "c FIRST_INDEX_PAGE = Header h"
    and "\<And>p. if lsn \<le> l p then c' p = c p else fits_on (key_length h) p es (c p) \<and> redo_on (key_length h) p es (c p) = Some (c' p)"
  shows "index_redo (redo_entry lsn bp es) (files(bp \<mapsto> (\<lambda>p. Some (l p, c p)))) =
    Some (SUCCESS, files(bp \<mapsto> (\<lambda>p. Some (if p \<in> entry_page ` set es \<and> l p < lsn then lsn else l p, c' p))))"
proof -
  let ?d = "des_new (commit_payload bp es)"
  have "des_wf ?d" by (simp add: des_wf_def des_new_def)
  moreover have "unread ?d = int_bytes 4 bp @ concat (map (\<lambda>e. concat (map field_bytes (entry_fields e))) es)"
    by (simp add: unread_def des_new_def commit_payload_def serialize_bytes write_int32_def ser_write_def ser_new_def)
  ultimately obtain d where d: "rd32 ?d = Some (bp, d)" "des_wf d" "unread d = concat (map (\<lambda>e. concat (map field_bytes (entry_fields e))) es)"
    using assms(1) by (rule rd32_unread)
  show ?thesis
    using redo_loop_payload [OF d(2,3) assms(2,4), of "[]"] d(1) assms(3)
    by (simp add: index_redo_def redo_entry_def le_lsn_def module_of_index_def)
qed

section \<open>Runs\<close>

datatype index_call = Call_insert "byte list" RID | Call_delete "byte list" RID

fun run_index_call :: "index_call \<Rightarrow> BplusTree \<Rightarrow> (rc \<times> BplusTree) option" where
  "run_index_call (Call_insert u r) s = insert_entry (Some u) (Some r) s"
| "run_index_call (Call_delete u r) s = delete_entry u r s"

text \<open>
  A run is a list of calls that succeed, with the LSNs that the log gives to their payloads; calls that find a duplicate or no
  entry log nothing and change no page. The state of a run is that of the tree and the LSN of every page, set by \<^verbatim>\<open>commit\<close>.
\<close>

fun run_index :: "int \<Rightarrow> (int \<times> index_call) list \<Rightarrow> BplusTree \<Rightarrow> (int \<Rightarrow> int) \<Rightarrow> (LogEntry list \<times> BplusTree \<times> (int \<Rightarrow> int)) option" where
  "run_index bp [] s L = Some ([], s, L)"
| "run_index bp ((lsn, c) # xs) s L = do {
     (rc, s1) \<leftarrow> run_index_call c s;
     if rc \<noteq> SUCCESS \<or> wal s1 = wal s then None
     else do {
       (es, r) \<leftarrow> run_index bp xs s1 (\<lambda>p. if p \<in> entry_page ` set (last (wal s1)) then lsn else L p);
       Some (redo_entry lsn bp (last (wal s1)) # es, r)
     }
   }"

fun run_fits :: "(int \<times> index_call) list \<Rightarrow> BplusTree \<Rightarrow> bool" where
  \<comment> \<open>numbers fit into 32 bits, keys have their length, items are of the kind of their node\<close>
  "run_fits [] s = True"
| "run_fits ((lsn, c) # xs) s =
     (case run_index_call c s of
        None \<Rightarrow> True
      | Some (rc, s1) \<Rightarrow>
          list_all numbers_fit (last (wal s1)) \<and>
          list_all (\<lambda>e. fits_on (key_length (file_header s)) (entry_page e) (last (wal s1)) (page_content s (entry_page e))) (last (wal s1)) \<and>
          run_fits xs s1)"

fun lsns_above :: "int \<Rightarrow> (int \<times> index_call) list \<Rightarrow> bool" where
  "lsns_above l [] = True"
| "lsns_above l ((lsn, c) # xs) = (l < lsn \<and> lsns_above lsn xs)"

fun index_redo_all :: "LogEntry list \<Rightarrow> (int \<rightharpoonup> index_pages) \<Rightarrow> (rc \<times> (int \<rightharpoonup> index_pages)) option" where
  "index_redo_all [] files = Some (SUCCESS, files)"
| "index_redo_all (e # es) files = do {
     (rc, files1) \<leftarrow> index_redo e files;
     if OB_FAIL rc then Some (rc, files1) else index_redo_all es files1
   }"

definition pages_of :: "BplusTree \<Rightarrow> (int \<Rightarrow> int) \<Rightarrow> index_pages" where
  "pages_of s L = (\<lambda>p. Some (L p, page_content s p))"

definition index_crash :: "int \<Rightarrow> (int \<times> index_call) list \<Rightarrow> BplusTree \<Rightarrow> (int \<Rightarrow> int) \<Rightarrow> index_pages \<Rightarrow> bool" where
  \<comment> \<open>every page is in one of the versions of the run\<close>
  "index_crash bp xs s L c \<longleftrightarrow> (\<forall>p. \<exists>k es s' L'. run_index bp (take k xs) s L = Some (es, s', L') \<and> c p = pages_of s' L' p)"

lemma page_content_release [simp]: "page_content (latch_release s) = page_content s"
  by (simp add: page_content_def latch_release_def fun_eq_iff)

lemma page_content_commit [simp]: "page_content (mtr_commit s) = page_content s"
  by (simp add: page_content_def mtr_commit_def fun_eq_iff)

lemma fresh_release: "fresh s \<Longrightarrow> fresh (latch_release s)"
proof -
  have "set (fold insort xs ys) = set xs \<union> set ys" for xs ys :: "int list"
    by (induction xs arbitrary: ys) (auto simp: set_insort_key)
  then show "fresh s \<Longrightarrow> fresh (latch_release s)" by (simp add: fresh_def latch_release_def)
qed

lemma mtr_end_SUCCESS:
  assumes "mtr_end r = Some (SUCCESS, s')"
  obtains s1 where "r = Some (SUCCESS, s1)" "s' = latch_release (mtr_commit s1)"
  using assms by (auto simp: mtr_end_def bind_eq_Some_conv OB_SUCC_def split: if_splits)

lemma call_replays:
  assumes "run_index_call c s = Some (SUCCESS, s')" "fresh s" "logged s = []" "wal s' \<noteq> wal s"
  obtains es where "wal s' = wal s @ [es]" "fresh s'" "logged s' = []"
    "(file_header s')\<lparr>root_page := 0\<rparr> = (file_header s)\<lparr>root_page := 0\<rparr>"
    "\<And>p. redo_on (key_length (file_header s)) p es (page_content s p) = Some (page_content s' p)"
proof -
  have "\<exists>s1. replays s s1 \<and> s' = latch_release (mtr_commit s1)"
  proof (cases c)
    case (Call_insert u r)
    then obtain k where "mtr_end (insert_key k r s) = Some (SUCCESS, s')" using assms(1) by (auto simp: insert_entry_def bind_eq_Some_conv)
    then show ?thesis by (metis mtr_end_SUCCESS insert_key_replays)
  next
    case (Call_delete u r)
    then obtain k where "mtr_end (delete_key k s) = Some (SUCCESS, s')" using assms(1) by (auto simp: delete_entry_def bind_eq_Some_conv)
    then show ?thesis by (metis mtr_end_SUCCESS delete_key_replays)
  qed
  then obtain s1 es where s1: "logs s s1 es" "s' = latch_release (mtr_commit s1)" using assms(2) by (auto simp: replays_def)
  have es: "es \<noteq> []" "logged s1 = es" using assms(3,4) s1 by (auto simp: logs_def mtr_commit_def latch_release_def)
  have f: "fresh (mtr_commit s1)" using s1(1) by (simp add: logs_def fresh_def mtr_commit_def)
  have "page_content s' = page_content s1" "file_header s' = file_header s1" "wal s' = wal s @ [es]" "logged s' = []"
    using s1 es unfolding s1(2) page_content_release page_content_commit by (simp_all add: logs_def mtr_commit_def latch_release_def)
  then show thesis using that [of es] s1 fresh_release [OF f] by (simp add: logs_def)
qed

section \<open>Recovery\<close>

lemma run_step:
  assumes "run_index bp ((lsn, c) # xs) s L = Some (es, r)" "fresh s" "logged s = []"
  obtains s1 e es' where "run_index_call c s = Some (SUCCESS, s1)" "last (wal s1) = e" "es = redo_entry lsn bp e # es'"
    "run_index bp xs s1 (\<lambda>p. if p \<in> entry_page ` set e then lsn else L p) = Some (es', r)" "fresh s1" "logged s1 = []"
    "key_length (file_header s1) = key_length (file_header s)"
    "\<And>p. redo_on (key_length (file_header s)) p e (page_content s p) = Some (page_content s1 p)"
proof -
  obtain s1 es' where s1: "run_index_call c s = Some (SUCCESS, s1)" "wal s1 \<noteq> wal s" "es = redo_entry lsn bp (last (wal s1)) # es'"
    "run_index bp xs s1 (\<lambda>p. if p \<in> entry_page ` set (last (wal s1)) then lsn else L p) = Some (es', r)"
    using assms(1) by (auto simp: bind_eq_Some_conv split: if_splits)
  obtain e where e: "wal s1 = wal s @ [e]" "fresh s1" "logged s1 = []" "(file_header s1)\<lparr>root_page := 0\<rparr> = (file_header s)\<lparr>root_page := 0\<rparr>"
    "\<And>p. redo_on (key_length (file_header s)) p e (page_content s p) = Some (page_content s1 p)"
    by (rule call_replays [OF s1(1) assms(2,3) s1(2)]) blast
  show thesis using that [of s1 e es'] s1 e header_length [OF e(4)] by simp
qed

lemma run_lsn_mono_idx:
  "run_index bp xs s L = Some (es, s', L') \<Longrightarrow> lsns_above l xs \<Longrightarrow> fresh s \<Longrightarrow> logged s = [] \<Longrightarrow> k \<le> l \<Longrightarrow> k \<le> L p \<Longrightarrow> k \<le> L' p"
proof (induction xs arbitrary: s L es l)
  case (Cons x xs)
  obtain lsn c where x: "x = (lsn, c)" by (cases x)
  obtain s1 e es' where s: "run_index bp xs s1 (\<lambda>p. if p \<in> entry_page ` set e then lsn else L p) = Some (es', s', L')" "fresh s1" "logged s1 = []"
    by (rule run_step [OF Cons.prems(1) [unfolded x] Cons.prems(3,4)]) blast
  show ?case by (rule Cons.IH [OF s(1) _ s(2,3), of lsn]) (use Cons.prems(2,5,6) x in auto)
qed simp

lemma run_key_length:
  "run_index bp xs s L = Some (es, s', L') \<Longrightarrow> fresh s \<Longrightarrow> logged s = [] \<Longrightarrow> key_length (file_header s') = key_length (file_header s)"
proof (induction xs arbitrary: s L es)
  case (Cons x xs)
  obtain lsn c where x: "x = (lsn, c)" by (cases x)
  obtain s1 e es' where s: "run_index bp xs s1 (\<lambda>p. if p \<in> entry_page ` set e then lsn else L p) = Some (es', s', L')" "fresh s1" "logged s1 = []"
    "key_length (file_header s1) = key_length (file_header s)"
    by (rule run_step [OF Cons.prems(1) [unfolded x] Cons.prems(2,3)]) blast
  show ?case using Cons.IH [OF s(1-3)] s(4) by simp
qed simp

lemma fits_on_other: "p \<notin> entry_page ` set es \<Longrightarrow> fits_on kl p es c"
  by (induction es) auto

lemma lsns_above_take: "lsns_above l xs \<Longrightarrow> lsns_above l (take k xs)"
proof (induction xs arbitrary: k l)
  case (Cons y xs)
  then show ?case by (cases k; cases y) auto
qed simp

lemma redo_step:
  \<comment> \<open>replaying the first payload of a run gives a crash of the rest of the run\<close>
  assumes run: "run_index bp ((lsn, c) # xs) s L = Some (es, r)" and fr: "fresh s" "logged s = []" and fits: "run_fits ((lsn, c) # xs) s"
    and lsns: "l < lsn" "lsns_above lsn xs" and upto: "\<And>p. L p \<le> l" and bp: "int_fits 32 bp" and cr: "index_crash bp ((lsn, c) # xs) s L st"
  obtains s1 L1 es' st1 where "run_index_call c s = Some (SUCCESS, s1)" "run_index bp xs s1 L1 = Some (es', r)" "es = redo_entry lsn bp (last (wal s1)) # es'"
    "index_redo (redo_entry lsn bp (last (wal s1))) (files(bp \<mapsto> st)) = Some (SUCCESS, files(bp \<mapsto> st1))" "index_crash bp xs s1 L1 st1"
    "fresh s1" "logged s1 = []" "run_fits xs s1" "\<And>p. L1 p \<le> lsn"
proof -
  obtain s1 e es' where s: "run_index_call c s = Some (SUCCESS, s1)" "last (wal s1) = e" "es = redo_entry lsn bp e # es'"
    "run_index bp xs s1 (\<lambda>p. if p \<in> entry_page ` set e then lsn else L p) = Some (es', r)" "fresh s1" "logged s1 = []"
    "key_length (file_header s1) = key_length (file_header s)"
    "\<And>p. redo_on (key_length (file_header s)) p e (page_content s p) = Some (page_content s1 p)"
    by (rule run_step [OF run fr]) blast
  define L1 where "L1 = (\<lambda>p. if p \<in> entry_page ` set e then lsn else L p)"
  let ?kl = "key_length (file_header s)"
  have f: "list_all numbers_fit e" "run_fits xs s1"
    "\<And>p. p \<in> entry_page ` set e \<Longrightarrow> fits_on ?kl p e (page_content s p)"
    using fits s(1,2) by (auto simp: list_all_iff)
  have f': "fits_on ?kl p e (page_content s p)" for p
  proof (cases "p \<in> entry_page ` set e")
    case False
    then show ?thesis by (rule fits_on_other)
  qed (rule f(3))
  have sub: "\<exists>k es' s' L'. run_index bp (take k xs) s1 L1 = Some (es', s', L') \<and> st p = pages_of s' L' p" if new: "st p \<noteq> pages_of s L p" for p
  proof -
    obtain k es'' s' L' where k: "run_index bp (take k ((lsn, c) # xs)) s L = Some (es'', s', L')" "st p = pages_of s' L' p"
      using cr unfolding index_crash_def by blast
    then obtain k' where "k = Suc k'" using new by (cases k) auto
    then show ?thesis using k s(1,2) by (auto simp: bind_eq_Some_conv L1_def split: if_splits)
  qed
  have late: "lsn \<le> fst (the (st p))" if new: "st p \<noteq> pages_of s L p" "p \<in> entry_page ` set e" for p
  proof -
    obtain k es' s' L' where k: "run_index bp (take k xs) s1 L1 = Some (es', s', L')" "st p = pages_of s' L' p" using sub [OF new(1)] by blast
    have "lsn \<le> L' p" by (rule run_lsn_mono_idx [OF k(1) lsns_above_take [OF lsns(2)] s(5,6)]) (use new(2) in \<open>simp_all add: L1_def\<close>)
    then show ?thesis using k(2) by (simp add: pages_of_def)
  qed
  define ll where "ll p = fst (the (st p))" for p
  define cc where "cc p = snd (the (st p))" for p
  have all: "st p = Some (ll p, cc p)" for p
  proof -
    have "\<exists>x. st p = Some x" using cr unfolding index_crash_def pages_of_def by metis
    then show ?thesis by (auto simp: ll_def cc_def)
  qed
  then have st: "st = (\<lambda>p. Some (ll p, cc p))" by blast
  have old: "ll p = L p" "cc p = page_content s p" if "st p = pages_of s L p" for p using that all [of p] by (simp_all add: pages_of_def)
  define c' where "c' p = (if lsn \<le> ll p \<or> p \<notin> entry_page ` set e then cc p else page_content s1 p)" for p
  obtain h where h: "cc FIRST_INDEX_PAGE = Header h" "key_length h = ?kl"
  proof -
    obtain k es'' s' L' where k: "run_index bp (take k ((lsn, c) # xs)) s L = Some (es'', s', L')"
        "st FIRST_INDEX_PAGE = pages_of s' L' FIRST_INDEX_PAGE"
      using cr unfolding index_crash_def by blast
    show thesis using that [of "file_header s'"] k(2) all [of FIRST_INDEX_PAGE] run_key_length [OF k(1) fr]
      by (simp add: pages_of_def page_content_def)
  qed
  have cond: "if lsn \<le> ll p then c' p = cc p else fits_on (key_length h) p e (cc p) \<and> redo_on (key_length h) p e (cc p) = Some (c' p)" for p
  proof (cases "lsn \<le> ll p \<or> p \<notin> entry_page ` set e")
    case True
    then show ?thesis using redo_on_other [of p e] fits_on_other [of p e] by (auto simp: c'_def)
  next
    case False
    then have "st p = pages_of s L p" using late [of p] by (auto simp: ll_def)
    then have "cc p = page_content s p" by (rule old(2))
    then show ?thesis using False f'(1) s(8) [of p] by (simp add: c'_def h(2))
  qed
  let ?st1 = "\<lambda>p. Some (if p \<in> entry_page ` set e \<and> ll p < lsn then lsn else ll p, c' p)"
  have redo: "index_redo (redo_entry lsn bp e) (files(bp \<mapsto> st)) = Some (SUCCESS, files(bp \<mapsto> ?st1))"
    unfolding st by (rule index_redo_entry [OF bp f(1) h(1) cond])
  have "index_crash bp xs s1 L1 ?st1"
    unfolding index_crash_def
  proof
    fix p
    show "\<exists>k es s' L'. run_index bp (take k xs) s1 L1 = Some (es, s', L') \<and> ?st1 p = pages_of s' L' p"
    proof (cases "st p = pages_of s L p")
      case True
      have "ll p < lsn" using old(1) [OF True] upto [of p] lsns(1) by linarith
      moreover have "page_content s1 p = page_content s p" if "p \<notin> entry_page ` set e"
        using s(8) [of p] redo_on_other [OF that] by simp
      ultimately have "?st1 p = pages_of s1 L1 p" using old [OF True] by (auto simp: pages_of_def L1_def c'_def)
      then show ?thesis by (intro exI [of _ 0]) simp
    next
      case False
      have "lsn \<le> ll p" if "p \<in> entry_page ` set e" using late [OF False that] by (simp add: ll_def)
      then have "?st1 p = st p" unfolding all [of p] by (auto simp: c'_def)
      then show ?thesis using sub [OF False] by simp
    qed
  qed
  moreover have "L1 p \<le> lsn" for p using upto [of p] lsns(1) by (simp add: L1_def)
  ultimately show thesis using that [of s1 L1 es' ?st1] s redo f(2) by (simp add: L1_def)
qed

lemma redo_run:
  "run_index bp xs s L = Some (es, sn, Ln) \<Longrightarrow> fresh s \<Longrightarrow> logged s = [] \<Longrightarrow> run_fits xs s \<Longrightarrow> lsns_above l xs \<Longrightarrow> (\<And>p. L p \<le> l) \<Longrightarrow>
   int_fits 32 bp \<Longrightarrow> index_crash bp xs s L st \<Longrightarrow> index_redo_all es (files(bp \<mapsto> st)) = Some (SUCCESS, files(bp \<mapsto> pages_of sn Ln))"
proof (induction xs arbitrary: s L es l st)
  case Nil
  then have "st p = pages_of sn Ln p" for p unfolding index_crash_def by auto
  then have "st = pages_of sn Ln" by blast
  then show ?case using Nil by simp
next
  case (Cons x xs)
  obtain lsn c where x: "x = (lsn, c)" by (cases x)
  have l: "l < lsn" "lsns_above lsn xs" using Cons.prems(5) by (simp_all add: x)
  obtain s1 L1 es' st1 where s: "run_index bp xs s1 L1 = Some (es', sn, Ln)" "es = redo_entry lsn bp (last (wal s1)) # es'"
    "index_redo (redo_entry lsn bp (last (wal s1))) (files(bp \<mapsto> st)) = Some (SUCCESS, files(bp \<mapsto> st1))" "index_crash bp xs s1 L1 st1"
    "fresh s1" "logged s1 = []" "run_fits xs s1" "\<And>p. L1 p \<le> lsn"
    by (rule redo_step [OF Cons.prems(1) [unfolded x] Cons.prems(2,3) Cons.prems(4) [unfolded x] l Cons.prems(6,7) Cons.prems(8) [unfolded x], of files])
      blast
  from Cons.IH [OF s(1,5-7) l(2) s(8) Cons.prems(7) s(4)] show ?case unfolding s(2) index_redo_all.simps s(3) by (simp del: fun_upd_apply)
qed

text \<open>
  C5: (redo recovery of an index) Let a run of insertions and deletions that succeed log its mini transactions under growing LSNs,
  and let a crash leave, of every page of the file independently, any version that it had between two calls. Then replaying the
  payloads succeeds and brings every page, with its LSN, to its version at the end of the run: the header page with the root, the
  nodes that were split or merged, and the links between them.
\<close>

theorem index_redo_recovers:
  assumes "run_index bp xs s L = Some (es, sn, Ln)" and "fresh s" and "logged s = []" and "run_fits xs s" and "lsns_above l xs"
    and "\<forall>p. L p \<le> l" and "int_fits 32 bp" and "index_crash bp xs s L c"
  shows "index_redo_all es [bp \<mapsto> c] = Some (SUCCESS, [bp \<mapsto> pages_of sn Ln])"
  using redo_run [OF assms(1-5) _ assms(7,8)] assms(6) by blast

definition demo_call :: "int \<Rightarrow> index_call" where
  "demo_call i = Call_insert (fst (demo_entry i)) (snd (demo_entry i))"

definition demo_calls :: "(int \<times> index_call) list" where
  "demo_calls = [(11, demo_call 1), (12, demo_call 2), (13, demo_call 3), (14, demo_call 4), (17, demo_call 5),
     (18, Call_delete (fst (demo_entry 2)) (snd (demo_entry 2))), (19, Call_delete (fst (demo_entry 1)) (snd (demo_entry 1)))]"

theorem index_redo_recovers_witness:
  "\<exists>es sn Ln c. run_index 3 demo_calls demo_empty (\<lambda>_. 0) = Some (es, sn, Ln) \<and> length es = 7 \<and> c 2 = pages_of sn Ln 2 \<and>
     c 1 = pages_of demo_empty (\<lambda>_. 0) 1 \<and> index_redo_all es [3 \<mapsto> c] = Some (SUCCESS, [3 \<mapsto> pages_of sn Ln])"
proof -
  have "map_option (length \<circ> fst) (run_index 3 demo_calls demo_empty (\<lambda>_. 0)) = Some 7" by code_simp
  then obtain es sn Ln where run: "run_index 3 demo_calls demo_empty (\<lambda>_. 0) = Some (es, sn, Ln)" "length es = 7" by auto
  let ?c = "(pages_of demo_empty (\<lambda>_. 0))(2 := pages_of sn Ln 2)"
  have "index_crash 3 demo_calls demo_empty (\<lambda>_. 0) ?c" unfolding index_crash_def
  proof
    fix p
    show "\<exists>k es s' L'. run_index 3 (take k demo_calls) demo_empty (\<lambda>_. 0) = Some (es, s', L') \<and> ?c p = pages_of s' L' p"
      by (cases "p = 2") (use run(1) in \<open>intro exI [of _ 7], simp add: demo_calls_def\<close>, intro exI [of _ 0], simp)
  qed
  moreover have "fresh demo_empty" "logged demo_empty = []" by (simp_all add: fresh_def demo_empty_def FIRST_INDEX_PAGE_def)
  moreover have "run_fits demo_calls demo_empty" "lsns_above 0 demo_calls" "int_fits 32 3" by code_simp+
  ultimately have "index_redo_all es [3 \<mapsto> ?c] = Some (SUCCESS, [3 \<mapsto> pages_of sn Ln])" using index_redo_recovers [OF run(1), of 0] by simp
  then show ?thesis using run by (intro exI [of _ es] exI [of _ sn] exI [of _ Ln] exI [of _ ?c]) simp
qed

text \<open>A payload that cannot be read is reported as replayed.\<close>

lemma bad_payload_accepted:
  "map_option fst (index_redo \<lparr>le_header = \<lparr>h_lsn = 5, h_size = 8, h_module_id = 1\<rparr>, le_data = int_bytes 4 3 @ int_bytes 4 99\<rparr>
     [3 \<mapsto> pages_of demo_empty (\<lambda>_. 0)]) = Some SUCCESS"
  by code_simp

end
