(* ===== verification/Record_File.thy ===== *)
theory Record_File
  imports Record_Page File_Header
begin

text \<open>
  The record file (\<^verbatim>\<open>src/src/observer/storage/record/record_manager.cpp\<close>): \<^verbatim>\<open>RecordFileHandler\<close>, which spreads the records of a
  table over the pages of a buffer-pool file, and \<^verbatim>\<open>RecordFileScanner\<close>, which reads them all, for tables in row format.

  \<open>RecordFile\<close> is the handler with the part of its buffer pool it uses: the header page, the pages as \<^verbatim>\<open>get_this_page\<close> shows
  them, and the code the frame manager gives when a page is asked for. \<^verbatim>\<open>free_pages_\<close> is an \<^verbatim>\<open>unordered_set\<close>; which of its
  elements \<^verbatim>\<open>begin()\<close> is, is the argument \<open>pick\<close>. The results of the log records of an insertion are an argument: \<open>lga\<close> for the
  allocation, \<open>lgi\<close> for the new page and \<open>lgr\<close> for the record.
\<close>

section \<open>State\<close>

record RecordFile =
  rf_header :: HdrFrame
  rf_pages :: "int \<rightharpoonup> RecordPage"
  page_rc :: "int \<Rightarrow> rc"
  rf_open :: bool
  free_pages :: "int set"

definition get_this_page :: "RecordFile \<Rightarrow> int \<Rightarrow> rc \<times> RecordPage option" where
  "get_this_page st n =
     (if page_rc st n \<noteq> SUCCESS then (page_rc st n, None)
      else case rf_pages st n of None \<Rightarrow> (IOERR_READ, None) | Some p \<Rightarrow> (SUCCESS, Some p))"

definition put_page :: "RecordPage \<Rightarrow> RecordFile \<Rightarrow> RecordFile" where
  \<comment> \<open>what a handler wrote through its frame\<close>
  "put_page p st = st\<lparr>rf_pages := (rf_pages st)(frame_page_num p \<mapsto> p)\<rparr>"

definition zero_page :: "int \<Rightarrow> RecordPage" where
  \<comment> \<open>a frame after \<^verbatim>\<open>clear_page\<close>\<close>
  "zero_page n =
     \<lparr>page_header = \<lparr>record_num = 0, column_num = 0, record_real_size = 0, record_size = 0, record_capacity = 0,
                     col_idx_offset = 0, data_offset = 0\<rparr>,
      page_data = replicate (nat BP_PAGE_DATA_SIZE) 0, frame_page_num = n, frame_lsn = 0, frame_dirty = False\<rparr>"

definition allocate_page :: "rc \<times> int \<Rightarrow> RecordFile \<Rightarrow> (rc \<times> RecordPage option \<times> RecordFile) option" where
  "allocate_page lg st =
     (case allocate_page_num lg (rf_header st) of
        None \<Rightarrow> None
      | Some (Alloc_failed rc, f) \<Rightarrow> Some (rc, None, st\<lparr>rf_header := f\<rparr>)
      | Some (Reused i, f) \<Rightarrow>
          let st' = st\<lparr>rf_header := f\<rparr> in (case get_this_page st' i of (rc, p) \<Rightarrow> Some (rc, p, st'))
      | Some (Extended i, f) \<Rightarrow>
          if page_rc st i \<noteq> SUCCESS then Some (page_rc st i, None, st\<lparr>rf_header := (rf_header st)\<lparr>hdr_lsn := snd lg\<rparr>\<rparr>)
          else Some (SUCCESS, Some (zero_page i), put_page (zero_page i) (st\<lparr>rf_header := f\<rparr>)))"

section \<open>Opening and closing\<close>

partial_function (option) init_free_pages_loop :: "RecordFile \<Rightarrow> BufferPoolIterator \<Rightarrow> (rc \<times> RecordFile) option" where
  "init_free_pages_loop st it =
     (case bpi_has_next it of
        None \<Rightarrow> None
      | Some b \<Rightarrow>
          if \<not> b then Some (SUCCESS, st)
          else (case bpi_next it of
                  None \<Rightarrow> None
                | Some (n, it') \<Rightarrow>
                    (case get_this_page st n of
                       (rc, None) \<Rightarrow> Some (rc, st)
                     | (_, Some p) \<Rightarrow>
                         init_free_pages_loop (if is_full p then st else st\<lparr>free_pages := insert n (free_pages st)\<rparr>) it')))"

declare init_free_pages_loop.simps [code]

definition init_free_pages :: "RecordFile \<Rightarrow> (rc \<times> RecordFile) option" where
  "init_free_pages st = init_free_pages_loop st (bpi_init (file_header (rf_header st)) 1)"

definition rf_init :: "RecordFile \<Rightarrow> (rc \<times> RecordFile) option" where
  \<comment> \<open>the code that \<^verbatim>\<open>init_free_pages\<close> gives is logged and dropped\<close>
  "rf_init st =
     (if rf_open st then Some (RECORD_OPENNED, st)
      else map_option (\<lambda>(_, st'). (SUCCESS, st')) (init_free_pages (st\<lparr>rf_open := True\<rparr>)))"

definition rf_close :: "RecordFile \<Rightarrow> RecordFile" where
  "rf_close st = (if rf_open st then st\<lparr>free_pages := {}, rf_open := False\<rparr> else st)"

section \<open>Operations on records\<close>

partial_function (option) find_free_page ::
  "(int set \<Rightarrow> int) \<Rightarrow> RecordFile \<Rightarrow> (rc \<times> RecordPage option \<times> RecordFile) option" where
  \<comment> \<open>the loop of \<^verbatim>\<open>insert_record\<close>: the page it stops at, or none\<close>
  "find_free_page pick st =
     (if free_pages st = {} then Some (SUCCESS, None, st)
      else (case get_this_page st (pick (free_pages st)) of
              (rc, None) \<Rightarrow> Some (rc, None, st)
            | (_, Some p) \<Rightarrow>
                if \<not> is_full p then Some (SUCCESS, Some p, st)
                else find_free_page pick (st\<lparr>free_pages := free_pages st - {pick (free_pages st)}\<rparr>)))"

declare find_free_page.simps [code]

definition new_record_page :: "rc \<times> int \<Rightarrow> rc \<times> int \<Rightarrow> int \<Rightarrow> RecordFile \<Rightarrow> (rc \<times> RecordPage option \<times> RecordFile) option" where
  "new_record_page lga lgi rec_size st =
     (case allocate_page lga st of
        None \<Rightarrow> None
      | Some (rc, None, st1) \<Rightarrow> Some (rc, None, st1)
      | Some (_, Some p, st1) \<Rightarrow>
          (case init_empty_page p rec_size [] lgi of
             None \<Rightarrow> None
           | Some (rc, q) \<Rightarrow>
               let st2 = put_page q st1
               in if OB_FAIL rc then Some (rc, None, st2)
                  else Some (SUCCESS, Some q, st2\<lparr>free_pages := insert (frame_page_num q) (free_pages st2)\<rparr>)))"

type_synonym log_results = "(rc \<times> int) \<times> (rc \<times> int) \<times> (rc \<times> int)"

definition rf_insert_record ::
  "(int set \<Rightarrow> int) \<Rightarrow> byte list \<Rightarrow> int \<Rightarrow> log_results \<Rightarrow> RecordFile \<Rightarrow> (rc \<times> RID option \<times> RecordFile) option" where
  "rf_insert_record pick data rec_size lgs st =
     (case lgs of (lga, lgi, lgr) \<Rightarrow>
        (case find_free_page pick st of
           None \<Rightarrow> None
         | Some (rc, found, st1) \<Rightarrow>
             if OB_FAIL rc then Some (rc, None, st1)
             else (case (if found \<noteq> None then Some (SUCCESS, found, st1) else new_record_page lga lgi rec_size st1) of
                     None \<Rightarrow> None
                   | Some (rc, None, st2) \<Rightarrow> Some (rc, None, st2)
                   | Some (_, Some p, st2) \<Rightarrow>
                       map_option (\<lambda>(rc, rid, q). (rc, rid, put_page q st2)) (insert_record False p data lgr))))"

definition on_page :: "int \<Rightarrow> (RecordPage \<Rightarrow> (rc \<times> RecordPage) option) \<Rightarrow> RecordFile \<Rightarrow> (rc \<times> RecordFile) option" where
  \<comment> \<open>a page handler is initialised on the page and used once\<close>
  "on_page n f st =
     (case get_this_page st n of
        (rc, None) \<Rightarrow> Some (rc, st)
      | (_, Some p) \<Rightarrow> map_option (\<lambda>(rc, q). (rc, put_page q st)) (f p))"

definition add_free_page :: "int \<Rightarrow> rc \<times> RecordFile \<Rightarrow> rc \<times> RecordFile" where
  "add_free_page n r =
     (case r of (rc, st) \<Rightarrow> (rc, if OB_SUCC rc then st\<lparr>free_pages := insert n (free_pages st)\<rparr> else st))"

definition rf_update_record :: "byte list \<Rightarrow> RID \<Rightarrow> rc \<times> int \<Rightarrow> RecordFile \<Rightarrow> (rc \<times> RecordFile) option" where
  "rf_update_record data rid lg st =
     map_option (add_free_page (page_num rid)) (on_page (page_num rid) (\<lambda>p. update_record False p rid data lg) st)"

definition rf_delete_record :: "RID \<Rightarrow> rc \<times> int \<Rightarrow> RecordFile \<Rightarrow> (rc \<times> RecordFile) option" where
  "rf_delete_record rid lg st =
     map_option (add_free_page (page_num rid)) (on_page (page_num rid) (\<lambda>p. delete_record False p rid lg) st)"

definition rf_recover_insert_record :: "byte list \<Rightarrow> RID \<Rightarrow> RecordFile \<Rightarrow> (rc \<times> RecordFile) option" where
  \<comment> \<open>\<^verbatim>\<open>recover_init\<close> marks the page allocated before the record is written\<close>
  "rf_recover_insert_record data rid st =
     (case get_this_page st (page_num rid) of
        (rc, None) \<Rightarrow> Some (rc, st)
      | (_, Some p) \<Rightarrow>
          (case recover_page (page_num rid) (rf_header st) of
             None \<Rightarrow> None
           | Some (_, f) \<Rightarrow>
               map_option (\<lambda>(rc, q). (rc, put_page q (st\<lparr>rf_header := f\<rparr>))) (recover_insert_record p data rid)))"

definition rf_get_record :: "RID \<Rightarrow> RecordFile \<Rightarrow> (rc \<times> (RID \<times> byte list) option) option" where
  "rf_get_record rid st =
     (case get_this_page st (page_num rid) of
        (rc, None) \<Rightarrow> Some (rc, None)
      | (_, Some p) \<Rightarrow> get_record p rid)"

text \<open>\<open>updater\<close> may change the copy of the record; its first result says whether it did.\<close>

definition rf_visit_record ::
  "RID \<Rightarrow> (RID \<times> byte list \<Rightarrow> bool \<times> byte list) \<Rightarrow> rc \<times> int \<Rightarrow> RecordFile \<Rightarrow> (rc \<times> RecordFile) option" where
  "rf_visit_record rid updater lg st =
     on_page (page_num rid)
       (\<lambda>p. case get_record p rid of
              None \<Rightarrow> None
            | Some (rc, None) \<Rightarrow> Some (rc, p)
            | Some (rc, Some (_, bs)) \<Rightarrow>
                (case updater (rid, bs) of
                   (updated, bs') \<Rightarrow> if updated then update_record False p rid bs' lg else Some (rc, p)))
       st"

section \<open>Scanning the file\<close>

text \<open>
  \<open>flt\<close> is the condition filter and \<open>visit\<close> the \<^verbatim>\<open>visit_record\<close> of the transaction, both virtual functions; without a filter
  \<open>flt\<close> is always true, and without a transaction \<open>visit\<close> is always \<^verbatim>\<open>SUCCESS\<close>. The page and the bitmap of the page
  iterator are pointers into the frame: they are read from the file at every call.
\<close>

record RecordFileScanner =
  bp_iterator :: BufferPoolIterator
  sc_page :: "int option"
  record_page_iterator :: "RecordPageIterator option"
  next_record :: "RID \<times> byte list"
  sc_readonly :: bool

definition open_scan :: "RecordFile \<Rightarrow> bool \<Rightarrow> RID \<times> byte list \<Rightarrow> rc \<times> RecordFileScanner" where
  "open_scan st readonly old =
     (SUCCESS, \<lparr>bp_iterator = bpi_init (file_header (rf_header st)) 1, sc_page = None, record_page_iterator = None,
                next_record = old, sc_readonly = readonly\<rparr>)"

definition no_record :: "RID \<times> byte list \<Rightarrow> RID \<times> byte list" where
  "no_record r = (RID (page_num (fst r)) (- 1), snd r)"

partial_function (option) fetch_next_record_in_page ::
  "(RID \<times> byte list \<Rightarrow> bool) \<Rightarrow> (RID \<times> byte list \<Rightarrow> rc) \<Rightarrow> RecordPage \<Rightarrow> RecordPageIterator \<Rightarrow> RID \<times> byte list \<Rightarrow>
   (rc \<times> (RID \<times> byte list) \<times> RecordPageIterator) option" where
  "fetch_next_record_in_page flt visit p it old =
     (if \<not> has_next it then Some (RECORD_EOF, no_record old, it)
      else (case iterator_next p it old of
              None \<Rightarrow> None
            | Some (rc, rec, it') \<Rightarrow>
                if rc \<noteq> SUCCESS then Some (rc, rec, it')
                else if \<not> flt rec then fetch_next_record_in_page flt visit p it' rec
                else if visit rec = RECORD_INVISIBLE then fetch_next_record_in_page flt visit p it' rec
                else Some (visit rec, rec, it')))"

declare fetch_next_record_in_page.simps [code]

partial_function (option) fetch_next_page ::
  "(RID \<times> byte list \<Rightarrow> bool) \<Rightarrow> (RID \<times> byte list \<Rightarrow> rc) \<Rightarrow> RecordFile \<Rightarrow> RecordFileScanner \<Rightarrow> (rc \<times> RecordFileScanner) option" where
  \<comment> \<open>the loop of \<^verbatim>\<open>fetch_next_record\<close> over the pages\<close>
  "fetch_next_page flt visit st sc =
     (case bpi_has_next (bp_iterator sc) of
        None \<Rightarrow> None
      | Some b \<Rightarrow>
          if \<not> b then Some (RECORD_EOF, sc\<lparr>sc_page := None, next_record := no_record (next_record sc)\<rparr>)
          else (case bpi_next (bp_iterator sc) of
                  None \<Rightarrow> None
                | Some (n, pit) \<Rightarrow>
                    (case get_this_page st n of
                       (rc, None) \<Rightarrow> Some (rc, sc\<lparr>bp_iterator := pit, sc_page := None\<rparr>)
                     | (_, Some p) \<Rightarrow>
                         (case iterator_init p 0 of
                            None \<Rightarrow> None
                          | Some it \<Rightarrow>
                              (case fetch_next_record_in_page flt visit p it (next_record sc) of
                                 None \<Rightarrow> None
                               | Some (rc, rec, it') \<Rightarrow>
                                   let sc' = sc\<lparr>bp_iterator := pit, sc_page := Some n, record_page_iterator := Some it', next_record := rec\<rparr>
                                   in if rc \<noteq> RECORD_EOF then Some (rc, sc') else fetch_next_page flt visit st sc')))))"

declare fetch_next_page.simps [code]

definition fetch_in_current_page ::
  "(RID \<times> byte list \<Rightarrow> bool) \<Rightarrow> (RID \<times> byte list \<Rightarrow> rc) \<Rightarrow> RecordFile \<Rightarrow> RecordFileScanner \<Rightarrow> (rc \<times> RecordFileScanner) option" where
  \<comment> \<open>what is left of the page the scanner holds; the end of the page when it holds none\<close>
  "fetch_in_current_page flt visit st sc =
     (case record_page_iterator sc of
        None \<Rightarrow> Some (RECORD_EOF, sc)
      | Some it \<Rightarrow>
          if \<not> has_next it then Some (RECORD_EOF, sc\<lparr>next_record := no_record (next_record sc)\<rparr>)
          else (case Option.bind (sc_page sc) (rf_pages st) of
                  None \<Rightarrow> None
                | Some p \<Rightarrow>
                    map_option (\<lambda>(rc, rec, it'). (rc, sc\<lparr>record_page_iterator := Some it', next_record := rec\<rparr>))
                      (fetch_next_record_in_page flt visit p (it\<lparr>it_bitmap := page_bitmap p\<rparr>) (next_record sc))))"

definition fetch_next_record ::
  "(RID \<times> byte list \<Rightarrow> bool) \<Rightarrow> (RID \<times> byte list \<Rightarrow> rc) \<Rightarrow> RecordFile \<Rightarrow> RecordFileScanner \<Rightarrow> (rc \<times> RecordFileScanner) option" where
  "fetch_next_record flt visit st sc =
     (case fetch_in_current_page flt visit st sc of
        None \<Rightarrow> None
      | Some (rc, sc') \<Rightarrow> if rc \<noteq> RECORD_EOF then Some (rc, sc') else fetch_next_page flt visit st sc')"

definition scanner_next ::
  "(RID \<times> byte list \<Rightarrow> bool) \<Rightarrow> (RID \<times> byte list \<Rightarrow> rc) \<Rightarrow> RecordFile \<Rightarrow> RecordFileScanner \<Rightarrow>
   (rc \<times> (RID \<times> byte list) option \<times> RecordFileScanner) option" where
  "scanner_next flt visit st sc =
     map_option (\<lambda>(rc, sc'). (rc, if OB_FAIL rc then None else Some (next_record sc'), sc')) (fetch_next_record flt visit st sc)"

definition update_current :: "RID \<times> byte list \<Rightarrow> rc \<times> int \<Rightarrow> RecordFile \<Rightarrow> RecordFileScanner \<Rightarrow> (rc \<times> RecordFile) option" where
  "update_current rec lg st sc =
     (if fst rec \<noteq> fst (next_record sc) then Some (INVALID_ARGUMENT, st)
      else case Option.bind (sc_page sc) (rf_pages st) of
        None \<Rightarrow> None
      | Some p \<Rightarrow> map_option (\<lambda>(rc, q). (rc, put_page q st)) (update_record (sc_readonly sc) p (fst rec) (snd rec) lg))"

partial_function (option) scan_file ::
  "(RID \<times> byte list \<Rightarrow> bool) \<Rightarrow> (RID \<times> byte list \<Rightarrow> rc) \<Rightarrow> RecordFile \<Rightarrow> RecordFileScanner \<Rightarrow> (RID \<times> byte list) list \<Rightarrow>
   (rc \<times> (RID \<times> byte list) list) option" where
  \<comment> \<open>the loop of the callers: \<^verbatim>\<open>while (OB_SUCC(rc = scanner.next(record)))\<close>\<close>
  "scan_file flt visit st sc acc =
     (case scanner_next flt visit st sc of
        None \<Rightarrow> None
      | Some (rc, None, _) \<Rightarrow> Some (rc, acc)
      | Some (_, Some rec, sc') \<Rightarrow> scan_file flt visit st sc' (acc @ [rec]))"

declare scan_file.simps [code]

section \<open>The records of a file\<close>

definition row_capacity :: "int \<Rightarrow> int" where
  \<comment> \<open>how many records of a size a page holds\<close>
  "row_capacity rec_size = (case fix_record_capacity (empty_header rec_size 0) of None \<Rightarrow> 0 | Some h \<Rightarrow> record_capacity h)"

definition row_page :: "int \<Rightarrow> nat \<Rightarrow> RecordPage \<Rightarrow> bool" where
  "row_page sz i p \<longleftrightarrow> page_wf p \<and> frame_page_num p = int i \<and> record_real_size (page_header p) = sz \<and>
     record_capacity (page_header p) = row_capacity sz \<and> int (length (page_data p)) = BP_PAGE_DATA_SIZE"

definition rf_map :: "RecordFile \<Rightarrow> RID \<rightharpoonup> byte list" where
  \<comment> \<open>what the file stores: a map from record identifiers to bytes\<close>
  "rf_map st r =
     (if 1 \<le> page_num r \<and> 0 \<le> slot_num r
      then Option.bind (rf_pages st (page_num r)) (\<lambda>p. slots p (nat (slot_num r))) else None)"

definition rf_inv :: "int \<Rightarrow> nat \<Rightarrow> RecordFile \<Rightarrow> bool" where
  \<comment> \<open>\<open>n\<close> pages, every one but the header a page of records, every free page one of them\<close>
  "rf_inv sz n st \<longleftrightarrow> 1 \<le> n \<and> header_rel (file_header (rf_header st)) n {..<n} \<and> dom (rf_pages st) = int ` {1..<n} \<and>
     (\<forall>i p. rf_pages st (int i) = Some p \<longrightarrow> row_page sz i p) \<and> free_pages st \<subseteq> int ` {1..<n} \<and> page_rc st = (\<lambda>_. SUCCESS)"

lemma init_empty_page_header:
  assumes "init_empty_page p sz [] lg = Some (rc, q)"
  shows "record_capacity (page_header q) = row_capacity sz"
  using assms
  by (auto simp: init_empty_page_def init_page_with_def row_capacity_def split: option.splits if_splits)

lemma init_empty_page_row_page:
  assumes "0 < sz" and "int (length (page_data p)) = BP_PAGE_DATA_SIZE" and "frame_page_num p = int i"
  shows "\<exists>q. init_empty_page p sz [] lg = Some (fst lg, q) \<and> row_page sz i q \<and> slots q = Map.empty \<and> record_num (page_header q) = 0"
proof -
  obtain q where q: "init_empty_page p sz [] lg = Some (fst lg, q)" "page_wf q" "slots q = Map.empty"
    "record_real_size (page_header q) = sz" "frame_page_num q = frame_page_num p" "int (length (page_data q)) = BP_PAGE_DATA_SIZE"
    using init_empty_page_row [OF assms(1,2)] by blast
  have "record_num (page_header q) = 0"
  proof -
    have "{i. slot_taken q i} = {}"
    proof (rule equals0I)
      fix j assume "j \<in> {i. slot_taken q i}"
      then have "slots q j \<noteq> None" by (simp add: slots_def)
      then show False using q(3) by simp
    qed
    then show ?thesis using q(2) by (simp add: page_wf_def Let_def)
  qed
  then show ?thesis using q init_empty_page_header [OF q(1)] assms(3) by (auto simp: row_page_def)
qed

text \<open>A page of records of up to 400000 bytes has room for one.\<close>

lemma fix_capacity_loop_pos:
  assumes "0 < s" and "base + s \<le> BP_PAGE_DATA_SIZE" and "fix_capacity_loop s (int c) (base + int c * s) = Some k" and "1 \<le> c"
  shows "1 \<le> k"
  using assms(3,4)
proof (induction c)
  case 0
  then show ?case by simp
next
  case (Suc c)
  show ?case
  proof (cases "BP_PAGE_DATA_SIZE < base + int (Suc c) * s")
    case True
    have "int (Suc c) - 1 = int c" "base + int (Suc c) * s - s = base + int c * s" by (simp_all add: algebra_simps)
    then have "fix_capacity_loop s (int c) (base + int c * s) = Some k"
      using True Suc.prems(1) by (subst (asm) fix_capacity_loop.simps) (simp only: if_True)
    moreover have "c \<noteq> 0" using True assms(2) by (cases c) auto
    ultimately show ?thesis using Suc.IH by simp
  next
    case False
    then have "Some (int (Suc c)) = Some k" using Suc.prems(1) by (subst (asm) fix_capacity_loop.simps) (simp only: if_False)
    then show ?thesis by simp
  qed
qed

lemma row_capacity_pos:
  assumes "0 < sz" and "sz \<le> 400000"
  shows "1 \<le> row_capacity sz"
proof -
  let ?s = "align8 sz"
  have s: "0 < ?s" "?s \<le> 400007" using align8_bounds [of sz] assms by linarith+
  let ?cap = "page_record_capacity BP_PAGE_DATA_SIZE ?s 0"
  have cap: "?cap = 8 * 524243 div (8 * ?s + 1)"
    using s(1) by (simp add: page_record_capacity_def BP_PAGE_DATA_SIZE_def BP_PAGE_SIZE_def PAGE_HEADER_SIZE_def signed_divide_int_def)
  have "0 < 8 * 524243 div (8 * ?s + 1)" using s by (subst pos_imp_zdiv_pos_iff) linarith+
  then have "1 \<le> ?cap" unfolding cap by linarith
  moreover have "?cap \<le> 465993" by (rule page_record_capacity_bounds(2) [OF s(1)])
  ultimately obtain c where c: "?cap = int c" "1 \<le> c" "c \<le> 465993" 
    using nonneg_int_cases [of ?cap] by force
  let ?idx = "align8 (28 + (int c + 7) div 8)"
  have "(int c + 7) div 8 \<le> 58250" using c(3) by linarith
  then have idx: "?idx \<le> 58285" using align8_bounds [of "28 + (int c + 7) div 8"] by linarith
  have h: "empty_header sz 0 = \<lparr>record_num = 0, column_num = 0, record_real_size = sz, record_size = ?s,
      record_capacity = int c, col_idx_offset = ?idx, data_offset = ?idx\<rparr>"
    by (simp add: empty_header_def Let_def c page_bitmap_size_div PAGE_HEADER_SIZE_def)
  have fits: "?idx + ?s \<le> BP_PAGE_DATA_SIZE" using idx s by (simp add: BP_PAGE_DATA_SIZE_def BP_PAGE_SIZE_def)
  obtain k where k: "fix_capacity_loop ?s (int c) (?idx + int c * ?s) = Some k"
    using fix_capacity_loop_result [OF s(1), of ?idx c] fits s(1) by fastforce
  show ?thesis using fix_capacity_loop_pos [OF s(1) fits k c(2)] k by (simp add: row_capacity_def fix_record_capacity_def h)
qed

section \<open>What the operations do\<close>

lemma row_page_same_layout: "row_page sz i p \<Longrightarrow> page_wf q \<Longrightarrow> same_layout p q \<Longrightarrow> row_page sz i q"
  by (simp add: row_page_def same_layout_def)

lemma rf_inv_page:
  assumes "rf_inv sz n st" and "1 \<le> m"
  shows "(\<exists>i p. m = int i \<and> 1 \<le> i \<and> i < n \<and> rf_pages st m = Some p \<and> row_page sz i p \<and> get_this_page st m = (SUCCESS, Some p)) \<or>
    rf_pages st m = None \<and> get_this_page st m = (IOERR_READ, None)"
proof (cases "rf_pages st m")
  case None
  then show ?thesis using assms(1) by (simp add: get_this_page_def rf_inv_def)
next
  case (Some p)
  then have "m \<in> dom (rf_pages st)" by blast
  then obtain i where "m = int i" "1 \<le> i" "i < n" using assms(1) by (auto simp: rf_inv_def)
  then show ?thesis using assms(1) Some by (auto simp: get_this_page_def rf_inv_def)
qed

lemma rf_map_page: "1 \<le> page_num r \<Longrightarrow> rf_pages st (page_num r) = Some p \<Longrightarrow>
    rf_map st r = (if 0 \<le> slot_num r then slots p (nat (slot_num r)) else None)"
  by (simp add: rf_map_def)

lemma rf_map_no_page: "rf_pages st (page_num r) = None \<Longrightarrow> rf_map st r = None"
  by (simp add: rf_map_def)

lemma rf_map_put:
  assumes "frame_page_num q = int i" and "1 \<le> i"
  shows "rf_map (put_page q st) = (\<lambda>r. if page_num r = int i then (if 0 \<le> slot_num r then slots q (nat (slot_num r)) else None) else rf_map st r)"
  using assms by (auto simp: rf_map_def put_page_def fun_eq_iff)

lemma rf_inv_put:
  assumes "rf_inv sz n st" and "row_page sz i q" and "1 \<le> i" and "i < n"
  shows "rf_inv sz n (put_page q st)"
proof -
  have "int i \<in> dom (rf_pages st)" using assms by (auto simp: rf_inv_def)
  moreover have "frame_page_num q = int i" using assms(2) by (simp add: row_page_def)
  ultimately show ?thesis using assms by (auto simp: rf_inv_def put_page_def)
qed

lemma rf_inv_free: "rf_inv sz n st \<Longrightarrow> F \<subseteq> int ` {1..<n} \<Longrightarrow> rf_inv sz n (st\<lparr>free_pages := F\<rparr>)"
  by (simp add: rf_inv_def)

lemma rf_map_free [simp]: "rf_map (st\<lparr>free_pages := F\<rparr>) = rf_map st"
  by (simp add: rf_map_def fun_eq_iff)

lemma rf_pages_free [simp]: "get_this_page (st\<lparr>free_pages := F\<rparr>) = get_this_page st"
  by (simp add: get_this_page_def fun_eq_iff)

lemma find_free_page_spec:
  assumes "rf_inv sz n st" and pick: "\<And>A. finite A \<Longrightarrow> A \<noteq> {} \<Longrightarrow> pick A \<in> A"
  shows "\<exists>found F. find_free_page pick st = Some (SUCCESS, found, st\<lparr>free_pages := F\<rparr>) \<and> F \<subseteq> free_pages st \<and>
    (\<forall>p. found = Some p \<longrightarrow> (\<exists>i. 1 \<le> i \<and> i < n \<and> rf_pages st (int i) = Some p \<and> \<not> is_full p))"
  using assms(1)
proof (induction "card (free_pages st)" arbitrary: st rule: less_induct)
  case less
  show ?case
  proof (cases "free_pages st = {}")
    case True
    then have "find_free_page pick st = Some (SUCCESS, None, st\<lparr>free_pages := {}\<rparr>)" by (subst find_free_page.simps) simp
    then show ?thesis by (intro exI [of _ None] exI [of _ "{}"]) simp
  next
    case False
    let ?m = "pick (free_pages st)"
    have fin: "finite (free_pages st)" using less.prems finite_subset [of "free_pages st" "int ` {1..<n}"] by (simp add: rf_inv_def)
    have m: "?m \<in> free_pages st" by (rule pick [OF fin False])
    then obtain i where i: "?m = int i" "1 \<le> i" "i < n" using less.prems by (auto simp: rf_inv_def)
    then have "?m \<in> dom (rf_pages st)" using less.prems by (simp add: rf_inv_def)
    then obtain p where p: "rf_pages st ?m = Some p" by blast
    then have g: "get_this_page st ?m = (SUCCESS, Some p)" using less.prems by (simp add: get_this_page_def rf_inv_def)
    show ?thesis
    proof (cases "is_full p")
      case False
      then have "find_free_page pick st = Some (SUCCESS, Some p, st\<lparr>free_pages := free_pages st\<rparr>)"
        using \<open>free_pages st \<noteq> {}\<close> g by (subst find_free_page.simps) simp
      then show ?thesis using False i p by (intro exI [of _ "Some p"] exI [of _ "free_pages st"]) auto
    next
      case True
      let ?st = "st\<lparr>free_pages := free_pages st - {?m}\<rparr>"
      have "card (free_pages ?st) < card (free_pages st)" using m fin card_Diff1_less [of "free_pages st" ?m] by simp
      moreover have "rf_inv sz n ?st" using less.prems by (intro rf_inv_free) (auto simp: rf_inv_def)
      ultimately obtain found F where IH: "find_free_page pick ?st = Some (SUCCESS, found, ?st\<lparr>free_pages := F\<rparr>)" "F \<subseteq> free_pages ?st"
        "\<forall>p. found = Some p \<longrightarrow> (\<exists>i. 1 \<le> i \<and> i < n \<and> rf_pages ?st (int i) = Some p \<and> \<not> is_full p)"
        using less.hyps [of ?st] by blast
      have "find_free_page pick st = find_free_page pick ?st"
        using False g True by (subst find_free_page.simps) simp
      then show ?thesis using IH by (intro exI [of _ found] exI [of _ F]) auto
    qed
  qed
qed

lemma new_record_page_spec:
  assumes inv: "rf_inv sz n st" and room: "n < 8 * length (fh_bitmap (file_header (rf_header st)))" "int n < MAX_PAGE_NUM" and sz: "0 < sz"
  shows "\<exists>found st'. new_record_page lga lgi sz st = Some (fst lgi, found, st') \<and> rf_inv sz (Suc n) st' \<and> rf_map st' = rf_map st \<and>
    length (fh_bitmap (file_header (rf_header st'))) = length (fh_bitmap (file_header (rf_header st))) \<and>
    (if fst lgi = SUCCESS then \<exists>p. found = Some p \<and> rf_pages st' (int n) = Some p \<and> record_num (page_header p) = 0 else found = None)"
proof -
  have r: "header_rel (file_header (rf_header st)) n {..<n}" and n: "1 \<le> n" using inv by (simp_all add: rf_inv_def)
  let ?h = "file_header (rf_header st)"
  have "page_count ?h = int n" using r by (simp add: header_rel_def)
  moreover obtain h' where h': "mark_allocated 1 (int n) ?h = Some h'" "header_rel h' (Suc n) (insert n {..<n})"
    "length (fh_bitmap h') = length (fh_bitmap ?h)"
    using header_rel_mark [OF r, of n "Suc n"] room by auto
  moreover have "find (\<lambda>k. k \<notin> {..<n}) [0..<n] = None" by (auto simp: find_None_iff)
  ultimately have al: "allocate_page_num lga (rf_header st) = Some (Extended (int n), \<lparr>file_header = h', hdr_lsn = snd lga, hdr_dirty = True\<rparr>)"
    using header_rel_free [OF r] room(2) by (simp add: allocate_page_num_def Let_def)
  let ?f = "\<lparr>file_header = h', hdr_lsn = snd lga, hdr_dirty = True\<rparr>"
  let ?st1 = "put_page (zero_page (int n)) (st\<lparr>rf_header := ?f\<rparr>)"
  have "page_rc st (int n) = SUCCESS" using inv by (simp add: rf_inv_def)
  then have ap: "allocate_page lga st = Some (SUCCESS, Some (zero_page (int n)), ?st1)" by (simp add: allocate_page_def al)
  have "int (length (page_data (zero_page (int n)))) = BP_PAGE_DATA_SIZE"
    by (simp add: zero_page_def BP_PAGE_DATA_SIZE_def BP_PAGE_SIZE_def)
  from init_empty_page_row_page [OF sz this, of n lgi] obtain q where
    q: "init_empty_page (zero_page (int n)) sz [] lgi = Some (fst lgi, q)" "row_page sz n q" "slots q = Map.empty" "record_num (page_header q) = 0"
    by (auto simp: zero_page_def)
  let ?st2 = "put_page q ?st1"
  have fq: "frame_page_num q = int n" using q(2) by (simp add: row_page_def)
  have st2: "?st2 = st\<lparr>rf_header := ?f, rf_pages := (rf_pages st)(int n \<mapsto> q)\<rparr>"
    by (simp add: put_page_def fq zero_page_def)
  have new: "rf_pages st (int n) = None"
  proof -
    have "int n \<notin> dom (rf_pages st)" using inv by (auto simp: rf_inv_def)
    then show ?thesis by blast
  qed
  have inv2: "rf_inv sz (Suc n) (?st2\<lparr>free_pages := F\<rparr>)" if "F \<subseteq> insert (int n) (free_pages st)" for F
    using inv q(2) h'(2) n that unfolding st2
    by (auto simp: rf_inv_def lessThan_Suc atLeastLessThanSuc)
  have map2: "rf_map ?st2 = rf_map st" unfolding st2 using q(3) new by (auto simp: rf_map_def fun_eq_iff)
  show ?thesis
  proof (cases "fst lgi = SUCCESS")
    case True
    have "new_record_page lga lgi sz st = Some (SUCCESS, Some q, ?st2\<lparr>free_pages := insert (int n) (free_pages ?st2)\<rparr>)"
      by (simp add: new_record_page_def ap q(1) True fq Let_def)
    moreover have "rf_inv sz (Suc n) (?st2\<lparr>free_pages := insert (int n) (free_pages ?st2)\<rparr>)"
      by (rule inv2) (simp add: st2)
    ultimately show ?thesis
      using True map2 h'(3) q(4) by (intro exI [of _ "Some q"] exI [of _ "?st2\<lparr>free_pages := insert (int n) (free_pages ?st2)\<rparr>"]) (simp add: st2)
  next
    case False
    have "new_record_page lga lgi sz st = Some (fst lgi, None, ?st2)"
      using False by (simp add: new_record_page_def ap q(1) Let_def)
    moreover have "rf_inv sz (Suc n) ?st2" using inv2 [of "free_pages ?st2"] by (simp add: st2 subset_insertI)
    ultimately show ?thesis
      using False map2 h'(3) by (intro exI [of _ None] exI [of _ ?st2]) (simp add: st2)
  qed
qed

text \<open>One slot of one page changes one entry of the map.\<close>

lemma rf_map_put_slot:
  assumes "rf_pages st (page_num r) = Some p" and "1 \<le> page_num r" and "0 \<le> slot_num r" and "frame_page_num q = page_num r"
    and "slots q = (slots p)(nat (slot_num r) := v)"
  shows "rf_map (put_page q st) = (rf_map st)(r := v)"
proof
  fix s
  have "s = r" if "page_num s = page_num r" "0 \<le> slot_num s" "nat (slot_num s) = nat (slot_num r)"
    using that assms(3) by (simp add: RID.expand)
  then show "rf_map (put_page q st) s = ((rf_map st)(r := v)) s"
    using assms by (auto simp: rf_map_def put_page_def)
qed

lemma rf_map_put_same:
  assumes "rf_pages st (frame_page_num q) = Some p" and "slots q = slots p"
  shows "rf_map (put_page q st) = rf_map st"
  using assms by (auto simp: rf_map_def put_page_def fun_eq_iff)

lemma same_layout_refl [simp]: "same_layout p p"
  by (simp add: same_layout_def)

lemma insert_into_page:
  assumes inv: "rf_inv sz n st" and p: "rf_pages st (int i) = Some p" and i: "1 \<le> i" "i < n"
    and room: "record_num (page_header p) \<noteq> record_capacity (page_header p)" and len: "sz \<le> int (length data)"
  shows "\<exists>r q. insert_record False p data lg = Some (SUCCESS, Some r, q) \<and> rf_inv sz n (put_page q st) \<and>
    rf_map st r = None \<and> rf_map (put_page q st) = (rf_map st)(r \<mapsto> take (nat sz) data)"
proof -
  have rp: "row_page sz i p" using inv p by (simp add: rf_inv_def)
  obtain k q where q: "insert_record False p data lg = Some (SUCCESS, Some (RID (frame_page_num p) (int k)), q)" "slots p k = None"
    "slots q = (slots p)(k \<mapsto> real_bytes p data)" "page_wf q" "same_layout p q"
    using insert_record_spec [of p data lg] rp room len by (auto simp: row_page_def)
  have f: "frame_page_num p = int i" "frame_page_num q = int i" "record_real_size (page_header p) = sz"
    using rp q(5) by (simp_all add: row_page_def same_layout_def)
  let ?r = "RID (int i) (int k)"
  have "rf_inv sz n (put_page q st)" by (rule rf_inv_put [OF inv row_page_same_layout [OF rp q(4,5)] i])
  moreover have "rf_map (put_page q st) = (rf_map st)(?r \<mapsto> take (nat sz) data)"
    by (rule rf_map_put_slot [of st ?r p]) (use p i f q(3) in simp_all)
  moreover have "rf_map st ?r = None" using p i q(2) by (simp add: rf_map_def)
  ultimately show ?thesis using q(1) f(1) by auto
qed

lemma rf_insert_record_spec:
  assumes inv: "rf_inv sz n st" and pick: "\<And>A. finite A \<Longrightarrow> A \<noteq> {} \<Longrightarrow> pick A \<in> A" and sz: "0 < sz" "sz \<le> 400000"
    and room: "n < 8 * length (fh_bitmap (file_header (rf_header st)))" "int n < MAX_PAGE_NUM" and len: "sz \<le> int (length data)"
  shows "\<exists>rc rid st' n'. rf_insert_record pick data sz (lga, lgi, lgr) st = Some (rc, rid, st') \<and> rf_inv sz n' st' \<and> n' \<le> Suc n \<and>
    length (fh_bitmap (file_header (rf_header st'))) = length (fh_bitmap (file_header (rf_header st))) \<and>
    (if rc = SUCCESS then \<exists>r. rid = Some r \<and> rf_map st r = None \<and> rf_map st' = (rf_map st)(r \<mapsto> take (nat sz) data)
     else rid = None \<and> rc = fst lgi \<and> rf_map st' = rf_map st)"
proof -
  obtain found F where ff: "find_free_page pick st = Some (SUCCESS, found, st\<lparr>free_pages := F\<rparr>)" "F \<subseteq> free_pages st"
    "\<forall>p. found = Some p \<longrightarrow> (\<exists>i. 1 \<le> i \<and> i < n \<and> rf_pages st (int i) = Some p \<and> \<not> is_full p)"
    using find_free_page_spec [OF inv pick] by blast
  let ?st1 = "st\<lparr>free_pages := F\<rparr>"
  have inv1: "rf_inv sz n ?st1" using ff(2) inv by (intro rf_inv_free) (auto simp: rf_inv_def)
  show ?thesis
  proof (cases found)
    case (Some p)
    then obtain i where i: "1 \<le> i" "i < n" "rf_pages ?st1 (int i) = Some p" "\<not> is_full p" using ff(3) by auto
    then obtain r q where q: "insert_record False p data lgr = Some (SUCCESS, Some r, q)" "rf_inv sz n (put_page q ?st1)"
      "rf_map ?st1 r = None" "rf_map (put_page q ?st1) = (rf_map ?st1)(r \<mapsto> take (nat sz) data)"
      using insert_into_page [OF inv1 i(3,1,2) _ len, of lgr] by (auto simp: is_full_def)
    have "rf_insert_record pick data sz (lga, lgi, lgr) st = Some (SUCCESS, Some r, put_page q ?st1)"
      using ff(1) Some q(1) by (simp add: rf_insert_record_def)
    then show ?thesis using q
      by (intro exI [of _ SUCCESS] exI [of _ "Some r"] exI [of _ "put_page q ?st1"] exI [of _ n]) (simp add: put_page_def)
  next
    case None
    have room1: "n < 8 * length (fh_bitmap (file_header (rf_header ?st1)))" using room(1) by simp
    obtain found' st2 where np: "new_record_page lga lgi sz ?st1 = Some (fst lgi, found', st2)" "rf_inv sz (Suc n) st2" "rf_map st2 = rf_map ?st1"
      "length (fh_bitmap (file_header (rf_header st2))) = length (fh_bitmap (file_header (rf_header ?st1)))"
      "if fst lgi = SUCCESS then \<exists>p. found' = Some p \<and> rf_pages st2 (int n) = Some p \<and> record_num (page_header p) = 0 else found' = None"
      using new_record_page_spec [OF inv1 room1 room(2) sz(1)] by blast
    show ?thesis
    proof (cases "fst lgi = SUCCESS")
      case False
      then have "rf_insert_record pick data sz (lga, lgi, lgr) st = Some (fst lgi, None, st2)"
        using ff(1) None np(1,5) by (simp add: rf_insert_record_def)
      then show ?thesis using np False by (intro exI [of _ "fst lgi"] exI [of _ None] exI [of _ st2] exI [of _ "Suc n"]) simp
    next
      case True
      then obtain p where p: "found' = Some p" "rf_pages st2 (int n) = Some p" "record_num (page_header p) = 0" using np(5) by auto
      have n: "1 \<le> n" using inv by (simp add: rf_inv_def)
      have "record_capacity (page_header p) = row_capacity sz" using np(2) p(2) by (simp add: rf_inv_def row_page_def)
      then have "record_num (page_header p) \<noteq> record_capacity (page_header p)" using p(3) row_capacity_pos [OF sz] by simp
      then obtain r q where q: "insert_record False p data lgr = Some (SUCCESS, Some r, q)" "rf_inv sz (Suc n) (put_page q st2)"
        "rf_map st2 r = None" "rf_map (put_page q st2) = (rf_map st2)(r \<mapsto> take (nat sz) data)"
        using insert_into_page [OF np(2) p(2) n _ _ len, of lgr] by auto
      have "rf_insert_record pick data sz (lga, lgi, lgr) st = Some (SUCCESS, Some r, put_page q st2)"
        using ff(1) None np(1) p(1) q(1) True by (simp add: rf_insert_record_def)
      then show ?thesis using q np(3,4)
        by (intro exI [of _ SUCCESS] exI [of _ "Some r"] exI [of _ "put_page q st2"] exI [of _ "Suc n"]) (simp add: put_page_def)
    qed
  qed
qed

lemma on_page_spec:
  assumes inv: "rf_inv sz n st" and m: "1 \<le> m"
    and f: "\<And>i p. m = int i \<Longrightarrow> rf_pages st m = Some p \<Longrightarrow> row_page sz i p \<Longrightarrow> \<exists>rc q. f p = Some (rc, q) \<and> page_wf q \<and> same_layout p q"
  shows "(rf_pages st m = None \<and> on_page m f st = Some (IOERR_READ, st)) \<or>
    (\<exists>p q rc. rf_pages st m = Some p \<and> m \<in> int ` {1..<n} \<and> f p = Some (rc, q) \<and> on_page m f st = Some (rc, put_page q st) \<and>
       rf_inv sz n (put_page q st) \<and> frame_page_num q = m)"
  using rf_inv_page [OF inv m]
proof (elim disjE exE conjE)
  assume "rf_pages st m = None" "get_this_page st m = (IOERR_READ, None)"
  then show ?thesis by (simp add: on_page_def)
next
  fix i p
  assume i: "m = int i" "1 \<le> i" "i < n" "rf_pages st m = Some p" "row_page sz i p" "get_this_page st m = (SUCCESS, Some p)"
  then obtain rc q where q: "f p = Some (rc, q)" "page_wf q" "same_layout p q" using f by blast
  have "rf_inv sz n (put_page q st)" by (rule rf_inv_put [OF inv row_page_same_layout [OF i(5) q(2,3)] i(2,3)])
  moreover have "frame_page_num q = m" using i(1,5) q(3) by (simp add: row_page_def same_layout_def)
  ultimately show ?thesis using i q by (auto simp: on_page_def)
qed

definition rid_ok :: "RID \<Rightarrow> bool" where
  \<comment> \<open>not the header page, and no negative slot; the code checks neither\<close>
  "rid_ok r \<longleftrightarrow> 1 \<le> page_num r \<and> 0 \<le> slot_num r"

lemma RID_nat: "page_num r = int i \<Longrightarrow> 0 \<le> slot_num r \<Longrightarrow> r = RID (int i) (int (nat (slot_num r)))"
  by (simp add: RID.expand)

lemma slots_beyond: "0 \<le> s \<Longrightarrow> \<not> s < record_capacity (page_header p) \<Longrightarrow> slots p (nat s) = None"
  using slots_bound [of p "nat s"] by (cases "slots p (nat s)") auto

text \<open>An update or a deletion fails and changes nothing, or acts on the entry of its record.\<close>

definition acts_on :: "int \<Rightarrow> nat \<Rightarrow> RID \<Rightarrow> byte list option \<Rightarrow> RecordFile \<Rightarrow> rc \<times> RecordFile \<Rightarrow> bool" where
  "acts_on sz n r v st res \<longleftrightarrow>
     (case res of (rc, st') \<Rightarrow> rf_inv sz n st' \<and> rf_header st' = rf_header st \<and>
        (if rf_map st r = None then rc \<noteq> SUCCESS \<and> rf_map st' = rf_map st else rc = SUCCESS \<and> rf_map st' = (rf_map st)(r := v)))"

lemma page_op_acts:
  assumes inv: "rf_inv sz n st" and r: "rid_ok r"
    and f: "\<And>i p. page_num r = int i \<Longrightarrow> rf_pages st (int i) = Some p \<Longrightarrow> row_page sz i p \<Longrightarrow>
      \<exists>rc q. f p = Some (rc, q) \<and> page_wf q \<and> same_layout p q \<and>
        (if slots p (nat (slot_num r)) = None then rc \<noteq> SUCCESS \<and> q = p else rc = SUCCESS \<and> slots q = (slots p)(nat (slot_num r) := v))"
  shows "\<exists>res. on_page (page_num r) f st = Some res \<and> acts_on sz n r v st res \<and> (fst res = SUCCESS \<longrightarrow> page_num r \<in> int ` {1..<n})"
proof -
  have pr: "1 \<le> page_num r" "0 \<le> slot_num r" using r by (simp_all add: rid_ok_def)
  have g: "\<exists>rc q. f p = Some (rc, q) \<and> page_wf q \<and> same_layout p q"
    if "page_num r = int i" "rf_pages st (page_num r) = Some p" "row_page sz i p" for i p
    using f [of i p] that by auto
  have "(rf_pages st (page_num r) = None \<and> on_page (page_num r) f st = Some (IOERR_READ, st)) \<or>
    (\<exists>p q rc. rf_pages st (page_num r) = Some p \<and> page_num r \<in> int ` {1..<n} \<and> f p = Some (rc, q) \<and>
       on_page (page_num r) f st = Some (rc, put_page q st) \<and> rf_inv sz n (put_page q st) \<and> frame_page_num q = page_num r)"
    by (rule on_page_spec [OF inv pr(1)]) (rule g)
  then
  consider (none) "rf_pages st (page_num r) = None" "on_page (page_num r) f st = Some (IOERR_READ, st)"
    | (page) p q rc where "rf_pages st (page_num r) = Some p" "page_num r \<in> int ` {1..<n}" "f p = Some (rc, q)"
      "on_page (page_num r) f st = Some (rc, put_page q st)" "rf_inv sz n (put_page q st)" "frame_page_num q = page_num r"
    by metis
  then show ?thesis
  proof cases
    case none
    then show ?thesis using inv by (simp add: acts_on_def rf_map_no_page)
  next
    case page
    obtain i where i: "page_num r = int i" using page(2) by auto
    have rp: "row_page sz i p" using inv page(1) i by (simp add: rf_inv_def)
    have m: "rf_map st r = slots p (nat (slot_num r))" using rf_map_page [OF pr(1) page(1)] pr(2) by simp
    show ?thesis
    proof (cases "slots p (nat (slot_num r)) = None")
      case True
      then have "q = p" "rc \<noteq> SUCCESS" using f [OF i _ rp] page(1,3) i by auto
      moreover have "rf_map (put_page q st) = rf_map st"
        by (rule rf_map_put_same [of _ _ p]) (use \<open>q = p\<close> page(1,6) in simp_all)
      ultimately show ?thesis using page m True by (simp add: acts_on_def put_page_def)
    next
      case False
      then have sq: "rc = SUCCESS" "slots q = (slots p)(nat (slot_num r) := v)" using f [OF i _ rp] page(1,3) i by auto
      have "rf_map (put_page q st) = (rf_map st)(r := v)" by (rule rf_map_put_slot [OF page(1) pr page(6) sq(2)])
      then show ?thesis using page m False sq by (simp add: acts_on_def put_page_def)
    qed
  qed
qed

lemma acts_add_free:
  assumes "acts_on sz n r v st res" and "fst res = SUCCESS \<longrightarrow> m \<in> int ` {1..<n}"
  shows "acts_on sz n r v st (add_free_page m res)"
proof -
  obtain rc st' where res: "res = (rc, st')" by fastforce
  have "rf_inv sz n (st'\<lparr>free_pages := insert m (free_pages st')\<rparr>)" if "rc = SUCCESS"
    using assms that by (intro rf_inv_free) (auto simp: res acts_on_def rf_inv_def)
  then show ?thesis using assms by (auto simp: res acts_on_def add_free_page_def)
qed

lemma rf_update_record_spec:
  assumes inv: "rf_inv sz n st" and r: "rid_ok r" and len: "sz \<le> int (length data)"
  shows "\<exists>res. rf_update_record data r lg st = Some res \<and> acts_on sz n r (Some (take (nat sz) data)) st res"
proof -
  have "\<exists>rc q. update_record False p r data lg = Some (rc, q) \<and> page_wf q \<and> same_layout p q \<and>
      (if slots p (nat (slot_num r)) = None then rc \<noteq> SUCCESS \<and> q = p
       else rc = SUCCESS \<and> slots q = (slots p)(nat (slot_num r) := Some (take (nat sz) data)))"
    if i: "page_num r = int i" and p: "row_page sz i p" for i p
  proof (cases "slot_num r < record_capacity (page_header p)")
    case True
    have "0 \<le> slot_num r" using r by (simp add: rid_ok_def)
    note rn = RID_nat [OF i this]
    have "int (nat (slot_num r)) < record_capacity (page_header p)" using True r by (simp add: rid_ok_def)
    from update_record_spec [OF _ this, of data "int i" lg] rn p len show ?thesis
      by (auto simp: row_page_def split: if_splits)
  next
    case False
    then have "slots p (nat (slot_num r)) = None" using slots_beyond r by (simp add: rid_ok_def)
    then show ?thesis using False p by (auto simp: update_record_def row_page_def)
  qed
  then show ?thesis
    using page_op_acts [OF inv r, of "\<lambda>p. update_record False p r data lg" "Some (take (nat sz) data)"] acts_add_free
    by (fastforce simp: rf_update_record_def)
qed

lemma rf_delete_record_spec:
  assumes inv: "rf_inv sz n st" and r: "rid_ok r" and cap: "slot_num r < row_capacity sz"
  shows "\<exists>res. rf_delete_record r lg st = Some res \<and> acts_on sz n r None st res"
proof -
  have "\<exists>rc q. delete_record False p r lg = Some (rc, q) \<and> page_wf q \<and> same_layout p q \<and>
      (if slots p (nat (slot_num r)) = None then rc \<noteq> SUCCESS \<and> q = p
       else rc = SUCCESS \<and> slots q = (slots p)(nat (slot_num r) := None))"
    if i: "page_num r = int i" and p: "row_page sz i p" for i p
  proof -
    have "0 \<le> slot_num r" using r by (simp add: rid_ok_def)
    note rn = RID_nat [OF i this]
    have "int (nat (slot_num r)) < record_capacity (page_header p)" using cap p r by (simp add: rid_ok_def row_page_def)
    from delete_record_spec [OF _ this, of "int i" lg] rn p show ?thesis by (auto simp: row_page_def split: if_splits)
  qed
  then show ?thesis
    using page_op_acts [OF inv r, of "\<lambda>p. delete_record False p r lg" None] acts_add_free
    by (fastforce simp: rf_delete_record_def)
qed

lemma get_record_slot:
  assumes "row_page sz i p" and "page_num r = int i" and "0 \<le> slot_num r"
  shows "\<exists>rc. get_record p r = Some (rc, map_option (Pair r) (slots p (nat (slot_num r)))) \<and> (rc = SUCCESS \<longleftrightarrow> slots p (nat (slot_num r)) \<noteq> None)"
proof (cases "slot_num r < record_capacity (page_header p)")
  case True
  then have "int (nat (slot_num r)) < record_capacity (page_header p)" using assms(3) by simp
  from get_record_spec [OF _ this, of "int i"] RID_nat [OF assms(2,3)] assms(1) show ?thesis
    by (auto simp: row_page_def split: option.splits)
next
  case False
  then have "slots p (nat (slot_num r)) = None" using slots_beyond assms(3) by simp
  then show ?thesis using False by (simp add: get_record_def)
qed

lemma rf_get_record_spec:
  assumes inv: "rf_inv sz n st" and r: "rid_ok r"
  shows "\<exists>rc. rf_get_record r st = Some (rc, map_option (Pair r) (rf_map st r)) \<and> (rc = SUCCESS \<longleftrightarrow> rf_map st r \<noteq> None)"
proof -
  have pr: "1 \<le> page_num r" "0 \<le> slot_num r" using r by (simp_all add: rid_ok_def)
  from rf_inv_page [OF inv pr(1)] show ?thesis
  proof (elim disjE exE conjE)
    fix i p
    assume i: "page_num r = int i" "rf_pages st (page_num r) = Some p" "row_page sz i p" "get_this_page st (page_num r) = (SUCCESS, Some p)"
    then show ?thesis using get_record_slot [OF i(3,1) pr(2)] rf_map_page [OF pr(1) i(2)] pr(2) by (auto simp: rf_get_record_def)
  qed (simp add: rf_get_record_def rf_map_no_page)
qed

definition visited :: "(RID \<times> byte list \<Rightarrow> bool \<times> byte list) \<Rightarrow> int \<Rightarrow> RID \<Rightarrow> byte list \<Rightarrow> byte list" where
  \<comment> \<open>the record that \<open>visit_record\<close> leaves\<close>
  "visited u sz r bs = (if fst (u (r, bs)) then take (nat sz) (snd (u (r, bs))) else bs)"

lemma rf_visit_record_spec:
  assumes inv: "rf_inv sz n st" and r: "rid_ok r" and len: "\<And>bs. sz \<le> int (length (snd (u (r, bs))))"
  shows "\<exists>res. rf_visit_record r u lg st = Some res \<and> acts_on sz n r (map_option (visited u sz r) (rf_map st r)) st res"
proof -
  let ?f = "\<lambda>p. case get_record p r of None \<Rightarrow> None | Some (rc, None) \<Rightarrow> Some (rc, p)
    | Some (rc, Some (_, bs)) \<Rightarrow> (case u (r, bs) of (updated, bs') \<Rightarrow> if updated then update_record False p r bs' lg else Some (rc, p))"
  have pr: "1 \<le> page_num r" "0 \<le> slot_num r" using r by (simp_all add: rid_ok_def)
  have f: "\<exists>rc q. ?f p = Some (rc, q) \<and> page_wf q \<and> same_layout p q \<and>
      (if slots p (nat (slot_num r)) = None then rc \<noteq> SUCCESS \<and> q = p
       else rc = SUCCESS \<and> slots q = (slots p)(nat (slot_num r) := map_option (visited u sz r) (rf_map st r)))"
    if i: "page_num r = int i" and pm: "rf_pages st (int i) = Some p" and p: "row_page sz i p" for i p
  proof -
    have m: "rf_map st r = slots p (nat (slot_num r))" using rf_map_page [OF pr(1), of st p] pm i pr(2) by simp
    obtain rc where g: "get_record p r = Some (rc, map_option (Pair r) (slots p (nat (slot_num r))))" "rc = SUCCESS \<longleftrightarrow> slots p (nat (slot_num r)) \<noteq> None"
      using get_record_slot [OF p i pr(2)] by blast
    have w: "page_wf p" using p by (simp add: row_page_def)
    show ?thesis
    proof (cases "slots p (nat (slot_num r))")
      case None
      then show ?thesis using g w by simp
    next
      case (Some bs)
      obtain b bs' where ub: "u (r, bs) = (b, bs')" by fastforce
      show ?thesis
      proof (cases b)
        case False
        have "slots p = (slots p)(nat (slot_num r) \<mapsto> bs)" using Some by (simp add: fun_upd_idem)
        then show ?thesis using False Some g ub w m by (simp add: visited_def)
      next
        case True
        have cap: "int (nat (slot_num r)) < record_capacity (page_header p)" using slots_bound Some by blast
        have l: "record_real_size (page_header p) \<le> int (length bs')" using len [of bs] ub p by (simp add: row_page_def)
        have "?f p = update_record False p r bs' lg" using g(1) Some ub True by simp
        moreover have "map_option (visited u sz r) (rf_map st r) = Some (real_bytes p bs')"
          using m Some ub True p by (simp add: visited_def row_page_def)
        ultimately show ?thesis
          using update_record_spec [OF w cap l, of "int i" lg] RID_nat [OF i pr(2)] Some by auto
      qed
    qed
  qed
  have "\<exists>res. on_page (page_num r) ?f st = Some res \<and> acts_on sz n r (map_option (visited u sz r) (rf_map st r)) st res \<and>
      (fst res = SUCCESS \<longrightarrow> page_num r \<in> int ` {1..<n})"
    by (rule page_op_acts [OF inv r]) (rule f)
  then show ?thesis unfolding rf_visit_record_def by blast
qed

text \<open>The pages of a record file are visited one after the other.\<close>

definition at_page :: "BPFileHeader \<Rightarrow> nat \<Rightarrow> BufferPoolIterator \<Rightarrow> bool" where
  "at_page h lo it \<longleftrightarrow> bpi_bitmap it = page_bits h \<and> current_page_num it + 1 = int lo"

lemma bpi_at_page:
  assumes "header_rel h n {..<n}" and "at_page h lo it"
  shows "bpi_has_next it = Some (lo < n)"
    and "lo < n \<Longrightarrow> \<exists>it'. bpi_next it = Some (int lo, it') \<and> at_page h (Suc lo) it'"
proof -
  obtain r where r: "next_setted_bit (page_bits h) (int lo) = Some r" "least_at (setted (page_bits h)) lo n r"
    using next_setted_bit_least [OF header_rel_bm_wf [OF assms(1)], of "int lo"] assms(1)
    by (auto simp: header_rel_def page_bits_def bitmap_init_def)
  have "setted (page_bits h) i" if "i < n" for i using assms(1) that by (simp add: header_rel_def)
  then have "r = (if lo < n then int lo else - 1)" using r(2) by (auto simp: least_at_def split: if_splits)
  then show "bpi_has_next it = Some (lo < n)" "lo < n \<Longrightarrow> \<exists>it'. bpi_next it = Some (int lo, it') \<and> at_page h (Suc lo) it'"
    using r(1) assms(2) by (auto simp: bpi_has_next_def bpi_next_def at_page_def)
qed

lemma at_page_init: "at_page h 1 (bpi_init h 1)"
  by (simp add: at_page_def bpi_init_def page_bits_def)

lemma init_free_pages_loop_spec:
  assumes "1 \<le> lo" and "rf_inv sz n st" and "at_page (file_header (rf_header st)) lo it"
  shows "\<exists>F. init_free_pages_loop st it = Some (SUCCESS, st\<lparr>free_pages := F\<rparr>) \<and> F \<subseteq> int ` {1..<n}"
  using assms
proof (induction "n - lo" arbitrary: st it lo)
  case 0
  have r: "header_rel (file_header (rf_header st)) n {..<n}" using 0 by (simp add: rf_inv_def)
  have "init_free_pages_loop st it = Some (SUCCESS, st\<lparr>free_pages := free_pages st\<rparr>)"
    using bpi_at_page(1) [OF r] 0 by (subst init_free_pages_loop.simps) simp
  then show ?case using 0 by (intro exI [of _ "free_pages st"]) (simp add: rf_inv_def)
next
  case (Suc d)
  have r: "header_rel (file_header (rf_header st)) n {..<n}" using Suc.prems by (simp add: rf_inv_def)
  have lo: "lo < n" using Suc.hyps(2) by simp
  obtain it' where it': "bpi_next it = Some (int lo, it')" "at_page (file_header (rf_header st)) (Suc lo) it'"
    using bpi_at_page(2) [OF r Suc.prems(3) lo] by blast
  have "int lo \<in> dom (rf_pages st)" using Suc.prems lo by (simp add: rf_inv_def)
  then obtain p where "rf_pages st (int lo) = Some p" by blast
  then have g: "get_this_page st (int lo) = (SUCCESS, Some p)" using Suc.prems by (simp add: get_this_page_def rf_inv_def)
  let ?F = "if is_full p then free_pages st else insert (int lo) (free_pages st)"
  have "rf_inv sz n (st\<lparr>free_pages := ?F\<rparr>)"
    using Suc.prems lo by (intro rf_inv_free) (auto simp: rf_inv_def)
  moreover have "d = n - Suc lo" using Suc.hyps(2) by simp
  ultimately obtain F where F: "init_free_pages_loop (st\<lparr>free_pages := ?F\<rparr>) it' = Some (SUCCESS, st\<lparr>free_pages := F\<rparr>)" "F \<subseteq> int ` {1..<n}"
    using Suc.hyps(1) [of "Suc lo" "st\<lparr>free_pages := ?F\<rparr>" it'] it'(2) by auto
  have "init_free_pages_loop st it = init_free_pages_loop (st\<lparr>free_pages := ?F\<rparr>) it'"
    using bpi_at_page(1) [OF r Suc.prems(3)] lo it'(1) g by (subst init_free_pages_loop.simps) simp
  then show ?case using F by auto
qed

lemma rf_reopen_spec:
  assumes "rf_inv sz n st"
  shows "\<exists>st'. rf_init (rf_close st) = Some (SUCCESS, st') \<and> rf_inv sz n st' \<and> rf_map st' = rf_map st \<and> rf_header st' = rf_header st"
proof -
  define st0 where "st0 = (rf_close st)\<lparr>rf_open := True\<rparr>"
  have st0: "rf_inv sz n st0" "rf_map st0 = rf_map st" "rf_header st0 = rf_header st"
    using assms by (auto simp: st0_def rf_close_def rf_inv_def rf_map_def fun_eq_iff)
  obtain F where F: "init_free_pages st0 = Some (SUCCESS, st0\<lparr>free_pages := F\<rparr>)" "F \<subseteq> int ` {1..<n}"
    using init_free_pages_loop_spec [OF order_refl st0(1) at_page_init] unfolding init_free_pages_def by blast
  have "\<not> rf_open (rf_close st)" by (simp add: rf_close_def)
  then have "rf_init (rf_close st) = Some (SUCCESS, st0\<lparr>free_pages := F\<rparr>)" using F(1) by (simp add: rf_init_def st0_def)
  then show ?thesis using st0 rf_inv_free [OF st0(1) F(2)] by simp
qed

section \<open>A record file is a map from record identifiers to bytes\<close>

datatype rf_call =
    Rf_insert "byte list" log_results
  | Rf_update RID "byte list" "rc \<times> int"
  | Rf_delete RID "rc \<times> int"
  | Rf_get RID
  | Rf_visit RID "RID \<times> byte list \<Rightarrow> bool \<times> byte list" "rc \<times> int"
  | Rf_reopen

datatype rf_reply = Rf_rid RID | Rf_code rc | Rf_bytes "byte list"

fun run_rf_call :: "(int set \<Rightarrow> int) \<Rightarrow> int \<Rightarrow> rf_call \<Rightarrow> RecordFile \<Rightarrow> (rf_reply \<times> RecordFile) option" where
  "run_rf_call pick sz (Rf_insert data lgs) st =
     map_option (\<lambda>(rc, rid, st'). (case rid of Some r \<Rightarrow> Rf_rid r | None \<Rightarrow> Rf_code rc, st')) (rf_insert_record pick data sz lgs st)"
| "run_rf_call pick sz (Rf_update r data lg) st = map_option (apfst Rf_code) (rf_update_record data r lg st)"
| "run_rf_call pick sz (Rf_delete r lg) st = map_option (apfst Rf_code) (rf_delete_record r lg st)"
| "run_rf_call pick sz (Rf_get r) st =
     map_option (\<lambda>(rc, rec). (case rec of Some (_, bs) \<Rightarrow> Rf_bytes bs | None \<Rightarrow> Rf_code rc, st)) (rf_get_record r st)"
| "run_rf_call pick sz (Rf_visit r u lg) st = map_option (apfst Rf_code) (rf_visit_record r u lg st)"
| "run_rf_call pick sz Rf_reopen st = map_option (apfst Rf_code) (rf_init (rf_close st))"

fun rf_calls :: "(int set \<Rightarrow> int) \<Rightarrow> int \<Rightarrow> rf_call list \<Rightarrow> RecordFile \<Rightarrow> (rf_reply list \<times> RecordFile) option" where
  "rf_calls pick sz [] st = Some ([], st)"
| "rf_calls pick sz (x # xs) st =
     (case run_rf_call pick sz x st of
        None \<Rightarrow> None
      | Some (a, st') \<Rightarrow> map_option (\<lambda>(as, st''). (a # as, st'')) (rf_calls pick sz xs st'))"

text \<open>
  The contract on a map, as the check of a reply: the map after the call, or \<open>None\<close> when the reply is not allowed. An insertion
  may take any identifier that is not in use, and fails only with the code of the log record of the page it had to add.
\<close>

fun change_entry :: "RID \<Rightarrow> byte list option \<Rightarrow> rf_reply \<Rightarrow> (RID \<rightharpoonup> byte list) \<Rightarrow> (RID \<rightharpoonup> byte list) option" where
  "change_entry r v (Rf_code rc) m =
     (if m r = None then if rc \<noteq> SUCCESS then Some m else None else if rc = SUCCESS then Some (m(r := v)) else None)"
| "change_entry r v _ m = None"

fun rid_map_call :: "int \<Rightarrow> rf_call \<Rightarrow> rf_reply \<Rightarrow> (RID \<rightharpoonup> byte list) \<Rightarrow> (RID \<rightharpoonup> byte list) option" where
  "rid_map_call sz (Rf_insert data lgs) a m =
     (case a of
        Rf_rid r \<Rightarrow> if m r = None then Some (m(r \<mapsto> take (nat sz) data)) else None
      | Rf_code rc \<Rightarrow> if rc \<noteq> SUCCESS \<and> rc = fst (fst (snd lgs)) then Some m else None
      | Rf_bytes _ \<Rightarrow> None)"
| "rid_map_call sz (Rf_update r data lg) a m = change_entry r (Some (take (nat sz) data)) a m"
| "rid_map_call sz (Rf_delete r lg) a m = change_entry r None a m"
| "rid_map_call sz (Rf_get r) a m =
     (case m r of
        Some bs \<Rightarrow> if a = Rf_bytes bs then Some m else None
      | None \<Rightarrow> (case a of Rf_code rc \<Rightarrow> if rc \<noteq> SUCCESS then Some m else None | _ \<Rightarrow> None))"
| "rid_map_call sz (Rf_visit r u lg) a m = change_entry r (map_option (visited u sz r) (m r)) a m"
| "rid_map_call sz Rf_reopen a m = (if a = Rf_code SUCCESS then Some m else None)"

fun rid_map_calls :: "int \<Rightarrow> rf_call list \<Rightarrow> rf_reply list \<Rightarrow> (RID \<rightharpoonup> byte list) \<Rightarrow> (RID \<rightharpoonup> byte list) option" where
  "rid_map_calls sz [] [] m = Some m"
| "rid_map_calls sz (x # xs) (a # as) m = Option.bind (rid_map_call sz x a m) (rid_map_calls sz xs as)"
| "rid_map_calls sz _ _ m = None"

definition rf_call_ok :: "int \<Rightarrow> rf_call \<Rightarrow> bool" where
  \<comment> \<open>enough bytes for a record, and identifiers the code can take; \<^verbatim>\<open>delete_record\<close> does not look at the number of slots\<close>
  "rf_call_ok sz x \<longleftrightarrow>
     (case x of
        Rf_insert data _ \<Rightarrow> sz \<le> int (length data)
      | Rf_update r data _ \<Rightarrow> rid_ok r \<and> sz \<le> int (length data)
      | Rf_delete r _ \<Rightarrow> rid_ok r \<and> slot_num r < row_capacity sz
      | Rf_get r \<Rightarrow> rid_ok r
      | Rf_visit r u _ \<Rightarrow> rid_ok r \<and> (\<forall>bs. sz \<le> int (length (snd (u (r, bs)))))
      | Rf_reopen \<Rightarrow> True)"

definition new_record_file :: "int \<Rightarrow> RecordFile" where
  \<comment> \<open>the handler on a file that \<^verbatim>\<open>create_file\<close> has just made\<close>
  "new_record_file bp =
     \<lparr>rf_header = \<lparr>file_header = new_header bp, hdr_lsn = 0, hdr_dirty = False\<rparr>, rf_pages = Map.empty, page_rc = (\<lambda>_. SUCCESS),
      rf_open = True, free_pages = {}\<rparr>"

lemma acts_change_entry:
  assumes "acts_on sz n r v st res"
  shows "change_entry r v (Rf_code (fst res)) (rf_map st) = Some (rf_map (snd res))"
  using assms by (cases res) (auto simp: acts_on_def split: if_splits)

definition rf_room :: "nat \<Rightarrow> RecordFile \<Rightarrow> bool" where
  "rf_room k st \<longleftrightarrow> k < 8 * length (fh_bitmap (file_header (rf_header st))) \<and> int k < MAX_PAGE_NUM"

lemma run_rf_call_spec:
  assumes inv: "rf_inv sz n st" and pick: "\<And>A. finite A \<Longrightarrow> A \<noteq> {} \<Longrightarrow> pick A \<in> A" and sz: "0 < sz" "sz \<le> 400000" and room: "rf_room n st"
    and ok: "rf_call_ok sz x"
  shows "\<exists>a st' n'. run_rf_call pick sz x st = Some (a, st') \<and> rf_inv sz n' st' \<and> n' \<le> Suc n \<and>
    length (fh_bitmap (file_header (rf_header st'))) = length (fh_bitmap (file_header (rf_header st))) \<and>
    rid_map_call sz x a (rf_map st) = Some (rf_map st')"
proof (cases x)
  case (Rf_insert data lgs)
  obtain lga lgi lgr where l: "lgs = (lga, lgi, lgr)" by (cases lgs) auto
  have "sz \<le> int (length data)" using ok Rf_insert by (simp add: rf_call_ok_def)
  from rf_insert_record_spec [OF inv pick sz _ _ this, of lga lgi lgr] room Rf_insert l show ?thesis
    by (force simp: rf_room_def split: if_splits)
next
  case (Rf_update r data lg)
  then obtain res where "rf_update_record data r lg st = Some res" "acts_on sz n r (Some (take (nat sz) data)) st res"
    using rf_update_record_spec [OF inv, of r data lg] ok by (auto simp: rf_call_ok_def)
  then show ?thesis using Rf_update acts_change_entry by (cases res) (fastforce simp: acts_on_def)
next
  case (Rf_delete r lg)
  then obtain res where "rf_delete_record r lg st = Some res" "acts_on sz n r None st res"
    using rf_delete_record_spec [OF inv, of r lg] ok by (auto simp: rf_call_ok_def)
  then show ?thesis using Rf_delete acts_change_entry by (cases res) (fastforce simp: acts_on_def)
next
  case (Rf_get r)
  then obtain rc where "rf_get_record r st = Some (rc, map_option (Pair r) (rf_map st r))" "rc = SUCCESS \<longleftrightarrow> rf_map st r \<noteq> None"
    using rf_get_record_spec [OF inv, of r] ok by (auto simp: rf_call_ok_def)
  then show ?thesis using Rf_get inv by (cases "rf_map st r") auto
next
  case (Rf_visit r u lg)
  then obtain res where "rf_visit_record r u lg st = Some res" "acts_on sz n r (map_option (visited u sz r) (rf_map st r)) st res"
    using rf_visit_record_spec [OF inv, of r u lg] ok by (auto simp: rf_call_ok_def)
  then show ?thesis using Rf_visit acts_change_entry by (cases res) (fastforce simp: acts_on_def)
next
  case Rf_reopen
  then show ?thesis using rf_reopen_spec [OF inv] by (auto intro!: exI [of _ n])
qed

section \<open>What a scan returns\<close>

abbreviation passes :: "(RID \<times> byte list \<Rightarrow> bool) \<Rightarrow> (RID \<times> byte list \<Rightarrow> rc) \<Rightarrow> RID \<times> byte list \<Rightarrow> bool" where
  "passes flt visit r \<equiv> flt r \<and> visit r = SUCCESS"

definition page_rest :: "RecordPage \<Rightarrow> nat \<Rightarrow> RecordPageIterator \<Rightarrow> bool" where
  \<comment> \<open>the iterator stands at the first record from slot \<open>start\<close> on\<close>
  "page_rest p start it \<longleftrightarrow> it_bitmap it = page_bitmap p \<and>
     least_at (\<lambda>i. slots p i \<noteq> None) start (nat (record_capacity (page_header p))) (next_slot_num it)"

lemma page_rest_step:
  assumes wf: "page_wf p" and at: "page_rest p start it" and more: "has_next it"
  shows "\<exists>rec it' start'. iterator_next p it old = Some (SUCCESS, rec, it') \<and> page_rest p start' it' \<and> start < start' \<and>
    start < nat (record_capacity (page_header p)) \<and> records_from p start = rec # records_from p start'"
proof -
  let ?c = "nat (record_capacity (page_header p))"
  obtain k where k: "next_slot_num it = int k" "start \<le> k" "k < ?c" "slots p k \<noteq> None" "\<And>i. start \<le> i \<Longrightarrow> i < k \<Longrightarrow> slots p i = None"
    using at more by (auto simp: page_rest_def has_next_def least_at_def split: if_splits)
  then obtain bs where bs: "slots p k = Some bs" by blast
  obtain r' where r': "next_setted_bit (page_bitmap p) (int (Suc k)) = Some r'" "least_at (\<lambda>i. slots p i \<noteq> None) (Suc k) ?c r'"
    using next_slot [OF wf] by blast
  have kc: "int k < record_capacity (page_header p)" using k(3) by simp
  let ?rec = "(RID (frame_page_num p) (int k), bs)" and ?it = "it\<lparr>next_slot_num := r'\<rparr>"
  have "iterator_next p it old = Some (SUCCESS, ?rec, ?it)"
    using get_record_spec [OF wf kc] bs k(1) r'(1) at by (simp add: iterator_next_def add.commute page_rest_def)
  moreover have "page_rest p (Suc k) ?it" using at r'(2) by (simp add: page_rest_def)
  moreover have "records_from p start = ?rec # records_from p (Suc k)"
    using upt_filter_first [of start k ?c "\<lambda>i. slots p i \<noteq> None"] k bs by (simp add: records_from_def)
  ultimately show ?thesis using k(2,3) by (intro exI [of _ ?rec] exI [of _ ?it] exI [of _ "Suc k"]) simp
qed

lemma page_rest_end: "page_rest p start it \<Longrightarrow> \<not> has_next it \<Longrightarrow> records_from p start = []"
  by (auto simp: page_rest_def has_next_def least_at_def records_from_def filter_empty_conv)

lemma fetch_in_page_spec:
  assumes wf: "page_wf p" and v: "\<And>r. visit r \<in> {SUCCESS, RECORD_INVISIBLE}"
  shows "page_rest p start it \<Longrightarrow>
    \<exists>rc rec it'. fetch_next_record_in_page flt visit p it old = Some (rc, rec, it') \<and>
      (case filter (passes flt visit) (records_from p start) of
         [] \<Rightarrow> rc = RECORD_EOF \<and> \<not> has_next it'
       | x # xs \<Rightarrow> rc = SUCCESS \<and> rec = x \<and> (\<exists>start'. page_rest p start' it' \<and> xs = filter (passes flt visit) (records_from p start')))"
proof (induction "nat (record_capacity (page_header p)) - start" arbitrary: start it old rule: less_induct)
  case less
  show ?case
  proof (cases "has_next it")
    case False
    then have "fetch_next_record_in_page flt visit p it old = Some (RECORD_EOF, no_record old, it)"
      by (subst fetch_next_record_in_page.simps) simp
    then show ?thesis using page_rest_end [OF less.prems False] False by simp
  next
    case True
    obtain rec it' start' where s: "iterator_next p it old = Some (SUCCESS, rec, it')" "page_rest p start' it'" "start < start'"
      "start < nat (record_capacity (page_header p))" "records_from p start = rec # records_from p start'"
      using page_rest_step [OF wf less.prems True] by blast
    note unf = fetch_next_record_in_page.simps [of flt visit p it old]
    show ?thesis
    proof (cases "passes flt visit rec")
      case False
      then have eq: "fetch_next_record_in_page flt visit p it old = fetch_next_record_in_page flt visit p it' rec"
        using True s(1) v [of rec] by (subst unf) auto
      have eq': "filter (passes flt visit) (records_from p start) = filter (passes flt visit) (records_from p start')"
        unfolding s(5) using False by simp
      show ?thesis unfolding eq eq' by (rule less.hyps [OF _ s(2)]) (use s(3,4) in linarith)
    next
      case pass: True
      then have "fetch_next_record_in_page flt visit p it old = Some (SUCCESS, rec, it')"
        using True s(1) by (subst unf) simp
      then show ?thesis using pass s(2,5) by auto
    qed
  qed
qed

definition file_records :: "RecordFile \<Rightarrow> nat \<Rightarrow> nat \<Rightarrow> (RID \<times> byte list) list" where
  "file_records st lo n = concat (map (\<lambda>i. records_from (the (rf_pages st (int i))) 0) [lo..<n])"

definition scan_at ::
  "(RID \<times> byte list \<Rightarrow> bool) \<Rightarrow> (RID \<times> byte list \<Rightarrow> rc) \<Rightarrow> RecordFile \<Rightarrow> nat \<Rightarrow> RecordFileScanner \<Rightarrow> (RID \<times> byte list) list \<Rightarrow> bool" where
  \<comment> \<open>the scanner still has the records \<open>R\<close> to give\<close>
  "scan_at flt visit st n sc R \<longleftrightarrow>
     (\<exists>lo Q. 1 \<le> lo \<and> at_page (file_header (rf_header st)) lo (bp_iterator sc) \<and> R = Q @ filter (passes flt visit) (file_records st lo n) \<and>
        (case record_page_iterator sc of
           None \<Rightarrow> Q = []
         | Some it \<Rightarrow>
             (\<not> has_next it \<and> Q = []) \<or>
             (\<exists>i p start. sc_page sc = Some (int i) \<and> rf_pages st (int i) = Some p \<and> page_wf p \<and> page_rest p start it \<and>
                Q = filter (passes flt visit) (records_from p start))))"

definition gives_first ::
  "(RID \<times> byte list \<Rightarrow> bool) \<Rightarrow> (RID \<times> byte list \<Rightarrow> rc) \<Rightarrow> RecordFile \<Rightarrow> nat \<Rightarrow> (RID \<times> byte list) list \<Rightarrow> (rc \<times> RecordFileScanner) option \<Rightarrow> bool" where
  "gives_first flt visit st n R res \<longleftrightarrow>
     (\<exists>rc sc'. res = Some (rc, sc') \<and>
        (case R of [] \<Rightarrow> rc = RECORD_EOF | x # xs \<Rightarrow> rc = SUCCESS \<and> next_record sc' = x \<and> scan_at flt visit st n sc' xs))"

lemma fetch_next_page_spec:
  assumes inv: "rf_inv sz n st" and v: "\<And>r. visit r \<in> {SUCCESS, RECORD_INVISIBLE}"
  shows "1 \<le> lo \<Longrightarrow> at_page (file_header (rf_header st)) lo (bp_iterator sc) \<Longrightarrow>
    gives_first flt visit st n (filter (passes flt visit) (file_records st lo n)) (fetch_next_page flt visit st sc)"
proof (induction "n - lo" arbitrary: lo sc)
  case 0
  have r: "header_rel (file_header (rf_header st)) n {..<n}" using inv by (simp add: rf_inv_def)
  have "\<exists>sc'. fetch_next_page flt visit st sc = Some (RECORD_EOF, sc')"
    using bpi_at_page(1) [OF r 0(3)] 0(1) by (subst fetch_next_page.simps) simp
  then show ?case using 0(1) by (simp add: gives_first_def file_records_def)
next
  case (Suc d)
  let ?h = "file_header (rf_header st)"
  have r: "header_rel ?h n {..<n}" using inv by (simp add: rf_inv_def)
  have lo: "lo < n" using Suc.hyps(2) by simp
  obtain pit where pit: "bpi_next (bp_iterator sc) = Some (int lo, pit)" "at_page ?h (Suc lo) pit"
    using bpi_at_page(2) [OF r Suc.prems(2) lo] by blast
  have "int lo \<in> dom (rf_pages st)" using inv Suc.prems(1) lo by (simp add: rf_inv_def)
  then obtain p where p: "rf_pages st (int lo) = Some p" by blast
  then have rp: "page_wf p" and g: "get_this_page st (int lo) = (SUCCESS, Some p)"
    using inv by (simp_all add: get_this_page_def rf_inv_def row_page_def)
  obtain it where it: "iterator_init p 0 = Some it" "page_rest p 0 it"
    using next_slot [OF rp, of 0] by (auto simp: iterator_init_def page_rest_def)
  obtain rc rec it' where f: "fetch_next_record_in_page flt visit p it (next_record sc) = Some (rc, rec, it')"
    "case filter (passes flt visit) (records_from p 0) of
         [] \<Rightarrow> rc = RECORD_EOF \<and> \<not> has_next it'
       | x # xs \<Rightarrow> rc = SUCCESS \<and> rec = x \<and> (\<exists>start'. page_rest p start' it' \<and> xs = filter (passes flt visit) (records_from p start'))"
    using fetch_in_page_spec [where visit = visit and flt = flt and old = "next_record sc", OF rp v it(2)] by blast
  let ?sc = "sc\<lparr>bp_iterator := pit, sc_page := Some (int lo), record_page_iterator := Some it', next_record := rec\<rparr>"
  have recs: "file_records st lo n = records_from p 0 @ file_records st (Suc lo) n"
    using lo p by (simp add: file_records_def upt_conv_Cons)
  have eq: "fetch_next_page flt visit st sc = (if rc \<noteq> RECORD_EOF then Some (rc, ?sc) else fetch_next_page flt visit st ?sc)"
    using bpi_at_page(1) [OF r Suc.prems(2)] lo pit(1) g it(1) f(1) by (subst fetch_next_page.simps) (simp add: Let_def)
  show ?case
  proof (cases "filter (passes flt visit) (records_from p 0)")
    case Nil
    then have "fetch_next_page flt visit st sc = fetch_next_page flt visit st ?sc" using eq f(2) by simp
    moreover have "gives_first flt visit st n (filter (passes flt visit) (file_records st (Suc lo) n)) (fetch_next_page flt visit st ?sc)"
      using Suc.hyps(2) pit(2) by (intro Suc.hyps(1)) simp_all
    ultimately show ?thesis using Nil by (simp add: recs)
  next
    case (Cons x xs)
    then obtain start' where c: "rc = SUCCESS" "rec = x" "page_rest p start' it'" "xs = filter (passes flt visit) (records_from p start')"
      using f(2) by auto
    have "scan_at flt visit st n ?sc (xs @ filter (passes flt visit) (file_records st (Suc lo) n))"
      unfolding scan_at_def using pit(2) p rp c(3,4) by (intro exI [of _ "Suc lo"] exI [of _ xs]) auto
    then show ?thesis using eq c(1,2) Cons by (simp add: recs gives_first_def)
  qed
qed

lemma fetch_next_record_spec:
  assumes inv: "rf_inv sz n st" and v: "\<And>r. visit r \<in> {SUCCESS, RECORD_INVISIBLE}" and at: "scan_at flt visit st n sc R"
  shows "gives_first flt visit st n R (fetch_next_record flt visit st sc)"
proof -
  obtain lo Q where lo: "1 \<le> lo" "at_page (file_header (rf_header st)) lo (bp_iterator sc)" "R = Q @ filter (passes flt visit) (file_records st lo n)"
    and Q: "case record_page_iterator sc of None \<Rightarrow> Q = []
         | Some it \<Rightarrow> (\<not> has_next it \<and> Q = []) \<or>
             (\<exists>i p start. sc_page sc = Some (int i) \<and> rf_pages st (int i) = Some p \<and> page_wf p \<and> page_rest p start it \<and>
                Q = filter (passes flt visit) (records_from p start))"
    using at by (auto simp: scan_at_def)
  have rest: "gives_first flt visit st n R (fetch_next_record flt visit st sc)"
    if "fetch_in_current_page flt visit st sc = Some (RECORD_EOF, sc')" "bp_iterator sc' = bp_iterator sc" "Q = []" for sc'
  proof -
    have "at_page (file_header (rf_header st)) lo (bp_iterator sc')" using lo(2) that(2) by simp
    from fetch_next_page_spec [where visit = visit and flt = flt, OF inv v lo(1) this] show ?thesis
      using lo(3) that by (simp add: fetch_next_record_def)
  qed
  show ?thesis
  proof (cases "record_page_iterator sc")
    case None
    then show ?thesis using Q by (intro rest [of sc]) (simp_all add: fetch_in_current_page_def)
  next
    case (Some it)
    show ?thesis
    proof (cases "has_next it")
      case False
      moreover have "Q = []" using Q Some False page_rest_end by fastforce
      ultimately show ?thesis
        using Some by (intro rest [of "sc\<lparr>next_record := no_record (next_record sc)\<rparr>"]) (simp_all add: fetch_in_current_page_def)
    next
      case True
      then obtain i p start where p: "sc_page sc = Some (int i)" "rf_pages st (int i) = Some p" "page_wf p" "page_rest p start it"
        "Q = filter (passes flt visit) (records_from p start)"
        using Q Some by auto
      have itb: "it\<lparr>it_bitmap := page_bitmap p\<rparr> = it" using p(4) by (simp add: page_rest_def)
      obtain rc rec it' where f: "fetch_next_record_in_page flt visit p it (next_record sc) = Some (rc, rec, it')"
        "case Q of [] \<Rightarrow> rc = RECORD_EOF \<and> \<not> has_next it'
         | x # xs \<Rightarrow> rc = SUCCESS \<and> rec = x \<and> (\<exists>start'. page_rest p start' it' \<and> xs = filter (passes flt visit) (records_from p start'))"
        using fetch_in_page_spec [where visit = visit and flt = flt and old = "next_record sc", OF p(3) v p(4)] p(5) by blast
      let ?sc = "sc\<lparr>record_page_iterator := Some it', next_record := rec\<rparr>"
      have cur: "fetch_in_current_page flt visit st sc = Some (rc, ?sc)"
        using Some True p(1,2) f(1) itb by (simp add: fetch_in_current_page_def)
      show ?thesis
      proof (cases Q)
        case Nil
        then show ?thesis using cur f(2) by (intro rest [of ?sc]) simp_all
      next
        case (Cons x xs)
        then obtain start' where c: "rc = SUCCESS" "rec = x" "page_rest p start' it'" "xs = filter (passes flt visit) (records_from p start')"
          using f(2) by auto
        have "scan_at flt visit st n ?sc (xs @ filter (passes flt visit) (file_records st lo n))"
          unfolding scan_at_def using lo(1,2) p(1-3) c(3,4) by (intro exI [of _ lo] exI [of _ xs]) auto
        then show ?thesis using cur c(1,2) Cons lo(3) by (simp add: fetch_next_record_def gives_first_def)
      qed
    qed
  qed
qed

lemma scan_file_spec:
  assumes inv: "rf_inv sz n st" and v: "\<And>r. visit r \<in> {SUCCESS, RECORD_INVISIBLE}"
  shows "scan_at flt visit st n sc R \<Longrightarrow> scan_file flt visit st sc acc = Some (RECORD_EOF, acc @ R)"
proof (induction R arbitrary: sc acc)
  case Nil
  from fetch_next_record_spec [where visit = visit, OF inv v Nil] show ?case
    by (subst scan_file.simps) (auto simp: gives_first_def scanner_next_def)
next
  case (Cons x xs)
  obtain sc' where "fetch_next_record flt visit st sc = Some (SUCCESS, sc')" "next_record sc' = x" "scan_at flt visit st n sc' xs"
    using fetch_next_record_spec [where visit = visit, OF inv v Cons.prems] by (auto simp: gives_first_def)
  then show ?case using Cons.IH [of sc' "acc @ [x]"] by (subst scan_file.simps) (simp add: scanner_next_def)
qed

lemma records_from_iff:
  assumes "row_page sz i p"
  shows "(r, bs) \<in> set (records_from p 0) \<longleftrightarrow> page_num r = int i \<and> 0 \<le> slot_num r \<and> slots p (nat (slot_num r)) = Some bs"
proof
  assume "(r, bs) \<in> set (records_from p 0)"
  then show "page_num r = int i \<and> 0 \<le> slot_num r \<and> slots p (nat (slot_num r)) = Some bs"
    using assms by (auto simp: records_from_def row_page_def)
next
  assume r: "page_num r = int i \<and> 0 \<le> slot_num r \<and> slots p (nat (slot_num r)) = Some bs"
  then have "int (nat (slot_num r)) < record_capacity (page_header p)" by (intro slots_bound) simp
  moreover have "r = RID (frame_page_num p) (int (nat (slot_num r)))" using r assms RID_nat by (simp add: row_page_def)
  ultimately show "(r, bs) \<in> set (records_from p 0)"
    using r unfolding records_from_def set_map set_filter
    by (intro image_eqI [of _ _ "nat (slot_num r)"]) auto
qed

lemma records_from_sorted: "sorted_wrt (<) (map fst (records_from p start))"
proof -
  have "sorted_wrt (\<lambda>i j. RID (frame_page_num p) (int i) < RID (frame_page_num p) (int j))
      (filter (\<lambda>i. slots p i \<noteq> None) [start..<nat (record_capacity (page_header p))])"
    by (rule sorted_wrt_filter, rule sorted_wrt_mono_rel [of _ "(<)"]) (auto simp: less_RID_def)
  then show ?thesis by (simp add: records_from_def sorted_wrt_map)
qed

lemma file_records_iff:
  assumes "rf_inv sz n st"
  shows "(r, bs) \<in> set (file_records st 1 n) \<longleftrightarrow> rf_map st r = Some bs"
proof
  assume "(r, bs) \<in> set (file_records st 1 n)"
  then obtain i where i: "1 \<le> i" "i < n" "(r, bs) \<in> set (records_from (the (rf_pages st (int i))) 0)" by (auto simp: file_records_def)
  then have "int i \<in> dom (rf_pages st)" using assms by (simp add: rf_inv_def)
  then obtain p where p: "rf_pages st (int i) = Some p" by blast
  then have "row_page sz i p" using assms by (simp add: rf_inv_def)
  from records_from_iff [OF this] i p show "rf_map st r = Some bs" by (simp add: rf_map_def)
next
  assume m: "rf_map st r = Some bs"
  then obtain p where p: "1 \<le> page_num r" "0 \<le> slot_num r" "rf_pages st (page_num r) = Some p" "slots p (nat (slot_num r)) = Some bs"
    by (auto simp: rf_map_def bind_eq_Some_conv split: if_splits)
  then have "page_num r \<in> dom (rf_pages st)" by blast
  then obtain i where i: "page_num r = int i" "1 \<le> i" "i < n" using assms by (auto simp: rf_inv_def)
  then have "row_page sz i p" using assms p(3) by (simp add: rf_inv_def)
  from records_from_iff [OF this] i p have "(r, bs) \<in> set (records_from (the (rf_pages st (int i))) 0)" by simp
  then show "(r, bs) \<in> set (file_records st 1 n)" using i by (auto simp: file_records_def)
qed

lemma file_records_sorted:
  assumes inv: "rf_inv sz n st"
  shows "1 \<le> lo \<Longrightarrow> sorted_wrt (<) (map fst (file_records st lo n)) \<and> (\<forall>r \<in> set (file_records st lo n). int lo \<le> page_num (fst r))"
proof (induction "n - lo" arbitrary: lo)
  case 0
  then show ?case by (simp add: file_records_def)
next
  case (Suc d)
  then have lo: "lo < n" by simp
  have "int lo \<in> dom (rf_pages st)" using inv lo Suc.prems by (simp add: rf_inv_def)
  then obtain p where p: "rf_pages st (int lo) = Some p" by blast
  then have rp: "row_page sz lo p" using inv by (simp add: rf_inv_def)
  have IH: "sorted_wrt (<) (map fst (file_records st (Suc lo) n))" "\<forall>r \<in> set (file_records st (Suc lo) n). int (Suc lo) \<le> page_num (fst r)"
    using Suc.hyps(1) [of "Suc lo"] Suc.hyps(2) by auto
  have recs: "file_records st lo n = records_from p 0 @ file_records st (Suc lo) n"
    using lo p by (simp add: file_records_def upt_conv_Cons)
  have pn: "page_num (fst r) = int lo" if "r \<in> set (records_from p 0)" for r
    using records_from_iff [OF rp, of "fst r" "snd r"] that by simp
  have "fst r < fst s" if "r \<in> set (records_from p 0)" "s \<in> set (file_records st (Suc lo) n)" for r s
  proof -
    have "page_num (fst r) < page_num (fst s)" using pn [OF that(1)] IH(2) that(2) by fastforce
    then show ?thesis by (simp add: less_RID_def)
  qed
  then have "sorted_wrt (<) (map fst (file_records st lo n))"
    using IH(1) records_from_sorted [of p 0] by (auto simp: recs sorted_wrt_append)
  then show ?case using pn IH(2) by (fastforce simp: recs)
qed

section \<open>Properties\<close>

lemma rf_calls_spec:
  assumes pick: "\<And>A. finite A \<Longrightarrow> A \<noteq> {} \<Longrightarrow> pick A \<in> A" and sz: "0 < sz" "sz \<le> 400000"
  shows "rf_inv sz n st \<Longrightarrow> rf_room (n + length xs) st \<Longrightarrow> \<forall>x \<in> set xs. rf_call_ok sz x \<Longrightarrow>
    \<exists>as st' n'. rf_calls pick sz xs st = Some (as, st') \<and> rid_map_calls sz xs as (rf_map st) = Some (rf_map st') \<and> rf_inv sz n' st'"
proof (induction xs arbitrary: st n)
  case Nil
  then show ?case by auto
next
  case (Cons x xs)
  have "rf_room n st" using Cons.prems(2) by (simp add: rf_room_def)
  from run_rf_call_spec [where pick = pick, OF Cons.prems(1) pick sz this, of x] Cons.prems(3) obtain a st1 n1 where
    one: "run_rf_call pick sz x st = Some (a, st1)" "rf_inv sz n1 st1" "n1 \<le> Suc n"
      "length (fh_bitmap (file_header (rf_header st1))) = length (fh_bitmap (file_header (rf_header st)))"
      "rid_map_call sz x a (rf_map st) = Some (rf_map st1)"
    by auto
  have "rf_room (n1 + length xs) st1" using Cons.prems(2) one(3,4) by (simp add: rf_room_def)
  then obtain as st' n' where rest: "rf_calls pick sz xs st1 = Some (as, st')" "rid_map_calls sz xs as (rf_map st1) = Some (rf_map st')" "rf_inv sz n' st'"
    using Cons.IH [OF one(2)] Cons.prems(3) by auto
  have "rf_calls pick sz (x # xs) st = Some (a # as, st')" using one(1) rest(1) by simp
  moreover have "rid_map_calls sz (x # xs) (a # as) (rf_map st) = Some (rf_map st')" using one(5) rest(2) by simp
  ultimately show ?case using rest(3) by blast
qed

lemma new_record_file_inv: "rf_inv sz 1 (new_record_file bp)"
proof -
  have "{..<Suc 0} = {0}" by auto
  then show ?thesis using new_header_rel [of bp] by (auto simp: rf_inv_def new_record_file_def)
qed

lemma new_record_file_map: "rf_map (new_record_file bp) = Map.empty"
  by (simp add: rf_map_def new_record_file_def fun_eq_iff)

lemma new_record_file_room: "int k < (BP_PAGE_DATA_SIZE - 12) * 8 \<Longrightarrow> rf_room k (new_record_file bp)"
  by (simp add: rf_room_def new_record_file_def length_new_bitmap MAX_PAGE_NUM_def BP_PAGE_DATA_SIZE_def BP_PAGE_SIZE_def)

lemma rf_calls_new:
  assumes "\<And>A. finite A \<Longrightarrow> A \<noteq> {} \<Longrightarrow> pick A \<in> A" and "0 < sz" and "sz \<le> 400000"
    and "\<forall>x \<in> set xs. rf_call_ok sz x" and "int (length xs) < (BP_PAGE_DATA_SIZE - 12) * 8 - 1"
  shows "\<exists>as st n. rf_calls pick sz xs (new_record_file bp) = Some (as, st) \<and> rid_map_calls sz xs as Map.empty = Some (rf_map st) \<and> rf_inv sz n st"
proof -
  have "rf_room (1 + length xs) (new_record_file bp)" by (rule new_record_file_room) (use assms(5) in simp)
  from rf_calls_spec [where pick = pick, OF assms(1-3) new_record_file_inv this assms(4)] show ?thesis
    unfolding new_record_file_map by blast
qed

text \<open>
  C6: a record file is a map from record identifiers to record bytes. From a new file on, for whatever order the set of
  free pages is kept in and whatever the log answers, every sequence of insertions, updates, deletions, reads, visits and reopenings
  runs to its end, every reply is the one the map gives (an insertion takes an identifier that is not in use, the other operations act on
  the entry of theirs and fail when there is none), and the records in the pages are the entries of that map.
\<close>

theorem record_file_refines_map:
  assumes "\<And>A. finite A \<Longrightarrow> A \<noteq> {} \<Longrightarrow> pick A \<in> A" and "0 < sz" and "sz \<le> 400000"
    and "\<forall>x \<in> set xs. rf_call_ok sz x" and "int (length xs) < (BP_PAGE_DATA_SIZE - 12) * 8 - 1"
  shows "\<exists>as st. rf_calls pick sz xs (new_record_file bp) = Some (as, st) \<and> rid_map_calls sz xs as Map.empty = Some (rf_map st)"
  using rf_calls_new [where pick = pick, OF assms] by blast

definition demo_rf_calls :: "rf_call list" where
  "demo_rf_calls =
     [Rf_insert [1, 2, 3, 4] ((SUCCESS, 1), (SUCCESS, 2), (SUCCESS, 3)), Rf_insert [5, 6, 7, 8] ((SUCCESS, 4), (SUCCESS, 5), (SUCCESS, 6)),
      Rf_reopen, Rf_get (RID 1 1), Rf_delete (RID 1 0) (SUCCESS, 7)]"

lemma demo_rf_calls_ok: "\<forall>x \<in> set demo_rf_calls. rf_call_ok 4 x"
proof -
  have "1 \<le> row_capacity 4" by (rule row_capacity_pos) simp_all
  then show ?thesis by (simp add: demo_rf_calls_def rf_call_ok_def rid_ok_def)
qed

theorem record_file_refines_map_witness:
  "\<exists>as st. rf_calls Min 4 demo_rf_calls (new_record_file 1) = Some (as, st) \<and> length as = 5 \<and>
     rid_map_calls 4 demo_rf_calls as Map.empty = Some (rf_map st)"
proof -
  have "int (length demo_rf_calls) < (BP_PAGE_DATA_SIZE - 12) * 8 - 1"
    by (simp add: demo_rf_calls_def BP_PAGE_DATA_SIZE_def BP_PAGE_SIZE_def)
  from record_file_refines_map [where pick = Min, OF Min_in _ _ demo_rf_calls_ok this, of 1] obtain as st where
    r: "rf_calls Min 4 demo_rf_calls (new_record_file 1) = Some (as, st)" "rid_map_calls 4 demo_rf_calls as Map.empty = Some (rf_map st)"
    by auto
  have len: "length bs = length xs" if "rid_map_calls 4 xs bs m = Some m'" for xs bs m m'
    using that by (induction "4 :: int" xs bs m rule: rid_map_calls.induct) (auto simp: bind_eq_Some_conv)
  from len [OF r(2)] have "length as = 5" by (simp add: demo_rf_calls_def)
  then show ?thesis using r by blast
qed

text \<open>
  C12: after any such sequence, the scanner gives every record of the file that passes the filter and is visible to the transaction
  exactly once, in the order of the identifiers, and then answers \<^verbatim>\<open>RECORD_EOF\<close>.
\<close>

theorem record_scan_complete:
  assumes "\<And>A. finite A \<Longrightarrow> A \<noteq> {} \<Longrightarrow> pick A \<in> A" and "0 < sz" and "sz \<le> 400000"
    and "\<forall>x \<in> set xs. rf_call_ok sz x" and "int (length xs) < (BP_PAGE_DATA_SIZE - 12) * 8 - 1"
    and run: "rf_calls pick sz xs (new_record_file bp) = Some (as, st)"
    and visit: "\<And>r. visit r \<in> {SUCCESS, RECORD_INVISIBLE}"
  shows "\<exists>recs. scan_file flt visit st (snd (open_scan st readonly old)) [] = Some (RECORD_EOF, recs) \<and> sorted_wrt (<) (map fst recs) \<and>
    set recs = {(r, bs). rf_map st r = Some bs \<and> flt (r, bs) \<and> visit (r, bs) = SUCCESS}"
proof -
  obtain n where inv: "rf_inv sz n st" using rf_calls_new [where pick = pick, OF assms(1-5), of bp] run by auto
  let ?R = "filter (\<lambda>r. flt r \<and> visit r = SUCCESS) (file_records st 1 n)"
  have "scan_at flt visit st n (snd (open_scan st readonly old)) ?R"
    unfolding scan_at_def open_scan_def using at_page_init by (intro exI [of _ 1] exI [of _ "[]"]) simp
  from scan_file_spec [where visit = visit, OF inv visit this, of "[]"]
  have scan: "scan_file flt visit st (snd (open_scan st readonly old)) [] = Some (RECORD_EOF, ?R)" by simp
  have "sorted_wrt (<) (map fst ?R)"
    using file_records_sorted [OF inv, of 1] by (auto simp: sorted_wrt_map intro: sorted_wrt_filter)
  moreover have "set ?R = {(r, bs). rf_map st r = Some bs \<and> flt (r, bs) \<and> visit (r, bs) = SUCCESS}"
    using file_records_iff [OF inv] by auto
  ultimately show ?thesis using scan by blast
qed

theorem record_scan_complete_witness:
  "\<exists>as st recs. rf_calls Min 4 demo_rf_calls (new_record_file 1) = Some (as, st) \<and>
     scan_file (\<lambda>r. snd r \<noteq> []) (\<lambda>_. SUCCESS) st (snd (open_scan st True (RID 0 0, []))) [] = Some (RECORD_EOF, recs) \<and>
     set recs = {(r, bs). rf_map st r = Some bs \<and> bs \<noteq> []}"
proof -
  have len: "int (length demo_rf_calls) < (BP_PAGE_DATA_SIZE - 12) * 8 - 1"
    by (simp add: demo_rf_calls_def BP_PAGE_DATA_SIZE_def BP_PAGE_SIZE_def)
  obtain as st where r: "rf_calls Min 4 demo_rf_calls (new_record_file 1) = Some (as, st)"
    using rf_calls_new [where pick = Min, OF Min_in _ _ demo_rf_calls_ok len, of 1] by auto
  from record_scan_complete [where pick = Min and visit = "\<lambda>_. SUCCESS" and flt = "\<lambda>r. snd r \<noteq> []" and readonly = True and old = "(RID 0 0, [])",
      OF Min_in _ _ demo_rf_calls_ok len r]
  show ?thesis using r by auto
qed

text \<open>A file whose pages cannot be read still opens, with no page known to be free.\<close>

lemma init_hides_read_error:
  assumes "header_rel (file_header (rf_header st)) n {..<n}" and "2 \<le> n" and "page_rc st 1 = IOERR_READ" and "\<not> rf_open st"
  shows "rf_init st = Some (SUCCESS, st\<lparr>rf_open := True\<rparr>)"
proof -
  note at = bpi_at_page [OF assms(1) at_page_init]
  obtain it' where it': "bpi_next (bpi_init (file_header (rf_header st)) 1) = Some (1, it')" using at(2) assms(2) by auto
  have "get_this_page (st\<lparr>rf_open := True\<rparr>) 1 = (IOERR_READ, None)" using assms(3) by (simp add: get_this_page_def)
  then have "init_free_pages (st\<lparr>rf_open := True\<rparr>) = Some (IOERR_READ, st\<lparr>rf_open := True\<rparr>)"
    using at(1) assms(2) it' unfolding init_free_pages_def by (subst init_free_pages_loop.simps) simp
  then show ?thesis using assms(4) by (simp add: rf_init_def)
qed

end
