(* ===== verification/Spec2Isabelle.thy ===== *)
theory Spec2Isabelle
  imports Bitmap Lower_Bound Lru_Cache Serializer Buffered_Writer Disk_Log_Handler Record_Log File_Header Double_Write Mvcc_Isolation Bplus_Redo Record_File
begin

text \<open>
  A verification development for the storage engine of MiniOB, the teaching database of this repository
  (\<^verbatim>\<open>src/src/observer\<close> and the library \<^verbatim>\<open>src/deps/common\<close> it builds on).

  The program. A table is a file of pages, an index a second one. Both are read and written through a buffer pool, whose
  first page (\<^verbatim>\<open>BPFileHeader\<close>) says which pages are allocated; pages go to disk by way of a double write buffer, which
  protects them against torn writes, with a CRC. A record page holds records of one size and a bitmap of its slots. Every change
  is first appended to the redo log (\<^verbatim>\<open>storage/clog\<close>): log modules (buffer pool, B+ tree, records, transactions) append
  payloads, a background thread writes them to log files, and after a restart the files are iterated and the payloads dispatched
  to the replayer of their module. Transactions (\<^verbatim>\<open>storage/trx\<close>) mark rows with the identifiers of the transactions that
  inserted and deleted them. Results go to a client through a buffered writer over a ring buffer (\<^verbatim>\<open>net\<close>).

  The theories, from the bottom up. Each opens with a note on its state and conventions.
  \<^item> \<^verbatim>\<open>Ob_Rc\<close>: the return codes (\<^verbatim>\<open>common/rc.h\<close>).
  \<^item> \<^verbatim>\<open>Ob_Prelude\<close>: bytes, little-endian integers, memory reads and list facts shared by all theories.
  \<^item> \<^verbatim>\<open>Bitmap\<close> (\<^verbatim>\<open>deps/common/lang/bitmap.cpp\<close>): get, set, clear and search of a bit over the memory of the bitmap.
  \<^item> \<^verbatim>\<open>Lower_Bound\<close> (\<^verbatim>\<open>lower_bound.h\<close>, \<^verbatim>\<open>comparator.cpp\<close>): binary search, with the interface \<open>three_way\<close> of a comparator.
  \<^item> \<^verbatim>\<open>Lru_Cache\<close> (\<^verbatim>\<open>lru_cache.h\<close>): the linked nodes of the cache; the interface \<open>recency_cache\<close> they implement.
  \<^item> \<^verbatim>\<open>Serializer\<close> (\<^verbatim>\<open>serializer.cpp\<close>): the byte buffers of log payloads.
  \<^item> \<^verbatim>\<open>Ring_Buffer\<close>, \<^verbatim>\<open>Buffered_Writer\<close> (\<^verbatim>\<open>net/ring_buffer.cpp\<close>, \<^verbatim>\<open>net/buffered_writer.cpp\<close>): a byte queue, the interface
    \<open>byte_queue\<close>, and the writer over a scripted \<^verbatim>\<open>write\<close> system call.
  \<^item> \<^verbatim>\<open>Io\<close> (\<^verbatim>\<open>deps/common/io/io.cpp\<close>): \<^verbatim>\<open>readn\<close> and \<^verbatim>\<open>writen\<close> on files.
  \<^item> \<^verbatim>\<open>Log_Entry\<close>, \<^verbatim>\<open>Log_File\<close>, \<^verbatim>\<open>Log_Buffer\<close>, \<^verbatim>\<open>Disk_Log_Handler\<close> (\<^verbatim>\<open>storage/clog\<close>): the redo log, from the bytes of an
    entry to the step relation \<open>log_step\<close> of the log thread and its clients, failed writes and their retries included.
    \<^verbatim>\<open>Log_Reading\<close>: what the reader makes of a file whose end is not a whole entry.
  \<^item> \<^verbatim>\<open>Record_Page\<close>, \<^verbatim>\<open>Record_Log\<close> (\<^verbatim>\<open>storage/record\<close>): a page of records on its bytes, its iterator, and the redo of its log.
  \<^item> \<^verbatim>\<open>Record_File\<close> (\<^verbatim>\<open>storage/record/record_manager.cpp\<close>): the records of a table over the pages of a file, and their scanner.
  \<^item> \<^verbatim>\<open>File_Header\<close> (\<^verbatim>\<open>storage/buffer/disk_buffer_pool.cpp\<close>, \<^verbatim>\<open>buffer_pool_log.cpp\<close>): page allocation, its log and its redo.
  \<^item> \<^verbatim>\<open>Crc\<close>, \<^verbatim>\<open>Double_Write\<close> (\<^verbatim>\<open>deps/common/math/crc.cpp\<close>, \<^verbatim>\<open>storage/buffer/double_write_buffer.cpp\<close>): the checksum and the
    double write buffer over a scripted disk; a crash is a run of an operation cut off inside one of its writes.
  \<^item> \<^verbatim>\<open>Mvcc\<close>, \<^verbatim>\<open>Mvcc_Isolation\<close> (\<^verbatim>\<open>storage/trx/mvcc_trx.cpp\<close>, \<^verbatim>\<open>mvcc_trx_log.cpp\<close>): transactions and their log.
  \<^item> \<^verbatim>\<open>Bplus_Node\<close>, \<^verbatim>\<open>Bplus_Tree\<close>, \<^verbatim>\<open>Bplus_Scanner\<close>, \<^verbatim>\<open>Bplus_Validate\<close> (\<^verbatim>\<open>storage/index/bplus_tree.cpp\<close> and its log): the nodes of
    the B+ tree, insertion and deletion with their mini transactions, the scanner and the validators. \<^verbatim>\<open>Key_Comparator\<close>
    (\<^verbatim>\<open>bplus_tree.h\<close>, \<^verbatim>\<open>common/type\<close>): the order of the keys.
  \<^item> The proof about the tree: \<^verbatim>\<open>Bplus_Effects\<close> (what the operations on nodes do to the pages), \<^verbatim>\<open>Bplus_Order\<close> (the interface
    \<open>key_order\<close> of a comparator and search in a node), \<^verbatim>\<open>Bplus_Shape\<close> (the invariant of the pages), \<^verbatim>\<open>Bplus_Split\<close>, \<^verbatim>\<open>Bplus_Insert\<close>,
    \<^verbatim>\<open>Bplus_Leaf\<close> (insertion), \<^verbatim>\<open>Bplus_Merge\<close>, \<^verbatim>\<open>Bplus_Delete\<close>, \<^verbatim>\<open>Bplus_Coalesce\<close>, \<^verbatim>\<open>Bplus_Correct\<close> (deletion and the end of a mini
    transaction), \<^verbatim>\<open>Bplus_Scan\<close>, \<^verbatim>\<open>Bplus_Height\<close>. \<^verbatim>\<open>Bplus_Index\<close> interprets \<open>key_order\<close> for the comparator of the code and
    states the properties over the set of the entries.
  \<^item> \<^verbatim>\<open>Bplus_Log\<close> (\<^verbatim>\<open>bplus_tree_log.cpp\<close>, \<^verbatim>\<open>bplus_tree_log_entry.cpp\<close>): the payloads of mini transactions and their redo; \<^verbatim>\<open>Bplus_Replay\<close>
    shows that every operation logs what it does, \<^verbatim>\<open>Bplus_Redo\<close> that replaying the log recovers an index.

  What is shown. Structures in memory refine simple ones: a bitmap is a set, the cache a recency list, the ring buffer a
  queue, a record page a map from slots to records, a record file
  a map from record identifiers to records, the header page a set of pages. Encodings can be read back: integers, payloads,
  log entries, log files. What the log acknowledged survives a restart, in every interleaving of the log thread with its
  clients, with writes that fail half way and crashes inside a write, up to the first entry written behind the bytes a failed
  write left. Redo is idempotent: from any version of the pages that a crash can leave, replaying the log reaches the final state,
  for record pages, for the header page and for the pages of an index. A B+ tree index is the set of its entries: insertion, deletion and range scans answer
  as on the set, through every cascade of splits, merges and redistributions, and its height is logarithmic. A page torn by a crash inside a write of the double write buffer is
  restored by it, if the tear shows in the checksum and the buffer has not been cleared before. Transactions do not
  see each other's changes before they should, commit returns and publishes, rollback returns and puts every row back to what it
  was before the transaction touched it. Where the code breaks such a
  promise, a lemma shows it on concrete values next to the property, which then excludes the case by a hypothesis.

  Conventions. A failed \<^verbatim>\<open>ASSERT\<close>, an access outside the memory of an object and a null or dangling pointer are \<open>None\<close>; a return
  code is a value of \<open>rc\<close>. What system calls and lower layers answer is an argument or a script, an empty script
  standing for success, unless a theory says otherwise. Integers are unbounded where the properties bound them by a hypothesis and
  cut to 32 bits (\<open>int32_of\<close>) where the code can leave the range. There is no fuel: loops are structural or have a proved measure, or
  recur over the script of system calls, which an endless loop exhausts; \<open>None\<close> is then a call that has not returned. Walks over
  the pages of an index are \<open>partial_function\<close>s, and the properties of the index say that they return.

  Not modelled, and why. The parser is generated. Network servers, thread handlers, sessions and the client are sockets and
  threads. The executor, optimizer, expressions, aggregation, vectorised operators and the type system of values are not modelled
  yet, nor are tables, their metadata (JSON, by a library), the view and vector index code. The frames and files of the buffer pool are not modelled either. Latches, pins and
  memory ordering are left out: operations are atomic, except in the log handler, where the critical sections interleave.
  The memory tracer, metrics, benchmarks and tools have no part in the behaviour of the database.
\<close>

end
